(* ===== verification/Prelude.thy ===== *)
theory Prelude
  imports Main "HOL-Library.AList" "HOL-Library.Word"
begin

text \<open>
  What the components share.

  \<^item> Exceptions: a fallible Python function returns \<open>'e + 'a\<close>, \<open>Inl\<close> the exception.
    \<open>rbind\<close> sequences two of them, \<open>rfold\<close> is a Python \<open>for\<close> loop whose body may raise.
  \<^item> Dictionaries: a Python \<open>dict\<close> keeps insertion order, so it is an association list.
    \<open>d[k] = v\<close> is \<open>AList.update k v d\<close> (in place, or appended), \<open>d.pop(k, None)\<close> is
    \<open>AList.delete k d\<close>, \<open>d.get(k)\<close> is \<open>map_of d k\<close>, and \<open>d.update(e)\<close> is
    \<open>dict_update d e\<close>.
  \<^item> Two interfaces every stateful component provides: \<open>invariant_step\<close> (a step that keeps an
    invariant, which may speak of the inputs still to come; so does every run of it) and its
    extension \<open>simulation_step\<close> (a step that refines an abstract one; so does every run).
\<close>

named_theorems ledger_simps \<open>unfolding rules of the ledger's rule engine\<close>

section \<open>Fallible functions\<close>

definition rbind :: "'e + 'a \<Rightarrow> ('a \<Rightarrow> 'e + 'b) \<Rightarrow> 'e + 'b" where
  "rbind m f = (case m of Inl e \<Rightarrow> Inl e | Inr x \<Rightarrow> f x)"

lemma rbind_Inl [simp]: "rbind (Inl e) f = Inl e"
  by (simp add: rbind_def)

lemma rbind_Inr [simp]: "rbind (Inr x) f = f x"
  by (simp add: rbind_def)

lemma rbind_eq_Inr [simp]: "rbind m f = Inr y \<longleftrightarrow> (\<exists>x. m = Inr x \<and> f x = Inr y)"
  by (auto simp: rbind_def split: sum.splits)

lemma rbind_eq_Inl: "rbind m f = Inl e \<longleftrightarrow> m = Inl e \<or> (\<exists>x. m = Inr x \<and> f x = Inl e)"
  by (auto simp: rbind_def split: sum.splits)

lemma rbind_assoc: "rbind (rbind m f) g = rbind m (\<lambda>x. rbind (f x) g)"
  by (simp add: rbind_def split: sum.splits)

lemma rbind_cong [fundef_cong]:
  "m = m' \<Longrightarrow> (\<And>x. m' = Inr x \<Longrightarrow> f x = g x) \<Longrightarrow> rbind m f = rbind m' g"
  by (auto simp: rbind_def split: sum.splits)

lemma if_Inl_eq_Inr [simp]:
  "(if b then Inl e else m) = Inr y \<longleftrightarrow> \<not> b \<and> m = Inr y"
  by simp

definition require :: "bool \<Rightarrow> 'e \<Rightarrow> 'e + unit" where
  "require b e = (if b then Inr () else Inl e)"

lemma require_eq_Inr [simp]: "require b e = Inr u \<longleftrightarrow> b"
  by (simp add: require_def)

lemma require_True [simp]: "require True e = Inr ()"
  by (simp add: require_def)

lemma require_False [simp]: "require False e = Inl e"
  by (simp add: require_def)

fun rfold :: "('s \<Rightarrow> 'a \<Rightarrow> 'e + 's) \<Rightarrow> 's \<Rightarrow> 'a list \<Rightarrow> 'e + 's" where
  "rfold f s [] = Inr s"
| "rfold f s (x # xs) = rbind (f s x) (\<lambda>s'. rfold f s' xs)"

lemma rfold_append: "rfold f s (xs @ ys) = rbind (rfold f s xs) (\<lambda>s'. rfold f s' ys)"
  by (induction xs arbitrary: s) (simp_all add: rbind_assoc)

section \<open>Dictionaries\<close>

type_synonym ('k, 'v) dict = "('k \<times> 'v) list"

definition dict_update :: "('k, 'v) dict \<Rightarrow> ('k, 'v) dict \<Rightarrow> ('k, 'v) dict" where
  "dict_update d e = fold (\<lambda>(k, v). AList.update k v) e d"

definition dict_get :: "('k, 'v) dict \<Rightarrow> 'k \<Rightarrow> 'v \<Rightarrow> 'v" where
  "dict_get d k v = (case map_of d k of None \<Rightarrow> v | Some x \<Rightarrow> x)"

definition dict_keys :: "('k, 'v) dict \<Rightarrow> 'k set" where
  "dict_keys d = fst ` set d"

abbreviation dict_wf :: "('k, 'v) dict \<Rightarrow> bool" where
  "dict_wf d \<equiv> distinct (map fst d)"

lemma map_of_update [simp]: "map_of (AList.update k v d) = (map_of d)(k \<mapsto> v)"
  by (rule update_conv')

lemma map_of_delete [simp]: "map_of (AList.delete k d) = (map_of d)(k := None)"
  by (rule delete_conv')

lemma map_of_eq_None_keys: "map_of d k = None \<longleftrightarrow> k \<notin> fst ` set d"
  by (simp add: map_of_eq_None_iff)

lemma dict_update_Nil [simp]: "dict_update d [] = d"
  by (simp add: dict_update_def)

lemma dict_update_Cons [simp]:
  "dict_update d ((k, v) # e) = dict_update (AList.update k v d) e"
  by (simp add: dict_update_def)

lemma dict_update_snoc [simp]:
  "dict_update d (e @ [(k, v)]) = AList.update k v (dict_update d e)"
  by (simp add: dict_update_def)

lemma dict_wf_dict_update [simp]: "dict_wf d \<Longrightarrow> dict_wf (dict_update d e)"
  by (induction e arbitrary: d) (auto simp: distinct_update)

lemma map_of_dict_update:
  "dict_wf e \<Longrightarrow> map_of (dict_update d e) k = (case map_of e k of None \<Rightarrow> map_of d k | Some v \<Rightarrow> Some v)"
proof (induction e arbitrary: d)
  case Nil
  then show ?case by simp
next
  case (Cons p e)
  obtain a b where p: "p = (a, b)" by (cases p)
  from Cons.prems p have wf: "dict_wf e" and a: "map_of e a = None"
    by (auto simp: map_of_eq_None_iff)
  show ?case
    using Cons.IH [OF wf, of "AList.update a b d"] a p by (auto split: option.splits)
qed

lemma update_commute:
  "k \<noteq> l \<Longrightarrow> k \<in> fst ` set d \<Longrightarrow>
     AList.update k v (AList.update l w d) = AList.update l w (AList.update k v d)"
  by (induction d) auto

lemma update_update [simp]: "AList.update k v (AList.update k w d) = AList.update k v d"
  by (induction d) auto

lemma keys_update: "fst ` set (AList.update k v d) = insert k (fst ` set d)"
  by (induction d) auto

lemma keys_dict_update: "fst ` set (dict_update d e) = fst ` set d \<union> fst ` set e"
proof (induction e arbitrary: d)
  case (Cons p e)
  obtain a b where "p = (a, b)" by (cases p)
  then show ?case using Cons.IH [of "AList.update a b d"] by (simp add: keys_update)
qed simp

lemma update_dict_update_present:
  "k \<in> fst ` set d \<Longrightarrow> k \<notin> fst ` set e \<Longrightarrow>
     AList.update k v (dict_update d e) = dict_update (AList.update k v d) e"
proof (induction e arbitrary: d)
  case Nil
  then show ?case by simp
next
  case (Cons p e)
  obtain a b where p: "p = (a, b)" by (cases p)
  with Cons.prems have "k \<noteq> a" "k \<notin> fst ` set e" by auto
  then have "AList.update k v (dict_update (AList.update a b d) e)
      = dict_update (AList.update k v (AList.update a b d)) e"
    using Cons.prems(1) by (intro Cons.IH) (auto simp: keys_update)
  with p Cons.prems(1) \<open>k \<noteq> a\<close> show ?case by (simp add: update_commute)
qed

text \<open>Updating the staged dictionary and merging is merging and updating: same bindings, same order.\<close>

lemma dict_update_update:
  "dict_wf e \<Longrightarrow> dict_update d (AList.update k v e) = AList.update k v (dict_update d e)"
proof (induction e arbitrary: d)
  case Nil
  then show ?case by simp
next
  case (Cons p e)
  obtain a b where p: "p = (a, b)" by (cases p)
  show ?case
  proof (cases "a = k")
    case True
    with Cons.prems p have "k \<notin> fst ` set e" by auto
    then show ?thesis
      using p True by (simp add: update_dict_update_present keys_update)
  next
    case False
    with Cons p show ?thesis by simp
  qed
qed

lemma delete_update_same [simp]: "AList.delete k (AList.update k v d) = AList.delete k d"
  by (induction d) auto

lemma delete_update_other:
  "k \<noteq> l \<Longrightarrow> AList.delete k (AList.update l v d) = AList.update l v (AList.delete k d)"
  by (induction d) auto

lemma delete_notin: "k \<notin> fst ` set d \<Longrightarrow> AList.delete k d = d"
  by (induction d) auto

lemma keys_delete: "fst ` set (AList.delete k d) = fst ` set d - {k}"
  by (induction d) auto

lemma update_notin: "k \<notin> fst ` set d \<Longrightarrow> AList.update k v d = d @ [(k, v)]"
  by (induction d) auto

lemma delete_dict_update:
  "k \<notin> fst ` set e \<Longrightarrow> AList.delete k (dict_update d e) = dict_update (AList.delete k d) e"
  by (induction e arbitrary: d) (auto simp: delete_update_other)

lemma dict_update_delete:
  "dict_wf e \<Longrightarrow> k \<notin> fst ` set d \<Longrightarrow>
     dict_update d (AList.delete k e) = AList.delete k (dict_update d e)"
proof (induction e arbitrary: d)
  case Nil
  then show ?case by (simp add: delete_notin)
next
  case (Cons p e)
  obtain a b where p: "p = (a, b)" by (cases p)
  show ?case
  proof (cases "a = k")
    case True
    with Cons.prems p have "k \<notin> fst ` set e" by auto
    then show ?thesis
      using p True Cons.prems(2) by (simp add: delete_notin delete_dict_update)
  next
    case False
    with Cons.prems have "dict_update (AList.update a b d) (AList.delete k e)
        = AList.delete k (dict_update (AList.update a b d) e)"
      by (intro Cons.IH) (auto simp: keys_update p)
    with False p show ?thesis by simp
  qed
qed

lemma set_update_wf:
  "dict_wf d \<Longrightarrow> set (AList.update k v d) = insert (k, v) {p \<in> set d. fst p \<noteq> k}"
  by (induction d) (auto simp: rev_image_eqI)

lemma map_of_Some_iff: "dict_wf d \<Longrightarrow> map_of d k = Some v \<longleftrightarrow> (k, v) \<in> set d"
  by (simp add: map_of_eq_Some_iff)

text \<open>A sum over a dictionary's values changes by the difference at the key written.\<close>

lemma sum_list_update:
  fixes f :: "'v \<Rightarrow> 'b::ab_group_add"
  assumes "dict_wf d"
  shows "sum_list (map (f \<circ> snd) (AList.update k v d))
       = sum_list (map (f \<circ> snd) d) - (case map_of d k of None \<Rightarrow> 0 | Some w \<Rightarrow> f w) + f v"
  using assms by (induction d) (auto simp: algebra_simps map_of_eq_None_iff split: option.splits)

lemma sum_list_delete:
  fixes f :: "'v \<Rightarrow> 'b::ab_group_add"
  assumes "dict_wf d"
  shows "sum_list (map (f \<circ> snd) (AList.delete k d))
       = sum_list (map (f \<circ> snd) d) - (case map_of d k of None \<Rightarrow> 0 | Some w \<Rightarrow> f w)"
  using assms
proof (induction d)
  case Nil
  then show ?case by simp
next
  case (Cons p d)
  then show ?case
    by (cases "fst p = k") (auto simp: algebra_simps split: option.splits)
qed

lemma dict_wf_update [simp]: "dict_wf d \<Longrightarrow> dict_wf (AList.update k v d)"
  by (rule distinct_update)

lemma dict_wf_delete [simp]: "dict_wf d \<Longrightarrow> dict_wf (AList.delete k d)"
  by (rule distinct_delete)

lemma dict_ext: "dict_wf d \<Longrightarrow> map fst d = map fst e \<Longrightarrow> map_of d = map_of e \<Longrightarrow> d = e"
proof (induction d arbitrary: e)
  case Nil
  then show ?case by simp
next
  case (Cons p d)
  then obtain q e' where e: "e = q # e'" by (cases e) auto
  from Cons.prems e have pq: "p = q" by (metis list.inject list.simps(9) map_of_Cons_code(2) option.inject prod.collapse)
  have "map_of d = map_of e'"
  proof
    fix k
    show "map_of d k = map_of e' k"
    proof (cases "k = fst p")
      case True
      with Cons.prems e pq show ?thesis by (metis distinct.simps(2) list.inject list.simps(9) map_of_eq_None_iff set_map)
    next
      case False
      have "map_of (p # d) k = map_of (q # e') k" using Cons.prems(3) unfolding e by (rule fun_cong)
      with False pq show ?thesis by (cases p) simp
    qed
  qed
  with Cons e pq show ?case by simp
qed

lemma keys_list_update: "map fst (AList.update k v d) = (if k \<in> fst ` set d then map fst d else map fst d @ [k])"
  by (induction d) auto

lemma dict_get_update [simp]: "dict_get (AList.update k v d) j x = (if j = k then v else dict_get d j x)"
  by (simp add: dict_get_def)

lemma map_of_filter_keys: "map_of (filter (\<lambda>(h, e). P h) d) k = (if P k then map_of d k else None)"
  by (induction d) auto

lemma keys_filter: "fst ` set (filter (\<lambda>(h, e). P h) d) = {k \<in> fst ` set d. P k}"
  by force

lemma dict_update_disjoint:
  "dict_wf e \<Longrightarrow> fst ` set e \<inter> fst ` set d = {} \<Longrightarrow> dict_update d e = d @ e"
proof (induction e arbitrary: d)
  case (Cons p e)
  obtain k x where p: "p = (k, x)" by (cases p)
  with Cons show ?case by (auto simp: update_notin)
qed simp

lemma delete_filter: "AList.delete h (filter (\<lambda>(k, e). P k) d) = filter (\<lambda>(k, e). P k \<and> k \<noteq> h) d"
  by (induction d) auto

lemma find_map_of: "dict_wf d \<Longrightarrow> List.find P d = Some (k, x) \<Longrightarrow> map_of d k = Some x"
  by (auto simp: find_Some_iff)

section \<open>Steps that keep an invariant, and steps that refine others\<close>

locale invariant_step =
  fixes step :: "'s \<Rightarrow> 'x \<Rightarrow> 'e + 's" and inv :: "'s \<Rightarrow> 'x list \<Rightarrow> bool"
  assumes inv_step: "inv s (x # xs) \<Longrightarrow> step s x = Inr s' \<Longrightarrow> inv s' xs"
begin

lemma run_keeps: "inv s xs \<Longrightarrow> rfold step s xs = Inr s' \<Longrightarrow> inv s' []"
  by (induction xs arbitrary: s) (auto dest: inv_step)

lemma run_keeps_prefix: "inv s (xs @ ys) \<Longrightarrow> rfold step s xs = Inr s' \<Longrightarrow> inv s' ys"
  by (induction xs arbitrary: s) (auto dest: inv_step)

end

locale simulation_step = invariant_step step inv
  for step :: "'s \<Rightarrow> 'x \<Rightarrow> 'e + 's" and inv :: "'s \<Rightarrow> 'x list \<Rightarrow> bool" +
  fixes astep :: "'a \<Rightarrow> 'x \<Rightarrow> 'e + 'a" and abs :: "'s \<Rightarrow> 'a"
  assumes sim: "inv s (x # xs) \<Longrightarrow> map_sum id abs (step s x) = astep (abs s) x"
begin

lemma run_sim: "inv s xs \<Longrightarrow> map_sum id abs (rfold step s xs) = rfold astep (abs s) xs"
proof (induction xs arbitrary: s)
  case Nil
  then show ?case by simp
next
  case (Cons x xs)
  show ?case
  proof (cases "step s x")
    case (Inl e)
    then show ?thesis using sim [OF Cons.prems] by (metis map_sum.simps(1) id_apply rbind_Inl rfold.simps(2))
  next
    case (Inr s')
    then have "astep (abs s) x = Inr (abs s')"
      using sim [OF Cons.prems] by (metis map_sum.simps(2))
    with Inr Cons.IH [OF inv_step [OF Cons.prems Inr]] show ?thesis by simp
  qed
qed

end

end
