(* ===== verification/Sha256.thy ===== *)
theory Sha256
  imports Prelude
begin

text \<open>
  SHA-256 (FIPS 180-4), the \<open>hashlib.sha256\<close> of Python's standard library, executable. The
  development never relies on a property of the function beyond the length of its digest:
  tamper evidence is stated as "the two inputs are equal, or here are two distinct byte strings
  with one digest" (\<open>sha256_collision\<close>).
\<close>

unbundle bit_operations_syntax

type_synonym byte = "8 word"
type_synonym u32 = "32 word"

definition sha_K :: "u32 list" where
  "sha_K = [
    1116352408, 1899447441, 3049323471, 3921009573, 961987163, 1508970993, 2453635748, 2870763221,
    3624381080, 310598401, 607225278, 1426881987, 1925078388, 2162078206, 2614888103, 3248222580,
    3835390401, 4022224774, 264347078, 604807628, 770255983, 1249150122, 1555081692, 1996064986,
    2554220882, 2821834349, 2952996808, 3210313671, 3336571891, 3584528711, 113926993, 338241895,
    666307205, 773529912, 1294757372, 1396182291, 1695183700, 1986661051, 2177026350, 2456956037,
    2730485921, 2820302411, 3259730800, 3345764771, 3516065817, 3600352804, 4094571909, 275423344,
    430227734, 506948616, 659060556, 883997877, 958139571, 1322822218, 1537002063, 1747873779,
    1955562222, 2024104815, 2227730452, 2361852424, 2428436474, 2756734187, 3204031479, 3329325298]"

type_synonym sha_state = "u32 \<times> u32 \<times> u32 \<times> u32 \<times> u32 \<times> u32 \<times> u32 \<times> u32"

definition sha_init :: sha_state where
  "sha_init = (1779033703, 3144134277, 1013904242, 2773480762,
               1359893119, 2600822924, 528734635, 1541459225)"

definition sha_rotr :: "nat \<Rightarrow> u32 \<Rightarrow> u32" where
  "sha_rotr n x = drop_bit n x OR push_bit (32 - n) x"

definition sha_round :: "u32 \<times> u32 \<Rightarrow> sha_state \<Rightarrow> sha_state" where
  "sha_round kw st = (case kw of (k, w) \<Rightarrow> case st of (a, b, c, d, e, f, g, h) \<Rightarrow>
     let s1 = sha_rotr 6 e XOR sha_rotr 11 e XOR sha_rotr 25 e;
         ch = (e AND f) XOR (NOT e AND g);
         t1 = h + s1 + ch + k + w;
         s0 = sha_rotr 2 a XOR sha_rotr 13 a XOR sha_rotr 22 a;
         maj = (a AND b) XOR (a AND c) XOR (b AND c);
         t2 = s0 + maj
     in (t1 + t2, a, b, c, d + t1, e, f, g))"

text \<open>The message schedule, newest word first: each step adds word \<open>t\<close> from words
  \<open>t - 2\<close>, \<open>t - 7\<close>, \<open>t - 15\<close> and \<open>t - 16\<close>.\<close>

fun sha_extend :: "nat \<Rightarrow> u32 list \<Rightarrow> u32 list" where
  "sha_extend 0 ws = ws"
| "sha_extend (Suc n) ws =
     (let w2 = ws ! 1; w7 = ws ! 6; w15 = ws ! 14; w16 = ws ! 15;
          s0 = sha_rotr 7 w15 XOR sha_rotr 18 w15 XOR drop_bit 3 w15;
          s1 = sha_rotr 17 w2 XOR sha_rotr 19 w2 XOR drop_bit 10 w2
      in sha_extend n ((w16 + s0 + w7 + s1) # ws))"

definition sha_add :: "sha_state \<Rightarrow> sha_state \<Rightarrow> sha_state" where
  "sha_add s t = (case s of (a, b, c, d, e, f, g, h) \<Rightarrow> case t of (a', b', c', d', e', f', g', h') \<Rightarrow>
     (a + a', b + b', c + c', d + d', e + e', f + f', g + g', h + h'))"

definition be_word :: "byte list \<Rightarrow> u32" where
  "be_word bs = foldl (\<lambda>w b. push_bit 8 w OR ucast b) 0 bs"

definition be_bytes :: "u32 \<Rightarrow> byte list" where
  "be_bytes w = [ucast (drop_bit 24 w), ucast (drop_bit 16 w), ucast (drop_bit 8 w), ucast w]"

fun group_words :: "byte list \<Rightarrow> u32 list" where
  "group_words (a # b # c # d # bs) = be_word [a, b, c, d] # group_words bs"
| "group_words _ = []"

definition sha_block :: "sha_state \<Rightarrow> byte list \<Rightarrow> sha_state" where
  "sha_block st block = (let ws = rev (sha_extend 48 (rev (group_words block)))
     in sha_add st (fold sha_round (zip sha_K ws) st))"

definition len_bytes :: "nat \<Rightarrow> byte list" where
  "len_bytes n = map (\<lambda>i. of_nat ((8 * n) div 256 ^ i)) (rev [0..<8])"

definition sha_pad :: "byte list \<Rightarrow> byte list" where
  "sha_pad m = m @ [0x80] @ replicate ((119 - length m mod 64) mod 64) 0 @ len_bytes (length m)"

fun sha_blocks :: "sha_state \<Rightarrow> byte list \<Rightarrow> sha_state" where
  "sha_blocks st bs = (if length bs < 64 then st else sha_blocks (sha_block st (take 64 bs)) (drop 64 bs))"

declare sha_blocks.simps [simp del]

definition digest_bytes :: "sha_state \<Rightarrow> byte list" where
  "digest_bytes st = (case st of (a, b, c, d, e, f, g, h) \<Rightarrow>
     concat (map be_bytes [a, b, c, d, e, f, g, h]))"

definition sha256 :: "byte list \<Rightarrow> byte list" where
  "sha256 m = digest_bytes (sha_blocks sha_init (sha_pad m))"

lemma length_sha256 [simp]: "length (sha256 m) = 32"
  by (simp add: sha256_def digest_bytes_def be_bytes_def split: prod.splits)

text \<open>Two distinct inputs with one digest: what no one is known to be able to find.\<close>

definition sha256_collision :: bool where
  "sha256_collision \<longleftrightarrow> (\<exists>x y. x \<noteq> y \<and> sha256 x = sha256 y)"

lemma sha256_eq: "sha256 x = sha256 y \<Longrightarrow> x = y \<or> sha256_collision"
  by (auto simp: sha256_collision_def)

end
