(* ===== verification/Text.thy ===== *)
theory Text
  imports Sha256 "HOL-Library.Product_Lexorder"
begin

text \<open>
  Python text as the ledger handles it. A \<open>str\<close> is a list of Unicode code points (\<open>ustr\<close>), so
  that lone surrogates, UTF-8 sizes and JSON escapes mean what they mean in the source. The
  theory holds the UTF-8 encoder, the two JSON string escapes of the standard library, the
  decimal and hexadecimal renderings, UUIDs (128-bit words), UTC instants, and the text rules of
  \<open>core.py\<close>: \<open>_check_text\<close>, \<open>_quote\<close>, \<open>_escape\<close> and \<open>_iso\<close>. The lemmas show that each
  rendering can be read back, which is what the hash payload's injectivity rests on.
\<close>

section \<open>Text and literals\<close>

type_synonym ustr = "nat list"

definition lit :: "string \<Rightarrow> ustr" where
  "lit s = map of_char s"

lemma lit_Nil [simp]: "lit [] = []"
  by (simp add: lit_def)

lemma lit_Cons [simp]: "lit (c # s) = of_char c # lit s"
  by (simp add: lit_def)

section \<open>UTF-8\<close>

definition utf8_char :: "nat \<Rightarrow> nat list option" where
  "utf8_char c =
     (if c < 0x80 then Some [c]
      else if c < 0x800 then Some [0xC0 + c div 64, 0x80 + c mod 64]
      else if 0xD800 \<le> c \<and> c < 0xE000 then None
      else if c < 0x10000 then Some [0xE0 + c div 4096, 0x80 + c div 64 mod 64, 0x80 + c mod 64]
      else if c < 0x110000 then
        Some [0xF0 + c div 262144, 0x80 + c div 4096 mod 64, 0x80 + c div 64 mod 64, 0x80 + c mod 64]
      else None)"

fun utf8_nats :: "ustr \<Rightarrow> nat list option" where
  "utf8_nats [] = Some []"
| "utf8_nats (c # cs) = (case utf8_char c of None \<Rightarrow> None | Some bs \<Rightarrow>
     (case utf8_nats cs of None \<Rightarrow> None | Some rest \<Rightarrow> Some (bs @ rest)))"

definition utf8_encode :: "ustr \<Rightarrow> byte list option" where
  "utf8_encode t = map_option (map of_nat) (utf8_nats t)"

definition unicode_scalar :: "nat \<Rightarrow> bool" where
  "unicode_scalar c \<longleftrightarrow> c < 0xD800 \<or> 0xE000 \<le> c \<and> c < 0x110000"

lemma utf8_char_None: "utf8_char c = None \<longleftrightarrow> \<not> unicode_scalar c"
  by (auto simp: utf8_char_def unicode_scalar_def)

lemma utf8_nats_None: "utf8_nats t = None \<longleftrightarrow> \<not> list_all unicode_scalar t"
  by (induction t) (auto simp: utf8_char_None [symmetric] split: option.splits)

fun utf8_head :: "nat list \<Rightarrow> nat \<times> nat list" where
  "utf8_head (a # bs) =
     (if a < 0x80 then (a, bs)
      else if a < 0xE0 then (64 * (a - 0xC0) + (bs ! 0 - 0x80), drop 1 bs)
      else if a < 0xF0 then
        (64 * (64 * (a - 0xE0) + (bs ! 0 - 0x80)) + (bs ! 1 - 0x80), drop 2 bs)
      else (64 * (64 * (64 * (a - 0xF0) + (bs ! 0 - 0x80)) + (bs ! 1 - 0x80)) + (bs ! 2 - 0x80),
            drop 3 bs))"
| "utf8_head [] = (0, [])"

lemma utf8_head_char:
  assumes "utf8_char c = Some bs"
  shows "utf8_head (bs @ r) = (c, r)"
proof -
  have m3: "64 * (64 * (c div 4096) + c div 64 mod 64) + c mod 64 = c"
  proof -
    have "64 * (c div 64 div 64) + c div 64 mod 64 = c div 64" by simp
    then show ?thesis by (simp add: div_mult2_eq [symmetric])
  qed
  have m4: "64 * (64 * (64 * (c div 262144) + c div 4096 mod 64) + c div 64 mod 64) + c mod 64 = c"
  proof -
    have "64 * (c div 4096 div 64) + c div 4096 mod 64 = c div 4096" by simp
    then have "64 * (c div 262144) + c div 4096 mod 64 = c div 4096"
      by (simp add: div_mult2_eq [symmetric])
    with m3 show ?thesis by simp
  qed
  consider "c < 0x80" | "0x80 \<le> c" "c < 0x800" | "0x800 \<le> c" "c < 0x10000"
    | "0x10000 \<le> c" "c < 0x110000"
    using assms by (force simp: utf8_char_def split: if_splits)
  then show ?thesis
  proof cases
    case 1
    with assms show ?thesis by (auto simp: utf8_char_def)
  next
    case 2
    then have "c div 64 < 32" by linarith
    with 2 assms show ?thesis by (auto simp: utf8_char_def)
  next
    case 3
    then have "c div 4096 < 16" by linarith
    with 3 assms m3 show ?thesis by (auto simp: utf8_char_def split: if_splits)
  next
    case 4
    with assms m4 show ?thesis by (auto simp: utf8_char_def split: if_splits)
  qed
qed

lemma utf8_char_prefix:
  "utf8_char c = Some bs \<Longrightarrow> utf8_char d = Some bs' \<Longrightarrow> bs @ r = bs' @ r' \<Longrightarrow> c = d \<and> r = r'"
  using utf8_head_char [of c bs r] utf8_head_char [of d bs' r'] by simp

lemma utf8_char_bytes: "utf8_char c = Some bs \<Longrightarrow> b \<in> set bs \<Longrightarrow> b < 256"
  by (auto simp: utf8_char_def split: if_splits)

lemma utf8_nats_bytes: "utf8_nats t = Some bs \<Longrightarrow> b \<in> set bs \<Longrightarrow> b < 256"
  by (induction t arbitrary: bs) (auto split: option.splits dest: utf8_char_bytes)

lemma utf8_char_nonempty: "utf8_char c = Some bs \<Longrightarrow> bs \<noteq> []"
  by (auto simp: utf8_char_def split: if_splits)

lemma utf8_nats_inj: "utf8_nats t = Some bs \<Longrightarrow> utf8_nats t' = Some bs \<Longrightarrow> t = t'"
proof (induction t arbitrary: t' bs)
  case Nil
  then show ?case by (cases t') (auto split: option.splits dest: utf8_char_nonempty)
next
  case (Cons c t)
  then obtain u r where c: "utf8_char c = Some u" "utf8_nats t = Some r" "bs = u @ r"
    by (auto split: option.splits)
  with Cons.prems(2) obtain d t'' where t': "t' = d # t''"
    by (cases t') (auto dest: utf8_char_nonempty)
  with Cons.prems(2) obtain u' r' where d: "utf8_char d = Some u'" "utf8_nats t'' = Some r'"
      "bs = u' @ r'"
    by (auto split: option.splits)
  from utf8_char_prefix [OF c(1) d(1)] c(3) d(3) have "c = d" "r = r'" by metis+
  with Cons.IH [OF c(2)] d(2) t' show ?case by simp
qed

lemma map_of_nat_byte_inj:
  assumes "list_all (\<lambda>b. b < 256) xs" "list_all (\<lambda>b. b < 256) ys"
    and "map of_nat xs = (map of_nat ys :: byte list)"
  shows "xs = ys"
proof -
  have inv: "list_all (\<lambda>b. b < 256) zs \<Longrightarrow> map unat (map of_nat zs :: byte list) = zs" for zs
    by (induction zs) (auto simp: unat_of_nat)
  then show ?thesis using assms by metis
qed

lemma utf8_encode_inj:
  assumes "utf8_encode t = Some bs" "utf8_encode t' = Some bs"
  shows "t = t'"
proof -
  obtain xs ys where "utf8_nats t = Some xs" "utf8_nats t' = Some ys"
      "bs = map of_nat xs" "bs = map of_nat ys"
    using assms by (auto simp: utf8_encode_def)
  then have "xs = ys"
    by (intro map_of_nat_byte_inj) (auto simp: list_all_iff dest: utf8_nats_bytes)
  with \<open>utf8_nats t = Some xs\<close> \<open>utf8_nats t' = Some ys\<close> show ?thesis
    using utf8_nats_inj by blast
qed

section \<open>Numbers\<close>

fun digits :: "nat \<Rightarrow> ustr" where
  "digits n = (if n < 10 then [48 + n] else digits (n div 10) @ [48 + n mod 10])"

declare digits.simps [simp del]

definition int_text :: "int \<Rightarrow> ustr" where
  "int_text i = (if i < 0 then 45 # digits (nat (- i)) else digits (nat i))"

definition fixed_digits :: "nat \<Rightarrow> nat \<Rightarrow> nat \<Rightarrow> nat list" where
  "fixed_digits b k n = map (\<lambda>i. n div b ^ i mod b) (rev [0..<k])"

definition hex_digit :: "nat \<Rightarrow> nat" where
  "hex_digit n = (if n < 10 then 48 + n else 87 + n)"

definition hex_bytes :: "byte list \<Rightarrow> ustr" where
  "hex_bytes bs = concat (map (\<lambda>b. [hex_digit (unat b div 16), hex_digit (unat b mod 16)]) bs)"

definition dec_field :: "nat \<Rightarrow> nat \<Rightarrow> ustr" where
  "dec_field k n = map (\<lambda>d. 48 + d) (fixed_digits 10 k n)"

lemma length_fixed_digits [simp]: "length (fixed_digits b k n) = k"
  by (simp add: fixed_digits_def)

lemma fixed_digits_inj:
  "n < b ^ k \<Longrightarrow> m < b ^ k \<Longrightarrow> fixed_digits b k n = fixed_digits b k m \<Longrightarrow> n = m"
proof (induction k arbitrary: n m)
  case 0
  then show ?case by simp
next
  case (Suc k)
  have split: "fixed_digits b (Suc k) x = fixed_digits b k (x div b) @ [x mod b]" for x
  proof -
    have "rev [0..<Suc k] = map Suc (rev [0..<k]) @ [0]"
      by (metis rev.simps(2) rev_map upt_conv_Cons map_Suc_upt zero_less_Suc)
    then show ?thesis by (simp add: fixed_digits_def div_mult2_eq [symmetric])
  qed
  have "n div b = m div b" "n mod b = m mod b"
    using Suc by (auto simp: split less_mult_imp_div_less mult.commute)
  then show ?case by (metis div_mult_mod_eq)
qed

lemma dec_field_inj: "n < 10 ^ k \<Longrightarrow> m < 10 ^ k \<Longrightarrow> dec_field k n = dec_field k m \<Longrightarrow> n = m"
  unfolding dec_field_def by (rule fixed_digits_inj) (auto simp: inj_map_eq_map inj_on_def)

lemma length_dec_field [simp]: "length (dec_field k n) = k"
  by (simp add: dec_field_def)

lemma fixed_digits_less: "0 < b \<Longrightarrow> d \<in> set (fixed_digits b k n) \<Longrightarrow> d < b"
  by (auto simp: fixed_digits_def)

lemma dec_field_chars: "c \<in> set (dec_field k n) \<Longrightarrow> 48 \<le> c \<and> c \<le> 57"
  by (auto simp: dec_field_def dest: fixed_digits_less [rotated])

lemma digits_chars: "c \<in> set (digits n) \<Longrightarrow> 48 \<le> c \<and> c \<le> 57"
proof (induction n rule: digits.induct)
  case (1 n)
  show ?case
  proof (cases "n < 10")
    case True
    with "1.prems" show ?thesis by (auto simp: digits.simps [of n])
  next
    case False
    with "1.prems" have "c \<in> set (digits (n div 10)) \<or> c = 48 + n mod 10"
      by (auto simp: digits.simps [of n])
    moreover have "n mod 10 < 10" by simp
    ultimately show ?thesis using "1.IH" [OF False] by (auto simp del: mod_less_divisor)
  qed
qed

definition digits_value :: "ustr \<Rightarrow> nat" where
  "digits_value t = foldl (\<lambda>n c. n * 10 + (c - 48)) 0 t"

lemma digits_value_digits [simp]: "digits_value (digits n) = n"
proof (induction n rule: digits.induct)
  case (1 n)
  then show ?case by (cases "n < 10") (simp_all add: digits.simps [of n] digits_value_def)
qed

lemma length_digits: "n < 10 ^ k \<Longrightarrow> 0 < k \<Longrightarrow> length (digits n) \<le> k"
proof (induction k arbitrary: n)
  case (Suc k)
  show ?case
  proof (cases "n < 10")
    case False
    then have "0 < k" using Suc.prems by (cases k) auto
    moreover have "n div 10 < 10 ^ k" using Suc.prems by (simp add: less_mult_imp_div_less mult.commute)
    ultimately show ?thesis using Suc.IH False by (subst digits.simps) simp
  qed (simp add: digits.simps)
qed simp

lemma digits_inj: "digits n = digits m \<Longrightarrow> n = m"
  by (metis digits_value_digits)

lemma digits_nonempty [simp]: "digits n \<noteq> []"
  by (subst digits.simps) simp

lemma int_text_inj: "int_text i = int_text j \<Longrightarrow> i = j"
proof -
  have no: "digits n \<noteq> 45 # t" for n t
    using digits_chars [of 45 n] by auto
  show "int_text i = int_text j \<Longrightarrow> i = j"
    using no by (auto simp: int_text_def dest: digits_inj split: if_splits) (metis no)+
qed

lemma hex_digit_inj: "n < 16 \<Longrightarrow> m < 16 \<Longrightarrow> hex_digit n = hex_digit m \<Longrightarrow> n = m"
  by (auto simp: hex_digit_def split: if_splits)

lemma length_hex_bytes [simp]: "length (hex_bytes bs) = 2 * length bs"
  by (induction bs) (auto simp: hex_bytes_def)

definition is_hex_lower :: "nat \<Rightarrow> bool" where
  "is_hex_lower c \<longleftrightarrow> 48 \<le> c \<and> c \<le> 57 \<or> 97 \<le> c \<and> c \<le> 102"

lemma is_hex_digit: "n < 16 \<Longrightarrow> is_hex_lower (hex_digit n)"
  by (auto simp: hex_digit_def is_hex_lower_def)

lemma unat_byte: "unat (b :: byte) < 256"
  using unsigned_less [of b, where 'a = nat] by simp

lemma hex_bytes_chars: "list_all is_hex_lower (hex_bytes bs)"
proof (induction bs)
  case Nil
  then show ?case by (simp add: hex_bytes_def)
next
  case (Cons b bs)
  have "unat b div 16 < 16" using unat_byte [of b] by simp
  with Cons show ?case by (simp add: hex_bytes_def is_hex_digit)
qed

lemma hex_bytes_inj: "hex_bytes bs = hex_bytes cs \<Longrightarrow> bs = cs"
proof (induction bs arbitrary: cs)
  case Nil
  then show ?case by (cases cs) (auto simp: hex_bytes_def)
next
  case (Cons b bs)
  then obtain c cs' where cs: "cs = c # cs'"
    by (cases cs) (auto simp: hex_bytes_def)
  have "unat b div 16 < 16" "unat c div 16 < 16"
    using unat_byte [of b] unat_byte [of c] by simp_all
  with Cons.prems cs have "unat b div 16 = unat c div 16" "unat b mod 16 = unat c mod 16"
    by (auto simp: hex_bytes_def intro: hex_digit_inj)
  then have "unat b = unat c" by (metis div_mult_mod_eq)
  moreover have "bs = cs'" using Cons cs by (auto simp: hex_bytes_def)
  ultimately show ?case using cs by (simp add: word_unat_eq_iff)
qed

definition sha256_hex :: "byte list \<Rightarrow> ustr" where
  "sha256_hex bs = hex_bytes (sha256 bs)"

lemma sha256_hex_eq: "sha256_hex x = sha256_hex y \<Longrightarrow> x = y \<or> sha256_collision"
  unfolding sha256_hex_def by (auto dest!: hex_bytes_inj sha256_eq)

text \<open>\<open>_HEX64\<close>: sixty-four lowercase hexadecimal digits, and nothing else.\<close>

definition hex64 :: "ustr \<Rightarrow> bool" where
  "hex64 t \<longleftrightarrow> length t = 64 \<and> list_all is_hex_lower t"

lemma hex64_sha256_hex [simp]: "hex64 (sha256_hex bs)"
  by (simp add: hex64_def sha256_hex_def hex_bytes_chars)

text \<open>\<open>bytes.fromhex\<close>: pairs of hexadecimal digits of either case, ASCII whitespace between
  pairs skipped, \<open>None\<close> (a \<open>ValueError\<close>) on anything else.\<close>

definition hex_value :: "nat \<Rightarrow> nat option" where
  "hex_value c = (if 48 \<le> c \<and> c \<le> 57 then Some (c - 48)
     else if 97 \<le> c \<and> c \<le> 102 then Some (c - 87)
     else if 65 \<le> c \<and> c \<le> 70 then Some (c - 55) else None)"

fun fromhex :: "ustr \<Rightarrow> byte list option" where
  "fromhex [] = Some []"
| "fromhex (a # cs) =
     (if a \<in> {9, 10, 11, 12, 13, 32} then fromhex cs
      else case cs of [] \<Rightarrow> None
        | b # ds \<Rightarrow> (case (hex_value a, hex_value b) of
              (Some x, Some y) \<Rightarrow> map_option ((#) (of_nat (16 * x + y))) (fromhex ds)
            | _ \<Rightarrow> None))"

lemma hex_value_hex_digit: "n < 16 \<Longrightarrow> hex_value (hex_digit n) = Some n"
  by (auto simp: hex_value_def hex_digit_def)

lemma fromhex_hex_bytes [simp]: "fromhex (hex_bytes bs) = Some bs"
proof (induction bs)
  case Nil
  then show ?case by (simp add: hex_bytes_def)
next
  case (Cons b bs)
  have lt: "unat b div 16 < 16" using unat_byte [of b] by simp
  then have "hex_digit (unat b div 16) \<notin> {9, 10, 11, 12, 13, 32}"
    by (auto simp: hex_digit_def split: if_splits)
  moreover have "of_nat (16 * (unat b div 16) + unat b mod 16) = b" by simp
  moreover have "hex_bytes (b # bs)
      = hex_digit (unat b div 16) # hex_digit (unat b mod 16) # hex_bytes bs"
    by (simp add: hex_bytes_def)
  ultimately show ?case using Cons lt
    by (simp add: hex_value_hex_digit del: of_nat_add of_nat_mult)
qed

section \<open>UUIDs and instants\<close>

type_synonym uuid = "128 word"

definition uuid_text :: "uuid \<Rightarrow> ustr" where
  "uuid_text u = (let h = map hex_digit (fixed_digits 16 32 (unat u)) in
     take 8 h @ [45] @ take 4 (drop 8 h) @ [45] @ take 4 (drop 12 h) @ [45] @
     take 4 (drop 16 h) @ [45] @ drop 20 h)"

lemma map_hex_digit_inj:
  assumes "map hex_digit (fixed_digits 16 k n) = map hex_digit (fixed_digits 16 l m)"
  shows "fixed_digits 16 k n = fixed_digits 16 l m"
proof (rule map_inj_on [OF assms])
  have "d < 16" if "d \<in> set (fixed_digits 16 k n) \<union> set (fixed_digits 16 l m)" for d
    using that fixed_digits_less [of 16] by auto
  then show "inj_on hex_digit (set (fixed_digits 16 k n) \<union> set (fixed_digits 16 l m))"
    by (meson hex_digit_inj inj_onI)
qed

lemma uuid_text_inj: "uuid_text u = uuid_text v \<Longrightarrow> u = v"
proof -
  assume eq: "uuid_text u = uuid_text v"
  define h where "h w = map hex_digit (fixed_digits 16 32 (unat w))" for w :: uuid
  have len: "length (h w) = 32" for w by (simp add: h_def)
  have pieces: "take 8 t @ take 4 (drop 8 t) @ take 4 (drop 12 t) @ take 4 (drop 16 t) @ drop 20 t = t"
    for t :: ustr
  proof -
    have "take 12 t = take 8 t @ take 4 (drop 8 t)" using take_add [of 8 4 t] by simp
    moreover have "take 16 t = take 12 t @ take 4 (drop 12 t)" using take_add [of 12 4 t] by simp
    moreover have "take 20 t = take 16 t @ take 4 (drop 16 t)" using take_add [of 16 4 t] by simp
    ultimately show ?thesis using append_take_drop_id [of 20 t] by simp
  qed
  have "h u = h v"
    using eq len [of u] len [of v] unfolding uuid_text_def Let_def h_def [symmetric]
    by (subst pieces [symmetric], subst pieces [of "h v", symmetric]) (simp add: len)
  then have "fixed_digits 16 32 (unat u) = fixed_digits 16 32 (unat v)"
    unfolding h_def by (rule map_hex_digit_inj)
  moreover have "unat w < 16 ^ 32" for w :: uuid
    using unsigned_less [of w, where 'a = nat] by simp
  ultimately have "unat u = unat v" by (intro fixed_digits_inj)
  then show "u = v" by (simp add: word_unat_eq_iff)
qed

text \<open>A UTC \<open>datetime\<close>: year, month, day, hour, minute, second, microsecond, ordered as such.\<close>

datatype instant = Instant (iyear: nat) (imonth: nat) (iday: nat) (ihour: nat) (iminute: nat)
  (isecond: nat) (imicro: nat)

definition instant_key :: "instant \<Rightarrow> nat \<times> nat \<times> nat \<times> nat \<times> nat \<times> nat \<times> nat" where
  "instant_key t = (iyear t, imonth t, iday t, ihour t, iminute t, isecond t, imicro t)"

lemma instant_key_inj: "instant_key s = instant_key t \<Longrightarrow> s = t"
  by (cases s; cases t) (simp add: instant_key_def)

instantiation instant :: linorder
begin

definition less_eq_instant :: "instant \<Rightarrow> instant \<Rightarrow> bool" where
  "s \<le> t \<longleftrightarrow> instant_key s \<le> instant_key t"

definition less_instant :: "instant \<Rightarrow> instant \<Rightarrow> bool" where
  "s < t \<longleftrightarrow> instant_key s < instant_key t"

instance
  by standard (auto simp: less_eq_instant_def less_instant_def intro: instant_key_inj)

end

definition valid_instant :: "instant \<Rightarrow> bool" where
  "valid_instant t \<longleftrightarrow> 1000 \<le> iyear t \<and> iyear t < 10000 \<and> 1 \<le> imonth t \<and> imonth t \<le> 12 \<and> 1 \<le> iday t
     \<and> iday t \<le> 31 \<and> ihour t < 24 \<and> iminute t < 60 \<and> isecond t < 60 \<and> imicro t < 1000000"

text \<open>\<open>_iso\<close>. The year is four digits from the year 1000 on; before it, \<open>strftime\<close> of the C
  library answers, and the model takes glibc's answer (no padding).\<close>

definition iso :: "instant \<Rightarrow> ustr" where
  "iso t = (if iyear t < 1000 then digits (iyear t) else dec_field 4 (iyear t))
     @ [45] @ dec_field 2 (imonth t) @ [45] @ dec_field 2 (iday t)
     @ lit ''T'' @ dec_field 2 (ihour t) @ [58] @ dec_field 2 (iminute t) @ [58] @ dec_field 2 (isecond t)
     @ [46] @ dec_field 6 (imicro t) @ lit ''Z''"

lemma iso_inj:
  assumes "valid_instant s" "valid_instant t" "iso s = iso t"
  shows "s = t"
proof -
  have "dec_field 4 (iyear s) = dec_field 4 (iyear t)" "dec_field 2 (imonth s) = dec_field 2 (imonth t)"
    "dec_field 2 (iday s) = dec_field 2 (iday t)" "dec_field 2 (ihour s) = dec_field 2 (ihour t)"
    "dec_field 2 (iminute s) = dec_field 2 (iminute t)" "dec_field 2 (isecond s) = dec_field 2 (isecond t)"
    "dec_field 6 (imicro s) = dec_field 6 (imicro t)"
    using assms by (simp_all add: iso_def valid_instant_def)
  then have "instant_key s = instant_key t"
    using assms(1,2) unfolding instant_key_def prod.inject
    by (intro conjI) (simp_all add: valid_instant_def dec_field_inj [where k = 4]
        dec_field_inj [where k = 2] dec_field_inj [where k = 6])
  then show ?thesis by (rule instant_key_inj)
qed

lemma iso_no_quote: "34 \<notin> set (iso t)"
  by (auto simp: iso_def dest: dec_field_chars digits_chars)

section \<open>JSON strings\<close>

definition json_special :: "nat \<Rightarrow> nat option" where
  "json_special c = (if c = 34 then Some 34 else if c = 92 then Some 92 else if c = 10 then Some 110
     else if c = 13 then Some 114 else if c = 9 then Some 116 else if c = 12 then Some 102
     else if c = 8 then Some 98 else None)"

definition json_u :: "nat \<Rightarrow> ustr" where
  "json_u c = [92, 117] @ map hex_digit (fixed_digits 16 4 c)"

text \<open>\<open>json.encoder.encode_basestring\<close>, one character at a time.\<close>

definition json_char :: "nat \<Rightarrow> ustr" where
  "json_char c = (case json_special c of Some e \<Rightarrow> [92, e]
     | None \<Rightarrow> if c < 32 then json_u c else [c])"

definition json_body :: "ustr \<Rightarrow> ustr" where
  "json_body t = concat (map json_char t)"

text \<open>\<open>ensure_ascii=True\<close>: everything but printable ASCII is escaped, supplementary characters
  as a surrogate pair.\<close>

definition json_char_ascii :: "nat \<Rightarrow> ustr" where
  "json_char_ascii c = (case json_special c of Some e \<Rightarrow> [92, e]
     | None \<Rightarrow> if 32 \<le> c \<and> c \<le> 126 then [c]
         else if c < 0x10000 then json_u c
         else json_u (0xD800 + (c - 0x10000) div 1024) @ json_u (0xDC00 + (c - 0x10000) mod 1024))"

definition json_body_ascii :: "ustr \<Rightarrow> ustr" where
  "json_body_ascii t = concat (map json_char_ascii t)"

definition json_string :: "ustr \<Rightarrow> ustr" where
  "json_string t = [34] @ json_body t @ [34]"

definition json_string_ascii :: "ustr \<Rightarrow> ustr" where
  "json_string_ascii t = [34] @ json_body_ascii t @ [34]"

definition quote :: "ustr option \<Rightarrow> ustr" where
  "quote t = (case t of None \<Rightarrow> lit ''null'' | Some t \<Rightarrow> json_string t)"

lemma json_char_head: "json_char c = a # r \<Longrightarrow> a \<noteq> 34"
  by (auto simp: json_char_def json_special_def json_u_def split: if_splits)

lemma json_char_nonempty [simp]: "json_char c \<noteq> []"
  by (simp add: json_char_def json_special_def json_u_def)

text \<open>Reading one character back from what follows it.\<close>

definition json_unchar :: "ustr \<Rightarrow> nat \<times> ustr" where
  "json_unchar t = (if hd t \<noteq> 92 then (hd t, tl t)
     else let e = t ! 1; r = drop 2 t in
       if e = 110 then (10, r) else if e = 114 then (13, r) else if e = 116 then (9, r)
       else if e = 102 then (12, r) else if e = 98 then (8, r)
       else if e = 117 then
         (16 * the (hex_value (t ! 4)) + the (hex_value (t ! 5)), drop 6 t)
       else (e, r))"

lemma json_unchar_char: "json_unchar (json_char c @ r) = (c, r)"
proof (cases "json_special c")
  case (Some e)
  then show ?thesis
    by (auto simp: json_char_def json_unchar_def json_special_def split: if_splits)
next
  case None
  show ?thesis
  proof (cases "c < 32")
    case True
    have "fixed_digits 16 4 c = [0, 0, c div 16, c mod 16]"
      using True by (simp add: fixed_digits_def upt_rec)
    with True None show ?thesis
      by (simp add: json_char_def json_unchar_def json_u_def hex_value_hex_digit)
  next
    case False
    with None show ?thesis
      by (auto simp: json_char_def json_unchar_def json_special_def split: if_splits)
  qed
qed

lemma json_body_Cons [simp]: "json_body (c # t) = json_char c @ json_body t"
  by (simp add: json_body_def)

lemma json_body_Nil [simp]: "json_body [] = []"
  by (simp add: json_body_def)

lemma json_body_delim:
  "json_body t @ 34 # r = json_body t' @ 34 # r' \<Longrightarrow> t = t' \<and> r = r'"
proof (induction t arbitrary: t')
  case Nil
  then show ?case
    by (cases t') (auto simp: Cons_eq_append_conv dest: json_char_head [OF sym])
next
  case (Cons c t)
  show ?case
  proof (cases t')
    case Nil
    with Cons.prems show ?thesis
      by (auto simp: append_eq_Cons_conv dest: json_char_head)
  next
    case t': (Cons d u)
    from Cons.prems t' have
      "json_char c @ json_body t @ 34 # r = json_char d @ json_body u @ 34 # r'"
      by simp
    then have "(c, json_body t @ 34 # r) = (d, json_body u @ 34 # r')"
      by (metis json_unchar_char)
    with Cons.IH [of u] t' show ?thesis by simp
  qed
qed

lemma json_string_delim: "json_string t @ r = json_string t' @ r' \<Longrightarrow> t = t' \<and> r = r'"
  using json_body_delim [of t r t' r'] by (simp add: json_string_def)

lemma quote_delim: "quote t @ r = quote t' @ r' \<Longrightarrow> t = t' \<and> r = r'"
  by (cases t; cases t') (auto simp: quote_def json_string_def dest: json_body_delim)

lemma delim:
  "xs @ q # r = ys @ q # r' \<Longrightarrow> q \<notin> set xs \<Longrightarrow> q \<notin> set ys \<Longrightarrow> xs = ys \<and> r = r'"
proof (induction xs arbitrary: ys)
  case Nil
  then show ?case by (cases ys) auto
next
  case (Cons x xs)
  then show ?case by (cases ys) auto
qed

lemma uuid_no_quote: "34 \<notin> set (uuid_text u)"
proof -
  have "34 \<notin> set (map hex_digit ds)" for ds
    by (auto simp: hex_digit_def split: if_splits)
  then show ?thesis
    by (auto simp: uuid_text_def Let_def dest!: in_set_takeD in_set_dropD simp flip: set_map)
qed

section \<open>What text an entry may carry\<close>

text \<open>\<open>_CONTROL\<close>: C0, DEL and C1.\<close>

definition is_control :: "nat \<Rightarrow> bool" where
  "is_control c \<longleftrightarrow> c \<le> 0x1F \<or> 0x7F \<le> c \<and> c \<le> 0x9F"

datatype text_problem = LoneSurrogate | TooLong nat | HoldsControl | HoldsNul

definition check_text :: "ustr \<Rightarrow> nat \<Rightarrow> bool \<Rightarrow> text_problem option" where
  "check_text t limit identifier =
     (let size = (if list_all (\<lambda>c. c < 128) t then Some (length t)
                  else map_option length (utf8_encode t))
      in case size of None \<Rightarrow> Some LoneSurrogate
       | Some n \<Rightarrow>
           if limit < n then Some (TooLong n)
           else if identifier then
             (if list_ex is_control t then Some HoldsControl else None)
           else if 0 \<in> set t then Some HoldsNul
           else None)"

lemma utf8_ascii: "list_all (\<lambda>c. c < 128) t \<Longrightarrow> utf8_nats t = Some t"
  by (induction t) (auto simp: utf8_char_def)

lemma check_text_None:
  assumes "check_text t limit i = None"
  obtains bs where "utf8_encode t = Some bs" "length bs \<le> limit"
proof (cases "list_all (\<lambda>c. c < 128) t")
  case True
  then have "utf8_encode t = Some (map of_nat t)" by (simp add: utf8_encode_def utf8_ascii)
  moreover have "length (map of_nat t :: byte list) \<le> limit"
    using assms True by (auto simp: check_text_def split: if_splits)
  ultimately show thesis by (rule that)
next
  case False
  then show thesis
    using assms that by (auto simp: check_text_def split: option.splits if_splits)
qed

lemma check_text_scalars: "check_text t limit i = None \<Longrightarrow> list_all unicode_scalar t"
  by (metis check_text_None utf8_encode_def utf8_nats_None option.map_disc_iff option.distinct(1))

section \<open>Audit-log text\<close>

definition log_safe :: "nat \<Rightarrow> bool" where
  "log_safe c \<longleftrightarrow> 0x20 \<le> c \<and> c \<le> 0x5b \<or> 0x5d \<le> c \<and> c \<le> 0x7b \<or> c = 0x7d \<or> c = 0x7e"

text \<open>\<open>str.replace\<close> of one character.\<close>

definition replace_char :: "nat \<Rightarrow> ustr \<Rightarrow> ustr \<Rightarrow> ustr" where
  "replace_char c r t = concat (map (\<lambda>x. if x = c then r else [x]) t)"

definition escape :: "ustr \<Rightarrow> ustr" where
  "escape t = (if list_all log_safe t then t
     else replace_char 0x7f (json_u 0x7f) (replace_char 124 (json_u 124) (json_body_ascii t)))"

end
