(* ===== verification/Decimals.thy ===== *)
theory Decimals
  imports Complex_Main Text
begin

text \<open>
  Python's \<open>decimal.Decimal\<close>, as far as the ledger uses it: finite numbers as a coefficient and a
  power of ten, compared by value, added exactly at the smaller exponent, quantized with the
  three roundings the ledger names, and read from text. \<open>dval\<close> is the number a decimal stands
  for; the lemmas say that each executable operation computes the operation on numbers. The sign
  of zero and the exponent limits (\<open>Emin\<close>, \<open>Emax\<close>) of \<open>decimal\<close> are not modelled: no amount the
  ledger writes has a negative zero or an exponent other than \<open>-8\<close> and \<open>0\<close>.
\<close>

datatype decimal = Dec (coeff: int) (expo: int)

definition dval :: "decimal \<Rightarrow> rat" where
  "dval d = of_int (coeff d) * 10 powi expo d"

definition aligned :: "decimal \<Rightarrow> int \<Rightarrow> int" where
  "aligned d e = coeff d * 10 ^ nat (expo d - e)"

definition dec_le :: "decimal \<Rightarrow> decimal \<Rightarrow> bool" where
  "dec_le a b = (let e = min (expo a) (expo b) in aligned a e \<le> aligned b e)"

definition dec_lt :: "decimal \<Rightarrow> decimal \<Rightarrow> bool" where
  "dec_lt a b = (let e = min (expo a) (expo b) in aligned a e < aligned b e)"

definition dec_eq :: "decimal \<Rightarrow> decimal \<Rightarrow> bool" where
  "dec_eq a b = (let e = min (expo a) (expo b) in aligned a e = aligned b e)"

definition dec_sum :: "decimal \<Rightarrow> decimal \<Rightarrow> decimal" where
  "dec_sum a b = (let e = min (expo a) (expo b) in Dec (aligned a e + aligned b e) e)"

definition copy_negate :: "decimal \<Rightarrow> decimal" where
  "copy_negate d = Dec (- coeff d) (expo d)"

definition copy_abs :: "decimal \<Rightarrow> decimal" where
  "copy_abs d = Dec \<bar>coeff d\<bar> (expo d)"

definition is_zero :: "decimal \<Rightarrow> bool" where
  "is_zero d \<longleftrightarrow> coeff d = 0"

datatype rounding = ROUND_FLOOR | ROUND_CEILING | ROUND_HALF_EVEN

definition round_div :: "rounding \<Rightarrow> int \<Rightarrow> int \<Rightarrow> int" where
  "round_div r c m = (case r of
       ROUND_FLOOR \<Rightarrow> c div m
     | ROUND_CEILING \<Rightarrow> - ((- c) div m)
     | ROUND_HALF_EVEN \<Rightarrow>
         (let q = c div m; rest = c mod m in
          if 2 * rest < m then q else if m < 2 * rest then q + 1
          else if even q then q else q + 1))"

text \<open>\<open>d.quantize(Decimal(1).scaleb(e), rounding=r)\<close>: the result, and whether it was rounded.\<close>

definition quantize :: "decimal \<Rightarrow> int \<Rightarrow> rounding \<Rightarrow> decimal \<times> bool" where
  "quantize d e r = (if e \<le> expo d then (Dec (aligned d e) e, False)
     else let m = 10 ^ nat (e - expo d) in (Dec (round_div r (coeff d) m) e, coeff d mod m \<noteq> 0))"

lemma dval_aligned: "e \<le> expo d \<Longrightarrow> of_int (aligned d e) * 10 powi e = dval d"
proof -
  assume "e \<le> expo d"
  then have "(10::rat) powi expo d = 10 ^ nat (expo d - e) * 10 powi e"
    by (metis (no_types) add.commute diff_add_cancel int_nat_eq le_diff_eq add_0 power_int_add
        power_int_of_nat zero_neq_numeral)
  then show ?thesis by (simp add: aligned_def dval_def algebra_simps)
qed

lemma powi_pos [simp]: "0 < (10::rat) powi e"
  by (rule zero_less_power_int) simp

lemma dec_le_iff: "dec_le a b \<longleftrightarrow> dval a \<le> dval b"
proof -
  define e where "e = min (expo a) (expo b)"
  have "dval a = of_int (aligned a e) * 10 powi e" "dval b = of_int (aligned b e) * 10 powi e"
    by (simp_all add: dval_aligned e_def)
  then show ?thesis by (simp add: dec_le_def e_def [symmetric] Let_def)
qed

lemma dec_lt_iff: "dec_lt a b \<longleftrightarrow> dval a < dval b"
  using dec_le_iff [of b a] by (auto simp: dec_lt_def dec_le_def Let_def min.commute not_le [symmetric])

lemma dec_eq_iff: "dec_eq a b \<longleftrightarrow> dval a = dval b"
  using dec_le_iff [of a b] dec_le_iff [of b a]
  by (auto simp: dec_eq_def dec_le_def Let_def min.commute)

lemma dval_dec_sum: "dval (dec_sum a b) = dval a + dval b"
proof -
  define e where "e = min (expo a) (expo b)"
  have "dval (dec_sum a b) = of_int (aligned a e) * 10 powi e + of_int (aligned b e) * 10 powi e"
    by (simp add: dec_sum_def e_def [symmetric] Let_def dval_def algebra_simps)
  then show ?thesis by (simp add: dval_aligned e_def)
qed

lemma dval_copy_negate [simp]: "dval (copy_negate d) = - dval d"
  by (simp add: copy_negate_def dval_def)

lemma dval_copy_abs [simp]: "dval (copy_abs d) = \<bar>dval d\<bar>"
  by (simp add: copy_abs_def dval_def abs_mult)

lemma is_zero_iff: "is_zero d \<longleftrightarrow> dval d = 0"
  by (simp add: is_zero_def dval_def)

lemma expo_dec_sum: "expo (dec_sum a b) = min (expo a) (expo b)"
  by (simp add: dec_sum_def Let_def)

section \<open>Rounding\<close>

lemma quantize_expo [simp]: "expo (fst (quantize d e r)) = e"
  by (simp add: quantize_def Let_def)

lemma round_div_bounds:
  assumes "0 < m"
  shows "m * round_div ROUND_FLOOR c m \<le> c" "c < m * round_div ROUND_FLOOR c m + m"
    and "c \<le> m * round_div ROUND_CEILING c m" "m * round_div ROUND_CEILING c m < c + m"
proof -
  have "m * (c div m) + c mod m = c" "0 \<le> c mod m" "c mod m < m"
    using assms by simp_all
  then show "m * round_div ROUND_FLOOR c m \<le> c" "c < m * round_div ROUND_FLOOR c m + m"
    unfolding round_div_def rounding.case by linarith+
  have "m * ((- c) div m) + (- c) mod m = - c" "0 \<le> (- c) mod m" "(- c) mod m < m"
    using assms by simp_all
  then show "c \<le> m * round_div ROUND_CEILING c m" "m * round_div ROUND_CEILING c m < c + m"
    unfolding round_div_def rounding.case by (simp_all only: mult_minus_right)
qed

lemma dval_scaled:
  assumes "expo d < e"
  shows "dval d = of_int (coeff d) / of_int (10 ^ nat (e - expo d)) * 10 powi e"
proof -
  have "(10::rat) powi e = 10 powi expo d * 10 ^ nat (e - expo d)"
    using assms by (metis add.commute diff_add_cancel int_nat_eq less_imp_le le_diff_eq add_0
        power_int_add power_int_of_nat zero_neq_numeral)
  then show ?thesis by (simp add: dval_def)
qed

text \<open>Rounding down never exceeds the number and loses less than one quantum; rounding up never
  falls short and adds less than one.\<close>

lemma quantize_floor:
  "dval (fst (quantize d e ROUND_FLOOR)) \<le> dval d"
  "dval d < dval (fst (quantize d e ROUND_FLOOR)) + 10 powi e"
proof -
  define m :: int where "m = 10 ^ nat (e - expo d)"
  define q where "q = round_div ROUND_FLOOR (coeff d) m"
  have m: "0 < m" by (simp add: m_def)
  have key: "dval (fst (quantize d e ROUND_FLOOR)) \<le> dval d
      \<and> dval d < dval (fst (quantize d e ROUND_FLOOR)) + 10 powi e"
  proof (cases "e \<le> expo d")
    case True
    then show ?thesis using dval_aligned [OF True] by (simp add: quantize_def dval_def [of "Dec _ _"])
  next
    case False
    then have v: "dval d = of_int (coeff d) / of_int m * 10 powi e"
      and w: "dval (fst (quantize d e ROUND_FLOOR)) = of_int q * 10 powi e"
      using dval_scaled [of d e] by (simp_all add: m_def q_def quantize_def Let_def dval_def [of "Dec _ _"])
    have "of_int (m * q) \<le> (of_int (coeff d) :: rat)" "(of_int (coeff d) :: rat) < of_int (m * q + m)"
      using round_div_bounds(1,2) [OF m, of "coeff d"] unfolding q_def by linarith+
    then have "of_int q \<le> (of_int (coeff d) / of_int m :: rat)"
        "(of_int (coeff d) / of_int m :: rat) < of_int q + 1"
      using m by (simp_all add: field_simps)
    then have "of_int q * 10 powi e \<le> (of_int (coeff d) / of_int m :: rat) * 10 powi e"
        "(of_int (coeff d) / of_int m :: rat) * 10 powi e < (of_int q + 1) * 10 powi e"
      by (intro mult_right_mono mult_strict_right_mono; simp add: less_imp_le)+
    then show ?thesis by (simp add: v w algebra_simps)
  qed
  show "dval (fst (quantize d e ROUND_FLOOR)) \<le> dval d"
    "dval d < dval (fst (quantize d e ROUND_FLOOR)) + 10 powi e"
    using key by blast+
qed

lemma quantize_ceiling:
  "dval d \<le> dval (fst (quantize d e ROUND_CEILING))"
  "dval (fst (quantize d e ROUND_CEILING)) < dval d + 10 powi e"
proof -
  have mirror: "dval (fst (quantize d e ROUND_CEILING))
      = - dval (fst (quantize (copy_negate d) e ROUND_FLOOR))"
    by (simp add: quantize_def copy_negate_def aligned_def round_div_def Let_def dval_def)
  show "dval d \<le> dval (fst (quantize d e ROUND_CEILING))"
    "dval (fst (quantize d e ROUND_CEILING)) < dval d + 10 powi e"
    using quantize_floor [of "copy_negate d" e] unfolding mirror by simp_all
qed

lemma quantize_exact: "\<not> snd (quantize d e r) \<Longrightarrow> dval (fst (quantize d e r)) = dval d"
proof (cases "e \<le> expo d")
  case True
  then show ?thesis using dval_aligned [OF True] by (simp add: quantize_def dval_def [of "Dec _ _"])
next
  case False
  define m :: int where "m = 10 ^ nat (e - expo d)"
  have m: "0 < m" by (simp add: m_def)
  assume "\<not> snd (quantize d e r)"
  with False have "coeff d mod m = 0" by (simp add: quantize_def m_def Let_def)
  then obtain k where k: "coeff d = m * k" by (metis mod_0_imp_dvd dvd_def)
  have "- (m * k) div m = - k" using m by (simp flip: mult_minus_right)
  with m k have "round_div r (coeff d) m = k"
    by (cases r) (simp_all add: round_div_def Let_def)
  moreover have "dval d = of_int (coeff d) / of_int m * 10 powi e"
    using False dval_scaled [of d e] by (simp add: m_def)
  ultimately show ?thesis
    using False m k by (simp add: quantize_def m_def [symmetric] Let_def dval_def [of "Dec _ _"])
qed

lemma quantize_id: "expo d = e \<Longrightarrow> quantize d e r = (d, False)"
  by (cases d) (simp add: quantize_def aligned_def)

end
