(* ===== verification/Exceptions.thy ===== *)
theory Exceptions
  imports Decimals
begin

text \<open>
  The exceptions of \<open>exceptions.py\<close> and the built-in ones the core raises, as values. A
  constructor carries what the Python object carries; of a message built from several values only
  its constant part is kept, as a label that tells the branches of a function apart. The
  predicates are the \<open>isinstance\<close> tests of the class hierarchy.
\<close>

type_synonym scope_id = ustr

datatype exn =
    UnknownScopeError scope_id
  | DuplicateScopeError scope_id
  | BudgetExceededError decimal decimal scope_id
  | DenialOfWalletError decimal decimal scope_id bool
  | SubBudgetAllocationError decimal decimal scope_id string
  | StorageError string
  | ReadOnlyLedgerError string
  | CircuitOpenError scope_id scope_id ustr
  | AgentThrashingError scope_id ustr string ustr nat rat string
  | RunawayLoopDetectedError scope_id nat
  | LedgerIntegrityError string "scope_id option"
  | LedgerRollbackError nat nat bool
  | DoubleSpendError scope_id uuid string
  | IdempotencyConflictError ustr
  | MalformedReceiptError string
  | ReceiptSignatureError string
  | RowDisclosureError string
  | ValueError string
  | TypeError string
  | IndexError
  | KeyError
  | DecimalInexact
  | DecimalInvalidOperation
  | RuntimeError string
  | OverflowError

definition is_ScopeError :: "exn \<Rightarrow> bool" where
  "is_ScopeError x \<longleftrightarrow> (case x of UnknownScopeError _ \<Rightarrow> True | DuplicateScopeError _ \<Rightarrow> True | _ \<Rightarrow> False)"

definition is_BudgetError :: "exn \<Rightarrow> bool" where
  "is_BudgetError x \<longleftrightarrow> (case x of BudgetExceededError _ _ _ \<Rightarrow> True | DenialOfWalletError _ _ _ _ \<Rightarrow> True
     | SubBudgetAllocationError _ _ _ _ \<Rightarrow> True | _ \<Rightarrow> False)"

definition is_CircuitBreakerError :: "exn \<Rightarrow> bool" where
  "is_CircuitBreakerError x \<longleftrightarrow> (case x of CircuitOpenError _ _ _ \<Rightarrow> True
     | AgentThrashingError _ _ _ _ _ _ _ \<Rightarrow> True | RunawayLoopDetectedError _ _ \<Rightarrow> True | _ \<Rightarrow> False)"

definition is_LedgerIntegrityError :: "exn \<Rightarrow> bool" where
  "is_LedgerIntegrityError x \<longleftrightarrow> (case x of LedgerIntegrityError _ _ \<Rightarrow> True
     | LedgerRollbackError _ _ _ \<Rightarrow> True | _ \<Rightarrow> False)"

definition is_LedgerError :: "exn \<Rightarrow> bool" where
  "is_LedgerError x \<longleftrightarrow> is_LedgerIntegrityError x \<or> (case x of DoubleSpendError _ _ _ \<Rightarrow> True | _ \<Rightarrow> False)"

definition is_ArithmeticError :: "exn \<Rightarrow> bool" where
  "is_ArithmeticError x \<longleftrightarrow> (case x of DecimalInexact \<Rightarrow> True | DecimalInvalidOperation \<Rightarrow> True | _ \<Rightarrow> False)"

definition is_ValueError :: "exn \<Rightarrow> bool" where
  "is_ValueError x \<longleftrightarrow> (case x of ValueError _ \<Rightarrow> True | _ \<Rightarrow> False)"

type_synonym 'a res = "exn + 'a"

end
