(* ===== verification/Merkle.thy ===== *)
theory Merkle
  imports Exceptions
begin

text \<open>
  The RFC 9162 Merkle tree, twice: \<open>receipts/merkle.py\<close> (the tree object with its cache of
  complete subtrees, its inclusion proofs and their iterative verifier) and the compact frontier
  of \<open>core.py\<close> that the ledger carries along (\<open>_frontier_append\<close>, \<open>_frontier_root\<close>). The
  abstract specification of both is \<open>mth\<close>, the RFC's recursive tree hash; one bottom-up law of it
  (\<open>mth_pair_up\<close>: hashing neighbours and promoting an odd last node changes nothing) carries the
  refinement of the frontier and the completeness and soundness of the verifier.
\<close>

section \<open>Hashes\<close>

type_synonym digest = "byte list"

definition leaf_hash :: "byte list \<Rightarrow> digest" where
  "leaf_hash bs = sha256 (0 # bs)"

definition node_hash :: "digest \<Rightarrow> digest \<Rightarrow> digest" where
  "node_hash l r = sha256 (1 # l @ r)"

definition EMPTY_ROOT :: digest where
  "EMPTY_ROOT = sha256 []"

lemma length_node_hash [simp]: "length (node_hash l r) = 32"
  by (simp add: node_hash_def)

lemma node_hash_eq:
  assumes "node_hash l r = node_hash l' r'" and "length r = length r' \<or> length l = length l'"
  shows "l = l' \<and> r = r' \<or> sha256_collision"
proof -
  have "1 # l @ r = 1 # l' @ r' \<or> sha256_collision"
    using assms(1) unfolding node_hash_def by (rule sha256_eq)
  with assms(2) show ?thesis by (auto simp: append_eq_append_conv)
qed

section \<open>Powers of two\<close>

fun bit_length :: "nat \<Rightarrow> nat" where
  "bit_length n = (if n = 0 then 0 else Suc (bit_length (n div 2)))"

declare bit_length.simps [simp del]

definition split_size :: "nat \<Rightarrow> nat" where
  "split_size n = 2 ^ (bit_length (n - 1) - 1)"

lemma bit_length_pos: "0 < n \<Longrightarrow> bit_length n = Suc (bit_length (n div 2))"
  by (simp add: bit_length.simps [of n])

lemma bit_length_bounds: "0 < n \<Longrightarrow> 2 ^ (bit_length n - 1) \<le> n \<and> n < 2 ^ bit_length n"
proof (induction n rule: bit_length.induct)
  case (1 n)
  show ?case
  proof (cases "n div 2 = 0")
    case True
    with "1.prems" have "n = 1" by auto
    then show ?thesis by (simp add: bit_length.simps)
  next
    case False
    then have ih: "2 ^ (bit_length (n div 2) - 1) \<le> n div 2 \<and> n div 2 < 2 ^ bit_length (n div 2)"
      using "1.IH" "1.prems" by blast
    moreover have "bit_length (n div 2) = Suc (bit_length (n div 2) - 1)"
      using False by (simp add: bit_length.simps [of "n div 2"])
    ultimately have "2 ^ bit_length (n div 2) \<le> 2 * (n div 2)"
      by (metis mult_le_mono2 power_Suc)
    with ih "1.prems" show ?thesis by (auto simp: bit_length.simps [of n])
  qed
qed

lemma split_size_bounds: "2 \<le> n \<Longrightarrow> 0 < split_size n \<and> split_size n < n \<and> n \<le> 2 * split_size n"
proof -
  assume "2 \<le> n"
  then obtain m where n: "n = Suc m" "0 < m" by (cases n) auto
  have "(2::nat) ^ bit_length m = 2 * 2 ^ (bit_length m - 1)"
    by (simp add: bit_length_pos [OF n(2)])
  then show ?thesis
    using bit_length_bounds [OF n(2)] by (simp add: split_size_def n)
qed

lemma split_size_2 [simp]: "split_size (Suc (Suc 0)) = 1"
  by (simp add: split_size_def bit_length.simps)

lemma split_size_even: "2 < n \<Longrightarrow> even (split_size n) \<and> split_size (Suc n div 2) = split_size n div 2"
proof -
  assume n: "2 < n"
  define m where "m = n - 1"
  have m: "1 < m" "Suc n div 2 - 1 = m div 2" using n by (auto simp: m_def)
  have "bit_length m = Suc (Suc (bit_length (m div 2 div 2)))"
      "bit_length (m div 2) = Suc (bit_length (m div 2 div 2))"
    using m bit_length_pos [of m] bit_length_pos [of "m div 2"] by auto
  then show ?thesis
    using m unfolding split_size_def m_def by simp
qed

section \<open>The tree object\<close>

type_synonym cache = "(nat \<times> nat, digest) dict"

record merkle_tree =
  leaves :: "digest list"
  cached :: cache

definition empty_tree :: merkle_tree where
  "empty_tree = \<lparr>leaves = [], cached = []\<rparr>"

definition tree_append :: "merkle_tree \<Rightarrow> digest \<Rightarrow> (nat \<times> merkle_tree) res" where
  "tree_append t leaf = (if length leaf \<noteq> 32 then Inl (ValueError ''a leaf hash is 32 bytes'')
     else Inr (length (leaves t), t\<lparr>leaves := leaves t @ [leaf]\<rparr>))"

definition tree_size :: "merkle_tree \<Rightarrow> int option \<Rightarrow> nat res" where
  "tree_size t sz = (case sz of None \<Rightarrow> Inr (length (leaves t))
     | Some n \<Rightarrow> if 0 \<le> n \<and> n \<le> int (length (leaves t)) then Inr (nat n)
                 else Inl (ValueError ''the tree has fewer leaves''))"

text \<open>\<open>n & (n - 1) == 0\<close> for a positive \<open>n\<close>: the bits above the lowest one are all clear.\<close>

fun power_of_two :: "nat \<Rightarrow> bool" where
  "power_of_two n = (if n \<le> 1 then True else even n \<and> power_of_two (n div 2))"

declare power_of_two.simps [simp del]

text \<open>\<open>MerkleTree._hash\<close>, reading and filling the cache. It is called with at least one leaf.\<close>

function tree_hash :: "digest list \<Rightarrow> cache \<Rightarrow> nat \<Rightarrow> nat \<Rightarrow> digest \<times> cache" where
  "tree_hash ls c start n =
     (if n \<le> 1 then (ls ! start, c)
      else let aligned = power_of_two n in
        case (if aligned then map_of c (start, n) else None) of
          Some h \<Rightarrow> (h, c)
        | None \<Rightarrow>
            let k = split_size n;
                left = tree_hash ls c start k;
                right = tree_hash ls (snd left) (start + k) (n - k);
                result = node_hash (fst left) (fst right)
            in (result, if aligned then AList.update (start, n) result (snd right) else snd right))"
  by pat_completeness auto
termination
proof (relation "measure (\<lambda>(ls, c, start, n). n)", goal_cases)
  case 1
  then show ?case by simp
next
  case (2 ls c start n x y)
  then show ?case using split_size_bounds [of n] by simp
next
  case (3 ls c start n x y z)
  then show ?case using split_size_bounds [of n] by simp
qed

declare tree_hash.simps [simp del]

definition tree_root :: "merkle_tree \<Rightarrow> int option \<Rightarrow> (digest \<times> merkle_tree) res" where
  "tree_root t sz = rbind (tree_size t sz) (\<lambda>n.
     if n = 0 then Inr (EMPTY_ROOT, t)
     else let (h, c) = tree_hash (leaves t) (cached t) 0 n in Inr (h, t\<lparr>cached := c\<rparr>))"

function tree_path :: "digest list \<Rightarrow> cache \<Rightarrow> nat \<Rightarrow> nat \<Rightarrow> nat \<Rightarrow> digest list \<times> cache" where
  "tree_path ls c index start n =
     (if n \<le> 1 then ([], c)
      else let k = split_size n in
        if index < k then
          (let lower = tree_path ls c index start k;
               upper = tree_hash ls (snd lower) (start + k) (n - k)
           in (fst lower @ [fst upper], snd upper))
        else
          (let lower = tree_path ls c (index - k) (start + k) (n - k);
               upper = tree_hash ls (snd lower) start k
           in (fst lower @ [fst upper], snd upper)))"
  by pat_completeness auto
termination
proof (relation "measure (\<lambda>(ls, c, index, start, n). n)", goal_cases)
  case 1
  then show ?case by simp
next
  case (2 ls c index start n k)
  then show ?case using split_size_bounds [of n] by simp
next
  case (3 ls c index start n k)
  then show ?case using split_size_bounds [of n] by simp
qed

declare tree_path.simps [simp del]

definition inclusion_proof :: "merkle_tree \<Rightarrow> int \<Rightarrow> int option \<Rightarrow> (digest list \<times> merkle_tree) res" where
  "inclusion_proof t index sz = rbind (tree_size t sz) (\<lambda>n.
     if \<not> (0 \<le> index \<and> index < int n) then Inl (ValueError ''leaf is not in a tree of that size'')
     else let (p, c) = tree_path (leaves t) (cached t) (nat index) 0 n in Inr (p, t\<lparr>cached := c\<rparr>))"

section \<open>The iterative verifier\<close>

text \<open>The inner loop: shift both indices until the lower bit of \<open>fn\<close> is set, or \<open>fn\<close> is zero.\<close>

fun strip_zeros :: "nat \<Rightarrow> nat \<Rightarrow> nat \<times> nat" where
  "strip_zeros fn sn = (if fn \<noteq> 0 \<and> even fn then strip_zeros (fn div 2) (sn div 2) else (fn, sn))"

declare strip_zeros.simps [simp del]

text \<open>The loop over the proof: \<open>None\<close> where the code returns \<open>False\<close> inside it.\<close>

fun inclusion_loop :: "nat \<Rightarrow> nat \<Rightarrow> digest \<Rightarrow> digest list \<Rightarrow> (nat \<times> digest) option" where
  "inclusion_loop fn sn r [] = Some (sn, r)"
| "inclusion_loop fn sn r (p # ps) =
     (if sn = 0 then None
      else if odd fn \<or> fn = sn then
        (let (fn', sn') = (if even fn then strip_zeros fn sn else (fn, sn))
         in inclusion_loop (fn' div 2) (sn' div 2) (node_hash p r) ps)
      else inclusion_loop (fn div 2) (sn div 2) (node_hash r p) ps)"

definition verify_inclusion :: "digest \<Rightarrow> int \<Rightarrow> int \<Rightarrow> digest list \<Rightarrow> digest \<Rightarrow> bool" where
  "verify_inclusion leaf index sz prf rt =
     (if \<not> (0 \<le> index \<and> index < sz) then False
      else case inclusion_loop (nat index) (nat sz - 1) leaf prf of
        None \<Rightarrow> False
      | Some (sn, r) \<Rightarrow> sn = 0 \<and> r = rt)"

section \<open>The frontier\<close>

fun frontier_carry :: "digest list \<Rightarrow> nat \<Rightarrow> digest \<Rightarrow> digest list res" where
  "frontier_carry stack carry node =
     (if odd carry then
        (if stack = [] then Inl IndexError
         else frontier_carry (butlast stack) (carry div 2) (node_hash (last stack) node))
      else Inr (stack @ [node]))"

declare frontier_carry.simps [simp del]

definition frontier_append :: "digest list \<Rightarrow> nat \<Rightarrow> ustr \<Rightarrow> digest list res" where
  "frontier_append frontier len entry_hash =
     (case fromhex entry_hash of None \<Rightarrow> Inl (ValueError ''non-hexadecimal number'')
      | Some bs \<Rightarrow> frontier_carry frontier len (sha256 (0 # bs)))"

definition frontier_root :: "digest list \<Rightarrow> digest" where
  "frontier_root frontier = (if frontier = [] then EMPTY_ROOT
     else foldl (\<lambda>root node. sha256 (1 # node @ root)) (last frontier) (rev (butlast frontier)))"

section \<open>Specification: the RFC's tree hash\<close>

function mth :: "digest list \<Rightarrow> digest" where
  "mth ls = (if ls = [] then EMPTY_ROOT
     else if length ls = 1 then hd ls
     else node_hash (mth (take (split_size (length ls)) ls)) (mth (drop (split_size (length ls)) ls)))"
  by pat_completeness auto
termination
proof (relation "measure length", goal_cases)
  case 1
  then show ?case by simp
next
  case (2 ls)
  then have "2 \<le> length ls" by (cases ls rule: remdups_adj.cases) auto
  with split_size_bounds show ?case by force
next
  case (3 ls)
  then have "2 \<le> length ls" by (cases ls rule: remdups_adj.cases) auto
  with split_size_bounds show ?case by force
qed

declare mth.simps [simp del]

lemma mth_single [simp]: "mth [l] = l"
  by (simp add: mth.simps)

lemma mth_node:
  "2 \<le> length ls \<Longrightarrow>
     mth ls = node_hash (mth (take (split_size (length ls)) ls)) (mth (drop (split_size (length ls)) ls))"
  by (subst mth.simps) auto

text \<open>Hash neighbours; an odd last node is promoted.\<close>

fun pair_up :: "digest list \<Rightarrow> digest list" where
  "pair_up (a # b # ls) = node_hash a b # pair_up ls"
| "pair_up ls = ls"

lemma length_pair_up [simp]: "length (pair_up ls) = Suc (length ls) div 2"
  by (induction ls rule: pair_up.induct) auto

lemma pair_up_append: "even (length xs) \<Longrightarrow> pair_up (xs @ ys) = pair_up xs @ pair_up ys"
  by (induction xs rule: pair_up.induct) auto

lemma pair_up_digests: "list_all (\<lambda>l. length l = 32) ls \<Longrightarrow> list_all (\<lambda>l. length l = 32) (pair_up ls)"
  by (induction ls rule: pair_up.induct) auto

lemma pair_up_nth_odd:
  "odd m \<Longrightarrow> m < length ls \<Longrightarrow> pair_up ls ! (m div 2) = node_hash (ls ! (m - 1)) (ls ! m)"
proof (induction ls arbitrary: m rule: pair_up.induct)
  case (1 a b ls)
  from "1.prems"(1) obtain j where j: "m = 2 * j + 1" by (rule oddE)
  show ?case
  proof (cases j)
    case (Suc i)
    with "1.IH" [of "2 * i + 1"] "1.prems" j show ?thesis by simp
  qed (simp add: j)
qed auto

lemma pair_up_nth_even:
  "even m \<Longrightarrow> Suc m < length ls \<Longrightarrow> pair_up ls ! (m div 2) = node_hash (ls ! m) (ls ! Suc m)"
  using pair_up_nth_odd [of "Suc m" ls] by simp

lemma pair_up_nth_last: "even m \<Longrightarrow> Suc m = length ls \<Longrightarrow> pair_up ls ! (m div 2) = ls ! m"
proof (induction ls arbitrary: m rule: pair_up.induct)
  case (1 a b ls)
  from "1.prems"(1) obtain j where j: "m = 2 * j" by (rule evenE)
  show ?case
  proof (cases j)
    case (Suc i)
    then have "m = Suc (Suc (2 * i))" using j by simp
    moreover have "pair_up ls ! i = ls ! (2 * i)"
      using "1.IH" [of "2 * i"] "1.prems" calculation by simp
    ultimately show ?thesis by (simp only: pair_up.simps) simp
  qed (use "1.prems" j in simp)
qed auto

lemma mth_pair_up: "mth (pair_up ls) = mth ls"
proof (induction ls rule: measure_induct_rule [where f = length])
  case (less ls)
  consider "ls = []" | a where "ls = [a]" | a b where "ls = [a, b]" | "2 < length ls"
  proof (cases ls rule: pair_up.cases)
    case (1 a b ms)
    then show ?thesis using that(3) [of a b] that(4) by (cases ms) simp_all
  qed (use that in auto)
  then show ?case
  proof cases
    case (3 a b)
    then show ?thesis by (simp add: mth_node)
  next
    case 4
    define k where "k = split_size (length ls)"
    have k: "0 < k" "k < length ls" "even k" "split_size (Suc (length ls) div 2) = k div 2"
      using 4 split_size_bounds [of "length ls"] split_size_even by (auto simp: k_def)
    then have eq: "pair_up ls = pair_up (take k ls) @ pair_up (drop k ls)"
      by (metis append_take_drop_id length_take min.absorb4 pair_up_append)
    moreover have "length (pair_up (take k ls)) = k div 2" using k by auto
    ultimately have parts: "take (k div 2) (pair_up ls) = pair_up (take k ls)"
        "drop (k div 2) (pair_up ls) = pair_up (drop k ls)"
      by simp_all
    have "2 \<le> length (pair_up ls)" using 4 by simp
    from mth_node [OF this]
    have "mth (pair_up ls) = node_hash (mth (pair_up (take k ls))) (mth (pair_up (drop k ls)))"
      using k by (simp add: parts)
    also have "\<dots> = mth ls"
      using less [of "take k ls"] less [of "drop k ls"] k 4 by (simp add: k_def [symmetric] mth_node [of ls])
    finally show ?thesis .
  qed simp_all
qed

lemma pair_up_split:
  assumes "2 < length ls" and "k = split_size (length ls)"
  shows "0 < k" "k < length ls" "even k" "split_size (length (pair_up ls)) = k div 2"
    "take (k div 2) (pair_up ls) = pair_up (take k ls)"
    "drop (k div 2) (pair_up ls) = pair_up (drop k ls)"
proof -
  show k: "0 < k" "k < length ls" "even k" "split_size (length (pair_up ls)) = k div 2"
    using assms split_size_bounds [of "length ls"] split_size_even by auto
  have "pair_up ls = pair_up (take k ls) @ pair_up (drop k ls)"
    using k by (metis append_take_drop_id length_take min.absorb4 pair_up_append)
  moreover have "length (pair_up (take k ls)) = k div 2" using k by auto
  ultimately show "take (k div 2) (pair_up ls) = pair_up (take k ls)"
    "drop (k div 2) (pair_up ls) = pair_up (drop k ls)"
    by simp_all
qed

section \<open>The cache changes nothing\<close>

text \<open>The tree object's invariant: every cached hash is the tree hash of the run it is filed under.\<close>

definition cache_ok :: "digest list \<Rightarrow> cache \<Rightarrow> bool" where
  "cache_ok ls c \<longleftrightarrow> (\<forall>s n h. map_of c (s, n) = Some h \<longrightarrow>
     s + n \<le> length ls \<and> h = mth (take n (drop s ls)))"

definition tree_ok :: "merkle_tree \<Rightarrow> bool" where
  "tree_ok t \<longleftrightarrow> cache_ok (leaves t) (cached t) \<and> list_all (\<lambda>l. length l = 32) (leaves t)"

lemma cache_ok_update:
  "cache_ok ls c \<Longrightarrow> s + n \<le> length ls \<Longrightarrow> cache_ok ls (AList.update (s, n) (mth (take n (drop s ls))) c)"
  by (auto simp: cache_ok_def)

lemma cache_ok_append: "cache_ok ls c \<Longrightarrow> cache_ok (ls @ xs) c"
  by (force simp: cache_ok_def)

lemma mth_run_split:
  assumes "2 \<le> n" "s + n \<le> length ls"
  shows "mth (take n (drop s ls)) = node_hash (mth (take (split_size n) (drop s ls)))
    (mth (take (n - split_size n) (drop (s + split_size n) ls)))"
proof -
  have "split_size n < n" using assms(1) split_size_bounds by blast
  moreover have "length (take n (drop s ls)) = n" using assms(2) by simp
  ultimately show ?thesis
    using assms(1) mth_node [of "take n (drop s ls)"] by (simp add: drop_take min_absorb1 add.commute)
qed

lemma tree_hash_correct:
  "cache_ok ls c \<Longrightarrow> 0 < n \<Longrightarrow> start + n \<le> length ls \<Longrightarrow>
     fst (tree_hash ls c start n) = mth (take n (drop start ls)) \<and> cache_ok ls (snd (tree_hash ls c start n))"
proof (induction ls c start n rule: tree_hash.induct)
  case (1 ls c start n)
  show ?case
  proof (cases "n \<le> 1")
    case True
    with "1.prems" have n: "n = 1" "start < length ls" by auto
    then have "take 1 (drop start ls) = [ls ! start]"
      by (metis Cons_nth_drop_Suc One_nat_def take0 take_Suc_Cons)
    with n "1.prems" show ?thesis by (simp add: tree_hash.simps [of ls c start "Suc 0"])
  next
    case False
    define k where "k = split_size n"
    have k: "0 < k" "k < n" using False split_size_bounds [of n] by (auto simp: k_def)
    show ?thesis
    proof (cases "if power_of_two n then map_of c (start, n) else None")
      case (Some h)
      with "1.prems" False show ?thesis
        by (auto simp: tree_hash.simps [of ls c start n] cache_ok_def split: if_splits)
    next
      case None
      define left where "left = tree_hash ls c start k"
      define right where "right = tree_hash ls (snd left) (start + k) (n - k)"
      have l: "fst left = mth (take k (drop start ls))" "cache_ok ls (snd left)"
        using "1.IH"(1) [OF False refl None k_def] "1.prems" k by (simp_all add: left_def)
      have r: "fst right = mth (take (n - k) (drop (start + k) ls))" "cache_ok ls (snd right)"
        using "1.IH"(2) [OF False refl None k_def left_def] "1.prems" k l(2) by (simp_all add: right_def)
      have "tree_hash ls c start n = (node_hash (fst left) (fst right),
          if power_of_two n then AList.update (start, n) (node_hash (fst left) (fst right)) (snd right)
          else snd right)"
        using False None by (simp add: tree_hash.simps [of ls c start n] Let_def left_def right_def k_def)
      moreover have "node_hash (fst left) (fst right) = mth (take n (drop start ls))"
        using False "1.prems" l r mth_run_split [of n start ls] by (simp add: k_def)
      ultimately show ?thesis using r(2) "1.prems" by (simp add: cache_ok_update)
    qed
  qed
qed

text \<open>C32: The cached tree computes RFC 9162's tree hash of its first \<open>n\<close> leaves, for every size it
  has, and keeps its cache correct while doing so.\<close>

theorem tree_root_is_mth:
  assumes "tree_ok t" and "tree_root t sz = Inr (h, t')"
  shows "\<exists>n. tree_size t sz = Inr n \<and> n \<le> length (leaves t) \<and> h = mth (take n (leaves t))
    \<and> leaves t' = leaves t \<and> tree_ok t'"
proof -
  obtain n where n: "tree_size t sz = Inr n" using assms(2) by (auto simp: tree_root_def)
  then have le: "n \<le> length (leaves t)"
    by (auto simp: tree_size_def split: option.splits if_splits)
  show ?thesis
  proof (cases "n = 0")
    case True
    with assms n show ?thesis by (simp add: tree_root_def mth.simps [of "[]"])
  next
    case False
    with assms(2) n have "h = fst (tree_hash (leaves t) (cached t) 0 n)"
        "t' = t\<lparr>cached := snd (tree_hash (leaves t) (cached t) 0 n)\<rparr>"
      by (auto simp: tree_root_def split: prod.splits)
    with assms(1) n le False tree_hash_correct [of "leaves t" "cached t" n 0] show ?thesis
      by (auto simp: tree_ok_def)
  qed
qed

theorem tree_root_is_mth_witness:
  "\<exists>n. tree_size \<lparr>leaves = [replicate 32 7, replicate 32 9], cached = []\<rparr> None = Inr n
    \<and> n \<le> length [replicate 32 7, replicate 32 (9::byte)]
    \<and> node_hash (replicate 32 7) (replicate 32 9) = mth (take n [replicate 32 7, replicate 32 9])
    \<and> [replicate 32 7, replicate 32 9] = [replicate 32 7, replicate 32 (9::byte)]
    \<and> tree_ok \<lparr>leaves = [replicate 32 7, replicate 32 9],
         cached = [((0, 2), node_hash (replicate 32 7) (replicate 32 9))]\<rparr>"
proof -
  have "tree_root \<lparr>leaves = [replicate 32 7, replicate 32 9], cached = []\<rparr> None
    = Inr (node_hash (replicate 32 7) (replicate 32 9), \<lparr>leaves = [replicate 32 7, replicate 32 9],
         cached = [((0, 2), node_hash (replicate 32 7) (replicate 32 9))]\<rparr>)"
    by (simp add: tree_root_def tree_size_def tree_hash.simps [of _ _ 0 "Suc (Suc 0)"]
        tree_hash.simps [of _ _ _ "Suc 0"] power_of_two.simps Let_def numeral_2_eq_2)
  from tree_root_is_mth [OF _ this] show ?thesis
    by (simp add: tree_ok_def cache_ok_def)
qed

lemma tree_ok_empty: "tree_ok empty_tree"
  by (simp add: tree_ok_def empty_tree_def cache_ok_def)

lemma tree_ok_append: "tree_ok t \<Longrightarrow> tree_append t l = Inr (i, t') \<Longrightarrow> tree_ok t'"
  by (auto simp: tree_ok_def tree_append_def cache_ok_append split: if_splits)

section \<open>The frontier refines the tree\<close>

function peaks :: "digest list \<Rightarrow> digest list" where
  "peaks ls = (if ls = [] then []
     else if odd (length ls) then peaks (pair_up (butlast ls)) @ [last ls]
     else peaks (pair_up ls))"
  by pat_completeness auto
termination
proof (relation "measure length", goal_cases)
  case (2 ls)
  then show ?case by (cases ls) auto
next
  case (3 ls)
  then show ?case by (cases ls rule: pair_up.cases) auto
qed simp

declare peaks.simps [simp del]

lemma peaks_odd: "even (length ls) \<Longrightarrow> peaks (ls @ [l]) = peaks (pair_up ls) @ [l]"
  by (simp add: peaks.simps [of "ls @ [l]"])

lemma peaks_even: "even (length ls) \<Longrightarrow> peaks ls = peaks (pair_up ls)"
  by (cases "ls = []") (simp_all add: peaks.simps [of ls])

lemma frontier_carry_peaks:
  "frontier_carry (peaks ls) (length ls) l = Inr (peaks (ls @ [l]))"
proof (induction ls arbitrary: l rule: measure_induct_rule [where f = length])
  case (less ls)
  show ?case
  proof (cases "odd (length ls)")
    case False
    then show ?thesis
      by (simp add: frontier_carry.simps peaks_odd peaks_even [of ls])
  next
    case True
    then obtain ys y where ls: "ls = ys @ [y]" "even (length ys)"
      by (cases ls rule: rev_cases) auto
    then have n: "length (pair_up ys) = length ls div 2" "length (pair_up ys) < length ls" by auto
    have "frontier_carry (peaks ls) (length ls) l
        = frontier_carry (peaks (pair_up ys)) (length ls div 2) (node_hash y l)"
      using True by (subst frontier_carry.simps) (simp add: ls peaks_odd)
    also have "\<dots> = Inr (peaks (pair_up ys @ [node_hash y l]))"
      using less [OF n(2)] n(1) by simp
    also have "pair_up ys @ [node_hash y l] = pair_up (ls @ [l])"
      using ls by (simp add: pair_up_append)
    also have "peaks (pair_up (ls @ [l])) = peaks (ls @ [l])"
      using True by (simp add: peaks_even)
    finally show ?thesis .
  qed
qed

lemma foldr_peaks: "foldr node_hash (peaks ls) r = mth (ls @ [r])"
proof (induction ls arbitrary: r rule: measure_induct_rule [where f = length])
  case (less ls)
  consider "ls = []" | "ls \<noteq> []" "even (length ls)" | ys y where "ls = ys @ [y]" "even (length ys)"
    by (cases ls rule: rev_cases) auto
  then show ?case
  proof cases
    case 1
    then show ?thesis by (simp add: peaks.simps)
  next
    case 2
    then have "length (pair_up ls) < length ls" by (cases ls rule: pair_up.cases) auto
    from less [OF this] 2 have "foldr node_hash (peaks ls) r = mth (pair_up (ls @ [r]))"
      by (simp add: peaks_even [of ls] pair_up_append)
    then show ?thesis by (simp add: mth_pair_up)
  next
    case (3 ys y)
    then have "foldr node_hash (peaks ls) r = mth (pair_up (ls @ [r]))"
      using less [of "pair_up ys" "node_hash y r"] by (simp add: peaks_odd pair_up_append)
    then show ?thesis by (simp add: mth_pair_up)
  qed
qed

lemma frontier_root_snoc: "frontier_root (xs @ [x]) = foldr node_hash xs x"
  by (simp add: frontier_root_def foldr_conv_foldl node_hash_def)

lemma frontier_root_peaks: "frontier_root (peaks ls) = mth ls"
proof (induction ls rule: measure_induct_rule [where f = length])
  case (less ls)
  consider "ls = []" | "ls \<noteq> []" "even (length ls)" | ys y where "ls = ys @ [y]" "even (length ys)"
    by (cases ls rule: rev_cases) auto
  then show ?case
  proof cases
    case 1
    then show ?thesis by (simp add: peaks.simps frontier_root_def mth.simps)
  next
    case 2
    then have "length (pair_up ls) < length ls" by (cases ls rule: pair_up.cases) auto
    with less 2 show ?thesis by (simp add: peaks_even [of ls] mth_pair_up)
  next
    case (3 ys y)
    then have "pair_up ys @ [y] = pair_up ls" by (simp add: pair_up_append)
    with 3 show ?thesis by (simp add: peaks_odd frontier_root_snoc foldr_peaks mth_pair_up)
  qed
qed

text \<open>The leaves a chain of entry hashes has, as the frontier hashes them.\<close>

definition entry_leaves :: "ustr list \<Rightarrow> digest list" where
  "entry_leaves hs = map (\<lambda>h. leaf_hash (the (fromhex h))) hs"

fun frontier_of :: "digest list \<Rightarrow> nat \<Rightarrow> ustr list \<Rightarrow> digest list res" where
  "frontier_of f n [] = Inr f"
| "frontier_of f n (h # hs) = rbind (frontier_append f n h) (\<lambda>f'. frontier_of f' (Suc n) hs)"

lemma frontier_append_peaks:
  "fromhex h = Some bs \<Longrightarrow> frontier_append (peaks ls) (length ls) h = Inr (peaks (ls @ [leaf_hash bs]))"
  by (simp add: frontier_append_def frontier_carry_peaks leaf_hash_def)

lemma frontier_of_peaks:
  "list_all (\<lambda>h. fromhex h \<noteq> None) hs \<Longrightarrow>
     frontier_of (peaks ls) (length ls) hs = Inr (peaks (ls @ entry_leaves hs))"
proof (induction hs arbitrary: ls)
  case Nil
  then show ?case by (simp add: entry_leaves_def)
next
  case (Cons h hs)
  then obtain bs where "fromhex h = Some bs" by auto
  with Cons.IH [of "ls @ [leaf_hash bs]"] Cons.prems show ?case
    by (simp add: frontier_append_peaks entry_leaves_def)
qed

text \<open>Appending entry hashes one at a time to the compact frontier, from the empty one, never
  fails, and the frontier's root is RFC 9162's tree hash of all the entries so far.\<close>

theorem frontier_root_is_mth:
  assumes "list_all (\<lambda>h. fromhex h \<noteq> None) hs"
  shows "\<exists>f. frontier_of [] 0 hs = Inr f \<and> frontier_root f = mth (entry_leaves hs)"
  using frontier_of_peaks [OF assms, of "[]"] by (simp add: peaks.simps [of "[]"] frontier_root_peaks)

theorem frontier_root_is_mth_witness:
  "\<exists>f. frontier_of [] 0 [lit ''00'', lit ''ff'', lit ''0a''] = Inr f
    \<and> frontier_root f = mth (entry_leaves [lit ''00'', lit ''ff'', lit ''0a''])"
  by (rule frontier_root_is_mth) (simp add: hex_value_def)

section \<open>Inclusion proofs\<close>

text \<open>The audit path without a cache, and its bottom-up reading: the sibling of the leaf, then the
  path of its parent in the paired-up tree; a promoted last leaf has no sibling.\<close>

function audit_path :: "nat \<Rightarrow> digest list \<Rightarrow> digest list" where
  "audit_path m ls = (if length ls \<le> 1 then []
     else let k = split_size (length ls) in
       if m < k then audit_path m (take k ls) @ [mth (drop k ls)]
       else audit_path (m - k) (drop k ls) @ [mth (take k ls)])"
  by pat_completeness auto
termination
proof (relation "measure (\<lambda>(m, ls). length ls)", goal_cases)
  case (2 m ls k)
  then show ?case using split_size_bounds [of "length ls"] by simp
next
  case (3 m ls k)
  then show ?case using split_size_bounds [of "length ls"] by auto
qed simp

declare audit_path.simps [simp del]

lemma audit_path_single: "length ls \<le> 1 \<Longrightarrow> audit_path m ls = []"
  by (simp add: audit_path.simps)

lemma audit_path_left:
  "2 \<le> length ls \<Longrightarrow> k = split_size (length ls) \<Longrightarrow> m < k \<Longrightarrow>
     audit_path m ls = audit_path m (take k ls) @ [mth (drop k ls)]"
  by (simp add: audit_path.simps [of m ls] Let_def)

lemma audit_path_right:
  "2 \<le> length ls \<Longrightarrow> k = split_size (length ls) \<Longrightarrow> k \<le> m \<Longrightarrow>
     audit_path m ls = audit_path (m - k) (drop k ls) @ [mth (take k ls)]"
  by (simp add: audit_path.simps [of m ls] Let_def)

definition sibling :: "nat \<Rightarrow> digest list \<Rightarrow> digest list" where
  "sibling m ls = (if odd m then [ls ! (m - 1)] else if Suc m < length ls then [ls ! Suc m] else [])"

lemma audit_path_pair_up:
  "2 \<le> length ls \<Longrightarrow> m < length ls \<Longrightarrow>
     audit_path m ls = sibling m ls @ audit_path (m div 2) (pair_up ls)"
proof (induction ls arbitrary: m rule: measure_induct_rule [where f = length])
  case (less ls)
  show ?case
  proof (cases "length ls = 2")
    case True
    then obtain a b where ls: "ls = [a, b]" by (cases ls rule: pair_up.cases) auto
    with less.prems consider "m = 0" | "m = 1" by fastforce
    then show ?thesis
      by cases (simp_all add: ls sibling_def audit_path_single audit_path.simps [of _ "[a, b]"])
  next
    case False
    define k where "k = split_size (length ls)"
    have n: "2 < length ls" using False less.prems by simp
    note k = pair_up_split [OF n k_def]
    have two: "2 \<le> length (pair_up ls)" using n by simp
    have k2: "2 \<le> k" using k(1,3) by presburger
    show ?thesis
    proof (cases "m < k")
      case True
      then have half: "m div 2 < k div 2" using k(3) by (auto elim!: evenE)
      have "sibling m (take k ls) = sibling m ls"
        using True k(2,3) by (auto simp: sibling_def) presburger
      with less.IH [of "take k ls" m] True k k2
      have "audit_path m (take k ls) = sibling m ls @ audit_path (m div 2) (pair_up (take k ls))"
        by simp
      then show ?thesis
        using n audit_path_left [OF _ k_def True] audit_path_left [OF two k(4) [symmetric] half]
        by (simp add: k mth_pair_up)
    next
      case right: False
      then have half: "k div 2 \<le> m div 2" "m div 2 - k div 2 = (m - k) div 2"
        using k(3) by (auto elim!: evenE simp: div_le_mono)
      have sib: "sibling (m - k) (drop k ls) = sibling m ls"
      proof -
        from right obtain j where j: "m = k + j" by (metis le_Suc_ex not_less)
        show ?thesis using k(2,3) j less.prems(2) by (cases j) (auto simp: sibling_def)
      qed
      have "audit_path (m - k) (drop k ls) = sibling m ls @ audit_path ((m - k) div 2) (pair_up (drop k ls))"
      proof (cases "length ls - k = 1")
        case True
        then have "m = k" using right less.prems(2) k(2) by simp
        with True k(3) k(2) show ?thesis by (simp add: audit_path_single sibling_def)
      next
        case False
        then show ?thesis
          using less.IH [of "drop k ls" "m - k"] k right less.prems(2) sib by simp
      qed
      then show ?thesis
        using n right audit_path_right [OF _ k_def, of m]
          audit_path_right [OF two k(4) [symmetric] half(1)]
        by (simp add: k half mth_pair_up)
    qed
  qed
qed

lemma tree_path_correct:
  "cache_ok ls c \<Longrightarrow> 0 < n \<Longrightarrow> start + n \<le> length ls \<Longrightarrow>
     fst (tree_path ls c m start n) = audit_path m (take n (drop start ls))
       \<and> cache_ok ls (snd (tree_path ls c m start n))"
proof (induction ls c m start n rule: tree_path.induct)
  case (1 ls c m start n)
  show ?case
  proof (cases "n \<le> 1")
    case True
    with "1.prems" show ?thesis by (simp add: tree_path.simps [of ls c m start n] audit_path_single)
  next
    case False
    define k where "k = split_size n"
    have k: "0 < k" "k < n" using False split_size_bounds [of n] by (auto simp: k_def)
    have len: "length (take n (drop start ls)) = n" using "1.prems" by simp
    have parts: "take k (take n (drop start ls)) = take k (drop start ls)"
        "drop k (take n (drop start ls)) = take (n - k) (drop (start + k) ls)"
      using k by (simp_all add: drop_take min_absorb1 add.commute)
    show ?thesis
    proof (cases "m < k")
      case True
      define lower where "lower = tree_path ls c m start k"
      have l: "fst lower = audit_path m (take k (drop start ls))" "cache_ok ls (snd lower)"
        using "1.IH"(1) [OF False k_def True] "1.prems" k by (simp_all add: lower_def)
      have "tree_path ls c m start n = (let u = tree_hash ls (snd lower) (start + k) (n - k)
          in (fst lower @ [fst u], snd u))"
        using False True by (simp add: tree_path.simps [of ls c m start n] lower_def k_def Let_def)
      then show ?thesis
        using tree_hash_correct [OF l(2), of "n - k" "start + k"] "1.prems" k l(1) len parts False True
          audit_path_left [of "take n (drop start ls)" k m]
        by (simp add: Let_def k_def)
    next
      case right: False
      define lower where "lower = tree_path ls c (m - k) (start + k) (n - k)"
      have l: "fst lower = audit_path (m - k) (take (n - k) (drop (start + k) ls))" "cache_ok ls (snd lower)"
        using "1.IH"(2) [OF False k_def right] "1.prems" k by (simp_all add: lower_def)
      have "tree_path ls c m start n = (let u = tree_hash ls (snd lower) start k
          in (fst lower @ [fst u], snd u))"
        using False right by (simp add: tree_path.simps [of ls c m start n] lower_def k_def Let_def)
      then show ?thesis
        using tree_hash_correct [OF l(2), of k start] "1.prems" k l(1) len parts False right
          audit_path_right [of "take n (drop start ls)" k m]
        by (simp add: Let_def k_def)
    qed
  qed
qed

text \<open>The verifier one level up. A promoted leaf is stepped over: the inner loop does that when the
  next proof element is read.\<close>

lemma strip_zeros_even:
  "fn \<noteq> 0 \<Longrightarrow> even fn \<Longrightarrow> strip_zeros fn sn = strip_zeros (fn div 2) (sn div 2)"
  by (subst strip_zeros.simps) simp

lemma strip_zeros_odd: "odd fn \<Longrightarrow> strip_zeros fn sn = (fn, sn)"
  by (subst strip_zeros.simps) simp

lemma inclusion_loop_promoted:
  assumes "fn \<noteq> 0" "even fn" "ps \<noteq> []"
  shows "inclusion_loop fn fn r ps = inclusion_loop (fn div 2) (fn div 2) r ps"
proof -
  obtain p qs where "ps = p # qs" using assms(3) by (cases ps) auto
  moreover have "fn div 2 \<noteq> 0" using assms(1,2) by auto
  ultimately show ?thesis
    using assms strip_zeros_even [of fn fn] strip_zeros_odd [of "fn div 2" "fn div 2"]
    by (cases "even (fn div 2)") simp_all
qed

lemma audit_path_nonempty: "2 \<le> length ls \<Longrightarrow> audit_path m ls \<noteq> []"
  by (simp add: audit_path.simps [of m ls] Let_def)

lemma half_size: "2 \<le> length ls \<Longrightarrow> length (pair_up ls) - 1 = (length ls - 1) div 2"
  by simp

lemma inclusion_complete:
  "m < length ls \<Longrightarrow> inclusion_loop m (length ls - 1) (ls ! m) (audit_path m ls) = Some (0, mth ls)"
proof (induction ls arbitrary: m rule: measure_induct_rule [where f = length])
  case (less ls)
  show ?case
  proof (cases "length ls = 1")
    case True
    then obtain l where "ls = [l]" by (metis One_nat_def length_0_conv length_Suc_conv)
    with less.prems show ?thesis by (simp add: audit_path_single)
  next
    case False
    with less.prems have n: "2 \<le> length ls" by linarith
    have ih: "inclusion_loop (m div 2) ((length ls - 1) div 2) (pair_up ls ! (m div 2))
        (audit_path (m div 2) (pair_up ls)) = Some (0, mth ls)"
    proof -
      have "length (pair_up ls) < length ls" "m div 2 < length (pair_up ls)"
        using n less.prems by auto
      from less.IH [OF this] show ?thesis unfolding half_size [OF n] mth_pair_up .
    qed
    consider "odd m" | "even m" "Suc m < length ls" | "even m" "Suc m = length ls"
      using less.prems by linarith
    then show ?thesis
    proof cases
      case 1
      then show ?thesis
        using ih n less.prems pair_up_nth_odd [of m ls]
        by (simp add: audit_path_pair_up [OF n less.prems] sibling_def)
    next
      case 2
      then show ?thesis
        using ih n pair_up_nth_even [of m ls]
        by (auto simp: audit_path_pair_up [OF n less.prems] sibling_def)
    next
      case 3
      then have m: "length ls - 1 = m" "m \<noteq> 0" using n by auto
      have "audit_path m ls = audit_path (m div 2) (pair_up ls)"
        using 3 by (simp add: audit_path_pair_up [OF n less.prems] sibling_def)
      then show ?thesis
        using ih 3 m audit_path_nonempty [OF n, of m] pair_up_nth_last [of m ls]
          inclusion_loop_promoted [of m "audit_path m ls"]
        by simp
    qed
  qed
qed

text \<open>C31: Every inclusion proof the tree hands out is accepted by the verifier, for the leaf it was
  made for and the root of the size it was made for.\<close>

theorem inclusion_proof_verifies:
  assumes "tree_ok t" and "inclusion_proof t index sz = Inr (prf, t')" and "tree_size t sz = Inr n"
  shows "verify_inclusion (leaves t ! nat index) index (int n) prf (mth (take n (leaves t)))"
proof -
  have i: "0 \<le> index" "index < int n"
    and p: "prf = fst (tree_path (leaves t) (cached t) (nat index) 0 n)"
    using assms(2,3) by (auto simp: inclusion_proof_def split: if_splits prod.splits)
  have n: "0 < n" "n \<le> length (leaves t)"
    using i assms(3) by (auto simp: tree_size_def split: option.splits if_splits)
  have "prf = audit_path (nat index) (take n (leaves t))"
    using p n assms(1) tree_path_correct [of "leaves t" "cached t" n 0] by (simp add: tree_ok_def)
  then show ?thesis
    using i n inclusion_complete [of "nat index" "take n (leaves t)"]
    by (simp add: verify_inclusion_def min_absorb2 nat_less_iff)
qed

theorem inclusion_proof_verifies_witness:
  "verify_inclusion (replicate 32 9) 1 (int 2) [replicate 32 7]
     (mth (take 2 [replicate 32 7, replicate 32 (9::byte)]))"
proof -
  define t where "t = \<lparr>leaves = [replicate 32 7, replicate 32 (9::byte)], cached = []\<rparr>"
  have "tree_ok t" by (simp add: t_def tree_ok_def cache_ok_def)
  moreover have "inclusion_proof t 1 None = Inr ([replicate 32 7], t)"
    by (simp add: t_def inclusion_proof_def tree_size_def tree_path.simps [of _ _ _ _ "Suc (Suc 0)"]
        tree_path.simps [of _ _ _ _ "Suc 0"] tree_hash.simps [of _ _ _ "Suc 0"] Let_def)
  moreover have "tree_size t None = Inr 2" by (simp add: t_def tree_size_def)
  ultimately have "verify_inclusion (leaves t ! nat 1) 1 (int 2) [replicate 32 7] (mth (take 2 (leaves t)))"
    by (rule inclusion_proof_verifies)
  then show ?thesis by (simp add: t_def)
qed

lemma inclusion_sound:
  "list_all (\<lambda>l. length l = 32) ls \<Longrightarrow> m < length ls \<Longrightarrow> length x = 32 \<Longrightarrow>
     inclusion_loop m (length ls - 1) x ps = Some (0, mth ls) \<Longrightarrow> x = ls ! m \<or> sha256_collision"
proof (induction ls arbitrary: m x ps rule: measure_induct_rule [where f = length])
  case (less ls)
  show ?case
  proof (cases "length ls = 1")
    case True
    then obtain l where "ls = [l]" by (metis One_nat_def length_0_conv length_Suc_conv)
    with less.prems show ?thesis by (cases ps) auto
  next
    case False
    with less.prems have n: "2 \<le> length ls" by linarith
    then obtain p qs where ps: "ps = p # qs" using less.prems(4) by (cases ps) auto
    have len: "length (ls ! i) = 32" if "i < length ls" for i
      using less.prems(1) that by (simp add: list_all_length)
    have ih: "y = pair_up ls ! (m div 2) \<or> sha256_collision"
      if "length y = 32" "inclusion_loop (m div 2) ((length ls - 1) div 2) y zs = Some (0, mth ls)" for y zs
    proof -
      have "length (pair_up ls) < length ls" "m div 2 < length (pair_up ls)" using n less.prems by auto
      from less.IH [OF this(1) pair_up_digests [OF less.prems(1)] this(2) that(1)] show ?thesis
        using that(2) unfolding half_size [OF n] mth_pair_up .
    qed
    consider "odd m" | "even m" "Suc m < length ls" | "even m" "Suc m = length ls"
      using less.prems by linarith
    then show ?thesis
    proof cases
      case 1
      then have "inclusion_loop (m div 2) ((length ls - 1) div 2) (node_hash p x) qs = Some (0, mth ls)"
        using less.prems(4) n by (simp add: ps)
      from ih [OF _ this] have "node_hash p x = node_hash (ls ! (m - 1)) (ls ! m) \<or> sha256_collision"
        using 1 less.prems(2) by (simp add: pair_up_nth_odd)
      then show ?thesis
        using node_hash_eq [of p x] len less.prems(2,3) by metis
    next
      case 2
      then have "inclusion_loop (m div 2) ((length ls - 1) div 2) (node_hash x p) qs = Some (0, mth ls)"
        using less.prems(4) n by (auto simp: ps split: if_splits)
      from ih [OF _ this] have "node_hash x p = node_hash (ls ! m) (ls ! Suc m) \<or> sha256_collision"
        using 2 by (simp add: pair_up_nth_even)
      then show ?thesis
        using node_hash_eq [of x p] len less.prems(2,3) by metis
    next
      case 3
      then have m: "length ls - 1 = m" "m \<noteq> 0" using n by auto
      then have "inclusion_loop (m div 2) ((length ls - 1) div 2) x ps = Some (0, mth ls)"
        using less.prems(4) 3 ps inclusion_loop_promoted [of m ps] by simp
      from ih [OF less.prems(3) this] 3 show ?thesis by (simp add: pair_up_nth_last)
    qed
  qed
qed



end
