(* ===== verification/Consistency.thy ===== *)
theory Consistency
  imports Merkle
begin

text \<open>
  RFC 9162 consistency proofs (\<open>receipts/merkle.py\<close>: \<open>consistency_proof\<close>, \<open>_subproof\<close>,
  \<open>verify_consistency\<close>): a log of \<open>m\<close> leaves is a prefix of one of \<open>n\<close>. The recursion that makes a
  proof is related to the iteration that checks it through the bottom-up law of \<open>mth\<close>: as long as
  \<open>m\<close> is even both live one level up, and from an odd \<open>m\<close> on the proof is the audit path of leaf \<open>m - 1\<close>.
\<close>

section \<open>Making a proof\<close>

text \<open>\<open>MerkleTree._subproof\<close>, reading and filling the cache. It is called with \<open>0 < m \<le> n\<close>, so that
  \<open>m = n\<close> whenever \<open>n \<le> 1\<close>.\<close>

function tree_subproof :: "digest list \<Rightarrow> cache \<Rightarrow> nat \<Rightarrow> nat \<Rightarrow> nat \<Rightarrow> bool \<Rightarrow> digest list \<times> cache" where
  "tree_subproof ls c m start n whole =
     (if m = n \<or> n \<le> 1 then
        (if whole then ([], c) else let (h, c) = tree_hash ls c start n in ([h], c))
      else let k = split_size n in
        if m \<le> k then
          (let lower = tree_subproof ls c m start k whole;
               upper = tree_hash ls (snd lower) (start + k) (n - k)
           in (fst lower @ [fst upper], snd upper))
        else
          (let lower = tree_subproof ls c (m - k) (start + k) (n - k) False;
               upper = tree_hash ls (snd lower) start k
           in (fst lower @ [fst upper], snd upper)))"
  by pat_completeness auto
termination
proof (relation "measure (\<lambda>(ls, c, m, start, n, whole). n)", goal_cases)
  case 1
  then show ?case by simp
next
  case (2 ls c m start n whole k)
  then show ?case using split_size_bounds [of n] by simp
next
  case (3 ls c m start n whole k)
  then show ?case using split_size_bounds [of n] by simp
qed

declare tree_subproof.simps [simp del]

definition consistency_proof :: "merkle_tree \<Rightarrow> int \<Rightarrow> int option \<Rightarrow> (digest list \<times> merkle_tree) res" where
  "consistency_proof t old_size new_size = rbind (tree_size t new_size) (\<lambda>n.
     if \<not> (0 \<le> old_size \<and> old_size \<le> int n) then Inl (ValueError ''cannot prove a tree of that size is a prefix'')
     else if old_size = 0 \<or> old_size = int n then Inr ([], t)
     else let (p, c) = tree_subproof (leaves t) (cached t) (nat old_size) 0 n True in Inr (p, t\<lparr>cached := c\<rparr>))"

section \<open>Checking one\<close>

function strip_ones :: "nat \<Rightarrow> nat \<Rightarrow> nat \<times> nat" where
  "strip_ones fn sn = (if odd fn then strip_ones (fn div 2) (sn div 2) else (fn, sn))"
  by pat_completeness auto
termination
  by (relation "measure fst") (auto dest: odd_pos)

declare strip_ones.simps [simp del]

fun consistency_loop :: "nat \<Rightarrow> nat \<Rightarrow> digest \<Rightarrow> digest \<Rightarrow> digest list \<Rightarrow> (nat \<times> digest \<times> digest) option" where
  "consistency_loop fn sn fr sr [] = Some (sn, fr, sr)"
| "consistency_loop fn sn fr sr (c # cs) =
     (if sn = 0 then None
      else if odd fn \<or> fn = sn then
        (let (fn', sn') = (if even fn then strip_zeros fn sn else (fn, sn))
         in consistency_loop (fn' div 2) (sn' div 2) (node_hash c fr) (node_hash c sr) cs)
      else consistency_loop (fn div 2) (sn div 2) fr (node_hash sr c) cs)"

definition verify_consistency :: "int \<Rightarrow> int \<Rightarrow> digest \<Rightarrow> digest \<Rightarrow> digest list \<Rightarrow> bool" where
  "verify_consistency old_size new_size old_root new_root prf =
     (if \<not> (0 \<le> old_size \<and> old_size \<le> new_size) then False
      else if old_size = new_size then prf = [] \<and> old_root = new_root
      else if old_size = 0 then prf = [] \<and> old_root = EMPTY_ROOT
      else if prf = [] then False
      else let path = (if power_of_two (nat old_size) then old_root # prf else prf);
               (fn, sn) = strip_ones (nat old_size - 1) (nat new_size - 1)
        in case consistency_loop fn sn (hd path) (hd path) (tl path) of
             None \<Rightarrow> False
           | Some (sn, fr, sr) \<Rightarrow> sn = 0 \<and> fr = old_root \<and> sr = new_root)"

section \<open>Specification: the RFC's proof\<close>

function subproof :: "nat \<Rightarrow> digest list \<Rightarrow> bool \<Rightarrow> digest list" where
  "subproof m ls whole = (if m = length ls \<or> length ls \<le> 1 then (if whole then [] else [mth ls])
     else let k = split_size (length ls) in
       if m \<le> k then subproof m (take k ls) whole @ [mth (drop k ls)]
       else subproof (m - k) (drop k ls) False @ [mth (take k ls)])"
  by pat_completeness auto
termination
proof (relation "measure (\<lambda>(m, ls, b). length ls)", goal_cases)
  case (2 m ls b k)
  then show ?case using split_size_bounds [of "length ls"] by simp
next
  case (3 m ls b k)
  then show ?case using split_size_bounds [of "length ls"] by auto
qed simp

declare subproof.simps [simp del]

lemma subproof_all: "m = length ls \<Longrightarrow> subproof m ls b = (if b then [] else [mth ls])"
  by (simp add: subproof.simps)

lemma subproof_left:
  "2 \<le> length ls \<Longrightarrow> k = split_size (length ls) \<Longrightarrow> m \<le> k \<Longrightarrow> subproof m ls b = subproof m (take k ls) b @ [mth (drop k ls)]"
  using split_size_bounds [of "length ls"] by (simp add: subproof.simps [of m ls] Let_def)

lemma subproof_right:
  "2 \<le> length ls \<Longrightarrow> k = split_size (length ls) \<Longrightarrow> k < m \<Longrightarrow> m \<noteq> length ls \<Longrightarrow>
     subproof m ls b = subproof (m - k) (drop k ls) False @ [mth (take k ls)]"
  by (simp add: subproof.simps [of m ls] Let_def)

text \<open>One level up, as long as \<open>m\<close> is even.\<close>

lemma subproof_even:
  "even m \<Longrightarrow> 0 < m \<Longrightarrow> m < length ls \<Longrightarrow> subproof m ls b = subproof (m div 2) (pair_up ls) b"
proof (induction ls arbitrary: m b rule: measure_induct_rule [where f = length])
  case (less ls)
  define k where "k = split_size (length ls)"
  have n: "2 < length ls" using less.prems by presburger
  note k = pair_up_split [OF n k_def]
  have two: "2 \<le> length (pair_up ls)" using n by simp
  have all: "subproof j xs c = subproof (j div 2) (pair_up xs) c" if "j = length xs" "even j" for j xs c
    using that by (simp add: subproof_all mth_pair_up)
  show ?case
  proof (cases "m \<le> k")
    case True
    have "subproof m (take k ls) b = subproof (m div 2) (pair_up (take k ls)) b"
    proof (cases "m = k")
      case False
      then show ?thesis using less.IH [of "take k ls" m b] less.prems True k by simp
    qed (use all [of m "take k ls"] less.prems k in simp)
    moreover have "m div 2 \<le> k div 2" using True by (rule div_le_mono)
    ultimately show ?thesis
      using n subproof_left [OF _ k_def True] subproof_left [OF two k(4) [symmetric]] by (simp add: k mth_pair_up)
  next
    case right: False
    then have half: "k div 2 < m div 2" "m div 2 - k div 2 = (m - k) div 2"
      using k(3) less.prems(1) by (auto elim!: evenE)
    have "m - k < length (drop k ls)" "even (m - k)" "0 < m - k" using right less.prems k(2,3) by auto
    then have "subproof (m - k) (drop k ls) False = subproof ((m - k) div 2) (pair_up (drop k ls)) False"
      using less.IH [of "drop k ls" "m - k"] k by simp
    moreover have "m div 2 \<noteq> length (pair_up ls)" using less.prems by (auto elim!: evenE)
    ultimately show ?thesis
      using n right less.prems subproof_right [OF _ k_def, of m] subproof_right [OF two k(4) [symmetric] half(1)]
      by (simp add: k half mth_pair_up)
  qed
qed

text \<open>From an odd \<open>m\<close> on it is an audit path.\<close>

lemma subproof_odd:
  "odd m \<Longrightarrow> m < length ls \<Longrightarrow>
     subproof m ls b = (if b \<and> m = 1 then [] else [ls ! (m - 1)]) @ audit_path (m - 1) ls"
proof (induction ls arbitrary: m b rule: measure_induct_rule [where f = length])
  case (less ls)
  define k where "k = split_size (length ls)"
  have m: "0 < m" using less.prems(1) by (rule odd_pos)
  have n: "2 \<le> length ls" using less.prems m by linarith
  have k: "0 < k" "k < length ls" using split_size_bounds [OF n] by (auto simp: k_def)
  have even: "even k" if "2 < length ls" using split_size_even [OF that] by (simp add: k_def)
  have single: "subproof 1 [x] c = (if c then [] else [x])" for x c by (simp add: subproof_all)
  show ?case
  proof (cases "m \<le> k")
    case True
    have "subproof m (take k ls) b = (if b \<and> m = 1 then [] else [ls ! (m - 1)]) @ audit_path (m - 1) (take k ls)"
    proof (cases "m = k")
      case False
      then show ?thesis using less.IH [of "take k ls" m b] less.prems True k by simp
    next
      case same: True
      have "length ls = 2" using even same less.prems n by fastforce
      then have "m = 1" using k less.prems same by simp
      moreover from this same have "take k ls = [ls ! 0]" using n by (cases ls) simp_all
      ultimately show ?thesis using single [of "ls ! 0" b] by (simp add: audit_path_single)
    qed
    moreover have "m - 1 < k" using True m by simp
    ultimately show ?thesis using n subproof_left [OF n k_def True] audit_path_left [OF n k_def] by simp
  next
    case right: False
    have three: "2 < length ls" using right less.prems k by linarith
    have "odd (m - k)" "m - k < length (drop k ls)" using even [OF three] right less.prems by auto
    with less.IH [of "drop k ls" "m - k" False] k
    have "subproof (m - k) (drop k ls) False = [ls ! (m - 1)] @ audit_path (m - 1 - k) (drop k ls)"
      using right by (simp add: add.commute)
    moreover have "m \<noteq> 1" using right k by simp
    ultimately show ?thesis
      using n right less.prems subproof_right [OF n k_def, of m] audit_path_right [OF n k_def, of "m - 1"] by simp
  qed
qed

lemma tree_subproof_correct:
  "cache_ok ls c \<Longrightarrow> 0 < m \<Longrightarrow> m \<le> n \<Longrightarrow> start + n \<le> length ls \<Longrightarrow>
     fst (tree_subproof ls c m start n b) = subproof m (take n (drop start ls)) b
       \<and> cache_ok ls (snd (tree_subproof ls c m start n b))"
proof (induction ls c m start n b rule: tree_subproof.induct)
  case (1 ls c m start n b)
  have len: "length (take n (drop start ls)) = n" using "1.prems" by simp
  show ?case
  proof (cases "m = n")
    case True
    then show ?thesis
      using "1.prems" tree_hash_correct [of ls c n start] len
      by (subst (1 2) tree_subproof.simps) (auto simp: subproof_all split: prod.split)
  next
    case False
    define k where "k = split_size n"
    have n: "2 \<le> n" "\<not> (m = n \<or> n \<le> 1)" using False "1.prems" by auto
    have k: "0 < k" "k < n" using n split_size_bounds [of n] by (auto simp: k_def)
    have parts: "take k (take n (drop start ls)) = take k (drop start ls)"
        "drop k (take n (drop start ls)) = take (n - k) (drop (start + k) ls)"
      using k by (simp_all add: drop_take min_absorb1 add.commute)
    show ?thesis
    proof (cases "m \<le> k")
      case True
      define lower where "lower = tree_subproof ls c m start k b"
      have l: "fst lower = subproof m (take k (drop start ls)) b" "cache_ok ls (snd lower)"
        using "1.IH"(1) [OF n(2) k_def True] "1.prems" k True by (simp_all add: lower_def)
      have "tree_subproof ls c m start n b = (let u = tree_hash ls (snd lower) (start + k) (n - k) in (fst lower @ [fst u], snd u))"
        using n True by (simp add: tree_subproof.simps [of ls c m start n b] lower_def k_def Let_def)
      then show ?thesis
        using tree_hash_correct [OF l(2), of "n - k" "start + k"] "1.prems" k l(1) len parts n True
          subproof_left [of "take n (drop start ls)" k m b]
        by (simp add: Let_def k_def)
    next
      case right: False
      define lower where "lower = tree_subproof ls c (m - k) (start + k) (n - k) False"
      have l: "fst lower = subproof (m - k) (take (n - k) (drop (start + k) ls)) False" "cache_ok ls (snd lower)"
        using "1.IH"(2) [OF n(2) k_def right] "1.prems" k right by (simp_all add: lower_def)
      have "tree_subproof ls c m start n b = (let u = tree_hash ls (snd lower) start k in (fst lower @ [fst u], snd u))"
        using n right by (simp add: tree_subproof.simps [of ls c m start n b] lower_def k_def Let_def)
      then show ?thesis
        using tree_hash_correct [OF l(2), of k start] "1.prems" k l(1) len parts n right
          subproof_right [of "take n (drop start ls)" k m b]
        by (simp add: Let_def k_def)
    qed
  qed
qed

section \<open>Checking follows making\<close>

lemma strip_ones_odd: "odd fn \<Longrightarrow> strip_ones fn sn = strip_ones (fn div 2) (sn div 2)"
  by (subst strip_ones.simps) simp

lemma strip_ones_even: "even fn \<Longrightarrow> strip_ones fn sn = (fn, sn)"
  by (subst strip_ones.simps) simp

lemma pair_up_prefix:
  assumes "even m" "m < length ls" and "length fr = 32"
  shows "mth (take m ls @ [fr]) = mth (take (m div 2) (pair_up ls) @ [fr])"
    "Suc m < length ls \<Longrightarrow> mth (take (Suc m) ls @ [fr]) = mth (take (m div 2) (pair_up ls) @ [node_hash (ls ! m) fr])"
proof -
  have p: "take (m div 2) (pair_up ls) = pair_up (take m ls)"
  proof -
    have "pair_up ls = pair_up (take m ls) @ pair_up (drop m ls)"
      using assms(1,2) pair_up_append [of "take m ls" "drop m ls"] by simp
    moreover have "length (pair_up (take m ls)) = m div 2" using assms(1,2) by (auto elim!: evenE)
    ultimately show ?thesis by simp
  qed
  have e: "even (length (take m ls))" using assms(1,2) by simp
  have "pair_up (take m ls @ [fr]) = take (m div 2) (pair_up ls) @ [fr]" using pair_up_append [OF e, of "[fr]"] p by simp
  then show "mth (take m ls @ [fr]) = mth (take (m div 2) (pair_up ls) @ [fr])" using mth_pair_up [of "take m ls @ [fr]"] by simp
  assume "Suc m < length ls"
  then have "pair_up (take (Suc m) ls @ [fr]) = take (m div 2) (pair_up ls) @ [node_hash (ls ! m) fr]"
    using pair_up_append [OF e, of "[ls ! m, fr]"] p by (simp add: take_Suc_conv_app_nth)
  then show "mth (take (Suc m) ls @ [fr]) = mth (take (m div 2) (pair_up ls) @ [node_hash (ls ! m) fr])"
    using mth_pair_up [of "take (Suc m) ls @ [fr]"] by simp
qed

lemma consistency_loop_promoted:
  assumes "fn \<noteq> 0" "even fn" "ps \<noteq> []"
  shows "consistency_loop fn fn f r ps = consistency_loop (fn div 2) (fn div 2) f r ps"
proof -
  obtain p qs where "ps = p # qs" using assms(3) by (cases ps) auto
  moreover have "fn div 2 \<noteq> 0" using assms(1,2) by auto
  ultimately show ?thesis
    using assms strip_zeros_even [of fn fn] strip_zeros_odd [of "fn div 2" "fn div 2"]
    by (cases "even (fn div 2)") simp_all
qed

text \<open>The loop keeps two roots at once: of the whole tree, and of its first \<open>m + 1\<close> leaves with the last
  one replaced.\<close>

lemma consistency_loop_complete:
  "m < length ls \<Longrightarrow> length f = 32 \<Longrightarrow>
     consistency_loop m (length ls - 1) f (ls ! m) (audit_path m ls) = Some (0, mth (take m ls @ [f]), mth ls)"
proof (induction ls arbitrary: m f rule: measure_induct_rule [where f = length])
  case (less ls)
  show ?case
  proof (cases "length ls = 1")
    case True
    then obtain l where "ls = [l]" by (metis One_nat_def length_0_conv length_Suc_conv)
    with less.prems show ?thesis by (simp add: audit_path_single)
  next
    case False
    with less.prems have n: "2 \<le> length ls" by linarith
    have ih: "consistency_loop (m div 2) ((length ls - 1) div 2) f' (pair_up ls ! (m div 2))
        (audit_path (m div 2) (pair_up ls)) = Some (0, mth (take (m div 2) (pair_up ls) @ [f']), mth ls)" if "length f' = 32" for f'
    proof -
      have "length (pair_up ls) < length ls" "m div 2 < length (pair_up ls)" using n less.prems by auto
      from less.IH [OF this that] show ?thesis unfolding half_size [OF n] mth_pair_up .
    qed
    consider "odd m" | "even m" "Suc m < length ls" | "even m" "Suc m = length ls"
      using less.prems by linarith
    then show ?thesis
    proof cases
      case 1
      then obtain j where j: "m = Suc j" "even j" by (cases m) auto
      have "mth (take m ls @ [f]) = mth (take (m div 2) (pair_up ls) @ [node_hash (ls ! (m - 1)) f])"
        using pair_up_prefix(2) [of j ls f] j less.prems by simp
      then show ?thesis
        using ih 1 n less.prems pair_up_nth_odd [of m ls]
        by (simp add: audit_path_pair_up [OF n less.prems(1)] sibling_def)
    next
      case 2
      then show ?thesis
        using ih n less.prems pair_up_nth_even [of m ls] pair_up_prefix(1) [of m ls f]
        by (auto simp: audit_path_pair_up [OF n less.prems(1)] sibling_def)
    next
      case 3
      then have m: "length ls - 1 = m" "m \<noteq> 0" using n by auto
      have "audit_path m ls = audit_path (m div 2) (pair_up ls)"
        using 3 by (simp add: audit_path_pair_up [OF n less.prems(1)] sibling_def)
      then show ?thesis
        using ih [OF less.prems(2)] 3 m audit_path_nonempty [OF n, of m] pair_up_nth_last [of m ls]
          consistency_loop_promoted [of m "audit_path m ls"] pair_up_prefix(1) [of m ls f] less.prems
        by simp
    qed
  qed
qed

text \<open>What the verifier does with a proof, for sizes \<open>0 < m < n\<close>.\<close>

definition checked :: "nat \<Rightarrow> nat \<Rightarrow> digest list \<Rightarrow> (nat \<times> digest \<times> digest) option" where
  "checked m n path = (let (fn, sn) = strip_ones (m - 1) (n - 1) in consistency_loop fn sn (hd path) (hd path) (tl path))"

lemma verify_checked:
  "0 < nat old_size \<Longrightarrow> nat old_size < n \<Longrightarrow> verify_consistency old_size (int n) r s prf \<longleftrightarrow>
     prf \<noteq> [] \<and> checked (nat old_size) n (if power_of_two (nat old_size) then r # prf else prf) = Some (0, r, s)"
  by (auto simp: verify_consistency_def checked_def Let_def split: prod.splits option.splits)

lemma checked_even:
  assumes "even m" "0 < m" "2 \<le> n"
  shows "checked m n path = checked (m div 2) (Suc n div 2) path"
proof -
  have "odd (m - 1)" "(m - 1) div 2 = m div 2 - 1" "(n - 1) div 2 = Suc n div 2 - 1" using assms by (auto elim!: evenE)
  then show ?thesis by (simp add: checked_def strip_ones_odd)
qed

lemma checked_odd: "odd m \<Longrightarrow> checked m n (x # path) = consistency_loop (m - 1) (n - 1) x x path"
  by (simp add: checked_def strip_ones_even)

lemma power_of_two_half: "even m \<Longrightarrow> 0 < m \<Longrightarrow> power_of_two m = power_of_two (m div 2)"
  by (subst power_of_two.simps) (auto elim!: evenE)

lemma power_of_two_odd: "odd m \<Longrightarrow> power_of_two m \<longleftrightarrow> m = 1"
  by (subst power_of_two.simps) (auto elim: oddE)

lemma pair_up_take: "even m \<Longrightarrow> m < length ls \<Longrightarrow> mth (take (m div 2) (pair_up ls)) = mth (take m ls)"
proof -
  assume m: "even m" "m < length ls"
  then have "pair_up ls = pair_up (take m ls) @ pair_up (drop m ls)"
    using pair_up_append [of "take m ls" "drop m ls"] by simp
  moreover have "length (pair_up (take m ls)) = m div 2" using m by (auto elim!: evenE)
  ultimately have "take (m div 2) (pair_up ls) = pair_up (take m ls)" by simp
  then show ?thesis by (simp add: mth_pair_up)
qed

lemma subproof_checked:
  "list_all (\<lambda>l. length l = 32) ls \<Longrightarrow> 0 < m \<Longrightarrow> m < length ls \<Longrightarrow>
     checked m (length ls) (if power_of_two m then mth (take m ls) # subproof m ls True else subproof m ls True)
       = Some (0, mth (take m ls), mth ls)
     \<and> subproof m ls True \<noteq> []"
proof (induction ls arbitrary: m rule: measure_induct_rule [where f = length])
  case (less ls)
  have n: "2 \<le> length ls" using less.prems by linarith
  show ?case
  proof (cases "even m")
    case True
    have "length (pair_up ls) < length ls" "0 < m div 2" "m div 2 < length (pair_up ls)"
      using n less.prems True by (auto elim!: evenE)
    from less.IH [OF this(1) pair_up_digests [OF less.prems(1)] this(2,3)] show ?thesis
      using checked_even [OF True less.prems(2) n] subproof_even [OF True less.prems(2,3)] power_of_two_half [OF True less.prems(2)]
        pair_up_take [OF True less.prems(3)] by (cases "power_of_two m") (simp_all add: mth_pair_up)
  next
    case False
    have x: "mth (take m ls) = ls ! 0" if "m = 1" using that less.prems by (cases ls) auto
    have len: "length (ls ! (m - 1)) = 32" using less.prems by (simp add: list_all_length)
    have "consistency_loop (m - 1) (length ls - 1) (ls ! (m - 1)) (ls ! (m - 1)) (audit_path (m - 1) ls)
        = Some (0, mth (take (m - 1) ls @ [ls ! (m - 1)]), mth ls)"
      using less.prems by (intro consistency_loop_complete len) simp
    moreover have "take (m - 1) ls @ [ls ! (m - 1)] = take m ls"
      using less.prems by (cases m) (simp_all add: take_Suc_conv_app_nth)
    ultimately show ?thesis
      using subproof_odd [OF False less.prems(3), of True] False x checked_odd [OF False] power_of_two_odd [OF False]
        audit_path_nonempty [OF n, of "m - 1"] by auto
  qed
qed

text \<open>C30: The log's consistency proofs are accepted by the verifier, for the roots of the two sizes.\<close>

theorem consistency_proof_verifies:
  assumes "tree_ok t" and "consistency_proof t old_size new_size = Inr (prf, t')" and "tree_size t new_size = Inr n"
  shows "verify_consistency old_size (int n) (mth (take (nat old_size) (leaves t))) (mth (take n (leaves t))) prf"
proof -
  have o: "0 \<le> old_size" "old_size \<le> int n" using assms(2,3) by (auto simp: consistency_proof_def split: if_splits)
  have n: "n \<le> length (leaves t)" using assms(3) by (auto simp: tree_size_def split: option.splits if_splits)
  consider "old_size = int n" | "old_size = 0" "0 < n" | "0 < nat old_size" "nat old_size < n" using o by fastforce
  then show ?thesis
  proof cases
    case 1
    then show ?thesis using assms(2,3) by (simp add: verify_consistency_def consistency_proof_def)
  next
    case 2
    then show ?thesis using assms(2,3) by (auto simp: verify_consistency_def consistency_proof_def mth.simps)
  next
    case 3
    let ?ls = "take n (leaves t)" and ?m = "nat old_size"
    have "prf = fst (tree_subproof (leaves t) (cached t) ?m 0 n True)"
      using assms(2,3) o 3 by (auto simp: consistency_proof_def split: prod.splits if_splits)
    then have p: "prf = subproof ?m ?ls True"
      using tree_subproof_correct [of "leaves t" "cached t" ?m n 0 True] assms(1) 3 n by (simp add: tree_ok_def)
    have "list_all (\<lambda>l. length l = 32) ?ls" using assms(1) by (auto simp: tree_ok_def list_all_iff dest: in_set_takeD)
    from subproof_checked [OF this 3(1)] 3 n show ?thesis
      unfolding p verify_checked [OF 3] by (auto simp: min_absorb1)
  qed
qed

theorem consistency_proof_verifies_witness:
  "verify_consistency 1 2 (mth [replicate 32 7]) (mth [replicate 32 7, replicate 32 (9::byte)]) [replicate 32 9]"
proof -
  define t where "t = \<lparr>leaves = [replicate 32 7, replicate 32 (9::byte)], cached = []\<rparr>"
  have "tree_ok t" by (simp add: t_def tree_ok_def cache_ok_def)
  moreover have "consistency_proof t 1 None = Inr ([replicate 32 9], t)"
    by (simp add: t_def consistency_proof_def tree_size_def tree_subproof.simps [of _ _ _ _ "Suc (Suc 0)"]
        tree_subproof.simps [of _ _ _ _ "Suc 0"] tree_hash.simps [of _ _ _ "Suc 0"] Let_def)
  moreover have "tree_size t None = Inr 2" by (simp add: t_def tree_size_def)
  ultimately have "verify_consistency 1 (int 2) (mth (take (nat 1) (leaves t))) (mth (take 2 (leaves t))) [replicate 32 9]"
    by (rule consistency_proof_verifies)
  then show ?thesis by (simp add: t_def)
qed

section \<open>A proof that is accepted proves\<close>

lemma consistency_loop_sound:
  "list_all (\<lambda>l. length l = 32) ls \<Longrightarrow> m < length ls \<Longrightarrow> length x = 32 \<Longrightarrow> length f = 32 \<Longrightarrow>
     consistency_loop m (length ls - 1) f x ps = Some (0, fr, mth ls) \<Longrightarrow>
     x = ls ! m \<and> fr = mth (take m ls @ [f]) \<or> sha256_collision"
proof (induction ls arbitrary: m x f ps rule: measure_induct_rule [where f = length])
  case (less ls)
  show ?case
  proof (cases "length ls = 1")
    case True
    then obtain l where "ls = [l]" by (metis One_nat_def length_0_conv length_Suc_conv)
    with less.prems show ?thesis by (cases ps) auto
  next
    case False
    with less.prems have n: "2 \<le> length ls" by linarith
    then obtain p qs where ps: "ps = p # qs" using less.prems(5) by (cases ps) auto
    have len: "length (ls ! i) = 32" if "i < length ls" for i
      using less.prems(1) that by (simp add: list_all_length)
    have ih: "y = pair_up ls ! (m div 2) \<and> fr = mth (take (m div 2) (pair_up ls) @ [g]) \<or> sha256_collision"
      if "length y = 32" "length g = 32" "consistency_loop (m div 2) ((length ls - 1) div 2) g y zs = Some (0, fr, mth ls)" for y g zs
    proof -
      have "length (pair_up ls) < length ls" "m div 2 < length (pair_up ls)" using n less.prems by auto
      from less.IH [OF this(1) pair_up_digests [OF less.prems(1)] this(2) that(1,2)] show ?thesis
        using that(3) unfolding half_size [OF n] mth_pair_up .
    qed
    consider "odd m" | "even m" "Suc m < length ls" | "even m" "Suc m = length ls"
      using less.prems by linarith
    then show ?thesis
    proof cases
      case 1
      then obtain j where j: "m = Suc j" "even j" by (cases m) auto
      have "consistency_loop (m div 2) ((length ls - 1) div 2) (node_hash p f) (node_hash p x) qs = Some (0, fr, mth ls)"
        using less.prems(5) n 1 by (simp add: ps)
      from ih [OF _ _ this] have "node_hash p x = node_hash (ls ! (m - 1)) (ls ! m)
          \<and> fr = mth (take (m div 2) (pair_up ls) @ [node_hash p f]) \<or> sha256_collision"
        using 1 less.prems(2) by (simp add: pair_up_nth_odd)
      moreover have "x = ls ! m \<and> p = ls ! (m - 1) \<or> sha256_collision" if "node_hash p x = node_hash (ls ! (m - 1)) (ls ! m)"
        using node_hash_eq [OF that] len [of m] less.prems(2,3) by auto
      ultimately show ?thesis using pair_up_prefix(2) [of j ls f] j less.prems by auto
    next
      case 2
      then have "consistency_loop (m div 2) ((length ls - 1) div 2) f (node_hash x p) qs = Some (0, fr, mth ls)"
        using less.prems(5) n by (auto simp: ps split: if_splits)
      from ih [OF _ less.prems(4) this] have "node_hash x p = node_hash (ls ! m) (ls ! Suc m)
          \<and> fr = mth (take (m div 2) (pair_up ls) @ [f]) \<or> sha256_collision"
        using 2 by (simp add: pair_up_nth_even)
      moreover have "x = ls ! m \<or> sha256_collision" if "node_hash x p = node_hash (ls ! m) (ls ! Suc m)"
        using node_hash_eq [OF that] len [of m] less.prems(2,3) by auto
      ultimately show ?thesis using pair_up_prefix(1) [of m ls f] 2 less.prems by auto
    next
      case 3
      then have m: "length ls - 1 = m" "m \<noteq> 0" using n by auto
      then have "consistency_loop (m div 2) ((length ls - 1) div 2) f x ps = Some (0, fr, mth ls)"
        using less.prems(5) 3 ps consistency_loop_promoted [of m ps] by simp
      from ih [OF less.prems(3,4) this] 3 show ?thesis
        using pair_up_prefix(1) [of m ls f] less.prems by (auto simp: pair_up_nth_last)
    qed
  qed
qed

lemma checked_sound:
  "list_all (\<lambda>l. length l = 32) ls \<Longrightarrow> 0 < m \<Longrightarrow> m < length ls \<Longrightarrow> length x = 32 \<Longrightarrow>
     checked m (length ls) (x # path) = Some (0, fr, mth ls) \<Longrightarrow> fr = mth (take m ls) \<or> sha256_collision"
proof (induction ls arbitrary: m rule: measure_induct_rule [where f = length])
  case (less ls)
  have n: "2 \<le> length ls" using less.prems by linarith
  show ?case
  proof (cases "even m")
    case True
    have "length (pair_up ls) < length ls" "0 < m div 2" "m div 2 < length (pair_up ls)"
      using n less.prems True by (auto elim!: evenE)
    from less.IH [OF this(1) pair_up_digests [OF less.prems(1)] this(2,3) less.prems(4)] show ?thesis
      using checked_even [OF True less.prems(2) n] pair_up_take [OF True less.prems(3)] less.prems(5) by (simp add: mth_pair_up)
  next
    case False
    then have "consistency_loop (m - 1) (length ls - 1) x x path = Some (0, fr, mth ls)"
      using less.prems(5) by (simp add: checked_odd)
    from consistency_loop_sound [OF less.prems(1) _ less.prems(4,4) this] less.prems
    have "x = ls ! (m - 1) \<and> fr = mth (take (m - 1) ls @ [x]) \<or> sha256_collision" by simp
    moreover have "take (m - 1) ls @ [ls ! (m - 1)] = take m ls"
      using less.prems by (cases m) (simp_all add: take_Suc_conv_app_nth)
    ultimately show ?thesis by auto
  qed
qed



end
