(* ===== verification/Money.thy ===== *)
theory Money
  imports Exceptions
begin

text \<open>
  Units and amounts (\<open>core.py\<close>, "Money"): the unit a ledger conserves, the two decimal contexts,
  and the conversions every amount a caller passes goes through. Costs round up, credits round
  down, and what comes out is always a whole number of the unit's quantum, written at eight places.
\<close>

section \<open>Decimal contexts\<close>

definition num_digits :: "int \<Rightarrow> nat" where
  "num_digits c = (if c = 0 then 1 else length (digits (nat \<bar>c\<bar>)))"

definition PREC :: nat where "PREC = 50"

text \<open>\<open>_ARITHMETIC\<close>: fifty digits, half-even, \<open>Inexact\<close> trapped. A sum that does not fit drops
  trailing zeros if it can, and raises otherwise.\<close>

definition arithmetic_fix :: "decimal \<Rightarrow> decimal res" where
  "arithmetic_fix d = (let n = num_digits (coeff d) in
     if n \<le> PREC then Inr d
     else let m = 10 ^ (n - PREC) in
       if coeff d mod m = 0 then Inr (Dec (coeff d div m) (expo d + int (n - PREC)))
       else Inl DecimalInexact)"

definition ctx_add :: "decimal \<Rightarrow> decimal \<Rightarrow> decimal res" where
  "ctx_add a b = arithmetic_fix (dec_sum a b)"

definition ctx_subtract :: "decimal \<Rightarrow> decimal \<Rightarrow> decimal res" where
  "ctx_subtract a b = arithmetic_fix (dec_sum a (copy_negate b))"

lemma dval_arithmetic_fix: "arithmetic_fix d = Inr r \<Longrightarrow> dval r = dval d"
proof -
  assume h: "arithmetic_fix d = Inr r"
  define k where "k = num_digits (coeff d) - PREC"
  show ?thesis
  proof (cases "num_digits (coeff d) \<le> PREC")
    case True
    with h show ?thesis by (simp add: arithmetic_fix_def)
  next
    case False
    with h have z: "coeff d mod 10 ^ k = 0" and r: "r = Dec (coeff d div 10 ^ k) (expo d + int k)"
      by (auto simp: arithmetic_fix_def Let_def k_def split: if_splits)
    from z have "coeff d = (coeff d div 10 ^ k) * 10 ^ k" by (metis add.right_neutral div_mult_mod_eq)
    then have "(of_int (coeff d) :: rat) = of_int (coeff d div 10 ^ k) * 10 ^ k"
      by (metis of_int_mult of_int_power of_int_numeral)
    then show ?thesis by (simp add: r dval_def power_int_add)
  qed
qed

lemma dval_ctx_add: "ctx_add a b = Inr r \<Longrightarrow> dval r = dval a + dval b"
  unfolding ctx_add_def by (drule dval_arithmetic_fix) (simp add: dval_dec_sum)

lemma dval_ctx_subtract: "ctx_subtract a b = Inr r \<Longrightarrow> dval r = dval a - dval b"
  unfolding ctx_subtract_def by (drule dval_arithmetic_fix) (simp add: dval_dec_sum)

definition QUANTUM_EXP :: int where "QUANTUM_EXP = - 8"

definition ZERO :: decimal where "ZERO = Dec 0 0"

definition MAX_AMOUNT :: decimal where "MAX_AMOUNT = Dec 1000000000000 0"

lemma dval_ZERO [simp]: "dval ZERO = 0"
  by (simp add: ZERO_def dval_def)

lemma dval_MAX_AMOUNT: "dval MAX_AMOUNT = 10 ^ 12"
  by (simp add: MAX_AMOUNT_def dval_def)

section \<open>Units\<close>

record unit_of_account =
  code :: ustr
  places :: int

definition is_lower :: "nat \<Rightarrow> bool" where "is_lower c \<longleftrightarrow> 97 \<le> c \<and> c \<le> 122"

definition is_digit :: "nat \<Rightarrow> bool" where "is_digit c \<longleftrightarrow> 48 \<le> c \<and> c \<le> 57"

text \<open>\<open>_UNIT_CODE\<close>: \<open>[a-z][a-z0-9_.-]{0,31}\<close>.\<close>

definition unit_code :: "ustr \<Rightarrow> bool" where
  "unit_code t = (case t of [] \<Rightarrow> False
     | c # cs \<Rightarrow> is_lower c \<and> length cs \<le> 31
         \<and> list_all (\<lambda>x. is_lower x \<or> is_digit x \<or> x = 95 \<or> x = 46 \<or> x = 45) cs)"

definition mk_unit :: "ustr \<Rightarrow> int \<Rightarrow> unit_of_account res" where
  "mk_unit c p = (if \<not> unit_code c then Inl (ValueError ''a unit's code'')
     else if \<not> (0 \<le> p \<and> p \<le> 8) then Inl (ValueError ''a unit is counted to 0 to 8 places'')
     else Inr \<lparr>code = c, places = p\<rparr>)"

definition USD :: unit_of_account where
  "USD = \<lparr>code = lit ''usd'', places = 8\<rparr>"

definition quantum_exp :: "unit_of_account \<Rightarrow> int" where
  "quantum_exp u = (if places u = 8 then QUANTUM_EXP else - places u)"

definition GENESIS_HASH :: ustr where
  "GENESIS_HASH = replicate 64 48"

definition genesis :: "unit_of_account \<Rightarrow> ustr" where
  "genesis u = (if u = USD then GENESIS_HASH
     else sha256_hex (map of_nat (lit ''agentgov-genesis v1 unit='' @ code u @ lit '' places='' @
            int_text (places u))))"

definition unit_text :: "unit_of_account \<Rightarrow> ustr" where
  "unit_text u = code u @ [47] @ int_text (places u)"

text \<open>\<open>Unit.parse\<close>: \<open>str.partition("/")\<close>, then one digit of places. (\<open>str.isdigit\<close> also accepts
  digits of other scripts, of which only the decimal ones convert; the model takes ASCII digits.)\<close>

definition unit_parse :: "ustr \<Rightarrow> unit_of_account res" where
  "unit_parse t = (let c = takeWhile (\<lambda>x. x \<noteq> 47) t; rest = dropWhile (\<lambda>x. x \<noteq> 47) t in
     case rest of [] \<Rightarrow> Inl (ValueError ''not a unit'')
     | _ # p \<Rightarrow> (case p of [d] \<Rightarrow> if is_digit d then mk_unit c (int d - 48)
                        else Inl (ValueError ''not a unit'')
         | _ \<Rightarrow> Inl (ValueError ''not a unit'')))"

lemma mk_unit_Inr: "mk_unit c p = Inr u \<Longrightarrow> u = \<lparr>code = c, places = p\<rparr> \<and> unit_code c \<and> 0 \<le> p \<and> p \<le> 8"
  by (auto simp: mk_unit_def split: if_splits)

lemma unit_code_no_slash: "unit_code c \<Longrightarrow> 47 \<notin> set c"
  by (auto simp: unit_code_def is_lower_def is_digit_def list_all_iff split: list.splits)

lemma genesis_hex: "hex64 (genesis u)"
proof (cases "u = USD")
  case True
  then show ?thesis by (simp add: genesis_def GENESIS_HASH_def hex64_def is_hex_lower_def list_all_iff)
next
  case False
  then show ?thesis unfolding genesis_def by (simp only: if_False hex64_sha256_hex)
qed

section \<open>Amounts a caller passes\<close>

datatype py_decimal = Finite decimal | Infinite | NaN

datatype num_arg = ArgDecimal py_decimal | ArgInt int | ArgStr ustr | ArgFloat

definition is_space :: "nat \<Rightarrow> bool" where
  "is_space c \<longleftrightarrow> (9 \<le> c \<and> c \<le> 13) \<or> (28 \<le> c \<and> c \<le> 32) \<or> c = 0x85 \<or> c = 0xA0 \<or> c = 0x1680
     \<or> (0x2000 \<le> c \<and> c \<le> 0x200A) \<or> c = 0x2028 \<or> c = 0x2029 \<or> c = 0x202F \<or> c = 0x205F \<or> c = 0x3000"

definition strip :: "ustr \<Rightarrow> ustr" where
  "strip t = rev (dropWhile is_space (rev (dropWhile is_space t)))"

definition lower :: "ustr \<Rightarrow> ustr" where
  "lower t = map (\<lambda>c. if 65 \<le> c \<and> c \<le> 90 then c + 32 else c) t"

definition take_sign :: "ustr \<Rightarrow> bool \<times> ustr" where
  "take_sign t = (case t of c # cs \<Rightarrow> if c = 45 then (True, cs) else if c = 43 then (False, cs) else (False, t)
     | [] \<Rightarrow> (False, []))"

definition span_digits :: "ustr \<Rightarrow> ustr \<times> ustr" where
  "span_digits t = (takeWhile is_digit t, dropWhile is_digit t)"

definition parse_exponent :: "ustr \<Rightarrow> int option" where
  "parse_exponent t = (case t of [] \<Rightarrow> Some 0
     | e # r \<Rightarrow> if e = 101 then
         (let (neg, r') = take_sign r; (ds, rest) = span_digits r' in
          if ds = [] \<or> rest \<noteq> [] then None
          else Some (if neg then - int (digits_value ds) else int (digits_value ds)))
       else None)"

text \<open>\<open>Decimal(text)\<close>: the numeric-string grammar, case-insensitive, with surrounding white space
  and underscores dropped. \<open>None\<close> is \<open>InvalidOperation\<close>. (Digits of other scripts, which
  \<open>decimal\<close> also reads, are refused by the model.)\<close>

definition decimal_of_str :: "ustr \<Rightarrow> py_decimal option" where
  "decimal_of_str s = (let t = lower (filter (\<lambda>c. c \<noteq> 95) (strip s)); (neg, u) = take_sign t in
     if u = lit ''inf'' \<or> u = lit ''infinity'' then Some Infinite
     else if take 3 u = lit ''nan'' \<and> list_all is_digit (drop 3 u)
       \<or> take 4 u = lit ''snan'' \<and> list_all is_digit (drop 4 u) then Some NaN
     else let (whole, r) = span_digits u;
              (frac, r') = (case r of c # cs \<Rightarrow> if c = 46 then span_digits cs else ([], r) | [] \<Rightarrow> ([], []))
          in if whole @ frac = [] then None
             else case parse_exponent r' of None \<Rightarrow> None
               | Some e \<Rightarrow>
                   let c = int (digits_value (whole @ frac)) in
                   Some (Finite (Dec (if neg then - c else c) (e - int (length frac)))))"

definition as_decimal :: "num_arg \<Rightarrow> py_decimal res" where
  "as_decimal v = (case v of ArgFloat \<Rightarrow> Inl (TypeError ''must not be a float'')
     | ArgDecimal d \<Rightarrow> Inr d
     | ArgInt i \<Rightarrow> Inr (Finite (Dec i 0))
     | ArgStr s \<Rightarrow> (case decimal_of_str s of None \<Rightarrow> Inl (ValueError ''is not a valid decimal'')
                      | Some d \<Rightarrow> Inr d))"

definition coerce :: "num_arg \<Rightarrow> rounding \<Rightarrow> int \<Rightarrow> decimal res" where
  "coerce v r q =
     rbind (as_decimal v)
       (\<lambda>d. case d of Infinite \<Rightarrow> Inl (ValueError ''must be finite'')
          | NaN \<Rightarrow> Inl (ValueError ''must be finite'')
          | Finite d \<Rightarrow>
              if dec_lt MAX_AMOUNT (copy_abs d) then Inl (ValueError ''exceeds the maximum'')
              else let d' = (if q \<noteq> QUANTUM_EXP then fst (quantize d q r) else d)
                   in Inr (fst (quantize d' QUANTUM_EXP r)))"

definition money :: "num_arg \<Rightarrow> decimal res" where
  "money v = coerce v ROUND_FLOOR QUANTUM_EXP"

definition quantity :: "num_arg \<Rightarrow> unit_of_account \<Rightarrow> decimal res" where
  "quantity v u = coerce v ROUND_FLOOR (quantum_exp u)"

definition cost :: "num_arg \<Rightarrow> unit_of_account \<Rightarrow> decimal res" where
  "cost v u = coerce v ROUND_CEILING (quantum_exp u)"

definition credit :: "num_arg \<Rightarrow> unit_of_account \<Rightarrow> decimal res" where
  "credit v u = coerce v ROUND_FLOOR (quantum_exp u)"

definition counted :: "decimal \<Rightarrow> unit_of_account \<Rightarrow> bool res" where
  "counted a u = (if places u = 8 then Inr True
     else let q = fst (quantize a (quantum_exp u) ROUND_HALF_EVEN) in
       if PREC < num_digits (coeff q) then Inl DecimalInvalidOperation else Inr (dec_eq a q))"

text \<open>The number an argument names, when it names one.\<close>

definition arg_decimal :: "num_arg \<Rightarrow> decimal option" where
  "arg_decimal v = (case v of ArgDecimal (Finite d) \<Rightarrow> Some d | ArgInt i \<Rightarrow> Some (Dec i 0)
     | ArgStr s \<Rightarrow> (case decimal_of_str s of Some (Finite d) \<Rightarrow> Some d | _ \<Rightarrow> None) | _ \<Rightarrow> None)"

definition unit_wf :: "unit_of_account \<Rightarrow> bool" where
  "unit_wf u \<longleftrightarrow> unit_code (code u) \<and> 0 \<le> places u \<and> places u \<le> 8"

lemma quantum_exp_bounds: "unit_wf u \<Longrightarrow> - 8 \<le> quantum_exp u \<and> quantum_exp u \<le> 0"
  by (auto simp: unit_wf_def quantum_exp_def QUANTUM_EXP_def)

lemma as_decimal_Finite: "as_decimal v = Inr (Finite d) \<Longrightarrow> arg_decimal v = Some d"
  by (auto simp: as_decimal_def arg_decimal_def split: num_arg.splits option.splits)

lemma coerce_Inr:
  assumes "coerce v r q = Inr a" and q: "- 8 \<le> q"
  obtains d where "arg_decimal v = Some d" "\<bar>dval d\<bar> \<le> 10 ^ 12"
    "dval a = dval (fst (quantize d q r))" "expo a = - 8"
proof -
  from assms(1) obtain d where d: "arg_decimal v = Some d" "\<not> dec_lt MAX_AMOUNT (copy_abs d)"
    and a: "a = fst (quantize (if q \<noteq> QUANTUM_EXP then fst (quantize d q r) else d) QUANTUM_EXP r)"
  proof -
    from assms(1) obtain p where p: "as_decimal v = Inr p" by (auto simp: coerce_def)
    with assms(1) obtain d where "p = Finite d" by (cases p) (auto simp: coerce_def)
    with assms(1) p show thesis
      using that [of d] as_decimal_Finite [of v d]
      by (auto simp: coerce_def Let_def split: if_splits)
  qed
  have "dval a = dval (fst (quantize d q r))"
  proof (cases "q = QUANTUM_EXP")
    case True
    with a show ?thesis by simp
  next
    case False
    have "\<not> snd (quantize (fst (quantize d q r)) QUANTUM_EXP r)"
      using q by (simp add: quantize_def [of "fst (quantize d q r)"] QUANTUM_EXP_def)
    with False a show ?thesis by (simp add: quantize_exact)
  qed
  moreover have "expo a = - 8" using a by (simp add: QUANTUM_EXP_def)
  ultimately show thesis
    using d that by (simp add: dec_lt_iff dval_MAX_AMOUNT)
qed

lemmas money_eval = cost_def credit_def coerce_def as_decimal_def decimal_of_str_def strip_def
  is_space_def lower_def take_sign_def span_digits_def parse_exponent_def is_digit_def
  digits_value_def dec_lt_def dec_le_def dec_eq_def aligned_def MAX_AMOUNT_def copy_abs_def
  quantize_def round_div_def quantum_exp_def QUANTUM_EXP_def USD_def ZERO_def unit_wf_def
  unit_code_def is_lower_def



text \<open>What a scope is granted never exceeds what the caller named, and falls short of it by
  less than one quantum.\<close>

theorem credit_rounds_down:
  assumes "unit_wf u" and "credit v u = Inr a"
  shows "\<exists>d. arg_decimal v = Some d \<and> \<bar>dval d\<bar> \<le> 10 ^ 12
    \<and> dval a \<le> dval d \<and> dval d < dval a + 10 powi (quantum_exp u) \<and> expo a = - 8"
proof -
  have "- 8 \<le> quantum_exp u" using assms(1) quantum_exp_bounds by blast
  from coerce_Inr [OF assms(2) [unfolded credit_def] this] obtain d where
    "arg_decimal v = Some d" "\<bar>dval d\<bar> \<le> 10 ^ 12" "expo a = - 8"
    and "dval a = dval (fst (quantize d (quantum_exp u) ROUND_FLOOR))" .
  with quantize_floor [of d "quantum_exp u"] show ?thesis by auto
qed

theorem credit_rounds_down_witness:
  "\<exists>d. arg_decimal (ArgStr (lit ''7.9'')) = Some d \<and> \<bar>dval d\<bar> \<le> 10 ^ 12
    \<and> dval (Dec 700000000 (- 8)) \<le> dval d
    \<and> dval d < dval (Dec 700000000 (- 8)) + 10 powi (quantum_exp \<lparr>code = lit ''seats'', places = 0\<rparr>)
    \<and> expo (Dec 700000000 (- 8)) = - 8"
proof (rule credit_rounds_down)
  show "unit_wf \<lparr>code = lit ''seats'', places = 0\<rparr>" by (simp add: money_eval)
  show "credit (ArgStr (lit ''7.9'')) \<lparr>code = lit ''seats'', places = 0\<rparr> = Inr (Dec 700000000 (- 8))"
    by (simp add: money_eval)
qed

lemma takeWhile_upto: "c \<notin> set t \<Longrightarrow> takeWhile (\<lambda>x. x \<noteq> c) (t @ c # r) = t"
  by (induction t) auto

lemma dropWhile_upto: "c \<notin> set t \<Longrightarrow> dropWhile (\<lambda>x. x \<noteq> c) (t @ c # r) = c # r"
  by (induction t) auto

text \<open>A unit's stored text reads back to the unit it was written from.\<close>

theorem unit_text_roundtrip:
  assumes "unit_wf u"
  shows "unit_parse (unit_text u) = Inr u"
proof -
  have "places u \<in> {0, 1, 2, 3, 4, 5, 6, 7, 8}" using assms by (auto simp: unit_wf_def)
  then have d: "int_text (places u) = [nat (48 + places u)]" "48 \<le> nat (48 + places u)" "nat (48 + places u) \<le> 57"
    by (auto simp: int_text_def digits.simps)
  have s: "47 \<notin> set (code u)" using assms unit_code_no_slash by (simp add: unit_wf_def)
  then have t: "takeWhile (\<lambda>x. x \<noteq> 47) (unit_text u) = code u"
      "dropWhile (\<lambda>x. x \<noteq> 47) (unit_text u) = 47 # int_text (places u)"
    by (simp_all add: unit_text_def takeWhile_upto dropWhile_upto)
  show ?thesis
    using assms d unfolding unit_parse_def t Let_def
    by (simp add: is_digit_def mk_unit_def unit_wf_def)
qed

theorem unit_text_roundtrip_witness:
  "unit_parse (unit_text \<lparr>code = lit ''gib'', places = 3\<rparr>) = Inr \<lparr>code = lit ''gib'', places = 3\<rparr>"
proof (rule unit_text_roundtrip)
  show "unit_wf \<lparr>code = lit ''gib'', places = 3\<rparr>" by (simp add: money_eval)
qed

end
