(* ===== verification/Entries.thy ===== *)
theory Entries
  imports Money
begin

text \<open>
  The ledger's vocabulary (\<open>core.py\<close>, "Ledger vocabulary"): directions, entry types and their
  tables, lines, entries, the chain hash in its three payload versions, and the audit-log line.
  The main results are that an AGOV3 hash commits to every field of the entry (or SHA-256
  collides), and that no text an entry carries can break out of its field of the audit line.
\<close>

section \<open>Directions and entry types\<close>

datatype direction = DEBIT | CREDIT | NONE

fun direction_value :: "direction \<Rightarrow> ustr" where
  "direction_value DEBIT = lit ''DR''"
| "direction_value CREDIT = lit ''CR''"
| "direction_value NONE = lit ''--''"

datatype entry_type = FUNDING | ALLOCATION | RELEASE | HOLD | HOLD_VOID | SPEND | REVERSAL
  | CIRCUIT_TRIPPED | CIRCUIT_RESET | ANCHOR | SEAL | CHECKPOINT

fun entry_type_value :: "entry_type \<Rightarrow> ustr" where
  "entry_type_value FUNDING = lit ''funding''"
| "entry_type_value ALLOCATION = lit ''allocation''"
| "entry_type_value RELEASE = lit ''release''"
| "entry_type_value HOLD = lit ''hold''"
| "entry_type_value HOLD_VOID = lit ''hold_void''"
| "entry_type_value SPEND = lit ''spend''"
| "entry_type_value REVERSAL = lit ''reversal''"
| "entry_type_value CIRCUIT_TRIPPED = lit ''circuit_tripped''"
| "entry_type_value CIRCUIT_RESET = lit ''circuit_reset''"
| "entry_type_value ANCHOR = lit ''anchor''"
| "entry_type_value SEAL = lit ''seal''"
| "entry_type_value CHECKPOINT = lit ''checkpoint''"

definition direction_table :: "(ustr, direction) dict" where
  "direction_table = map (\<lambda>d. (direction_value d, d)) [DEBIT, CREDIT, NONE]"

definition direction_of :: "ustr \<Rightarrow> direction res" where
  "direction_of v = (case map_of direction_table v of Some d \<Rightarrow> Inr d
     | None \<Rightarrow> Inl (ValueError ''is not a valid Direction''))"

definition entry_type_table :: "(ustr, entry_type) dict" where
  "entry_type_table = map (\<lambda>k. (entry_type_value k, k))
     [FUNDING, ALLOCATION, RELEASE, HOLD, HOLD_VOID, SPEND, REVERSAL, CIRCUIT_TRIPPED,
      CIRCUIT_RESET, ANCHOR, SEAL, CHECKPOINT]"

definition entry_type_of :: "ustr \<Rightarrow> entry_type res" where
  "entry_type_of v = (case map_of entry_type_table v of Some k \<Rightarrow> Inr k
     | None \<Rightarrow> Inl (ValueError ''is not a valid EntryType''))"

fun legal_directions :: "entry_type \<Rightarrow> direction list" where
  "legal_directions FUNDING = [CREDIT]"
| "legal_directions ALLOCATION = [DEBIT, CREDIT]"
| "legal_directions RELEASE = [DEBIT, CREDIT]"
| "legal_directions HOLD = [DEBIT]"
| "legal_directions HOLD_VOID = [CREDIT]"
| "legal_directions SPEND = [DEBIT]"
| "legal_directions REVERSAL = [CREDIT]"
| "legal_directions CIRCUIT_TRIPPED = [NONE]"
| "legal_directions CIRCUIT_RESET = [NONE]"
| "legal_directions ANCHOR = [NONE]"
| "legal_directions SEAL = [NONE]"
| "legal_directions CHECKPOINT = [NONE]"

definition balanced_type :: "entry_type \<Rightarrow> bool" where
  "balanced_type k \<longleftrightarrow> k \<in> {ALLOCATION, RELEASE}"

definition zero_value_type :: "entry_type \<Rightarrow> bool" where
  "zero_value_type k \<longleftrightarrow> k \<in> {CIRCUIT_TRIPPED, CIRCUIT_RESET, ANCHOR, SEAL, CHECKPOINT}"

definition scopeless_type :: "entry_type \<Rightarrow> bool" where
  "scopeless_type k \<longleftrightarrow> k \<in> {SEAL, CHECKPOINT}"

definition referencing_type :: "entry_type \<Rightarrow> bool" where
  "referencing_type k \<longleftrightarrow> k \<in> {HOLD_VOID, SPEND}"

definition v3_referencing_type :: "entry_type \<Rightarrow> bool" where
  "v3_referencing_type k \<longleftrightarrow> referencing_type k \<or> k = REVERSAL"

definition control_type :: "entry_type \<Rightarrow> bool" where
  "control_type k \<longleftrightarrow> k \<in> {CIRCUIT_TRIPPED, CIRCUIT_RESET}"

lemma entry_type_of_value: "entry_type_of (entry_type_value k) = Inr k"
  by (cases k) (simp_all add: entry_type_of_def entry_type_table_def)

lemma direction_of_value: "direction_of (direction_value d) = Inr d"
  by (cases d) (simp_all add: direction_of_def direction_table_def)

lemma entry_type_value_inj: "entry_type_value k = entry_type_value l \<Longrightarrow> k = l"
  by (metis entry_type_of_value sum.inject(2))

lemma direction_value_inj: "direction_value c = direction_value d \<Longrightarrow> c = d"
  by (metis direction_of_value sum.inject(2))

section \<open>Lines and entries\<close>

definition AUDIT_V1 :: ustr where "AUDIT_V1 = lit ''AGOV1''"
definition AUDIT_V2 :: ustr where "AUDIT_V2 = lit ''AGOV2''"
definition AUDIT_V3 :: ustr where "AUDIT_V3 = lit ''AGOV3''"

definition known_version :: "ustr \<Rightarrow> bool" where
  "known_version v \<longleftrightarrow> v \<in> {AUDIT_V1, AUDIT_V2, AUDIT_V3}"

lemma audit_versions [simp]:
  "AUDIT_V1 \<noteq> AUDIT_V2" "AUDIT_V1 \<noteq> AUDIT_V3" "AUDIT_V2 \<noteq> AUDIT_V3"
  "AUDIT_V2 \<noteq> AUDIT_V1" "AUDIT_V3 \<noteq> AUDIT_V1" "AUDIT_V3 \<noteq> AUDIT_V2"
  by (simp_all add: AUDIT_V1_def AUDIT_V2_def AUDIT_V3_def)

definition MAX_ID_BYTES :: nat where "MAX_ID_BYTES = 1024"
definition MAX_MEMO_BYTES :: nat where "MAX_MEMO_BYTES = 65536"

record ledger_line =
  l_entry_type :: entry_type
  l_direction :: direction
  l_scope_id :: scope_id
  l_amount :: decimal
  l_counterparty_id :: "scope_id option"
  l_memo :: ustr
  l_ref :: "uuid option"

record ledger_entry =
  sequence :: nat
  entry_id :: uuid
  transaction_id :: uuid
  timestamp :: instant
  entry_type :: entry_type
  direction :: direction
  scope_id :: scope_id
  counterparty_id :: "scope_id option"
  amount :: decimal
  balance_after :: decimal
  prev_hash :: ustr
  entry_hash :: ustr
  memo :: ustr
  ref :: "uuid option"
  version :: ustr

definition signed_amount :: "ledger_entry \<Rightarrow> decimal" where
  "signed_amount e = (case direction e of CREDIT \<Rightarrow> amount e | DEBIT \<Rightarrow> copy_negate (amount e)
     | NONE \<Rightarrow> ZERO)"

section \<open>Amounts as text\<close>

definition fixed :: "decimal \<Rightarrow> ustr res" where
  "fixed a = (let (q, inexact) = quantize a QUANTUM_EXP ROUND_HALF_EVEN in
     if PREC < num_digits (coeff q) then Inl DecimalInvalidOperation
     else if inexact then Inl DecimalInexact
     else if is_zero q then Inr (lit ''0.00000000'')
     else let c = nat \<bar>coeff q\<bar> in
       Inr ((if coeff q < 0 then [45] else []) @ digits (c div 10 ^ 8) @ [46] @ dec_field 8 (c mod 10 ^ 8)))"

text \<open>\<open>str(Decimal)\<close>: plain notation when the exponent is not positive and the number is not too
  small, scientific otherwise.\<close>

definition dec_str :: "decimal \<Rightarrow> ustr" where
  "dec_str a = (let ds = digits (nat \<bar>coeff a\<bar>); n = int (length ds); left = expo a + n;
       dot = (if expo a \<le> 0 \<and> - 6 < left then left else 1);
       whole = (if dot \<le> 0 then [48] else if n \<le> dot then ds @ replicate (nat (dot - n)) 48
                else take (nat dot) ds);
       frac = (if dot \<le> 0 then [46] @ replicate (nat (- dot)) 48 @ ds
               else if n \<le> dot then [] else [46] @ drop (nat dot) ds);
       ex = (if left = dot then [] else lit ''E'' @ (if left < dot then [45] else [43]) @
               digits (nat \<bar>left - dot\<bar>))
     in (if coeff a < 0 then [45] else []) @ whole @ frac @ ex)"

definition amount_text :: "ledger_entry \<Rightarrow> decimal \<Rightarrow> ustr res" where
  "amount_text e a = (if version e = AUDIT_V3 then fixed a else Inr (dec_str a))"

section \<open>The chain hash\<close>

definition ref_text :: "uuid option \<Rightarrow> ustr" where
  "ref_text r = (case r of None \<Rightarrow> lit ''null'' | Some u \<Rightarrow> [34] @ uuid_text u @ [34])"

text \<open>The AGOV3 document. A previous hash is written as it is when it is a hash; the slower branch
  of the code differs only in escaping one that is not.\<close>

definition payload_v3 :: "ledger_entry \<Rightarrow> ustr \<Rightarrow> ustr \<Rightarrow> ustr" where
  "payload_v3 e amt bal =
     lit ''{\"amount\":\"'' @ amt @ lit ''\",\"balance_after\":\"'' @ bal @ lit ''\",\"counterparty_id\":'' @
     quote (counterparty_id e) @ lit '',\"direction\":\"'' @ direction_value (direction e) @
     lit ''\",\"entry_id\":\"'' @ uuid_text (entry_id e) @ lit ''\",\"entry_type\":\"'' @
     entry_type_value (entry_type e) @ lit ''\",\"format\":\"AGOV3\",\"memo\":'' @ quote (Some (memo e)) @
     lit '',\"prev_hash\":'' @
     (if hex64 (prev_hash e) then [34] @ prev_hash e @ [34] else json_string (prev_hash e)) @
     lit '',\"ref\":'' @ ref_text (ref e) @ lit '',\"scope_id\":'' @ quote (Some (scope_id e)) @
     lit '',\"sequence\":'' @ digits (sequence e) @ lit '',\"timestamp\":\"'' @ iso (timestamp e) @
     lit ''\",\"transaction_id\":\"'' @ uuid_text (transaction_id e) @ lit ''\"}''"

definition join_with :: "nat \<Rightarrow> ustr list \<Rightarrow> ustr" where
  "join_with c ts = (case ts of [] \<Rightarrow> [] | t # rest \<Rightarrow> t @ concat (map (\<lambda>u. c # u) rest))"

definition payload_list :: "ledger_entry \<Rightarrow> ustr list" where
  "payload_list e =
     [json_string_ascii (version e), json_string_ascii (prev_hash e), digits (sequence e),
      json_string_ascii (uuid_text (entry_id e)), json_string_ascii (uuid_text (transaction_id e)),
      json_string_ascii (iso (timestamp e)), json_string_ascii (entry_type_value (entry_type e)),
      json_string_ascii (direction_value (direction e)), json_string_ascii (scope_id e),
      (case counterparty_id e of None \<Rightarrow> lit ''null'' | Some c \<Rightarrow> json_string_ascii c),
      json_string_ascii (dec_str (amount e)), json_string_ascii (dec_str (balance_after e)),
      json_string_ascii (memo e)]"

definition recompute_hash :: "ledger_entry \<Rightarrow> ustr res" where
  "recompute_hash e =
     (if version e = AUDIT_V3 then
        rbind (fixed (amount e)) (\<lambda>amt. rbind (fixed (balance_after e)) (\<lambda>bal.
          case utf8_encode (payload_v3 e amt bal) of
            None \<Rightarrow> Inl (ValueError ''an AGOV3 entry's text must be valid Unicode'')
          | Some bs \<Rightarrow> Inr (sha256_hex bs)))
      else if version e = AUDIT_V2 \<or> version e = AUDIT_V1 then
        (let fields = payload_list e @ (if version e = AUDIT_V2 then [ref_text (ref e)] else []) in
         case utf8_encode ([91] @ join_with 44 fields @ [93]) of
           None \<Rightarrow> Inl (ValueError ''not encodable'')
         | Some bs \<Rightarrow> Inr (sha256_hex bs))
      else Inl (ValueError ''unknown audit version''))"

section \<open>What a hash commits to\<close>

definition fixed_text :: "int \<Rightarrow> ustr" where
  "fixed_text c = (let n = nat \<bar>c\<bar> in
     (if c < 0 then [45] else []) @ digits (n div 10 ^ 8) @ [46] @ dec_field 8 (n mod 10 ^ 8))"

lemma fixed_fixed_text:
  assumes "fixed a = Inr t"
  obtains c where "dval a = of_int c * 10 powi QUANTUM_EXP" "t = fixed_text c"
proof -
  define q where "q = fst (quantize a QUANTUM_EXP ROUND_HALF_EVEN)"
  have ex: "\<not> snd (quantize a QUANTUM_EXP ROUND_HALF_EVEN)"
    and t: "t = (if is_zero q then lit ''0.00000000'' else fixed_text (coeff q))"
    using assms by (auto simp: fixed_def q_def fixed_text_def Let_def split: prod.splits if_splits)
  have "dval a = dval q" using quantize_exact [OF ex] by (simp add: q_def)
  then have "dval a = of_int (coeff q) * 10 powi QUANTUM_EXP" by (simp add: dval_def q_def)
  moreover have "t = fixed_text (coeff q)"
    using t by (auto simp: is_zero_def fixed_text_def dec_field_def fixed_digits_def upt_rec digits.simps)
  ultimately show thesis by (rule that)
qed

lemma fixed_text_chars: "c \<in> set (fixed_text n) \<Longrightarrow> c = 45 \<or> c = 46 \<or> 48 \<le> c \<and> c \<le> 57"
  by (auto simp: fixed_text_def Let_def dest: digits_chars dec_field_chars split: if_splits)

lemma fixed_text_inj:
  assumes "fixed_text c = fixed_text d"
  shows "c = d"
proof -
  define n where "n = nat \<bar>c\<bar>"
  define m where "m = nat \<bar>d\<bar>"
  have neg: "45 \<notin> set (digits k)" "46 \<notin> set (digits k)" for k using digits_chars by fastforce+
  have hd: "digits k @ r \<noteq> 45 # r'" for k r r'
    using neg(1) [of k] by (cases "digits k") auto
  have sign: "c < 0 \<longleftrightarrow> d < 0"
    using assms hd hd [symmetric] by (auto simp: fixed_text_def Let_def split: if_splits)
  then have "digits (n div 10 ^ 8) @ 46 # dec_field 8 (n mod 10 ^ 8)
      = digits (m div 10 ^ 8) @ 46 # dec_field 8 (m mod 10 ^ 8)"
    using assms by (simp add: fixed_text_def Let_def n_def m_def split: if_splits)
  then have "digits (n div 10 ^ 8) = digits (m div 10 ^ 8) \<and> dec_field 8 (n mod 10 ^ 8) = dec_field 8 (m mod 10 ^ 8)"
    by (rule delim) (rule neg)+
  then have "n div 10 ^ 8 = m div 10 ^ 8" "n mod 10 ^ 8 = m mod 10 ^ 8"
    by (auto dest!: digits_inj dec_field_inj [rotated 2])
  then have "n = m" by (metis div_mult_mod_eq)
  with sign show ?thesis by (auto simp: n_def m_def)
qed

lemma fixed_inj: "fixed a = Inr t \<Longrightarrow> fixed b = Inr t \<Longrightarrow> dval a = dval b"
  by (metis fixed_fixed_text fixed_text_inj)

lemma fixed_no_quote: "fixed a = Inr t \<Longrightarrow> 34 \<notin> set t"
  by (erule fixed_fixed_text) (auto dest: fixed_text_chars)

lemma json_body_hex: "list_all is_hex_lower t \<Longrightarrow> json_body t = t"
  by (induction t) (auto simp: is_hex_lower_def json_char_def json_special_def)

lemma payload_prev_hash:
  "(if hex64 p then [34] @ p @ [34] else json_string p) = json_string p"
  by (simp add: json_string_def hex64_def json_body_hex)

lemma enum_no_quote: "34 \<notin> set (direction_value d)" "34 \<notin> set (entry_type_value k)"
  by (cases d; simp) (cases k; simp)

lemma ref_text_delim: "ref_text r @ x = ref_text s @ y \<Longrightarrow> r = s \<and> x = y"
  by (cases r; cases s)
    (auto simp: ref_text_def dest!: delim [OF _ uuid_no_quote uuid_no_quote] uuid_text_inj)

text \<open>Equal in every field an entry's hash covers; amounts by value.\<close>

definition same_content :: "ledger_entry \<Rightarrow> ledger_entry \<Rightarrow> bool" where
  "same_content e f \<longleftrightarrow> sequence e = sequence f \<and> entry_id e = entry_id f
     \<and> transaction_id e = transaction_id f \<and> timestamp e = timestamp f \<and> entry_type e = entry_type f
     \<and> direction e = direction f \<and> scope_id e = scope_id f \<and> counterparty_id e = counterparty_id f
     \<and> dval (amount e) = dval (amount f) \<and> dval (balance_after e) = dval (balance_after f)
     \<and> prev_hash e = prev_hash f \<and> memo e = memo f \<and> ref e = ref f \<and> version e = version f"

lemma digits_delim:
  "digits n @ 44 # x = digits m @ 44 # y \<Longrightarrow> n = m \<and> x = y"
  using delim [of "digits n" 44 x "digits m" y] digits_chars [of 44] by (auto dest: digits_inj)

lemma payload_v3_inj:
  assumes eq: "payload_v3 e a b = payload_v3 f c d"
    and quotes: "34 \<notin> set a" "34 \<notin> set b" "34 \<notin> set c" "34 \<notin> set d"
    and inst: "valid_instant (timestamp e)" "valid_instant (timestamp f)"
  shows "a = c \<and> b = d \<and> counterparty_id e = counterparty_id f \<and> direction e = direction f
    \<and> entry_id e = entry_id f \<and> entry_type e = entry_type f \<and> memo e = memo f
    \<and> prev_hash e = prev_hash f \<and> ref e = ref f \<and> scope_id e = scope_id f \<and> sequence e = sequence f
    \<and> timestamp e = timestamp f \<and> transaction_id e = transaction_id f"
  using eq [unfolded payload_v3_def payload_prev_hash]
  apply (simp)
  apply (drule delim [OF _ quotes(1,3)], clarsimp)
  apply (drule delim [OF _ quotes(2,4)], clarsimp)
  apply (drule quote_delim, clarsimp)
  apply (drule delim [OF _ enum_no_quote(1) enum_no_quote(1)], clarsimp)
  apply (drule delim [OF _ uuid_no_quote uuid_no_quote], clarsimp)
  apply (drule delim [OF _ enum_no_quote(2) enum_no_quote(2)], clarsimp)
  apply (drule quote_delim, clarsimp)
  apply (drule json_string_delim, clarsimp)
  apply (drule ref_text_delim, clarsimp)
  apply (drule quote_delim, clarsimp)
  apply (drule digits_delim, clarsimp)
  apply (drule delim [OF _ iso_no_quote iso_no_quote], clarsimp)
  using inst by (auto dest: direction_value_inj entry_type_value_inj uuid_text_inj iso_inj)


lemma recompute_hash_inj:
  assumes "recompute_hash e = Inr h" "recompute_hash f = Inr h"
    and v: "version e = AUDIT_V3" "version f = AUDIT_V3"
    and inst: "valid_instant (timestamp e)" "valid_instant (timestamp f)"
  shows "same_content e f \<or> sha256_collision"
proof (rule disjCI)
  assume nc: "\<not> sha256_collision"
  from assms(1) v(1) obtain a b x where e: "fixed (amount e) = Inr a" "fixed (balance_after e) = Inr b"
    "utf8_encode (payload_v3 e a b) = Some x" "h = sha256_hex x"
    by (auto simp: recompute_hash_def split: option.splits)
  from assms(2) v(2) obtain c d y where f: "fixed (amount f) = Inr c" "fixed (balance_after f) = Inr d"
    "utf8_encode (payload_v3 f c d) = Some y" "h = sha256_hex y"
    by (auto simp: recompute_hash_def split: option.splits)
  have "x = y" using e(4) f(4) nc sha256_hex_eq by metis
  with e(3) f(3) have "payload_v3 e a b = payload_v3 f c d" by (auto intro: utf8_encode_inj)
  from payload_v3_inj [OF this fixed_no_quote fixed_no_quote fixed_no_quote fixed_no_quote inst] e f
  have *: "a = c" "b = d" and rest: "counterparty_id e = counterparty_id f" "direction e = direction f"
    "entry_id e = entry_id f" "entry_type e = entry_type f" "memo e = memo f" "prev_hash e = prev_hash f"
    "ref e = ref f" "scope_id e = scope_id f" "sequence e = sequence f" "timestamp e = timestamp f"
    "transaction_id e = transaction_id f" by blast+
  have "dval (amount e) = dval (amount f)" "dval (balance_after e) = dval (balance_after f)"
    using e f * by (auto intro: fixed_inj)
  with rest v show "same_content e f" by (simp add: same_content_def)
qed

section \<open>The audit line\<close>

lemma concat_decode_inj:
  assumes dec: "\<And>c r. c \<in> S \<Longrightarrow> dec (f c @ r) = (c, r)" and ne: "\<And>c. c \<in> S \<Longrightarrow> f c \<noteq> []"
  shows "set s \<subseteq> S \<Longrightarrow> set t \<subseteq> S \<Longrightarrow> concat (map f s) = concat (map f t) \<Longrightarrow> s = t"
proof (induction s arbitrary: t)
  case Nil
  then show ?case using ne by (cases t) auto
next
  case (Cons c s)
  show ?case
  proof (cases t)
    case Nil
    with Cons.prems ne show ?thesis by auto
  next
    case t: (Cons d u)
    with Cons.prems have "(c, concat (map f s)) = (d, concat (map f u))"
      by (metis (no_types) concat.simps(2) dec insert_subset list.simps(15) list.simps(9))
    with Cons.IH [of u] Cons.prems t show ?thesis by simp
  qed
qed

definition hex4 :: "ustr \<Rightarrow> nat" where
  "hex4 t = foldl (\<lambda>n c. n * 16 + the (hex_value c)) 0 (take 4 t)"

lemma nibbles: "((c div 4096 * 16 + c div 256 mod 16) * 16 + c div 16 mod 16) * 16 + c mod 16 = (c::nat)"
proof -
  have a: "c div 256 = c div 16 div 16" "c div 4096 = c div 16 div 16 div 16"
    using div_mult2_eq [of c 16 16] div_mult2_eq [of c 256 16] by simp_all
  show ?thesis unfolding a by (simp only: div_mult_mod_eq)
qed

lemma hex4_fixed:
  assumes "c < 65536"
  shows "hex4 (map hex_digit (fixed_digits 16 4 c) @ r) = c"
proof -
  have "fixed_digits 16 4 c = [c div 4096, c div 256 mod 16, c div 16 mod 16, c mod 16]"
    using assms by (simp add: fixed_digits_def upt_rec)
  then have "hex4 (map hex_digit (fixed_digits 16 4 c) @ r)
      = ((c div 4096 * 16 + c div 256 mod 16) * 16 + c div 16 mod 16) * 16 + c mod 16"
    using assms by (simp add: hex4_def hex_value_hex_digit)
  then show ?thesis by (simp only: nibbles)
qed

definition escape_char :: "nat \<Rightarrow> ustr" where
  "escape_char c = (if c = 124 then json_u 124 else json_char_ascii c)"

definition unescape_char :: "ustr \<Rightarrow> nat \<times> ustr" where
  "unescape_char t = (if hd t \<noteq> 92 then (hd t, tl t)
     else let e = t ! 1; r = drop 2 t in
       if e = 110 then (10, r) else if e = 114 then (13, r) else if e = 116 then (9, r)
       else if e = 102 then (12, r) else if e = 98 then (8, r)
       else if e = 117 then
         (let v = hex4 (drop 2 t) in
          if 0xD800 \<le> v \<and> v < 0xDC00 then
            (0x10000 + (v - 0xD800) * 1024 + (hex4 (drop 8 t) - 0xDC00), drop 12 t)
          else (v, drop 6 t))
       else (e, r))"

lemma unescape_u:
  assumes "c < 65536" "\<not> (0xD800 \<le> c \<and> c < 0xDC00)"
  shows "unescape_char (json_u c @ r) = (c, r)"
  using assms hex4_fixed [OF assms(1)]
  by (simp add: unescape_char_def json_u_def Let_def)

lemma unescape_pair:
  assumes "h < 1024" "l < 1024"
  shows "unescape_char (json_u (0xD800 + h) @ json_u (0xDC00 + l) @ r) = (0x10000 + h * 1024 + l, r)"
  using assms hex4_fixed [of "0xD800 + h"] hex4_fixed [of "0xDC00 + l"]
  by (simp add: unescape_char_def json_u_def Let_def)

lemma unescape_escape_char:
  assumes "unicode_scalar c"
  shows "unescape_char (escape_char c @ r) = (c, r)"
proof (cases "json_special c")
  case (Some e)
  then show ?thesis
    by (auto simp: escape_char_def json_char_ascii_def unescape_char_def json_special_def split: if_splits)
next
  case None
  consider "32 \<le> c \<and> c \<le> 126 \<and> c \<noteq> 124" | "(c < 32 \<or> 126 < c \<or> c = 124) \<and> c < 65536" | "65536 \<le> c"
    by linarith
  then show ?thesis
  proof cases
    case 1
    then show ?thesis using None
      by (auto simp: escape_char_def json_char_ascii_def unescape_char_def json_special_def split: if_splits)
  next
    case 2
    then have "escape_char c = json_u c"
      using None by (auto simp: escape_char_def json_char_ascii_def)
    moreover have "\<not> (0xD800 \<le> c \<and> c < 0xDC00)" using assms by (auto simp: unicode_scalar_def)
    ultimately show ?thesis using 2 unescape_u [of c r] by simp
  next
    case 3
    define h where "h = (c - 65536) div 1024"
    define l where "l = (c - 65536) mod 1024"
    have hl: "h < 1024" "l < 1024" "65536 + h * 1024 + l = c"
      using 3 assms by (auto simp: h_def l_def unicode_scalar_def)
    have "escape_char c = json_u (0xD800 + h) @ json_u (0xDC00 + l)"
      using 3 None by (simp add: escape_char_def json_char_ascii_def h_def l_def)
    then show ?thesis using unescape_pair [OF hl(1,2), of r] hl(3) by simp
  qed
qed


lemma replace_char_id: "c \<notin> set t \<Longrightarrow> replace_char c r t = t"
  by (induction t) (auto simp: replace_char_def)

lemma replace_char_concat:
  "replace_char c r (concat (map f t)) = concat (map (\<lambda>x. replace_char c r (f x)) t)"
  by (induction t) (simp_all add: replace_char_def)

lemma json_u_chars: "x \<in> set (json_u c) \<Longrightarrow> 32 \<le> x \<and> x \<le> 126 \<and> x \<noteq> 124"
proof -
  assume "x \<in> set (json_u c)"
  then have "x = 92 \<or> x = 117 \<or> is_hex_lower x"
    using fixed_digits_less [of 16 _ 4 c] by (auto simp: json_u_def intro: is_hex_digit)
  then show ?thesis by (auto simp: is_hex_lower_def)
qed

lemma json_char_ascii_chars:
  assumes "x \<in> set (json_char_ascii c)"
  shows "32 \<le> x \<and> x \<le> 126 \<and> (x = 124 \<longrightarrow> c = 124)"
proof (cases "json_special c")
  case (Some e)
  with assms have "x = 92 \<or> x = e" by (simp add: json_char_ascii_def)
  with Some show ?thesis by (auto simp: json_special_def split: if_splits)
next
  case None
  with assms show ?thesis
    unfolding json_char_ascii_def by (simp split: if_splits) (auto dest: json_u_chars)
qed

lemma escape_char_alt:
  "replace_char 127 (json_u 127) (replace_char 124 (json_u 124) (json_char_ascii c)) = escape_char c"
proof (cases "c = 124")
  case True
  have "replace_char 124 (json_u 124) (json_char_ascii 124) = json_u 124"
    by (simp add: json_char_ascii_def json_special_def replace_char_def)
  moreover have "127 \<notin> set (json_u 124)" by (auto dest: json_u_chars)
  ultimately show ?thesis using True by (simp add: escape_char_def replace_char_id)
next
  case False
  then have "124 \<notin> set (json_char_ascii c)" "127 \<notin> set (json_char_ascii c)"
    by (auto dest: json_char_ascii_chars)
  with False show ?thesis by (simp add: escape_char_def replace_char_id)
qed

lemma escape_unsafe: "\<not> list_all log_safe t \<Longrightarrow> escape t = concat (map escape_char t)"
  by (simp add: escape_def json_body_ascii_def replace_char_concat escape_char_alt)

lemma escape_safe: "list_all log_safe t \<Longrightarrow> escape t = t"
  by (simp add: escape_def)

lemma escape_char_chars: "x \<in> set (escape_char c) \<Longrightarrow> 32 \<le> x \<and> x \<le> 126 \<and> x \<noteq> 124"
  by (cases "c = 124") (auto simp: escape_char_def dest: json_char_ascii_chars json_u_chars)

lemma escape_chars: "x \<in> set (escape t) \<Longrightarrow> 32 \<le> x \<and> x \<le> 126 \<and> x \<noteq> 124"
  by (cases "list_all log_safe t")
    (auto simp: escape_safe escape_unsafe list_all_iff log_safe_def dest: escape_char_chars)

lemma escape_backslash: "92 \<in> set (escape t) \<longleftrightarrow> \<not> list_all log_safe t"
proof (cases "list_all log_safe t")
  case True
  then show ?thesis by (auto simp: escape_safe list_all_iff log_safe_def)
next
  case False
  then obtain c where c: "c \<in> set t" "\<not> log_safe c" by (auto simp: list_all_iff)
  then have "92 \<in> set (escape_char c)"
    by (auto simp: log_safe_def escape_char_def json_char_ascii_def json_special_def json_u_def)
  with False c show ?thesis by (auto simp: escape_unsafe)
qed

text \<open>Escaping free text for an audit line is reversible: two Unicode texts with the same escaped
  form are the same text.\<close>

theorem escape_inj:
  assumes u: "list_all unicode_scalar s" "list_all unicode_scalar t" and eq: "escape s = escape t"
  shows "s = t"
proof (cases "list_all log_safe s")
  case True
  then show ?thesis using eq escape_backslash [of s] escape_backslash [of t] by (simp add: escape_safe)
next
  case False
  then have "concat (map escape_char s) = concat (map escape_char t)"
    using eq escape_backslash [of s] escape_backslash [of t] by (simp add: escape_unsafe)
  moreover have "escape_char c \<noteq> []" for c
    by (simp add: escape_char_def json_char_ascii_def json_u_def json_special_def)
  ultimately show ?thesis
    using u concat_decode_inj [of "Collect unicode_scalar" unescape_char escape_char s t]
    by (auto simp: list_all_iff unescape_escape_char)
qed

definition pad_digits :: "nat \<Rightarrow> nat \<Rightarrow> ustr" where
  "pad_digits k n = replicate (k - length (digits n)) 48 @ digits n"

definition truthy :: "ustr option \<Rightarrow> bool" where
  "truthy t \<longleftrightarrow> (case t of None \<Rightarrow> False | Some s \<Rightarrow> s \<noteq> [])"

definition format_audit_line :: "ledger_entry \<Rightarrow> ustr res" where
  "format_audit_line e = rbind (amount_text e (amount e)) (\<lambda>amt. rbind (amount_text e (balance_after e)) (\<lambda>bal.
     Inr (version e @ lit ''|seq='' @ pad_digits 10 (sequence e) @ lit ''|txn='' @ uuid_text (transaction_id e)
       @ lit ''|ts='' @ iso (timestamp e) @ lit ''|type='' @ entry_type_value (entry_type e)
       @ lit ''|dir='' @ direction_value (direction e) @ lit ''|scope='' @ escape (scope_id e)
       @ lit ''|cpty='' @ (if truthy (counterparty_id e) then escape (the (counterparty_id e)) else [45])
       @ lit ''|amt='' @ amt @ lit ''|bal='' @ bal @ lit ''|h='' @ take 16 (entry_hash e)
       @ (case ref e of None \<Rightarrow> [] | Some u \<Rightarrow> lit ''|ref='' @ uuid_text u)
       @ (if memo e = [] then [] else lit ''|memo='' @ escape (memo e)))))"

definition to_audit_record :: "ledger_entry \<Rightarrow> (string, ustr) dict res" where
  "to_audit_record e = rbind (amount_text e (amount e)) (\<lambda>amt. rbind (amount_text e (balance_after e)) (\<lambda>bal.
     Inr [(''version'', version e), (''sequence'', digits (sequence e)), (''entry_id'', uuid_text (entry_id e)),
       (''transaction_id'', uuid_text (transaction_id e)), (''timestamp'', iso (timestamp e)),
       (''entry_type'', entry_type_value (entry_type e)), (''direction'', direction_value (direction e)),
       (''scope_id'', scope_id e), (''counterparty_id'', case counterparty_id e of None \<Rightarrow> [] | Some c \<Rightarrow> c),
       (''amount'', amt), (''balance_after'', bal), (''prev_hash'', prev_hash e),
       (''entry_hash'', entry_hash e), (''memo'', memo e),
       (''ref'', case ref e of None \<Rightarrow> [] | Some u \<Rightarrow> uuid_text u)]))"

text \<open>\<open>str.split\<close> at one character.\<close>

fun split_on :: "nat \<Rightarrow> ustr \<Rightarrow> ustr list" where
  "split_on c [] = [[]]"
| "split_on c (x # t) = (if x = c then [] # split_on c t
     else case split_on c t of [] \<Rightarrow> [[x]] | w # ws \<Rightarrow> (x # w) # ws)"

lemma split_on_nonempty [simp]: "split_on c t \<noteq> []"
  by (cases t) (auto split: list.splits)

lemma split_on_append: "c \<notin> set w \<Longrightarrow> split_on c (w @ c # t) = w # split_on c t"
  by (induction w) auto

lemma split_on_none: "c \<notin> set w \<Longrightarrow> split_on c w = [w]"
  by (induction w) auto

lemma split_on_join:
  "ws \<noteq> [] \<Longrightarrow> \<forall>w\<in>set ws. c \<notin> set w \<Longrightarrow> split_on c (join_with c ws) = ws"
proof (induction ws rule: induct_list012)
  case (3 w v ws)
  then show ?case by (simp add: join_with_def split_on_append)
qed (simp_all add: join_with_def split_on_none)

lemma set_join_with: "set (join_with c ws) \<subseteq> insert c (\<Union>w\<in>set ws. set w)"
  by (auto simp: join_with_def split: list.splits)

definition audit_fields :: "ledger_entry \<Rightarrow> ustr \<Rightarrow> ustr \<Rightarrow> ustr list" where
  "audit_fields e amt bal =
     [version e, lit ''seq='' @ pad_digits 10 (sequence e), lit ''txn='' @ uuid_text (transaction_id e),
      lit ''ts='' @ iso (timestamp e), lit ''type='' @ entry_type_value (entry_type e),
      lit ''dir='' @ direction_value (direction e), lit ''scope='' @ escape (scope_id e),
      lit ''cpty='' @ (if truthy (counterparty_id e) then escape (the (counterparty_id e)) else [45]),
      lit ''amt='' @ amt, lit ''bal='' @ bal, lit ''h='' @ take 16 (entry_hash e)]
     @ (case ref e of None \<Rightarrow> [] | Some u \<Rightarrow> [lit ''ref='' @ uuid_text u])
     @ (if memo e = [] then [] else [lit ''memo='' @ escape (memo e)])"

definition plain :: "ustr \<Rightarrow> bool" where
  "plain t \<longleftrightarrow> list_all (\<lambda>c. 32 \<le> c \<and> c \<le> 126 \<and> c \<noteq> 124) t"

lemma plain_append [simp]: "plain (s @ t) \<longleftrightarrow> plain s \<and> plain t"
  by (simp add: plain_def)

lemma plain_Nil [simp]: "plain []" by (simp add: plain_def)

lemma plain_Cons [simp]: "plain (c # t) \<longleftrightarrow> 32 \<le> c \<and> c \<le> 126 \<and> c \<noteq> 124 \<and> plain t"
  by (simp add: plain_def)

lemma plain_digits [simp]: "plain (digits n)"
  by (auto simp: plain_def list_all_iff dest: digits_chars)

lemma plain_dec_field [simp]: "plain (dec_field k n)"
  by (auto simp: plain_def list_all_iff dest: dec_field_chars)

lemma plain_escape [simp]: "plain (escape t)"
  by (auto simp: plain_def list_all_iff dest: escape_chars)

lemma plain_replicate [simp]: "32 \<le> c \<Longrightarrow> c \<le> 126 \<Longrightarrow> c \<noteq> 124 \<Longrightarrow> plain (replicate n c)"
  by (simp add: plain_def list_all_iff)

lemma plain_take [simp]: "plain t \<Longrightarrow> plain (take n t)"
  by (auto simp: plain_def list_all_iff dest: in_set_takeD)

lemma plain_drop [simp]: "plain t \<Longrightarrow> plain (drop n t)"
  by (auto simp: plain_def list_all_iff dest: in_set_dropD)

lemma plain_hex: "list_all is_hex_lower t \<Longrightarrow> plain t"
  by (auto simp: plain_def list_all_iff is_hex_lower_def)

lemma plain_uuid [simp]: "plain (uuid_text u)"
proof -
  have "plain (map hex_digit (fixed_digits 16 32 (unat u)))"
    by (rule plain_hex) (auto simp: list_all_iff intro!: is_hex_digit dest: fixed_digits_less [rotated])
  then show ?thesis by (simp add: uuid_text_def Let_def)
qed

lemma plain_iso [simp]: "plain (iso t)"
  by (simp add: iso_def)

lemma plain_enums [simp]: "plain (direction_value d)" "plain (entry_type_value k)"
  by (cases d; simp) (cases k; simp)

lemma plain_amount: "amount_text e a = Inr t \<Longrightarrow> plain t"
proof (cases "version e = AUDIT_V3")
  case True
  assume "amount_text e a = Inr t"
  with True have "fixed a = Inr t" by (simp add: amount_text_def)
  then show ?thesis by (rule fixed_fixed_text) (simp add: fixed_text_def Let_def)
next
  case False
  assume "amount_text e a = Inr t"
  with False show ?thesis by (auto simp: amount_text_def dec_str_def Let_def)
qed


lemma plain_no_pipe: "plain t \<Longrightarrow> 124 \<notin> set t"
  by (auto simp: plain_def list_all_iff)

text \<open>Whatever text an entry carries, its audit line is printable ASCII (so one line) and splits
  at the bar into exactly the entry's own fields, in order: no scope id, counterparty or memo can
  open a field or a line of its own.\<close>

theorem audit_line_fields:
  assumes "format_audit_line e = Inr line" "known_version (version e)" "hex64 (entry_hash e)"
  shows "list_all (\<lambda>c. 32 \<le> c \<and> c \<le> 126) line
    \<and> (\<exists>amt bal. amount_text e (amount e) = Inr amt \<and> amount_text e (balance_after e) = Inr bal
        \<and> split_on 124 line = audit_fields e amt bal)"
proof -
  from assms(1) obtain amt bal where a: "amount_text e (amount e) = Inr amt"
    "amount_text e (balance_after e) = Inr bal" by (auto simp: format_audit_line_def)
  have p: "plain amt" "plain bal" using a plain_amount by blast+
  have v: "plain (version e)"
    using assms(2) by (auto simp: known_version_def AUDIT_V1_def AUDIT_V2_def AUDIT_V3_def)
  have h: "plain (take 16 (entry_hash e))" using assms(3) by (simp add: hex64_def plain_hex)
  have fields: "\<forall>w\<in>set (audit_fields e amt bal). plain w"
    using p v h by (auto simp: audit_fields_def pad_digits_def split: option.splits)
  have line: "line = join_with 124 (audit_fields e amt bal)"
    using assms(1) a by (auto simp: format_audit_line_def audit_fields_def join_with_def split: option.splits)
  have "split_on 124 line = audit_fields e amt bal"
    unfolding line using fields by (intro split_on_join) (auto simp: audit_fields_def plain_no_pipe)
  moreover have "list_all (\<lambda>c. 32 \<le> c \<and> c \<le> 126) line"
    using fields set_join_with [of 124 "audit_fields e amt bal"]
    by (fastforce simp: line list_all_iff plain_def)
  ultimately show ?thesis using a by blast
qed


section \<open>Concrete instances\<close>

definition sample_entry :: ledger_entry where
  "sample_entry = \<lparr> sequence = 1, entry_id = 7, transaction_id = 8, timestamp = Instant 2026 10 11 0 0 0 0,
     entry_type = FUNDING, direction = CREDIT, scope_id = lit ''root'', counterparty_id = None,
     amount = Dec 100000000 (- 8), balance_after = Dec 100000000 (- 8), prev_hash = GENESIS_HASH,
     entry_hash = GENESIS_HASH, memo = lit ''a|b'', ref = None, version = AUDIT_V3 \<rparr>"

lemma sample_fixed: "fixed (Dec 100000000 (- 8)) = Inr (lit ''1.00000000'')"
  by (simp add: fixed_def quantize_def aligned_def QUANTUM_EXP_def PREC_def num_digits_def is_zero_def
      digits.simps dec_field_def fixed_digits_def upt_rec)

lemma plain_scalar: "plain t \<Longrightarrow> list_all unicode_scalar t"
  by (auto simp: plain_def list_all_iff unicode_scalar_def)

lemma hex64_genesis: "hex64 GENESIS_HASH"
  by (simp add: hex64_def GENESIS_HASH_def is_hex_lower_def list_all_iff)

lemma sample_hash: "\<exists>h. recompute_hash sample_entry = Inr h"
proof -
  have "list_all unicode_scalar (payload_v3 sample_entry (lit ''1.00000000'') (lit ''1.00000000''))"
    using plain_scalar [OF plain_uuid, of 7] plain_scalar [OF plain_uuid, of 8]
      plain_scalar [OF plain_iso] plain_scalar [OF plain_digits]
    by (simp add: payload_v3_def sample_entry_def unicode_scalar_def quote_def json_string_def json_char_def
        json_special_def ref_text_def hex64_genesis [unfolded GENESIS_HASH_def] GENESIS_HASH_def
        list_all_iff ball_Un)
  then show ?thesis
    by (auto simp: recompute_hash_def sample_fixed sample_entry_def [THEN arg_cong, of version]
        sample_entry_def [THEN arg_cong, of amount] sample_entry_def [THEN arg_cong, of balance_after]
        utf8_encode_def utf8_nats_None split: option.split)
qed

lemma recompute_hash_hex: "recompute_hash e = Inr h \<Longrightarrow> \<exists>bs. h = sha256_hex bs"
  by (auto simp: recompute_hash_def Let_def split: if_splits option.splits)

text \<open>An entry carrying its own hash, when it has one.\<close>

definition sealed :: "ledger_entry \<Rightarrow> ledger_entry" where
  "sealed e = e\<lparr> entry_hash := (case recompute_hash e of Inr h \<Rightarrow> h | Inl _ \<Rightarrow> []) \<rparr>"

lemma recompute_hash_entry_hash [simp]: "recompute_hash (e\<lparr> entry_hash := h \<rparr>) = recompute_hash e"
  by (simp add: recompute_hash_def payload_v3_def payload_list_def cong: if_cong)



theorem escape_inj_witness: "escape (lit ''a|b'') = escape (lit ''a|b'') \<and> lit ''a|b'' = lit ''a|b''"
  using escape_inj [of "lit ''a|b''" "lit ''a|b''"] by (simp add: unicode_scalar_def)

theorem audit_line_fields_witness:
  "\<exists>line. format_audit_line sample_entry = Inr line \<and> length (split_on 124 line) = 12"
proof -
  have f: "amount_text sample_entry (amount sample_entry) = Inr (lit ''1.00000000'')"
    "amount_text sample_entry (balance_after sample_entry) = Inr (lit ''1.00000000'')"
    by (simp_all add: amount_text_def sample_entry_def sample_fixed)
  then obtain line where line: "format_audit_line sample_entry = Inr line"
    by (simp add: format_audit_line_def)
  have "known_version (version sample_entry)" "hex64 (entry_hash sample_entry)"
    by (simp_all add: sample_entry_def known_version_def hex64_genesis)
  with audit_line_fields [OF line] obtain amt bal
    where "split_on 124 line = audit_fields sample_entry amt bal" by blast
  moreover have "length (audit_fields sample_entry amt bal) = 12"
    by (simp add: audit_fields_def sample_entry_def)
  ultimately show ?thesis using line by simp
qed

end
