(* ===== verification/Chain.thy ===== *)
theory Chain
  imports Entries Merkle
begin

text \<open>
  The state a chain of entries implies (\<open>core.py\<close>: \<open>_Totals\<close>, \<open>_ChainState\<close>, \<open>BudgetNode\<close>,
  \<open>ControlEvent\<close>) and what is computed from entries alone (\<open>_apply_totals\<close>, \<open>_event_for\<close>,
  \<open>_legacy_digest\<close>, the memos of seals and checkpoints).

  A field \<open>x\<close> of a Python class is \<open>t_x\<close> (totals), \<open>n_x\<close> (node), \<open>c_x\<close> (control event) or
  \<open>s_x\<close> (chain state) here. Dictionaries whose order the program can observe are association
  lists; \<open>tripped\<close> and \<open>hold_counts\<close>, which are only looked up by key, are maps.
  A hold key pairs a scope with an amount, and Python compares the amounts by value, so the set
  of ambiguous keys holds values.
\<close>

record totals =
  t_funded :: decimal
  t_spent :: decimal
  t_reversed :: decimal
  t_holds_open :: decimal

definition no_totals :: totals where
  "no_totals = \<lparr> t_funded = ZERO, t_spent = ZERO, t_reversed = ZERO, t_holds_open = ZERO \<rparr>"

definition apply_totals :: "totals \<Rightarrow> ledger_entry \<Rightarrow> totals res" where
  "apply_totals t e = (case entry_type e of
       FUNDING \<Rightarrow> rbind (ctx_add (t_funded t) (amount e)) (\<lambda>x. Inr (t\<lparr> t_funded := x \<rparr>))
     | SPEND \<Rightarrow> rbind (ctx_add (t_spent t) (amount e)) (\<lambda>x. Inr (t\<lparr> t_spent := x \<rparr>))
     | REVERSAL \<Rightarrow> rbind (ctx_add (t_reversed t) (amount e)) (\<lambda>x. Inr (t\<lparr> t_reversed := x \<rparr>))
     | HOLD \<Rightarrow> rbind (ctx_add (t_holds_open t) (amount e)) (\<lambda>x. Inr (t\<lparr> t_holds_open := x \<rparr>))
     | HOLD_VOID \<Rightarrow> rbind (ctx_subtract (t_holds_open t) (amount e)) (\<lambda>x. Inr (t\<lparr> t_holds_open := x \<rparr>))
     | _ \<Rightarrow> Inr t)"

record budget_node =
  n_scope_id :: scope_id
  n_parent_id :: "scope_id option"
  n_depth :: nat
  n_allocated :: decimal
  n_child_ids :: "scope_id list"
  n_created_at :: instant

record control_event =
  c_event_id :: uuid
  c_timestamp :: instant
  c_event_type :: ustr
  c_scope_id :: scope_id
  c_reason :: ustr
  c_ledger_head_hash :: ustr
  c_entry_id :: "uuid option"

definition event_for :: "ledger_entry \<Rightarrow> control_event" where
  "event_for e = \<lparr> c_event_id = entry_id e, c_timestamp = timestamp e,
     c_event_type = entry_type_value (entry_type e), c_scope_id = scope_id e, c_reason = memo e,
     c_ledger_head_hash = prev_hash e, c_entry_id = Some (entry_id e) \<rparr>"

section \<open>The migration seal and checkpoints\<close>

definition json_list :: "ustr list \<Rightarrow> ustr" where
  "json_list ts = [91] @ join_with 44 ts @ [93]"

text \<open>The payload is ASCII, so it always encodes.\<close>

definition ascii_bytes :: "ustr \<Rightarrow> byte list" where
  "ascii_bytes t = map of_nat t"

definition legacy_digest :: "control_event list \<Rightarrow> ustr" where
  "legacy_digest es = sha256_hex (ascii_bytes (json_list (map (\<lambda>c. json_list
     [json_string_ascii (uuid_text (c_event_id c)), json_string_ascii (iso (c_timestamp c)),
      json_string_ascii (c_event_type c), json_string_ascii (c_scope_id c),
      json_string_ascii (c_reason c), json_string_ascii (c_ledger_head_hash c)]) es)))"

definition seal_memo :: "control_event list \<Rightarrow> ustr" where
  "seal_memo es = lit ''pre-0.1.2 control events: n='' @ digits (length es) @ lit '' sha256='' @ legacy_digest es"

text \<open>\<open>\d\<close> in a \<open>str\<close> pattern is any Unicode decimal digit: the code points of the sixty-six
  zeros (Unicode 14), each followed by its one to nine.\<close>

definition unicode_zeros :: "nat list" where
  "unicode_zeros = [0x30, 0x660, 0x6f0, 0x7c0, 0x966, 0x9e6, 0xa66, 0xae6, 0xb66, 0xbe6, 0xc66, 0xce6,
     0xd66, 0xde6, 0xe50, 0xed0, 0xf20, 0x1040, 0x1090, 0x17e0, 0x1810, 0x1946, 0x19d0, 0x1a80, 0x1a90,
     0x1b50, 0x1bb0, 0x1c40, 0x1c50, 0xa620, 0xa8d0, 0xa900, 0xa9d0, 0xa9f0, 0xaa50, 0xabf0, 0xff10,
     0x104a0, 0x10d30, 0x11066, 0x110f0, 0x11136, 0x111d0, 0x112f0, 0x11450, 0x114d0, 0x11650, 0x116c0,
     0x11730, 0x118e0, 0x11950, 0x11c50, 0x11d50, 0x11da0, 0x16a60, 0x16ac0, 0x16b50, 0x1d7ce, 0x1d7d8,
     0x1d7e2, 0x1d7ec, 0x1d7f6, 0x1e140, 0x1e2f0, 0x1e950, 0x1fbf0]"

definition unicode_digit :: "nat \<Rightarrow> nat option" where
  "unicode_digit c = map_option (\<lambda>z. c - z) (List.find (\<lambda>z. z \<le> c \<and> c < z + 10) unicode_zeros)"

text \<open>\<open>int(text)\<close> of a run of decimal digits; CPython refuses more than 4300 of them.\<close>

definition int_of_digits :: "ustr \<Rightarrow> nat res" where
  "int_of_digits t = (if 4300 < length t then Inl (ValueError ''exceeds the limit for integer string conversion'')
     else Inr (foldl (\<lambda>n c. n * 10 + the (unicode_digit c)) 0 t))"

definition strip_prefix :: "ustr \<Rightarrow> ustr \<Rightarrow> ustr option" where
  "strip_prefix p t = (if take (length p) t = p then Some (drop (length p) t) else None)"

text \<open>The tail both memo patterns share: \<open> sha256=\<close> and sixty-four lowercase hex digits, to the end.\<close>

definition sha_suffix :: "ustr \<Rightarrow> ustr option" where
  "sha_suffix t = (case strip_prefix (lit '' sha256='') t of None \<Rightarrow> None
     | Some d \<Rightarrow> if hex64 d then Some d else None)"

definition seal_match :: "ustr \<Rightarrow> (ustr \<times> ustr) option" where
  "seal_match m = (case strip_prefix (lit ''pre-0.1.2 control events: n='') m of None \<Rightarrow> None
     | Some t \<Rightarrow> let n = takeWhile (\<lambda>c. unicode_digit c \<noteq> None) t in
         if n = [] then None else map_option (Pair n) (sha_suffix (drop (length n) t)))"

definition checkpoint_match :: "ustr \<Rightarrow> (ustr \<times> ustr) option" where
  "checkpoint_match m = (case strip_prefix (lit ''agentgov-checkpoint v1 seq='') m of None \<Rightarrow> None
     | Some t \<Rightarrow> let n = takeWhile is_digit t in
         if n = [] \<or> hd n = 48 then None else map_option (Pair n) (sha_suffix (drop (length n) t)))"

section \<open>The chain state\<close>

type_synonym hold_key = "scope_id \<times> rat"

definition hold_key :: "ledger_entry \<Rightarrow> hold_key" where
  "hold_key e = (scope_id e, dval (amount e))"

record chain_state =
  s_balances :: "(scope_id, decimal) dict"
  s_totals :: totals
  s_head :: ustr
  s_length :: nat
  s_holds :: "(uuid, ledger_entry) dict"
  s_ambiguous :: "hold_key set"
  s_saw_v1 :: bool
  s_saw_v2 :: bool
  s_seal :: "ledger_entry option"
  s_nodes :: "(scope_id, budget_node) dict"
  s_roots :: "scope_id list"
  s_tripped :: "scope_id \<rightharpoonup> instant \<times> ustr"
  s_legacy :: "control_event list"
  s_legacy_applied :: bool
  s_spent :: "(scope_id, decimal) dict"
  s_refunded :: "(scope_id, decimal) dict"
  s_hold_counts :: "scope_id \<rightharpoonup> int"
  s_saw_v3 :: bool
  s_spend_refunds :: "(uuid, decimal) dict"
  s_last_timestamp :: "instant option"
  s_last_checkpoint :: "(nat \<times> ustr) option"
  s_frontier :: "digest list"
  s_unit :: unit_of_account

definition empty_chain :: "unit_of_account \<Rightarrow> control_event list \<Rightarrow> chain_state" where
  "empty_chain u legacy = \<lparr> s_balances = [], s_totals = no_totals, s_head = genesis u, s_length = 0,
     s_holds = [], s_ambiguous = {}, s_saw_v1 = False, s_saw_v2 = False, s_seal = None, s_nodes = [],
     s_roots = [], s_tripped = Map.empty, s_legacy = legacy, s_legacy_applied = False, s_spent = [],
     s_refunded = [], s_hold_counts = Map.empty, s_saw_v3 = False, s_spend_refunds = [],
     s_last_timestamp = None, s_last_checkpoint = None, s_frontier = [], s_unit = u \<rparr>"

definition chain_balance :: "'a chain_state_scheme \<Rightarrow> scope_id \<Rightarrow> decimal" where
  "chain_balance s k = dict_get (s_balances s) k ZERO"

definition chain_open_hold :: "'a chain_state_scheme \<Rightarrow> uuid \<Rightarrow> ledger_entry option" where
  "chain_open_hold s h = map_of (s_holds s) h"

definition chain_node :: "'a chain_state_scheme \<Rightarrow> scope_id \<Rightarrow> budget_node option" where
  "chain_node s k = map_of (s_nodes s) k"

definition chain_trip_of :: "'a chain_state_scheme \<Rightarrow> scope_id \<Rightarrow> (instant \<times> ustr) option" where
  "chain_trip_of s k = s_tripped s k"

definition chain_spent_by :: "'a chain_state_scheme \<Rightarrow> scope_id \<Rightarrow> decimal" where
  "chain_spent_by s k = dict_get (s_spent s) k ZERO"

definition chain_refunded_to :: "'a chain_state_scheme \<Rightarrow> scope_id \<Rightarrow> decimal" where
  "chain_refunded_to s k = dict_get (s_refunded s) k ZERO"

definition chain_holds_open_in :: "'a chain_state_scheme \<Rightarrow> scope_id \<Rightarrow> int" where
  "chain_holds_open_in s k = (case s_hold_counts s k of None \<Rightarrow> 0 | Some n \<Rightarrow> n)"

definition chain_refunded_of_spend :: "'a chain_state_scheme \<Rightarrow> uuid \<Rightarrow> decimal" where
  "chain_refunded_of_spend s r = dict_get (s_spend_refunds s) r ZERO"

section \<open>Totals move with the entry\<close>

text \<open>What an entry adds to each boundary total.\<close>

definition flow :: "entry_type \<Rightarrow> ledger_entry \<Rightarrow> rat" where
  "flow k e = (if entry_type e = k then dval (amount e) else 0)"

lemma apply_totals_flow:
  assumes "apply_totals t e = Inr t'"
  shows "dval (t_funded t') = dval (t_funded t) + flow FUNDING e"
    and "dval (t_spent t') = dval (t_spent t) + flow SPEND e"
    and "dval (t_reversed t') = dval (t_reversed t) + flow REVERSAL e"
    and "dval (t_holds_open t') = dval (t_holds_open t) + flow HOLD e - flow HOLD_VOID e"
  using assms
  by (auto simp: apply_totals_def flow_def dval_ctx_add dval_ctx_subtract split: entry_type.splits)

end
