(* ===== verification/Overlay.thy ===== *)
theory Overlay
  imports Chain
begin

text \<open>
  The rule engine (\<open>core.py\<close>: \<open>_Overlay\<close>, \<open>_replay\<close>): a copy-on-write view of a chain state in
  which every entry is verified and folded, and which \<open>merge\<close> folds into the state below.

  A field \<open>_x\<close> or \<open>x\<close> of the class is \<open>v_x\<close> here. A rule that raises returns \<open>Inl\<close>; the view it
  may have half changed is discarded by every caller of the code, and is not returned here.
  Sets that are only asked for members are sets. \<open>v_resolve\<close> and \<open>v_refunds\<close> are the callbacks the
  code takes as parameters.
\<close>

record overlay =
  v_base :: chain_state
  v_resolve :: "(uuid \<Rightarrow> ledger_entry option) option"
  v_refunds :: "(uuid \<Rightarrow> nat \<Rightarrow> decimal) option"
  v_start_head :: ustr
  v_balances :: "(scope_id, decimal) dict"
  v_totals :: totals
  v_head :: ustr
  v_length :: nat
  v_saw_v1 :: bool
  v_saw_v2 :: bool
  v_seal :: "ledger_entry option"
  v_legacy :: "control_event list"
  v_legacy_applied :: bool
  v_saw_v3 :: bool
  v_last_timestamp :: "instant option"
  v_last_checkpoint :: "(nat \<times> ustr) option"
  v_frontier :: "digest list"
  v_spend_refunds :: "(uuid, decimal) dict"
  v_ambiguous :: "hold_key set"
  v_opened :: "(uuid, ledger_entry) dict"
  v_closed :: "uuid set"
  v_nodes :: "(scope_id, budget_node) dict"
  v_children :: "(scope_id, scope_id list) dict"
  v_row_scopes :: "scope_id set"
  v_roots :: "scope_id list"
  v_tripped :: "scope_id \<rightharpoonup> (instant \<times> ustr) option"
  v_events :: "control_event list"
  v_spent :: "(scope_id, decimal) dict"
  v_refunded :: "(scope_id, decimal) dict"
  v_counts :: "scope_id \<rightharpoonup> int"
  v_txn :: "uuid option"
  v_settleable :: "uuid set"
  v_net :: decimal

definition new_overlay :: "chain_state \<Rightarrow> (uuid \<Rightarrow> ledger_entry option) option
    \<Rightarrow> (uuid \<Rightarrow> nat \<Rightarrow> decimal) option \<Rightarrow> overlay" where
  "new_overlay base resolve refunds = \<lparr> v_base = base, v_resolve = resolve, v_refunds = refunds,
     v_start_head = s_head base, v_balances = [], v_totals = s_totals base, v_head = s_head base,
     v_length = s_length base, v_saw_v1 = s_saw_v1 base, v_saw_v2 = s_saw_v2 base,
     v_seal = s_seal base, v_legacy = s_legacy base, v_legacy_applied = s_legacy_applied base,
     v_saw_v3 = s_saw_v3 base, v_last_timestamp = s_last_timestamp base,
     v_last_checkpoint = s_last_checkpoint base, v_frontier = s_frontier base,
     v_spend_refunds = [], v_ambiguous = {}, v_opened = [], v_closed = {}, v_nodes = [],
     v_children = [], v_row_scopes = {}, v_roots = [], v_tripped = Map.empty, v_events = [],
     v_spent = [], v_refunded = [], v_counts = Map.empty, v_txn = None, v_settleable = {},
     v_net = ZERO \<rparr>"

section \<open>Lookups: staged first, then the base\<close>

definition balance :: "overlay \<Rightarrow> scope_id \<Rightarrow> decimal" where
  "balance v k = (case map_of (v_balances v) k of Some x \<Rightarrow> x | None \<Rightarrow> chain_balance (v_base v) k)"

definition open_hold :: "overlay \<Rightarrow> uuid \<Rightarrow> ledger_entry option" where
  "open_hold v h = (if h \<in> v_closed v then None
     else case map_of (v_opened v) h of Some e \<Rightarrow> Some e | None \<Rightarrow> chain_open_hold (v_base v) h)"

definition iter_holds :: "overlay \<Rightarrow> (uuid, ledger_entry) dict" where
  "iter_holds v = filter (\<lambda>(h, e). h \<notin> v_closed v) (s_holds (v_base v)) @ v_opened v"

definition is_ambiguous :: "overlay \<Rightarrow> hold_key \<Rightarrow> bool" where
  "is_ambiguous v k \<longleftrightarrow> k \<in> v_ambiguous v \<or> k \<in> s_ambiguous (v_base v)"

definition ambiguous_keys :: "overlay \<Rightarrow> hold_key set" where
  "ambiguous_keys v = v_ambiguous v \<union> s_ambiguous (v_base v)"

definition node :: "overlay \<Rightarrow> scope_id \<Rightarrow> budget_node option" where
  "node v k = (case map_of (v_nodes v) k of Some n \<Rightarrow> Some n | None \<Rightarrow> chain_node (v_base v) k)"

definition trip_of :: "overlay \<Rightarrow> scope_id \<Rightarrow> (instant \<times> ustr) option" where
  "trip_of v k = (case v_tripped v k of Some t \<Rightarrow> t | None \<Rightarrow> chain_trip_of (v_base v) k)"

definition spent_by :: "overlay \<Rightarrow> scope_id \<Rightarrow> decimal" where
  "spent_by v k = (case map_of (v_spent v) k of Some x \<Rightarrow> x | None \<Rightarrow> chain_spent_by (v_base v) k)"

definition refunded_to :: "overlay \<Rightarrow> scope_id \<Rightarrow> decimal" where
  "refunded_to v k = (case map_of (v_refunded v) k of Some x \<Rightarrow> x | None \<Rightarrow> chain_refunded_to (v_base v) k)"

definition holds_open_in :: "overlay \<Rightarrow> scope_id \<Rightarrow> int" where
  "holds_open_in v k = (case v_counts v k of Some n \<Rightarrow> n | None \<Rightarrow> chain_holds_open_in (v_base v) k)"

definition refunded_of_spend :: "overlay \<Rightarrow> uuid \<Rightarrow> decimal" where
  "refunded_of_spend v r = (case map_of (v_spend_refunds v) r of Some x \<Rightarrow> x
     | None \<Rightarrow> (case v_refunds v of None \<Rightarrow> chain_refunded_of_spend (v_base v) r
         | Some f \<Rightarrow> if s_length (v_base v) = 0 then ZERO else f r (s_length (v_base v))))"

section \<open>What the view stages for the store's caches\<close>

definition control_entries :: "overlay \<Rightarrow> control_event list" where
  "control_entries v = filter (\<lambda>c. c_entry_id c \<noteq> None) (v_events v)"

definition cache_rows :: "overlay \<Rightarrow> budget_node set \<times> control_event list \<times> ledger_entry list" where
  "cache_rows v = (the ` map_of (v_nodes v) ` {k \<in> v_row_scopes v. map_of (v_nodes v) k \<noteq> None},
     control_entries v, map snd (v_opened v))"

section \<open>Ledger rules\<close>

abbreviation integrity :: "string \<Rightarrow> scope_id \<Rightarrow> 'a res" where
  "integrity what scope \<equiv> Inl (LedgerIntegrityError what (Some scope))"

abbreviation integrity' :: "string \<Rightarrow> 'a res" where
  "integrity' what \<equiv> Inl (LedgerIntegrityError what None)"

definition check_version :: "overlay \<Rightarrow> ledger_entry \<Rightarrow> overlay res" where
  "check_version v e =
     (if version e = AUDIT_V1 then
        if v_saw_v2 v then integrity' ''an AGOV1 entry after newer entries''
        else if ref e \<noteq> None then integrity' ''an AGOV1 entry carrying a hold reference''
        else if zero_value_type (entry_type e) then integrity' ''a type AGOV1 did not have''
        else Inr (v\<lparr> v_saw_v1 := True \<rparr>)
      else if v_saw_v1 v \<and> \<not> v_saw_v2 v \<and> entry_type e \<noteq> SEAL then
        integrity' ''the first entry written after pre-0.1.2 history is not the migration seal''
      else if version e = AUDIT_V3 then Inr (v\<lparr> v_saw_v3 := True, v_saw_v2 := True \<rparr>)
      else if v_saw_v3 v then integrity' ''an AGOV2 entry after AGOV3 entries''
      else Inr (v\<lparr> v_saw_v2 := True \<rparr>))"

definition check_v3 :: "overlay \<Rightarrow> ledger_entry \<Rightarrow> unit res" where
  "check_v3 v e =
     (if check_text (scope_id e) MAX_ID_BYTES True \<noteq> None then integrity ''scope id'' (scope_id e)
      else if (\<exists>c \<in> set_option (counterparty_id e). check_text c MAX_ID_BYTES True \<noteq> None)
        then integrity ''counterparty id'' (scope_id e)
      else if check_text (memo e) MAX_MEMO_BYTES False \<noteq> None then integrity ''memo'' (scope_id e)
      else case v_last_timestamp v of None \<Rightarrow> Inr ()
        | Some t \<Rightarrow> if timestamp e < t then integrity ''AGOV3 time never runs backwards'' (scope_id e)
                   else Inr ())"

definition check_checkpoint :: "overlay \<Rightarrow> ledger_entry \<Rightarrow> overlay res" where
  "check_checkpoint v e = (case checkpoint_match (memo e) of
       None \<Rightarrow> integrity' ''a malformed checkpoint''
     | Some (n, digest) \<Rightarrow> rbind (int_of_digits n) (\<lambda>q.
         if sequence e \<le> q then integrity' ''which is not before it''
         else case v_last_checkpoint v of
             None \<Rightarrow> Inr (v\<lparr> v_last_checkpoint := Some (q, digest) \<rparr>)
           | Some (p, _) \<Rightarrow> if q \<le> p then integrity' ''which is not after the previous checkpoint''
               else Inr (v\<lparr> v_last_checkpoint := Some (q, digest) \<rparr>)))"

definition check_shape :: "overlay \<Rightarrow> ledger_entry \<Rightarrow> overlay res" where
  "check_shape v e = (let kind = entry_type e in
     if direction e \<notin> set (legal_directions kind) then integrity ''illegal direction'' (scope_id e)
     else rbind (if version e = AUDIT_V3 then check_v3 v e
                 else if kind = CHECKPOINT then integrity' ''checkpoints are AGOV3 only''
                 else Inr ()) (\<lambda>_.
       if \<not> zero_value_type kind then
         if dec_le (amount e) ZERO then integrity ''amount must be positive'' (scope_id e)
         else rbind (counted (amount e) (s_unit (v_base v))) (\<lambda>c.
           if \<not> c then integrity ''finer than this ledger's unit'' (scope_id e) else Inr v)
       else if \<not> dec_eq (amount e) ZERO then integrity ''moves no money'' (scope_id e)
       else if \<not> scopeless_type kind then
         if scope_id e = [] then integrity' ''needs a scope'' else Inr v
       else if scope_id e \<noteq> [] then integrity' ''belongs to no scope''
       else if kind = CHECKPOINT then check_checkpoint v e
       else if v_seal v \<noteq> None then integrity' ''a second migration seal''
       else if \<not> v_saw_v1 v then integrity' ''seals pre-0.1.2 history this ledger does not have''
       else Inr v))"

definition end_transaction :: "overlay \<Rightarrow> overlay res" where
  "end_transaction v = (if \<not> dec_eq (v_net v) ZERO then integrity' ''does not balance''
     else Inr (v\<lparr> v_txn := None, v_settleable := {} \<rparr>))"

definition begin_transaction :: "overlay \<Rightarrow> ledger_entry \<Rightarrow> overlay res" where
  "begin_transaction v e =
     (if v_txn v = Some (transaction_id e) then Inr v
      else rbind (if v_txn v \<noteq> None then end_transaction v else Inr v) (\<lambda>v.
        Inr (v\<lparr> v_txn := Some (transaction_id e) \<rparr>)))"

definition close_hold :: "overlay \<Rightarrow> uuid \<Rightarrow> ledger_entry \<Rightarrow> overlay" where
  "close_hold v h e = (let v' = (case map_of (v_opened v) h of
         Some _ \<Rightarrow> v\<lparr> v_opened := AList.delete h (v_opened v) \<rparr>
       | None \<Rightarrow> v\<lparr> v_closed := insert h (v_closed v) \<rparr>)
     in v'\<lparr> v_counts := (v_counts v')(scope_id e \<mapsto> holds_open_in v' (scope_id e) - 1) \<rparr>)"

type_synonym 'a releasing = "('a \<times> uuid set option) res"

definition release_named :: "overlay \<Rightarrow> ledger_entry \<Rightarrow> uuid set option \<Rightarrow> overlay releasing" where
  "release_named v e released = (case ref e of
       None \<Rightarrow> integrity ''releases a hold without naming it'' (scope_id e)
     | Some r \<Rightarrow> (case open_hold v r of
         None \<Rightarrow> if (\<exists>rs \<in> set_option released. r \<in> rs)
           then integrity ''releases a hold a second time'' (scope_id e)
           else integrity ''which is not an open hold'' (scope_id e)
       | Some h \<Rightarrow>
           if scope_id h \<noteq> scope_id e then integrity ''releases a hold of another scope'' (scope_id e)
           else if \<not> dec_eq (amount h) (amount e) then integrity ''releases another amount'' (scope_id e)
           else let v' = close_hold v r h in
             Inr (v'\<lparr> v_settleable := insert r (v_settleable v') \<rparr>, map_option (insert r) released)))"

definition release_unnamed :: "overlay \<Rightarrow> ledger_entry \<Rightarrow> overlay res" where
  "release_unnamed v e = (case List.find (\<lambda>(h, hold). hold_key hold = hold_key e) (iter_holds v) of
       Some (h, hold) \<Rightarrow> (let v' = close_hold v h hold in
         Inr (v'\<lparr> v_ambiguous := insert (hold_key e) (v_ambiguous v') \<rparr>))
     | None \<Rightarrow> integrity ''the same funds were released twice'' (scope_id e))"

definition reverse_named :: "overlay \<Rightarrow> ledger_entry \<Rightarrow> uuid \<Rightarrow> overlay res" where
  "reverse_named v e r = (case (case v_resolve v of None \<Rightarrow> None | Some f \<Rightarrow> f r) of
       None \<Rightarrow> integrity ''not a spend this ledger holds'' (scope_id e)
     | Some spend \<Rightarrow>
         if entry_type spend \<noteq> SPEND then integrity ''not a spend this ledger holds'' (scope_id e)
         else if scope_id spend \<noteq> scope_id e then integrity ''reverses a spend of another scope'' (scope_id e)
         else rbind (ctx_add (refunded_of_spend v r) (amount e)) (\<lambda>refunded.
           if dec_lt (amount spend) refunded then integrity ''more than it spent'' (scope_id e)
           else Inr (v\<lparr> v_spend_refunds := AList.update r refunded (v_spend_refunds v) \<rparr>)))"

definition check_holds :: "overlay \<Rightarrow> ledger_entry \<Rightarrow> uuid set option \<Rightarrow> overlay releasing" where
  "check_holds v e released = (let kind = entry_type e in
     if ref e \<noteq> None \<and> \<not> (if version e = AUDIT_V3 then v3_referencing_type kind else referencing_type kind)
     then integrity ''names no hold'' (scope_id e)
     else if kind = HOLD then
       (let v' = v\<lparr> v_opened := AList.update (entry_id e) e (v_opened v) \<rparr> in
        Inr (v'\<lparr> v_counts := (v_counts v')(scope_id e \<mapsto> holds_open_in v' (scope_id e) + 1) \<rparr>, released))
     else if kind = HOLD_VOID then
       if version e = AUDIT_V1 then rbind (release_unnamed v e) (\<lambda>v. Inr (v, released))
       else release_named v e released
     else case ref e of None \<Rightarrow> Inr (v, released)
       | Some r \<Rightarrow>
           if kind = SPEND then
             if r \<notin> v_settleable v then integrity ''settles a hold its transaction did not release'' (scope_id e)
             else Inr (v, released)
           else if kind = REVERSAL then rbind (reverse_named v e r) (\<lambda>v. Inr (v, released))
           else Inr (v, released))"

definition check_flows :: "overlay \<Rightarrow> ledger_entry \<Rightarrow> bool \<Rightarrow> overlay res" where
  "check_flows v e writing = (let scope = scope_id e in
     if entry_type e = SPEND then
       rbind (ctx_add (spent_by v scope) (amount e)) (\<lambda>x. Inr (v\<lparr> v_spent := AList.update scope x (v_spent v) \<rparr>))
     else if entry_type e = REVERSAL then
       rbind (ctx_add (refunded_to v scope) (amount e)) (\<lambda>refunded.
         if (writing \<or> version e = AUDIT_V3) \<and> dec_lt (spent_by v scope) refunded
         then integrity ''more than it ever spent'' scope
         else Inr (v\<lparr> v_refunded := AList.update scope refunded (v_refunded v) \<rparr>))
     else Inr v)"

section \<open>Governance rules\<close>

definition require_scope :: "overlay \<Rightarrow> scope_id \<Rightarrow> budget_node res" where
  "require_scope v k = (case node v k of Some n \<Rightarrow> Inr n
     | None \<Rightarrow> integrity ''names a scope the chain never created'' k)"

definition control :: "overlay \<Rightarrow> ustr \<Rightarrow> scope_id \<Rightarrow> instant \<Rightarrow> ustr \<Rightarrow> overlay res" where
  "control v event_type k t reason = (case node v k of
       None \<Rightarrow> integrity' ''control event references unregistered scope''
     | Some _ \<Rightarrow>
         if event_type = entry_type_value CIRCUIT_TRIPPED then
           Inr (v\<lparr> v_tripped := (v_tripped v)(k \<mapsto> Some (t, reason)) \<rparr>)
         else if event_type = entry_type_value CIRCUIT_RESET then
           Inr (v\<lparr> v_tripped := (v_tripped v)(k \<mapsto> None) \<rparr>)
         else Inr v)"

definition apply_control :: "overlay \<Rightarrow> control_event \<Rightarrow> overlay res" where
  "apply_control v c = control v (c_event_type c) (c_scope_id c) (c_timestamp c) (c_reason c)"

definition apply_legacy :: "overlay \<Rightarrow> overlay res" where
  "apply_legacy v = rfold apply_control (v\<lparr> v_legacy_applied := True \<rparr>) (v_legacy v)"

definition apply_legacy_event :: "overlay \<Rightarrow> control_event \<Rightarrow> overlay res" where
  "apply_legacy_event v c = apply_control (v\<lparr> v_legacy := v_legacy v @ [c] \<rparr>) c"

definition check_seal :: "overlay \<Rightarrow> ledger_entry \<Rightarrow> unit res" where
  "check_seal v e = (case seal_match (memo e) of
       None \<Rightarrow> integrity' ''a malformed migration seal''
     | Some (n, digest) \<Rightarrow> rbind (int_of_digits n) (\<lambda>count.
         if count \<noteq> length (v_legacy v) \<or> digest \<noteq> legacy_digest (v_legacy v)
         then integrity' ''the pre-0.1.2 control events no longer match the seal'' else Inr ()))"

definition writable :: "overlay \<Rightarrow> scope_id \<Rightarrow> (overlay \<times> budget_node) res" where
  "writable v k = (case map_of (v_nodes v) k of Some n \<Rightarrow> Inr (v, n)
     | None \<Rightarrow> (case chain_node (v_base v) k of
         None \<Rightarrow> integrity ''is not in the chain'' k
       | Some n \<Rightarrow> Inr (v\<lparr> v_nodes := AList.update k n (v_nodes v) \<rparr>, n)))"

definition fund_scope :: "overlay \<Rightarrow> ledger_entry \<Rightarrow> overlay res" where
  "fund_scope v e = (let scope = scope_id e in
     rbind (case node v scope of
         None \<Rightarrow> Inr (v\<lparr> v_nodes := AList.update scope \<lparr> n_scope_id = scope, n_parent_id = None, n_depth = 0,
             n_allocated = amount e, n_child_ids = [], n_created_at = timestamp e \<rparr> (v_nodes v),
           v_roots := v_roots v @ [scope] \<rparr>)
       | Some n \<Rightarrow>
           if n_parent_id n \<noteq> None then integrity ''funds a scope that is not a root'' scope
           else rbind (writable v scope) (\<lambda>(v, w).
             rbind (ctx_add (n_allocated w) (amount e)) (\<lambda>a.
               Inr (v\<lparr> v_nodes := AList.update scope (w\<lparr> n_allocated := a \<rparr>) (v_nodes v) \<rparr>))))
       (\<lambda>v. Inr (v\<lparr> v_row_scopes := insert scope (v_row_scopes v) \<rparr>)))"

definition allocate :: "overlay \<Rightarrow> ledger_entry \<Rightarrow> overlay res" where
  "allocate v e = (let scope = scope_id e in
     if direction e = DEBIT then rbind (require_scope v scope) (\<lambda>_. Inr v)
     else if node v scope \<noteq> None then integrity ''allocates a second time'' scope
     else case node v (case counterparty_id e of None \<Rightarrow> [] | Some p \<Rightarrow> p) of
         None \<Rightarrow> integrity ''delegates from a scope the chain never created'' scope
       | Some p \<Rightarrow> Inr (v\<lparr> v_nodes := AList.update scope \<lparr> n_scope_id = scope, n_parent_id = Some (n_scope_id p),
             n_depth = n_depth p + 1, n_allocated = amount e, n_child_ids = [], n_created_at = timestamp e \<rparr> (v_nodes v),
           v_row_scopes := insert scope (v_row_scopes v),
           v_children := AList.update (n_scope_id p) (dict_get (v_children v) (n_scope_id p) [] @ [scope]) (v_children v) \<rparr>))"

definition release_between :: "overlay \<Rightarrow> ledger_entry \<Rightarrow> unit res" where
  "release_between v e = (let scope = scope_id e; other = (case counterparty_id e of None \<Rightarrow> [] | Some p \<Rightarrow> p) in
     rbind (require_scope v scope) (\<lambda>n.
       let child = (if direction e = DEBIT then Some n else node v other);
           parent_id = (if direction e = DEBIT then other else scope)
       in case child of None \<Rightarrow> integrity ''are not child and parent'' scope
          | Some c \<Rightarrow> if n_parent_id c \<noteq> Some parent_id then integrity ''are not child and parent'' scope
              else Inr ()))"

definition fold_legacy :: "overlay \<Rightarrow> ledger_entry \<Rightarrow> overlay res" where
  "fold_legacy v e =
     (if version e \<noteq> AUDIT_V1 \<and> \<not> v_legacy_applied v then
        rbind (if entry_type e = SEAL then check_seal v e
               else if v_legacy v \<noteq> [] then integrity' ''no migration seal to vouch for them''
               else Inr ()) (\<lambda>_. apply_legacy v)
      else Inr v)"

definition check_governance :: "overlay \<Rightarrow> ledger_entry \<Rightarrow> overlay res" where
  "check_governance v e = rbind (fold_legacy v e) (\<lambda>v. let kind = entry_type e in
     if kind = FUNDING then fund_scope v e
     else if kind = ALLOCATION then allocate v e
     else if kind = RELEASE then rbind (release_between v e) (\<lambda>_. Inr v)
     else if control_type kind then
       rbind (control v (entry_type_value kind) (scope_id e) (timestamp e) (memo e)) (\<lambda>v.
         Inr (v\<lparr> v_events := v_events v @ [event_for e] \<rparr>))
     else if \<not> scopeless_type kind then rbind (require_scope v (scope_id e)) (\<lambda>_. Inr v)
     else Inr v)"

section \<open>One entry\<close>

definition check_entry_hash :: "ledger_entry \<Rightarrow> unit res" where
  "check_entry_hash e = (case recompute_hash e of
       Inl x \<Rightarrow> if is_ValueError x \<or> is_ArithmeticError x then integrity ''cannot be hashed'' (scope_id e) else Inl x
     | Inr digest \<Rightarrow> if digest \<noteq> entry_hash e then integrity ''has been tampered with'' (scope_id e) else Inr ())"

definition check_link :: "overlay \<Rightarrow> ledger_entry \<Rightarrow> bool \<Rightarrow> unit res" where
  "check_link v e check_hash =
     (if sequence e \<noteq> v_length v + 1 then integrity ''sequence gap'' (scope_id e)
      else if prev_hash e \<noteq> v_head v then integrity ''broken chain link'' (scope_id e)
      else if \<not> known_version (version e) then integrity ''unknown audit version'' (scope_id e)
      else if check_hash then check_entry_hash e else Inr ())"

definition move_balance :: "overlay \<Rightarrow> ledger_entry \<Rightarrow> overlay res" where
  "move_balance v e = rbind (ctx_add (balance v (scope_id e)) (signed_amount e)) (\<lambda>expected.
     if \<not> dec_eq (balance_after e) expected then integrity ''the chain implies another balance'' (scope_id e)
     else let v = (if zero_value_type (entry_type e) then v
                   else v\<lparr> v_balances := AList.update (scope_id e) expected (v_balances v) \<rparr>) in
       if balanced_type (entry_type e) then
         rbind (ctx_add (v_net v) (signed_amount e)) (\<lambda>n. Inr (v\<lparr> v_net := n \<rparr>))
       else Inr v)"

definition advance :: "overlay \<Rightarrow> ledger_entry \<Rightarrow> overlay res" where
  "advance v e = rbind (apply_totals (v_totals v) e) (\<lambda>t.
     let v = v\<lparr> v_totals := t \<rparr>; v = (if entry_type e = SEAL then v\<lparr> v_seal := Some e \<rparr> else v) in
     rbind (frontier_append (v_frontier v) (v_length v) (entry_hash e)) (\<lambda>f.
       Inr (v\<lparr> v_frontier := f, v_head := entry_hash e, v_length := v_length v + 1,
               v_last_timestamp := Some (timestamp e) \<rparr>)))"

definition apply_entry :: "overlay \<Rightarrow> ledger_entry \<Rightarrow> bool \<Rightarrow> uuid set option \<Rightarrow> bool \<Rightarrow> overlay releasing" where
  "apply_entry v e check_hash released writing =
     rbind (check_link v e check_hash) (\<lambda>_.
     rbind (check_version v e) (\<lambda>v.
     rbind (check_shape v e) (\<lambda>v.
     rbind (begin_transaction v e) (\<lambda>v.
     rbind (move_balance v e) (\<lambda>v.
     rbind (check_holds v e released) (\<lambda>(v, released).
     rbind (check_flows v e writing) (\<lambda>v.
     rbind (check_governance v e) (\<lambda>v.
     rbind (advance v e) (\<lambda>v. Inr (v, released))))))))))"

definition finish :: "overlay \<Rightarrow> overlay res" where
  "finish v = rbind (end_transaction v) (\<lambda>v. if v_legacy_applied v then Inr v else apply_legacy v)"

section \<open>Folding a view into the state below\<close>

text \<open>\<open>base.nodes[scope].child_ids.extend(added)\<close> needs the scope to be there; it is, because a
  child is only staged under a parent the view or its base knows.\<close>

definition merge_node :: "(scope_id, budget_node) dict \<Rightarrow> scope_id \<times> budget_node \<Rightarrow> (scope_id, budget_node) dict" where
  "merge_node ns kn = (case map_of ns (fst kn) of None \<Rightarrow> AList.update (fst kn) (snd kn) ns
     | Some current \<Rightarrow> AList.update (fst kn) (current\<lparr> n_allocated := n_allocated (snd kn) \<rparr>) ns)"

definition extend_children :: "(scope_id, budget_node) dict \<Rightarrow> scope_id \<times> scope_id list \<Rightarrow> (scope_id, budget_node) dict" where
  "extend_children ns ka = AList.map_entry (fst ka) (\<lambda>n. n\<lparr> n_child_ids := n_child_ids n @ snd ka \<rparr>) ns"

definition merged :: "overlay \<Rightarrow> chain_state" where
  "merged v = (let base = v_base v in base\<lparr>
     s_balances := dict_update (s_balances base) (v_balances v),
     s_totals := v_totals v, s_head := v_head v, s_length := v_length v,
     s_saw_v1 := v_saw_v1 v, s_saw_v2 := v_saw_v2 v, s_seal := v_seal v,
     s_legacy := v_legacy v, s_legacy_applied := v_legacy_applied v, s_saw_v3 := v_saw_v3 v,
     s_last_timestamp := v_last_timestamp v, s_last_checkpoint := v_last_checkpoint v,
     s_frontier := v_frontier v,
     s_spend_refunds := (case v_refunds v of None \<Rightarrow> dict_update (s_spend_refunds base) (v_spend_refunds v)
       | Some _ \<Rightarrow> s_spend_refunds base),
     s_holds := dict_update (filter (\<lambda>(h, e). h \<notin> v_closed v) (s_holds base)) (v_opened v),
     s_ambiguous := s_ambiguous base \<union> v_ambiguous v,
     s_nodes := foldl extend_children (foldl merge_node (s_nodes base) (v_nodes v)) (v_children v),
     s_roots := s_roots base @ v_roots v,
     s_tripped := (\<lambda>k. case v_tripped v k of None \<Rightarrow> s_tripped base k | Some t \<Rightarrow> t),
     s_spent := dict_update (s_spent base) (v_spent v),
     s_refunded := dict_update (s_refunded base) (v_refunded v),
     s_hold_counts := (\<lambda>k. case v_counts v k of None \<Rightarrow> s_hold_counts base k
       | Some n \<Rightarrow> if n = 0 then None else Some n) \<rparr>)"

section \<open>Replay\<close>

definition replay_step :: "overlay \<times> uuid set option \<Rightarrow> ledger_entry \<Rightarrow> (overlay \<times> uuid set option) res" where
  "replay_step vr e = apply_entry (fst vr) e True (snd vr) False"

text \<open>\<open>_spend_index\<close>: a later spend with the id of an earlier one takes its place.\<close>

definition spend_index :: "ledger_entry list \<Rightarrow> uuid \<Rightarrow> ledger_entry option" where
  "spend_index es r = map_of (rev (map (\<lambda>e. (entry_id e, e)) (filter (\<lambda>e. entry_type e = SPEND) es))) r"

definition replay :: "ledger_entry list \<Rightarrow> control_event list \<Rightarrow> bool
    \<Rightarrow> (uuid \<Rightarrow> ledger_entry option) option \<Rightarrow> (uuid \<Rightarrow> nat \<Rightarrow> decimal) option
    \<Rightarrow> unit_of_account \<Rightarrow> chain_state res" where
  "replay es legacy fin resolve refunds u =
     (let resolver = (case resolve of None \<Rightarrow> Some (spend_index es) | Some f \<Rightarrow> Some f) in
      rbind (rfold replay_step (new_overlay (empty_chain u legacy) resolver refunds, Some {}) es) (\<lambda>(v, _).
      rbind (if fin then finish v else end_transaction v) (\<lambda>v. Inr (merged v))))"

end
