(* ===== verification/Reference.thy ===== *)
theory Reference
  imports Overlay
begin

text \<open>
  What the rule engine means: the same rules on a state that is updated in place. A reference
  state is a chain state with what the engine remembers of the current transaction. \<open>ref_apply\<close>
  is the reference for \<open>_Overlay.apply\<close>; \<open>Refinement\<close> proves that the staged view, once merged, is
  always the state the reference reaches, and that both refuse the same entries for the same
  reasons.
\<close>

record ref_state = chain_state +
  r_txn :: "uuid option"
  r_settleable :: "uuid set"
  r_net :: decimal
  r_resolve :: "(uuid \<Rightarrow> ledger_entry option) option"

definition ref_check_version :: "ref_state \<Rightarrow> ledger_entry \<Rightarrow> ref_state res" where
  "ref_check_version r e =
     (if version e = AUDIT_V1 then
        if s_saw_v2 r then integrity' ''an AGOV1 entry after newer entries''
        else if ref e \<noteq> None then integrity' ''an AGOV1 entry carrying a hold reference''
        else if zero_value_type (entry_type e) then integrity' ''a type AGOV1 did not have''
        else Inr (r\<lparr> s_saw_v1 := True \<rparr>)
      else if s_saw_v1 r \<and> \<not> s_saw_v2 r \<and> entry_type e \<noteq> SEAL then
        integrity' ''the first entry written after pre-0.1.2 history is not the migration seal''
      else if version e = AUDIT_V3 then Inr (r\<lparr> s_saw_v3 := True, s_saw_v2 := True \<rparr>)
      else if s_saw_v3 r then integrity' ''an AGOV2 entry after AGOV3 entries''
      else Inr (r\<lparr> s_saw_v2 := True \<rparr>))"

definition ref_check_v3 :: "ref_state \<Rightarrow> ledger_entry \<Rightarrow> unit res" where
  "ref_check_v3 r e =
     (if check_text (scope_id e) MAX_ID_BYTES True \<noteq> None then integrity ''scope id'' (scope_id e)
      else if (\<exists>c \<in> set_option (counterparty_id e). check_text c MAX_ID_BYTES True \<noteq> None)
        then integrity ''counterparty id'' (scope_id e)
      else if check_text (memo e) MAX_MEMO_BYTES False \<noteq> None then integrity ''memo'' (scope_id e)
      else case s_last_timestamp r of None \<Rightarrow> Inr ()
        | Some t \<Rightarrow> if timestamp e < t then integrity ''AGOV3 time never runs backwards'' (scope_id e)
                   else Inr ())"

definition ref_check_checkpoint :: "ref_state \<Rightarrow> ledger_entry \<Rightarrow> ref_state res" where
  "ref_check_checkpoint r e = (case checkpoint_match (memo e) of
       None \<Rightarrow> integrity' ''a malformed checkpoint''
     | Some (n, digest) \<Rightarrow> rbind (int_of_digits n) (\<lambda>q.
         if sequence e \<le> q then integrity' ''which is not before it''
         else case s_last_checkpoint r of
             None \<Rightarrow> Inr (r\<lparr> s_last_checkpoint := Some (q, digest) \<rparr>)
           | Some (p, _) \<Rightarrow> if q \<le> p then integrity' ''which is not after the previous checkpoint''
               else Inr (r\<lparr> s_last_checkpoint := Some (q, digest) \<rparr>)))"

definition ref_check_shape :: "ref_state \<Rightarrow> ledger_entry \<Rightarrow> ref_state res" where
  "ref_check_shape r e = (let kind = entry_type e in
     if direction e \<notin> set (legal_directions kind) then integrity ''illegal direction'' (scope_id e)
     else rbind (if version e = AUDIT_V3 then ref_check_v3 r e
                 else if kind = CHECKPOINT then integrity' ''checkpoints are AGOV3 only''
                 else Inr ()) (\<lambda>_.
       if \<not> zero_value_type kind then
         if dec_le (amount e) ZERO then integrity ''amount must be positive'' (scope_id e)
         else rbind (counted (amount e) (s_unit r)) (\<lambda>c.
           if \<not> c then integrity ''finer than this ledger's unit'' (scope_id e) else Inr r)
       else if \<not> dec_eq (amount e) ZERO then integrity ''moves no money'' (scope_id e)
       else if \<not> scopeless_type kind then
         if scope_id e = [] then integrity' ''needs a scope'' else Inr r
       else if scope_id e \<noteq> [] then integrity' ''belongs to no scope''
       else if kind = CHECKPOINT then ref_check_checkpoint r e
       else if s_seal r \<noteq> None then integrity' ''a second migration seal''
       else if \<not> s_saw_v1 r then integrity' ''seals pre-0.1.2 history this ledger does not have''
       else Inr r))"

definition ref_end_transaction :: "ref_state \<Rightarrow> ref_state res" where
  "ref_end_transaction r = (if \<not> dec_eq (r_net r) ZERO then integrity' ''does not balance''
     else Inr (r\<lparr> r_txn := None, r_settleable := {} \<rparr>))"

definition ref_begin_transaction :: "ref_state \<Rightarrow> ledger_entry \<Rightarrow> ref_state res" where
  "ref_begin_transaction r e =
     (if r_txn r = Some (transaction_id e) then Inr r
      else rbind (if r_txn r \<noteq> None then ref_end_transaction r else Inr r) (\<lambda>r.
        Inr (r\<lparr> r_txn := Some (transaction_id e) \<rparr>)))"

definition count_change :: "(scope_id \<rightharpoonup> int) \<Rightarrow> scope_id \<Rightarrow> int \<Rightarrow> (scope_id \<rightharpoonup> int)" where
  "count_change m k d = (let n = (case m k of None \<Rightarrow> 0 | Some n \<Rightarrow> n) + d in
     m(k := if n = 0 then None else Some n))"

definition ref_open :: "ref_state \<Rightarrow> ledger_entry \<Rightarrow> ref_state" where
  "ref_open r e = r\<lparr> s_holds := AList.update (entry_id e) e (s_holds r),
     s_hold_counts := count_change (s_hold_counts r) (scope_id e) 1 \<rparr>"

definition ref_close :: "ref_state \<Rightarrow> uuid \<Rightarrow> ledger_entry \<Rightarrow> ref_state" where
  "ref_close r h e = r\<lparr> s_holds := AList.delete h (s_holds r),
     s_hold_counts := count_change (s_hold_counts r) (scope_id e) (- 1) \<rparr>"

definition ref_release_named :: "ref_state \<Rightarrow> ledger_entry \<Rightarrow> uuid set option \<Rightarrow> ref_state releasing" where
  "ref_release_named r e released = (case ref e of
       None \<Rightarrow> integrity ''releases a hold without naming it'' (scope_id e)
     | Some h \<Rightarrow> (case map_of (s_holds r) h of
         None \<Rightarrow> if (\<exists>rs \<in> set_option released. h \<in> rs)
           then integrity ''releases a hold a second time'' (scope_id e)
           else integrity ''which is not an open hold'' (scope_id e)
       | Some hold \<Rightarrow>
           if scope_id hold \<noteq> scope_id e then integrity ''releases a hold of another scope'' (scope_id e)
           else if \<not> dec_eq (amount hold) (amount e) then integrity ''releases another amount'' (scope_id e)
           else Inr ((ref_close r h hold)\<lparr> r_settleable := insert h (r_settleable r) \<rparr>,
                     map_option (insert h) released)))"

definition ref_release_unnamed :: "ref_state \<Rightarrow> ledger_entry \<Rightarrow> ref_state res" where
  "ref_release_unnamed r e = (case List.find (\<lambda>(h, hold). hold_key hold = hold_key e) (s_holds r) of
       Some (h, hold) \<Rightarrow> Inr ((ref_close r h hold)\<lparr> s_ambiguous := insert (hold_key e) (s_ambiguous r) \<rparr>)
     | None \<Rightarrow> integrity ''the same funds were released twice'' (scope_id e))"

definition ref_reverse_named :: "ref_state \<Rightarrow> ledger_entry \<Rightarrow> uuid \<Rightarrow> ref_state res" where
  "ref_reverse_named r e k = (case (case r_resolve r of None \<Rightarrow> None | Some f \<Rightarrow> f k) of
       None \<Rightarrow> integrity ''not a spend this ledger holds'' (scope_id e)
     | Some spend \<Rightarrow>
         if entry_type spend \<noteq> SPEND then integrity ''not a spend this ledger holds'' (scope_id e)
         else if scope_id spend \<noteq> scope_id e then integrity ''reverses a spend of another scope'' (scope_id e)
         else rbind (ctx_add (chain_refunded_of_spend r k) (amount e)) (\<lambda>refunded.
           if dec_lt (amount spend) refunded then integrity ''more than it spent'' (scope_id e)
           else Inr (r\<lparr> s_spend_refunds := AList.update k refunded (s_spend_refunds r) \<rparr>)))"

definition ref_check_holds :: "ref_state \<Rightarrow> ledger_entry \<Rightarrow> uuid set option \<Rightarrow> ref_state releasing" where
  "ref_check_holds r e released = (let kind = entry_type e in
     if ref e \<noteq> None \<and> \<not> (if version e = AUDIT_V3 then v3_referencing_type kind else referencing_type kind)
     then integrity ''names no hold'' (scope_id e)
     else if kind = HOLD then Inr (ref_open r e, released)
     else if kind = HOLD_VOID then
       if version e = AUDIT_V1 then rbind (ref_release_unnamed r e) (\<lambda>r. Inr (r, released))
       else ref_release_named r e released
     else case ref e of None \<Rightarrow> Inr (r, released)
       | Some k \<Rightarrow>
           if kind = SPEND then
             if k \<notin> r_settleable r then integrity ''settles a hold its transaction did not release'' (scope_id e)
             else Inr (r, released)
           else if kind = REVERSAL then rbind (ref_reverse_named r e k) (\<lambda>r. Inr (r, released))
           else Inr (r, released))"

definition ref_check_flows :: "ref_state \<Rightarrow> ledger_entry \<Rightarrow> bool \<Rightarrow> ref_state res" where
  "ref_check_flows r e writing = (let scope = scope_id e in
     if entry_type e = SPEND then
       rbind (ctx_add (chain_spent_by r scope) (amount e)) (\<lambda>x. Inr (r\<lparr> s_spent := AList.update scope x (s_spent r) \<rparr>))
     else if entry_type e = REVERSAL then
       rbind (ctx_add (chain_refunded_to r scope) (amount e)) (\<lambda>refunded.
         if (writing \<or> version e = AUDIT_V3) \<and> dec_lt (chain_spent_by r scope) refunded
         then integrity ''more than it ever spent'' scope
         else Inr (r\<lparr> s_refunded := AList.update scope refunded (s_refunded r) \<rparr>))
     else Inr r)"

definition ref_require :: "ref_state \<Rightarrow> scope_id \<Rightarrow> budget_node res" where
  "ref_require r k = (case map_of (s_nodes r) k of Some n \<Rightarrow> Inr n
     | None \<Rightarrow> integrity ''names a scope the chain never created'' k)"

definition ref_control :: "ref_state \<Rightarrow> ustr \<Rightarrow> scope_id \<Rightarrow> instant \<Rightarrow> ustr \<Rightarrow> ref_state res" where
  "ref_control r event_type k t reason = (case map_of (s_nodes r) k of
       None \<Rightarrow> integrity' ''control event references unregistered scope''
     | Some _ \<Rightarrow>
         if event_type = entry_type_value CIRCUIT_TRIPPED then
           Inr (r\<lparr> s_tripped := (s_tripped r)(k \<mapsto> (t, reason)) \<rparr>)
         else if event_type = entry_type_value CIRCUIT_RESET then
           Inr (r\<lparr> s_tripped := (s_tripped r)(k := None) \<rparr>)
         else Inr r)"

definition ref_apply_control :: "ref_state \<Rightarrow> control_event \<Rightarrow> ref_state res" where
  "ref_apply_control r c = ref_control r (c_event_type c) (c_scope_id c) (c_timestamp c) (c_reason c)"

definition ref_apply_legacy :: "ref_state \<Rightarrow> ref_state res" where
  "ref_apply_legacy r = rfold ref_apply_control (r\<lparr> s_legacy_applied := True \<rparr>) (s_legacy r)"

definition ref_check_seal :: "ref_state \<Rightarrow> ledger_entry \<Rightarrow> unit res" where
  "ref_check_seal r e = (case seal_match (memo e) of
       None \<Rightarrow> integrity' ''a malformed migration seal''
     | Some (n, digest) \<Rightarrow> rbind (int_of_digits n) (\<lambda>count.
         if count \<noteq> length (s_legacy r) \<or> digest \<noteq> legacy_digest (s_legacy r)
         then integrity' ''the pre-0.1.2 control events no longer match the seal'' else Inr ()))"

definition ref_fund_scope :: "ref_state \<Rightarrow> ledger_entry \<Rightarrow> ref_state res" where
  "ref_fund_scope r e = (let scope = scope_id e in
     case map_of (s_nodes r) scope of
       None \<Rightarrow> Inr (r\<lparr> s_nodes := AList.update scope \<lparr> n_scope_id = scope, n_parent_id = None, n_depth = 0,
           n_allocated = amount e, n_child_ids = [], n_created_at = timestamp e \<rparr> (s_nodes r),
         s_roots := s_roots r @ [scope] \<rparr>)
     | Some n \<Rightarrow>
         if n_parent_id n \<noteq> None then integrity ''funds a scope that is not a root'' scope
         else rbind (ctx_add (n_allocated n) (amount e)) (\<lambda>a.
           Inr (r\<lparr> s_nodes := AList.update scope (n\<lparr> n_allocated := a \<rparr>) (s_nodes r) \<rparr>)))"

definition ref_allocate :: "ref_state \<Rightarrow> ledger_entry \<Rightarrow> ref_state res" where
  "ref_allocate r e = (let scope = scope_id e in
     if direction e = DEBIT then rbind (ref_require r scope) (\<lambda>_. Inr r)
     else if map_of (s_nodes r) scope \<noteq> None then integrity ''allocates a second time'' scope
     else case map_of (s_nodes r) (case counterparty_id e of None \<Rightarrow> [] | Some p \<Rightarrow> p) of
         None \<Rightarrow> integrity ''delegates from a scope the chain never created'' scope
       | Some p \<Rightarrow> Inr (r\<lparr> s_nodes := extend_children (AList.update scope \<lparr> n_scope_id = scope,
             n_parent_id = Some (n_scope_id p), n_depth = n_depth p + 1, n_allocated = amount e,
             n_child_ids = [], n_created_at = timestamp e \<rparr> (s_nodes r)) (n_scope_id p, [scope]) \<rparr>))"

definition ref_release_between :: "ref_state \<Rightarrow> ledger_entry \<Rightarrow> unit res" where
  "ref_release_between r e = (let scope = scope_id e; other = (case counterparty_id e of None \<Rightarrow> [] | Some p \<Rightarrow> p) in
     rbind (ref_require r scope) (\<lambda>n.
       let child = (if direction e = DEBIT then Some n else map_of (s_nodes r) other);
           parent_id = (if direction e = DEBIT then other else scope)
       in case child of None \<Rightarrow> integrity ''are not child and parent'' scope
          | Some c \<Rightarrow> if n_parent_id c \<noteq> Some parent_id then integrity ''are not child and parent'' scope
              else Inr ()))"

definition ref_fold_legacy :: "ref_state \<Rightarrow> ledger_entry \<Rightarrow> ref_state res" where
  "ref_fold_legacy r e =
     (if version e \<noteq> AUDIT_V1 \<and> \<not> s_legacy_applied r then
        rbind (if entry_type e = SEAL then ref_check_seal r e
               else if s_legacy r \<noteq> [] then integrity' ''no migration seal to vouch for them''
               else Inr ()) (\<lambda>_. ref_apply_legacy r)
      else Inr r)"

definition ref_check_governance :: "ref_state \<Rightarrow> ledger_entry \<Rightarrow> ref_state res" where
  "ref_check_governance r e = rbind (ref_fold_legacy r e) (\<lambda>r. let kind = entry_type e in
     if kind = FUNDING then ref_fund_scope r e
     else if kind = ALLOCATION then ref_allocate r e
     else if kind = RELEASE then rbind (ref_release_between r e) (\<lambda>_. Inr r)
     else if control_type kind then ref_control r (entry_type_value kind) (scope_id e) (timestamp e) (memo e)
     else if \<not> scopeless_type kind then rbind (ref_require r (scope_id e)) (\<lambda>_. Inr r)
     else Inr r)"

definition ref_check_link :: "ref_state \<Rightarrow> ledger_entry \<Rightarrow> bool \<Rightarrow> unit res" where
  "ref_check_link r e check_hash =
     (if sequence e \<noteq> s_length r + 1 then integrity ''sequence gap'' (scope_id e)
      else if prev_hash e \<noteq> s_head r then integrity ''broken chain link'' (scope_id e)
      else if \<not> known_version (version e) then integrity ''unknown audit version'' (scope_id e)
      else if check_hash then check_entry_hash e else Inr ())"

definition ref_move_balance :: "ref_state \<Rightarrow> ledger_entry \<Rightarrow> ref_state res" where
  "ref_move_balance r e = rbind (ctx_add (chain_balance r (scope_id e)) (signed_amount e)) (\<lambda>expected.
     if \<not> dec_eq (balance_after e) expected then integrity ''the chain implies another balance'' (scope_id e)
     else let r = (if zero_value_type (entry_type e) then r
                   else r\<lparr> s_balances := AList.update (scope_id e) expected (s_balances r) \<rparr>) in
       if balanced_type (entry_type e) then
         rbind (ctx_add (r_net r) (signed_amount e)) (\<lambda>n. Inr (r\<lparr> r_net := n \<rparr>))
       else Inr r)"

definition ref_advance :: "ref_state \<Rightarrow> ledger_entry \<Rightarrow> ref_state res" where
  "ref_advance r e = rbind (apply_totals (s_totals r) e) (\<lambda>t.
     rbind (frontier_append (s_frontier r) (s_length r) (entry_hash e)) (\<lambda>f.
       Inr (r\<lparr> s_totals := t, s_seal := (if entry_type e = SEAL then Some e else s_seal r),
               s_frontier := f, s_head := entry_hash e, s_length := s_length r + 1,
               s_last_timestamp := Some (timestamp e) \<rparr>)))"

definition ref_apply :: "ref_state \<Rightarrow> ledger_entry \<Rightarrow> bool \<Rightarrow> uuid set option \<Rightarrow> bool \<Rightarrow> ref_state releasing" where
  "ref_apply r e check_hash released writing =
     rbind (ref_check_link r e check_hash) (\<lambda>_.
     rbind (ref_check_version r e) (\<lambda>r.
     rbind (ref_check_shape r e) (\<lambda>r.
     rbind (ref_begin_transaction r e) (\<lambda>r.
     rbind (ref_move_balance r e) (\<lambda>r.
     rbind (ref_check_holds r e released) (\<lambda>(r, released).
     rbind (ref_check_flows r e writing) (\<lambda>r.
     rbind (ref_check_governance r e) (\<lambda>r.
     rbind (ref_advance r e) (\<lambda>r. Inr (r, released))))))))))"

definition ref_start :: "chain_state \<Rightarrow> (uuid \<Rightarrow> ledger_entry option) option \<Rightarrow> ref_state" where
  "ref_start s resolve = chain_state.extend s \<lparr> r_txn = None, r_settleable = {}, r_net = ZERO, r_resolve = resolve \<rparr>"

definition ref_chain :: "ref_state \<Rightarrow> chain_state" where
  "ref_chain r = chain_state.truncate r"

end
