(* ===== verification/Refinement.thy ===== *)
theory Refinement
  imports Reference
begin

text \<open>
  The copy-on-write view implements the in-place reference. \<open>view_abs\<close> is what a view stands for
  (its merge, with the transaction's bookkeeping); \<open>view_inv\<close> says the staged dictionaries are
  well formed. Each rule of the view is related to its reference by \<open>rel_sum\<close>: the same error, or
  related states. The main result is that a replay is a reference replay.
\<close>

section \<open>Merging staged nodes\<close>

lemma map_of_merge_node: "map_of (merge_node ns (k, n)) = (map_of ns)(k \<mapsto> (case map_of ns k of None \<Rightarrow> n
   | Some c \<Rightarrow> c\<lparr> n_allocated := n_allocated n \<rparr>))"
  by (auto simp: merge_node_def split: option.splits)

lemma keys_merge_node: "map fst (merge_node ns (k, n)) = (if k \<in> fst ` set ns then map fst ns else map fst ns @ [k])"
  by (auto simp: merge_node_def keys_list_update split: option.splits)

lemma set_keys_merge_node: "fst ` set (merge_node ns (k, n)) = insert k (fst ` set ns)"
  by (auto simp: merge_node_def keys_update split: option.splits)

lemma keys_merge_nodes:
  "dict_wf st \<Longrightarrow> map fst (foldl merge_node ns st) = map fst ns @ filter (\<lambda>k. k \<notin> fst ` set ns) (map fst st)"
proof (induction st arbitrary: ns)
  case Nil
  then show ?case by simp
next
  case (Cons p st)
  obtain k n where p: "p = (k, n)" by (cases p)
  have "filter (\<lambda>x. x \<notin> insert k (fst ` set ns)) (map fst st) = filter (\<lambda>x. x \<notin> fst ` set ns) (map fst st)"
    using Cons.prems p by (intro filter_cong) auto
  with Cons p show ?case by (simp add: set_keys_merge_node keys_merge_node)
qed

lemma map_of_merge_nodes:
  "dict_wf st \<Longrightarrow> map_of (foldl merge_node ns st) k = (case map_of st k of None \<Rightarrow> map_of ns k
     | Some n \<Rightarrow> (case map_of ns k of None \<Rightarrow> Some n | Some c \<Rightarrow> Some (c\<lparr> n_allocated := n_allocated n \<rparr>)))"
proof (induction st arbitrary: ns)
  case Nil
  then show ?case by simp
next
  case (Cons p st)
  obtain j n where p: "p = (j, n)" by (cases p)
  from Cons.prems p have "map_of st j = None" by (simp add: map_of_eq_None_iff)
  with Cons p show ?case by (auto simp: map_of_merge_node split: option.splits)
qed

lemma keys_extend_children: "map fst (extend_children ns ka) = map fst ns"
  by (induction ns) (auto simp: extend_children_def)

lemma map_of_extend_children:
  "map_of (extend_children ns (k, cs)) j = (if j = k then map_option (\<lambda>n. n\<lparr> n_child_ids := n_child_ids n @ cs \<rparr>) (map_of ns j)
     else map_of ns j)"
  by (induction ns) (auto simp: extend_children_def)

lemma keys_extend_all: "map fst (foldl extend_children ns ch) = map fst ns"
  by (induction ch arbitrary: ns) (simp_all add: keys_extend_children)

lemma map_of_extend_all:
  "dict_wf ch \<Longrightarrow> map_of (foldl extend_children ns ch) k =
     map_option (\<lambda>n. n\<lparr> n_child_ids := n_child_ids n @ dict_get ch k [] \<rparr>) (map_of ns k)"
proof (induction ch arbitrary: ns)
  case Nil
  then show ?case by (cases "map_of ns k") (simp_all add: dict_get_def)
next
  case (Cons p ch)
  obtain j cs where p: "p = (j, cs)" by (cases p)
  from Cons.prems p have "map_of ch j = None" by (simp add: map_of_eq_None_iff)
  with Cons p show ?case
    by (cases "map_of ns k") (auto simp: map_of_extend_children dict_get_def split: option.splits)
qed

definition merged_nodes :: "(scope_id, budget_node) dict \<Rightarrow> (scope_id, budget_node) dict
    \<Rightarrow> (scope_id, scope_id list) dict \<Rightarrow> (scope_id, budget_node) dict" where
  "merged_nodes ns st ch = foldl extend_children (foldl merge_node ns st) ch"

definition nodes_inv :: "(scope_id, budget_node) dict \<Rightarrow> (scope_id, budget_node) dict
    \<Rightarrow> (scope_id, scope_id list) dict \<Rightarrow> bool" where
  "nodes_inv ns st ch \<longleftrightarrow> dict_wf ns \<and> dict_wf st \<and> dict_wf ch
     \<and> (\<forall>k n. map_of ns k = Some n \<longrightarrow> n_scope_id n = k)
     \<and> (\<forall>k n. map_of st k = Some n \<longrightarrow> n_scope_id n = k \<and> (case map_of ns k of None \<Rightarrow> n_child_ids n = []
          | Some c \<Rightarrow> \<exists>a. n = c\<lparr> n_allocated := a \<rparr>))
     \<and> fst ` set ch \<subseteq> fst ` set ns \<union> fst ` set st"

lemma nodes_inv_wf: "nodes_inv ns st ch \<Longrightarrow> dict_wf ns" "nodes_inv ns st ch \<Longrightarrow> dict_wf st" "nodes_inv ns st ch \<Longrightarrow> dict_wf ch"
  by (simp_all add: nodes_inv_def)

lemma nodes_inv_st:
  "nodes_inv ns st ch \<Longrightarrow> map_of st k = Some n \<Longrightarrow> n_scope_id n = k"
  "nodes_inv ns st ch \<Longrightarrow> map_of st k = Some n \<Longrightarrow>
     (case map_of ns k of None \<Rightarrow> n_child_ids n = [] | Some c \<Rightarrow> \<exists>a. n = c\<lparr> n_allocated := a \<rparr>)"
  "nodes_inv ns st ch \<Longrightarrow> map_of ns k = Some n \<Longrightarrow> n_scope_id n = k"
  unfolding nodes_inv_def by blast+

lemma nodes_inv_staged:
  "nodes_inv ns st ch \<Longrightarrow> map_of st k = Some n \<Longrightarrow> map_of ns k = Some c \<Longrightarrow> \<exists>a. n = c\<lparr> n_allocated := a \<rparr>"
  by (drule (1) nodes_inv_st(2)) simp

lemma keys_merged_nodes:
  "dict_wf st \<Longrightarrow> map fst (merged_nodes ns st ch) = map fst ns @ filter (\<lambda>k. k \<notin> fst ` set ns) (map fst st)"
  by (simp add: merged_nodes_def keys_extend_all keys_merge_nodes)

lemma dict_wf_merged_nodes: "dict_wf ns \<Longrightarrow> dict_wf st \<Longrightarrow> dict_wf (merged_nodes ns st ch)"
  by (auto simp: keys_merged_nodes)

lemma map_of_merged_nodes:
  assumes "nodes_inv ns st ch"
  shows "map_of (merged_nodes ns st ch) k = map_option (\<lambda>n. n\<lparr> n_child_ids := n_child_ids n @ dict_get ch k [] \<rparr>)
     (case map_of st k of Some n \<Rightarrow> Some n | None \<Rightarrow> map_of ns k)"
proof (cases "map_of st k")
  case None
  with nodes_inv_wf [OF assms] show ?thesis
    by (simp add: merged_nodes_def map_of_extend_all map_of_merge_nodes)
next
  case (Some n)
  show ?thesis
  proof (cases "map_of ns k")
    case None
    with Some nodes_inv_wf [OF assms] show ?thesis
      by (simp add: merged_nodes_def map_of_extend_all map_of_merge_nodes)
  next
    case c: (Some c)
    obtain a where "n = c\<lparr> n_allocated := a \<rparr>" using nodes_inv_staged [OF assms Some c] by blast
    with Some c nodes_inv_wf [OF assms] show ?thesis
      by (simp add: merged_nodes_def map_of_extend_all map_of_merge_nodes)
  qed
qed

lemma merged_nodes_new:
  assumes inv: "nodes_inv ns st ch" and k: "map_of st k = None" "map_of ns k = None"
    and n: "n_child_ids n = []" "n_scope_id n = k"
  shows merged_nodes_new_eq: "merged_nodes ns (AList.update k n st) ch = AList.update k n (merged_nodes ns st ch)"
    and merged_nodes_new_inv: "nodes_inv ns (AList.update k n st) ch"
proof -
  note wf = nodes_inv_wf [OF inv]
  show inv': "nodes_inv ns (AList.update k n st) ch"
    unfolding nodes_inv_def
  proof (intro conjI allI impI)
    fix j m assume "map_of (AList.update k n st) j = Some m"
    then show "n_scope_id m = j" "case map_of ns j of None \<Rightarrow> n_child_ids m = [] | Some c \<Rightarrow> \<exists>a. m = c\<lparr> n_allocated := a \<rparr>"
      using nodes_inv_st [OF inv] k n by (cases "j = k"; auto)+
  next
    show "fst ` set ch \<subseteq> fst ` set ns \<union> fst ` set (AList.update k n st)"
      using inv unfolding nodes_inv_def keys_update by blast
  qed (use wf inv in \<open>auto simp: nodes_inv_def\<close>)
  have "k \<notin> fst ` set ch" using inv k unfolding nodes_inv_def map_of_eq_None_iff by blast
  then have ch: "dict_get ch k [] = []" by (simp add: dict_get_def map_of_eq_None_iff [THEN iffD2])
  show "merged_nodes ns (AList.update k n st) ch = AList.update k n (merged_nodes ns st ch)"
  proof (rule dict_ext)
    show "dict_wf (merged_nodes ns (AList.update k n st) ch)"
      using wf by (auto intro: dict_wf_merged_nodes)
    show "map fst (merged_nodes ns (AList.update k n st) ch) = map fst (AList.update k n (merged_nodes ns st ch))"
      using wf k by (auto simp: keys_merged_nodes keys_list_update map_of_eq_None_iff simp flip: set_map)
    show "map_of (merged_nodes ns (AList.update k n st) ch) = map_of (AList.update k n (merged_nodes ns st ch))"
    proof
      fix j
      show "map_of (merged_nodes ns (AList.update k n st) ch) j = map_of (AList.update k n (merged_nodes ns st ch)) j"
        using ch n by (cases "j = k") (simp_all add: map_of_merged_nodes [OF inv] map_of_merged_nodes [OF inv'])
    qed
  qed
qed


lemma merged_nodes_alloc:
  assumes inv: "nodes_inv ns st ch"
    and w: "(case map_of st k of Some n \<Rightarrow> Some n | None \<Rightarrow> map_of ns k) = Some w"
  shows merged_nodes_alloc_eq: "merged_nodes ns (AList.update k (w\<lparr> n_allocated := a \<rparr>) st) ch
        = AList.update k (w\<lparr> n_allocated := a, n_child_ids := n_child_ids w @ dict_get ch k [] \<rparr>) (merged_nodes ns st ch)"
    and merged_nodes_alloc_inv: "nodes_inv ns (AList.update k (w\<lparr> n_allocated := a \<rparr>) st) ch"
proof -
  note wf = nodes_inv_wf [OF inv]
  let ?st = "AList.update k (w\<lparr> n_allocated := a \<rparr>) st"
  have w': "n_scope_id w = k" "case map_of ns k of None \<Rightarrow> n_child_ids w = [] | Some c \<Rightarrow> \<exists>a. w = c\<lparr> n_allocated := a \<rparr>"
  proof -
    show "n_scope_id w = k" using nodes_inv_st [OF inv] w by (cases "map_of st k") auto
    show "case map_of ns k of None \<Rightarrow> n_child_ids w = [] | Some c \<Rightarrow> \<exists>a. w = c\<lparr> n_allocated := a \<rparr>"
    proof (cases "map_of st k")
      case None
      then have "map_of ns k = Some w" using w by simp
      moreover have "\<exists>a. w = w\<lparr> n_allocated := a \<rparr>" by (rule exI [of _ "n_allocated w"]) simp
      ultimately show ?thesis by simp
    next
      case (Some n)
      then have "map_of st k = Some w" using w by simp
      then show ?thesis by (rule nodes_inv_st(2) [OF inv])
    qed
  qed
  show inv': "nodes_inv ns ?st ch"
    unfolding nodes_inv_def
  proof (intro conjI allI impI)
    fix j m assume m: "map_of ?st j = Some m"
    show "n_scope_id m = j"
      using m nodes_inv_st(1) [OF inv] w' by (cases "j = k") auto
    show "case map_of ns j of None \<Rightarrow> n_child_ids m = [] | Some c \<Rightarrow> \<exists>a. m = c\<lparr> n_allocated := a \<rparr>"
    proof (cases "j = k")
      case True
      with m w'(2) show ?thesis by (cases "map_of ns k") auto
    next
      case False
      with m show ?thesis using nodes_inv_st(2) [OF inv] by simp
    qed
  next
    show "fst ` set ch \<subseteq> fst ` set ns \<union> fst ` set ?st"
      using inv unfolding nodes_inv_def keys_update by blast
  qed (use wf inv in \<open>auto simp: nodes_inv_def\<close>)
  show "merged_nodes ns ?st ch
        = AList.update k (w\<lparr> n_allocated := a, n_child_ids := n_child_ids w @ dict_get ch k [] \<rparr>) (merged_nodes ns st ch)"
  proof (rule dict_ext)
    show "dict_wf (merged_nodes ns ?st ch)" using wf by (auto intro: dict_wf_merged_nodes)
    have k: "k \<in> fst ` set ns \<or> k \<in> fst ` set st"
      using w by (auto split: option.splits dest!: map_of_SomeD simp: rev_image_eqI)
    then show "map fst (merged_nodes ns ?st ch) = map fst (AList.update k (w\<lparr> n_allocated := a, n_child_ids := n_child_ids w @ dict_get ch k [] \<rparr>) (merged_nodes ns st ch))"
      using wf by (auto simp: keys_merged_nodes keys_list_update simp flip: set_map)
    show "map_of (merged_nodes ns ?st ch) = map_of (AList.update k (w\<lparr> n_allocated := a, n_child_ids := n_child_ids w @ dict_get ch k [] \<rparr>) (merged_nodes ns st ch))"
    proof
      fix j
      show "map_of (merged_nodes ns ?st ch) j = map_of (AList.update k (w\<lparr> n_allocated := a, n_child_ids := n_child_ids w @ dict_get ch k [] \<rparr>) (merged_nodes ns st ch)) j"
        by (cases "j = k") (simp_all add: map_of_merged_nodes [OF inv] map_of_merged_nodes [OF inv'])
    qed
  qed
qed

lemma merged_nodes_child:
  assumes inv: "nodes_inv ns st ch" and p: "p \<in> fst ` set ns \<union> fst ` set st"
  shows merged_nodes_child_eq: "merged_nodes ns st (AList.update p (dict_get ch p [] @ [c]) ch)
        = extend_children (merged_nodes ns st ch) (p, [c])"
    and merged_nodes_child_inv: "nodes_inv ns st (AList.update p (dict_get ch p [] @ [c]) ch)"
proof -
  note wf = nodes_inv_wf [OF inv]
  let ?ch = "AList.update p (dict_get ch p [] @ [c]) ch"
  show inv': "nodes_inv ns st ?ch"
    using inv p unfolding nodes_inv_def keys_update by (simp add: distinct_update)
  show "merged_nodes ns st ?ch = extend_children (merged_nodes ns st ch) (p, [c])"
  proof (rule dict_ext)
    show "dict_wf (merged_nodes ns st ?ch)" using wf by (auto intro: dict_wf_merged_nodes)
    show "map fst (merged_nodes ns st ?ch) = map fst (extend_children (merged_nodes ns st ch) (p, [c]))"
      using wf by (simp add: keys_merged_nodes keys_extend_children)
    show "map_of (merged_nodes ns st ?ch) = map_of (extend_children (merged_nodes ns st ch) (p, [c]))"
    proof
      fix j
      show "map_of (merged_nodes ns st ?ch) j = map_of (extend_children (merged_nodes ns st ch) (p, [c])) j"
        by (cases "case map_of st j of Some n \<Rightarrow> Some n | None \<Rightarrow> map_of ns j"; cases "j = p"; hypsubst?)
          (simp_all add: map_of_merged_nodes [OF inv] map_of_merged_nodes [OF inv'] map_of_extend_children)
    qed
  qed
qed


section \<open>Views and what they stand for\<close>

definition view_abs :: "overlay \<Rightarrow> ref_state" where
  "view_abs v = chain_state.extend (merged v) \<lparr> r_txn = v_txn v, r_settleable = v_settleable v,
     r_net = v_net v, r_resolve = v_resolve v \<rparr>"

definition view_inv :: "overlay \<Rightarrow> bool" where
  "view_inv v \<longleftrightarrow> v_refunds v = None \<and> dict_wf (v_balances v) \<and> dict_wf (v_spent v) \<and> dict_wf (v_refunded v)
     \<and> dict_wf (v_spend_refunds v) \<and> dict_wf (v_opened v) \<and> dict_wf (s_holds (v_base v))
     \<and> nodes_inv (s_nodes (v_base v)) (v_nodes v) (v_children v)
     \<and> v_closed v \<subseteq> fst ` set (s_holds (v_base v)) \<and> fst ` set (v_opened v) \<inter> fst ` set (s_holds (v_base v)) = {}"

lemma view_abs_simps:
  "s_balances (view_abs v) = dict_update (s_balances (v_base v)) (v_balances v)"
  "s_totals (view_abs v) = v_totals v" "s_head (view_abs v) = v_head v" "s_length (view_abs v) = v_length v"
  "s_saw_v1 (view_abs v) = v_saw_v1 v" "s_saw_v2 (view_abs v) = v_saw_v2 v" "s_seal (view_abs v) = v_seal v"
  "s_legacy (view_abs v) = v_legacy v" "s_legacy_applied (view_abs v) = v_legacy_applied v"
  "s_saw_v3 (view_abs v) = v_saw_v3 v" "s_last_timestamp (view_abs v) = v_last_timestamp v"
  "s_last_checkpoint (view_abs v) = v_last_checkpoint v" "s_frontier (view_abs v) = v_frontier v"
  "s_unit (view_abs v) = s_unit (v_base v)"
  "s_holds (view_abs v) = dict_update (filter (\<lambda>(h, e). h \<notin> v_closed v) (s_holds (v_base v))) (v_opened v)"
  "s_ambiguous (view_abs v) = s_ambiguous (v_base v) \<union> v_ambiguous v"
  "s_nodes (view_abs v) = merged_nodes (s_nodes (v_base v)) (v_nodes v) (v_children v)"
  "s_roots (view_abs v) = s_roots (v_base v) @ v_roots v"
  "s_spent (view_abs v) = dict_update (s_spent (v_base v)) (v_spent v)"
  "s_refunded (view_abs v) = dict_update (s_refunded (v_base v)) (v_refunded v)"
  "r_txn (view_abs v) = v_txn v" "r_settleable (view_abs v) = v_settleable v" "r_net (view_abs v) = v_net v"
  "r_resolve (view_abs v) = v_resolve v"
  "s_tripped (view_abs v) = (\<lambda>k. case v_tripped v k of None \<Rightarrow> s_tripped (v_base v) k | Some t \<Rightarrow> t)"
  "s_hold_counts (view_abs v) = (\<lambda>k. case v_counts v k of None \<Rightarrow> s_hold_counts (v_base v) k
       | Some n \<Rightarrow> if n = 0 then None else Some n)"
  by (simp_all add: view_abs_def merged_def chain_state.extend_def Let_def merged_nodes_def)

lemma view_abs_spend_refunds:
  "v_refunds v = None \<Longrightarrow> s_spend_refunds (view_abs v) = dict_update (s_spend_refunds (v_base v)) (v_spend_refunds v)"
  by (simp add: view_abs_def merged_def chain_state.extend_def Let_def)

lemma lookup_balance: "view_inv v \<Longrightarrow> balance v k = chain_balance (view_abs v) k"
  by (simp add: balance_def chain_balance_def view_abs_simps dict_get_def map_of_dict_update view_inv_def
      split: option.splits)

lemma lookup_spent: "view_inv v \<Longrightarrow> spent_by v k = chain_spent_by (view_abs v) k"
  by (simp add: spent_by_def chain_spent_by_def view_abs_simps dict_get_def map_of_dict_update view_inv_def
      split: option.splits)

lemma lookup_refunded: "view_inv v \<Longrightarrow> refunded_to v k = chain_refunded_to (view_abs v) k"
  by (simp add: refunded_to_def chain_refunded_to_def view_abs_simps dict_get_def map_of_dict_update view_inv_def
      split: option.splits)

lemma lookup_spend_refunds: "view_inv v \<Longrightarrow> refunded_of_spend v k = chain_refunded_of_spend (view_abs v) k"
  by (simp add: refunded_of_spend_def chain_refunded_of_spend_def view_abs_spend_refunds dict_get_def
      map_of_dict_update view_inv_def split: option.splits)

lemma lookup_count: "holds_open_in v k = chain_holds_open_in (view_abs v) k"
  by (simp add: holds_open_in_def chain_holds_open_in_def view_abs_simps split: option.splits)

lemma lookup_trip: "trip_of v k = chain_trip_of (view_abs v) k"
  by (simp add: trip_of_def chain_trip_of_def view_abs_simps split: option.splits)

lemma lookup_node:
  "view_inv v \<Longrightarrow> map_of (s_nodes (view_abs v)) k
     = map_option (\<lambda>n. n\<lparr> n_child_ids := n_child_ids n @ dict_get (v_children v) k [] \<rparr>) (node v k)"
  by (simp add: view_abs_simps map_of_merged_nodes view_inv_def node_def chain_node_def split: option.split)

lemma lookup_hold: "view_inv v \<Longrightarrow> open_hold v h = map_of (s_holds (view_abs v)) h"
proof -
  assume inv: "view_inv v"
  have "map_of (v_opened v) h = None" if "h \<in> v_closed v"
    using inv that by (auto simp: view_inv_def map_of_eq_None_iff)
  then show ?thesis
    using inv by (auto simp: open_hold_def chain_open_hold_def view_abs_simps map_of_dict_update view_inv_def
        map_of_filter_keys split: option.splits)
qed

lemma holds_disjoint: "view_inv v \<Longrightarrow>
    fst ` set (v_opened v) \<inter> fst ` set (filter (\<lambda>(h, e). h \<notin> v_closed v) (s_holds (v_base v))) = {}"
  unfolding view_inv_def keys_filter by blast

lemma lookup_holds: "view_inv v \<Longrightarrow> iter_holds v = s_holds (view_abs v)"
  using holds_disjoint [of v] by (simp add: iter_holds_def view_abs_simps dict_update_disjoint view_inv_def)

section \<open>Rule by rule\<close>

definition view_rel :: "chain_state \<Rightarrow> overlay \<Rightarrow> ref_state \<Rightarrow> bool" where
  "view_rel b v r \<longleftrightarrow> view_inv v \<and> v_base v = b \<and> r = view_abs v"

abbreviation sim :: "('a \<Rightarrow> 'b \<Rightarrow> bool) \<Rightarrow> 'a res \<Rightarrow> 'b res \<Rightarrow> bool" where
  "sim R \<equiv> rel_sum (=) R"

lemma sim_bind:
  "sim A x y \<Longrightarrow> (\<And>a b. A a b \<Longrightarrow> sim B (f a) (g b)) \<Longrightarrow> sim B (rbind x f) (rbind y g)"
  by (cases x; cases y) auto

lemma sim_bind_eq: "(\<And>a. x = Inr a \<Longrightarrow> sim B (f a) (g a)) \<Longrightarrow> sim B (rbind x f) (rbind x g)"
  by (cases x) auto

lemma sim_if: "(b \<Longrightarrow> sim R x x') \<Longrightarrow> (\<not> b \<Longrightarrow> sim R y y') \<Longrightarrow> sim R (if b then x else y) (if b then x' else y')"
  by simp

text \<open>Scalars and the transaction's bookkeeping pass through; what only the caches see is invisible.\<close>

lemma abs_scalar [ledger_simps]:
  "view_abs (v\<lparr> v_saw_v1 := xsaw_v1 \<rparr>) = (view_abs v)\<lparr> s_saw_v1 := xsaw_v1 \<rparr>"
  "view_abs (v\<lparr> v_saw_v2 := xsaw_v2 \<rparr>) = (view_abs v)\<lparr> s_saw_v2 := xsaw_v2 \<rparr>"
  "view_abs (v\<lparr> v_saw_v3 := xsaw_v3 \<rparr>) = (view_abs v)\<lparr> s_saw_v3 := xsaw_v3 \<rparr>"
  "view_abs (v\<lparr> v_last_checkpoint := xlast_checkpoint \<rparr>) = (view_abs v)\<lparr> s_last_checkpoint := xlast_checkpoint \<rparr>"
  "view_abs (v\<lparr> v_totals := xtotals \<rparr>) = (view_abs v)\<lparr> s_totals := xtotals \<rparr>"
  "view_abs (v\<lparr> v_seal := xseal \<rparr>) = (view_abs v)\<lparr> s_seal := xseal \<rparr>"
  "view_abs (v\<lparr> v_frontier := xfrontier \<rparr>) = (view_abs v)\<lparr> s_frontier := xfrontier \<rparr>"
  "view_abs (v\<lparr> v_head := xhead \<rparr>) = (view_abs v)\<lparr> s_head := xhead \<rparr>"
  "view_abs (v\<lparr> v_length := xlength \<rparr>) = (view_abs v)\<lparr> s_length := xlength \<rparr>"
  "view_abs (v\<lparr> v_last_timestamp := xlast_timestamp \<rparr>) = (view_abs v)\<lparr> s_last_timestamp := xlast_timestamp \<rparr>"
  "view_abs (v\<lparr> v_legacy_applied := xlegacy_applied \<rparr>) = (view_abs v)\<lparr> s_legacy_applied := xlegacy_applied \<rparr>"
  "view_abs (v\<lparr> v_legacy := xlegacy \<rparr>) = (view_abs v)\<lparr> s_legacy := xlegacy \<rparr>"
  "view_abs (v\<lparr> v_txn := xtxn \<rparr>) = (view_abs v)\<lparr> r_txn := xtxn \<rparr>"
  "view_abs (v\<lparr> v_settleable := xsettleable \<rparr>) = (view_abs v)\<lparr> r_settleable := xsettleable \<rparr>"
  "view_abs (v\<lparr> v_net := xnet \<rparr>) = (view_abs v)\<lparr> r_net := xnet \<rparr>"
  "view_abs (v\<lparr> v_row_scopes := w \<rparr>) = view_abs v"
  "view_abs (v\<lparr> v_events := c \<rparr>) = view_abs v"
  by (simp_all add: view_abs_def merged_def chain_state.extend_def Let_def cong: option.case_cong)

lemma inv_scalar [ledger_simps]:
  "view_inv (v\<lparr> v_saw_v1 := xsaw_v1 \<rparr>) = view_inv v"
  "view_inv (v\<lparr> v_saw_v2 := xsaw_v2 \<rparr>) = view_inv v"
  "view_inv (v\<lparr> v_saw_v3 := xsaw_v3 \<rparr>) = view_inv v"
  "view_inv (v\<lparr> v_last_checkpoint := xlast_checkpoint \<rparr>) = view_inv v"
  "view_inv (v\<lparr> v_totals := xtotals \<rparr>) = view_inv v"
  "view_inv (v\<lparr> v_seal := xseal \<rparr>) = view_inv v"
  "view_inv (v\<lparr> v_frontier := xfrontier \<rparr>) = view_inv v"
  "view_inv (v\<lparr> v_head := xhead \<rparr>) = view_inv v"
  "view_inv (v\<lparr> v_length := xlength \<rparr>) = view_inv v"
  "view_inv (v\<lparr> v_last_timestamp := xlast_timestamp \<rparr>) = view_inv v"
  "view_inv (v\<lparr> v_legacy_applied := xlegacy_applied \<rparr>) = view_inv v"
  "view_inv (v\<lparr> v_legacy := xlegacy \<rparr>) = view_inv v"
  "view_inv (v\<lparr> v_txn := xtxn \<rparr>) = view_inv v"
  "view_inv (v\<lparr> v_settleable := xsettleable \<rparr>) = view_inv v"
  "view_inv (v\<lparr> v_net := xnet \<rparr>) = view_inv v"
  "view_inv (v\<lparr> v_row_scopes := xrow_scopes \<rparr>) = view_inv v"
  "view_inv (v\<lparr> v_events := xevents \<rparr>) = view_inv v"
  "view_inv (v\<lparr> v_ambiguous := xambiguous \<rparr>) = view_inv v"
  "view_inv (v\<lparr> v_tripped := xtripped \<rparr>) = view_inv v"
  "view_inv (v\<lparr> v_counts := xcounts \<rparr>) = view_inv v"
  "view_inv (v\<lparr> v_roots := xroots \<rparr>) = view_inv v"
  by (simp_all add: view_inv_def)

lemma abs_staged:
  "dict_wf (v_balances v) \<Longrightarrow> view_abs (v\<lparr> v_balances := AList.update k x (v_balances v) \<rparr>)
     = (view_abs v)\<lparr> s_balances := AList.update k x (s_balances (view_abs v)) \<rparr>"
  "dict_wf (v_spent v) \<Longrightarrow> view_abs (v\<lparr> v_spent := AList.update k x (v_spent v) \<rparr>)
     = (view_abs v)\<lparr> s_spent := AList.update k x (s_spent (view_abs v)) \<rparr>"
  "dict_wf (v_refunded v) \<Longrightarrow> view_abs (v\<lparr> v_refunded := AList.update k x (v_refunded v) \<rparr>)
     = (view_abs v)\<lparr> s_refunded := AList.update k x (s_refunded (view_abs v)) \<rparr>"
  "dict_wf (v_spend_refunds v) \<Longrightarrow> v_refunds v = None \<Longrightarrow>
     view_abs (v\<lparr> v_spend_refunds := AList.update r x (v_spend_refunds v) \<rparr>)
     = (view_abs v)\<lparr> s_spend_refunds := AList.update r x (s_spend_refunds (view_abs v)) \<rparr>"
  by (simp_all add: view_abs_def merged_def chain_state.extend_def Let_def dict_update_update cong: option.case_cong)

lemma sim_version: "view_rel b v r \<Longrightarrow> sim (view_rel b) (check_version v e) (ref_check_version r e)"
  by (auto simp: view_rel_def check_version_def ref_check_version_def view_abs_simps ledger_simps)

lemma check_v3_eq: "view_rel b v r \<Longrightarrow> check_v3 v e = ref_check_v3 r e"
  by (simp add: view_rel_def check_v3_def ref_check_v3_def view_abs_simps)

lemma sim_checkpoint: "view_rel b v r \<Longrightarrow> sim (view_rel b) (check_checkpoint v e) (ref_check_checkpoint r e)"
  unfolding check_checkpoint_def ref_check_checkpoint_def
  by (auto simp: view_rel_def view_abs_simps ledger_simps split: option.split intro!: sim_bind_eq)

lemma sim_shape:
  assumes rel: "view_rel b v r"
  shows "sim (view_rel b) (check_shape v e) (ref_check_shape r e)"
proof -
  have eqs: "s_unit r = s_unit (v_base v)" "s_seal r = v_seal v" "s_saw_v1 r = v_saw_v1 v"
    using rel by (simp_all add: view_rel_def view_abs_simps)
  show ?thesis
    unfolding check_shape_def ref_check_shape_def Let_def check_v3_eq [OF rel] eqs
    by (intro sim_if sim_bind_eq sim_checkpoint [OF rel]) (simp_all add: rel)
qed

lemma sim_end: "view_rel b v r \<Longrightarrow> sim (view_rel b) (end_transaction v) (ref_end_transaction r)"
  by (auto simp: view_rel_def end_transaction_def ref_end_transaction_def view_abs_simps ledger_simps)

lemma sim_begin: "view_rel b v r \<Longrightarrow> sim (view_rel b) (begin_transaction v e) (ref_begin_transaction r e)"
  unfolding begin_transaction_def ref_begin_transaction_def
  using sim_end [of b v r]
  by (auto simp: view_rel_def view_abs_simps ledger_simps intro!: sim_bind)

lemma sim_move: "view_rel b v r \<Longrightarrow> sim (view_rel b) (move_balance v e) (ref_move_balance r e)"
  unfolding move_balance_def ref_move_balance_def Let_def
  by (auto simp: view_rel_def lookup_balance view_abs_simps ledger_simps view_inv_def abs_staged intro!: sim_bind_eq)

lemma sim_flows: "view_rel b v r \<Longrightarrow> sim (view_rel b) (check_flows v e w) (ref_check_flows r e w)"
  unfolding check_flows_def ref_check_flows_def Let_def
  by (auto simp: view_rel_def lookup_spent lookup_refunded view_inv_def abs_staged intro!: sim_bind_eq)


lemma abs_counts:
  "view_abs (v\<lparr> v_counts := (v_counts v)(k \<mapsto> chain_holds_open_in (view_abs v) k + d) \<rparr>)
     = (view_abs v)\<lparr> s_hold_counts := count_change (s_hold_counts (view_abs v)) k d \<rparr>"
proof -
  have "(\<lambda>j. case ((v_counts v)(k \<mapsto> chain_holds_open_in (view_abs v) k + d)) j of
          None \<Rightarrow> s_hold_counts (v_base v) j | Some n \<Rightarrow> if n = 0 then None else Some n)
      = count_change (s_hold_counts (view_abs v)) k d"
    by (auto simp: fun_eq_iff count_change_def Let_def chain_holds_open_in_def view_abs_simps)
  then show ?thesis
    by (simp add: view_abs_def merged_def chain_state.extend_def Let_def fun_upd_def cong: option.case_cong)
qed

lemma abs_ambiguous:
  "view_abs (v\<lparr> v_ambiguous := insert k (v_ambiguous v) \<rparr>)
     = (view_abs v)\<lparr> s_ambiguous := insert k (s_ambiguous (view_abs v)) \<rparr>"
  by (simp add: view_abs_def merged_def chain_state.extend_def Let_def cong: option.case_cong)

lemma abs_holds:
  assumes "dict_update (filter (\<lambda>(h, e). h \<notin> c) (s_holds (v_base v))) o' = hs"
  shows "view_abs (v\<lparr> v_opened := o', v_closed := c \<rparr>) = (view_abs v)\<lparr> s_holds := hs \<rparr>"
  using assms by (simp add: view_abs_def merged_def chain_state.extend_def Let_def cong: option.case_cong)

lemma sim_close:
  assumes rel: "view_rel b v r" and h: "map_of (s_holds r) h = Some hold"
  shows "view_rel b (close_hold v h hold) (ref_close r h hold)"
proof -
  have inv: "view_inv v" and b: "v_base v = b" and r: "r = view_abs v" using rel by (auto simp: view_rel_def)
  define v' where "v' = (case map_of (v_opened v) h of
      Some _ \<Rightarrow> v\<lparr> v_opened := AList.delete h (v_opened v) \<rparr> | None \<Rightarrow> v\<lparr> v_closed := insert h (v_closed v) \<rparr>)"
  let ?F = "filter (\<lambda>(h, e). h \<notin> v_closed v) (s_holds (v_base v))"
  have abs: "view_abs v' = (view_abs v)\<lparr> s_holds := AList.delete h (s_holds (view_abs v)) \<rparr> \<and> view_inv v' \<and> v_base v' = b"
  proof (cases "map_of (v_opened v) h")
    case None
    then have no: "h \<notin> fst ` set (v_opened v)" by (simp add: map_of_eq_None_iff)
    have "h \<in> fst ` set (s_holds (v_base v))"
      using h None inv by (auto simp: r view_abs_simps map_of_dict_update view_inv_def map_of_filter_keys
          dest!: map_of_SomeD split: if_splits simp: rev_image_eqI)
    moreover have "dict_update (filter (\<lambda>(k, e). k \<notin> insert h (v_closed v)) (s_holds (v_base v))) (v_opened v)
        = AList.delete h (s_holds (view_abs v))"
      using no by (simp add: view_abs_simps delete_dict_update delete_filter conj_commute)
    ultimately show ?thesis
      using None inv b abs_holds [of "insert h (v_closed v)" v "v_opened v"]
      by (simp add: v'_def view_inv_def)
  next
    case (Some e)
    then have "h \<in> fst ` set (v_opened v)" by (auto dest: map_of_SomeD simp: rev_image_eqI)
    then have "h \<notin> fst ` set ?F" using holds_disjoint [OF inv] by blast
    then have "dict_update ?F (AList.delete h (v_opened v)) = AList.delete h (s_holds (view_abs v))"
      using inv by (simp add: view_abs_simps dict_update_delete view_inv_def)
    then show ?thesis
      using Some inv b abs_holds [of "v_closed v" v "AList.delete h (v_opened v)"]
      by (auto simp: v'_def view_inv_def keys_delete)
  qed
  have "view_rel b (v'\<lparr> v_counts := (v_counts v')(scope_id hold \<mapsto> holds_open_in v' (scope_id hold) + - 1) \<rparr>) (ref_close r h hold)"
    using abs unfolding view_rel_def lookup_count abs_counts by (simp add: r ref_close_def ledger_simps)
  then show ?thesis by (simp add: close_hold_def v'_def Let_def)
qed

lemma sim_open:
  assumes rel: "view_rel b v r" and fresh: "entry_id e \<notin> fst ` set (s_holds b)"
  defines "v' \<equiv> v\<lparr> v_opened := AList.update (entry_id e) e (v_opened v) \<rparr>"
  shows "view_rel b (v'\<lparr> v_counts := (v_counts v')(scope_id e \<mapsto> holds_open_in v' (scope_id e) + 1) \<rparr>) (ref_open r e)"
proof -
  have inv: "view_inv v" and b: "v_base v = b" and r: "r = view_abs v" using rel by (auto simp: view_rel_def)
  have "view_abs v' = (view_abs v)\<lparr> s_holds := AList.update (entry_id e) e (s_holds (view_abs v)) \<rparr>"
    using inv abs_holds [of "v_closed v" v "AList.update (entry_id e) e (v_opened v)"]
    by (simp add: v'_def view_abs_simps dict_update_update view_inv_def)
  moreover have "view_inv v'" using inv fresh b by (auto simp: v'_def view_inv_def keys_update)
  moreover have "v_base v' = b" using b by (simp add: v'_def)
  ultimately show ?thesis
    unfolding view_rel_def lookup_count abs_counts by (simp add: r ref_open_def ledger_simps)
qed

lemma dict_wf_holds: "view_inv v \<Longrightarrow> dict_wf (s_holds (view_abs v))"
  by (simp add: view_abs_simps view_inv_def distinct_map_filter)

abbreviation sim_releasing :: "chain_state \<Rightarrow> overlay releasing \<Rightarrow> ref_state releasing \<Rightarrow> bool" where
  "sim_releasing b \<equiv> sim (rel_prod (view_rel b) (=))"

lemma sim_unnamed:
  assumes rel: "view_rel b v r"
  shows "sim (view_rel b) (release_unnamed v e) (ref_release_unnamed r e)"
proof -
  have inv: "view_inv v" and r: "r = view_abs v" using rel by (auto simp: view_rel_def)
  let ?f = "List.find (\<lambda>(h, hold). hold_key hold = hold_key e) (s_holds r)"
  show ?thesis
  proof (cases ?f)
    case None
    then show ?thesis
      by (simp add: release_unnamed_def ref_release_unnamed_def lookup_holds [OF inv] r [symmetric])
  next
    case (Some p)
    obtain h hold where p: "p = (h, hold)" by (cases p)
    have "map_of (s_holds r) h = Some hold"
      using Some dict_wf_holds [OF inv] unfolding p r by (intro find_map_of)
    from sim_close [OF rel this] have
      "view_inv (close_hold v h hold)" "v_base (close_hold v h hold) = b" "view_abs (close_hold v h hold) = ref_close r h hold"
      by (simp_all add: view_rel_def)
    moreover have "s_ambiguous (ref_close r h hold) = s_ambiguous r" by (simp add: ref_close_def)
    ultimately show ?thesis
      using Some p by (simp add: release_unnamed_def ref_release_unnamed_def lookup_holds [OF inv] r [symmetric] Let_def
          view_rel_def abs_ambiguous inv_scalar)
  qed
qed

lemma sim_named:
  assumes rel: "view_rel b v r"
  shows "sim_releasing b (release_named v e rs) (ref_release_named r e rs)"
proof -
  have inv: "view_inv v" and r: "r = view_abs v" using rel by (auto simp: view_rel_def)
  have close: "view_rel b ((close_hold v h hold)\<lparr> v_settleable := insert h (v_settleable (close_hold v h hold)) \<rparr>)
      ((ref_close r h hold)\<lparr> r_settleable := insert h (r_settleable r) \<rparr>)"
    if "map_of (s_holds r) h = Some hold" for h hold
  proof -
    have "v_settleable (close_hold v h hold) = r_settleable r"
      by (simp add: close_hold_def Let_def r view_abs_simps split: option.split)
    with sim_close [OF rel that] show ?thesis by (simp add: view_rel_def ledger_simps)
  qed
  show ?thesis
    unfolding release_named_def ref_release_named_def lookup_hold [OF inv] r [symmetric]
    by (cases "ref e"; cases "map_of (s_holds r) (the (ref e))") (simp_all add: Let_def close)
qed

lemma sim_reverse:
  assumes rel: "view_rel b v r"
  shows "sim (view_rel b) (reverse_named v e k) (ref_reverse_named r e k)"
proof -
  have inv: "view_inv v" and r: "r = view_abs v" and b: "v_base v = b" using rel by (auto simp: view_rel_def)
  have res: "r_resolve r = v_resolve v" by (simp add: r view_abs_simps)
  have stage: "view_rel b (v\<lparr> v_spend_refunds := AList.update k x (v_spend_refunds v) \<rparr>)
      (r\<lparr> s_spend_refunds := AList.update k x (s_spend_refunds r) \<rparr>)" for x
    using inv b by (simp add: view_rel_def abs_staged view_inv_def r)
  show ?thesis
    unfolding reverse_named_def ref_reverse_named_def res lookup_spend_refunds [OF inv] r [symmetric]
    by (cases "case v_resolve v of None \<Rightarrow> None | Some f \<Rightarrow> f k")
      (auto intro!: sim_bind_eq simp: stage)
qed

lemma sim_holds:
  assumes rel: "view_rel b v r" and fresh: "entry_type e = HOLD \<Longrightarrow> entry_id e \<notin> fst ` set (s_holds b)"
  shows "sim_releasing b (check_holds v e rs) (ref_check_holds r e rs)"
proof -
  have set: "r_settleable r = v_settleable v" using rel by (simp add: view_rel_def view_abs_simps)
  have pair: "sim (view_rel b) x y \<Longrightarrow> sim_releasing b (rbind x (\<lambda>v. Inr (v, rs))) (rbind y (\<lambda>r. Inr (r, rs)))" for x y
    by (rule sim_bind) auto
  show ?thesis
    unfolding check_holds_def ref_check_holds_def Let_def set
    using sim_open [OF rel fresh] pair [OF sim_unnamed [OF rel]] pair [OF sim_reverse [OF rel]]
      sim_named [OF rel] rel
    by (simp add: Let_def split: option.split)
qed


lemma abs_tripped:
  "view_abs (v\<lparr> v_tripped := (v_tripped v)(k \<mapsto> t) \<rparr>) = (view_abs v)\<lparr> s_tripped := (s_tripped (view_abs v))(k := t) \<rparr>"
proof -
  have "(\<lambda>j. case ((v_tripped v)(k \<mapsto> t)) j of None \<Rightarrow> s_tripped (v_base v) j | Some t \<Rightarrow> t)
      = (s_tripped (view_abs v))(k := t)"
    by (auto simp: fun_eq_iff view_abs_simps)
  then show ?thesis
    by (simp add: view_abs_def merged_def chain_state.extend_def Let_def fun_upd_def cong: option.case_cong)
qed

lemma node_None: "view_rel b v r \<Longrightarrow> node v k = None \<longleftrightarrow> map_of (s_nodes r) k = None"
  by (simp add: view_rel_def lookup_node)

lemma sim_control:
  assumes rel: "view_rel b v r"
  shows "sim (view_rel b) (control v ty k t x) (ref_control r ty k t x)"
  using node_None [OF rel, of k] rel
  by (auto simp: control_def ref_control_def view_rel_def abs_tripped inv_scalar split: option.split)

lemma sim_apply_control: "view_rel b v r \<Longrightarrow> sim (view_rel b) (apply_control v c) (ref_apply_control r c)"
  by (simp add: apply_control_def ref_apply_control_def sim_control)

lemma sim_rfold:
  assumes "\<And>v r x. R v r \<Longrightarrow> x \<in> set xs \<Longrightarrow> sim R (f v x) (g r x)"
  shows "R v r \<Longrightarrow> sim R (rfold f v xs) (rfold g r xs)"
  using assms
proof (induction xs arbitrary: v r)
  case (Cons x xs)
  show ?case unfolding rfold.simps by (rule sim_bind [where A = R]) (use Cons in auto)
qed simp

lemma sim_legacy: "view_rel b v r \<Longrightarrow> sim (view_rel b) (apply_legacy v) (ref_apply_legacy r)"
proof -
  assume rel: "view_rel b v r"
  then have "view_rel b (v\<lparr> v_legacy_applied := True \<rparr>) (r\<lparr> s_legacy_applied := True \<rparr>)" "s_legacy r = v_legacy v"
    by (simp_all add: view_rel_def ledger_simps view_abs_simps)
  then show ?thesis
    unfolding apply_legacy_def ref_apply_legacy_def by (simp add: sim_rfold sim_apply_control)
qed

lemma check_seal_eq: "view_rel b v r \<Longrightarrow> check_seal v e = ref_check_seal r e"
  by (simp add: view_rel_def check_seal_def ref_check_seal_def view_abs_simps cong: option.case_cong)

lemma sim_fold_legacy:
  assumes rel: "view_rel b v r"
  shows "sim (view_rel b) (fold_legacy v e) (ref_fold_legacy r e)"
proof -
  have eqs: "s_legacy_applied r = v_legacy_applied v" "s_legacy r = v_legacy v"
    using rel by (simp_all add: view_rel_def view_abs_simps)
  show ?thesis
    unfolding fold_legacy_def ref_fold_legacy_def check_seal_eq [OF rel] eqs
    by (intro sim_if sim_bind_eq sim_legacy [OF rel]) (simp_all add: rel)
qed

lemma abs_nodes:
  "merged_nodes (s_nodes (v_base v)) ns (v_children v) = xs \<Longrightarrow>
     view_abs (v\<lparr> v_nodes := ns, v_roots := v_roots v @ rs, v_row_scopes := w \<rparr>)
     = (view_abs v)\<lparr> s_nodes := xs, s_roots := s_roots (view_abs v) @ rs \<rparr>"
  "merged_nodes (s_nodes (v_base v)) ns (v_children v) = xs \<Longrightarrow>
     view_abs (v\<lparr> v_nodes := ns, v_row_scopes := w \<rparr>) = (view_abs v)\<lparr> s_nodes := xs \<rparr>"
  "merged_nodes (s_nodes (v_base v)) ns ch = xs \<Longrightarrow>
     view_abs (v\<lparr> v_nodes := ns, v_row_scopes := w, v_children := ch \<rparr>) = (view_abs v)\<lparr> s_nodes := xs \<rparr>"
  by (simp_all add: view_abs_def merged_def chain_state.extend_def Let_def merged_nodes_def cong: option.case_cong)

lemma node_staged: "node v k = (case map_of (v_nodes v) k of Some n \<Rightarrow> Some n | None \<Rightarrow> map_of (s_nodes (v_base v)) k)"
  by (simp add: node_def chain_node_def split: option.split)

lemma sim_fund:
  assumes rel: "view_rel b v r"
  shows "sim (view_rel b) (fund_scope v e) (ref_fund_scope r e)"
proof -
  have inv: "view_inv v" and b: "v_base v = b" and r: "r = view_abs v" using rel by (auto simp: view_rel_def)
  have ninv: "nodes_inv (s_nodes (v_base v)) (v_nodes v) (v_children v)" using inv by (simp add: view_inv_def)
  let ?k = "scope_id e"
  show ?thesis
  proof (cases "node v ?k")
    case None
    let ?n = "\<lparr> n_scope_id = ?k, n_parent_id = None, n_depth = 0, n_allocated = amount e, n_child_ids = [],
       n_created_at = timestamp e \<rparr>"
    have k: "map_of (v_nodes v) ?k = None" "map_of (s_nodes (v_base v)) ?k = None"
      using None by (auto simp: node_staged split: option.splits)
    have new: "merged_nodes (s_nodes (v_base v)) (AList.update ?k ?n (v_nodes v)) (v_children v)
        = AList.update ?k ?n (s_nodes r)"
      using merged_nodes_new_eq [OF ninv k, of ?n] by (simp add: r view_abs_simps)
    have "view_rel b (v\<lparr> v_nodes := AList.update ?k ?n (v_nodes v), v_roots := v_roots v @ [?k],
          v_row_scopes := insert ?k (v_row_scopes v) \<rparr>)
        (r\<lparr> s_nodes := AList.update ?k ?n (s_nodes r), s_roots := s_roots r @ [?k] \<rparr>)"
      using inv b merged_nodes_new_inv [OF ninv k, of ?n]
      by (simp add: view_rel_def abs_nodes(1) [OF new] r view_inv_def)
    moreover have "map_of (s_nodes r) ?k = None" using None node_None [OF rel] by simp
    ultimately show ?thesis using None by (simp add: fund_scope_def ref_fund_scope_def Let_def)
  next
    case (Some n)
    let ?c = "dict_get (v_children v) ?k []"
    have m: "map_of (s_nodes r) ?k = Some (n\<lparr> n_child_ids := n_child_ids n @ ?c \<rparr>)"
      using lookup_node [OF inv, of ?k] Some by (simp add: r)
    have w: "(case map_of (v_nodes v) ?k of Some n \<Rightarrow> Some n | None \<Rightarrow> map_of (s_nodes (v_base v)) ?k) = Some n"
      using Some by (simp add: node_staged)
    have staged: "view_rel b (v\<lparr> v_nodes := AList.update ?k (n\<lparr> n_allocated := a \<rparr>) (v_nodes v),
          v_row_scopes := insert ?k (v_row_scopes v) \<rparr>)
        (r\<lparr> s_nodes := AList.update ?k (n\<lparr> n_allocated := a, n_child_ids := n_child_ids n @ ?c \<rparr>) (s_nodes r) \<rparr>)" for a
      using inv b merged_nodes_alloc_inv [OF ninv w, of a]
      by (simp add: view_rel_def abs_nodes(2) [OF merged_nodes_alloc_eq [OF ninv w]] r view_inv_def view_abs_simps)
    have swap: "n\<lparr> n_allocated := a, n_child_ids := c \<rparr> = n\<lparr> n_child_ids := c, n_allocated := a \<rparr>" for a c
      by simp
    obtain v1 where w1: "writable v ?k = Inr (v1, n)"
      and v1: "v1 = v\<lparr> v_nodes := AList.update ?k n (v_nodes v) \<rparr> \<or> v1 = v"
      using w by (cases "map_of (v_nodes v) ?k") (simp_all add: writable_def chain_node_def)
    have same: "v1\<lparr> v_nodes := AList.update ?k x (v_nodes v1), v_row_scopes := insert ?k (v_row_scopes v1) \<rparr>
        = v\<lparr> v_nodes := AList.update ?k x (v_nodes v), v_row_scopes := insert ?k (v_row_scopes v) \<rparr>" for x
      using v1 by (elim disjE) simp_all
    have eq: "fund_scope v e = (if n_parent_id n \<noteq> None then integrity ''funds a scope that is not a root'' ?k
        else rbind (ctx_add (n_allocated n) (amount e)) (\<lambda>a. Inr (v\<lparr> v_nodes := AList.update ?k (n\<lparr> n_allocated := a \<rparr>) (v_nodes v),
          v_row_scopes := insert ?k (v_row_scopes v) \<rparr>)))"
      unfolding same [symmetric] by (simp add: fund_scope_def Some w1 Let_def rbind_assoc)
    show ?thesis
      unfolding eq ref_fund_scope_def Let_def m option.simps
      by (simp, intro impI sim_bind_eq) (use staged in \<open>simp add: swap\<close>)
  qed
qed

lemma sim_require:
  assumes rel: "view_rel b v r"
  shows "sim (view_rel b) (rbind (require_scope v k) (\<lambda>_. Inr v)) (rbind (ref_require r k) (\<lambda>_. Inr r))"
  using lookup_node [of v k] rel
  by (cases "node v k") (simp_all add: require_scope_def ref_require_def view_rel_def)

lemma sim_allocate:
  assumes rel: "view_rel b v r"
  shows "sim (view_rel b) (allocate v e) (ref_allocate r e)"
proof -
  have inv: "view_inv v" and b: "v_base v = b" and r: "r = view_abs v" using rel by (auto simp: view_rel_def)
  have ninv: "nodes_inv (s_nodes (v_base v)) (v_nodes v) (v_children v)" using inv by (simp add: view_inv_def)
  let ?k = "scope_id e"
  let ?p = "case counterparty_id e of None \<Rightarrow> [] | Some p \<Rightarrow> p"
  show ?thesis
  proof (cases "direction e = DEBIT \<or> node v ?k \<noteq> None \<or> node v ?p = None")
    case True
    then show ?thesis
      using sim_require [OF rel, of ?k] node_None [OF rel, of ?k] node_None [OF rel, of ?p] rel
      by (auto simp: allocate_def ref_allocate_def Let_def)
  next
    case False
    then obtain p where p: "node v ?p = Some p" and k: "node v ?k = None" and cr: "direction e \<noteq> DEBIT" by auto
    have pm: "map_of (s_nodes r) ?p = Some (p\<lparr> n_child_ids := n_child_ids p @ dict_get (v_children v) ?p [] \<rparr>)"
      using lookup_node [OF inv, of ?p] p by (simp add: r)
    have km: "map_of (s_nodes r) ?k = None" using k node_None [OF rel] by simp
    let ?n = "\<lparr> n_scope_id = ?k, n_parent_id = Some (n_scope_id p), n_depth = n_depth p + 1, n_allocated = amount e,
       n_child_ids = [], n_created_at = timestamp e \<rparr>"
    have k': "map_of (v_nodes v) ?k = None" "map_of (s_nodes (v_base v)) ?k = None"
      using k by (auto simp: node_staged split: option.splits)
    have pk: "n_scope_id p = ?p" and pin: "?p \<in> fst ` set (s_nodes (v_base v)) \<union> fst ` set (v_nodes v)"
      using p nodes_inv_st [OF ninv] by (auto simp: node_staged split: option.splits dest!: map_of_SomeD simp: rev_image_eqI)
    have ninv': "nodes_inv (s_nodes (v_base v)) (AList.update ?k ?n (v_nodes v)) (v_children v)"
      using merged_nodes_new_inv [OF ninv k', of ?n] by simp
    have pin': "n_scope_id p \<in> fst ` set (s_nodes (v_base v)) \<union> fst ` set (AList.update ?k ?n (v_nodes v))"
      using pin pk by (auto simp: keys_update)
    have new: "merged_nodes (s_nodes (v_base v)) (AList.update ?k ?n (v_nodes v))
          (AList.update (n_scope_id p) (dict_get (v_children v) (n_scope_id p) [] @ [?k]) (v_children v))
        = extend_children (AList.update ?k ?n (s_nodes r)) (n_scope_id p, [?k])"
      using merged_nodes_child_eq [OF ninv' pin', of ?k] merged_nodes_new_eq [OF ninv k', of ?n]
      by (simp add: r view_abs_simps)
    have "view_rel b (v\<lparr> v_nodes := AList.update ?k ?n (v_nodes v), v_row_scopes := insert ?k (v_row_scopes v),
          v_children := AList.update (n_scope_id p) (dict_get (v_children v) (n_scope_id p) [] @ [?k]) (v_children v) \<rparr>)
        (r\<lparr> s_nodes := extend_children (AList.update ?k ?n (s_nodes r)) (n_scope_id p, [?k]) \<rparr>)"
      unfolding view_rel_def abs_nodes(3) [OF new]
      using inv b merged_nodes_child_inv [OF ninv' pin', of ?k] by (simp add: r view_inv_def)
    then show ?thesis
      using p k cr pm km by (simp add: allocate_def ref_allocate_def Let_def)
  qed
qed


lemma release_between_eq: "view_rel b v r \<Longrightarrow> release_between v e = ref_release_between r e"
proof -
  assume rel: "view_rel b v r"
  have node: "map_of (s_nodes r) k = map_option (\<lambda>n. n\<lparr> n_child_ids := n_child_ids n @ dict_get (v_children v) k [] \<rparr>) (node v k)" for k
    using rel lookup_node by (simp add: view_rel_def)
  show ?thesis
    by (cases "node v (scope_id e)"; cases "node v (case counterparty_id e of None \<Rightarrow> [] | Some p \<Rightarrow> p)")
      (simp_all add: release_between_def ref_release_between_def require_scope_def ref_require_def node Let_def)
qed

lemma sim_governance:
  assumes rel: "view_rel b v r"
  shows "sim (view_rel b) (check_governance v e) (ref_check_governance r e)"
  unfolding check_governance_def ref_check_governance_def
proof (rule sim_bind [OF sim_fold_legacy [OF rel]])
  fix v r
  assume rel: "view_rel b v r"
  have ctl: "sim (view_rel b) (rbind (control v ty k t x) (\<lambda>v. Inr (v\<lparr> v_events := v_events v @ [c] \<rparr>))) (ref_control r ty k t x)"
    for ty k t x c
    using sim_control [OF rel, of ty k t x]
    by (cases "control v ty k t x"; cases "ref_control r ty k t x") (simp_all add: view_rel_def ledger_simps)
  show "sim (view_rel b)
      (let kind = entry_type e in
       if kind = FUNDING then fund_scope v e else if kind = ALLOCATION then allocate v e
       else if kind = RELEASE then rbind (release_between v e) (\<lambda>_. Inr v)
       else if control_type kind then
         rbind (control v (entry_type_value kind) (scope_id e) (timestamp e) (memo e)) (\<lambda>v.
           Inr (v\<lparr> v_events := v_events v @ [event_for e] \<rparr>))
       else if \<not> scopeless_type kind then rbind (require_scope v (scope_id e)) (\<lambda>_. Inr v)
       else Inr v)
      (let kind = entry_type e in
       if kind = FUNDING then ref_fund_scope r e else if kind = ALLOCATION then ref_allocate r e
       else if kind = RELEASE then rbind (ref_release_between r e) (\<lambda>_. Inr r)
       else if control_type kind then ref_control r (entry_type_value kind) (scope_id e) (timestamp e) (memo e)
       else if \<not> scopeless_type kind then rbind (ref_require r (scope_id e)) (\<lambda>_. Inr r)
       else Inr r)"
    unfolding Let_def release_between_eq [OF rel]
    by (intro sim_if sim_fund [OF rel] sim_allocate [OF rel] ctl sim_require [OF rel] sim_bind_eq) (simp_all add: rel)
qed

lemma sim_advance:
  assumes rel: "view_rel b v r"
  shows "sim (view_rel b) (advance v e) (ref_advance r e)"
proof -
  have eqs: "s_totals r = v_totals v" "s_frontier r = v_frontier v" "s_length r = v_length v" "s_seal r = v_seal v"
    using rel by (simp_all add: view_rel_def view_abs_simps)
  show ?thesis
    unfolding advance_def ref_advance_def Let_def eqs
  proof (rule sim_bind_eq)
    fix t
    show "sim (view_rel b)
       (rbind (frontier_append
                (v_frontier (if entry_type e = SEAL then v\<lparr> v_totals := t \<rparr>\<lparr> v_seal := Some e \<rparr> else v\<lparr> v_totals := t \<rparr>))
                (v_length (if entry_type e = SEAL then v\<lparr> v_totals := t \<rparr>\<lparr> v_seal := Some e \<rparr> else v\<lparr> v_totals := t \<rparr>))
                (entry_hash e))
          (\<lambda>f. Inr ((if entry_type e = SEAL then v\<lparr> v_totals := t \<rparr>\<lparr> v_seal := Some e \<rparr> else v\<lparr> v_totals := t \<rparr>)
             \<lparr> v_frontier := f, v_head := entry_hash e,
                v_length := v_length (if entry_type e = SEAL then v\<lparr> v_totals := t \<rparr>\<lparr> v_seal := Some e \<rparr> else v\<lparr> v_totals := t \<rparr>) + 1,
                v_last_timestamp := Some (timestamp e) \<rparr>)))
       (rbind (frontier_append (v_frontier v) (v_length v) (entry_hash e))
          (\<lambda>f. Inr (r\<lparr> s_totals := t, s_seal := (if entry_type e = SEAL then Some e else v_seal v),
               s_frontier := f, s_head := entry_hash e, s_length := v_length v + 1,
               s_last_timestamp := Some (timestamp e) \<rparr>)))"
      using rel eqs(4) [symmetric]
      by (cases "entry_type e = SEAL") (auto intro!: sim_bind_eq simp: view_rel_def ledger_simps)
  qed
qed

lemma check_link_eq: "view_rel b v r \<Longrightarrow> check_link v e h = ref_check_link r e h"
  by (simp add: view_rel_def check_link_def ref_check_link_def view_abs_simps)

lemma sim_apply:
  assumes rel: "view_rel b v r" and fresh: "entry_type e = HOLD \<Longrightarrow> entry_id e \<notin> fst ` set (s_holds b)"
  shows "sim_releasing b (apply_entry v e h rs w) (ref_apply r e h rs w)"
  unfolding apply_entry_def ref_apply_def check_link_eq [OF rel]
  apply (rule sim_bind_eq)
  apply (rule sim_bind [OF sim_version [OF rel]])
  apply (rule sim_bind [OF sim_shape], assumption)
  apply (rule sim_bind [OF sim_begin], assumption)
  apply (rule sim_bind [OF sim_move], assumption)
  apply (rule sim_bind [OF sim_holds], assumption, erule fresh)
  apply (clarsimp)
  apply (rule sim_bind [OF sim_flows], assumption)
  apply (rule sim_bind [OF sim_governance], assumption)
  apply (rule sim_bind [OF sim_advance], assumption)
  apply simp
  done


section \<open>Runs\<close>

definition apply_step :: "bool \<Rightarrow> bool \<Rightarrow> overlay \<times> uuid set option \<Rightarrow> ledger_entry \<Rightarrow> (overlay \<times> uuid set option) res" where
  "apply_step h w vr e = apply_entry (fst vr) e h (snd vr) w"

definition ref_step :: "bool \<Rightarrow> bool \<Rightarrow> ref_state \<times> uuid set option \<Rightarrow> ledger_entry \<Rightarrow> (ref_state \<times> uuid set option) res" where
  "ref_step h w rr e = ref_apply (fst rr) e h (snd rr) w"

definition fresh_holds :: "chain_state \<Rightarrow> ledger_entry list \<Rightarrow> bool" where
  "fresh_holds b es \<longleftrightarrow> (\<forall>e\<in>set es. entry_type e = HOLD \<longrightarrow> entry_id e \<notin> fst ` set (s_holds b))"

interpretation view_sim: simulation_step "apply_step h w"
  "\<lambda>vr es. view_inv (fst vr) \<and> fresh_holds (v_base (fst vr)) es"
  "ref_step h w" "map_prod view_abs id" for h w
proof
  fix vr :: "overlay \<times> uuid set option" and e es vr'
  assume inv: "view_inv (fst vr) \<and> fresh_holds (v_base (fst vr)) (e # es)"
  obtain v rs where vr: "vr = (v, rs)" by (cases vr)
  have rel: "view_rel (v_base v) v (view_abs v)" using inv vr by (simp add: view_rel_def)
  have sim: "sim_releasing (v_base v) (apply_entry v e h rs w) (ref_apply (view_abs v) e h rs w)"
    using inv vr by (intro sim_apply [OF rel]) (simp add: fresh_holds_def)
  then show "map_sum id (map_prod view_abs id) (apply_step h w vr e) = ref_step h w (map_prod view_abs id vr) e"
    by (cases "apply_entry v e h rs w"; cases "ref_apply (view_abs v) e h rs w")
      (auto simp: apply_step_def ref_step_def vr view_rel_def rel_prod_sel map_prod_def split: prod.splits)
  assume "apply_step h w vr e = Inr vr'"
  with sim inv show "view_inv (fst vr') \<and> fresh_holds (v_base (fst vr')) es"
    by (cases "ref_apply (view_abs v) e h rs w")
      (auto simp: apply_step_def vr view_rel_def rel_prod_sel fresh_holds_def)
qed

definition chain_wf :: "chain_state \<Rightarrow> bool" where
  "chain_wf s \<longleftrightarrow> dict_wf (s_holds s) \<and> dict_wf (s_nodes s) \<and> (\<forall>(k, n) \<in> set (s_nodes s). n_scope_id n = k)"

lemma view_inv_new: "chain_wf b \<Longrightarrow> view_inv (new_overlay b f None)"
  by (auto simp: view_inv_def new_overlay_def nodes_inv_def chain_wf_def dest: map_of_SomeD)

lemma view_abs_new: "view_abs (new_overlay b f g) = ref_start b f"
proof -
  have "filter (\<lambda>(h, e). True) d = d" for d :: "(uuid, ledger_entry) dict"
    by (induction d) auto
  then show ?thesis
    by (simp add: view_abs_def merged_def ref_start_def new_overlay_def chain_state.extend_def Let_def split: option.split)
qed

definition ref_finish :: "ref_state \<Rightarrow> ref_state res" where
  "ref_finish r = rbind (ref_end_transaction r) (\<lambda>r. if s_legacy_applied r then Inr r else ref_apply_legacy r)"

definition ref_replay :: "ledger_entry list \<Rightarrow> control_event list \<Rightarrow> bool \<Rightarrow> (uuid \<Rightarrow> ledger_entry option) \<Rightarrow> unit_of_account \<Rightarrow> chain_state res" where
  "ref_replay es legacy fin resolve u =
     rbind (rfold (ref_step True False) (ref_start (empty_chain u legacy) (Some resolve), Some {}) es) (\<lambda>(r, _).
     rbind (if fin then ref_finish r else ref_end_transaction r) (\<lambda>r. Inr (ref_chain r)))"

lemma ref_chain_abs [simp]: "ref_chain (view_abs v) = merged v"
  by (simp add: ref_chain_def view_abs_def chain_state.extend_def chain_state.truncate_def)

lemma sim_finish: "view_rel b v r \<Longrightarrow> sim (view_rel b) (finish v) (ref_finish r)"
  unfolding finish_def ref_finish_def
  by (rule sim_bind [OF sim_end], assumption) (auto simp: view_rel_def view_abs_simps intro: sim_legacy)

lemma chain_wf_empty: "chain_wf (empty_chain u legacy)"
  by (simp add: chain_wf_def empty_chain_def)

lemma run_refines:
  assumes "chain_wf b" "fresh_holds b es"
  shows "map_sum id (map_prod view_abs id) (rfold (apply_step h w) (new_overlay b f None, rs) es)
      = rfold (ref_step h w) (ref_start b f, rs) es"
    and "rfold (apply_step h w) (new_overlay b f None, rs) es = Inr (v, rs') \<Longrightarrow> view_rel b v (view_abs v)"
proof -
  have inv: "view_inv (fst (new_overlay b f None, rs)) \<and> fresh_holds (v_base (fst (new_overlay b f None, rs))) es"
    using assms view_inv_new by (simp add: new_overlay_def)
  show "map_sum id (map_prod view_abs id) (rfold (apply_step h w) (new_overlay b f None, rs) es)
      = rfold (ref_step h w) (ref_start b f, rs) es"
    using view_sim.run_sim [OF inv, of h w] by (simp add: view_abs_new)
  have base: "v_base (fst s') = v_base (fst s)" if "rfold (apply_step h w) s xs = Inr s'"
    "view_inv (fst s) \<and> fresh_holds (v_base (fst s)) xs" for s s' xs
    using that
  proof (induction xs arbitrary: s)
    case (Cons x xs)
    then obtain t where t: "apply_step h w s x = Inr t" "rfold (apply_step h w) t xs = Inr s'" by auto
    have rel: "view_rel (v_base (fst s)) (fst s) (view_abs (fst s))" using Cons.prems by (simp add: view_rel_def)
    have "sim_releasing (v_base (fst s)) (apply_entry (fst s) x h (snd s) w) (ref_apply (view_abs (fst s)) x h (snd s) w)"
      using Cons.prems by (intro sim_apply [OF rel]) (simp add: fresh_holds_def)
    with t(1) have "v_base (fst t) = v_base (fst s)"
      by (cases "ref_apply (view_abs (fst s)) x h (snd s) w") (auto simp: apply_step_def view_rel_def rel_prod_sel)
    moreover have "view_inv (fst t) \<and> fresh_holds (v_base (fst t)) xs"
      using view_sim.inv_step [OF Cons.prems(2) t(1)] .
    ultimately show ?case using Cons.IH t(2) by simp
  qed simp
  assume run: "rfold (apply_step h w) (new_overlay b f None, rs) es = Inr (v, rs')"
  show "view_rel b v (view_abs v)"
    using view_sim.run_keeps [OF inv run] base [OF run inv] by (simp add: view_rel_def new_overlay_def)
qed

lemma replay_step_alt: "replay_step = apply_step True False"
  by (simp add: fun_eq_iff replay_step_def apply_step_def)

lemma replay_reference:
  "replay es legacy fin resolve None u
     = ref_replay es legacy fin (case resolve of None \<Rightarrow> spend_index es | Some f \<Rightarrow> f) u"
proof -
  let ?f = "case resolve of None \<Rightarrow> spend_index es | Some f \<Rightarrow> f"
  have f: "(case resolve of None \<Rightarrow> Some (spend_index es) | Some f \<Rightarrow> Some f) = Some ?f"
    by (simp split: option.split)
  have fresh: "fresh_holds (empty_chain u legacy) es" by (simp add: fresh_holds_def empty_chain_def)
  note run = run_refines [OF chain_wf_empty fresh, where h = True and w = False and f = "Some ?f" and rs = "Some {}"]
  let ?run = "rfold (apply_step True False) (new_overlay (empty_chain u legacy) (Some ?f) None, Some {}) es"
  show ?thesis
  proof (cases ?run)
    case (Inl x)
    with run(1) have "rfold (ref_step True False) (ref_start (empty_chain u legacy) (Some ?f), Some {}) es = Inl x"
      by simp
    with Inl show ?thesis by (simp add: replay_def ref_replay_def replay_step_alt f Let_def)
  next
    case (Inr vr)
    obtain v rs where vr: "vr = (v, rs)" by (cases vr)
    with Inr run(1) have r: "rfold (ref_step True False) (ref_start (empty_chain u legacy) (Some ?f), Some {}) es
        = Inr (view_abs v, rs)" by simp
    have rel: "view_rel (empty_chain u legacy) v (view_abs v)" using run(2) Inr vr by blast
    let ?g = "if fin then finish v else end_transaction v"
    let ?h = "if fin then ref_finish (view_abs v) else ref_end_transaction (view_abs v)"
    have "sim (view_rel (empty_chain u legacy)) ?g ?h"
      by (intro sim_if sim_finish [OF rel] sim_end [OF rel])
    then have "rbind ?g (\<lambda>v. Inr (merged v)) = rbind ?h (\<lambda>r. Inr (ref_chain r))"
      by (cases ?g; cases ?h) (auto simp: view_rel_def)
    with Inr vr r show ?thesis
      by (simp add: replay_def ref_replay_def replay_step_alt f Let_def)
  qed
qed

text \<open>C15: Replaying a chain through the copy-on-write view gives exactly what the in-place reference
  gives: the same state when the chain is accepted, the same error when it is not.\<close>

theorem replay_is_reference:
  "replay es legacy fin resolve None u
     = ref_replay es legacy fin (case resolve of None \<Rightarrow> spend_index es | Some f \<Rightarrow> f) u"
  by (rule replay_reference)

end
