(* ===== verification/Invariants.thy ===== *)
theory Invariants
  imports Refinement
begin

text \<open>
  What every accepted chain satisfies, proved on the reference and carried to replays by the
  refinement. The state is seen in parts (money, holds, flows, tree, position); a frame lemma per
  rule says which parts it leaves alone, so each invariant looks at one rule only. The
  interpretations of \<open>invariant_step\<close> give the invariants of runs: conservation, hold pairing,
  refund bounds, the delegation tree. The last section is a concrete accepted chain.
\<close>

section \<open>What each rule leaves alone\<close>

definition config_part :: "ref_state \<Rightarrow> _" where
  "config_part r = (s_unit r, s_legacy r, r_resolve r)"

definition money_part :: "ref_state \<Rightarrow> _" where
  "money_part r = (s_balances r, r_net r)"

definition position_part :: "ref_state \<Rightarrow> _" where
  "position_part r = (s_totals r, s_seal r, s_frontier r, s_head r, s_length r, s_last_timestamp r)"

definition hold_part :: "ref_state \<Rightarrow> _" where
  "hold_part r = (s_holds r, s_hold_counts r, s_ambiguous r, s_spend_refunds r)"

definition flow_part :: "ref_state \<Rightarrow> _" where
  "flow_part r = (s_spent r, s_refunded r)"

definition tree_part :: "ref_state \<Rightarrow> _" where
  "tree_part r = (s_nodes r, s_roots r, s_tripped r, s_legacy_applied r)"

lemmas parts_def = config_part_def money_part_def position_part_def hold_part_def flow_part_def tree_part_def

lemma version_frame:
  "ref_check_version r e = Inr r' \<Longrightarrow> config_part r' = config_part r \<and> money_part r' = money_part r \<and> position_part r' = position_part r
     \<and> hold_part r' = hold_part r \<and> flow_part r' = flow_part r \<and> tree_part r' = tree_part r"
  by (auto simp: ref_check_version_def parts_def split: if_splits)

lemma shape_frame:
  "ref_check_shape r e = Inr r' \<Longrightarrow> config_part r' = config_part r \<and> money_part r' = money_part r \<and> position_part r' = position_part r
     \<and> hold_part r' = hold_part r \<and> flow_part r' = flow_part r \<and> tree_part r' = tree_part r"
proof -
  have "ref_check_checkpoint r e = Inr r' \<Longrightarrow> ?thesis"
    by (auto simp: ref_check_checkpoint_def parts_def split: option.splits if_splits)
  moreover assume "ref_check_shape r e = Inr r'"
  then have "r' = r \<or> ref_check_checkpoint r e = Inr r'"
    by (auto simp: ref_check_shape_def Let_def split: if_splits)
  ultimately show ?thesis by auto
qed

lemma scopeless_zero: "scopeless_type k \<Longrightarrow> zero_value_type k"
  by (auto simp: scopeless_type_def zero_value_type_def)

lemma shape_facts:
  assumes "ref_check_shape r e = Inr r'"
  shows "direction e \<in> set (legal_directions (entry_type e))"
    and "zero_value_type (entry_type e) \<Longrightarrow> dval (amount e) = 0"
    and "\<not> zero_value_type (entry_type e) \<Longrightarrow> 0 < dval (amount e)"
    and "scopeless_type (entry_type e) \<Longrightarrow> scope_id e = []"
  using assms
  by (auto simp: ref_check_shape_def Let_def dec_le_iff dec_eq_iff ZERO_def dval_def scopeless_zero split: if_splits)

lemma end_frame:
  "ref_end_transaction r = Inr r' \<Longrightarrow> config_part r' = config_part r \<and> money_part r' = money_part r \<and> position_part r' = position_part r
     \<and> hold_part r' = hold_part r \<and> flow_part r' = flow_part r \<and> tree_part r' = tree_part r \<and> dval (r_net r) = 0"
  by (auto simp: ref_end_transaction_def parts_def dec_eq_iff ZERO_def dval_def split: if_splits)

lemma begin_frame:
  "ref_begin_transaction r e = Inr r' \<Longrightarrow> config_part r' = config_part r \<and> money_part r' = money_part r \<and> position_part r' = position_part r
     \<and> hold_part r' = hold_part r \<and> flow_part r' = flow_part r \<and> tree_part r' = tree_part r"
proof -
  assume h: "ref_begin_transaction r e = Inr r'"
  consider "r_txn r = Some (transaction_id e)" | "r_txn r = None"
    | "r_txn r \<noteq> None" "r_txn r \<noteq> Some (transaction_id e)" by blast
  then show ?thesis
  proof cases
    case 3
    with h obtain q where "ref_end_transaction r = Inr q" "r' = q\<lparr> r_txn := Some (transaction_id e) \<rparr>"
      by (auto simp: ref_begin_transaction_def)
    with end_frame [of r q] show ?thesis by (simp add: parts_def)
  qed (use h in \<open>auto simp: ref_begin_transaction_def parts_def\<close>)
qed

lemma move_frame:
  "ref_move_balance r e = Inr r' \<Longrightarrow> config_part r' = config_part r \<and> position_part r' = position_part r
     \<and> hold_part r' = hold_part r \<and> flow_part r' = flow_part r \<and> tree_part r' = tree_part r"
  unfolding ref_move_balance_def Let_def
  by (cases "zero_value_type (entry_type e)"; cases "balanced_type (entry_type e)") (auto simp: parts_def)

lemma named_frame:
  "ref_release_named r e rs = Inr (r', rs') \<Longrightarrow> config_part r' = config_part r \<and> money_part r' = money_part r
     \<and> position_part r' = position_part r \<and> flow_part r' = flow_part r \<and> tree_part r' = tree_part r"
  by (auto simp: ref_release_named_def parts_def ref_close_def split: option.splits if_splits)

lemma unnamed_frame:
  "ref_release_unnamed r e = Inr r' \<Longrightarrow> config_part r' = config_part r \<and> money_part r' = money_part r
     \<and> position_part r' = position_part r \<and> flow_part r' = flow_part r \<and> tree_part r' = tree_part r"
  by (auto simp: ref_release_unnamed_def parts_def ref_close_def split: option.splits if_splits)

lemma reverse_frame:
  "ref_reverse_named r e k = Inr r' \<Longrightarrow> config_part r' = config_part r \<and> money_part r' = money_part r
     \<and> position_part r' = position_part r \<and> flow_part r' = flow_part r \<and> tree_part r' = tree_part r"
  by (auto simp: ref_reverse_named_def parts_def split: option.splits if_splits)

lemma holds_frame:
  "ref_check_holds r e rs = Inr (r', rs') \<Longrightarrow> config_part r' = config_part r \<and> money_part r' = money_part r
     \<and> position_part r' = position_part r \<and> flow_part r' = flow_part r \<and> tree_part r' = tree_part r"
proof -
  assume h: "ref_check_holds r e rs = Inr (r', rs')"
  then consider "r' = r" | "r' = ref_open r e" | "ref_release_unnamed r e = Inr r'"
    | "ref_release_named r e rs = Inr (r', rs')" | k where "ref_reverse_named r e k = Inr r'"
    by (auto simp: ref_check_holds_def Let_def split: if_splits option.splits)
  then show ?thesis
    by cases (use named_frame unnamed_frame reverse_frame in \<open>auto simp: ref_open_def parts_def\<close>)
qed

lemma flows_frame:
  "ref_check_flows r e w = Inr r' \<Longrightarrow> config_part r' = config_part r \<and> money_part r' = money_part r
     \<and> position_part r' = position_part r \<and> hold_part r' = hold_part r \<and> tree_part r' = tree_part r"
  by (auto simp: ref_check_flows_def parts_def Let_def split: if_splits)

lemma control_frame:
  "ref_control r ty k t x = Inr r' \<Longrightarrow> config_part r' = config_part r \<and> money_part r' = money_part r
     \<and> position_part r' = position_part r \<and> hold_part r' = hold_part r \<and> flow_part r' = flow_part r
     \<and> s_nodes r' = s_nodes r \<and> s_roots r' = s_roots r"
  by (auto simp: ref_control_def parts_def split: if_splits option.splits)

lemma legacy_frame:
  "ref_apply_legacy r = Inr r' \<Longrightarrow> config_part r' = config_part r \<and> money_part r' = money_part r
     \<and> position_part r' = position_part r \<and> hold_part r' = hold_part r \<and> flow_part r' = flow_part r
     \<and> s_nodes r' = s_nodes r \<and> s_roots r' = s_roots r"
proof -
  have "rfold ref_apply_control r cs = Inr r' \<Longrightarrow> config_part r' = config_part r \<and> money_part r' = money_part r
     \<and> position_part r' = position_part r \<and> hold_part r' = hold_part r \<and> flow_part r' = flow_part r
     \<and> s_nodes r' = s_nodes r \<and> s_roots r' = s_roots r" for r cs
  proof (induction cs arbitrary: r)
    case (Cons c cs)
    then obtain q where q: "ref_apply_control r c = Inr q" "rfold ref_apply_control q cs = Inr r'" by auto
    show ?case using Cons.IH [OF q(2)] control_frame [OF q(1) [unfolded ref_apply_control_def]] by simp
  qed simp
  moreover assume "ref_apply_legacy r = Inr r'"
  ultimately show ?thesis by (fastforce simp: ref_apply_legacy_def parts_def)
qed

lemma fold_legacy_frame:
  "ref_fold_legacy r e = Inr r' \<Longrightarrow> config_part r' = config_part r \<and> money_part r' = money_part r
     \<and> position_part r' = position_part r \<and> hold_part r' = hold_part r \<and> flow_part r' = flow_part r
     \<and> s_nodes r' = s_nodes r \<and> s_roots r' = s_roots r"
  by (auto simp: ref_fold_legacy_def legacy_frame split: if_splits)

lemma governance_frame:
  "ref_check_governance r e = Inr r' \<Longrightarrow> config_part r' = config_part r \<and> money_part r' = money_part r
     \<and> position_part r' = position_part r \<and> hold_part r' = hold_part r \<and> flow_part r' = flow_part r"
proof -
  assume "ref_check_governance r e = Inr r'"
  then obtain q where q: "ref_fold_legacy r e = Inr q"
    and c: "r' = q \<or> ref_fund_scope q e = Inr r' \<or> ref_allocate q e = Inr r'
      \<or> ref_control q (entry_type_value (entry_type e)) (scope_id e) (timestamp e) (memo e) = Inr r'"
    by (auto simp: ref_check_governance_def Let_def split: if_splits)
  have "config_part r' = config_part q \<and> money_part r' = money_part q \<and> position_part r' = position_part q
      \<and> hold_part r' = hold_part q \<and> flow_part r' = flow_part q"
    using c control_frame
    by (auto simp: ref_fund_scope_def ref_allocate_def Let_def parts_def split: if_splits option.splits)
  with fold_legacy_frame [OF q] show ?thesis by simp
qed

lemma advance_frame:
  "ref_advance r e = Inr r' \<Longrightarrow> config_part r' = config_part r \<and> money_part r' = money_part r
     \<and> hold_part r' = hold_part r \<and> flow_part r' = flow_part r \<and> tree_part r' = tree_part r"
  by (auto simp: ref_advance_def parts_def)


section \<open>One entry, part by part\<close>

lemma apply_cases:
  assumes "ref_apply r e h rs w = Inr (r', rs')"
  obtains r1 r2 r3 r4 r5 r6 r7 where "ref_check_link r e h = Inr ()" "ref_check_version r e = Inr r1"
    "ref_check_shape r1 e = Inr r2" "ref_begin_transaction r2 e = Inr r3" "ref_move_balance r3 e = Inr r4"
    "ref_check_holds r4 e rs = Inr (r5, rs')" "ref_check_flows r5 e w = Inr r6"
    "ref_check_governance r6 e = Inr r7" "ref_advance r7 e = Inr r'"
  using assms by (auto simp: ref_apply_def)

lemma apply_shape:
  assumes "ref_apply r e h rs w = Inr (r', rs')"
  shows "direction e \<in> set (legal_directions (entry_type e))"
    and "zero_value_type (entry_type e) \<Longrightarrow> dval (amount e) = 0"
    and "\<not> zero_value_type (entry_type e) \<Longrightarrow> 0 < dval (amount e)"
  using assms by (auto elim!: apply_cases dest: shape_facts)

lemma apply_money:
  assumes "ref_apply r e h rs w = Inr (r', rs')"
  obtains x where "ctx_add (chain_balance r (scope_id e)) (signed_amount e) = Inr x"
    "s_balances r' = (if zero_value_type (entry_type e) then s_balances r else AList.update (scope_id e) x (s_balances r))"
    "if balanced_type (entry_type e) then ctx_add (r_net r) (signed_amount e) = Inr (r_net r') else r_net r' = r_net r"
    "dec_eq (balance_after e) x"
proof -
  from assms obtain r1 r2 r3 r4 r5 r6 r7 where a: "ref_check_link r e h = Inr ()" "ref_check_version r e = Inr r1"
    "ref_check_shape r1 e = Inr r2" "ref_begin_transaction r2 e = Inr r3" and m: "ref_move_balance r3 e = Inr r4"
    and b: "ref_check_holds r4 e rs = Inr (r5, rs')" "ref_check_flows r5 e w = Inr r6"
    "ref_check_governance r6 e = Inr r7" "ref_advance r7 e = Inr r'" by (rule apply_cases)
  have 3: "s_balances r3 = s_balances r" "r_net r3 = r_net r"
    using version_frame [OF a(2)] shape_frame [OF a(3)] begin_frame [OF a(4)] by (simp_all add: money_part_def)
  have 4: "s_balances r' = s_balances r4" "r_net r' = r_net r4"
    using holds_frame [OF b(1)] flows_frame [OF b(2)] governance_frame [OF b(3)] advance_frame [OF b(4)]
    by (simp_all add: money_part_def)
  have bal: "chain_balance r3 = chain_balance r" using 3 by (simp add: chain_balance_def fun_eq_iff)
  from m obtain x where x: "ctx_add (chain_balance r3 (scope_id e)) (signed_amount e) = Inr x" "dec_eq (balance_after e) x"
    "s_balances r4 = (if zero_value_type (entry_type e) then s_balances r3 else AList.update (scope_id e) x (s_balances r3))"
    "if balanced_type (entry_type e) then ctx_add (r_net r3) (signed_amount e) = Inr (r_net r4) else r_net r4 = r_net r3"
    unfolding ref_move_balance_def Let_def
    by (cases "zero_value_type (entry_type e)"; cases "balanced_type (entry_type e)") auto
  show thesis
    using that [OF x(1) [unfolded bal] x(3) [unfolded 3 4(1) [symmetric]] x(4) [unfolded 3 4(2) [symmetric]] x(2)] .
qed

lemma apply_position:
  assumes "ref_apply r e h rs w = Inr (r', rs')"
  shows "apply_totals (s_totals r) e = Inr (s_totals r')"
    and "frontier_append (s_frontier r) (s_length r) (entry_hash e) = Inr (s_frontier r')"
    and "s_head r' = entry_hash e" "s_length r' = s_length r + 1" "s_last_timestamp r' = Some (timestamp e)"
    and "sequence e = s_length r + 1" "prev_hash e = s_head r"
    and "h \<Longrightarrow> recompute_hash e = Inr (entry_hash e)"
    and "config_part r' = config_part r"
proof -
  from assms obtain r1 r2 r3 r4 r5 r6 r7 where a: "ref_check_link r e h = Inr ()" "ref_check_version r e = Inr r1"
    "ref_check_shape r1 e = Inr r2" "ref_begin_transaction r2 e = Inr r3" "ref_move_balance r3 e = Inr r4"
    "ref_check_holds r4 e rs = Inr (r5, rs')" "ref_check_flows r5 e w = Inr r6"
    "ref_check_governance r6 e = Inr r7" and b: "ref_advance r7 e = Inr r'" by (rule apply_cases)
  note fr = version_frame [OF a(2)] shape_frame [OF a(3)] begin_frame [OF a(4)] move_frame [OF a(5)]
    holds_frame [OF a(6)] flows_frame [OF a(7)] governance_frame [OF a(8)] advance_frame [OF b]
  have 7: "s_totals r7 = s_totals r" "s_frontier r7 = s_frontier r" "s_length r7 = s_length r"
    using fr by (simp_all add: position_part_def)
  show "config_part r' = config_part r" using fr by simp
  show "apply_totals (s_totals r) e = Inr (s_totals r')"
    "frontier_append (s_frontier r) (s_length r) (entry_hash e) = Inr (s_frontier r')"
    "s_head r' = entry_hash e" "s_length r' = s_length r + 1" "s_last_timestamp r' = Some (timestamp e)"
    using b 7 by (auto simp: ref_advance_def)
  show "sequence e = s_length r + 1" "prev_hash e = s_head r"
    using a(1) by (auto simp: ref_check_link_def split: if_splits)
  show "h \<Longrightarrow> recompute_hash e = Inr (entry_hash e)"
    using a(1) by (auto simp: ref_check_link_def check_entry_hash_def split: if_splits sum.splits)
qed

lemma apply_hold_part:
  assumes "ref_apply r e h rs w = Inr (r', rs')"
  obtains q q' where "hold_part q = hold_part r" "config_part q = config_part r"
    "ref_check_holds q e rs = Inr (q', rs')" "hold_part r' = hold_part q'"
proof -
  from assms obtain r1 r2 r3 r4 r5 r6 r7 where a: "ref_check_link r e h = Inr ()" "ref_check_version r e = Inr r1"
    "ref_check_shape r1 e = Inr r2" "ref_begin_transaction r2 e = Inr r3" "ref_move_balance r3 e = Inr r4"
    and m: "ref_check_holds r4 e rs = Inr (r5, rs')" and b: "ref_check_flows r5 e w = Inr r6"
    "ref_check_governance r6 e = Inr r7" "ref_advance r7 e = Inr r'" by (rule apply_cases)
  show thesis
  proof (rule that [OF _ _ m])
    show "hold_part r4 = hold_part r" "config_part r4 = config_part r"
      using version_frame [OF a(2)] shape_frame [OF a(3)] begin_frame [OF a(4)] move_frame [OF a(5)] by simp_all
    show "hold_part r' = hold_part r5"
      using flows_frame [OF b(1)] governance_frame [OF b(2)] advance_frame [OF b(3)] by simp
  qed
qed

lemma apply_flow_part:
  assumes "ref_apply r e h rs w = Inr (r', rs')"
  obtains q q' where "flow_part q = flow_part r" "ref_check_flows q e w = Inr q'" "flow_part r' = flow_part q'"
proof -
  from assms obtain r1 r2 r3 r4 r5 r6 r7 where a: "ref_check_link r e h = Inr ()" "ref_check_version r e = Inr r1"
    "ref_check_shape r1 e = Inr r2" "ref_begin_transaction r2 e = Inr r3" "ref_move_balance r3 e = Inr r4"
    "ref_check_holds r4 e rs = Inr (r5, rs')" and m: "ref_check_flows r5 e w = Inr r6" and b:
    "ref_check_governance r6 e = Inr r7" "ref_advance r7 e = Inr r'" by (rule apply_cases)
  show thesis
  proof (rule that [OF _ m])
    show "flow_part r5 = flow_part r"
      using version_frame [OF a(2)] shape_frame [OF a(3)] begin_frame [OF a(4)] move_frame [OF a(5)]
        holds_frame [OF a(6)] by simp
    show "flow_part r' = flow_part r6"
      using governance_frame [OF b(1)] advance_frame [OF b(2)] by simp
  qed
qed

lemma apply_tree_part:
  assumes "ref_apply r e h rs w = Inr (r', rs')"
  obtains q q' where "tree_part q = tree_part r" "config_part q = config_part r"
    "ref_check_governance q e = Inr q'" "tree_part r' = tree_part q'"
proof -
  from assms obtain r1 r2 r3 r4 r5 r6 r7 where a: "ref_check_link r e h = Inr ()" "ref_check_version r e = Inr r1"
    "ref_check_shape r1 e = Inr r2" "ref_begin_transaction r2 e = Inr r3" "ref_move_balance r3 e = Inr r4"
    "ref_check_holds r4 e rs = Inr (r5, rs')" "ref_check_flows r5 e w = Inr r6" and m:
    "ref_check_governance r6 e = Inr r7" and b: "ref_advance r7 e = Inr r'" by (rule apply_cases)
  show thesis
  proof (rule that [OF _ _ m])
    show "tree_part r6 = tree_part r" "config_part r6 = config_part r"
      using version_frame [OF a(2)] shape_frame [OF a(3)] begin_frame [OF a(4)] move_frame [OF a(5)]
        holds_frame [OF a(6)] flows_frame [OF a(7)] by simp_all
    show "tree_part r' = tree_part r7" using advance_frame [OF b] by simp
  qed
qed

section \<open>Conservation\<close>

definition balance_sum :: "'a chain_state_scheme \<Rightarrow> rat" where
  "balance_sum s = sum_list (map (dval \<circ> snd) (s_balances s))"

definition conserved :: "ref_state \<Rightarrow> bool" where
  "conserved r \<longleftrightarrow> dict_wf (s_balances r)
     \<and> balance_sum r + dval (t_holds_open (s_totals r)) + dval (t_spent (s_totals r))
       = dval (t_funded (s_totals r)) + dval (t_reversed (s_totals r)) + dval (r_net r)"

lemma conserved_step:
  assumes "conserved r" "ref_apply r e h rs w = Inr (r', rs')"
  shows "conserved r'"
proof -
  obtain x where x: "ctx_add (chain_balance r (scope_id e)) (signed_amount e) = Inr x"
    and bal: "s_balances r' = (if zero_value_type (entry_type e) then s_balances r else AList.update (scope_id e) x (s_balances r))"
    and net: "if balanced_type (entry_type e) then ctx_add (r_net r) (signed_amount e) = Inr (r_net r') else r_net r' = r_net r"
    using assms(2) by (rule apply_money)
  have old: "(case map_of (s_balances r) (scope_id e) of None \<Rightarrow> 0 | Some w \<Rightarrow> dval w) = dval (chain_balance r (scope_id e))"
    by (simp add: chain_balance_def dict_get_def split: option.split)
  have wf: "dict_wf (s_balances r')" using assms(1) bal by (simp add: conserved_def distinct_update)
  have sum: "balance_sum r' = balance_sum r + (if zero_value_type (entry_type e) then 0 else dval (signed_amount e))"
    using assms(1) dval_ctx_add [OF x]
    by (simp add: balance_sum_def bal sum_list_update [where f = dval] conserved_def old)
  have n: "dval (r_net r') = dval (r_net r) + (if balanced_type (entry_type e) then dval (signed_amount e) else 0)"
    using net by (auto dest: dval_ctx_add split: if_splits)
  note tot = apply_totals_flow [OF apply_position(1) [OF assms(2)]]
  note dir = apply_shape(1) [OF assms(2)]
  have "balance_sum r' + dval (t_holds_open (s_totals r')) + dval (t_spent (s_totals r'))
       = dval (t_funded (s_totals r')) + dval (t_reversed (s_totals r')) + dval (r_net r')"
    using assms(1) sum n tot dir
    by (cases "entry_type e") (auto simp: conserved_def flow_def zero_value_type_def balanced_type_def signed_amount_def)
  with wf show ?thesis by (simp add: conserved_def)
qed

interpretation conservation: invariant_step "ref_step h w" "\<lambda>rr es. conserved (fst rr)" for h w
  by unfold_locales (auto simp: ref_step_def split_paired_all dest: conserved_step)


section \<open>Holds\<close>

definition hold_sum :: "'a chain_state_scheme \<Rightarrow> rat" where
  "hold_sum s = sum_list (map ((dval \<circ> amount) \<circ> snd) (s_holds s))"

definition hold_count :: "'a chain_state_scheme \<Rightarrow> scope_id \<Rightarrow> int" where
  "hold_count s k = sum_list (map ((\<lambda>e. if scope_id e = k then 1 else 0) \<circ> snd) (s_holds s))"

definition holds_inv :: "ref_state \<Rightarrow> bool" where
  "holds_inv r \<longleftrightarrow> dict_wf (s_holds r)
     \<and> (\<forall>(h, e) \<in> set (s_holds r). entry_id e = h \<and> entry_type e = HOLD \<and> 0 < dval (amount e))
     \<and> hold_sum r = dval (t_holds_open (s_totals r)) \<and> (\<forall>k. chain_holds_open_in r k = hold_count r k)"

definition new_holds :: "ref_state \<Rightarrow> ledger_entry list \<Rightarrow> bool" where
  "new_holds r es \<longleftrightarrow> distinct (map entry_id (filter (\<lambda>e. entry_type e = HOLD) es)) \<and> fresh_holds (ref_chain r) es"

lemma count_change_lookup:
  "(case count_change m k d j of None \<Rightarrow> 0 | Some n \<Rightarrow> n) = (case m j of None \<Rightarrow> 0 | Some n \<Rightarrow> n) + (if j = k then d else 0)"
  by (simp add: count_change_def Let_def)

text \<open>What a rule on holds does to the sum and the counts.\<close>

definition hold_effect :: "ref_state \<Rightarrow> ref_state \<Rightarrow> scope_id \<Rightarrow> rat \<Rightarrow> int \<Rightarrow> bool" where
  "hold_effect r r' k x d \<longleftrightarrow> hold_sum r' = hold_sum r + x
     \<and> (\<forall>j. hold_count r' j = hold_count r j + (if j = k then d else 0))
     \<and> (\<forall>j. chain_holds_open_in r' j = chain_holds_open_in r j + (if j = k then d else 0))"

lemma effect_open:
  assumes "dict_wf (s_holds r)" "entry_id e \<notin> fst ` set (s_holds r)"
  shows "hold_effect r (ref_open r e) (scope_id e) (dval (amount e)) 1"
  using assms
  by (simp add: hold_effect_def ref_open_def hold_sum_def hold_count_def chain_holds_open_in_def
      count_change_lookup update_notin)

lemma effect_close:
  assumes "dict_wf (s_holds r)" "map_of (s_holds r) h = Some hold"
  shows "hold_effect r (ref_close r h hold) (scope_id hold) (- dval (amount hold)) (- 1)"
  using assms sum_list_delete [OF assms(1), of "dval \<circ> amount" h]
    sum_list_delete [OF assms(1), of "\<lambda>e. if scope_id e = k then 1 else 0 :: int" h for k]
  by (auto simp: hold_effect_def ref_close_def hold_sum_def hold_count_def chain_holds_open_in_def count_change_lookup)

lemma holds_cases:
  assumes "ref_check_holds r e rs = Inr (r', rs')" "dict_wf (s_holds r)"
  obtains (opens) "entry_type e = HOLD" "r' = ref_open r e"
    | (closes) h hold where "entry_type e = HOLD_VOID" "map_of (s_holds r) h = Some hold"
        "scope_id hold = scope_id e" "dval (amount hold) = dval (amount e)"
        "s_holds r' = s_holds (ref_close r h hold)" "s_hold_counts r' = s_hold_counts (ref_close r h hold)"
    | (other) "entry_type e \<noteq> HOLD" "entry_type e \<noteq> HOLD_VOID" "s_holds r' = s_holds r" "s_hold_counts r' = s_hold_counts r"
proof -
  consider "entry_type e = HOLD" | "entry_type e = HOLD_VOID" "version e = AUDIT_V1"
    | "entry_type e = HOLD_VOID" "version e \<noteq> AUDIT_V1" | "entry_type e \<noteq> HOLD" "entry_type e \<noteq> HOLD_VOID" by blast
  then show thesis
  proof cases
    case 1
    then show thesis using assms(1) opens by (auto simp: ref_check_holds_def Let_def split: if_splits)
  next
    case 2
    then have "ref_release_unnamed r e = Inr r'"
      using assms(1) by (auto simp: ref_check_holds_def Let_def split: if_splits)
    then obtain h hold where f: "List.find (\<lambda>(h, hold). hold_key hold = hold_key e) (s_holds r) = Some (h, hold)"
      "r' = (ref_close r h hold)\<lparr> s_ambiguous := insert (hold_key e) (s_ambiguous r) \<rparr>"
      by (auto simp: ref_release_unnamed_def split: option.splits)
    then have "hold_key hold = hold_key e" by (auto simp: find_Some_iff)
    with f closes [OF 2(1) find_map_of [OF assms(2) f(1)]] show thesis by (simp add: hold_key_def)
  next
    case 3
    then have "ref_release_named r e rs = Inr (r', rs')"
      using assms(1) by (auto simp: ref_check_holds_def Let_def split: if_splits)
    then obtain h hold where "map_of (s_holds r) h = Some hold" "scope_id hold = scope_id e"
      "dec_eq (amount hold) (amount e)" "r' = (ref_close r h hold)\<lparr> r_settleable := insert h (r_settleable r) \<rparr>"
      by (auto simp: ref_release_named_def split: option.splits if_splits)
    with closes [OF 3(1)] show thesis by (simp add: dec_eq_iff)
  next
    case 4
    have "s_holds q = s_holds r \<and> s_hold_counts q = s_hold_counts r" if "ref_reverse_named r e k = Inr q" for k q
      using that by (auto simp: ref_reverse_named_def split: option.splits if_splits)
    with 4 show thesis
      using assms(1) other by (auto simp: ref_check_holds_def Let_def split: if_splits option.splits)
  qed
qed

lemma hold_effect_cong:
  "s_holds r' = s_holds q \<Longrightarrow> s_hold_counts r' = s_hold_counts q \<Longrightarrow> hold_effect r q k x d \<Longrightarrow> hold_effect r r' k x d"
  by (simp add: hold_effect_def hold_sum_def hold_count_def chain_holds_open_in_def)

lemma holds_rule:
  assumes wf: "dict_wf (s_holds r)" and fresh: "entry_type e = HOLD \<Longrightarrow> entry_id e \<notin> fst ` set (s_holds r)"
    and step: "ref_check_holds r e rs = Inr (r', rs')"
  shows "\<exists>d. hold_effect r r' (scope_id e) (flow HOLD e - flow HOLD_VOID e) d" (is ?A)
    and "dict_wf (s_holds r')" (is ?B)
    and "set (s_holds r') \<subseteq> (if entry_type e = HOLD then insert (entry_id e, e) (set (s_holds r)) else set (s_holds r))" (is ?C)
proof -
  from step wf have "?A \<and> ?B \<and> ?C"
  proof (cases rule: holds_cases)
    case opens
    then show ?thesis
      using effect_open [OF wf fresh] wf fresh
      by (auto simp: flow_def ref_open_def update_notin)
  next
    case (closes h hold)
    have "hold_effect r r' (scope_id e) (flow HOLD e - flow HOLD_VOID e) (- 1)"
      using hold_effect_cong [OF closes(5,6) effect_close [OF wf closes(2)]] closes by (simp add: flow_def)
    moreover have "set (AList.delete h (s_holds r)) \<subseteq> set (s_holds r)" by (auto simp: AList.delete_eq)
    ultimately show ?thesis using closes wf by (auto simp: ref_close_def)
  next
    case other
    have "hold_effect r r' (scope_id e) 0 0" using other by (simp add: hold_effect_def hold_sum_def hold_count_def chain_holds_open_in_def)
    with other wf show ?thesis by (auto simp: flow_def)
  qed
  then show ?A ?B ?C by blast+
qed

lemma holds_step:
  assumes inv: "holds_inv r" and new: "new_holds r (e # es)" and step: "ref_apply r e h rs w = Inr (r', rs')"
  shows "holds_inv r' \<and> new_holds r' es"
proof -
  obtain q q' where q: "hold_part q = hold_part r" and rule: "ref_check_holds q e rs = Inr (q', rs')"
    and r': "hold_part r' = hold_part q'" using step by (rule apply_hold_part)
  have qr: "s_holds q = s_holds r" "s_hold_counts q = s_hold_counts r" "s_holds r' = s_holds q'" "s_hold_counts r' = s_hold_counts q'"
    using q r' by (simp_all add: hold_part_def)
  have fresh: "entry_id e \<notin> fst ` set (s_holds q)" if "entry_type e = HOLD"
    using new that qr by (simp add: new_holds_def fresh_holds_def ref_chain_def chain_state.truncate_def)
  have wf: "dict_wf (s_holds q)" using inv qr by (simp add: holds_inv_def)
  note rl = holds_rule [OF wf fresh rule]
  from rl(1) obtain d where "hold_effect q q' (scope_id e) (flow HOLD e - flow HOLD_VOID e) d" by blast
  then have eff: "hold_effect r r' (scope_id e) (flow HOLD e - flow HOLD_VOID e) d"
    using qr by (simp add: hold_effect_def hold_sum_def hold_count_def chain_holds_open_in_def)
  have pos: "0 < dval (amount e)" if "entry_type e = HOLD"
    using apply_shape(3) [OF step] that by (simp add: zero_value_type_def)
  have "holds_inv r'"
    unfolding holds_inv_def
  proof (intro conjI)
    show "dict_wf (s_holds r')" using rl(2) qr by simp
    show "\<forall>(h, e) \<in> set (s_holds r'). entry_id e = h \<and> entry_type e = HOLD \<and> 0 < dval (amount e)"
      using inv rl(3) qr pos by (auto simp: holds_inv_def split: if_splits)
    show "hold_sum r' = dval (t_holds_open (s_totals r'))"
      using eff inv apply_totals_flow(4) [OF apply_position(1) [OF step]] by (simp add: hold_effect_def holds_inv_def)
    show "\<forall>k. chain_holds_open_in r' k = hold_count r' k"
      using eff inv by (simp add: hold_effect_def holds_inv_def)
  qed
  moreover have "new_holds r' es"
  proof -
    have keys: "fst ` set (s_holds r') \<subseteq> (if entry_type e = HOLD then insert (entry_id e) (fst ` set (s_holds r)) else fst ` set (s_holds r))"
      using rl(3) qr image_mono [OF rl(3), of fst] by (simp split: if_splits)
    have "entry_id x \<notin> fst ` set (s_holds r')" if "x \<in> set es" "entry_type x = HOLD" for x
    proof -
      have "entry_id x \<notin> fst ` set (s_holds r)" "entry_type e = HOLD \<Longrightarrow> entry_id x \<noteq> entry_id e"
        using new that
        by (simp_all add: new_holds_def fresh_holds_def ref_chain_def chain_state.truncate_def image_iff) metis
      with keys show ?thesis by (auto split: if_splits)
    qed
    then show ?thesis
      using new by (auto simp: new_holds_def fresh_holds_def ref_chain_def chain_state.truncate_def split: if_splits)
  qed
  ultimately show ?thesis ..
qed

interpretation hold_pairing: invariant_step "ref_step h w" "\<lambda>rr es. holds_inv (fst rr) \<and> new_holds (fst rr) es" for h w
  by unfold_locales (auto simp: ref_step_def split_paired_all dest: holds_step)

section \<open>Spend and refunds\<close>

definition scope_sum :: "(scope_id, decimal) dict \<Rightarrow> rat" where
  "scope_sum d = sum_list (map (dval \<circ> snd) d)"

definition flows_inv :: "ref_state \<Rightarrow> bool" where
  "flows_inv r \<longleftrightarrow> dict_wf (s_spent r) \<and> dict_wf (s_refunded r)
     \<and> scope_sum (s_spent r) = dval (t_spent (s_totals r)) \<and> scope_sum (s_refunded r) = dval (t_reversed (s_totals r))"

definition refunds_bounded :: "ref_state \<Rightarrow> bool" where
  "refunds_bounded r \<longleftrightarrow> (\<forall>k. dval (chain_refunded_to r k) \<le> dval (chain_spent_by r k))"

lemma scope_sum_update:
  assumes "dict_wf d" "ctx_add (dict_get d k ZERO) a = Inr x"
  shows "scope_sum (AList.update k x d) = scope_sum d + dval a"
  using assms(1) dval_ctx_add [OF assms(2)]
  by (simp add: scope_sum_def sum_list_update [where f = dval] dict_get_def split: option.splits)

lemma flows_step:
  assumes inv: "flows_inv r" and step: "ref_apply r e h rs w = Inr (r', rs')"
  shows "flows_inv r'"
proof -
  obtain q q' where q: "flow_part q = flow_part r" and rule: "ref_check_flows q e w = Inr q'"
    and r': "flow_part r' = flow_part q'" using step by (rule apply_flow_part)
  note tot = apply_totals_flow(2,3) [OF apply_position(1) [OF step]]
  show ?thesis
    using rule q r' inv tot
    by (auto simp: ref_check_flows_def Let_def flow_part_def flows_inv_def flow_def scope_sum_update
        chain_spent_by_def chain_refunded_to_def split: if_splits)
qed

lemma refunds_step:
  assumes inv: "refunds_bounded r" and v3: "w \<or> version e = AUDIT_V3" and step: "ref_apply r e h rs w = Inr (r', rs')"
  shows "refunds_bounded r'"
proof -
  obtain q q' where q: "flow_part q = flow_part r" and rule: "ref_check_flows q e w = Inr q'"
    and r': "flow_part r' = flow_part q'" using step by (rule apply_flow_part)
  have look: "chain_spent_by q = chain_spent_by r" "chain_refunded_to q = chain_refunded_to r"
    "chain_spent_by r' = chain_spent_by q'" "chain_refunded_to r' = chain_refunded_to q'"
    using q r' by (simp_all add: flow_part_def chain_spent_by_def chain_refunded_to_def fun_eq_iff)
  have "0 < dval (amount e)" if "entry_type e = SPEND"
    using apply_shape(3) [OF step] that by (simp add: zero_value_type_def)
  then show ?thesis
    using rule inv v3 unfolding refunds_bounded_def look(3,4) look(1,2) [symmetric]
    by (auto simp: ref_check_flows_def Let_def chain_spent_by_def chain_refunded_to_def dec_lt_iff not_less
        dest!: dval_ctx_add split: if_splits) (metis add.commute add_increasing less_imp_le)+
qed

interpretation scope_flows: invariant_step "ref_step h w" "\<lambda>rr es. flows_inv (fst rr)" for h w
  by unfold_locales (auto simp: ref_step_def split_paired_all dest: flows_step)

interpretation refund_bound: invariant_step "ref_step h w"
  "\<lambda>rr es. refunds_bounded (fst rr) \<and> list_all (\<lambda>e. w \<or> version e = AUDIT_V3) es" for h w
  by unfold_locales (auto simp: ref_step_def split_paired_all dest: refunds_step)


section \<open>The delegation tree\<close>

definition tree_wf :: "(scope_id, budget_node) dict \<Rightarrow> scope_id list \<Rightarrow> bool" where
  "tree_wf ns rts \<longleftrightarrow> dict_wf ns \<and> distinct rts
     \<and> (\<forall>k n. map_of ns k = Some n \<longrightarrow> n_scope_id n = k \<and> distinct (n_child_ids n)
          \<and> (case n_parent_id n of None \<Rightarrow> n_depth n = 0 \<and> k \<in> set rts
             | Some p \<Rightarrow> k \<notin> set rts \<and> (\<exists>pn. map_of ns p = Some pn \<and> n_depth n = n_depth pn + 1 \<and> k \<in> set (n_child_ids pn)))
          \<and> (\<forall>c \<in> set (n_child_ids n). \<exists>cn. map_of ns c = Some cn \<and> n_parent_id cn = Some k))
     \<and> (\<forall>k \<in> set rts. map_of ns k \<noteq> None)"

lemma tree_wfD:
  assumes "tree_wf ns rts" "map_of ns k = Some n"
  shows "n_scope_id n = k" "distinct (n_child_ids n)"
    and "n_parent_id n = None \<Longrightarrow> n_depth n = 0 \<and> k \<in> set rts"
    and "n_parent_id n = Some p \<Longrightarrow> k \<notin> set rts \<and> (\<exists>pn. map_of ns p = Some pn \<and> n_depth n = n_depth pn + 1 \<and> k \<in> set (n_child_ids pn))"
    and "c \<in> set (n_child_ids n) \<Longrightarrow> \<exists>cn. map_of ns c = Some cn \<and> n_parent_id cn = Some k"
proof -
  from assms have *: "n_scope_id n = k \<and> distinct (n_child_ids n)
          \<and> (case n_parent_id n of None \<Rightarrow> n_depth n = 0 \<and> k \<in> set rts
             | Some p \<Rightarrow> k \<notin> set rts \<and> (\<exists>pn. map_of ns p = Some pn \<and> n_depth n = n_depth pn + 1 \<and> k \<in> set (n_child_ids pn)))
          \<and> (\<forall>c \<in> set (n_child_ids n). \<exists>cn. map_of ns c = Some cn \<and> n_parent_id cn = Some k)"
    unfolding tree_wf_def by blast
  show "n_scope_id n = k" "distinct (n_child_ids n)" using * by blast+
  show "n_parent_id n = None \<Longrightarrow> n_depth n = 0 \<and> k \<in> set rts" using * by simp
  show "n_parent_id n = Some p \<Longrightarrow> k \<notin> set rts \<and> (\<exists>pn. map_of ns p = Some pn \<and> n_depth n = n_depth pn + 1 \<and> k \<in> set (n_child_ids pn))"
    using * by simp
  show "c \<in> set (n_child_ids n) \<Longrightarrow> \<exists>cn. map_of ns c = Some cn \<and> n_parent_id cn = Some k" using * by blast
qed

lemma tree_wf_root:
  assumes wf: "tree_wf ns rts" and new: "map_of ns k = None"
    and n: "n_scope_id n = k" "n_parent_id n = None" "n_depth n = 0" "n_child_ids n = []"
  shows "tree_wf (AList.update k n ns) (rts @ [k])"
  unfolding tree_wf_def
proof (intro conjI allI impI ballI)
  show "dict_wf (AList.update k n ns)" using wf by (simp add: tree_wf_def distinct_update)
  show "distinct (rts @ [k])" using wf new unfolding tree_wf_def by auto
  show "map_of (AList.update k n ns) j \<noteq> None" if "j \<in> set (rts @ [k])" for j
    using wf that unfolding tree_wf_def by auto
  fix j m
  assume m: "map_of (AList.update k n ns) j = Some m"
  show "n_scope_id m = j" "distinct (n_child_ids m)"
    using m n tree_wfD(1,2) [OF wf] by (auto split: if_splits)
  show "\<exists>cn. map_of (AList.update k n ns) c = Some cn \<and> n_parent_id cn = Some j" if "c \<in> set (n_child_ids m)" for c
    using m n tree_wfD(5) [OF wf, of j m c] that new by (auto split: if_splits)
  show "case n_parent_id m of None \<Rightarrow> n_depth m = 0 \<and> j \<in> set (rts @ [k])
      | Some p \<Rightarrow> j \<notin> set (rts @ [k]) \<and> (\<exists>pn. map_of (AList.update k n ns) p = Some pn \<and> n_depth m = n_depth pn + 1 \<and> j \<in> set (n_child_ids pn))"
  proof (cases "j = k")
    case True
    with m n show ?thesis by simp
  next
    case False
    with m have m': "map_of ns j = Some m" by simp
    show ?thesis
    proof (cases "n_parent_id m")
      case None
      with tree_wfD(3) [OF wf m'] show ?thesis by simp
    next
      case (Some p)
      from tree_wfD(4) [OF wf m' Some] obtain pn where "j \<notin> set rts" "map_of ns p = Some pn"
        "n_depth m = n_depth pn + 1" "j \<in> set (n_child_ids pn)" by blast
      with Some False new show ?thesis by (cases "p = k") auto
    qed
  qed
qed

lemma tree_wf_alloc:
  assumes wf: "tree_wf ns rts" and k: "map_of ns k = Some n"
  shows "tree_wf (AList.update k (n\<lparr> n_allocated := a \<rparr>) ns) rts"
proof -
  let ?f = "\<lambda>j m. if j = k then m\<lparr> n_allocated := a \<rparr> else m"
  have look: "map_of (AList.update k (n\<lparr> n_allocated := a \<rparr>) ns) j = map_option (?f j) (map_of ns j)" for j
    using k by (cases "map_of ns j") auto
  show ?thesis
    unfolding tree_wf_def look
  proof (intro conjI allI impI ballI)
    show "dict_wf (AList.update k (n\<lparr> n_allocated := a \<rparr>) ns)" using wf by (simp add: tree_wf_def distinct_update)
    show "distinct rts" using wf by (simp add: tree_wf_def)
    show "map_option (?f j) (map_of ns j) \<noteq> None" if "j \<in> set rts" for j
      using wf that unfolding tree_wf_def by auto
    fix j m
    assume "map_option (?f j) (map_of ns j) = Some m"
    then obtain m0 where m0: "map_of ns j = Some m0" and m: "m = ?f j m0" by auto
    show "n_scope_id m = j" "distinct (n_child_ids m)" using tree_wfD(1,2) [OF wf m0] m by auto
    show "\<exists>cn. map_option (?f c) (map_of ns c) = Some cn \<and> n_parent_id cn = Some j" if "c \<in> set (n_child_ids m)" for c
      using tree_wfD(5) [OF wf m0, of c] that m by (fastforce split: if_splits)
    show "case n_parent_id m of None \<Rightarrow> n_depth m = 0 \<and> j \<in> set rts
      | Some p \<Rightarrow> j \<notin> set rts \<and> (\<exists>pn. map_option (?f p) (map_of ns p) = Some pn \<and> n_depth m = n_depth pn + 1 \<and> j \<in> set (n_child_ids pn))"
    proof (cases "n_parent_id m0")
      case None
      with tree_wfD(3) [OF wf m0] m show ?thesis by (cases "j = k") simp_all
    next
      case (Some p)
      from tree_wfD(4) [OF wf m0 Some] obtain pn where "j \<notin> set rts" "map_of ns p = Some pn"
        "n_depth m0 = n_depth pn + 1" "j \<in> set (n_child_ids pn)" by blast
      with Some m show ?thesis by (cases "j = k") simp_all
    qed
  qed
qed

lemma tree_wf_child:
  assumes wf: "tree_wf ns rts" and new: "map_of ns k = None" and p: "map_of ns p = Some pn"
    and n: "n_scope_id n = k" "n_parent_id n = Some p" "n_depth n = n_depth pn + 1" "n_child_ids n = []"
  shows "tree_wf (extend_children (AList.update k n ns) (p, [k])) rts"
proof -
  let ?ns = "extend_children (AList.update k n ns) (p, [k])"
  have pk: "p \<noteq> k" using new p by auto
  have look: "map_of ?ns j = (if j = k then Some n else if j = p then Some (pn\<lparr> n_child_ids := n_child_ids pn @ [k] \<rparr>) else map_of ns j)" for j
    using pk p by (simp add: map_of_extend_children)
  have kroot: "k \<notin> set rts" using wf new unfolding tree_wf_def by auto
  have kchild: "k \<notin> set (n_child_ids m)" if "map_of ns j = Some m" for j m
    using tree_wfD(5) [OF wf that, of k] new by auto
  show ?thesis
    unfolding tree_wf_def
  proof (intro conjI allI impI ballI)
    show "dict_wf ?ns" using wf by (simp add: tree_wf_def distinct_update keys_extend_children)
    show "distinct rts" using wf by (simp add: tree_wf_def)
    show "map_of ?ns j \<noteq> None" if "j \<in> set rts" for j
      using wf that unfolding tree_wf_def look by auto
    fix j m
    assume m: "map_of ?ns j = Some m"
    consider "j = k" "m = n" | "j = p" "m = pn\<lparr> n_child_ids := n_child_ids pn @ [k] \<rparr>" | "j \<noteq> k" "j \<noteq> p" "map_of ns j = Some m"
      using m unfolding look by (auto split: if_splits)
    note cases = this
    show "n_scope_id m = j" "distinct (n_child_ids m)"
      using cases n tree_wfD(1,2) [OF wf] p kchild [OF p] by (cases; auto)+
    show "\<exists>cn. map_of ?ns c = Some cn \<and> n_parent_id cn = Some j" if c: "c \<in> set (n_child_ids m)" for c
      using cases
    proof cases
      case 1
      with c n show ?thesis by simp
    next
      case 2
      with c have "c = k \<or> c \<in> set (n_child_ids pn)" by auto
      then show ?thesis
      proof
        assume "c = k"
        then show ?thesis using 2 n by (simp add: look)
      next
        assume "c \<in> set (n_child_ids pn)"
        from tree_wfD(5) [OF wf p this] obtain cn where "map_of ns c = Some cn" "n_parent_id cn = Some p" by blast
        then show ?thesis using new p 2 by (auto simp: look)
      qed
    next
      case 3
      from tree_wfD(5) [OF wf 3(3) c] obtain cn where "map_of ns c = Some cn" "n_parent_id cn = Some j" by blast
      then show ?thesis using new p by (auto simp: look)
    qed
    have old: "case n_parent_id m0 of None \<Rightarrow> n_depth m0 = 0 \<and> j \<in> set rts
        | Some q \<Rightarrow> j \<notin> set rts \<and> (\<exists>qn. map_of ?ns q = Some qn \<and> n_depth m0 = n_depth qn + 1 \<and> j \<in> set (n_child_ids qn))"
      if m0: "map_of ns j = Some m0" for m0
    proof (cases "n_parent_id m0")
      case None
      with tree_wfD(3) [OF wf m0] show ?thesis by simp
    next
      case (Some q)
      from tree_wfD(4) [OF wf m0 Some] obtain qn where "j \<notin> set rts" "map_of ns q = Some qn"
        "n_depth m0 = n_depth qn + 1" "j \<in> set (n_child_ids qn)" by blast
      with Some new p show ?thesis by (auto simp: look)
    qed
    show "case n_parent_id m of None \<Rightarrow> n_depth m = 0 \<and> j \<in> set rts
        | Some q \<Rightarrow> j \<notin> set rts \<and> (\<exists>qn. map_of ?ns q = Some qn \<and> n_depth m = n_depth qn + 1 \<and> j \<in> set (n_child_ids qn))"
      using cases
    proof cases
      case 1
      then show ?thesis using n kroot pk by (simp add: look)
    next
      case 2
      then show ?thesis using old [of pn] p by (cases "n_parent_id pn") simp_all
    next
      case 3
      then show ?thesis using old by simp
    qed
  qed
qed

lemma tree_step:
  assumes inv: "tree_wf (s_nodes r) (s_roots r)" and step: "ref_apply r e h rs w = Inr (r', rs')"
  shows "tree_wf (s_nodes r') (s_roots r')"
proof -
  obtain q q' where q: "tree_part q = tree_part r" and rule: "ref_check_governance q e = Inr q'"
    and r': "tree_part r' = tree_part q'" using step by (rule apply_tree_part)
  from rule obtain g where g: "ref_fold_legacy q e = Inr g"
    and c: "q' = g \<or> ref_fund_scope g e = Inr q' \<or> ref_allocate g e = Inr q'
      \<or> ref_control g (entry_type_value (entry_type e)) (scope_id e) (timestamp e) (memo e) = Inr q'"
    by (auto simp: ref_check_governance_def Let_def split: if_splits)
  have wf: "tree_wf (s_nodes g) (s_roots g)"
    using inv q fold_legacy_frame [OF g] by (simp add: tree_part_def)
  have "tree_wf (s_nodes q') (s_roots q')"
    using c
  proof (elim disjE)
    assume "ref_fund_scope g e = Inr q'"
    then show ?thesis
      using tree_wf_root [OF wf] tree_wf_alloc [OF wf]
      by (auto simp: ref_fund_scope_def Let_def split: option.splits if_splits)
  next
    assume al: "ref_allocate g e = Inr q'"
    show ?thesis
    proof (cases "direction e = DEBIT")
      case True
      with al wf show ?thesis by (auto simp: ref_allocate_def Let_def)
    next
      case False
      with al obtain p where k: "map_of (s_nodes g) (scope_id e) = None"
        and p: "map_of (s_nodes g) (case counterparty_id e of None \<Rightarrow> [] | Some p \<Rightarrow> p) = Some p"
        and q': "q' = g\<lparr> s_nodes := extend_children (AList.update (scope_id e) \<lparr> n_scope_id = scope_id e,
             n_parent_id = Some (n_scope_id p), n_depth = n_depth p + 1, n_allocated = amount e,
             n_child_ids = [], n_created_at = timestamp e \<rparr> (s_nodes g)) (n_scope_id p, [scope_id e]) \<rparr>"
        by (auto simp: ref_allocate_def Let_def split: option.splits if_splits)
      have "map_of (s_nodes g) (n_scope_id p) = Some p" using tree_wfD(1) [OF wf p] p by simp
      then show ?thesis unfolding q' using tree_wf_child [OF wf k] by simp
    qed
  next
    assume "ref_control g (entry_type_value (entry_type e)) (scope_id e) (timestamp e) (memo e) = Inr q'"
    with control_frame wf show ?thesis by fastforce
  qed (use wf in simp)
  then show ?thesis using r' by (simp add: tree_part_def)
qed

interpretation tree: invariant_step "ref_step h w" "\<lambda>rr es. tree_wf (s_nodes (fst rr)) (s_roots (fst rr))" for h w
  by unfold_locales (auto simp: ref_step_def split_paired_all dest: tree_step)


section \<open>Position\<close>

text \<open>The chain so far, in the order it was applied: its length, its head, its links and its Merkle
  root.\<close>

fun linked :: "ustr \<Rightarrow> nat \<Rightarrow> ledger_entry list \<Rightarrow> bool" where
  "linked h n [] \<longleftrightarrow> True"
| "linked h n (e # es) \<longleftrightarrow> sequence e = n + 1 \<and> prev_hash e = h \<and> linked (entry_hash e) (n + 1) es"

lemma run_position:
  assumes "rfold (ref_step h w) (r, rs) es = Inr (r', rs')"
  shows "s_length r' = s_length r + length es \<and> linked (s_head r) (s_length r) es
    \<and> s_head r' = (if es = [] then s_head r else entry_hash (last es))
    \<and> (h \<longrightarrow> (\<forall>e\<in>set es. recompute_hash e = Inr (entry_hash e)))
    \<and> frontier_of (s_frontier r) (s_length r) (map entry_hash es) = Inr (s_frontier r')
    \<and> config_part r' = config_part r"
  using assms
proof (induction es arbitrary: r rs)
  case Nil
  then show ?case by simp
next
  case (Cons e es)
  then obtain q qs where q: "ref_apply r e h rs w = Inr (q, qs)" and rest: "rfold (ref_step h w) (q, qs) es = Inr (r', rs')"
    by (auto simp: ref_step_def [of h w "(r, rs)"])
  note p = apply_position [OF q]
  from Cons.IH [OF rest] p show ?case by auto
qed


lemma linked_append:
  "linked h n (es @ [e]) \<longleftrightarrow> linked h n es \<and> sequence e = n + length es + 1
     \<and> prev_hash e = (if es = [] then h else entry_hash (last es))"
  by (induction es arbitrary: h n) auto

lemma same_head_same_chain:
  assumes "\<not> sha256_collision"
  shows "linked h 0 es \<Longrightarrow> linked h 0 fs \<Longrightarrow> es \<noteq> [] \<Longrightarrow> fs \<noteq> [] \<Longrightarrow> entry_hash (last es) = entry_hash (last fs) \<Longrightarrow>
    \<forall>e \<in> set es \<union> set fs. recompute_hash e = Inr (entry_hash e) \<and> version e = AUDIT_V3 \<and> valid_instant (timestamp e) \<Longrightarrow>
    list_all2 (\<lambda>e f. same_content e f \<and> entry_hash e = entry_hash f) es fs"
proof (induction es arbitrary: fs rule: rev_induct)
  case (snoc e es)
  then obtain f fs' where fs: "fs = fs' @ [f]" by (cases fs rule: rev_cases) auto
  have "recompute_hash e = Inr (entry_hash e)" "recompute_hash f = Inr (entry_hash e)"
    using snoc.prems(5,6) fs by auto
  then have same: "same_content e f" using recompute_hash_inj [of e _ f] assms snoc.prems(6) fs by auto
  then have len: "length es = length fs'" and prev: "prev_hash e = prev_hash f"
    using snoc.prems(1,2) fs by (auto simp: linked_append same_content_def)
  show ?case
  proof (cases "es = []")
    case True
    then show ?thesis using len same snoc.prems(5) fs by simp
  next
    case False
    then have "fs' \<noteq> []" using len by auto
    moreover have "entry_hash (last es) = entry_hash (last fs')"
      using prev snoc.prems(1,2) fs False \<open>fs' \<noteq> []\<close> by (simp add: linked_append)
    ultimately have "list_all2 (\<lambda>e f. same_content e f \<and> entry_hash e = entry_hash f) es fs'"
      using snoc.prems fs False by (intro snoc.IH) (auto simp: linked_append)
    then show ?thesis using same snoc.prems(5) fs by (simp add: list_all2_appendI)
  qed
qed simp

section \<open>Replays\<close>

lemma ref_chain_simps [simp]:
  "s_balances (ref_chain r) = s_balances r" "s_totals (ref_chain r) = s_totals r" "s_head (ref_chain r) = s_head r"
  "s_length (ref_chain r) = s_length r" "s_holds (ref_chain r) = s_holds r" "s_nodes (ref_chain r) = s_nodes r"
  "s_roots (ref_chain r) = s_roots r" "s_spent (ref_chain r) = s_spent r" "s_refunded (ref_chain r) = s_refunded r"
  "s_hold_counts (ref_chain r) = s_hold_counts r" "s_spend_refunds (ref_chain r) = s_spend_refunds r"
  "s_frontier (ref_chain r) = s_frontier r" "s_tripped (ref_chain r) = s_tripped r" "s_unit (ref_chain r) = s_unit r"
  by (simp_all add: ref_chain_def chain_state.truncate_def)

definition same_books :: "chain_state \<Rightarrow> ref_state \<Rightarrow> bool" where
  "same_books s r \<longleftrightarrow> s_balances s = s_balances r \<and> s_totals s = s_totals r \<and> s_head s = s_head r
     \<and> s_length s = s_length r \<and> s_holds s = s_holds r \<and> s_nodes s = s_nodes r \<and> s_roots s = s_roots r
     \<and> s_spent s = s_spent r \<and> s_refunded s = s_refunded r \<and> s_hold_counts s = s_hold_counts r
     \<and> s_spend_refunds s = s_spend_refunds r \<and> s_frontier s = s_frontier r"

lemma replay_run:
  assumes "replay es legacy fin resolve None u = Inr s"
  obtains f r rs where "f = (case resolve of None \<Rightarrow> spend_index es | Some f \<Rightarrow> f)"
    "rfold (ref_step True False) (ref_start (empty_chain u legacy) (Some f), Some {}) es = Inr (r, rs)"
    "dval (r_net r) = 0" "same_books s r"
proof -
  let ?f = "case resolve of None \<Rightarrow> spend_index es | Some f \<Rightarrow> f"
  from assms obtain r rs q where run: "rfold (ref_step True False) (ref_start (empty_chain u legacy) (Some ?f), Some {}) es = Inr (r, rs)"
    and q: "(if fin then ref_finish r else ref_end_transaction r) = Inr q" and s: "s = ref_chain q"
    unfolding replay_reference ref_replay_def by auto
  have "\<exists>q0. ref_end_transaction r = Inr q0 \<and> (q = q0 \<or> ref_apply_legacy q0 = Inr q)"
    using q by (auto simp: ref_finish_def split: if_splits)
  then obtain q0 where q0: "ref_end_transaction r = Inr q0" "q = q0 \<or> ref_apply_legacy q0 = Inr q" by blast
  note e = end_frame [OF q0(1)]
  have "same_books s r"
    using q0(2) e legacy_frame [of q0 q] s by (auto simp: same_books_def parts_def)
  with run e show thesis using that by blast
qed

lemma start_simps [simp]:
  "s_balances (ref_start (empty_chain u l) f) = []" "s_totals (ref_start (empty_chain u l) f) = no_totals"
  "s_head (ref_start (empty_chain u l) f) = genesis u" "s_length (ref_start (empty_chain u l) f) = 0"
  "s_holds (ref_start (empty_chain u l) f) = []" "s_nodes (ref_start (empty_chain u l) f) = []"
  "s_roots (ref_start (empty_chain u l) f) = []" "s_spent (ref_start (empty_chain u l) f) = []"
  "s_refunded (ref_start (empty_chain u l) f) = []" "s_hold_counts (ref_start (empty_chain u l) f) = Map.empty"
  "s_spend_refunds (ref_start (empty_chain u l) f) = []" "s_frontier (ref_start (empty_chain u l) f) = []"
  "r_net (ref_start (empty_chain u l) f) = ZERO" "r_resolve (ref_start b f) = f"
  by (simp_all add: ref_start_def empty_chain_def chain_state.extend_def)

lemma conserved_start: "conserved (ref_start (empty_chain u l) f)"
  by (simp add: conserved_def balance_sum_def no_totals_def)

lemma holds_start: "holds_inv (ref_start (empty_chain u l) f)"
  by (simp add: holds_inv_def hold_sum_def hold_count_def no_totals_def chain_holds_open_in_def)

lemma flows_start: "flows_inv (ref_start (empty_chain u l) f)"
  by (simp add: flows_inv_def scope_sum_def no_totals_def)

lemma refunds_start: "refunds_bounded (ref_start (empty_chain u l) f)"
  by (simp add: refunds_bounded_def chain_spent_by_def chain_refunded_to_def dict_get_def)

lemma tree_start: "tree_wf (s_nodes (ref_start (empty_chain u l) f)) (s_roots (ref_start (empty_chain u l) f))"
  by (simp add: tree_wf_def)

text \<open>C5: Every chain a replay accepts conserves money: what the scopes hold, plus what is
  encumbered, plus what was spent, is what was funded plus what was refunded.\<close>

theorem replay_conserves:
  assumes "replay es legacy fin resolve None u = Inr s"
  shows "balance_sum s + dval (t_holds_open (s_totals s)) + dval (t_spent (s_totals s))
       = dval (t_funded (s_totals s)) + dval (t_reversed (s_totals s))"
proof -
  from assms obtain f r rs where run: "rfold (ref_step True False) (ref_start (empty_chain u legacy) (Some f), Some {}) es = Inr (r, rs)"
    and net: "dval (r_net r) = 0" and b: "same_books s r" by (rule replay_run)
  have "conserved r" using conservation.run_keeps [OF _ run] conserved_start by simp
  with net b show ?thesis by (simp add: conserved_def same_books_def balance_sum_def)
qed

text \<open>C19: In an accepted chain whose hold ids are distinct, the open holds are hold entries filed under
  their own ids, their amounts add up to the encumbered total, and each scope's count is the
  number of its open holds.\<close>

theorem replay_pairs_holds:
  assumes "replay es legacy fin resolve None u = Inr s"
    and "distinct (map entry_id (filter (\<lambda>e. entry_type e = HOLD) es))"
  shows "hold_sum s = dval (t_holds_open (s_totals s)) \<and> (\<forall>k. chain_holds_open_in s k = hold_count s k)
    \<and> list_all (\<lambda>(h, e). entry_id e = h \<and> entry_type e = HOLD \<and> 0 < dval (amount e)) (s_holds s)"
proof -
  from assms(1) obtain f r rs where run: "rfold (ref_step True False) (ref_start (empty_chain u legacy) (Some f), Some {}) es = Inr (r, rs)"
    and b: "same_books s r" by (rule replay_run)
  have "holds_inv r"
    using hold_pairing.run_keeps [OF _ run] holds_start assms(2) by (simp add: new_holds_def fresh_holds_def)
  with b show ?thesis
    by (auto simp: holds_inv_def same_books_def hold_sum_def hold_count_def chain_holds_open_in_def list_all_iff)
qed

text \<open>C9: In an accepted AGOV3 chain no scope has been refunded more than it spent, and the scopes'
  spend and refunds add up to the chain's totals.\<close>

theorem replay_bounds_refunds:
  assumes "replay es legacy fin resolve None u = Inr s" "list_all (\<lambda>e. version e = AUDIT_V3) es"
  shows "dval (chain_refunded_to s k) \<le> dval (chain_spent_by s k)
    \<and> scope_sum (s_spent s) = dval (t_spent (s_totals s)) \<and> scope_sum (s_refunded s) = dval (t_reversed (s_totals s))"
proof -
  from assms(1) obtain f r rs where run: "rfold (ref_step True False) (ref_start (empty_chain u legacy) (Some f), Some {}) es = Inr (r, rs)"
    and b: "same_books s r" by (rule replay_run)
  have "refunds_bounded r" using refund_bound.run_keeps [OF _ run] refunds_start assms(2) by simp
  moreover have "flows_inv r" using scope_flows.run_keeps [OF _ run] flows_start by simp
  ultimately show ?thesis
    using b by (simp add: refunds_bounded_def flows_inv_def same_books_def chain_refunded_to_def chain_spent_by_def)
qed

text \<open>C18: The scopes of an accepted chain form a tree: each is filed under its own id, a scope without
  a parent is a root at depth 0, and any other scope is listed by its parent, one level below it.\<close>

theorem replay_builds_tree:
  assumes "replay es legacy fin resolve None u = Inr s"
  shows "tree_wf (s_nodes s) (s_roots s)"
proof -
  from assms obtain f r rs where run: "rfold (ref_step True False) (ref_start (empty_chain u legacy) (Some f), Some {}) es = Inr (r, rs)"
    and b: "same_books s r" by (rule replay_run)
  have "tree_wf (s_nodes r) (s_roots r)" using tree.run_keeps [OF _ run] tree_start by simp
  with b show ?thesis by (simp add: same_books_def)
qed

lemma replay_position:
  assumes "replay es legacy fin resolve None u = Inr s"
  shows "s_length s = length es" "linked (genesis u) 0 es" "es \<noteq> [] \<Longrightarrow> s_head s = entry_hash (last es)"
    "\<forall>e\<in>set es. recompute_hash e = Inr (entry_hash e)" "frontier_of [] 0 (map entry_hash es) = Inr (s_frontier s)"
proof -
  from assms obtain f r rs where run: "rfold (ref_step True False) (ref_start (empty_chain u legacy) (Some f), Some {}) es = Inr (r, rs)"
    and b: "same_books s r" by (rule replay_run)
  from run_position [OF run] b
  show "s_length s = length es" "linked (genesis u) 0 es" "es \<noteq> [] \<Longrightarrow> s_head s = entry_hash (last es)"
    "\<forall>e\<in>set es. recompute_hash e = Inr (entry_hash e)" "frontier_of [] 0 (map entry_hash es) = Inr (s_frontier s)"
    by (auto simp: same_books_def)
qed


text \<open>The frontier an accepted chain ends with has the RFC 9162 root of all its entry hashes, and
  the chain's length is the number of its entries.\<close>

theorem replay_merkle_root:
  assumes "replay es legacy fin resolve None u = Inr s"
  shows "s_length s = length es \<and> frontier_root (s_frontier s) = mth (entry_leaves (map entry_hash es))"
proof -
  have "list_all (\<lambda>h. fromhex h \<noteq> None) (map entry_hash es)"
    using replay_position(4) [OF assms] by (auto simp: list_all_iff sha256_hex_def dest!: recompute_hash_hex)
  then have "frontier_of [] 0 (map entry_hash es) = Inr (peaks (entry_leaves (map entry_hash es)))"
    using frontier_of_peaks [of _ "[]"] by (simp add: peaks.simps [of "[]"])
  with replay_position(1,5) [OF assms] have "s_frontier s = peaks (entry_leaves (map entry_hash es))" by simp
  with replay_position(1) [OF assms] show ?thesis by (simp only: frontier_root_peaks)
qed


section \<open>A concrete chain\<close>

lemma sealed_sample: "recompute_hash (sealed sample_entry) = Inr (entry_hash (sealed sample_entry))"
  using sample_hash by (auto simp: sealed_def)

lemma sealed_fields:
  "sequence (sealed e) = sequence e" "entry_id (sealed e) = entry_id e" "transaction_id (sealed e) = transaction_id e"
  "timestamp (sealed e) = timestamp e" "entry_type (sealed e) = entry_type e" "direction (sealed e) = direction e"
  "scope_id (sealed e) = scope_id e" "counterparty_id (sealed e) = counterparty_id e" "amount (sealed e) = amount e"
  "balance_after (sealed e) = balance_after e" "prev_hash (sealed e) = prev_hash e" "memo (sealed e) = memo e"
  "ref (sealed e) = ref e" "version (sealed e) = version e"
  by (simp_all add: sealed_def)

definition sample_sealed :: ledger_entry where
  "sample_sealed = sealed sample_entry"

lemma sample_fields:
  "sequence sample_sealed = 1" "entry_id sample_sealed = 7" "transaction_id sample_sealed = 8"
  "timestamp sample_sealed = Instant 2026 10 11 0 0 0 0" "entry_type sample_sealed = FUNDING"
  "direction sample_sealed = CREDIT" "scope_id sample_sealed = lit ''root''" "counterparty_id sample_sealed = None"
  "amount sample_sealed = Dec 100000000 (- 8)" "balance_after sample_sealed = Dec 100000000 (- 8)"
  "prev_hash sample_sealed = GENESIS_HASH" "memo sample_sealed = lit ''a|b''" "ref sample_sealed = None"
  "version sample_sealed = AUDIT_V3"
  by (simp_all add: sample_sealed_def sealed_def sample_entry_def)

definition sample_chain :: "ledger_entry list" where
  "sample_chain = [sample_sealed]"

lemma sample_frontier: "\<exists>f. frontier_append [] 0 (entry_hash sample_sealed) = Inr f"
  using recompute_hash_hex [OF sealed_sample]
  by (auto simp: frontier_append_def sha256_hex_def frontier_carry.simps sample_sealed_def)

lemma more_start_simps [simp]:
  "s_saw_v1 (ref_start (empty_chain u l) f) = False" "s_saw_v2 (ref_start (empty_chain u l) f) = False"
  "s_saw_v3 (ref_start (empty_chain u l) f) = False" "s_seal (ref_start (empty_chain u l) f) = None"
  "s_last_timestamp (ref_start (empty_chain u l) f) = None" "s_last_checkpoint (ref_start (empty_chain u l) f) = None"
  "s_unit (ref_start (empty_chain u l) f) = u" "s_legacy (ref_start (empty_chain u l) f) = l"
  "s_legacy_applied (ref_start (empty_chain u l) f) = False" "r_txn (ref_start b f) = None"
  "s_tripped (ref_start (empty_chain u l) f) = Map.empty" "r_settleable (ref_start b f) = {}"
  by (simp_all add: ref_start_def empty_chain_def chain_state.extend_def)

lemma sample_add: "ctx_add ZERO (Dec 100000000 (- 8)) = Inr (Dec 100000000 (- 8))"
  by (simp add: ctx_add_def arithmetic_fix_def dec_sum_def aligned_def ZERO_def num_digits_def PREC_def digits.simps)

definition sample_node :: budget_node where
  "sample_node = \<lparr> n_scope_id = lit ''root'', n_parent_id = None, n_depth = 0, n_allocated = Dec 100000000 (- 8),
     n_child_ids = [], n_created_at = Instant 2026 10 11 0 0 0 0 \<rparr>"

lemma sample_apply:
  "\<exists>r. ref_apply (ref_start (empty_chain USD []) g) sample_sealed h rs w = Inr (r, rs)
     \<and> s_balances r = [(lit ''root'', Dec 100000000 (- 8))] \<and> dec_eq (r_net r) ZERO
     \<and> s_nodes r = [(lit ''root'', sample_node)] \<and> s_tripped r = Map.empty \<and> s_holds r = [] \<and> \<not> s_saw_v1 r
     \<and> s_totals r = no_totals\<lparr> t_funded := Dec 100000000 (- 8) \<rparr> \<and> s_last_timestamp r = Some (Instant 2026 10 11 0 0 0 0)"
proof -
  let ?r = "ref_start (empty_chain USD []) g"
  let ?a = "Dec 100000000 (- 8)"
  obtain f where f: "frontier_append [] 0 (entry_hash sample_sealed) = Inr f" using sample_frontier by blast
  have hash: "recompute_hash sample_sealed = Inr (entry_hash sample_sealed)"
    using sealed_sample by (simp add: sample_sealed_def)
  have 1: "ref_check_link ?r sample_sealed h = Inr ()"
    using hash by (simp add: ref_check_link_def check_entry_hash_def sample_fields genesis_def known_version_def)
  have 2: "ref_check_version ?r sample_sealed = Inr (?r\<lparr> s_saw_v3 := True, s_saw_v2 := True \<rparr>)"
    by (simp add: ref_check_version_def sample_fields)
  let ?r1 = "?r\<lparr> s_saw_v3 := True, s_saw_v2 := True \<rparr>"
  have "ref_check_v3 ?r1 sample_sealed = Inr ()"
    by (simp add: ref_check_v3_def sample_fields check_text_def MAX_ID_BYTES_def MAX_MEMO_BYTES_def is_control_def)
  moreover have "counted ?a USD = Inr True" "\<not> dec_le ?a ZERO"
    by (simp_all add: counted_def money_eval)
  ultimately have 3: "ref_check_shape ?r1 sample_sealed = Inr ?r1"
    by (simp add: ref_check_shape_def sample_fields zero_value_type_def)
  let ?r2 = "?r1\<lparr> r_txn := Some 8 \<rparr>"
  have 4: "ref_begin_transaction ?r1 sample_sealed = Inr ?r2"
    by (simp add: ref_begin_transaction_def sample_fields)
  let ?r3 = "?r2\<lparr> s_balances := [(lit ''root'', ?a)] \<rparr>"
  have "dec_eq ?a ?a" by (simp add: dec_eq_iff)
  then have 5: "ref_move_balance ?r2 sample_sealed = Inr ?r3"
    by (simp add: ref_move_balance_def sample_fields chain_balance_def dict_get_def signed_amount_def sample_add
        zero_value_type_def balanced_type_def)
  have 6: "ref_check_holds ?r3 sample_sealed rs = Inr (?r3, rs)"
    by (simp add: ref_check_holds_def sample_fields)
  have 7: "ref_check_flows ?r3 sample_sealed w = Inr ?r3"
    by (simp add: ref_check_flows_def sample_fields)
  have "ref_fold_legacy ?r3 sample_sealed = Inr (?r3\<lparr> s_legacy_applied := True \<rparr>)"
    by (simp add: ref_fold_legacy_def ref_apply_legacy_def sample_fields)
  then obtain r4 where 8: "ref_check_governance ?r3 sample_sealed = Inr r4"
    and nodes: "s_nodes r4 = [(lit ''root'', sample_node)]" "s_tripped r4 = Map.empty" "\<not> s_saw_v1 r4"
    by (simp add: ref_check_governance_def sample_fields ref_fund_scope_def Let_def sample_node_def)
  have r4: "s_totals r4 = no_totals" "s_frontier r4 = []" "s_length r4 = 0" "s_balances r4 = [(lit ''root'', ?a)]" "r_net r4 = ZERO"
    using governance_frame [OF 8] by (simp_all add: parts_def)
  obtain r5 where 9: "ref_advance r4 sample_sealed = Inr r5" and pos: "s_totals r5 = no_totals\<lparr> t_funded := ?a \<rparr>"
    "s_last_timestamp r5 = Some (Instant 2026 10 11 0 0 0 0)" "s_saw_v1 r5 = s_saw_v1 r4"
    using r4 f by (simp add: ref_advance_def apply_totals_def sample_fields no_totals_def sample_add)
  have "s_balances r5 = [(lit ''root'', ?a)]" "r_net r5 = ZERO" "s_nodes r5 = [(lit ''root'', sample_node)]" "s_tripped r5 = Map.empty"
      "s_holds r5 = []"
    using advance_frame [OF 9] r4 nodes governance_frame [OF 8] by (simp_all add: parts_def)
  moreover have "ref_apply ?r sample_sealed h rs w = Inr (r5, rs)"
    unfolding ref_apply_def by (simp only: 1 2 3 4 5 6 7 8 9 rbind_Inr prod.case)
  ultimately show ?thesis using pos nodes(3) by (auto simp: dec_eq_iff)
qed

lemma sample_replay:
  "\<exists>s. replay sample_chain [] False None None USD = Inr s \<and> s_balances s = [(lit ''root'', Dec 100000000 (- 8))]"
proof -
  obtain r where r: "ref_apply (ref_start (empty_chain USD []) (Some (spend_index sample_chain))) sample_sealed True (Some {}) False = Inr (r, Some {})"
    "s_balances r = [(lit ''root'', Dec 100000000 (- 8))]" "dec_eq (r_net r) ZERO"
    using sample_apply by blast
  show ?thesis
    unfolding replay_reference ref_replay_def option.simps
    by (simp add: sample_chain_def ref_step_def r(1) [unfolded sample_chain_def] ref_end_transaction_def r(2,3))
qed


theorem replay_conserves_witness:
  "\<exists>s. replay sample_chain [] False None None USD = Inr s \<and> s_balances s \<noteq> []
     \<and> balance_sum s + dval (t_holds_open (s_totals s)) + dval (t_spent (s_totals s))
       = dval (t_funded (s_totals s)) + dval (t_reversed (s_totals s))"
  using sample_replay replay_conserves [of sample_chain "[]" False None USD] by fastforce

theorem replay_pairs_holds_witness:
  "\<exists>s. replay sample_chain [] False None None USD = Inr s \<and> hold_sum s = dval (t_holds_open (s_totals s))"
proof -
  obtain s where "replay sample_chain [] False None None USD = Inr s" using sample_replay by blast
  with replay_pairs_holds [OF this] show ?thesis by (auto simp: sample_chain_def sample_fields)
qed

theorem replay_bounds_refunds_witness:
  "\<exists>s. replay sample_chain [] False None None USD = Inr s
     \<and> dval (chain_refunded_to s (lit ''root'')) \<le> dval (chain_spent_by s (lit ''root''))"
proof -
  obtain s where s: "replay sample_chain [] False None None USD = Inr s" using sample_replay by blast
  moreover have "list_all (\<lambda>e. version e = AUDIT_V3) sample_chain" by (simp add: sample_chain_def sample_fields)
  ultimately show ?thesis using replay_bounds_refunds [OF s] by blast
qed

theorem replay_builds_tree_witness:
  "\<exists>s. replay sample_chain [] False None None USD = Inr s \<and> tree_wf (s_nodes s) (s_roots s)"
  using sample_replay replay_builds_tree [of sample_chain "[]" False None USD] by fastforce


theorem replay_merkle_root_witness:
  "\<exists>s. replay sample_chain [] False None None USD = Inr s
     \<and> frontier_root (s_frontier s) = mth (entry_leaves (map entry_hash sample_chain))"
  using sample_replay replay_merkle_root [of sample_chain "[]" False None USD] by fastforce

end
