(* ===== verification/Ledger.thy ===== *)
theory Ledger
  imports Invariants
begin

text \<open>
  Writing (\<open>core.py\<close>: \<open>WriteBatch\<close>, \<open>_Pending\<close>, \<open>Ledger\<close>) for a ledger with no store, whose history
  is kept in memory. A field \<open>_x\<close> of \<open>Ledger\<close> is \<open>g_x\<close>, of a batch \<open>b_x\<close>, of a unit of work \<open>p_x\<close>, of an
  authorization \<open>a_x\<close>, of an idempotency record \<open>k_x\<close>.

  Random ids and the clock are the \<open>world\<close>: \<open>uuid.uuid4()\<close> and \<open>datetime.now(UTC)\<close> return its next
  value and advance it. What the program relies on, that ids do not repeat, is a hypothesis of the
  theorems that need it. The lock is held by every operation from begin to commit, so an operation
  is one step here. The audit log is output only.
\<close>

section \<open>Ids and time\<close>

record world =
  w_uuid :: "nat \<Rightarrow> uuid"
  w_now :: "nat \<Rightarrow> instant"
  w_drawn :: nat
  w_ticks :: nat

definition uuid4 :: "world \<Rightarrow> uuid \<times> world" where
  "uuid4 w = (w_uuid w (w_drawn w), w\<lparr> w_drawn := w_drawn w + 1 \<rparr>)"

definition utcnow :: "world \<Rightarrow> instant \<times> world" where
  "utcnow w = (w_now w (w_ticks w), w\<lparr> w_ticks := w_ticks w + 1 \<rparr>)"

section \<open>Units of work\<close>

record authorization =
  a_authorization_id :: uuid
  a_scope_id :: scope_id
  a_amount :: decimal
  a_opened_at :: instant
  a_entry :: ledger_entry

definition authorization_for :: "ledger_entry \<Rightarrow> authorization" where
  "authorization_for hold = \<lparr> a_authorization_id = entry_id hold, a_scope_id = scope_id hold,
     a_amount = amount hold, a_opened_at = timestamp hold, a_entry = hold \<rparr>"

record idempotency_record =
  k_key :: ustr
  k_request :: ustr
  k_outcome :: string
  k_sequence :: nat
  k_created_at :: instant

record write_batch =
  b_entries :: "ledger_entry list"
  b_nodes :: "budget_node set"
  b_control_events :: "control_event list"
  b_opened :: "authorization list"
  b_closed :: "uuid set"
  b_redeemed :: "uuid list"
  b_idempotency :: "idempotency_record list"

definition empty_batch :: write_batch where
  "empty_batch = \<lparr> b_entries = [], b_nodes = {}, b_control_events = [], b_opened = [], b_closed = {},
     b_redeemed = [], b_idempotency = [] \<rparr>"

definition batch_true :: "write_batch \<Rightarrow> bool" where
  "batch_true b \<longleftrightarrow> b_entries b \<noteq> [] \<or> b_nodes b \<noteq> {} \<or> b_control_events b \<noteq> [] \<or> b_opened b \<noteq> []
     \<or> b_closed b \<noteq> {} \<or> b_redeemed b \<noteq> [] \<or> b_idempotency b \<noteq> []"

record pending =
  p_view :: overlay
  p_batch :: write_batch

text \<open>What \<open>post\<close> checks of one line before building its entry; the amount it writes.\<close>

definition check_line :: "ledger_line \<Rightarrow> decimal res" where
  "check_line l =
     (if l_direction l \<notin> set (legal_directions (l_entry_type l)) then Inl (ValueError ''may not be such a line'')
      else rbind
        (if zero_value_type (l_entry_type l) then
           if \<not> dec_eq (l_amount l) ZERO then Inl (ValueError ''moves no money; its amount must be 0'')
           else Inr ZERO
         else rbind (coerce (ArgDecimal (Finite (l_amount l))) ROUND_FLOOR QUANTUM_EXP) (\<lambda>a.
           if \<not> dec_eq a (l_amount l) then Inl (ValueError ''is not quantized'')
           else if dec_le a ZERO then Inl (ValueError ''line amount must be positive'')
           else Inr a))
        (\<lambda>a.
          if l_ref l \<noteq> None \<and> \<not> v3_referencing_type (l_entry_type l) then Inl (ValueError ''names no hold'')
          else if check_text (l_scope_id l) MAX_ID_BYTES True \<noteq> None then Inl (ValueError ''scope id'')
          else if (\<exists>c \<in> set_option (l_counterparty_id l). check_text c MAX_ID_BYTES True \<noteq> None)
            then Inl (ValueError ''counterparty id'')
          else if check_text (l_memo l) MAX_MEMO_BYTES False \<noteq> None then Inl (ValueError ''memo'')
          else Inr a))"

record building =
  u_world :: world
  u_running :: "(scope_id, decimal) dict"
  u_prev_hash :: ustr
  u_sequence :: nat
  u_built :: "ledger_entry list"

definition signed_line :: "direction \<Rightarrow> decimal \<Rightarrow> decimal" where
  "signed_line d a = (case d of CREDIT \<Rightarrow> a | DEBIT \<Rightarrow> copy_negate a | NONE \<Rightarrow> ZERO)"

definition build_line :: "overlay \<Rightarrow> uuid \<Rightarrow> instant \<Rightarrow> building \<Rightarrow> ledger_line \<Rightarrow> building res" where
  "build_line v txn now b l = rbind (check_line l) (\<lambda>a.
     let current = dict_get (u_running b) (l_scope_id l) (balance v (l_scope_id l)) in
     rbind (ctx_add current (signed_line (l_direction l) a)) (\<lambda>after.
     let (eid, w) = uuid4 (u_world b);
         e = \<lparr> sequence = u_sequence b + 1, entry_id = eid, transaction_id = txn, timestamp = now,
               entry_type = l_entry_type l, direction = l_direction l, scope_id = l_scope_id l,
               counterparty_id = l_counterparty_id l, amount = a, balance_after = after,
               prev_hash = u_prev_hash b, entry_hash = [], memo = l_memo l, ref = l_ref l, version = AUDIT_V3 \<rparr>
     in rbind (recompute_hash e) (\<lambda>h.
       Inr \<lparr> u_world = w,
             u_running = (if zero_value_type (l_entry_type l) then u_running b
                          else AList.update (l_scope_id l) after (u_running b)),
             u_prev_hash = h, u_sequence = u_sequence b + 1, u_built = u_built b @ [e\<lparr> entry_hash := h \<rparr>] \<rparr>)))"

definition write_step :: "overlay \<Rightarrow> ledger_entry \<Rightarrow> overlay res" where
  "write_step v e = rbind (apply_entry v e False None True) (\<lambda>(v, _). Inr v)"

definition post :: "world \<Rightarrow> pending \<Rightarrow> ledger_line list \<Rightarrow> uuid option \<Rightarrow> (world \<times> pending \<times> ledger_entry list) res" where
  "post w p lines txn =
     (if lines = [] then Inl (ValueError ''a transaction must contain at least one line'')
      else let v = p_view p;
               (txn_id, w) = (case txn of Some t \<Rightarrow> (t, w) | None \<Rightarrow> uuid4 w);
               (clock, w) = utcnow w;
               now = (case v_last_timestamp v of None \<Rightarrow> clock | Some t \<Rightarrow> if clock < t then t else clock)
      in rbind (rfold (build_line v txn_id now) \<lparr> u_world = w, u_running = [], u_prev_hash = v_head v,
                  u_sequence = v_length v, u_built = [] \<rparr> lines) (\<lambda>b.
         rbind (rfold write_step v (u_built b)) (\<lambda>v.
         rbind (end_transaction v) (\<lambda>v.
           Inr (u_world b,
                p\<lparr> p_view := v, p_batch := (p_batch p)\<lparr> b_entries := b_entries (p_batch p) @ u_built b \<rparr> \<rparr>,
                u_built b)))))"

section \<open>The ledger\<close>

record ledger =
  g_entries :: "ledger_entry list"
  g_state :: chain_state
  g_open_auths :: "(uuid, authorization) dict"
  g_legacy_auth_ids :: "(uuid, uuid) dict"
  g_keys :: "(ustr, idempotency_record) dict"

definition new_ledger :: "unit_of_account \<Rightarrow> ledger" where
  "new_ledger u = \<lparr> g_entries = [], g_state = empty_chain u [], g_open_auths = [], g_legacy_auth_ids = [], g_keys = [] \<rparr>"

definition adopt :: "ledger \<Rightarrow> ledger_entry list \<Rightarrow> control_event list \<Rightarrow> bool \<Rightarrow> ledger res" where
  "adopt g es legacy fin = rbind (replay es legacy fin None None (s_unit (g_state g))) (\<lambda>s.
     Inr (g\<lparr> g_entries := es, g_state := s,
             g_open_auths := map (\<lambda>(h, e). (h, authorization_for e)) (s_holds s),
             g_legacy_auth_ids := [] \<rparr>))"

definition rewind :: "ledger \<Rightarrow> nat \<Rightarrow> ledger res" where
  "rewind g n = rbind (adopt g (take n (g_entries g)) [] False) (\<lambda>g'.
     Inr (g'\<lparr> g_keys := filter (\<lambda>(k, r). k_sequence r \<le> n) (g_keys g) \<rparr>))"

definition ledger_resolve :: "ledger_entry list \<Rightarrow> uuid \<Rightarrow> ledger_entry option" where
  "ledger_resolve es i = List.find (\<lambda>e. entry_id e = i) (rev es)"

definition authorization_id :: "ledger \<Rightarrow> uuid \<Rightarrow> uuid" where
  "authorization_id g h = dict_get (g_legacy_auth_ids g) h h"

definition ledger_entry_at :: "ledger \<Rightarrow> int \<Rightarrow> ledger_entry option" where
  "ledger_entry_at g n = (if 0 < n \<and> n \<le> int (s_length (g_state g)) then Some (g_entries g ! nat (n - 1)) else None)"

definition find_entries :: "ledger \<Rightarrow> scope_id option \<Rightarrow> entry_type option \<Rightarrow> ustr option \<Rightarrow> uuid option
    \<Rightarrow> uuid option \<Rightarrow> nat \<Rightarrow> nat option \<Rightarrow> ledger_entry list" where
  "find_entries g scope kind m txn r after limit =
     (let matches = filter (\<lambda>e. (scope = None \<or> scope = Some (scope_id e)) \<and> (kind = None \<or> kind = Some (entry_type e))
            \<and> (m = None \<or> m = Some (memo e)) \<and> (txn = None \<or> txn = Some (transaction_id e))
            \<and> (r = None \<or> ref e = r)) (drop after (take (s_length (g_state g)) (g_entries g)))
      in case limit of None \<Rightarrow> matches | Some n \<Rightarrow> take n matches)"

definition ledger_balance :: "ledger \<Rightarrow> scope_id \<Rightarrow> decimal" where
  "ledger_balance g k = dict_get (s_balances (g_state g)) k ZERO"

definition open_holds :: "ledger \<Rightarrow> ledger_entry list" where
  "open_holds g = map snd (s_holds (g_state g))"

definition begin_work :: "ledger \<Rightarrow> pending" where
  "begin_work g = \<lparr> p_view = new_overlay (g_state g) (Some (ledger_resolve (g_entries g))) None, p_batch = empty_batch \<rparr>"

definition follow_holds :: "ledger \<Rightarrow> overlay \<Rightarrow> ledger" where
  "follow_holds g v = g\<lparr>
     g_open_auths := dict_update (filter (\<lambda>(k, a). k \<notin> authorization_id g ` v_closed v) (g_open_auths g))
        (map (\<lambda>(h, e). (entry_id e, authorization_for e)) (v_opened v)),
     g_legacy_auth_ids := filter (\<lambda>(k, a). k \<notin> v_closed v) (g_legacy_auth_ids g) \<rparr>"

text \<open>The cache rows a commit fills in from the view.\<close>

definition fill_batch :: "ledger \<Rightarrow> pending \<Rightarrow> write_batch" where
  "fill_batch g p = (let (nodes, controls, opened) = cache_rows (p_view p) in
     (p_batch p)\<lparr> b_nodes := nodes, b_control_events := controls, b_opened := map authorization_for opened,
        b_closed := authorization_id g ` v_closed (p_view p) \<rparr>)"

definition commit :: "ledger \<Rightarrow> pending \<Rightarrow> ledger res" where
  "commit g p = (let v = p_view p; b = fill_batch g p in
     if \<not> batch_true b then Inr g
     else if v_start_head v \<noteq> s_head (g_state g) then Inl (RuntimeError ''built against a stale ledger head'')
     else let g' = follow_holds g v in
       Inr (g'\<lparr> g_state := merged v, g_entries := g_entries g @ b_entries b,
                g_keys := dict_update (g_keys g) (map (\<lambda>r. (k_key r, r)) (b_idempotency b)) \<rparr>))"

definition ledger_post :: "world \<Rightarrow> ledger \<Rightarrow> ledger_line list \<Rightarrow> uuid option \<Rightarrow> (world \<times> ledger \<times> ledger_entry list) res" where
  "ledger_post w g lines txn = rbind (post w (begin_work g) lines txn) (\<lambda>(w, p, built).
     rbind (commit g p) (\<lambda>g. Inr (w, g, built)))"

section \<open>Verification\<close>

definition replayed :: "ledger \<Rightarrow> chain_state res" where
  "replayed g = (let live = g_state g in
     replay (take (s_length live) (g_entries g)) (s_legacy live) (s_legacy_applied live) None None (s_unit live))"

text \<open>Python's equality of dictionaries of amounts: the same keys, equal values.\<close>

definition same_amounts :: "('k, decimal) dict \<Rightarrow> ('k, decimal) dict \<Rightarrow> bool" where
  "same_amounts d e \<longleftrightarrow> list_all (\<lambda>k. case (map_of d k, map_of e k) of (Some x, Some y) \<Rightarrow> dec_eq x y | _ \<Rightarrow> False)
     (map fst d @ map fst e)"

definition same_totals :: "totals \<Rightarrow> totals \<Rightarrow> bool" where
  "same_totals s t \<longleftrightarrow> dec_eq (t_funded s) (t_funded t) \<and> dec_eq (t_spent s) (t_spent t)
     \<and> dec_eq (t_reversed s) (t_reversed t) \<and> dec_eq (t_holds_open s) (t_holds_open t)"

fun first_problem :: "('a \<Rightarrow> exn option) \<Rightarrow> 'a list \<Rightarrow> exn option" where
  "first_problem f [] = None"
| "first_problem f (x # xs) = (case f x of Some e \<Rightarrow> Some e | None \<Rightarrow> first_problem f xs)"

definition compare_node :: "chain_state \<Rightarrow> scope_id \<times> budget_node \<Rightarrow> exn option" where
  "compare_node r kn = (case map_of (s_nodes r) (fst kn) of
       None \<Rightarrow> Some (LedgerIntegrityError ''registered but the chain never created it'' (Some (fst kn)))
     | Some m \<Rightarrow> if n_parent_id (snd kn) = n_parent_id m \<and> n_depth (snd kn) = n_depth m
           \<and> dec_eq (n_allocated (snd kn)) (n_allocated m) then None
         else Some (LedgerIntegrityError ''topology disagrees with the chain'' (Some (fst kn))))"

definition compare_governance :: "chain_state \<Rightarrow> chain_state \<Rightarrow> unit res" where
  "compare_governance r live = (case first_problem (compare_node r) (s_nodes live) of Some x \<Rightarrow> Inl x
     | None \<Rightarrow>
       if \<not> list_all (\<lambda>k. map_of (s_nodes live) k \<noteq> None) (map fst (s_nodes r))
       then integrity' ''the chain created scopes that are not registered''
       else if dom (s_tripped live) \<noteq> dom (s_tripped r) then integrity' ''breaker state disagrees with the chain''
       else if s_frontier live \<noteq> s_frontier r then integrity' ''the Merkle frontier disagrees with the chain''
       else if \<not> (same_amounts (s_spent live) (s_spent r) \<and> same_amounts (s_refunded live) (s_refunded r))
       then integrity' ''lifetime spend or refunds disagree with the chain''
       else Inr ())"

definition compare_holds :: "chain_state \<Rightarrow> chain_state \<Rightarrow> unit res" where
  "compare_holds r live = (if fst ` set (s_holds r) \<noteq> fst ` set (s_holds live)
     then integrity' ''open holds disagree with the chain'' else Inr ())"

definition compare_balance :: "chain_state \<Rightarrow> scope_id \<times> decimal \<Rightarrow> exn option" where
  "compare_balance r kx = (if dec_eq (dict_get (s_balances r) (fst kx) ZERO) (snd kx) then None
     else Some (LedgerIntegrityError ''cached balance disagrees with replayed balance'' (Some (fst kx))))"

definition verify_chain :: "ledger \<Rightarrow> unit res" where
  "verify_chain g = (let live = g_state g in rbind (replayed g) (\<lambda>r.
     if s_head r \<noteq> s_head live then integrity' ''head hash does not match the chain''
     else rbind (compare_governance r live) (\<lambda>_.
       case first_problem (compare_balance r) (s_balances live) of Some x \<Rightarrow> Inl x
       | None \<Rightarrow> if \<not> same_totals (s_totals r) (s_totals live)
           then integrity' ''cached boundary totals disagree with replay''
           else compare_holds r live)))"

definition verify_conservation :: "ledger \<Rightarrow> unit res" where
  "verify_conservation g = (let t = s_totals (g_state g) in
     rbind (rfold ctx_add ZERO (map snd (s_balances (g_state g)))) (\<lambda>total.
     rbind (ctx_add total (t_holds_open t)) (\<lambda>a. rbind (ctx_add a (t_spent t)) (\<lambda>b.
     rbind (ctx_subtract b (t_reversed t)) (\<lambda>left.
       if \<not> dec_eq left (t_funded t) then integrity' ''conservation violated'' else Inr ())))))"

end
