(* ===== verification/Writes.thy ===== *)
theory Writes
  imports Ledger
begin

text \<open>
  Whatever a write commits, a replay accepts, and reaches the same state. The live ledger checks a
  unit of work in a view of its own, over the state merged so far, with hash checking off and the
  stricter rules for new entries on; a replay starts from nothing and checks everything in one
  view. The two reference runs are related entry by entry: the same chain state, bookkeeping that
  differs only in what no rule can tell apart.
\<close>

section \<open>Bookkeeping\<close>

definition rebook :: "uuid option \<Rightarrow> uuid set \<Rightarrow> decimal \<Rightarrow> (uuid \<Rightarrow> ledger_entry option) option \<Rightarrow> ref_state \<Rightarrow> ref_state" where
  "rebook t S n F r = r\<lparr> r_txn := t, r_settleable := S, r_net := n, r_resolve := F \<rparr>"

lemma rebook_simps [simp]:
  "s_balances (rebook t S n F r) = s_balances r" "s_totals (rebook t S n F r) = s_totals r"
  "s_head (rebook t S n F r) = s_head r" "s_length (rebook t S n F r) = s_length r"
  "s_holds (rebook t S n F r) = s_holds r" "s_ambiguous (rebook t S n F r) = s_ambiguous r"
  "s_saw_v1 (rebook t S n F r) = s_saw_v1 r" "s_saw_v2 (rebook t S n F r) = s_saw_v2 r"
  "s_saw_v3 (rebook t S n F r) = s_saw_v3 r" "s_seal (rebook t S n F r) = s_seal r"
  "s_nodes (rebook t S n F r) = s_nodes r" "s_roots (rebook t S n F r) = s_roots r"
  "s_tripped (rebook t S n F r) = s_tripped r" "s_legacy (rebook t S n F r) = s_legacy r"
  "s_legacy_applied (rebook t S n F r) = s_legacy_applied r" "s_spent (rebook t S n F r) = s_spent r"
  "s_refunded (rebook t S n F r) = s_refunded r" "s_hold_counts (rebook t S n F r) = s_hold_counts r"
  "s_spend_refunds (rebook t S n F r) = s_spend_refunds r" "s_last_timestamp (rebook t S n F r) = s_last_timestamp r"
  "s_last_checkpoint (rebook t S n F r) = s_last_checkpoint r" "s_frontier (rebook t S n F r) = s_frontier r"
  "s_unit (rebook t S n F r) = s_unit r"
  "r_txn (rebook t S n F r) = t" "r_settleable (rebook t S n F r) = S" "r_net (rebook t S n F r) = n"
  "r_resolve (rebook t S n F r) = F"
  by (simp_all add: rebook_def)

lemma rebook_chain [simp]: "ref_chain (rebook t S n F r) = ref_chain r"
  by (simp add: ref_chain_def chain_state.truncate_def)

lemma rebook_self: "rebook (r_txn r) (r_settleable r) (r_net r) (r_resolve r) r = r"
  by (simp add: rebook_def)

lemma rebook_twice [simp]: "rebook t S n F (rebook t' S' n' F' r) = rebook t S n F r"
  by (simp add: rebook_def)

lemma map_sum_rbind: "map_sum id g (rbind x f) = rbind x (\<lambda>a. map_sum id g (f a))"
  by (cases x) simp_all

lemma version_rebook:
  "ref_check_version (rebook t S n F r) e = map_sum id (rebook t S n F) (ref_check_version r e)"
  by (simp add: ref_check_version_def)

lemma link_rebook: "ref_check_link (rebook t S n F r) e h = ref_check_link r e h"
  by (simp add: ref_check_link_def)

lemma checkpoint_rebook:
  "ref_check_checkpoint (rebook t S n F r) e = map_sum id (rebook t S n F) (ref_check_checkpoint r e)"
  by (auto simp: ref_check_checkpoint_def rbind_def rebook_def split: option.split sum.split)

lemma shape_rebook:
  "ref_check_shape (rebook t S n F r) e = map_sum id (rebook t S n F) (ref_check_shape r e)"
proof -
  have v3: "ref_check_v3 (rebook t S n F r) e = ref_check_v3 r e" by (simp add: ref_check_v3_def)
  show ?thesis
    unfolding ref_check_shape_def Let_def v3 checkpoint_rebook rebook_simps
    by (simp add: map_sum_rbind if_distrib [of "map_sum id (rebook t S n F)"] cong: if_cong)
qed

lemma flows_rebook:
  "ref_check_flows (rebook t S n F r) e w = map_sum id (rebook t S n F) (ref_check_flows r e w)"
  by (simp add: ref_check_flows_def Let_def chain_spent_by_def chain_refunded_to_def rbind_def split: sum.split)

lemma control_rebook:
  "ref_control (rebook t S n F r) ty k x y = map_sum id (rebook t S n F) (ref_control r ty k x y)"
  by (simp add: ref_control_def split: option.split)

lemma legacy_rebook: "ref_apply_legacy (rebook t S n F r) = map_sum id (rebook t S n F) (ref_apply_legacy r)"
proof -
  have "rfold ref_apply_control (rebook t S n F r) cs = map_sum id (rebook t S n F) (rfold ref_apply_control r cs)" for r cs
  proof (induction cs arbitrary: r)
    case (Cons c cs)
    then show ?case
      by (cases "ref_apply_control r c") (simp_all add: ref_apply_control_def control_rebook)
  qed simp
  moreover have "(rebook t S n F r)\<lparr> s_legacy_applied := True \<rparr> = rebook t S n F (r\<lparr> s_legacy_applied := True \<rparr>)"
    by (simp add: rebook_def)
  ultimately show ?thesis by (simp only: ref_apply_legacy_def rebook_simps)
qed

lemma fold_legacy_rebook:
  "ref_fold_legacy (rebook t S n F r) e = map_sum id (rebook t S n F) (ref_fold_legacy r e)"
  by (simp add: ref_fold_legacy_def legacy_rebook ref_check_seal_def rbind_def split: sum.split option.split)

lemma fund_rebook: "ref_fund_scope (rebook t S n F r) e = map_sum id (rebook t S n F) (ref_fund_scope r e)"
  by (simp add: ref_fund_scope_def Let_def rbind_def split: sum.split option.split)

lemma allocate_rebook: "ref_allocate (rebook t S n F r) e = map_sum id (rebook t S n F) (ref_allocate r e)"
  by (simp add: ref_allocate_def Let_def ref_require_def rbind_def split: sum.split option.split)

lemma governance_rebook:
  "ref_check_governance (rebook t S n F r) e = map_sum id (rebook t S n F) (ref_check_governance r e)"
  by (simp add: ref_check_governance_def fold_legacy_rebook)
     (cases "ref_fold_legacy r e"; simp add: Let_def fund_rebook allocate_rebook control_rebook
       ref_release_between_def ref_require_def rbind_def split: sum.split option.split)

lemma advance_rebook: "ref_advance (rebook t S n F r) e = map_sum id (rebook t S n F) (ref_advance r e)"
  by (simp add: ref_advance_def rbind_def split: sum.split)


text \<open>A rule that commutes with \<open>rebook\<close> leaves the books as they are.\<close>

lemma rebook_books:
  assumes "\<And>t S n F. g (rebook t S n F r) = map_sum id (rebook t S n F) (g r)" "g r = Inr r'"
  shows "r_txn r' = r_txn r" "r_settleable r' = r_settleable r" "r_net r' = r_net r" "r_resolve r' = r_resolve r"
proof -
  have "g r = map_sum id (rebook (r_txn r) (r_settleable r) (r_net r) (r_resolve r)) (g r)"
    using assms(1) [of "r_txn r" "r_settleable r" "r_net r" "r_resolve r"] by (simp add: rebook_self)
  with assms(2) have "r' = rebook (r_txn r) (r_settleable r) (r_net r) (r_resolve r) r'" by simp
  then show "r_txn r' = r_txn r" "r_settleable r' = r_settleable r" "r_net r' = r_net r" "r_resolve r' = r_resolve r"
    by (metis rebook_simps(24), metis rebook_simps(25), metis rebook_simps(26), metis rebook_simps(27))
qed

lemmas version_books = rebook_books [where g = "\<lambda>r. ref_check_version r e" for e, OF version_rebook]
lemmas shape_books = rebook_books [where g = "\<lambda>r. ref_check_shape r e" for e, OF shape_rebook]
lemmas flows_books = rebook_books [where g = "\<lambda>r. ref_check_flows r e w" for e w, OF flows_rebook]
lemmas governance_books = rebook_books [where g = "\<lambda>r. ref_check_governance r e" for e, OF governance_rebook]
lemmas advance_books = rebook_books [where g = "\<lambda>r. ref_advance r e" for e, OF advance_rebook]

definition net_like :: "decimal \<Rightarrow> decimal \<Rightarrow> bool" where
  "net_like a b \<longleftrightarrow> a = b \<or> coeff a = 0 \<and> coeff b = 0 \<and> QUANTUM_EXP \<le> expo a \<and> QUANTUM_EXP \<le> expo b"

lemma net_like_add: "net_like a b \<Longrightarrow> expo x = QUANTUM_EXP \<Longrightarrow> ctx_add a x = ctx_add b x"
  by (auto simp: net_like_def ctx_add_def dec_sum_def aligned_def min_def)

lemma net_like_zero: "net_like a b \<Longrightarrow> dec_eq a ZERO \<longleftrightarrow> dec_eq b ZERO"
  by (auto simp: net_like_def dec_eq_iff is_zero_iff [symmetric] is_zero_def)

definition resolves_like :: "(uuid \<Rightarrow> ledger_entry option) \<Rightarrow> (uuid \<Rightarrow> ledger_entry option) \<Rightarrow> bool" where
  "resolves_like F G \<longleftrightarrow> (\<forall>k x. F k = Some x \<longrightarrow> entry_type x = SPEND \<longrightarrow> G k = Some x)"

text \<open>The books of the replay, against those of the ledger about to apply an entry of transaction
  \<open>tx\<close>: the same, or the ledger is between transactions and the replay has yet to notice.\<close>

definition books_like :: "ref_state \<Rightarrow> uuid option \<Rightarrow> uuid set \<Rightarrow> decimal \<Rightarrow> uuid \<Rightarrow> bool" where
  "books_like r t S n tx \<longleftrightarrow> net_like (r_net r) n
     \<and> (t = r_txn r \<and> S = r_settleable r
        \<or> r_txn r = None \<and> r_settleable r = {} \<and> t \<noteq> Some tx \<and> (t = None \<longrightarrow> S = {}) \<and> dec_eq n ZERO)"

lemma begin_like:
  assumes "books_like r t S n (transaction_id e)" "ref_begin_transaction r e = Inr r'"
  shows "ref_begin_transaction (rebook t S n F r) e = Inr (rebook (r_txn r') (r_settleable r') n F r')
    \<and> r_net r' = r_net r \<and> r_resolve r' = r_resolve r"
proof -
  have z: "dec_eq (r_net r) ZERO \<longleftrightarrow> dec_eq n ZERO" using assms(1) net_like_zero by (auto simp: books_like_def)
  show ?thesis
  proof (cases "t = r_txn r \<and> S = r_settleable r")
    case True
    then show ?thesis
      using assms(2) z
      by (cases "r_txn r") (auto simp: ref_begin_transaction_def ref_end_transaction_def split: if_splits)
  next
    case False
    with assms(1) have b: "r_txn r = None" "r_settleable r = {}" "t \<noteq> Some (transaction_id e)" "t = None \<longrightarrow> S = {}" "dec_eq n ZERO"
      by (auto simp: books_like_def)
    from assms(2) b have "r' = r\<lparr> r_txn := Some (transaction_id e) \<rparr>" by (simp add: ref_begin_transaction_def)
    then show ?thesis
      using b by (cases t) (simp_all add: ref_begin_transaction_def ref_end_transaction_def)
  qed
qed

lemma move_like:
  assumes "net_like (r_net r) n" "ref_move_balance r e = Inr r'"
    and "balanced_type (entry_type e) \<Longrightarrow> expo (signed_amount e) = QUANTUM_EXP"
  shows "\<exists>n'. ref_move_balance (rebook t S n F r) e = Inr (rebook t S n' F r') \<and> net_like (r_net r') n'
    \<and> r_txn r' = r_txn r \<and> r_settleable r' = r_settleable r \<and> r_resolve r' = r_resolve r"
proof (cases "balanced_type (entry_type e)")
  case True
  then have nz: "\<not> zero_value_type (entry_type e)" by (auto simp: balanced_type_def zero_value_type_def)
  have add: "ctx_add (r_net r) (signed_amount e) = ctx_add n (signed_amount e)"
    using net_like_add [OF assms(1) assms(3) [OF True]] .
  show ?thesis
    using assms(2) True nz add
    by (intro exI [of _ "r_net r'"]) (auto simp: ref_move_balance_def Let_def chain_balance_def net_like_def)
next
  case False
  then show ?thesis
    using assms(1,2)
    by (intro exI [of _ n]; cases "zero_value_type (entry_type e)") (auto simp: ref_move_balance_def Let_def chain_balance_def)
qed

lemma reverse_like:
  assumes "ref_reverse_named r e k = Inr r'" "r_resolve r = Some F" "resolves_like F G"
  shows "ref_reverse_named (rebook t S n (Some G) r) e k = Inr (rebook t S n (Some G) r')"
  using assms
  by (auto simp: ref_reverse_named_def resolves_like_def chain_refunded_of_spend_def split: option.splits if_splits)

lemma holds_like:
  assumes "ref_check_holds r e rs = Inr (r', rs')" "r_resolve r = Some F" "resolves_like F G"
  shows "\<exists>rs2'. ref_check_holds (rebook t (r_settleable r) n (Some G) r) e rs2 = Inr (rebook t (r_settleable r') n (Some G) r', rs2')"
    and "r_net r' = r_net r" "r_txn r' = r_txn r" "r_resolve r' = r_resolve r"
proof -
  have "(\<exists>rs2'. ref_check_holds (rebook t (r_settleable r) n (Some G) r) e rs2 = Inr (rebook t (r_settleable r') n (Some G) r', rs2'))
    \<and> r_net r' = r_net r \<and> r_txn r' = r_txn r \<and> r_resolve r' = r_resolve r"
  proof -
    consider "entry_type e = HOLD" | "entry_type e = HOLD_VOID" "version e = AUDIT_V1"
      | "entry_type e = HOLD_VOID" "version e \<noteq> AUDIT_V1" | "entry_type e \<noteq> HOLD" "entry_type e \<noteq> HOLD_VOID" by blast
    then show ?thesis
    proof cases
      case 1
      then show ?thesis using assms(1) by (auto simp: ref_check_holds_def Let_def ref_open_def split: if_splits)
    next
      case 2
      then have ok: "ref e \<noteq> None \<longrightarrow> referencing_type HOLD_VOID" "ref_release_unnamed r e = Inr r'"
        using assms(1) by (auto simp: ref_check_holds_def Let_def split: if_splits)
      then have "ref_release_unnamed (rebook t S n (Some G) r) e = Inr (rebook t S n (Some G) r')
          \<and> r_net r' = r_net r \<and> r_txn r' = r_txn r \<and> r_resolve r' = r_resolve r \<and> r_settleable r' = r_settleable r" for S
        by (cases "List.find (\<lambda>(h, hold). hold_key hold = hold_key e) (s_holds r)")
          (auto simp: ref_release_unnamed_def ref_close_def)
      with 2 show ?thesis by (simp add: ref_check_holds_def referencing_type_def)
    next
      case 3
      then have ok: "ref_release_named r e rs = Inr (r', rs')"
        using assms(1) by (auto simp: ref_check_holds_def Let_def split: if_splits)
      then obtain h where h: "ref e = Some h" by (auto simp: ref_release_named_def split: option.splits)
      have ty: "v3_referencing_type HOLD_VOID" "referencing_type HOLD_VOID"
        by (simp_all add: v3_referencing_type_def referencing_type_def)
      from ok h have "(\<exists>rs2'. ref_release_named (rebook t (r_settleable r) n (Some G) r) e rs2
            = Inr (rebook t (r_settleable r') n (Some G) r', rs2'))
          \<and> r_net r' = r_net r \<and> r_txn r' = r_txn r \<and> r_resolve r' = r_resolve r"
        by (cases "map_of (s_holds r) h") (auto simp: ref_release_named_def ref_close_def split: if_splits)
      with 3 h ty show ?thesis by (simp add: ref_check_holds_def)
    next
      case 4
      have rv: "ref_reverse_named (rebook t S n (Some G) r) e k = Inr (rebook t S n (Some G) q)
          \<and> r_net q = r_net r \<and> r_txn q = r_txn r \<and> r_resolve q = r_resolve r \<and> r_settleable q = r_settleable r"
        if "ref_reverse_named r e k = Inr q" for k q S
        using reverse_like [OF that assms(2,3)] that
        by (auto simp: ref_reverse_named_def split: option.splits if_splits)
      show ?thesis
      proof (cases "\<exists>k. ref e = Some k \<and> entry_type e = REVERSAL")
        case True
        then obtain k where k: "ref e = Some k" "entry_type e = REVERSAL" by blast
        with assms(1) have "ref_reverse_named r e k = Inr r'"
          by (cases "ref_reverse_named r e k") (auto simp: ref_check_holds_def split: if_splits)
        from rv [OF this] k show ?thesis
          by (simp add: ref_check_holds_def v3_referencing_type_def referencing_type_def)
            (use assms(1) k in \<open>auto simp: ref_check_holds_def referencing_type_def split: if_splits\<close>)
      next
        case False
        with 4 assms(1) show ?thesis by (cases "ref e") (auto simp: ref_check_holds_def Let_def split: if_splits)
      qed
    qed
  qed
  then show "\<exists>rs2'. ref_check_holds (rebook t (r_settleable r) n (Some G) r) e rs2 = Inr (rebook t (r_settleable r') n (Some G) r', rs2')"
    "r_net r' = r_net r" "r_txn r' = r_txn r" "r_resolve r' = r_resolve r" by blast+
qed


section \<open>One entry, live and replayed\<close>

lemma balanced_signed:
  assumes "direction e \<in> set (legal_directions (entry_type e))" "balanced_type (entry_type e)" "expo (amount e) = QUANTUM_EXP"
  shows "expo (signed_amount e) = QUANTUM_EXP"
  using assms by (cases "entry_type e") (auto simp: balanced_type_def signed_amount_def copy_negate_def)

text \<open>An entry whose hash is right and whose transfers are quantized.\<close>

definition written_entry :: "ledger_entry \<Rightarrow> bool" where
  "written_entry e \<longleftrightarrow> recompute_hash e = Inr (entry_hash e)
     \<and> (balanced_type (entry_type e) \<longrightarrow> expo (amount e) = QUANTUM_EXP)"

lemma apply_like:
  assumes step: "ref_apply r e h rs w = Inr (r', rs')"
    and books: "books_like r t S n (transaction_id e)" and res: "r_resolve r = Some F" "resolves_like F G"
    and e: "written_entry e" and w: "w2 \<or> version e = AUDIT_V3 \<Longrightarrow> w \<or> version e = AUDIT_V3"
  shows "\<exists>n' rs2'. ref_apply (rebook t S n (Some G) r) e h2 rs2 w2
      = Inr (rebook (r_txn r') (r_settleable r') n' (Some G) r', rs2')
    \<and> net_like (r_net r') n' \<and> r_txn r' = Some (transaction_id e) \<and> r_resolve r' = Some F"
proof -
  from step obtain r1 r2 r3 r4 r5 r6 r7 where a: "ref_check_link r e h = Inr ()" "ref_check_version r e = Inr r1"
    "ref_check_shape r1 e = Inr r2" "ref_begin_transaction r2 e = Inr r3" "ref_move_balance r3 e = Inr r4"
    "ref_check_holds r4 e rs = Inr (r5, rs')" "ref_check_flows r5 e w = Inr r6"
    "ref_check_governance r6 e = Inr r7" "ref_advance r7 e = Inr r'" by (rule apply_cases)
  note vb = version_books [OF a(2)] and sb = shape_books [OF a(3)]
  have link: "ref_check_link (rebook t S n (Some G) r) e h2 = Inr ()"
    using a(1) e by (auto simp: link_rebook ref_check_link_def written_entry_def check_entry_hash_def split: if_splits)
  have b2: "books_like r2 t S n (transaction_id e)" using books vb sb by (simp add: books_like_def)
  note bl = begin_like [OF b2 a(4), of "Some G"]
  have n3: "net_like (r_net r3) n" using bl books vb sb by (simp add: books_like_def)
  have sgn: "balanced_type (entry_type e) \<Longrightarrow> expo (signed_amount e) = QUANTUM_EXP"
    using balanced_signed shape_facts(1) [OF a(3)] e by (simp add: written_entry_def)
  from move_like [OF n3 a(5) sgn, of "r_txn r3" "r_settleable r3" "Some G"] obtain n' where
    m: "ref_move_balance (rebook (r_txn r3) (r_settleable r3) n (Some G) r3) e = Inr (rebook (r_txn r3) (r_settleable r3) n' (Some G) r4)"
    "net_like (r_net r4) n'" "r_txn r4 = r_txn r3" "r_settleable r4 = r_settleable r3" "r_resolve r4 = r_resolve r3" by blast
  have r4: "r_resolve r4 = Some F" using m bl vb sb res by simp
  from holds_like(1) [OF a(6) r4 res(2), where t = "r_txn r4" and n = n' and ?rs2.0 = rs2] obtain rs2' where
    h: "ref_check_holds (rebook (r_txn r4) (r_settleable r4) n' (Some G) r4) e rs2 = Inr (rebook (r_txn r4) (r_settleable r5) n' (Some G) r5, rs2')" by blast
  note h5 = holds_like(2-4) [OF a(6) r4 res(2)]
  have f: "ref_check_flows r5 e w2 = Inr r6"
    using a(7) w by (auto simp: ref_check_flows_def Let_def split: if_splits)
  note books' = flows_books [OF a(7)] governance_books [OF a(8)] advance_books [OF a(9)]
  have tx: "r_txn r3 = Some (transaction_id e)"
    using a(4) by (auto simp: ref_begin_transaction_def split: if_splits)
  have s: "ref_check_version (rebook t S n (Some G) r) e = Inr (rebook t S n (Some G) r1)"
    "ref_check_shape (rebook t S n (Some G) r1) e = Inr (rebook t S n (Some G) r2)"
    "ref_begin_transaction (rebook t S n (Some G) r2) e = Inr (rebook (r_txn r3) (r_settleable r3) n (Some G) r3)"
    "ref_move_balance (rebook (r_txn r3) (r_settleable r3) n (Some G) r3) e = Inr (rebook (r_txn r4) (r_settleable r4) n' (Some G) r4)"
    "ref_check_holds (rebook (r_txn r4) (r_settleable r4) n' (Some G) r4) e rs2 = Inr (rebook (r_txn r4) (r_settleable r5) n' (Some G) r5, rs2')"
    "ref_check_flows (rebook (r_txn r4) (r_settleable r5) n' (Some G) r5) e w2 = Inr (rebook (r_txn r4) (r_settleable r5) n' (Some G) r6)"
    "ref_check_governance (rebook (r_txn r4) (r_settleable r5) n' (Some G) r6) e = Inr (rebook (r_txn r4) (r_settleable r5) n' (Some G) r7)"
    "ref_advance (rebook (r_txn r4) (r_settleable r5) n' (Some G) r7) e = Inr (rebook (r_txn r4) (r_settleable r5) n' (Some G) r')"
    subgoal by (simp add: version_rebook a(2))
    subgoal by (simp add: shape_rebook a(3))
    subgoal by (rule bl [THEN conjunct1])
    subgoal using m(1) unfolding m(3,4) .
    subgoal by (rule h(1))
    subgoal by (simp only: flows_rebook f map_sum.simps)
    subgoal by (simp only: governance_rebook a(8) map_sum.simps)
    subgoal by (simp only: advance_rebook a(9) map_sum.simps)
    done
  have "ref_apply (rebook t S n (Some G) r) e h2 rs2 w2
      = Inr (rebook (r_txn r4) (r_settleable r5) n' (Some G) r', rs2')"
    unfolding ref_apply_def by (simp only: link s rbind_Inr case_prod_conv)
  then show ?thesis using m(2-5) h5 books' tx r4 by (metis (no_types))
qed


section \<open>Runs\<close>

lemma net_like_trans: "net_like a b \<Longrightarrow> net_like b c \<Longrightarrow> net_like a c"
  by (auto simp: net_like_def)

lemma ref_step_app: "ref_step h w (r, rs) e = ref_apply r e h rs w"
  by (simp add: ref_step_def)

lemma run_same:
  assumes "rfold (ref_step h w) (r, rs) es = Inr (r', rs')" "net_like (r_net r) n" "r_resolve r = Some F"
    and "resolves_like F G" "\<forall>e \<in> set es. written_entry e" "w2 \<longrightarrow> w"
  shows "\<exists>n' rs2'. rfold (ref_step h2 w2) (rebook (r_txn r) (r_settleable r) n (Some G) r, rs2) es
      = Inr (rebook (r_txn r') (r_settleable r') n' (Some G) r', rs2')
    \<and> net_like (r_net r') n' \<and> r_resolve r' = Some F \<and> r_txn r' = (if es = [] then r_txn r else Some (transaction_id (last es)))"
  using assms
proof (induction es arbitrary: r rs n rs2)
  case Nil
  then have "r' = r" by simp
  with Nil.prems(2,3) show ?case by (intro exI [of _ n] exI [of _ rs2]) (simp only: rfold.simps if_True simp_thms)
next
  case (Cons e es)
  from Cons.prems(1) obtain r1 rs1 where s: "ref_apply r e h rs w = Inr (r1, rs1)"
    "rfold (ref_step h w) (r1, rs1) es = Inr (r', rs')" by (auto simp: ref_step_app)
  have "books_like r (r_txn r) (r_settleable r) n (transaction_id e)"
    using Cons.prems(2) by (simp add: books_like_def)
  note like = apply_like [OF s(1) this Cons.prems(3,4), of w2 h2 rs2]
  have e: "written_entry e" using Cons.prems(5) by simp
  from like [OF e] Cons.prems(6) obtain n1 rs3 where
    t: "ref_apply (rebook (r_txn r) (r_settleable r) n (Some G) r) e h2 rs2 w2
      = Inr (rebook (r_txn r1) (r_settleable r1) n1 (Some G) r1, rs3)"
    "net_like (r_net r1) n1" "r_txn r1 = Some (transaction_id e)" "r_resolve r1 = Some F" by blast
  from Cons.prems(5) have "\<forall>e \<in> set es. written_entry e" by simp
  from Cons.IH [OF s(2) t(2,4) Cons.prems(4) this Cons.prems(6), of rs3]
  show ?case using t(3) by (simp only: rfold.simps ref_step_app t(1) rbind_Inr last.simps list.simps if_False split: if_split) (cases "es = []"; simp)
qed

lemma run_like:
  assumes run: "rfold (ref_step h w) (r, rs) es = Inr (r', rs')" "es \<noteq> []"
    and books: "books_like r t S n (transaction_id (hd es))" and res: "r_resolve r = Some F" "resolves_like F G"
    and es: "\<forall>e \<in> set es. written_entry e" and w: "w2 \<longrightarrow> w"
  shows "\<exists>n' rs2'. rfold (ref_step h2 w2) (rebook t S n (Some G) r, rs2) es
      = Inr (rebook (r_txn r') (r_settleable r') n' (Some G) r', rs2')
    \<and> net_like (r_net r') n' \<and> r_resolve r' = Some F \<and> r_txn r' = Some (transaction_id (last es))"
proof -
  from run(2) obtain e es' where c: "es = e # es'" by (cases es) auto
  from run(1) c obtain r1 rs1 where s: "ref_apply r e h rs w = Inr (r1, rs1)"
    "rfold (ref_step h w) (r1, rs1) es' = Inr (r', rs')" by (auto simp: ref_step_app)
  have b: "books_like r t S n (transaction_id e)" using books c by simp
  have e: "written_entry e" using es c by simp
  from apply_like [OF s(1) b res e, of w2 h2 rs2] w obtain n1 rs3 where
    t: "ref_apply (rebook t S n (Some G) r) e h2 rs2 w2 = Inr (rebook (r_txn r1) (r_settleable r1) n1 (Some G) r1, rs3)"
    "net_like (r_net r1) n1" "r_txn r1 = Some (transaction_id e)" "r_resolve r1 = Some F" by blast
  from es c have "\<forall>e \<in> set es'. written_entry e" by simp
  from run_same [OF s(2) t(2,4) res(2) this w, of h2 rs3]
  show ?thesis using t(3) unfolding c by (simp only: rfold.simps ref_step_app t(1) rbind_Inr last.simps split: if_split) (cases "es' = []"; simp)
qed

text \<open>Looking spends up: the ledger's resolver finds nothing the replay's would not.\<close>

lemma spend_index_Some:
  "distinct (map entry_id es) \<Longrightarrow> spend_index es k = Some x \<longleftrightarrow> x \<in> set es \<and> entry_type x = SPEND \<and> entry_id x = k"
proof -
  assume d: "distinct (map entry_id es)"
  let ?d = "rev (map (\<lambda>e. (entry_id e, e)) (filter (\<lambda>e. entry_type e = SPEND) es))"
  have "map fst ?d = rev (map entry_id (filter (\<lambda>e. entry_type e = SPEND) es))" by (simp add: rev_map comp_def)
  then have "distinct (map fst ?d)" using d by (simp add: distinct_map_filter)
  then show ?thesis by (auto simp: spend_index_def map_of_eq_Some_iff)
qed

lemma resolves_index: "distinct (map entry_id (es @ new)) \<Longrightarrow> resolves_like (spend_index es) (spend_index (es @ new))"
  by (auto simp: resolves_like_def spend_index_Some)

lemma resolves_ledger: "distinct (map entry_id es) \<Longrightarrow> resolves_like (ledger_resolve es) (spend_index es)"
  by (auto simp: resolves_like_def ledger_resolve_def find_Some_iff spend_index_Some dest: nth_mem)
    (metis length_rev nth_mem set_rev)

lemma resolves_trans: "resolves_like F G \<Longrightarrow> resolves_like G H \<Longrightarrow> resolves_like F H"
  by (auto simp: resolves_like_def)


section \<open>A unit of work keeps in step with a replay\<close>

definition ref_write :: "ref_state \<Rightarrow> ledger_entry \<Rightarrow> ref_state res" where
  "ref_write r e = rbind (ref_apply r e False None True) (\<lambda>(r, _). Inr r)"

lemma apply_unreleased:
  assumes "ref_apply r e h None w = Inr (r', rs')"
  shows "rs' = None"
proof -
  from assms obtain r4 r5 where "ref_check_holds r4 e None = Inr (r5, rs')" by (rule apply_cases)
  then show ?thesis
    by (auto simp: ref_check_holds_def ref_release_named_def Let_def split: if_splits option.splits)
qed

lemma write_run: "rfold ref_write r es = Inr r' \<longleftrightarrow> rfold (ref_step False True) (r, None) es = Inr (r', None)"
proof (induction es arbitrary: r)
  case (Cons e es)
  show ?case
  proof (cases "ref_apply r e False None True")
    case (Inr x)
    then have "x = (fst x, None)" using apply_unreleased by (metis prod.collapse)
    with Inr Cons.IH [of "fst x"] show ?thesis
      by (metis (no_types, lifting) case_prod_conv rbind_Inr ref_step_app ref_write_def rfold.simps(2))
  qed (simp add: ref_write_def ref_step_app)
qed simp

definition replays_to :: "ledger_entry list \<Rightarrow> unit_of_account \<Rightarrow> ref_state \<Rightarrow> bool" where
  "replays_to es u q \<longleftrightarrow>
     (\<exists>rs. rfold (ref_step True False) (ref_start (empty_chain u []) (Some (spend_index es)), Some {}) es = Inr (q, rs))"

definition in_step :: "ledger_entry list \<Rightarrow> unit_of_account \<Rightarrow> ref_state \<Rightarrow> bool" where
  "in_step es u r \<longleftrightarrow> r_txn r = None \<and> r_settleable r = {} \<and> (\<exists>F. r_resolve r = Some F \<and> resolves_like F (spend_index es))
     \<and> (\<exists>t S n. replays_to es u (rebook t S n (Some (spend_index es)) r) \<and> net_like (r_net r) n \<and> dec_eq n ZERO
          \<and> (if es = [] then t = None \<and> S = {} else t = Some (transaction_id (last es))))"

lemma start_rebook: "ref_start b F = rebook None {} ZERO F (ref_start b F')"
  by (simp add: ref_start_def rebook_def chain_state.extend_def)

lemma start_books:
  "r_txn (ref_start b F) = None" "r_settleable (ref_start b F) = {}" "r_net (ref_start b F) = ZERO" "r_resolve (ref_start b F) = F"
  by (simp_all add: ref_start_def chain_state.extend_def)

lemma rfold_append_Inr:
  "rfold f s xs = Inr s' \<Longrightarrow> rfold f s (xs @ ys) = rfold f s' ys"
  by (induction xs arbitrary: s) auto

lemma in_step_post:
  assumes step: "in_step es u r" and run: "rfold ref_write r new = Inr r1" "ref_end_transaction r1 = Inr r2"
    and new: "new \<noteq> []" "\<forall>e \<in> set (es @ new). written_entry e" "distinct (map entry_id (es @ new))"
    and txn: "es \<noteq> [] \<Longrightarrow> transaction_id (hd new) \<noteq> transaction_id (last es)"
  shows "in_step (es @ new) u r2"
proof -
  let ?G = "spend_index (es @ new)"
  from step obtain F t S n rs where F: "r_resolve r = Some F" "resolves_like F (spend_index es)"
    and q: "rfold (ref_step True False) (ref_start (empty_chain u []) (Some (spend_index es)), Some {}) es
      = Inr (rebook t S n (Some (spend_index es)) r, rs)"
    and n: "net_like (r_net r) n" "dec_eq n ZERO" "if es = [] then t = None \<and> S = {} else t = Some (transaction_id (last es))"
    and r: "r_txn r = None" "r_settleable r = {}"
    by (auto simp: in_step_def replays_to_def)
  have G: "resolves_like (spend_index es) ?G" using new(3) by (rule resolves_index)
  have w: "\<forall>e \<in> set es. written_entry e" "\<forall>e \<in> set new. written_entry e" using new(2) by auto
  have z: "net_like (r_net (ref_start (empty_chain u []) (Some (spend_index es)))) ZERO" by (simp add: start_books net_like_def)
  from run_same [OF q z _ G w(1), of False True "Some {}"] obtain n1 rs1 where
    q1: "rfold (ref_step True False) (ref_start (empty_chain u []) (Some ?G), Some {}) es = Inr (rebook t S n1 (Some ?G) r, rs1)"
      "net_like n n1"
    by (auto simp: start_books start_rebook [of _ "Some ?G" "Some (spend_index es)", symmetric])
  have n1: "net_like (r_net r) n1" "dec_eq n1 ZERO"
    using net_like_trans [OF n(1) q1(2)] net_like_zero [OF q1(2)] n(2) by simp_all
  have books: "books_like r t S n1 (transaction_id (hd new))"
    using n1 n(3) r txn by (auto simp: books_like_def split: if_splits)
  have res: "resolves_like F ?G" using F(2) G by (rule resolves_trans)
  from run_like [OF run(1) [unfolded write_run] new(1) books F(1) res w(2), of False True rs1] obtain n2 rs2 where
    q2: "rfold (ref_step True False) (rebook t S n1 (Some ?G) r, rs1) new
        = Inr (rebook (r_txn r1) (r_settleable r1) n2 (Some ?G) r1, rs2)"
      "net_like (r_net r1) n2" "r_resolve r1 = Some F" "r_txn r1 = Some (transaction_id (last new))" by blast
  have r2: "dec_eq (r_net r1) ZERO" "r2 = r1\<lparr> r_txn := None, r_settleable := {} \<rparr>"
    using run(2) by (auto simp: ref_end_transaction_def split: if_splits)
  have "rebook t' S' n' G' r2 = rebook t' S' n' G' r1" for t' S' n' G' by (simp add: r2 rebook_def)
  then show ?thesis
    unfolding in_step_def replays_to_def
    using r2 q2 res net_like_zero [OF q2(2)] new(1) rfold_append_Inr [OF q1(1), of new]
    by (intro conjI exI [of _ F] exI [of _ "r_txn r1"] exI [of _ "r_settleable r1"] exI [of _ n2] exI [of _ rs2]) simp_all
qed


section \<open>What every run keeps\<close>

lemma expo_ctx_add: "ctx_add a b = Inr x \<Longrightarrow> min (expo a) (expo b) \<le> expo x"
  by (auto simp: ctx_add_def dec_sum_def arithmetic_fix_def Let_def simp del: min_le_iff_disj split: if_splits)

interpretation net_places: invariant_step "ref_step h w"
  "\<lambda>rr es. QUANTUM_EXP \<le> expo (r_net (fst rr)) \<and> (\<forall>e \<in> set es. written_entry e)" for h w
proof
  fix rr rr' :: "ref_state \<times> uuid set option" and e es
  assume inv: "QUANTUM_EXP \<le> expo (r_net (fst rr)) \<and> (\<forall>e \<in> set (e # es). written_entry e)"
    and "ref_step h w rr e = Inr rr'"
  then have step: "ref_apply (fst rr) e h (snd rr) w = Inr (fst rr', snd rr')" by (simp add: ref_step_def)
  have net: "if balanced_type (entry_type e) then ctx_add (r_net (fst rr)) (signed_amount e) = Inr (r_net (fst rr'))
      else r_net (fst rr') = r_net (fst rr)"
    by (rule apply_money [OF step])
  have "balanced_type (entry_type e) \<Longrightarrow> expo (signed_amount e) = QUANTUM_EXP"
    using balanced_signed apply_shape(1) [OF step] inv by (simp add: written_entry_def)
  then have "QUANTUM_EXP \<le> expo (r_net (fst rr'))"
    using net inv by (auto dest: expo_ctx_add split: if_splits)
  then show "QUANTUM_EXP \<le> expo (r_net (fst rr')) \<and> (\<forall>e \<in> set es. written_entry e)" using inv by simp
qed

interpretation hold_ids: invariant_step "ref_step h w"
  "\<lambda>rr es. dict_wf (s_holds (fst rr)) \<and> fst ` set (s_holds (fst rr)) \<union> entry_id ` set es \<subseteq> A" for h w A
proof
  fix rr rr' :: "ref_state \<times> uuid set option" and e es
  assume inv: "dict_wf (s_holds (fst rr)) \<and> fst ` set (s_holds (fst rr)) \<union> entry_id ` set (e # es) \<subseteq> A"
    and "ref_step h w rr e = Inr rr'"
  then have "ref_apply (fst rr) e h (snd rr) w = Inr (fst rr', snd rr')" by (simp add: ref_step_def)
  then obtain q q' where q: "hold_part q = hold_part (fst rr)" "ref_check_holds q e (snd rr) = Inr (q', snd rr')"
    "hold_part (fst rr') = hold_part q'" by (rule apply_hold_part)
  have wf: "dict_wf (s_holds q)" "fst ` set (s_holds q) \<subseteq> A" using inv q(1) by (simp_all add: hold_part_def)
  from q(2) wf(1) have "dict_wf (s_holds q') \<and> fst ` set (s_holds q') \<subseteq> A"
  proof (cases rule: holds_cases)
    case opens
    then show ?thesis using wf inv by (auto simp: ref_open_def dom_update)
  next
    case (closes h hold)
    then show ?thesis using wf dict_wf_delete [OF wf(1), of h] by (auto simp: ref_close_def) (auto simp: AList.delete_eq)
  qed (use wf in simp)
  then show "dict_wf (s_holds (fst rr')) \<and> fst ` set (s_holds (fst rr')) \<union> entry_id ` set es \<subseteq> A"
    using q(3) inv by (simp add: hold_part_def)
qed

section \<open>Ledgers a replay agrees with\<close>

definition ledger_wf :: "ledger \<Rightarrow> bool" where
  "ledger_wf g \<longleftrightarrow> replay (g_entries g) [] False None None (s_unit (g_state g)) = Inr (g_state g)
     \<and> distinct (map entry_id (g_entries g)) \<and> (\<forall>e \<in> set (g_entries g). written_entry e)"

lemma ledger_run:
  assumes "ledger_wf g"
  obtains q rs where "rfold (ref_step True False)
      (ref_start (empty_chain (s_unit (g_state g)) []) (Some (spend_index (g_entries g))), Some {}) (g_entries g) = Inr (q, rs)"
    "dec_eq (r_net q) ZERO" "g_state g = ref_chain q"
proof -
  define u where "u = s_unit (g_state g)"
  have "ref_replay (g_entries g) [] False (spend_index (g_entries g)) u = Inr (g_state g)"
    using assms by (simp add: ledger_wf_def replay_reference u_def)
  then obtain q rs r where
    "rfold (ref_step True False) (ref_start (empty_chain u []) (Some (spend_index (g_entries g))), Some {}) (g_entries g) = Inr (q, rs)"
    "ref_end_transaction q = Inr r" "ref_chain r = g_state g"
    unfolding ref_replay_def by auto
  moreover from this have "dec_eq (r_net q) ZERO" "ref_chain r = ref_chain q"
    by (auto simp: ref_end_transaction_def ref_chain_def chain_state.truncate_def split: if_splits)
  ultimately show thesis using that unfolding u_def by metis
qed

lemma ledger_chain_wf: "ledger_wf g \<Longrightarrow> chain_wf (g_state g)"
proof -
  assume wf: "ledger_wf g"
  then obtain q rs where run: "rfold (ref_step True False) (ref_start (empty_chain (s_unit (g_state g)) [])
      (Some (spend_index (g_entries g))), Some {}) (g_entries g) = Inr (q, rs)" "g_state g = ref_chain q" by (rule ledger_run)
  have "tree_wf (s_nodes q) (s_roots q)" using tree.run_keeps [OF _ run(1)] tree_start by simp
  moreover have "dict_wf (s_holds q)" using hold_ids.run_keeps [OF _ run(1), of UNIV] by simp
  ultimately show ?thesis
    by (auto simp: chain_wf_def run(2) dest: tree_wfD(1)) (auto simp: tree_wf_def)
qed

lemma ledger_hold_ids: "ledger_wf g \<Longrightarrow> fst ` set (s_holds (g_state g)) \<subseteq> entry_id ` set (g_entries g)"
proof -
  assume "ledger_wf g"
  then obtain q rs where run: "rfold (ref_step True False) (ref_start (empty_chain (s_unit (g_state g)) [])
      (Some (spend_index (g_entries g))), Some {}) (g_entries g) = Inr (q, rs)" "g_state g = ref_chain q" by (rule ledger_run)
  then show ?thesis using hold_ids.run_keeps [OF _ run(1), of "entry_id ` set (g_entries g)"] by simp
qed

lemma chain_rebook: "rebook (r_txn q) (r_settleable q) (r_net q) (r_resolve q) (ref_start (ref_chain q) F) = q"
  by (simp add: rebook_def ref_start_def ref_chain_def chain_state.extend_def chain_state.truncate_def)

lemma resolves_refl: "resolves_like F F"
  by (simp add: resolves_like_def)

lemma in_step_begin:
  assumes wf: "ledger_wf g"
  shows "in_step (g_entries g) (s_unit (g_state g)) (ref_start (g_state g) (Some (ledger_resolve (g_entries g))))"
proof -
  let ?u = "s_unit (g_state g)" and ?es = "g_entries g" and ?r = "ref_start (g_state g) (Some (ledger_resolve (g_entries g)))"
  let ?s = "ref_start (empty_chain ?u []) (Some (spend_index ?es))"
  from wf obtain q rs where run: "rfold (ref_step True False) (?s, Some {}) ?es = Inr (q, rs)"
    "dec_eq (r_net q) ZERO" "g_state g = ref_chain q" by (rule ledger_run)
  have ok: "distinct (map entry_id ?es)" "\<forall>e \<in> set ?es. written_entry e" using wf by (simp_all add: ledger_wf_def)
  have "net_like (r_net ?s) ZERO" by (simp add: net_like_def)
  from run_same [OF run(1) this _ resolves_refl ok(2), of "spend_index ?es" False True "Some {}"]
  have books: "r_resolve q = Some (spend_index ?es)" "r_txn q = (if ?es = [] then None else Some (transaction_id (last ?es)))"
    by (auto simp: start_books)
  have "QUANTUM_EXP \<le> expo (r_net q)"
    using net_places.run_keeps [OF _ run(1)] ok(2) by (simp add: ZERO_def QUANTUM_EXP_def)
  then have net: "net_like ZERO (r_net q)" using run(2)
    by (auto simp: net_like_def dec_eq_iff ZERO_def dval_def QUANTUM_EXP_def)
  have "replays_to ?es ?u (rebook (r_txn q) (r_settleable q) (r_net q) (Some (spend_index ?es)) ?r)"
    using run(1) chain_rebook [of q "Some (ledger_resolve ?es)"] books(1) run(3) by (auto simp: replays_to_def)
  moreover have "?es = [] \<Longrightarrow> r_settleable q = {}" using run(1) by (auto simp: start_books)
  ultimately show ?thesis
    unfolding in_step_def using net run(2) books(2) resolves_ledger [OF ok(1)]
    by (auto simp: start_books intro!: exI [of _ "r_txn q"] exI [of _ "r_settleable q"] exI [of _ "r_net q"])
qed

lemma in_step_replay:
  assumes "in_step es u r"
  shows "replay es [] False None None u = Inr (ref_chain r)"
proof -
  from assms obtain t S n rs where
    "rfold (ref_step True False) (ref_start (empty_chain u []) (Some (spend_index es)), Some {}) es
       = Inr (rebook t S n (Some (spend_index es)) r, rs)" "dec_eq n ZERO"
    by (auto simp: in_step_def replays_to_def)
  then show ?thesis
    by (simp add: replay_reference ref_replay_def ref_end_transaction_def) (simp add: ref_chain_def chain_state.truncate_def)
qed


section \<open>Posting\<close>

interpretation write_sim: simulation_step write_step
  "\<lambda>v es. view_rel b v (view_abs v) \<and> fresh_holds b es" ref_write view_abs for b
proof
  fix v e es v'
  assume inv: "view_rel b v (view_abs v) \<and> fresh_holds b (e # es)"
  then have sim: "sim_releasing b (apply_entry v e False None True) (ref_apply (view_abs v) e False None True)"
    by (intro sim_apply) (auto simp: fresh_holds_def)
  then show "map_sum id view_abs (write_step v e) = ref_write (view_abs v) e"
    by (cases "apply_entry v e False None True"; cases "ref_apply (view_abs v) e False None True")
      (auto simp: write_step_def ref_write_def view_rel_def rel_prod_sel split: prod.splits)
  assume "write_step v e = Inr v'"
  with sim inv show "view_rel b v' (view_abs v') \<and> fresh_holds b es"
    by (cases "ref_apply (view_abs v) e False None True")
      (auto simp: write_step_def view_rel_def rel_prod_sel fresh_holds_def)
qed

lemma balanced_nonzero: "balanced_type k \<Longrightarrow> \<not> zero_value_type k"
  by (auto simp: balanced_type_def zero_value_type_def)

lemma check_line_amount: "check_line l = Inr a \<Longrightarrow> \<not> zero_value_type (l_entry_type l) \<Longrightarrow> expo a = QUANTUM_EXP"
  by (auto simp: check_line_def QUANTUM_EXP_def split: if_splits elim: coerce_Inr)

lemma build_line_written:
  assumes "build_line v t now b l = Inr b'"
  obtains e where "u_built b' = u_built b @ [e]" "written_entry e" "transaction_id e = t" "version e = AUDIT_V3"
    "entry_id e = w_uuid (u_world b) (w_drawn (u_world b))" "u_world b' = (u_world b)\<lparr> w_drawn := w_drawn (u_world b) + 1 \<rparr>"
proof -
  let ?e = "\<lambda>a after. \<lparr> sequence = u_sequence b + 1, entry_id = w_uuid (u_world b) (w_drawn (u_world b)), transaction_id = t,
          timestamp = now, entry_type = l_entry_type l, direction = l_direction l, scope_id = l_scope_id l,
          counterparty_id = l_counterparty_id l, amount = a, balance_after = after, prev_hash = u_prev_hash b,
          entry_hash = [], memo = l_memo l, ref = l_ref l, version = AUDIT_V3 \<rparr>"
  from assms obtain a after h where c: "check_line l = Inr a" and h: "recompute_hash (?e a after) = Inr h"
    and b': "u_built b' = u_built b @ [(?e a after)\<lparr> entry_hash := h \<rparr>]"
      "u_world b' = (u_world b)\<lparr> w_drawn := w_drawn (u_world b) + 1 \<rparr>"
    by (auto simp: build_line_def uuid4_def Let_def)
  have "recompute_hash ((?e a after)\<lparr> entry_hash := h \<rparr>) = Inr h" using h by (simp only: recompute_hash_entry_hash)
  then have "written_entry ((?e a after)\<lparr> entry_hash := h \<rparr>)"
    using check_line_amount [OF c balanced_nonzero] by (simp add: written_entry_def)
  then show thesis using that [OF b'(1) _ _ _ _ b'(2)] by simp
qed

lemma build_run:
  assumes "rfold (build_line v t now) b ls = Inr b'"
  shows "\<exists>new. u_built b' = u_built b @ new \<and> length new = length ls
    \<and> map entry_id new = map (w_uuid (u_world b)) [w_drawn (u_world b) ..< w_drawn (u_world b) + length ls]
    \<and> u_world b' = (u_world b)\<lparr> w_drawn := w_drawn (u_world b) + length ls \<rparr>
    \<and> (\<forall>e \<in> set new. written_entry e \<and> transaction_id e = t \<and> version e = AUDIT_V3)"
  using assms
proof (induction ls arbitrary: b)
  case (Cons l ls)
  then obtain b1 where b1: "build_line v t now b l = Inr b1" "rfold (build_line v t now) b1 ls = Inr b'" by auto
  from b1(1) obtain e where e: "u_built b1 = u_built b @ [e]" "written_entry e" "transaction_id e = t" "version e = AUDIT_V3"
    "entry_id e = w_uuid (u_world b) (w_drawn (u_world b))" "u_world b1 = (u_world b)\<lparr> w_drawn := w_drawn (u_world b) + 1 \<rparr>"
    by (rule build_line_written)
  from Cons.IH [OF b1(2)] e obtain new where new: "u_built b' = u_built b @ e # new" "length new = length ls"
    "map entry_id new = map (w_uuid (u_world b)) [w_drawn (u_world b) + 1 ..< w_drawn (u_world b) + 1 + length ls]"
    "u_world b' = (u_world b)\<lparr> w_drawn := w_drawn (u_world b) + 1 + length ls \<rparr>"
    "\<forall>e \<in> set new. written_entry e \<and> transaction_id e = t \<and> version e = AUDIT_V3" by auto
  then show ?case using e by (intro exI [of _ "e # new"]) (simp add: upt_conv_Cons del: upt_Suc)
qed simp

text \<open>The ids still to be drawn, up to the draw number \<open>m\<close>, are new: to each other and to the chain.\<close>

definition fresh_world :: "nat \<Rightarrow> world \<Rightarrow> ledger_entry list \<Rightarrow> bool" where
  "fresh_world m w es \<longleftrightarrow> inj_on (w_uuid w) {w_drawn w ..< m}
     \<and> (\<forall>n \<in> {w_drawn w ..< m}. w_uuid w n \<notin> entry_id ` set es \<union> transaction_id ` set es)"

definition working :: "nat \<Rightarrow> world \<Rightarrow> ledger \<Rightarrow> pending \<Rightarrow> bool" where
  "working m w g p \<longleftrightarrow> (let es = g_entries g @ b_entries (p_batch p); r = view_abs (p_view p) in
     ledger_wf g \<and> view_rel (g_state g) (p_view p) r \<and> in_step es (s_unit (g_state g)) r
     \<and> distinct (map entry_id es) \<and> (\<forall>e \<in> set es. written_entry e) \<and> fresh_world m w es
     \<and> v_start_head (p_view p) = s_head (g_state g))"

lemma begin_working:
  assumes "ledger_wf g" "fresh_world m w (g_entries g)"
  shows "working m w g (begin_work g)"
  using assms in_step_begin [OF assms(1)] view_inv_new [OF ledger_chain_wf [OF assms(1)]]
  by (simp add: working_def begin_work_def empty_batch_def view_abs_new view_rel_def ledger_wf_def) (simp add: new_overlay_def)

lemma post_cases:
  assumes "post w p lines None = Inr (w', p', built)"
  obtains now v1 v2 b where "lines \<noteq> []"
    "rfold (build_line (p_view p) (w_uuid w (w_drawn w)) now) \<lparr> u_world = w\<lparr> w_drawn := w_drawn w + 1, w_ticks := w_ticks w + 1 \<rparr>,
       u_running = [], u_prev_hash = v_head (p_view p), u_sequence = v_length (p_view p), u_built = [] \<rparr> lines = Inr b"
    "rfold write_step (p_view p) (u_built b) = Inr v1" "end_transaction v1 = Inr v2" "built = u_built b" "w' = u_world b"
    "p' = p\<lparr> p_view := v2, p_batch := (p_batch p)\<lparr> b_entries := b_entries (p_batch p) @ built \<rparr> \<rparr>"
  using assms by (auto simp: post_def uuid4_def utcnow_def Let_def split: if_splits)

lemma post_written:
  assumes "post w p lines None = Inr (w', p', built)"
  shows "length built = length lines" "built \<noteq> []" "\<forall>e \<in> set built. written_entry e \<and> transaction_id e = w_uuid w (w_drawn w) \<and> version e = AUDIT_V3"
    "map entry_id built = map (w_uuid w) [w_drawn w + 1 ..< w_drawn w + 1 + length lines]"
    "w' = w\<lparr> w_drawn := w_drawn w + 1 + length lines, w_ticks := w_ticks w + 1 \<rparr>"
proof -
  from assms obtain now b where p: "lines \<noteq> []"
    "rfold (build_line (p_view p) (w_uuid w (w_drawn w)) now) \<lparr> u_world = w\<lparr> w_drawn := w_drawn w + 1, w_ticks := w_ticks w + 1 \<rparr>,
       u_running = [], u_prev_hash = v_head (p_view p), u_sequence = v_length (p_view p), u_built = [] \<rparr> lines = Inr b"
    "built = u_built b" "w' = u_world b" by (rule post_cases)
  from build_run [OF p(2)] p show "length built = length lines" "built \<noteq> []"
    "\<forall>e \<in> set built. written_entry e \<and> transaction_id e = w_uuid w (w_drawn w) \<and> version e = AUDIT_V3"
    "map entry_id built = map (w_uuid w) [w_drawn w + 1 ..< w_drawn w + 1 + length lines]"
    "w' = w\<lparr> w_drawn := w_drawn w + 1 + length lines, w_ticks := w_ticks w + 1 \<rparr>" by auto
qed

lemma fresh_drawn:
  assumes "fresh_world m w es" "w_drawn w + 1 + n \<le> m"
    "map entry_id new = map (w_uuid w) [w_drawn w + 1 ..< w_drawn w + 1 + n]"
    "\<forall>e \<in> set new. transaction_id e = w_uuid w (w_drawn w)"
  shows "distinct (map entry_id new)" "entry_id ` set new \<inter> entry_id ` set es = {}"
    "fresh_world m (w\<lparr> w_drawn := w_drawn w + 1 + n, w_ticks := k \<rparr>) (es @ new)"
    "e \<in> set es \<Longrightarrow> transaction_id e \<noteq> w_uuid w (w_drawn w)"
proof -
  let ?I = "{w_drawn w ..< m}" and ?D = "{w_drawn w + 1 ..< w_drawn w + 1 + n}"
  have inj: "inj_on (w_uuid w) ?I" and out: "\<And>i. i \<in> ?I \<Longrightarrow> w_uuid w i \<notin> entry_id ` set es"
      "\<And>i. i \<in> ?I \<Longrightarrow> w_uuid w i \<notin> transaction_id ` set es"
    using assms(1) by (simp_all add: fresh_world_def)
  have D: "?D \<subseteq> ?I" using assms(2) by auto
  have ids: "entry_id ` set new = w_uuid w ` ?D" using assms(3) by (metis image_set set_upt)
  show "distinct (map entry_id new)" using inj_on_subset [OF inj D] unfolding assms(3) by (simp add: distinct_map del: upt_Suc)
  show "entry_id ` set new \<inter> entry_id ` set es = {}"
  proof (rule equals0I)
    fix x
    assume x: "x \<in> entry_id ` set new \<inter> entry_id ` set es"
    then obtain i where "x = w_uuid w i" "i \<in> ?D" unfolding ids by (elim IntE imageE) simp
    with out(1) [of i] D x show False by auto
  qed
  show "e \<in> set es \<Longrightarrow> transaction_id e \<noteq> w_uuid w (w_drawn w)" using out(2) [of "w_drawn w"] assms(2) by (force simp: image_iff)
  have "w_uuid w i \<notin> entry_id ` set new \<union> transaction_id ` set new" if "w_drawn w + 1 + n \<le> i" "i < m" for i
  proof -
    have ne: "w_uuid w i \<noteq> w_uuid w j" if "j < w_drawn w + 1 + n" "w_drawn w \<le> j" for j
      using inj_onD [OF inj, of i j] that \<open>w_drawn w + 1 + n \<le> i\<close> \<open>i < m\<close> by auto
    have "w_uuid w i \<notin> w_uuid w ` ?D"
    proof
      assume "w_uuid w i \<in> w_uuid w ` ?D"
      then obtain j where "w_uuid w i = w_uuid w j" "w_drawn w + 1 \<le> j" "j < w_drawn w + 1 + n" by (elim imageE) simp
      with ne [of j] show False by simp
    qed
    moreover have "w_uuid w i \<notin> transaction_id ` set new" using ne [of "w_drawn w"] assms(4) by auto
    ultimately show ?thesis unfolding ids by simp
  qed
  moreover have "inj_on (w_uuid w) {w_drawn w + 1 + n ..< m}" using inj by (rule inj_on_subset) auto
  ultimately show "fresh_world m (w\<lparr> w_drawn := w_drawn w + 1 + n, w_ticks := k \<rparr>) (es @ new)"
    using out unfolding fresh_world_def by (auto simp: image_Un)
qed

lemma start_head_kept: "apply_entry v e h rs w = Inr (v', rs') \<Longrightarrow> v_start_head v' = v_start_head v"
proof -
  have cp: "check_checkpoint v e = Inr v' \<Longrightarrow> v_start_head v' = v_start_head v" for v v'
    by (auto simp: check_checkpoint_def split: option.splits if_splits)
  have 1: "check_version v e = Inr v' \<Longrightarrow> v_start_head v' = v_start_head v" for v v'
    by (auto simp: check_version_def split: if_splits)
  have 2: "check_shape v e = Inr v' \<Longrightarrow> v_start_head v' = v_start_head v" for v v'
    by (auto simp: check_shape_def Let_def dest: cp split: if_splits)
  have 3: "begin_transaction v e = Inr v' \<Longrightarrow> v_start_head v' = v_start_head v" for v v'
    by (auto simp: begin_transaction_def end_transaction_def split: if_splits)
  have 4: "move_balance v e = Inr v' \<Longrightarrow> v_start_head v' = v_start_head v" for v v'
    by (cases "zero_value_type (entry_type e)"; cases "balanced_type (entry_type e)") (auto simp: move_balance_def)
  have close: "v_start_head (close_hold v i hold) = v_start_head v" for v i hold
    by (simp add: close_hold_def Let_def split: option.split)
  have rev: "reverse_named v e r = Inr v' \<Longrightarrow> v_start_head v' = v_start_head v" for v v' r
    by (auto simp: reverse_named_def split: option.splits if_splits)
  have rel: "release_named v e rs = Inr (v', rs') \<Longrightarrow> v_start_head v' = v_start_head v" for v v' rs rs'
    by (auto simp: release_named_def Let_def close split: option.splits if_splits)
  have unn: "release_unnamed v e = Inr v' \<Longrightarrow> v_start_head v' = v_start_head v" for v v'
    by (auto simp: release_unnamed_def Let_def close split: option.splits)
  have 5: "check_holds v e rs = Inr (v', rs') \<Longrightarrow> v_start_head v' = v_start_head v" for v v' rs rs'
    by (auto simp: check_holds_def Let_def dest: rev rel unn split: option.splits if_splits)
  have 6: "check_flows v e w = Inr v' \<Longrightarrow> v_start_head v' = v_start_head v" for v v'
    by (auto simp: check_flows_def Let_def split: if_splits)
  have ctl: "control v k i t x = Inr v' \<Longrightarrow> v_start_head v' = v_start_head v" for v v' k i t x
    by (auto simp: control_def split: option.splits if_splits)
  have leg: "rfold apply_control v cs = Inr v' \<Longrightarrow> v_start_head v' = v_start_head v" for v v' cs
    by (induction cs arbitrary: v) (auto simp: apply_control_def dest: ctl)
  have fold: "fold_legacy v e = Inr v' \<Longrightarrow> v_start_head v' = v_start_head v" for v v'
    by (auto simp: fold_legacy_def apply_legacy_def dest!: leg split: if_splits)
  have fund: "fund_scope v e = Inr v' \<Longrightarrow> v_start_head v' = v_start_head v" for v v'
    by (auto simp: fund_scope_def writable_def Let_def split: option.splits if_splits)
  have alloc: "allocate v e = Inr v' \<Longrightarrow> v_start_head v' = v_start_head v" for v v'
    by (auto simp: allocate_def Let_def split: option.splits if_splits)
  have 7: "check_governance v e = Inr v' \<Longrightarrow> v_start_head v' = v_start_head v" for v v'
    by (auto simp: check_governance_def Let_def dest!: fold fund alloc ctl split: if_splits)
  have 8: "advance v e = Inr v' \<Longrightarrow> v_start_head v' = v_start_head v" for v v'
    by (auto simp: advance_def Let_def split: if_splits)
  assume "apply_entry v e h rs w = Inr (v', rs')"
  then show ?thesis by (auto simp: apply_entry_def dest!: 1 2 3 4 5 6 7 8)
qed

lemma writes_start_head: "rfold write_step v es = Inr v' \<Longrightarrow> v_start_head v' = v_start_head v"
  by (induction es arbitrary: v) (auto simp: write_step_def dest!: start_head_kept)

lemma post_working:
  assumes wk: "working m w g p" and post: "post w p lines None = Inr (w', p', built)" and m: "w_drawn w' \<le> m"
  shows "working m w' g p'"
proof -
  let ?es = "g_entries g @ b_entries (p_batch p)" and ?r = "view_abs (p_view p)" and ?b = "g_state g"
  from wk have k: "ledger_wf g" "view_rel ?b (p_view p) ?r" "in_step ?es (s_unit ?b) ?r" "distinct (map entry_id ?es)"
    "\<forall>e \<in> set ?es. written_entry e" "fresh_world m w ?es" "v_start_head (p_view p) = s_head ?b" by (simp_all add: working_def Let_def)
  note w = post_written [OF post]
  have le: "w_drawn w + 1 + length lines \<le> m" using m w(5) by simp
  note f = fresh_drawn [OF k(6) le w(4)]
  have ids: "distinct (map entry_id (?es @ built))" using f(1,2) w(3) k(4) by auto
  have fresh: "fresh_holds ?b built" using ledger_hold_ids [OF k(1)] f(2) w(3) by (auto simp: fresh_holds_def)
  from post obtain v1 v2 where v: "rfold write_step (p_view p) built = Inr v1" "end_transaction v1 = Inr v2"
    "p' = p\<lparr> p_view := v2, p_batch := (p_batch p)\<lparr> b_entries := b_entries (p_batch p) @ built \<rparr> \<rparr>" by (rule post_cases) blast
  have rel1: "view_rel ?b v1 (view_abs v1)" using write_sim.run_keeps [OF _ v(1), of ?b] k(2) fresh by simp
  have run: "rfold ref_write ?r built = Inr (view_abs v1)" using write_sim.run_sim [of ?b "p_view p" built] k(2) fresh v(1) by simp
  from sim_end [OF rel1] v(2) have e: "ref_end_transaction (view_abs v1) = Inr (view_abs v2)" "view_rel ?b v2 (view_abs v2)"
    by (cases "ref_end_transaction (view_abs v1)"; auto simp: view_rel_def)+
  have "in_step (?es @ built) (s_unit ?b) (view_abs v2)"
  proof (rule in_step_post [OF k(3) run e(1) w(2)])
    show "transaction_id (hd built) \<noteq> transaction_id (last ?es)" if "?es \<noteq> []"
      using f(4) [of "last ?es"] w(2,3) last_in_set [OF that] by (metis list.set_sel(1))
  qed (use k(5) w(3) ids in auto)
  moreover have "v_start_head v2 = s_head ?b"
    using writes_start_head [OF v(1)] v(2) k(7) by (auto simp: end_transaction_def split: if_splits)
  ultimately show ?thesis using k v(3) e(2) ids f(3) w(3,5) by (auto simp: working_def Let_def)
qed


section \<open>Committing\<close>

lemma view_unit: "view_rel b v r \<Longrightarrow> s_unit (merged v) = s_unit b"
  by (auto simp: view_rel_def merged_def Let_def)

lemma commit_wf:
  assumes "working m w g p" "commit g p = Inr g'"
  shows "ledger_wf g' \<and> fresh_world m w (g_entries g')
    \<and> g_entries g' = g_entries g @ b_entries (p_batch p) \<and> s_unit (g_state g') = s_unit (g_state g)"
proof (cases "batch_true (fill_batch g p)")
  case False
  then have "b_entries (p_batch p) = []" by (auto simp: batch_true_def fill_batch_def Let_def split: prod.splits)
  moreover have "g' = g" using assms(2) False by (simp add: commit_def Let_def)
  ultimately show ?thesis using assms(1) by (simp add: working_def Let_def)
next
  case True
  then have g': "g_entries g' = g_entries g @ b_entries (p_batch p)" "g_state g' = merged (p_view p)"
    using assms(2) by (auto simp: commit_def fill_batch_def Let_def follow_holds_def split: if_splits prod.splits)
  from assms(1) have k: "view_rel (g_state g) (p_view p) (view_abs (p_view p))"
    "in_step (g_entries g') (s_unit (g_state g)) (view_abs (p_view p))" "distinct (map entry_id (g_entries g'))"
    "\<forall>e \<in> set (g_entries g'). written_entry e" "fresh_world m w (g_entries g')" by (simp_all add: working_def Let_def g')
  have u: "s_unit (g_state g') = s_unit (g_state g)" using view_unit [OF k(1)] g' by simp
  then show ?thesis using in_step_replay [OF k(2)] k g'(1) unfolding ledger_wf_def u by (simp add: g'(2))
qed

lemma commit_total: "working m w g p \<Longrightarrow> \<exists>g'. commit g p = Inr g'"
  by (simp add: working_def commit_def Let_def)

lemma wf_new: "ledger_wf (new_ledger u)"
  by (simp add: ledger_wf_def new_ledger_def replay_reference ref_replay_def ref_end_transaction_def dec_eq_iff)
    (simp add: empty_chain_def ref_chain_def ref_start_def chain_state.extend_def chain_state.truncate_def)

lemma post_wf:
  assumes "ledger_wf g" "fresh_world m w (g_entries g)" "ledger_post w g lines None = Inr (w', g', built)" "w_drawn w' \<le> m"
  shows "ledger_wf g' \<and> fresh_world m w' (g_entries g') \<and> g_entries g' = g_entries g @ built \<and> s_unit (g_state g') = s_unit (g_state g)"
proof -
  from assms(3) obtain p where p: "post w (begin_work g) lines None = Inr (w', p, built)" "commit g p = Inr g'"
    by (auto simp: ledger_post_def)
  have b: "b_entries (p_batch p) = built" using p(1) by (rule post_cases) (simp add: begin_work_def empty_batch_def)
  show ?thesis using commit_wf [OF post_working [OF begin_working [OF assms(1,2)] p(1) assms(4)] p(2)] unfolding b .
qed

section \<open>Verification of a ledger that agrees with its chain\<close>

lemma first_problem_None: "first_problem f xs = None \<longleftrightarrow> (\<forall>x \<in> set xs. f x = None)"
  by (induction xs) (auto split: option.splits)

lemma dec_eq_refl: "dec_eq a a"
  by (simp add: dec_eq_iff)

lemma same_amounts_refl: "dict_wf d \<Longrightarrow> same_amounts d d"
  by (auto simp: same_amounts_def list_all_iff dec_eq_refl dest: map_of_is_SomeI split: option.splits)

lemma compare_refl:
  assumes "chain_wf s" "dict_wf (s_balances s)"
  shows "compare_governance s s = Inr ()" "compare_holds s s = Inr ()" "first_problem (compare_balance s) (s_balances s) = None"
proof -
  have "map_of (s_nodes s) (fst kn) = Some (snd kn)" if "kn \<in> set (s_nodes s)" for kn
    using that assms(1) by (simp add: chain_wf_def)
  then have "compare_node s kn = None" if "kn \<in> set (s_nodes s)" for kn
    using that by (simp add: compare_node_def dec_eq_refl)
  moreover have "same_amounts d d" for d :: "(scope_id, decimal) dict"
    by (auto simp: same_amounts_def list_all_iff dec_eq_refl map_of_eq_None_iff split: option.splits)
  ultimately show "compare_governance s s = Inr ()"
    by (auto simp: compare_governance_def first_problem_None list_all_iff map_of_eq_None_iff split: option.split)
  show "compare_holds s s = Inr ()" by (simp add: compare_holds_def)
  show "first_problem (compare_balance s) (s_balances s) = None"
    using assms(2) by (auto simp: first_problem_None compare_balance_def dec_eq_refl dict_get_def)
qed


lemma ledger_facts:
  assumes wf: "ledger_wf g"
  shows "s_length (g_state g) = length (g_entries g)" "s_legacy (g_state g) = []" "dict_wf (s_balances (g_state g))"
    "balance_sum (g_state g) + dval (t_holds_open (s_totals (g_state g))) + dval (t_spent (s_totals (g_state g)))
       = dval (t_funded (s_totals (g_state g))) + dval (t_reversed (s_totals (g_state g)))"
    "replayed g = Inr (g_state g)"
proof -
  let ?u = "s_unit (g_state g)" and ?f = "spend_index (g_entries g)"
  from wf obtain q rs where run: "rfold (ref_step True False) (ref_start (empty_chain ?u []) (Some ?f), Some {}) (g_entries g) = Inr (q, rs)"
    "dec_eq (r_net q) ZERO" "g_state g = ref_chain q" by (rule ledger_run)
  note pos = run_position [OF run(1)]
  have s_legacy_chain: "s_legacy (ref_chain r) = s_legacy r" "s_legacy_applied (ref_chain r) = s_legacy_applied r" for r
    by (simp_all add: ref_chain_def chain_state.truncate_def)
  have leg: "s_legacy q = []" using pos by (simp add: config_part_def ref_start_def empty_chain_def chain_state.extend_def)
  show len: "s_length (g_state g) = length (g_entries g)" using pos by (simp add: run(3))
  show legacy: "s_legacy (g_state g) = []" by (simp add: run(3) s_legacy_chain leg)
  have c: "conserved q" using conservation.run_keeps [OF _ run(1)] conserved_start by simp
  then show "dict_wf (s_balances (g_state g))" by (simp add: run(3) conserved_def)
  have "dval (r_net q) = 0" using run(2) by (simp add: dec_eq_iff)
  with c show "balance_sum (g_state g) + dval (t_holds_open (s_totals (g_state g))) + dval (t_spent (s_totals (g_state g)))
       = dval (t_funded (s_totals (g_state g))) + dval (t_reversed (s_totals (g_state g)))"
    by (simp add: run(3) conserved_def balance_sum_def)
  let ?q = "q\<lparr> r_txn := None, r_settleable := {} \<rparr>"
  have e: "ref_end_transaction q = Inr ?q" "ref_chain ?q = ref_chain q" using run(2)
    by (simp_all add: ref_end_transaction_def ref_chain_def chain_state.truncate_def)
  have "(if s_legacy_applied (g_state g) then ref_finish q else ref_end_transaction q) = Inr ?q"
    using e by (simp add: ref_finish_def run(3) s_legacy_chain)
  with run(1) e(2) show "replayed g = Inr (g_state g)"
    unfolding replayed_def Let_def legacy len replay_reference ref_replay_def by (simp add: run(3) [symmetric])
qed

lemma verify_wf: "ledger_wf g \<Longrightarrow> verify_chain g = Inr ()"
  using compare_refl [OF ledger_chain_wf] ledger_facts(3,5)
  by (simp add: verify_chain_def Let_def same_totals_def dec_eq_refl)

lemma rfold_ctx_add: "rfold ctx_add a xs = Inr t \<Longrightarrow> dval t = dval a + sum_list (map dval xs)"
  by (induction xs arbitrary: a) (auto dest: dval_ctx_add)

lemma conservation_wf: "ledger_wf g \<Longrightarrow> verify_conservation g = Inl x \<Longrightarrow> x = DecimalInexact"
proof -
  assume wf: "ledger_wf g" and x: "verify_conservation g = Inl x"
  have ctx: "ctx_add a b = Inl y \<Longrightarrow> y = DecimalInexact" "ctx_subtract a b = Inl y \<Longrightarrow> y = DecimalInexact" for a b y
    by (auto simp: ctx_add_def ctx_subtract_def arithmetic_fix_def Let_def split: if_splits)
  have fold: "rfold ctx_add a xs = Inl y \<Longrightarrow> y = DecimalInexact" for a xs y
    by (induction xs arbitrary: a) (auto simp: rbind_eq_Inl dest: ctx)
  let ?t = "s_totals (g_state g)"
  have "dec_eq left (t_funded ?t)" if "rfold ctx_add ZERO (map snd (s_balances (g_state g))) = Inr total"
    "ctx_add total (t_holds_open ?t) = Inr a" "ctx_add a (t_spent ?t) = Inr b" "ctx_subtract b (t_reversed ?t) = Inr left" for total a b left
    using ledger_facts(4) [OF wf] rfold_ctx_add [OF that(1)] dval_ctx_add [OF that(2)] dval_ctx_add [OF that(3)] dval_ctx_subtract [OF that(4)]
    by (simp add: dec_eq_iff balance_sum_def comp_def)
  with x show ?thesis
    by (auto simp: verify_conservation_def Let_def rbind_eq_Inl dest: fold ctx split: if_splits)
qed


text \<open>C16: A ledger that agrees with its chain still does after a post: replaying the longer chain from
  nothing gives exactly the state the ledger went on with, so its verification passes, and the
  post committed exactly the entries it built, at the end. \<open>m\<close> bounds the ids drawn.\<close>

theorem post_replays:
  assumes "ledger_wf g" "fresh_world m w (g_entries g)" "ledger_post w g lines None = Inr (w', g', built)" "w_drawn w' \<le> m"
  shows "replay (g_entries g') [] False None None (s_unit (g_state g)) = Inr (g_state g')
    \<and> g_entries g' = g_entries g @ built \<and> verify_chain g' = Inr () \<and> ledger_wf g' \<and> fresh_world m w' (g_entries g')"
proof -
  note p = post_wf [OF assms]
  have "replay (g_entries g') [] False None None (s_unit (g_state g)) = Inr (g_state g')"
    using p unfolding ledger_wf_def by metis
  with p verify_wf [of g'] show ?thesis by blast
qed

text \<open>A ledger that agrees with its chain passes \<open>verify_chain\<close>, and \<open>verify_conservation\<close> never
  reports a violation: the one thing it can fail with is a sum of more than fifty digits.\<close>

theorem verification_passes:
  assumes "ledger_wf g"
  shows "verify_chain g = Inr () \<and> verify_conservation g \<in> {Inr (), Inl DecimalInexact}"
  using verify_wf [OF assms] conservation_wf [OF assms] by (cases "verify_conservation g") auto

section \<open>A first post\<close>

definition sample_world :: world where
  "sample_world = \<lparr> w_uuid = (\<lambda>n. if n = 0 then 8 else if n = 1 then 7 else word_of_nat (n + 7)), w_now = (\<lambda>_. Instant 2026 10 11 0 0 0 0), w_drawn = 0, w_ticks = 0 \<rparr>"

definition sample_line :: ledger_line where
  "sample_line = \<lparr> l_entry_type = FUNDING, l_direction = CREDIT, l_scope_id = lit ''root'', l_amount = Dec 100000000 (- 8),
     l_counterparty_id = None, l_memo = lit ''a|b'', l_ref = None \<rparr>"

lemma sample_fresh: "fresh_world 9 sample_world []"
proof -
  have "{0 ..< 9::nat} = {0, 1, 2, 3, 4, 5, 6, 7, 8}" by auto
  then show ?thesis by (simp add: fresh_world_def sample_world_def inj_on_def)
qed

lemma sample_check_line: "check_line sample_line = Inr (Dec 100000000 (- 8))"
  by (simp add: check_line_def sample_line_def zero_value_type_def money_eval check_text_def MAX_ID_BYTES_def
      MAX_MEMO_BYTES_def is_control_def)

lemma sample_build:
  "build_line (new_overlay (empty_chain USD []) f None) 8 (Instant 2026 10 11 0 0 0 0)
     \<lparr> u_world = w, u_running = [], u_prev_hash = GENESIS_HASH, u_sequence = 0, u_built = [] \<rparr> sample_line
   = Inr \<lparr> u_world = w\<lparr> w_drawn := w_drawn w + 1 \<rparr>, u_running = [(lit ''root'', Dec 100000000 (- 8))],
       u_prev_hash = entry_hash sample_sealed, u_sequence = 1, u_built = [sample_sealed] \<rparr>"
  if "w_uuid w (w_drawn w) = 7"
proof -
  obtain h where h: "recompute_hash sample_entry = Inr h" using sample_hash by blast
  have e: "sample_sealed = sample_entry\<lparr> entry_hash := h \<rparr>" by (simp add: sample_sealed_def sealed_def h)
  have "recompute_hash (sample_entry\<lparr> entry_hash := [] \<rparr>) = Inr h" by (simp add: h)
  then show ?thesis
    using that unfolding build_line_def sample_check_line e
    by (simp add: sample_line_def sample_entry_def uuid4_def balance_def new_overlay_def chain_balance_def dict_get_def
        empty_chain_def signed_line_def sample_add zero_value_type_def)
qed

text \<open>The state a first funding of one dollar leaves.\<close>

definition sample_state :: "chain_state \<Rightarrow> bool" where
  "sample_state s \<longleftrightarrow> s_balances s = [(lit ''root'', Dec 100000000 (- 8))] \<and> s_nodes s = [(lit ''root'', sample_node)]
     \<and> s_tripped s = Map.empty \<and> s_holds s = [] \<and> \<not> s_saw_v1 s \<and> s_totals s = no_totals\<lparr> t_funded := Dec 100000000 (- 8) \<rparr>
     \<and> s_last_timestamp s = Some (Instant 2026 10 11 0 0 0 0) \<and> s_unit s = USD"

lemma sample_post:
  "\<exists>w' g'. ledger_post sample_world (new_ledger USD) [sample_line] None = Inr (w', g', [sample_sealed]) \<and> w_drawn w' = 2
     \<and> sample_state (g_state g')"
proof -
  let ?g = "new_ledger USD" and ?v = "new_overlay (empty_chain USD []) (Some (ledger_resolve [])) None"
  let ?w = "sample_world\<lparr> w_drawn := 1, w_ticks := 1 \<rparr>"
  have rel: "view_rel (empty_chain USD []) ?v (view_abs ?v) \<and> fresh_holds (empty_chain USD []) [sample_sealed]"
    using view_inv_new [OF chain_wf_empty] by (simp add: view_rel_def fresh_holds_def sample_fields) (simp add: new_overlay_def)
  obtain r where r: "ref_apply (view_abs ?v) sample_sealed False None True = Inr (r, None)" "dec_eq (r_net r) ZERO"
    "s_balances r = [(lit ''root'', Dec 100000000 (- 8))]" "s_nodes r = [(lit ''root'', sample_node)]" "s_tripped r = Map.empty"
    "s_holds r = []" "\<not> s_saw_v1 r" "s_totals r = no_totals\<lparr> t_funded := Dec 100000000 (- 8) \<rparr>"
    "s_last_timestamp r = Some (Instant 2026 10 11 0 0 0 0)"
    using sample_apply [of "Some (ledger_resolve [])" False None True] unfolding view_abs_new by blast
  have unit: "s_unit r = USD" using apply_position(9) [OF r(1)] unfolding view_abs_new by (simp add: config_part_def)
  from r(1) have "map_sum id view_abs (rfold write_step ?v [sample_sealed]) = Inr r"
    using write_sim.run_sim [OF rel] by (simp add: ref_write_def)
  then obtain v1 where v1: "rfold write_step ?v [sample_sealed] = Inr v1" "view_abs v1 = r"
    by (cases "rfold write_step ?v [sample_sealed]") auto
  have "v_net v1 = r_net r" unfolding v1(2) [symmetric] by (simp add: view_abs_simps)
  with r(2) obtain v2 where v2: "end_transaction v1 = Inr v2" "v2 = v1\<lparr> v_txn := None, v_settleable := {} \<rparr>"
    by (simp add: end_transaction_def)
  have p0: "begin_work ?g = \<lparr> p_view = ?v, p_batch = empty_batch \<rparr>" by (simp add: begin_work_def new_ledger_def)
  have head: "v_head ?v = GENESIS_HASH" "v_length ?v = 0" "v_last_timestamp ?v = None"
    by (simp_all add: new_overlay_def empty_chain_def genesis_def)
  have "w_uuid ?w (w_drawn ?w) = 7" by (simp add: sample_world_def)
  note b = sample_build [OF this]
  have post: "post sample_world (begin_work ?g) [sample_line] None
      = Inr (?w\<lparr> w_drawn := 2 \<rparr>, \<lparr> p_view = v2, p_batch = empty_batch\<lparr> b_entries := [sample_sealed] \<rparr> \<rparr>, [sample_sealed])"
    using b v1(1) v2(1) unfolding p0 post_def
    by (simp add: head uuid4_def utcnow_def sample_world_def empty_batch_def Let_def numeral_2_eq_2)
  have "working 9 sample_world ?g (begin_work ?g)"
    by (rule begin_working [OF wf_new]) (simp add: new_ledger_def sample_fresh)
  from commit_total [OF post_working [OF this post]] obtain g' where
    c: "commit ?g \<lparr> p_view = v2, p_batch = empty_batch\<lparr> b_entries := [sample_sealed] \<rparr> \<rparr> = Inr g'" by auto
  then have "g_state g' = merged v2"
    by (auto simp: commit_def Let_def batch_true_def fill_batch_def empty_batch_def split: if_splits prod.splits)
  also have "\<dots> = ref_chain r" unfolding v1(2) [symmetric] ref_chain_abs v2(2) by (simp add: merged_def Let_def cong: option.case_cong)
  finally have "sample_state (g_state g')" using r unit
    by (simp add: sample_state_def) (simp add: ref_chain_def chain_state.truncate_def)
  with post c show ?thesis by (auto simp: ledger_post_def)
qed

theorem post_replays_witness:
  "\<exists>w' g'. ledger_post sample_world (new_ledger USD) [sample_line] None = Inr (w', g', [sample_sealed])
     \<and> g_entries g' = [sample_sealed] \<and> verify_chain g' = Inr ()"
proof -
  obtain w' g' where p: "ledger_post sample_world (new_ledger USD) [sample_line] None = Inr (w', g', [sample_sealed])" "w_drawn w' \<le> 9"
    using sample_post by fastforce
  have "fresh_world 9 sample_world (g_entries (new_ledger USD))" by (simp add: new_ledger_def sample_fresh)
  from post_replays [OF wf_new this p] p(1) show ?thesis by (simp add: new_ledger_def)
qed

theorem verification_passes_witness:
  "\<exists>w' g'. ledger_post sample_world (new_ledger USD) [sample_line] None = Inr (w', g', [sample_sealed])
     \<and> verify_conservation g' \<in> {Inr (), Inl DecimalInexact}"
proof -
  obtain w' g' where p: "ledger_post sample_world (new_ledger USD) [sample_line] None = Inr (w', g', [sample_sealed])" "w_drawn w' \<le> 9"
    using sample_post by fastforce
  have "ledger_wf g'" using post_wf [OF wf_new _ p] sample_fresh by (simp add: new_ledger_def)
  from verification_passes [OF this] p(1) show ?thesis by blast
qed

end
