(* ===== verification/Manager.thy ===== *)
theory Manager
  imports Writes "HOL-Library.List_Lexorder"
begin

text \<open>
  The governor (\<open>core.py\<close>: \<open>GovernancePolicy\<close>, \<open>BudgetManager\<close>) over a ledger with no store, so with no
  metrics, no other governor and no queue: \<open>_submit\<close> runs a mutation there and then. A field \<open>_x\<close> of
  \<open>BudgetManager\<close> is \<open>m_x\<close>, of a policy \<open>y_x\<close>, of a call \<open>q_x\<close>.

  A method is an \<open>act\<close>: it returns the governor it leaves behind, whether it returns a value or
  raises, because a refusal may have tripped a breaker first. Inside, \<open>abind\<close> sequences two acts.
  Times of the monotonic clock are rationals, and the cutoff of a window is subtracted exactly. The
  ids drawn by a unit of work that raises are not used again by anything, so the model does not
  count them. What only serves a store (the newest hashes, the checkpoint owed) is left out.
\<close>

section \<open>Acts\<close>

record policy =
  y_max_calls_per_window :: int
  y_window_seconds :: rat
  y_window_text :: ustr
  y_max_depth :: int
  y_trip_on_overdraft :: bool
  y_trip_on_exhaustion :: bool
  y_checkpoint_every :: int
  y_fleet_velocity :: bool

definition default_policy :: policy where
  "default_policy = \<lparr> y_max_calls_per_window = 1000, y_window_seconds = 1, y_window_text = lit ''1.0'', y_max_depth = 8,
     y_trip_on_overdraft = True, y_trip_on_exhaustion = True, y_checkpoint_every = 10000, y_fleet_velocity = False \<rparr>"

datatype outcome = Out_Entry (out_entry: ledger_entry) | Out_Auth (out_auth: authorization) | Out_Node (out_node: budget_node)

record manager =
  m_ledger :: ledger
  m_world :: world
  m_policy :: policy
  m_velocity :: "(scope_id, rat list) dict"
  m_fleet_holds :: "(scope_id, instant list) dict"
  m_unit_calls :: "(ustr, idempotency_record \<times> outcome) dict"
  m_transaction :: "(scope_id \<times> ustr) list option"
  m_depth :: nat
  m_mono :: "nat \<Rightarrow> rat"
  m_mono_reads :: nat

definition new_manager :: "unit_of_account \<Rightarrow> policy \<Rightarrow> world \<Rightarrow> (nat \<Rightarrow> rat) \<Rightarrow> manager" where
  "new_manager u y w clock = \<lparr> m_ledger = new_ledger u, m_world = w, m_policy = y, m_velocity = [], m_fleet_holds = [],
     m_unit_calls = [], m_transaction = None, m_depth = 0, m_mono = clock, m_mono_reads = 0 \<rparr>"

type_synonym 'a act = "manager \<Rightarrow> manager \<times> 'a res"

definition ret :: "'a \<Rightarrow> 'a act" where
  "ret x m = (m, Inr x)"

definition raise :: "exn \<Rightarrow> 'a act" where
  "raise e m = (m, Inl e)"

definition pure :: "'a res \<Rightarrow> 'a act" where
  "pure r m = (m, r)"

definition abind :: "'a act \<Rightarrow> ('a \<Rightarrow> 'b act) \<Rightarrow> 'b act" where
  "abind a f m = (case a m of (m', Inl e) \<Rightarrow> (m', Inl e) | (m', Inr x) \<Rightarrow> f x m')"

definition asks :: "(manager \<Rightarrow> 'a) \<Rightarrow> 'a act" where
  "asks f m = (m, Inr (f m))"

definition modify :: "(manager \<Rightarrow> manager) \<Rightarrow> unit act" where
  "modify f m = (f m, Inr ())"

definition guard :: "bool \<Rightarrow> exn \<Rightarrow> unit act" where
  "guard b e m = (m, if b then Inl e else Inr ())"

abbreviation m_state :: "manager \<Rightarrow> chain_state" where
  "m_state m \<equiv> g_state (m_ledger m)"

abbreviation m_unit :: "manager \<Rightarrow> unit_of_account" where
  "m_unit m \<equiv> s_unit (m_state m)"

abbreviation m_balance :: "manager \<Rightarrow> scope_id \<Rightarrow> decimal" where
  "m_balance m k \<equiv> ledger_balance (m_ledger m) k"

definition mutating :: "'a act \<Rightarrow> 'a act" where
  "mutating a m = (if 0 < m_depth m then a m
     else let (m', r) = a (m\<lparr> m_depth := m_depth m + 1 \<rparr>); m'' = m'\<lparr> m_depth := m_depth m' - 1 \<rparr> in
       (if m_depth m'' = 0 then m''\<lparr> m_unit_calls := [] \<rparr> else m'', r))"

definition posting :: "pending \<Rightarrow> ledger_line list \<Rightarrow> (pending \<times> ledger_entry list) act" where
  "posting p ls m = (case post (m_world m) p ls None of Inl e \<Rightarrow> (m, Inl e)
     | Inr (w, p', built) \<Rightarrow> (m\<lparr> m_world := w \<rparr>, Inr (p', built)))"

definition or_else :: "ustr \<Rightarrow> ustr \<Rightarrow> ustr" where
  "or_else why fallback = (if why = [] then fallback else why)"

section \<open>Time\<close>

text \<open>Microseconds since the start of the year 1, of the proleptic Gregorian calendar.\<close>

definition leap :: "nat \<Rightarrow> bool" where
  "leap y \<longleftrightarrow> y mod 4 = 0 \<and> (y mod 100 \<noteq> 0 \<or> y mod 400 = 0)"

definition days_before_month :: "nat \<Rightarrow> nat \<Rightarrow> nat" where
  "days_before_month y mo = [0, 0, 31, 59, 90, 120, 151, 181, 212, 243, 273, 304, 334] ! mo + (if 2 < mo \<and> leap y then 1 else 0)"

definition instant_micros :: "instant \<Rightarrow> int" where
  "instant_micros t = (let y = iyear t - 1;
       days = y * 365 + y div 4 - y div 100 + y div 400 + days_before_month (iyear t) (imonth t) + (iday t - 1) in
     int ((((days * 24 + ihour t) * 60 + iminute t) * 60 + isecond t) * 1000000 + imicro t))"

definition MAX_MICROS :: int where
  "MAX_MICROS = instant_micros (Instant 9999 12 31 23 59 59 999999)"

definition td_micros :: "rat \<Rightarrow> int" where
  "td_micros seconds = (let x = seconds * 1000000; f = \<lfloor>x\<rfloor>; r = x - of_int f in
     if r < 1 / 2 then f else if 1 / 2 < r then f + 1 else if even f then f else f + 1)"

definition now_minus :: "int \<Rightarrow> int act" where
  "now_minus window m = (let (t, w) = utcnow (m_world m); c = instant_micros t - window in
     (m\<lparr> m_world := w \<rparr>, if c < 0 \<or> MAX_MICROS < c then Inl OverflowError else Inr c))"

definition monotonic :: "rat act" where
  "monotonic m = (m\<lparr> m_mono_reads := m_mono_reads m + 1 \<rparr>, Inr (m_mono m (m_mono_reads m)))"

section \<open>Idempotency keys\<close>

datatype argument = Text ustr | Amount decimal | Id uuid | Nothing

definition argument_json :: "argument \<Rightarrow> ustr res" where
  "argument_json a = (case a of Text t \<Rightarrow> Inr (json_string t) | Amount x \<Rightarrow> rbind (fixed x) (\<lambda>t. Inr (json_string t))
     | Id u \<Rightarrow> Inr (json_string (uuid_text u)) | Nothing \<Rightarrow> Inr (lit ''null''))"

fun members_json :: "(ustr \<times> argument) list \<Rightarrow> ustr list res" where
  "members_json [] = Inr []"
| "members_json ((k, a) # rest) = rbind (argument_json a) (\<lambda>t. rbind (members_json rest) (\<lambda>ts.
     Inr ((json_string k @ [58] @ t) # ts)))"

definition request_text :: "string \<Rightarrow> (string \<times> argument) list \<Rightarrow> ustr res" where
  "request_text op args = rbind (members_json (sort_key fst ((lit ''op'', Text (lit op)) # map (\<lambda>(k, a). (lit k, a)) args)))
     (\<lambda>ts. Inr ([123] @ join_with 44 ts @ [125]))"

definition KEY_BYTES :: nat where "KEY_BYTES = 255"

definition require_key :: "ustr \<Rightarrow> ustr res" where
  "require_key k = (if k = [] then Inl (ValueError ''an idempotency key must be a non-empty string'')
     else if check_text k KEY_BYTES True \<noteq> None then Inl (ValueError ''idempotency key'') else Inr k)"

record call =
  q_key :: ustr
  q_request :: ustr
  q_outcome :: string
  q_replayed :: "outcome option"

definition match_call :: "call \<Rightarrow> idempotency_record \<Rightarrow> unit res" where
  "match_call c r = (if k_request r \<noteq> q_request c then Inl (IdempotencyConflictError (q_key c)) else Inr ())"

definition result_of :: "manager \<Rightarrow> idempotency_record \<Rightarrow> outcome res" where
  "result_of m r = (let found = (case ledger_entry_at (m_ledger m) (int (k_sequence r)) of None \<Rightarrow> None
       | Some e \<Rightarrow>
           if k_outcome r = ''entry'' then Some (Out_Entry e)
           else if k_outcome r = ''authorization'' \<and> entry_type e = HOLD then Some (Out_Auth (authorization_for e))
           else if k_outcome r = ''node'' \<and> entry_type e = ALLOCATION then map_option Out_Node (map_of (s_nodes (m_state m)) (scope_id e))
           else None)
     in case found of None \<Rightarrow> integrity' ''this ledger holds no such entry'' | Some x \<Rightarrow> Inr x)"

definition called :: "ustr option \<Rightarrow> string \<Rightarrow> string \<Rightarrow> (string \<times> argument) list \<Rightarrow> call option act" where
  "called key kind op args m = (m, case key of None \<Rightarrow> Inr None
     | Some k \<Rightarrow> rbind (require_key k) (\<lambda>k. rbind (request_text op args) (\<lambda>t.
         let c = \<lparr> q_key = k, q_request = t, q_outcome = kind, q_replayed = None \<rparr> in
         case map_of (m_unit_calls m) k of
           Some (made, x) \<Rightarrow> rbind (match_call c made) (\<lambda>_. Inr (Some (c\<lparr> q_replayed := Some x \<rparr>)))
         | None \<Rightarrow> (case map_of (g_keys (m_ledger m)) k of
             None \<Rightarrow> Inr (Some c)
           | Some r \<Rightarrow> rbind (match_call c r) (\<lambda>_. rbind (result_of m r) (\<lambda>x.
               Inr (Some (c\<lparr> q_replayed := Some x \<rparr>))))))))"

definition replayed_call :: "call option \<Rightarrow> outcome option" where
  "replayed_call c = (case c of None \<Rightarrow> None | Some c \<Rightarrow> q_replayed c)"

definition remember :: "ledger_entry list \<Rightarrow> manager \<Rightarrow> manager" where
  "remember es m = (if \<not> y_fleet_velocity (m_policy m) then m
     else m\<lparr> m_fleet_holds := foldl (\<lambda>d e. AList.update (scope_id e) (dict_get d (scope_id e) [] @ [timestamp e]) d)
        (m_fleet_holds m) (filter (\<lambda>e. entry_type e = HOLD) es) \<rparr>)"

definition commit_call :: "pending \<Rightarrow> call option \<Rightarrow> ledger_entry \<Rightarrow> idempotency_record option act" where
  "commit_call p c result m = (let rec = map_option (\<lambda>c. \<lparr> k_key = q_key c, k_request = q_request c, k_outcome = q_outcome c,
         k_sequence = sequence result, k_created_at = timestamp result \<rparr>) c;
       p = p\<lparr> p_batch := (p_batch p)\<lparr> b_idempotency := b_idempotency (p_batch p) @ (case rec of None \<Rightarrow> [] | Some r \<Rightarrow> [r]) \<rparr> \<rparr> in
     case commit (m_ledger m) p of Inl e \<Rightarrow> (m, Inl e)
     | Inr g \<Rightarrow> (remember (b_entries (p_batch p)) (m\<lparr> m_ledger := g \<rparr>), Inr rec))"

definition answered :: "idempotency_record option \<Rightarrow> outcome \<Rightarrow> unit act" where
  "answered rec x = (case rec of None \<Rightarrow> ret ()
     | Some r \<Rightarrow> modify (\<lambda>m. m\<lparr> m_unit_calls := AList.update (k_key r) (r, x) (m_unit_calls m) \<rparr>))"

section \<open>The tree\<close>

definition require_node :: "scope_id \<Rightarrow> budget_node act" where
  "require_node k m = (m, case map_of (s_nodes (m_state m)) k of None \<Rightarrow> Inl (UnknownScopeError k) | Some n \<Rightarrow> Inr n)"

definition require_scope_id :: "scope_id \<Rightarrow> unit act" where
  "require_scope_id k = guard (k = []) (ValueError ''a scope id must not be empty'')"

text \<open>The walks up and down the tree, with fuel: a loop over a graph with a cycle would not end, and
  is the value \<open>RuntimeError ''endless''\<close> here. On a tree the fuel given is enough.\<close>

definition endless :: "'a res" where
  "endless = Inl (RuntimeError ''endless'')"

fun climb :: "nat \<Rightarrow> (scope_id, budget_node) dict \<Rightarrow> scope_id option \<Rightarrow> scope_id list res" where
  "climb 0 ns c = endless"
| "climb (Suc f) ns None = Inr []"
| "climb (Suc f) ns (Some k) = (case map_of ns k of None \<Rightarrow> Inl KeyError
     | Some n \<Rightarrow> rbind (climb f ns (n_parent_id n)) (\<lambda>ks. Inr (k # ks)))"

definition ancestry :: "manager \<Rightarrow> scope_id \<Rightarrow> scope_id list res" where
  "ancestry m k = (let ns = s_nodes (m_state m) in
     rbind (snd (require_node k m)) (\<lambda>n. climb (length ns + 1) ns (Some (n_scope_id n))))"

fun first_tripped :: "nat \<Rightarrow> (scope_id, budget_node) dict \<Rightarrow> (scope_id \<rightharpoonup> instant \<times> ustr) \<Rightarrow> scope_id option \<Rightarrow> scope_id option res" where
  "first_tripped 0 ns tr c = endless"
| "first_tripped (Suc f) ns tr None = Inr None"
| "first_tripped (Suc f) ns tr (Some k) = (if tr k \<noteq> None then Inr (Some k)
     else case map_of ns k of None \<Rightarrow> Inl KeyError | Some n \<Rightarrow> first_tripped f ns tr (n_parent_id n))"

definition halted_at :: "manager \<Rightarrow> scope_id \<Rightarrow> scope_id option res" where
  "halted_at m k = first_tripped (length (s_nodes (m_state m)) + 1) (s_nodes (m_state m)) (s_tripped (m_state m)) (Some k)"

definition halted_by :: "manager \<Rightarrow> scope_id \<Rightarrow> scope_id option res" where
  "halted_by m k = rbind (snd (require_node k m)) (\<lambda>_. halted_at m k)"

definition is_halted :: "manager \<Rightarrow> scope_id \<Rightarrow> bool res" where
  "is_halted m k = rbind (halted_by m k) (\<lambda>t. Inr (t \<noteq> None))"

definition assert_not_halted :: "scope_id \<Rightarrow> unit act" where
  "assert_not_halted k m = (m, rbind (halted_at m k) (\<lambda>t. case t of None \<Rightarrow> Inr ()
     | Some t \<Rightarrow> Inl (CircuitOpenError k t (snd (the (s_tripped (m_state m) t))))))"

fun breadth_first :: "nat \<Rightarrow> (scope_id, budget_node) dict \<Rightarrow> scope_id list \<Rightarrow> budget_node list res" where
  "breadth_first f ns [] = Inr []"
| "breadth_first 0 ns (k # ks) = endless"
| "breadth_first (Suc f) ns (k # ks) = (case map_of ns k of None \<Rightarrow> Inl KeyError
     | Some n \<Rightarrow> rbind (breadth_first f ns (ks @ n_child_ids n)) (\<lambda>rest. Inr (n # rest)))"

definition descendants :: "manager \<Rightarrow> scope_id \<Rightarrow> budget_node list res" where
  "descendants m k = (let ns = s_nodes (m_state m) in
     rbind (snd (require_node k m)) (\<lambda>n. breadth_first (length ns) ns (n_child_ids n)))"

definition available :: "manager \<Rightarrow> scope_id \<Rightarrow> decimal res" where
  "available m k = rbind (snd (require_node k m)) (\<lambda>_. Inr (m_balance m k))"

definition subtree_available :: "manager \<Rightarrow> scope_id \<Rightarrow> decimal res" where
  "subtree_available m k = rbind (descendants m k) (\<lambda>ns.
     rfold (\<lambda>total n. ctx_add total (m_balance m (n_scope_id n))) (m_balance m k) ns)"

definition manager_entry :: "manager \<Rightarrow> int \<Rightarrow> ledger_entry res" where
  "manager_entry m n = (case ledger_entry_at (m_ledger m) n of None \<Rightarrow> Inl IndexError | Some e \<Rightarrow> Inr e)"

definition entries_page :: "manager \<Rightarrow> nat \<Rightarrow> int \<Rightarrow> ledger_entry list res" where
  "entries_page m after limit = (if limit < 1 then Inl (ValueError ''limit must be positive'')
     else Inr (take (nat limit) (find_entries (m_ledger m) None None None None None after None)))"

definition manager_authorization :: "manager \<Rightarrow> uuid \<Rightarrow> authorization option" where
  "manager_authorization m i = map_of (g_open_auths (m_ledger m)) i"

section \<open>Breakers\<close>

definition line :: "entry_type \<Rightarrow> direction \<Rightarrow> scope_id \<Rightarrow> decimal \<Rightarrow> scope_id option \<Rightarrow> ustr \<Rightarrow> uuid option \<Rightarrow> ledger_line" where
  "line k d s a c t r = \<lparr> l_entry_type = k, l_direction = d, l_scope_id = s, l_amount = a, l_counterparty_id = c,
     l_memo = t, l_ref = r \<rparr>"

definition stage_control :: "pending \<Rightarrow> entry_type \<Rightarrow> scope_id \<Rightarrow> ustr \<Rightarrow> (pending \<times> ledger_entry list) act" where
  "stage_control p kind k reason = posting p [line kind NONE k ZERO None reason None]"

definition stage_trip :: "pending \<Rightarrow> scope_id \<Rightarrow> ustr \<Rightarrow> pending act" where
  "stage_trip p k reason = (if trip_of (p_view p) k \<noteq> None then ret p
     else abind (stage_control p CIRCUIT_TRIPPED k reason) (\<lambda>(p, _). ret p))"

definition commit_only :: "pending \<Rightarrow> unit act" where
  "commit_only p m = (case commit (m_ledger m) p of Inl e \<Rightarrow> (m, Inl e)
     | Inr g \<Rightarrow> (remember (b_entries (p_batch p)) (m\<lparr> m_ledger := g \<rparr>), Inr ()))"

definition start_work :: "pending act" where
  "start_work m = (m, Inr (begin_work (m_ledger m)))"

definition trip_breaker :: "scope_id \<Rightarrow> ustr \<Rightarrow> unit act" where
  "trip_breaker k reason m = (if s_tripped (m_state m) k \<noteq> None then (m, Inr ())
     else abind start_work (\<lambda>p. abind (stage_trip p k reason) (\<lambda>p. abind (commit_only p) (\<lambda>_.
       modify (\<lambda>m. m\<lparr> m_transaction := map_option (\<lambda>ts. ts @ [(k, reason)]) (m_transaction m) \<rparr>)))) m)"

definition trip :: "scope_id \<Rightarrow> ustr \<Rightarrow> unit act" where
  "trip k reason = mutating (abind (require_node k) (\<lambda>_. trip_breaker k reason))"

definition reset :: "scope_id \<Rightarrow> ustr \<Rightarrow> unit act" where
  "reset k why = abind (guard (why = []) (ValueError ''a reset's memo says why the scope was reset'')) (\<lambda>_.
     mutating (abind (require_node k) (\<lambda>_. abind (asks (\<lambda>m. s_tripped (m_state m) k)) (\<lambda>t.
       if t = None then ret ()
       else abind start_work (\<lambda>p. abind (stage_control p CIRCUIT_RESET k why) (\<lambda>(p, _). abind (commit_only p) (\<lambda>_.
         modify (\<lambda>m. m\<lparr> m_velocity := AList.map_entry k (\<lambda>_. []) (m_velocity m) \<rparr>))))))))"

definition runaway_text :: "nat \<Rightarrow> ustr \<Rightarrow> ustr" where
  "runaway_text n window = lit ''runaway loop: '' @ digits n @ lit '' authorizations in '' @ window @ lit ''s''"

definition record_velocity :: "scope_id \<Rightarrow> unit act" where
  "record_velocity k = abind (asks m_policy) (\<lambda>y.
     let limit = y_max_calls_per_window y; window = y_window_seconds y in
     if limit \<le> 0 \<or> window \<le> 0 then ret ()
     else if y_fleet_velocity y then
       abind (now_minus (td_micros window)) (\<lambda>since.
       abind (asks (\<lambda>m. dropWhile (\<lambda>t. instant_micros t < since) (dict_get (m_fleet_holds m) k []))) (\<lambda>held.
       abind (modify (\<lambda>m. m\<lparr> m_fleet_holds := AList.update k held (m_fleet_holds m) \<rparr>)) (\<lambda>_.
         let count = length held + 1 in
         if limit < int count then
           abind (trip_breaker k (runaway_text count (y_window_text y) @ lit '', fleet-wide'')) (\<lambda>_. raise (RunawayLoopDetectedError k count))
         else ret ())))
     else abind monotonic (\<lambda>now.
       abind (asks (\<lambda>m. dropWhile (\<lambda>t. t < now - window) (dict_get (m_velocity m) k [] @ [now]))) (\<lambda>times.
       abind (modify (\<lambda>m. m\<lparr> m_velocity := AList.update k times (m_velocity m) \<rparr>)) (\<lambda>_.
         if limit < int (length times) then
           abind (trip_breaker k (runaway_text (length times) (y_window_text y))) (\<lambda>_. raise (RunawayLoopDetectedError k (length times)))
         else ret ()))))"

section \<open>Topology\<close>

definition open_root :: "scope_id \<Rightarrow> num_arg \<Rightarrow> ustr \<Rightarrow> budget_node act" where
  "open_root k envelope why = abind (asks m_unit) (\<lambda>u. abind (pure (credit envelope u)) (\<lambda>a.
     abind (guard (dec_le a ZERO) (ValueError ''envelope must be positive'')) (\<lambda>_.
     abind (require_scope_id k) (\<lambda>_.
     mutating (abind (asks (\<lambda>m. map_of (s_nodes (m_state m)) k)) (\<lambda>n.
       abind (guard (n \<noteq> None) (DuplicateScopeError k)) (\<lambda>_.
       abind start_work (\<lambda>p.
       abind (posting p [line FUNDING CREDIT k a None (or_else why (lit ''root envelope issued'')) None]) (\<lambda>(p, _).
       abind (commit_only p) (\<lambda>_.
       abind (asks (\<lambda>m. map_of (s_nodes (m_state m)) k)) (\<lambda>n. pure (case n of None \<Rightarrow> Inl KeyError | Some n \<Rightarrow> Inr n))))))))))))"

definition fund :: "scope_id \<Rightarrow> num_arg \<Rightarrow> ustr \<Rightarrow> ustr option \<Rightarrow> ledger_entry act" where
  "fund k num why key = abind (asks m_unit) (\<lambda>u. abind (pure (credit num u)) (\<lambda>a.
     abind (guard (dec_le a ZERO) (ValueError ''funding must be positive'')) (\<lambda>_.
     mutating (abind (called key ''entry'' ''fund'' [(''scope_id'', Text k), (''amount'', Amount a), (''memo'', Text why)]) (\<lambda>c.
       case replayed_call c of Some x \<Rightarrow> ret (out_entry x)
       | None \<Rightarrow> abind (require_node k) (\<lambda>n.
         abind (guard (n_parent_id n \<noteq> None) (ValueError ''is not a root; use delegate() to fund it'')) (\<lambda>_.
         abind start_work (\<lambda>p.
         abind (posting p [line FUNDING CREDIT k a None (or_else why (lit ''envelope topped up'')) None]) (\<lambda>(p, es).
         abind (commit_call p c (hd es)) (\<lambda>rec.
         abind (answered rec (Out_Entry (hd es))) (\<lambda>_. ret (hd es))))))))))))"

definition delegate :: "scope_id \<Rightarrow> scope_id \<Rightarrow> num_arg \<Rightarrow> ustr \<Rightarrow> ustr option \<Rightarrow> budget_node act" where
  "delegate parent child num why key = abind (asks m_unit) (\<lambda>u. abind (pure (credit num u)) (\<lambda>a.
     abind (guard (dec_le a ZERO) (ValueError ''delegated amount must be positive'')) (\<lambda>_.
     abind (require_scope_id child) (\<lambda>_.
     mutating (abind (called key ''node'' ''delegate''
         [(''parent_id'', Text parent), (''child_id'', Text child), (''amount'', Amount a), (''memo'', Text why)]) (\<lambda>c.
       case replayed_call c of Some x \<Rightarrow> ret (out_node x)
       | None \<Rightarrow> abind (require_node parent) (\<lambda>pn.
         abind (asks (\<lambda>m. map_of (s_nodes (m_state m)) child)) (\<lambda>n.
         abind (guard (n \<noteq> None) (DuplicateScopeError child)) (\<lambda>_.
         abind (assert_not_halted parent) (\<lambda>_.
         abind (asks (\<lambda>m. (m_policy m, m_balance m parent))) (\<lambda>(y, available).
         abind (guard (y_max_depth y < int (n_depth pn + 1)) (SubBudgetAllocationError a available parent ''exceeds max_depth'')) (\<lambda>_.
         abind (guard (dec_lt available a) (SubBudgetAllocationError a available parent '''')) (\<lambda>_.
         let note = or_else why (lit ''sub-budget delegated to '' @ child) in
         abind start_work (\<lambda>p.
         abind (posting p [line ALLOCATION DEBIT parent a (Some child) note None,
                           line ALLOCATION CREDIT child a (Some parent) note None]) (\<lambda>(p, es).
         abind (commit_call p c (es ! 1)) (\<lambda>rec.
         abind (asks (\<lambda>m. map_of (s_nodes (m_state m)) child)) (\<lambda>n.
           case n of None \<Rightarrow> raise KeyError
           | Some n \<Rightarrow> abind (answered rec (Out_Node n)) (\<lambda>_. ret n))))))))))))))))))"

definition release :: "scope_id \<Rightarrow> num_arg option \<Rightarrow> ustr \<Rightarrow> decimal act" where
  "release k num why = mutating (abind (require_node k) (\<lambda>n. case n_parent_id n of
       None \<Rightarrow> raise (ValueError ''has no parent to release to'')
     | Some parent \<Rightarrow> abind (asks (\<lambda>m. (m_unit m, m_balance m k))) (\<lambda>(u, available).
         abind (pure (case num of None \<Rightarrow> Inr available | Some x \<Rightarrow> credit x u)) (\<lambda>returned.
         if dec_le returned ZERO then ret ZERO
         else abind (guard (dec_lt available returned) (ValueError ''cannot release more than is available'')) (\<lambda>_.
           let note = or_else why (lit ''unused budget returned to '' @ parent) in
           abind start_work (\<lambda>p.
           abind (posting p [line RELEASE DEBIT k returned (Some parent) note None,
                             line RELEASE CREDIT parent returned (Some k) note None]) (\<lambda>(p, _).
           abind (commit_only p) (\<lambda>_. ret returned))))))))"

section \<open>Authorizing and settling\<close>

definition overdraft_text :: "decimal \<Rightarrow> decimal \<Rightarrow> ustr" where
  "overdraft_text held free = lit ''overdraft attempt: requested '' @ dec_str held @ lit '', available '' @ dec_str free"

definition authorize_or :: "scope_id \<Rightarrow> num_arg \<Rightarrow> ustr \<Rightarrow> ustr option \<Rightarrow> bool \<Rightarrow> authorization option act" where
  "authorize_or k num why key trips = abind (asks m_unit) (\<lambda>u. abind (pure (cost num u)) (\<lambda>held.
     abind (guard (dec_le held ZERO) (ValueError ''authorization amount must be positive'')) (\<lambda>_.
     mutating (abind (called key ''authorization'' ''authorize'' [(''scope_id'', Text k), (''amount'', Amount held), (''memo'', Text why)]) (\<lambda>c.
       case replayed_call c of Some x \<Rightarrow> ret (Some (out_auth x))
       | None \<Rightarrow> abind (require_node k) (\<lambda>_.
         abind (assert_not_halted k) (\<lambda>_.
         abind (record_velocity k) (\<lambda>_.
         abind (asks (\<lambda>m. (m_policy m, m_balance m k))) (\<lambda>(y, available).
         if dec_lt available held then
           if \<not> trips then ret None
           else if \<not> y_trip_on_overdraft y then raise (BudgetExceededError held available k)
           else abind (trip_breaker k (overdraft_text held available)) (\<lambda>_. raise (DenialOfWalletError held available k False))
         else abind start_work (\<lambda>p.
           abind (posting p [line HOLD DEBIT k held None (or_else why (lit ''authorization hold'')) None]) (\<lambda>(p, es).
           abind (commit_call p c (hd es)) (\<lambda>rec.
           abind (asks (\<lambda>m. map_of (g_open_auths (m_ledger m)) (entry_id (hd es)))) (\<lambda>found.
             case found of None \<Rightarrow> raise KeyError
             | Some a \<Rightarrow> abind (answered rec (Out_Auth a)) (\<lambda>_. ret (Some a)))))))))))))))"

definition authorize :: "scope_id \<Rightarrow> num_arg \<Rightarrow> ustr \<Rightarrow> ustr option \<Rightarrow> authorization act" where
  "authorize k num why key = abind (authorize_or k num why key True) (\<lambda>a.
     case a of None \<Rightarrow> raise (RuntimeError ''AssertionError'') | Some a \<Rightarrow> ret a)"

definition try_authorize :: "scope_id \<Rightarrow> num_arg \<Rightarrow> ustr \<Rightarrow> ustr option \<Rightarrow> authorization option act" where
  "try_authorize k num why key = authorize_or k num why key False"

definition require_open_authorization :: "authorization \<Rightarrow> unit act" where
  "require_open_authorization a m = (m, if map_of (g_open_auths (m_ledger m)) (a_authorization_id a) = None
     then Inl (DoubleSpendError (a_scope_id a) (a_authorization_id a) ''was already settled'') else Inr ())"

definition void_locked :: "authorization \<Rightarrow> ustr \<Rightarrow> call option \<Rightarrow> ledger_entry act" where
  "void_locked a why c = abind start_work (\<lambda>p.
     abind (posting p [line HOLD_VOID CREDIT (a_scope_id a) (a_amount a) None why (Some (entry_id (a_entry a)))]) (\<lambda>(p, es).
     abind (commit_call p c (hd es)) (\<lambda>rec.
     abind (answered rec (Out_Entry (hd es))) (\<lambda>_. ret (hd es)))))"

definition exhausted :: "policy \<Rightarrow> pending \<Rightarrow> scope_id \<Rightarrow> bool" where
  "exhausted y p k \<longleftrightarrow> y_trip_on_exhaustion y \<and> \<not> dec_lt ZERO (balance (p_view p) k) \<and> holds_open_in (p_view p) k = 0"

definition overrun_text :: "decimal \<Rightarrow> decimal \<Rightarrow> decimal \<Rightarrow> ustr" where
  "overrun_text settled held over = lit ''settled cost '' @ dec_str settled @ lit '' overran authorization '' @ dec_str held
     @ lit ''; overdrawn by '' @ dec_str over"

definition capture_locked :: "authorization \<Rightarrow> decimal \<Rightarrow> ustr \<Rightarrow> call option \<Rightarrow> ledger_entry act" where
  "capture_locked a settled why c = mutating (abind (require_open_authorization a) (\<lambda>_.
     if dec_eq settled ZERO then void_locked a (or_else why (lit ''captured at zero cost'')) c
     else let k = a_scope_id a; h = entry_id (a_entry a) in
       abind (asks m_policy) (\<lambda>y.
       abind start_work (\<lambda>p.
       abind (posting p [line HOLD_VOID CREDIT k (a_amount a) None (lit ''authorization captured'') (Some h),
                         line SPEND DEBIT k settled None (or_else why (lit ''settled call cost'')) (Some h)]) (\<lambda>(p, es).
       let e = es ! 1;
           overdraft = (if dec_lt (balance_after e) ZERO then Some (copy_negate (balance_after e)) else None) in
       abind (case overdraft of Some over \<Rightarrow> stage_trip p k (overrun_text settled (a_amount a) over)
              | None \<Rightarrow> if exhausted y p k then stage_trip p k (lit ''spend envelope exhausted'') else ret p) (\<lambda>p.
       abind (commit_call p c e) (\<lambda>rec.
       abind (answered rec (Out_Entry e)) (\<lambda>_.
         case overdraft of None \<Rightarrow> ret e
         | Some over \<Rightarrow> abind (pure (ctx_subtract settled over)) (\<lambda>left. raise (DenialOfWalletError settled left k True))))))))))"

definition capture :: "authorization \<Rightarrow> num_arg \<Rightarrow> ustr \<Rightarrow> ustr option \<Rightarrow> ledger_entry act" where
  "capture a actual_cost why key = abind (asks m_unit) (\<lambda>u. abind (pure (cost actual_cost u)) (\<lambda>settled.
     abind (guard (dec_lt settled ZERO) (ValueError ''actual cost must not be negative'')) (\<lambda>_.
     mutating (abind (called key ''entry'' ''capture''
         [(''authorization_id'', Id (a_authorization_id a)), (''actual_cost'', Amount settled), (''memo'', Text why)]) (\<lambda>c.
       case replayed_call c of Some x \<Rightarrow> ret (out_entry x) | None \<Rightarrow> capture_locked a settled why c)))))"

definition void :: "authorization \<Rightarrow> ustr \<Rightarrow> ustr option \<Rightarrow> ledger_entry act" where
  "void a why key = mutating (abind (called key ''entry'' ''void''
       [(''authorization_id'', Id (a_authorization_id a)), (''memo'', Text why)]) (\<lambda>c.
     case replayed_call c of Some x \<Rightarrow> ret (out_entry x)
     | None \<Rightarrow> abind (require_open_authorization a) (\<lambda>_. void_locked a (or_else why (lit ''authorization voided'')) c)))"

definition spend :: "scope_id \<Rightarrow> num_arg \<Rightarrow> ustr \<Rightarrow> ustr option \<Rightarrow> ledger_entry act" where
  "spend k num why key = abind (asks m_unit) (\<lambda>u. abind (pure (cost num u)) (\<lambda>x.
     mutating (abind (called key ''entry'' ''spend'' [(''scope_id'', Text k), (''amount'', Amount x), (''memo'', Text why)]) (\<lambda>c.
       case replayed_call c of Some y \<Rightarrow> ret (out_entry y)
       | None \<Rightarrow> abind (authorize k (ArgDecimal (Finite x)) why None) (\<lambda>a. capture_locked a x why c)))))"

definition check_reverses :: "scope_id \<Rightarrow> decimal \<Rightarrow> uuid option \<Rightarrow> manager \<Rightarrow> unit res" where
  "check_reverses k a named m = (case named of None \<Rightarrow> Inr ()
     | Some r \<Rightarrow> (case ledger_resolve (g_entries (m_ledger m)) r of
         None \<Rightarrow> Inl (ValueError ''is not a spend this ledger holds'')
       | Some e \<Rightarrow> if entry_type e \<noteq> SPEND then Inl (ValueError ''is not a spend this ledger holds'')
           else if scope_id e \<noteq> k then Inl (ValueError ''was made by another scope'')
           else rbind (ctx_subtract (amount e) (chain_refunded_of_spend (m_state m) r)) (\<lambda>left.
             if dec_lt left a then Inl (ValueError ''more than is left to refund'') else Inr ())))"

definition refund :: "scope_id \<Rightarrow> num_arg \<Rightarrow> ustr \<Rightarrow> uuid option \<Rightarrow> ustr option \<Rightarrow> ledger_entry act" where
  "refund k num why named key = abind (asks m_unit) (\<lambda>u. abind (pure (credit num u)) (\<lambda>a.
     abind (guard (dec_le a ZERO) (ValueError ''refund must be positive'')) (\<lambda>_.
     mutating (abind (called key ''entry'' ''refund'' [(''scope_id'', Text k), (''amount'', Amount a), (''memo'', Text why),
         (''reverses'', case named of None \<Rightarrow> Nothing | Some r \<Rightarrow> Id r)]) (\<lambda>c.
       case replayed_call c of Some x \<Rightarrow> ret (out_entry x)
       | None \<Rightarrow> abind (require_node k) (\<lambda>_.
         abind (asks (check_reverses k a named)) (\<lambda>r. abind (pure r) (\<lambda>_.
         abind (asks (\<lambda>m. ctx_subtract (chain_spent_by (m_state m) k) (chain_refunded_to (m_state m) k))) (\<lambda>d.
         abind (pure d) (\<lambda>refundable.
         abind (guard (dec_lt refundable a) (ValueError ''a refund returns money a scope spent and cannot grant more'')) (\<lambda>_.
         abind start_work (\<lambda>p.
         abind (posting p [line REVERSAL CREDIT k a None (or_else why (lit ''vendor refund'')) named]) (\<lambda>(p, es).
         abind (commit_call p c (hd es)) (\<lambda>rec.
         abind (answered rec (Out_Entry (hd es))) (\<lambda>_. ret (hd es))))))))))))))))"

definition anchor :: "scope_id \<Rightarrow> ustr \<Rightarrow> ledger_entry act" where
  "anchor k why = abind (guard (why = []) (ValueError ''an anchor must carry the record it commits to'')) (\<lambda>_.
     mutating (abind (require_node k) (\<lambda>_. abind start_work (\<lambda>p.
       abind (posting p [line ANCHOR NONE k ZERO None why None]) (\<lambda>(p, es).
       abind (commit_only p) (\<lambda>_. ret (hd es)))))))"

section \<open>Stale holds\<close>

definition stale_authorizations :: "int \<Rightarrow> scope_id option \<Rightarrow> authorization list act" where
  "stale_authorizations older_than scope = abind (now_minus older_than) (\<lambda>cutoff.
     abind (case scope of None \<Rightarrow> ret () | Some k \<Rightarrow> abind (require_node k) (\<lambda>_. ret ())) (\<lambda>_.
     asks (\<lambda>m. sort_key a_opened_at (filter (\<lambda>a. instant_micros (a_opened_at a) \<le> cutoff \<and> (scope = None \<or> scope = Some (a_scope_id a)))
       (map snd (g_open_auths (m_ledger m)))))))"

fun void_each :: "ustr \<Rightarrow> authorization list \<Rightarrow> authorization list act" where
  "void_each note [] = ret []"
| "void_each note (a # rest) = abind (mutating (abind (asks (\<lambda>m. map_of (g_open_auths (m_ledger m)) (a_authorization_id a))) (\<lambda>found.
       if found = None then ret [] else abind (void_locked a note None) (\<lambda>_. ret [a])))) (\<lambda>done.
     abind (void_each note rest) (\<lambda>more. ret (done @ more)))"

definition void_stale :: "int \<Rightarrow> scope_id option \<Rightarrow> ustr \<Rightarrow> authorization list act" where
  "void_stale older_than scope why = abind (stale_authorizations older_than scope)
     (void_each (or_else why (lit ''stale hold released by operator'')))"

section \<open>Verification\<close>

function root_walk :: "(scope_id, budget_node) dict \<Rightarrow> scope_id set \<Rightarrow> scope_id \<Rightarrow> scope_id set \<Rightarrow> scope_id option \<Rightarrow> scope_id set res" where
  "root_walk ns rooted start path None = Inr path"
| "root_walk ns rooted start path (Some c) =
     (if c \<in> rooted then Inr path
      else if c \<in> path then integrity ''delegation cycle detected'' start
      else case map_of ns c of None \<Rightarrow> integrity ''ancestor is not registered'' start
        | Some n \<Rightarrow> root_walk ns rooted start (insert c path) (n_parent_id n))"
  by pat_completeness auto
termination
proof (relation "measure (\<lambda>(ns, rooted, start, path, c). card (fst ` set ns - path))", goal_cases)
  case (2 ns rooted start path c n)
  then have "c \<in> fst ` set ns - path" using map_of_SomeD by (force simp: image_iff)
  moreover have "fst ` set ns - insert c path = (fst ` set ns - path) - {c}" by auto
  ultimately show ?case using card_Diff1_less [of "fst ` set ns - path" c] by simp
qed simp

definition verify_node :: "chain_state \<Rightarrow> scope_id set \<Rightarrow> scope_id \<times> budget_node \<Rightarrow> scope_id set res" where
  "verify_node s rooted kn = (let k = fst kn; n = snd kn in case n_parent_id n of
       None \<Rightarrow> if k \<notin> set (s_roots s) then integrity ''parentless scope is not a root'' k else Inr rooted
     | Some p \<Rightarrow> (case map_of (s_nodes s) p of None \<Rightarrow> integrity ''parent is not registered'' k
         | Some pn \<Rightarrow>
             if k \<notin> set (n_child_ids pn) then integrity ''not listed as a child'' k
             else if n_depth n \<noteq> n_depth pn + 1 then integrity ''depth is inconsistent with parent depth'' k
             else rbind (root_walk (s_nodes s) rooted k {k} (Some p)) (\<lambda>path. Inr (rooted \<union> path))))"

definition verify_tree :: "chain_state \<Rightarrow> unit res" where
  "verify_tree s = rbind (rfold (verify_node s) {} (s_nodes s)) (\<lambda>_. Inr ())"

definition verify_authorizations :: "ledger \<Rightarrow> unit res" where
  "verify_authorizations g = (if (\<lambda>(i, a). entry_id (a_entry a)) ` set (g_open_auths g) \<noteq> fst ` set (s_holds (g_state g))
     then integrity' ''open authorizations disagree with the chain's open holds'' else Inr ())"

definition verify_integrity :: "manager \<Rightarrow> unit res" where
  "verify_integrity m = rbind (verify_tree (m_state m)) (\<lambda>_. rbind (verify_conservation (m_ledger m)) (\<lambda>_.
     rbind (verify_authorizations (m_ledger m)) (\<lambda>_. verify_chain (m_ledger m))))"

section \<open>Transactions\<close>

definition roll_back :: "nat \<Rightarrow> unit act" where
  "roll_back mark m = (if mark < s_length (m_state m) then
       (case rewind (m_ledger m) mark of Inl e \<Rightarrow> (m, Inl e) | Inr g \<Rightarrow> (m\<lparr> m_ledger := g \<rparr>, Inr ()))
     else (m, Inr ()))"

fun retrip :: "(scope_id \<times> ustr) list \<Rightarrow> manager \<Rightarrow> manager" where
  "retrip [] m = m"
| "retrip ((k, reason) # ts) m = retrip ts (fst (mutating (trip_breaker k reason) m))"

definition transaction :: "'a act \<Rightarrow> 'a act" where
  "transaction block m =
     (if 0 < m_depth m \<or> m_transaction m \<noteq> None then (m, Inl (RuntimeError ''a transaction does not nest''))
      else let mark = s_length (m_state m); (m1, r) = mutating block (m\<lparr> m_transaction := Some [] \<rparr>);
               trips = (case m_transaction m1 of None \<Rightarrow> [] | Some ts \<Rightarrow> ts); m2 = m1\<lparr> m_transaction := None \<rparr>
      in case r of Inr x \<Rightarrow> (m2, Inr x)
         | Inl e \<Rightarrow> (case roll_back mark m2 of (m3, Inl e') \<Rightarrow> (m3, Inl e')
             | (m3, Inr _) \<Rightarrow> (retrip trips m3, Inl e)))"

end
