(* ===== verification/Governance.thy ===== *)
theory Governance
  imports Manager
begin

text \<open>
  What the governor keeps. Every method, whether it returns or raises, leaves a ledger that agrees
  with its chain and open authorizations that are exactly the chain's open holds. The proof is a
  small Hoare logic over acts: the invariant \<open>gov_inv n\<close> speaks of governors that have drawn at most \<open>n\<close>
  ids, all of them new.
\<close>

section \<open>The invariant\<close>

lemma set_update: "(i, x) \<in> set (AList.update k v d) \<Longrightarrow> (i, x) = (k, v) \<or> (i, x) \<in> set d"
  by (induction d) (auto split: if_splits)

interpretation hold_keys: invariant_step "ref_step h w"
  "\<lambda>rr es. dict_wf (s_holds (fst rr)) \<and> (\<forall>(i, e) \<in> set (s_holds (fst rr)). entry_id e = i)" for h w
proof
  fix rr rr' :: "ref_state \<times> uuid set option" and e es
  assume inv: "dict_wf (s_holds (fst rr)) \<and> (\<forall>(i, e) \<in> set (s_holds (fst rr)). entry_id e = i)" and "ref_step h w rr e = Inr rr'"
  then have "ref_apply (fst rr) e h (snd rr) w = Inr (fst rr', snd rr')" by (simp add: ref_step_def)
  then obtain q q' where q: "hold_part q = hold_part (fst rr)" "ref_check_holds q e (snd rr) = Inr (q', snd rr')"
    "hold_part (fst rr') = hold_part q'" by (rule apply_hold_part)
  have wf: "dict_wf (s_holds q)" and key: "\<forall>(i, e) \<in> set (s_holds q). entry_id e = i" using inv q(1) by (simp_all add: hold_part_def)
  from q(2) wf have "dict_wf (s_holds q') \<and> (\<forall>(i, e) \<in> set (s_holds q'). entry_id e = i)"
  proof (cases rule: holds_cases)
    case opens
    then show ?thesis using wf key by (auto simp: ref_open_def dest: set_update)
  next
    case (closes h hold)
    then show ?thesis using wf key dict_wf_delete [OF wf, of h] by (auto simp: ref_close_def AList.delete_eq)
  qed (use wf key in simp)
  then show "dict_wf (s_holds (fst rr')) \<and> (\<forall>(i, e) \<in> set (s_holds (fst rr')). entry_id e = i)"
    using q(3) by (simp add: hold_part_def)
qed

lemma ledger_hold_keys: "ledger_wf g \<Longrightarrow> (i, e) \<in> set (s_holds (g_state g)) \<Longrightarrow> entry_id e = i"
proof -
  assume "ledger_wf g" and e: "(i, e) \<in> set (s_holds (g_state g))"
  then obtain q rs where run: "rfold (ref_step True False) (ref_start (empty_chain (s_unit (g_state g)) [])
      (Some (spend_index (g_entries g))), Some {}) (g_entries g) = Inr (q, rs)" "g_state g = ref_chain q" by (blast elim: ledger_run)
  then show ?thesis using hold_keys.run_keeps [OF _ run(1)] e by (simp add: run(2)) blast
qed

definition on_values :: "('a \<Rightarrow> 'b) \<Rightarrow> ('k, 'a) dict \<Rightarrow> ('k, 'b) dict" where
  "on_values f d = map (\<lambda>(k, v). (k, f v)) d"

definition auths_match :: "ledger \<Rightarrow> bool" where
  "auths_match g \<longleftrightarrow> g_open_auths g = on_values authorization_for (s_holds (g_state g)) \<and> g_legacy_auth_ids g = []"

definition gov_ok :: "nat \<Rightarrow> manager \<Rightarrow> bool" where
  "gov_ok n m \<longleftrightarrow> ledger_wf (m_ledger m) \<and> fresh_world n (m_world m) (g_entries (m_ledger m)) \<and> auths_match (m_ledger m)"

definition gov_inv :: "nat \<Rightarrow> manager \<Rightarrow> bool" where
  "gov_inv n m \<longleftrightarrow> (w_drawn (m_world m) \<le> n \<longrightarrow> gov_ok n m)"

lemma on_values_update: "on_values f (AList.update k v d) = AList.update k (f v) (on_values f d)"
  by (induction d) (auto simp: on_values_def)

lemma on_values_dict_update: "on_values f (dict_update d e) = dict_update (on_values f d) (on_values f e)"
proof (induction e arbitrary: d)
  case Nil
  then show ?case by (simp add: on_values_def)
next
  case (Cons p e)
  moreover have "on_values f (p # e) = (fst p, f (snd p)) # on_values f e" by (simp add: on_values_def split: prod.split)
  ultimately show ?case by (cases p) (simp add: on_values_update)
qed

lemma on_values_filter: "filter (\<lambda>(k, a). P k) (on_values f d) = on_values f (filter (\<lambda>(k, a). P k) d)"
  by (induction d) (auto simp: on_values_def)

lemma view_opened_keys:
  assumes "view_inv v" "\<And>h e. (h, e) \<in> set (s_holds (merged v)) \<Longrightarrow> entry_id e = h" "(h, e) \<in> set (v_opened v)"
  shows "entry_id e = h"
proof -
  have "s_holds (merged v) = filter (\<lambda>(h, e). h \<notin> v_closed v) (s_holds (v_base v)) @ v_opened v"
    unfolding merged_def Let_def using assms(1)
    by (simp, intro dict_update_disjoint) (auto simp: view_inv_def)
  then show ?thesis using assms(2,3) by simp
qed

lemma commit_auths:
  assumes ok: "auths_match g" and wk: "working n w g p" and c: "commit g p = Inr g'"
  shows "auths_match g'"
proof (cases "batch_true (fill_batch g p)")
  case False
  then show ?thesis using c ok by (simp add: commit_def Let_def)
next
  case True
  let ?v = "p_view p"
  have wf: "ledger_wf g'" using commit_wf [OF wk c] by blast
  have rel: "view_inv ?v" "v_base ?v = g_state g" using wk by (simp_all add: working_def Let_def view_rel_def)
  have g': "g_open_auths g' = dict_update (filter (\<lambda>(k, a). k \<notin> authorization_id g ` v_closed ?v) (g_open_auths g))
        (map (\<lambda>(h, e). (entry_id e, authorization_for e)) (v_opened ?v))"
      "g_legacy_auth_ids g' = filter (\<lambda>(k, a). k \<notin> v_closed ?v) (g_legacy_auth_ids g)" "g_state g' = merged ?v"
    using c True by (auto simp: commit_def Let_def follow_holds_def split: if_splits)
  have a: "g_open_auths g = on_values authorization_for (s_holds (g_state g))" "g_legacy_auth_ids g = []"
    using ok by (simp_all add: auths_match_def)
  have id: "authorization_id g = id" using a(2) by (auto simp: authorization_id_def dict_get_def)
  have keys: "entry_id e = h" if "(h, e) \<in> set (v_opened ?v)" for h e
    using view_opened_keys [OF rel(1) _ that] ledger_hold_keys [OF wf] g'(3) by simp
  have "map (\<lambda>(h, e). (entry_id e, authorization_for e)) (v_opened ?v) = on_values authorization_for (v_opened ?v)"
    unfolding on_values_def using keys by (intro map_cong) auto
  then have "g_open_auths g' = on_values authorization_for (s_holds (g_state g'))"
    unfolding g' a id image_id on_values_filter
    by (simp add: on_values_dict_update merged_def Let_def rel(2))
  then show ?thesis using a(2) g'(2) by (simp add: auths_match_def)
qed


lemma working_idempotency [simp]:
  "working n w g (p\<lparr> p_batch := (p_batch p)\<lparr> b_idempotency := k \<rparr> \<rparr>) = working n w g p"
  by (simp add: working_def Let_def)

lemma fresh_later: "fresh_world n w es \<Longrightarrow> w_drawn w \<le> d \<Longrightarrow> fresh_world n (w\<lparr> w_drawn := d, w_ticks := t \<rparr>) es"
  by (auto simp: fresh_world_def inj_on_def)

lemma commit_ok:
  assumes "gov_ok n m" "working n (m_world m) (m_ledger m) p" "commit (m_ledger m) p = Inr g'"
  shows "gov_ok n (m\<lparr> m_ledger := g' \<rparr>)" "s_unit (g_state g') = m_unit m"
  using assms commit_wf [OF assms(2,3)] commit_auths [OF _ assms(2,3)] by (auto simp: gov_ok_def)

text \<open>The entry a line becomes.\<close>

definition line_entry :: "ledger_line \<Rightarrow> ledger_entry \<Rightarrow> bool" where
  "line_entry l e \<longleftrightarrow> entry_type e = l_entry_type l \<and> direction e = l_direction l \<and> scope_id e = l_scope_id l
     \<and> counterparty_id e = l_counterparty_id l \<and> memo e = l_memo l \<and> ref e = l_ref l \<and> check_line l = Inr (amount e)"

lemma post_lines:
  assumes "post w p ls None = Inr (w', p', es)"
  shows "list_all2 line_entry ls es"
proof -
  have "\<exists>new. u_built b' = u_built b @ new \<and> list_all2 line_entry ls new"
    if "rfold (build_line v t now) b ls = Inr b'" for v t now b b'
    using that
  proof (induction ls arbitrary: b)
    case (Cons l ls)
    then obtain b1 where b1: "build_line v t now b l = Inr b1" "rfold (build_line v t now) b1 ls = Inr b'" by auto
    have "\<exists>e. u_built b1 = u_built b @ [e] \<and> line_entry l e"
      using b1(1) by (auto simp: build_line_def uuid4_def line_entry_def Let_def)
    then obtain e where "u_built b1 = u_built b @ [e]" "line_entry l e" by blast
    with Cons.IH [OF b1(2)] show ?case by auto
  qed simp
  from post_cases [OF assms] this show ?thesis by (metis append_Nil building.select_convs(5))
qed

section \<open>Acts that keep an invariant\<close>

text \<open>What an invariant of the governor may speak of: its ledger, and the ids it has drawn.\<close>

definition core :: "manager \<Rightarrow> ledger \<times> (nat \<Rightarrow> uuid) \<times> nat" where
  "core m = (m_ledger m, w_uuid (m_world m), w_drawn (m_world m))"

definition quiet :: "'a act \<Rightarrow> bool" where
  "quiet a \<longleftrightarrow> (\<forall>m. core (fst (a m)) = core m)"

lemma quietI: "(\<And>m. core (fst (a m)) = core m) \<Longrightarrow> quiet a"
  by (simp add: quiet_def)

lemma quiet_bind: "quiet a \<Longrightarrow> (\<And>x. quiet (f x)) \<Longrightarrow> quiet (abind a f)"
  unfolding quiet_def abind_def by (auto split: prod.split sum.split) (metis fst_conv)+

lemma quiet_acts [simp]:
  "quiet (ret x)" "quiet (raise e)" "quiet (pure r)" "quiet (asks f)" "quiet (guard b e)" "quiet (called k o' op args)"
  "quiet (require_node s)" "quiet (require_scope_id s)" "quiet (assert_not_halted s)" "quiet (require_open_authorization a)"
  "quiet (answered rec y)" "quiet (now_minus i)" "quiet monotonic"
  by (simp_all add: quiet_def ret_def raise_def pure_def asks_def guard_def called_def require_node_def require_scope_id_def
      assert_not_halted_def require_open_authorization_def answered_def modify_def now_minus_def utcnow_def monotonic_def
      core_def Let_def split: option.split)

lemma quiet_modify: "(\<And>m. core (f m) = core m) \<Longrightarrow> quiet (modify f)"
  by (simp add: quiet_def modify_def)

lemma core_remember [simp]: "core (remember es m) = core m"
  by (simp add: remember_def core_def)

locale governed =
  fixes n :: nat and I :: "manager \<Rightarrow> bool" and T :: "entry_type \<Rightarrow> bool"
  assumes I_core: "core m' = core m \<Longrightarrow> I m \<Longrightarrow> I m'"
    and I_draw: "I m \<Longrightarrow> w_drawn (m_world m) \<le> d \<Longrightarrow> I (m\<lparr> m_world := (m_world m)\<lparr> w_drawn := d, w_ticks := t \<rparr> \<rparr>)"
    and I_extend: "I m \<Longrightarrow> (w_drawn (m_world m) \<le> n \<Longrightarrow> gov_ok n m) \<Longrightarrow> (w_drawn (m_world m) \<le> n \<Longrightarrow> gov_ok n (m\<lparr> m_ledger := g \<rparr>) \<and> s_unit (g_state g) = m_unit m) \<Longrightarrow>
      g_entries g = g_entries (m_ledger m) @ new \<Longrightarrow> \<forall>e \<in> set new. T (entry_type e) \<Longrightarrow> I (m\<lparr> m_ledger := g \<rparr>)"
    and I_ok: "I m \<Longrightarrow> w_drawn (m_world m) \<le> n \<Longrightarrow> gov_ok n m"
begin

definition work :: "pending \<Rightarrow> manager \<Rightarrow> bool" where
  "work p m \<longleftrightarrow> I m \<and> (\<forall>e \<in> set (b_entries (p_batch p)). T (entry_type e))
     \<and> (w_drawn (m_world m) \<le> n \<longrightarrow> working n (m_world m) (m_ledger m) p)"

definition valid :: "(manager \<Rightarrow> bool) \<Rightarrow> 'a act \<Rightarrow> ('a \<Rightarrow> manager \<Rightarrow> bool) \<Rightarrow> bool" where
  "valid P a Q \<longleftrightarrow> (\<forall>m. P m \<longrightarrow> I (fst (a m)) \<and> (\<forall>x. snd (a m) = Inr x \<longrightarrow> Q x (fst (a m))))"

definition keeps :: "'a act \<Rightarrow> bool" where
  "keeps a \<longleftrightarrow> valid I a (\<lambda>_. I)"

lemma valid_bind:
  assumes "valid P a R" "\<And>x. valid (R x) (f x) Q"
  shows "valid P (abind a f) Q"
  unfolding valid_def abind_def
proof (intro allI impI)
  fix m
  assume "P m"
  with assms(1) have a: "I (fst (a m))" "\<And>x. snd (a m) = Inr x \<Longrightarrow> R x (fst (a m))" by (auto simp: valid_def)
  show "I (fst (case a m of (m', Inl e) \<Rightarrow> (m', Inl e) | (m', Inr x) \<Rightarrow> f x m'))
    \<and> (\<forall>x. snd (case a m of (m', Inl e) \<Rightarrow> (m', Inl e) | (m', Inr x) \<Rightarrow> f x m') = Inr x \<longrightarrow>
        Q x (fst (case a m of (m', Inl e) \<Rightarrow> (m', Inl e) | (m', Inr x) \<Rightarrow> f x m')))"
    using a assms(2) by (cases "a m"; cases "snd (a m)") (auto simp: valid_def)
qed

lemma keepsD: "keeps a \<Longrightarrow> valid I a (\<lambda>_. I)"
  by (simp add: keeps_def)

lemma keepsI: "valid I a (\<lambda>_. I) \<Longrightarrow> keeps a"
  by (simp add: keeps_def)

lemma keeps_bind: "keeps a \<Longrightarrow> (\<And>x. valid I (f x) Q) \<Longrightarrow> valid I (abind a f) Q"
  unfolding keeps_def by (rule valid_bind)

lemma keeps_quiet: "quiet a \<Longrightarrow> keeps a"
  unfolding keeps_def valid_def quiet_def using I_core by blast

lemma quiet_seq: "quiet a \<Longrightarrow> (\<And>x. valid I (f x) Q) \<Longrightarrow> valid I (abind a f) Q"
  by (rule keeps_bind [OF keeps_quiet])

lemma work_core: "core m' = core m \<Longrightarrow> work p m \<Longrightarrow> work p m'"
  unfolding work_def using I_core [of m' m] by (auto simp: core_def working_def fresh_world_def Let_def)

lemma work_seq: "quiet a \<Longrightarrow> (\<And>x. valid (work p) (f x) Q) \<Longrightarrow> valid (work p) (abind a f) Q"
  by (rule valid_bind [where R = "\<lambda>_. work p"])
    (auto simp: valid_def quiet_def intro: work_core dest: work_core [THEN work_def [THEN iffD1]])

lemma keeps_mutating: "keeps a \<Longrightarrow> keeps (mutating a)"
proof -
  assume a: "keeps a"
  show ?thesis
    unfolding keeps_def valid_def
  proof (intro allI impI)
    fix m
    assume "I m"
    then have "I (m\<lparr> m_depth := m_depth m + 1 \<rparr>)" by (rule I_core [rotated]) (simp add: core_def)
    with a have i: "I (fst (a (m\<lparr> m_depth := m_depth m + 1 \<rparr>)))" by (simp add: keeps_def valid_def)
    obtain m1 r where m1: "a (m\<lparr> m_depth := m_depth m + 1 \<rparr>) = (m1, r)" by fastforce
    have "core (m1\<lparr> m_depth := d, m_unit_calls := c \<rparr>) = core m1" "core (m1\<lparr> m_depth := d \<rparr>) = core m1" for d c
      by (simp_all add: core_def)
    then have "I (m1\<lparr> m_depth := d, m_unit_calls := c \<rparr>)" "I (m1\<lparr> m_depth := d \<rparr>)" for d c
      using I_core i m1 by (metis fst_conv)+
    then have "I (fst (mutating a m))"
      using a \<open>I m\<close> m1 by (auto simp: mutating_def Let_def keeps_def valid_def)
    then show "I (fst (mutating a m)) \<and> (\<forall>x. snd (mutating a m) = Inr x \<longrightarrow> I (fst (mutating a m)))" by simp
  qed
qed

lemma valid_start: "(\<And>p. valid (work p) (f p) Q) \<Longrightarrow> valid I (abind start_work f) Q"
proof (rule valid_bind [where R = work])
  have "working n (m_world m) (m_ledger m) (begin_work (m_ledger m))" if "I m" "w_drawn (m_world m) \<le> n" for m
    using I_ok [OF that] by (intro begin_working) (simp_all add: gov_ok_def)
  moreover have "b_entries (p_batch (begin_work g)) = []" for g by (simp add: begin_work_def empty_batch_def)
  ultimately show "valid I start_work work" by (auto simp: valid_def start_work_def work_def)
qed

lemma posting_work:
  assumes "\<forall>l \<in> set ls. T (l_entry_type l)"
  shows "valid (work p) (posting p ls) (\<lambda>(p', es). work p')"
  unfolding valid_def
proof (intro allI impI)
  fix m
  assume w: "work p m"
  show "I (fst (posting p ls m)) \<and> (\<forall>x. snd (posting p ls m) = Inr x \<longrightarrow> (case x of (p', es) \<Rightarrow> work p') (fst (posting p ls m)))"
  proof (cases "post (m_world m) p ls None")
    case (Inl e)
    then show ?thesis using w by (simp add: posting_def work_def)
  next
    case (Inr x)
    then obtain w' p' es where post: "post (m_world m) p ls None = Inr (w', p', es)" by (cases x) auto
    note k = post_written [OF post]
    have I': "I (m\<lparr> m_world := w' \<rparr>)" using w I_draw by (simp add: work_def k(5))
    have "b_entries (p_batch p') = b_entries (p_batch p) @ es" using post by (rule post_cases) simp
    moreover have "\<forall>e \<in> set es. T (entry_type e)" using post_lines [OF post] assms
      by (fastforce simp: list_all2_conv_all_nth line_entry_def in_set_conv_nth)
    moreover have "working n w' (m_ledger m) p'" if "w_drawn w' \<le> n"
      using w post_working [OF _ post that, of "m_ledger m"] that k(5) by (simp add: work_def)
    ultimately show ?thesis using post w I' by (auto simp: posting_def work_def)
  qed
qed

lemma valid_posting:
  "\<forall>l \<in> set ls. T (l_entry_type l) \<Longrightarrow> (\<And>p' es. valid (work p') (f (p', es)) Q) \<Longrightarrow> valid (work p) (abind (posting p ls) f) Q"
  by (rule valid_bind [OF posting_work]) (auto split: prod.split)

lemma valid_ret: "valid (work p) (ret p) work"
  by (auto simp: valid_def ret_def work_def)

lemma stage_trip_work: "T CIRCUIT_TRIPPED \<Longrightarrow> valid (work p) (stage_trip p k reason) work"
  unfolding stage_trip_def stage_control_def
  by (auto simp: line_def intro!: valid_posting valid_ret)

lemmas valid_stage_trip = valid_bind [OF stage_trip_work]

lemma commit_step:
  assumes "work p m" "commit (m_ledger m) p' = Inr g" "b_entries (p_batch p') = b_entries (p_batch p)"
    "\<And>w g. working n w g p' = working n w g p"
  shows "I (m\<lparr> m_ledger := g \<rparr>)"
proof -
  have es: "g_entries g = g_entries (m_ledger m) @ b_entries (p_batch p')" using assms(2)
    by (cases "batch_true (fill_batch (m_ledger m) p')")
      (auto simp: commit_def fill_batch_def batch_true_def Let_def follow_holds_def split: if_splits prod.splits)
  have "gov_ok n (m\<lparr> m_ledger := g \<rparr>) \<and> s_unit (g_state g) = m_unit m" if "w_drawn (m_world m) \<le> n"
    using assms that I_ok by (intro commit_ok [where p = p'] conjI) (auto simp: work_def)
  then show ?thesis using I_extend [OF _ _ _ es] assms I_ok by (simp add: work_def)
qed

lemma valid_commit: "valid (work p) (commit_only p) (\<lambda>_. I)"
  unfolding valid_def
proof (intro allI impI)
  fix m
  assume w: "work p m"
  then have i: "I m" by (simp add: work_def)
  have "I (remember es (m\<lparr> m_ledger := g \<rparr>))" if "commit (m_ledger m) p = Inr g" for g es
    using commit_step [OF w that] I_core core_remember by blast
  then show "I (fst (commit_only p m)) \<and> (\<forall>x. snd (commit_only p m) = Inr x \<longrightarrow> I (fst (commit_only p m)))"
    using i by (auto simp: commit_only_def split: sum.split)
qed

lemma valid_commit_call: "valid (work p) (commit_call p c e) (\<lambda>_. I)"
  unfolding valid_def
proof (intro allI impI)
  fix m
  assume w: "work p m"
  then have i: "I m" by (simp add: work_def)
  have "I (remember es (m\<lparr> m_ledger := g \<rparr>))"
    if "commit (m_ledger m) (p\<lparr> p_batch := (p_batch p)\<lparr> b_idempotency := k \<rparr> \<rparr>) = Inr g" for g es k
    using commit_step [OF w that] by (intro I_core [OF core_remember]) simp
  then show "I (fst (commit_call p c e m)) \<and> (\<forall>x. snd (commit_call p c e m) = Inr x \<longrightarrow> I (fst (commit_call p c e m)))"
    using i by (auto simp: commit_call_def Let_def split: sum.split)
qed

lemma valid_posting2:
  "\<forall>l \<in> set ls. T (l_entry_type l) \<Longrightarrow> (\<And>p' es. valid (work p') (f p' es) Q) \<Longrightarrow>
    valid (work p) (abind (posting p ls) (\<lambda>(p', es). f p' es)) Q"
  by (rule valid_posting) auto

lemma valid_prod: "(\<And>a b. valid P (f a b) Q) \<Longrightarrow> valid P (case x of (a, b) \<Rightarrow> f a b) Q"
  by (cases x) simp

lemma valid_if: "(b \<Longrightarrow> valid P x Q) \<Longrightarrow> (\<not> b \<Longrightarrow> valid P y Q) \<Longrightarrow> valid P (if b then x else y) Q"
  by simp

lemma valid_option: "valid P x Q \<Longrightarrow> (\<And>y. valid P (f y) Q) \<Longrightarrow> valid P (case c of None \<Rightarrow> x | Some y \<Rightarrow> f y) Q"
  by (simp split: option.split)

lemma valid_done: "quiet a \<Longrightarrow> valid I a (\<lambda>_. I)"
  by (rule keepsD [OF keeps_quiet])

lemma valid_mutating: "keeps a \<Longrightarrow> valid I (mutating a) (\<lambda>_. I)"
  by (rule keepsD [OF keeps_mutating])

lemmas commit_seq = valid_bind [OF valid_commit]
lemmas commit_call_seq = valid_bind [OF valid_commit_call]
lemmas act_rules = valid_mutating keepsI valid_start valid_posting2 commit_seq commit_call_seq valid_if valid_option
  valid_prod quiet_acts [THEN quiet_seq] quiet_acts [THEN valid_done]

lemma keeps_void_locked: "T HOLD_VOID \<Longrightarrow> keeps (void_locked a why c)"
  unfolding void_locked_def by (intro act_rules) (simp_all add: line_def)

lemma keeps_trip_breaker: "T CIRCUIT_TRIPPED \<Longrightarrow> keeps (trip_breaker k reason)"
proof -
  assume t: "T CIRCUIT_TRIPPED"
  have q: "quiet (modify (\<lambda>m. m\<lparr> m_transaction := f (m_transaction m) \<rparr>))" for f by (rule quiet_modify) (simp add: core_def)
  have "keeps (abind start_work (\<lambda>p. abind (stage_trip p k reason) (\<lambda>p. abind (commit_only p) (\<lambda>_.
       modify (\<lambda>m. m\<lparr> m_transaction := map_option (\<lambda>ts. ts @ [(k, reason)]) (m_transaction m) \<rparr>)))))"
    unfolding keeps_def
    by (intro valid_start valid_stage_trip t valid_bind [OF valid_commit] keepsD keeps_quiet q)
  then show ?thesis by (auto simp: keeps_def valid_def trip_breaker_def)
qed

lemma keeps_trip: "T CIRCUIT_TRIPPED \<Longrightarrow> keeps (trip k reason)"
  unfolding trip_def
  by (intro keeps_mutating) (simp add: keeps_def quiet_seq keepsD [OF keeps_trip_breaker])

lemma keeps_reset: "T CIRCUIT_RESET \<Longrightarrow> keeps (reset k why)"
proof -
  assume t: "T CIRCUIT_RESET"
  have q: "quiet (modify (\<lambda>m. m\<lparr> m_velocity := f (m_velocity m) \<rparr>))" for f by (rule quiet_modify) (simp add: core_def)
  show ?thesis unfolding reset_def stage_control_def by (intro act_rules valid_done [OF q]) (simp_all add: line_def t)
qed

lemma keeps_velocity: "T CIRCUIT_TRIPPED \<Longrightarrow> keeps (record_velocity k)"
proof -
  assume t: "T CIRCUIT_TRIPPED"
  have q: "quiet (modify (\<lambda>m. m\<lparr> m_velocity := f m \<rparr>))" "quiet (modify (\<lambda>m. m\<lparr> m_fleet_holds := f' m \<rparr>))" for f f'
    by (rule quiet_modify, simp add: core_def)+
  show ?thesis
    unfolding record_velocity_def Let_def
    by (intro act_rules keeps_bind [OF keeps_trip_breaker [OF t]] q [THEN quiet_seq])
qed

lemma keeps_open_root: "T FUNDING \<Longrightarrow> keeps (open_root k a why)"
  unfolding open_root_def by (intro act_rules) (simp_all add: line_def)

lemma keeps_fund: "T FUNDING \<Longrightarrow> keeps (fund k a why key)"
  unfolding fund_def by (intro act_rules) (simp_all add: line_def)

lemma keeps_delegate: "T ALLOCATION \<Longrightarrow> keeps (delegate p k a why key)"
  unfolding delegate_def Let_def by (intro act_rules) (simp_all add: line_def)

lemma keeps_release: "T RELEASE \<Longrightarrow> keeps (release k a why)"
  unfolding release_def Let_def by (intro act_rules) (simp_all add: line_def)

lemma keeps_authorize_or: "T HOLD \<Longrightarrow> T CIRCUIT_TRIPPED \<Longrightarrow> keeps (authorize_or k a why key b)"
  unfolding authorize_or_def
  by (intro act_rules keeps_bind [OF keeps_trip_breaker] keeps_bind [OF keeps_velocity]) (simp_all add: line_def)

lemma keeps_authorize: "T HOLD \<Longrightarrow> T CIRCUIT_TRIPPED \<Longrightarrow> keeps (authorize k a why key)"
  unfolding authorize_def by (intro act_rules keeps_bind [OF keeps_authorize_or]) simp_all

lemma keeps_try_authorize: "T HOLD \<Longrightarrow> T CIRCUIT_TRIPPED \<Longrightarrow> keeps (try_authorize k a why key)"
  unfolding try_authorize_def by (rule keeps_authorize_or)

lemma keeps_capture_locked:
  assumes "T HOLD_VOID" "T SPEND" "T CIRCUIT_TRIPPED"
  shows "keeps (capture_locked a x why c)"
proof -
  show ?thesis
    unfolding capture_locked_def Let_def
    by (intro act_rules keepsD [OF keeps_void_locked] valid_bind [where R = work] stage_trip_work valid_ret)
      (simp_all add: line_def assms)
qed

lemma keeps_capture: "T HOLD_VOID \<Longrightarrow> T SPEND \<Longrightarrow> T CIRCUIT_TRIPPED \<Longrightarrow> keeps (capture a x why key)"
  unfolding capture_def by (intro act_rules keepsD [OF keeps_capture_locked]) simp_all

lemma keeps_void: "T HOLD_VOID \<Longrightarrow> keeps (void a why key)"
  unfolding void_def by (intro act_rules keepsD [OF keeps_void_locked]) simp_all

lemma keeps_spend: "T HOLD \<Longrightarrow> T HOLD_VOID \<Longrightarrow> T SPEND \<Longrightarrow> T CIRCUIT_TRIPPED \<Longrightarrow> keeps (spend k x why key)"
  unfolding spend_def by (intro act_rules keepsD [OF keeps_capture_locked] keeps_bind [OF keeps_authorize]) simp_all

lemma keeps_refund: "T REVERSAL \<Longrightarrow> keeps (refund k x why named key)"
  unfolding refund_def by (intro act_rules) (simp_all add: line_def)

lemma keeps_anchor: "T ANCHOR \<Longrightarrow> keeps (anchor k why)"
  unfolding anchor_def by (intro act_rules) (simp_all add: line_def)

lemma keeps_void_each: "T HOLD_VOID \<Longrightarrow> keeps (void_each note as)"
proof (induction "as")
  case (Cons a rest)
  then show ?case
    unfolding void_each.simps
    by (intro act_rules keeps_bind [OF keeps_mutating] keeps_bind [OF keeps_void_locked] keeps_bind [OF Cons.IH]) simp_all
qed (auto intro: keeps_quiet)

lemma keeps_void_stale: "T HOLD_VOID \<Longrightarrow> keeps (void_stale t k why)"
  unfolding void_stale_def stale_authorizations_def
  by (intro keepsI keeps_bind [OF keeps_quiet] keepsD [OF keeps_void_each] quiet_bind)
    (auto intro: quiet_bind split: option.split)

end

end
