(* ===== verification/Service.thy ===== *)
theory Service
  imports Governance
begin

text \<open>
  The governor as a service: any sequence of calls and transactions, from an empty ledger. Whatever
  the callers do, the ledger agrees with its chain, the tree is a tree, and the walks over it end.
\<close>

section \<open>Every method keeps the ledger\<close>

interpretation gov: governed n "gov_inv n" "\<lambda>_. True" for n
proof
  show "core m' = core m \<Longrightarrow> gov_inv n m \<Longrightarrow> gov_inv n m'" for m m'
    by (auto simp: core_def gov_inv_def gov_ok_def fresh_world_def)
  show "gov_inv n m \<Longrightarrow> w_drawn (m_world m) \<le> d \<Longrightarrow> gov_inv n (m\<lparr> m_world := (m_world m)\<lparr> w_drawn := d, w_ticks := t \<rparr> \<rparr>)" for m d t
    by (auto simp: gov_inv_def gov_ok_def intro: fresh_later)
qed (auto simp: gov_inv_def)

text \<open>An invariant that follows the chain as it grows: entries are only ever appended.\<close>

definition grown :: "nat \<Rightarrow> manager \<Rightarrow> manager \<Rightarrow> bool" where
  "grown n m0 m \<longleftrightarrow> gov_inv n m \<and> w_drawn (m_world m0) \<le> w_drawn (m_world m)
     \<and> (\<exists>new. g_entries (m_ledger m) = g_entries (m_ledger m0) @ new)"

interpretation growth: governed n "grown n m0" "\<lambda>_. True" for n m0
proof
  show "core m' = core m \<Longrightarrow> grown n m0 m \<Longrightarrow> grown n m0 m'" for m m'
    using gov.I_core [of m' m n] by (auto simp: core_def grown_def)
  show "grown n m0 m \<Longrightarrow> w_drawn (m_world m) \<le> d \<Longrightarrow> grown n m0 (m\<lparr> m_world := (m_world m)\<lparr> w_drawn := d, w_ticks := t \<rparr> \<rparr>)" for m d t
    using gov.I_draw [of n m d t] by (auto simp: grown_def)
qed (auto simp: grown_def gov_inv_def)

section \<open>Transactions\<close>

lemma rewind_cases:
  assumes "rewind g k = Inr g'"
  shows "replay (take k (g_entries g)) [] False None None (s_unit (g_state g)) = Inr (g_state g')"
    "g_entries g' = take k (g_entries g)" "auths_match g'" "g_keys g' = filter (\<lambda>(k', r). k_sequence r \<le> k) (g_keys g)"
  using assms by (auto simp: rewind_def adopt_def auths_match_def on_values_def)

lemma replay_unit: "replay es [] False None None u = Inr s \<Longrightarrow> s_unit s = u"
proof -
  assume "replay es [] False None None u = Inr s"
  then obtain q rs r where run: "rfold (ref_step True False) (ref_start (empty_chain u []) (Some (spend_index es)), Some {}) es = Inr (q, rs)"
    and e: "ref_end_transaction q = Inr r" "s = ref_chain r"
    unfolding replay_reference ref_replay_def by auto
  from run_position [OF run] have "s_unit q = u" by (simp add: config_part_def)
  then show ?thesis using e by (auto simp: ref_end_transaction_def split: if_splits)
qed

lemma rewind_ok:
  assumes "gov_ok n m" "rewind (m_ledger m) k = Inr g"
  shows "gov_ok n (m\<lparr> m_ledger := g \<rparr>)"
proof -
  note r = rewind_cases [OF assms(2)]
  have "s_unit (g_state g) = s_unit (m_state m)" using replay_unit [OF r(1)] .
  then have "ledger_wf g" using assms(1) r(1,2)
    by (auto simp: gov_ok_def ledger_wf_def take_map [symmetric] dest: in_set_takeD)
  moreover have "fresh_world n (m_world m) (g_entries g)"
    using assms(1) r(2) by (auto simp: gov_ok_def fresh_world_def dest!: in_set_takeD)
  ultimately show ?thesis using r(3) by (simp add: gov_ok_def)
qed

lemma roll_back_inv: "gov_inv n m \<Longrightarrow> gov_inv n (fst (roll_back k m))"
  using rewind_ok [of n m] by (auto simp: roll_back_def gov_inv_def split: sum.split)

lemma retrip_inv: "gov_inv n m \<Longrightarrow> gov_inv n (retrip ts m)"
proof (induction ts arbitrary: m)
  case (Cons t ts)
  have "gov_inv n (fst (mutating (trip_breaker k reason) m))" for k reason
    using gov.keeps_mutating [OF gov.keeps_trip_breaker] Cons.prems by (simp add: gov.keeps_def gov.valid_def)
  with Cons.IH show ?case by (cases t) simp
qed simp

lemma keeps_transaction:
  assumes "gov.keeps n block"
  shows "gov.keeps n (transaction block)"
  unfolding gov.keeps_def gov.valid_def
proof (intro allI impI)
  fix m
  assume i: "gov_inv n m"
  have "gov_inv n (m\<lparr> m_transaction := Some [] \<rparr>)" using i by (rule gov.I_core [rotated]) (simp add: core_def)
  then have m1: "gov_inv n (fst (mutating block (m\<lparr> m_transaction := Some [] \<rparr>)))"
    using gov.keeps_mutating [OF assms] by (simp add: gov.keeps_def gov.valid_def)
  have none: "gov_inv n (q\<lparr> m_transaction := t \<rparr>)" if "gov_inv n q" for q t
    using that by (rule gov.I_core [rotated]) (simp add: core_def)
  have "gov_inv n (fst (transaction block m))"
    using m1 i roll_back_inv retrip_inv
    by (auto simp: transaction_def Let_def none split: prod.split sum.split) (metis fst_conv none)+
  then show "gov_inv n (fst (transaction block m)) \<and> (\<forall>x. snd (transaction block m) = Inr x \<longrightarrow> gov_inv n (fst (transaction block m)))"
    by simp
qed


section \<open>Callers\<close>

datatype request =
    Open_Root scope_id num_arg ustr
  | Fund scope_id num_arg ustr "ustr option"
  | Delegate scope_id scope_id num_arg ustr "ustr option"
  | Release scope_id "num_arg option" ustr
  | Authorize scope_id num_arg ustr "ustr option"
  | Try_Authorize scope_id num_arg ustr "ustr option"
  | Capture authorization num_arg ustr "ustr option"
  | Void authorization ustr "ustr option"
  | Spend scope_id num_arg ustr "ustr option"
  | Refund scope_id num_arg ustr "uuid option" "ustr option"
  | Anchor scope_id ustr
  | Void_Stale int "scope_id option" ustr
  | Trip scope_id ustr
  | Reset scope_id ustr

definition ignore :: "'a act \<Rightarrow> unit act" where
  "ignore a = abind a (\<lambda>_. ret ())"

fun perform :: "request \<Rightarrow> unit act" where
  "perform (Open_Root k x why) = ignore (open_root k x why)"
| "perform (Fund k x why key) = ignore (fund k x why key)"
| "perform (Delegate p k x why key) = ignore (delegate p k x why key)"
| "perform (Release k x why) = ignore (release k x why)"
| "perform (Authorize k x why key) = ignore (authorize k x why key)"
| "perform (Try_Authorize k x why key) = ignore (try_authorize k x why key)"
| "perform (Capture a x why key) = ignore (capture a x why key)"
| "perform (Void a why key) = ignore (void a why key)"
| "perform (Spend k x why key) = ignore (spend k x why key)"
| "perform (Refund k x why named key) = ignore (refund k x why named key)"
| "perform (Anchor k why) = ignore (anchor k why)"
| "perform (Void_Stale t k why) = ignore (void_stale t k why)"
| "perform (Trip k why) = trip k why"
| "perform (Reset k why) = reset k why"

text \<open>The block of a transaction, one call after another; an exception of a call marked \<open>True\<close> is
  caught by the block, any other ends it.\<close>

fun block :: "(request \<times> bool) list \<Rightarrow> unit act" where
  "block [] = ret ()"
| "block ((q, catches) # rest) = (\<lambda>m. case perform q m of
     (m', Inl e) \<Rightarrow> if catches then block rest m' else (m', Inl e)
   | (m', Inr _) \<Rightarrow> block rest m')"

datatype session = Call request | Block "(request \<times> bool) list"

fun serve :: "session \<Rightarrow> unit act" where
  "serve (Call q) = perform q"
| "serve (Block qs) = transaction (block qs)"

inductive reachable :: "manager \<Rightarrow> manager \<Rightarrow> bool" where
  start: "reachable m m"
| serve: "reachable m m' \<Longrightarrow> reachable m (fst (serve s m'))"

context governed
begin

lemma keeps_ignore: "keeps a \<Longrightarrow> keeps (ignore a)"
  unfolding ignore_def by (rule keepsI, erule keeps_bind, rule valid_done) simp

lemmas keeps_methods = keeps_open_root keeps_fund keeps_delegate keeps_release keeps_authorize keeps_try_authorize
  keeps_capture keeps_void keeps_spend keeps_refund keeps_anchor keeps_void_stale

lemma keeps_perform:
  assumes "\<And>t. t \<noteq> CIRCUIT_RESET \<Longrightarrow> T t" "\<And>k why. q = Reset k why \<Longrightarrow> T CIRCUIT_RESET"
  shows "keeps (perform q)"
  using assms by (cases q) (simp_all add: keeps_ignore keeps_methods keeps_trip keeps_reset)

lemma keeps_block:
  assumes "\<And>t. t \<noteq> CIRCUIT_RESET \<Longrightarrow> T t" "\<And>k why b. (Reset k why, b) \<in> set qs \<Longrightarrow> T CIRCUIT_RESET"
  shows "keeps (block qs)"
  using assms(2)
proof (induction qs)
  case Nil
  then show ?case by (simp add: keeps_quiet)
next
  case (Cons qc rest)
  obtain q catches where qc: "qc = (q, catches)" by (cases qc)
  have "q = Reset k why \<Longrightarrow> T CIRCUIT_RESET" for k why using Cons.prems [of k why catches] qc by simp
  then have q: "keeps (perform q)" using assms(1) by (rule keeps_perform [rotated])
  have rest: "keeps (block rest)" using Cons.prems by (intro Cons.IH) auto
  show ?case
    unfolding keeps_def valid_def qc
  proof (intro allI impI)
    fix m
    assume "I m"
    obtain m' r where p: "perform q m = (m', r)" by fastforce
    with q \<open>I m\<close> have "I m'" by (auto simp: keeps_def valid_def)
    with rest have "I (fst (block rest m'))" by (simp add: keeps_def valid_def)
    then have "I (fst (block ((q, catches) # rest) m))" using p \<open>I m'\<close> by (simp split: sum.split)
    then show "I (fst (block ((q, catches) # rest) m))
      \<and> (\<forall>x. snd (block ((q, catches) # rest) m) = Inr x \<longrightarrow> I (fst (block ((q, catches) # rest) m)))" by simp
  qed
qed

end

lemma keeps_serve: "gov.keeps n (serve s)"
  by (cases s) (auto intro: gov.keeps_perform keeps_transaction gov.keeps_block)

lemma reachable_inv: "reachable m0 m \<Longrightarrow> gov_inv n m0 \<Longrightarrow> gov_inv n m"
proof (induction rule: reachable.induct)
  case (serve m m' s)
  then show ?case using keeps_serve [of n s] by (simp add: gov.keeps_def gov.valid_def)
qed

lemma new_inv: "fresh_world n w [] \<Longrightarrow> gov_inv n (new_manager u y w clock)"
  using wf_new [of u]
  by (simp add: gov_inv_def gov_ok_def new_manager_def) (simp add: new_ledger_def auths_match_def on_values_def empty_chain_def)

section \<open>The tree is walked to its end\<close>

lemma ledger_tree: "ledger_wf g \<Longrightarrow> tree_wf (s_nodes (g_state g)) (s_roots (g_state g))"
proof -
  assume "ledger_wf g"
  then obtain q rs where run: "rfold (ref_step True False) (ref_start (empty_chain (s_unit (g_state g)) [])
      (Some (spend_index (g_entries g))), Some {}) (g_entries g) = Inr (q, rs)" "g_state g = ref_chain q" by (rule ledger_run)
  then show ?thesis using tree.run_keeps [OF _ run(1)] tree_start by simp
qed

lemma depth_bound:
  assumes wf: "tree_wf ns rts" and k: "map_of ns k = Some n"
  shows "n_depth n < length ns"
proof -
  have down: "\<exists>k n'. map_of ns k = Some n' \<and> n_depth n' = j" if "map_of ns k = Some n" "j \<le> n_depth n" for k n j
    using that
  proof (induction "n_depth n - j" arbitrary: k n)
    case 0
    then show ?case by (intro exI [of _ k] exI [of _ n]) simp
  next
    case (Suc d)
    then have "n_parent_id n \<noteq> None" using tree_wfD(3) [OF wf Suc.prems(1)] by (cases "n_parent_id n") auto
    then obtain p pn where "map_of ns p = Some pn" "n_depth n = n_depth pn + 1"
      using tree_wfD(4) [OF wf Suc.prems(1)] by blast
    with Suc show ?case by (intro Suc.hyps(1) [of pn p]) auto
  qed
  have "{..n_depth n} \<subseteq> (n_depth \<circ> snd) ` set ns"
    using down [OF k] by (force dest: map_of_SomeD)
  then have "card {..n_depth n} \<le> card ((n_depth \<circ> snd) ` set ns)" by (intro card_mono) auto
  also have "\<dots> \<le> length ns" using card_image_le [of "set ns" "n_depth \<circ> snd"] card_length [of ns] by simp
  finally show ?thesis by simp
qed

fun path_up :: "(scope_id, budget_node) dict \<Rightarrow> scope_id list \<Rightarrow> bool" where
  "path_up ns [] \<longleftrightarrow> False"
| "path_up ns [k] \<longleftrightarrow> (\<exists>n. map_of ns k = Some n \<and> n_parent_id n = None)"
| "path_up ns (k # p # ks) \<longleftrightarrow> (\<exists>n. map_of ns k = Some n \<and> n_parent_id n = Some p) \<and> path_up ns (p # ks)"

lemma climb_total:
  assumes "tree_wf ns rts" "map_of ns k = Some n" "n_depth n + 1 < f"
  shows "\<exists>ks. climb f ns (Some k) = Inr (k # ks) \<and> path_up ns (k # ks) \<and> length ks = n_depth n"
  using assms(2,3)
proof (induction f arbitrary: k n)
  case (Suc f)
  show ?case
  proof (cases "n_parent_id n")
    case None
    then show ?thesis using Suc.prems tree_wfD(3) [OF assms(1) Suc.prems(1)] by (cases f) auto
  next
    case (Some p)
    then obtain pn where p: "map_of ns p = Some pn" "n_depth n = n_depth pn + 1"
      using tree_wfD(4) [OF assms(1) Suc.prems(1)] by blast
    with Suc.IH [OF p(1)] Suc.prems Some show ?thesis by fastforce
  qed
qed simp

lemma first_tripped_total:
  assumes "tree_wf ns rts" "map_of ns k = Some n" "n_depth n + 1 < f"
  shows "\<exists>ks. path_up ns (k # ks) \<and> first_tripped f ns tr (Some k) = Inr (List.find (\<lambda>k. tr k \<noteq> None) (k # ks))"
  using assms(2,3)
proof (induction f arbitrary: k n)
  case (Suc f)
  show ?case
  proof (cases "n_parent_id n")
    case None
    then show ?thesis using Suc.prems by (intro exI [of _ "[]"]) (cases f, auto)
  next
    case (Some p)
    then obtain pn where p: "map_of ns p = Some pn" "n_depth n = n_depth pn + 1"
      using tree_wfD(4) [OF assms(1) Suc.prems(1)] by blast
    with Suc.IH [OF p(1)] Suc.prems(2) obtain ks where
      "path_up ns (p # ks)" "first_tripped f ns tr (Some p) = Inr (List.find (\<lambda>k. tr k \<noteq> None) (p # ks))" by auto
    with Suc.prems Some show ?thesis by (intro exI [of _ "p # ks"]) auto
  qed
qed simp


text \<open>Breadth first: no node is met twice, so the fuel lasts.\<close>

definition frontier_inv :: "(scope_id, budget_node) dict \<Rightarrow> scope_id \<Rightarrow> scope_id set \<Rightarrow> scope_id list \<Rightarrow> bool" where
  "frontier_inv ns s V ks \<longleftrightarrow> distinct ks \<and> V \<inter> set ks = {} \<and> s \<notin> V \<union> set ks
     \<and> (\<forall>k \<in> V \<union> set ks. \<exists>n p. map_of ns k = Some n \<and> n_parent_id n = Some p \<and> p \<in> insert s V)"

lemma frontier_step:
  assumes wf: "tree_wf ns rts" and inv: "frontier_inv ns s V (k # ks)" and root: "map_of ns s = Some sn" "\<And>x n. x \<in> V \<union> set (k # ks) \<Longrightarrow> map_of ns x = Some n \<Longrightarrow> n_depth sn < n_depth n"
    and k: "map_of ns k = Some n"
  shows "frontier_inv ns s (insert k V) (ks @ n_child_ids n)"
    and "\<And>x n'. x \<in> insert k V \<union> set (ks @ n_child_ids n) \<Longrightarrow> map_of ns x = Some n' \<Longrightarrow> n_depth sn < n_depth n'"
proof -
  have child: "\<exists>cn. map_of ns c = Some cn \<and> n_parent_id cn = Some k" if "c \<in> set (n_child_ids n)" for c
    using tree_wfD(5) [OF wf k that] .
  have kV: "k \<notin> insert s V" using inv by (auto simp: frontier_inv_def)
  have new: "c \<notin> V \<union> set (k # ks) \<and> c \<noteq> s" if c: "c \<in> set (n_child_ids n)" for c
  proof -
    obtain cn where cn: "map_of ns c = Some cn" "n_parent_id cn = Some k" using child [OF c] by blast
    have "c \<notin> V \<union> set (k # ks)"
    proof
      assume "c \<in> V \<union> set (k # ks)"
      with inv obtain n' p where "map_of ns c = Some n'" "n_parent_id n' = Some p" "p \<in> insert s V"
        unfolding frontier_inv_def by blast
      with cn kV show False by simp
    qed
    moreover have "c \<noteq> s"
      using tree_wfD(4) [OF wf cn(1) cn(2)] k root(2) [of k n] root(1) cn(1) by auto
    ultimately show ?thesis by simp
  qed
  show "frontier_inv ns s (insert k V) (ks @ n_child_ids n)"
    unfolding frontier_inv_def
  proof (intro conjI ballI)
    show "distinct (ks @ n_child_ids n)" using inv new tree_wfD(2) [OF wf k] by (auto simp: frontier_inv_def)
    show "insert k V \<inter> set (ks @ n_child_ids n) = {}" "s \<notin> insert k V \<union> set (ks @ n_child_ids n)"
      using inv new by (auto simp: frontier_inv_def)
    fix x
    assume x: "x \<in> insert k V \<union> set (ks @ n_child_ids n)"
    show "\<exists>n p. map_of ns x = Some n \<and> n_parent_id n = Some p \<and> p \<in> insert s (insert k V)"
    proof (cases "x \<in> set (n_child_ids n)")
      case True
      then show ?thesis using child by blast
    next
      case False
      with x have "x \<in> V \<union> set (k # ks)" by auto
      then obtain n' p where "map_of ns x = Some n'" "n_parent_id n' = Some p" "p \<in> insert s V"
        using inv unfolding frontier_inv_def by blast
      then show ?thesis by blast
    qed
  qed
  show "n_depth sn < n_depth n'" if "x \<in> insert k V \<union> set (ks @ n_child_ids n)" "map_of ns x = Some n'" for x n'
  proof (cases "x \<in> set (n_child_ids n)")
    case True
    from child [OF this] that(2) have "n_parent_id n' = Some k" by auto
    from tree_wfD(4) [OF wf that(2) this] k root(2) [of k n] show ?thesis by auto
  next
    case False
    then show ?thesis using that root(2) by auto
  qed
qed

lemma breadth_first_total:
  assumes wf: "tree_wf ns rts" and root: "map_of ns s = Some sn"
  shows "frontier_inv ns s V ks \<Longrightarrow> finite V \<Longrightarrow> (\<And>x n. x \<in> V \<union> set ks \<Longrightarrow> map_of ns x = Some n \<Longrightarrow> n_depth sn < n_depth n) \<Longrightarrow>
    length ns \<le> f + card V \<Longrightarrow> \<exists>out. breadth_first f ns ks = Inr out \<and> distinct (map n_scope_id out)
      \<and> set ks \<subseteq> n_scope_id ` set out \<and> n_scope_id ` set out \<inter> insert s V = {}
      \<and> (\<forall>n \<in> set out. map_of ns (n_scope_id n) = Some n \<and> set (n_child_ids n) \<subseteq> n_scope_id ` set out
            \<and> (\<exists>p. n_parent_id n = Some p \<and> p \<in> insert s (V \<union> n_scope_id ` set out)))"
proof (induction f arbitrary: V ks)
  case 0
  show ?case
  proof (cases ks)
    case (Cons k ks')
    with 0(1) have kV: "k \<notin> V" and "insert k V \<subseteq> fst ` set ns"
      unfolding frontier_inv_def dom_map_of_conv_image_fst [symmetric] by auto
    then have "card (insert k V) \<le> card (fst ` set ns)" by (intro card_mono) auto
    also have "\<dots> \<le> length ns" using card_image_le [of "set ns" fst] card_length [of ns] by simp
    finally show ?thesis using 0 kV by simp
  qed simp
next
  case (Suc f)
  show ?case
  proof (cases ks)
    case (Cons k ks')
    from Suc(2) Cons obtain n where n: "map_of ns k = Some n" by (auto simp: frontier_inv_def)
    have inv: "frontier_inv ns s V (k # ks')" using Suc(2) Cons by simp
    have deep: "n_depth sn < n_depth n'" if "x \<in> V \<union> set (k # ks')" "map_of ns x = Some n'" for x n'
      using Suc(4) [of x n'] that Cons by simp
    have kV: "k \<notin> V" using inv by (auto simp: frontier_inv_def)
    have len: "length ns \<le> f + card (insert k V)" and fin: "finite (insert k V)" using Suc(3,5) kV by simp_all
    have "\<exists>out. breadth_first f ns (ks' @ n_child_ids n) = Inr out \<and> distinct (map n_scope_id out)
        \<and> set (ks' @ n_child_ids n) \<subseteq> n_scope_id ` set out \<and> n_scope_id ` set out \<inter> insert s (insert k V) = {}
        \<and> (\<forall>n \<in> set out. map_of ns (n_scope_id n) = Some n \<and> set (n_child_ids n) \<subseteq> n_scope_id ` set out
            \<and> (\<exists>p. n_parent_id n = Some p \<and> p \<in> insert s (insert k V \<union> n_scope_id ` set out)))"
      using frontier_step(2) [OF wf inv root deep n] by (intro Suc(1) [OF frontier_step(1) [OF wf inv root deep n] fin _ len]) blast
    then obtain out where out: "breadth_first f ns (ks' @ n_child_ids n) = Inr out"
      "distinct (map n_scope_id out)" "set (ks' @ n_child_ids n) \<subseteq> n_scope_id ` set out" "n_scope_id ` set out \<inter> insert s (insert k V) = {}"
      "\<forall>n \<in> set out. map_of ns (n_scope_id n) = Some n \<and> set (n_child_ids n) \<subseteq> n_scope_id ` set out
        \<and> (\<exists>p. n_parent_id n = Some p \<and> p \<in> insert s (insert k V \<union> n_scope_id ` set out))" by blast
    have up: "\<exists>p. n_parent_id n = Some p \<and> p \<in> insert s V" and ks: "k \<noteq> s" using inv n by (auto simp: frontier_inv_def)
    have id: "n_scope_id n = k" using tree_wfD(1) [OF wf n] .
    show ?thesis
      unfolding Cons by (rule exI [of _ "n # out"]) (use out n id kV up ks in \<open>auto simp: image_iff\<close>)
  qed simp
qed


lemma path_up_unique: "path_up ns (k # ks) \<Longrightarrow> path_up ns (k # js) \<Longrightarrow> ks = js"
proof (induction ks arbitrary: k js)
  case Nil
  then show ?case by (cases js) auto
next
  case (Cons p ks)
  then show ?case by (cases js) auto
qed

section \<open>A governor verifies\<close>

lemma root_walk_total:
  assumes "tree_wf ns rts"
  shows "(\<And>k. c = Some k \<Longrightarrow> \<exists>n. map_of ns k = Some n \<and> (\<forall>x \<in> path. \<forall>xn. map_of ns x = Some xn \<longrightarrow> n_depth n < n_depth xn)) \<Longrightarrow>
    \<exists>out. root_walk ns rooted start path c = Inr out"
  using assms
proof (induction ns rooted start path c rule: root_walk.induct)
  case (2 ns rooted start path k)
  from 2(2) [OF refl] obtain n where n: "map_of ns k = Some n"
    and deep: "\<And>x xn. x \<in> path \<Longrightarrow> map_of ns x = Some xn \<Longrightarrow> n_depth n < n_depth xn" by blast
  have path: "k \<notin> path" using deep n by blast
  show ?case
  proof (cases "k \<in> rooted")
    case False
    have "\<exists>out. root_walk ns rooted start (insert k path) (n_parent_id n) = Inr out"
    proof (rule 2(1) [OF False path n _ 2(3)])
      fix p
      assume p: "n_parent_id n = Some p"
      obtain pn where pn: "map_of ns p = Some pn" "n_depth n = n_depth pn + 1" using tree_wfD(4) [OF 2(3) n p] by blast
      then have "\<forall>x \<in> insert k path. \<forall>xn. map_of ns x = Some xn \<longrightarrow> n_depth pn < n_depth xn" using deep n by fastforce
      with pn show "\<exists>n. map_of ns p = Some n \<and> (\<forall>x \<in> insert k path. \<forall>xn. map_of ns x = Some xn \<longrightarrow> n_depth n < n_depth xn)" by blast
    qed
    then show ?thesis using False path n by simp
  qed simp
qed simp

lemma verify_tree_wf: "tree_wf (s_nodes s) (s_roots s) \<Longrightarrow> verify_tree s = Inr ()"
proof -
  assume wf: "tree_wf (s_nodes s) (s_roots s)"
  have step: "\<exists>out. verify_node s rooted kn = Inr out" if "kn \<in> set (s_nodes s)" for rooted kn
  proof -
    obtain k n where kn: "kn = (k, n)" by (cases kn)
    have n: "map_of (s_nodes s) k = Some n" using that wf kn by (simp add: tree_wf_def)
    show ?thesis
    proof (cases "n_parent_id n")
      case None
      then show ?thesis using tree_wfD(3) [OF wf n] kn by (simp add: verify_node_def)
    next
      case (Some p)
      then obtain pn where pn: "map_of (s_nodes s) p = Some pn" "n_depth n = n_depth pn + 1" "k \<in> set (n_child_ids pn)"
        using tree_wfD(4) [OF wf n] by blast
      have "\<exists>out. root_walk (s_nodes s) rooted k {k} (Some p) = Inr out"
        by (rule root_walk_total [OF wf]) (use pn n in auto)
      then show ?thesis using pn Some kn by (auto simp: verify_node_def)
    qed
  qed
  have "\<exists>out. rfold (verify_node s) rooted kns = Inr out" if "set kns \<subseteq> set (s_nodes s)" for rooted kns
    using that
  proof (induction kns arbitrary: rooted)
    case (Cons kn kns)
    then obtain r where "verify_node s rooted kn = Inr r" using step [of kn rooted] by auto
    with Cons show ?case by simp
  qed simp
  then show ?thesis by (auto simp: verify_tree_def)
qed

lemma verify_authorizations_match: "auths_match g \<Longrightarrow> ledger_wf g \<Longrightarrow> verify_authorizations g = Inr ()"
proof -
  assume a: "auths_match g" and wf: "ledger_wf g"
  have "(\<lambda>(i, a). entry_id (a_entry a)) ` set (g_open_auths g) = (\<lambda>(i, e). entry_id e) ` set (s_holds (g_state g))"
    using a by (force simp: auths_match_def on_values_def authorization_for_def image_iff)
  also have "\<dots> = fst ` set (s_holds (g_state g))"
    using ledger_hold_keys [OF wf] by (intro image_cong) auto
  finally show ?thesis by (simp add: verify_authorizations_def)
qed

lemma verify_integrity_ok: "gov_ok n m \<Longrightarrow> verify_integrity m \<in> {Inr (), Inl DecimalInexact}"
  using verify_tree_wf [OF ledger_tree] verify_authorizations_match verify_wf conservation_wf [of "m_ledger m"]
  by (cases "verify_conservation (m_ledger m)") (auto simp: verify_integrity_def gov_ok_def)


section \<open>A longer chain, entry by entry\<close>

lemma extends_run:
  assumes g: "ledger_wf g" and g': "ledger_wf g'" "g_entries g' = g_entries g @ new" "s_unit (g_state g') = s_unit (g_state g)"
  obtains q rs q' rs' where "rfold (ref_step True False) (q, rs) new = Inr (q', rs')" "ref_chain q = g_state g" "ref_chain q' = g_state g'"
proof -
  let ?u = "s_unit (g_state g)" and ?G = "spend_index (g_entries g @ new)"
  let ?s = "\<lambda>F. ref_start (empty_chain ?u []) (Some F)"
  obtain q' rs' where run': "rfold (ref_step True False) (?s ?G, Some {}) (g_entries g @ new) = Inr (q', rs')" "g_state g' = ref_chain q'"
    using ledger_run [OF g'(1)] unfolding g'(2,3) by blast
  from g obtain q0 rs0 where run: "rfold (ref_step True False) (?s (spend_index (g_entries g)), Some {}) (g_entries g) = Inr (q0, rs0)" "g_state g = ref_chain q0"
    by (rule ledger_run)
  have G: "resolves_like (spend_index (g_entries g)) ?G" using g' by (intro resolves_index) (simp add: ledger_wf_def)
  have w: "\<forall>e \<in> set (g_entries g). written_entry e" using g by (simp add: ledger_wf_def)
  have z: "net_like (r_net (?s (spend_index (g_entries g)))) ZERO" by (simp add: net_like_def)
  from run_same [OF run(1) z _ G w, of False True "Some {}"] obtain n1 rs1 where
    q: "rfold (ref_step True False) (?s ?G, Some {}) (g_entries g) = Inr (rebook (r_txn q0) (r_settleable q0) n1 (Some ?G) q0, rs1)"
    by (auto simp: start_books start_rebook [of _ "Some ?G" "Some (spend_index (g_entries g))", symmetric])
  from run'(1) have "rfold (ref_step True False) (rebook (r_txn q0) (r_settleable q0) n1 (Some ?G) q0, rs1) new = Inr (q', rs')"
    unfolding rfold_append_Inr [OF q] .
  then show thesis using that run(2) run'(2) by simp
qed

end
