(* ===== verification/Guarantees.thy ===== *)
theory Guarantees
  imports Service
begin

text \<open>
  What callers may rely on: a tripped breaker stays tripped until it is reset, a settled hold stays
  settled, a hold is only granted to a running scope that can pay for it, and every method moves
  exactly the money it says.
\<close>

fun resets :: "request \<Rightarrow> bool" where
  "resets (Reset k why) \<longleftrightarrow> True"
| "resets _ \<longleftrightarrow> False"

fun no_reset :: "session \<Rightarrow> bool" where
  "no_reset (Call q) \<longleftrightarrow> \<not> resets q"
| "no_reset (Block qs) \<longleftrightarrow> list_all (\<lambda>(q, b). \<not> resets q) qs"

definition serves :: "manager \<Rightarrow> session list \<Rightarrow> manager" where
  "serves m ss = foldl (\<lambda>m s. fst (serve s m)) m ss"

section \<open>What entries do to the chain state\<close>

definition moved :: "scope_id \<Rightarrow> ledger_entry list \<Rightarrow> rat" where
  "moved k es = sum_list (map (\<lambda>e. if scope_id e = k then dval (signed_amount e) else 0) es)"

lemma zero_signed:
  "ref_apply r e h rs w = Inr (r', rs') \<Longrightarrow> zero_value_type (entry_type e) \<Longrightarrow> dval (signed_amount e) = 0"
  by (drule apply_shape(2)) (auto simp: signed_amount_def copy_negate_def dval_def ZERO_def split: direction.splits)

lemma apply_balance:
  assumes "ref_apply r e h rs w = Inr (r', rs')"
  shows "dval (chain_balance r' k) = dval (chain_balance r k) + (if scope_id e = k then dval (signed_amount e) else 0)"
proof -
  from assms obtain x where x: "ctx_add (chain_balance r (scope_id e)) (signed_amount e) = Inr x"
    "s_balances r' = (if zero_value_type (entry_type e) then s_balances r else AList.update (scope_id e) x (s_balances r))"
    by (rule apply_money)
  then show ?thesis using x dval_ctx_add [OF x(1)] zero_signed [OF assms] by (auto simp: chain_balance_def)
qed

lemma zero_moved:
  "rfold (ref_step h w) (r, rs) es = Inr (r', rs') \<Longrightarrow> \<forall>e \<in> set es. zero_value_type (entry_type e) \<Longrightarrow> moved k es = 0"
proof (induction es arbitrary: r rs)
  case (Cons e es)
  then obtain r1 rs1 where "ref_apply r e h rs w = Inr (r1, rs1)" "rfold (ref_step h w) (r1, rs1) es = Inr (r', rs')"
    by (auto simp: ref_step_app)
  with Cons zero_signed show ?case by (simp add: moved_def)
qed (simp add: moved_def)

lemma run_balance:
  "rfold (ref_step h w) (r, rs) es = Inr (r', rs') \<Longrightarrow> dval (chain_balance r' k) = dval (chain_balance r k) + moved k es"
proof (induction es arbitrary: r rs)
  case (Cons e es)
  then obtain r1 rs1 where "ref_apply r e h rs w = Inr (r1, rs1)" "rfold (ref_step h w) (r1, rs1) es = Inr (r', rs')"
    by (auto simp: ref_step_app)
  with Cons.IH [of r1 rs1] apply_balance [of r e h rs w r1 rs1 k] show ?case by (simp add: moved_def)
qed (simp add: moved_def)

lemma ledger_money:
  assumes "ledger_wf g" "ledger_wf g'" "g_entries g' = g_entries g @ new" "s_unit (g_state g') = s_unit (g_state g)"
  shows "dval (ledger_balance g' k) = dval (ledger_balance g k) + moved k new"
proof -
  from assms obtain q rs q' rs' where "rfold (ref_step True False) (q, rs) new = Inr (q', rs')" "ref_chain q = g_state g" "ref_chain q' = g_state g'"
    by (rule extends_run)
  then show ?thesis using run_balance [of True False q rs new q' rs' k]
    by (simp add: ledger_balance_def chain_balance_def flip: \<open>ref_chain q = g_state g\<close> \<open>ref_chain q' = g_state g'\<close>)
qed

text \<open>Only a reset closes a breaker.\<close>

lemma apply_tripped:
  assumes "ref_apply r e h rs w = Inr (r', rs')" "s_tripped r k \<noteq> None" "s_legacy r = []"
    and "\<not> (entry_type e = CIRCUIT_RESET \<and> scope_id e = k)"
  shows "s_tripped r' k \<noteq> None"
proof -
  from assms(1) obtain q q' where q: "tree_part q = tree_part r" "config_part q = config_part r"
    "ref_check_governance q e = Inr q'" "tree_part r' = tree_part q'" by (rule apply_tree_part)
  have t: "s_tripped q k \<noteq> None" "s_legacy q = []" using q assms(2,3) by (auto simp: tree_part_def config_part_def)
  have fold: "ref_fold_legacy q e = Inr x \<Longrightarrow> s_tripped x = s_tripped q" for x
    using t(2) by (auto simp: ref_fold_legacy_def ref_apply_legacy_def split: if_splits)
  have fund: "ref_fund_scope x e = Inr y \<Longrightarrow> s_tripped y = s_tripped x" for x y
    by (auto simp: ref_fund_scope_def Let_def split: if_splits option.splits)
  have alloc: "ref_allocate x e = Inr y \<Longrightarrow> s_tripped y = s_tripped x" for x y
    by (auto simp: ref_allocate_def Let_def split: if_splits option.splits)
  have control: "ref_control x (entry_type_value (entry_type e)) (scope_id e) (timestamp e) (memo e) = Inr y \<Longrightarrow> s_tripped x k \<noteq> None \<Longrightarrow>
      control_type (entry_type e) \<Longrightarrow> s_tripped y k \<noteq> None" for x y
    using assms(4) by (auto simp: ref_control_def control_type_def split: if_splits option.splits)
  from q(3) obtain x where x: "ref_fold_legacy q e = Inr x" and rest: "(let kind = entry_type e in
       if kind = FUNDING then ref_fund_scope x e else if kind = ALLOCATION then ref_allocate x e
       else if kind = RELEASE then rbind (ref_release_between x e) (\<lambda>_. Inr x)
       else if control_type kind then ref_control x (entry_type_value kind) (scope_id e) (timestamp e) (memo e)
       else if \<not> scopeless_type kind then rbind (ref_require x (scope_id e)) (\<lambda>_. Inr x)
       else Inr x) = Inr q'" unfolding ref_check_governance_def by auto
  have "s_tripped x k \<noteq> None" using fold [OF x] t(1) by simp
  with rest have "s_tripped q' k \<noteq> None"
    unfolding Let_def by (auto dest: fund alloc control split: if_splits)
  then show ?thesis using q(4) by (simp add: tree_part_def)
qed

lemma chain_legacy: "s_legacy (ref_chain r) = s_legacy r"
  by (simp add: ref_chain_def chain_state.truncate_def)

lemma ledger_tripped:
  assumes "ledger_wf g" "ledger_wf g'" "g_entries g' = g_entries g @ new" "s_unit (g_state g') = s_unit (g_state g)"
    and "s_tripped (g_state g) k \<noteq> None" "\<forall>e \<in> set new. entry_type e \<noteq> CIRCUIT_RESET"
  shows "s_tripped (g_state g') k \<noteq> None"
proof -
  from assms(1-4) obtain q rs q' rs' where run: "rfold (ref_step True False) (q, rs) new = Inr (q', rs')"
    and q: "ref_chain q = g_state g" "ref_chain q' = g_state g'" by (rule extends_run)
  have leg: "s_legacy q = []" using ledger_facts(2) [OF assms(1)] by (simp add: chain_legacy flip: q(1))
  have "s_tripped q' k \<noteq> None" if "rfold (ref_step True False) (q, rs) new = Inr (q', rs')" "s_tripped q k \<noteq> None" "s_legacy q = []"
    "\<forall>e \<in> set new. entry_type e \<noteq> CIRCUIT_RESET" for q rs
    using that
  proof (induction new arbitrary: q rs)
    case (Cons e es)
    then obtain q1 rs1 where s: "ref_apply q e True rs False = Inr (q1, rs1)" "rfold (ref_step True False) (q1, rs1) es = Inr (q', rs')"
      by (auto simp: ref_step_app)
    have "s_tripped q1 k \<noteq> None" "s_legacy q1 = []"
      using apply_tripped [OF s(1)] apply_position(9) [OF s(1)] Cons.prems by (simp_all add: config_part_def)
    with Cons s show ?case by auto
  qed simp
  with run leg assms(5,6) q show ?thesis by (metis ref_chain_simps(13))
qed

text \<open>A hold that is closed is never open again: holds are opened under new ids.\<close>

lemma ledger_settled:
  assumes "ledger_wf g" "ledger_wf g'" "g_entries g' = g_entries g @ new" "s_unit (g_state g') = s_unit (g_state g)"
    and "i \<in> entry_id ` set (g_entries g)" "i \<notin> fst ` set (s_holds (g_state g))"
  shows "i \<notin> fst ` set (s_holds (g_state g'))"
proof -
  from assms(1-4) obtain q rs q' rs' where run: "rfold (ref_step True False) (q, rs) new = Inr (q', rs')"
    and q: "ref_chain q = g_state g" "ref_chain q' = g_state g'" by (rule extends_run)
  have "i \<notin> entry_id ` set new" using assms(2,3,5) by (auto simp: ledger_wf_def)
  moreover have "dict_wf (s_holds q)" using ledger_chain_wf [OF assms(1)] by (simp add: chain_wf_def flip: q(1))
  ultimately show ?thesis
    using hold_ids.run_keeps [OF _ run, of "- {i}"] assms(6) by (auto simp flip: q)
qed


section \<open>A transaction that fails leaves no trace\<close>

definition same_chain :: "manager \<Rightarrow> manager \<Rightarrow> bool" where
  "same_chain m m' \<longleftrightarrow> g_entries (m_ledger m') = g_entries (m_ledger m) \<and> m_state m' = m_state m
     \<and> g_open_auths (m_ledger m') = g_open_auths (m_ledger m)"

lemma roll_back_restores:
  assumes ok: "gov_ok n m" "gov_ok n m1" and new: "g_entries (m_ledger m1) = g_entries (m_ledger m) @ new" and u: "m_unit m1 = m_unit m"
  shows "\<exists>m3. roll_back (s_length (m_state m)) m1 = (m3, Inr ()) \<and> same_chain m m3 \<and> m_world m3 = m_world m1
    \<and> m_transaction m3 = m_transaction m1 \<and> m_depth m3 = m_depth m1"
proof -
  have wf: "ledger_wf (m_ledger m)" "ledger_wf (m_ledger m1)" and a: "auths_match (m_ledger m)" "auths_match (m_ledger m1)"
    using ok by (simp_all add: gov_ok_def)
  have len: "s_length (m_state m) = length (g_entries (m_ledger m))" "s_length (m_state m1) = length (g_entries (m_ledger m)) + length new"
    using ledger_facts(1) [OF wf(1)] ledger_facts(1) [OF wf(2)] new by simp_all
  have rep: "replay (g_entries (m_ledger m)) [] False None None (m_unit m1) = Inr (m_state m)"
    using wf(1) u by (simp add: ledger_wf_def)
  show ?thesis
  proof (cases "new = []")
    case True
    then have "m_state m1 = m_state m" using wf(2) rep new by (simp add: ledger_wf_def)
    then show ?thesis using True new a len by (simp add: roll_back_def same_chain_def auths_match_def)
  next
    case False
    then have "\<exists>g. rewind (m_ledger m1) (length (g_entries (m_ledger m))) = Inr g \<and> g_state g = m_state m"
      using rep new by (simp add: rewind_def adopt_def)
    then obtain g where g: "rewind (m_ledger m1) (length (g_entries (m_ledger m))) = Inr g" "g_state g = m_state m" by blast
    note r = rewind_cases [OF g(1)]
    show ?thesis using False g r new a(1) len by (simp add: roll_back_def same_chain_def auths_match_def)
  qed
qed

definition grown_unit :: "nat \<Rightarrow> manager \<Rightarrow> manager \<Rightarrow> bool" where
  "grown_unit n m0 m \<longleftrightarrow> grown n m0 m \<and> (w_drawn (m_world m) \<le> n \<longrightarrow> m_unit m = m_unit m0)"

interpretation growing: governed n "grown_unit n m0" "\<lambda>_. True" for n m0
proof
  show "core m' = core m \<Longrightarrow> grown_unit n m0 m \<Longrightarrow> grown_unit n m0 m'" for m m'
    using growth.I_core [of m' m n m0] by (auto simp: core_def grown_unit_def)
  show "grown_unit n m0 m \<Longrightarrow> w_drawn (m_world m) \<le> d \<Longrightarrow> grown_unit n m0 (m\<lparr> m_world := (m_world m)\<lparr> w_drawn := d, w_ticks := t \<rparr> \<rparr>)" for m d t
    using growth.I_draw [of n m0 m d t] by (auto simp: grown_unit_def)
qed (auto simp: grown_unit_def grown_def gov_inv_def)

lemma trips_grow: "gov_inv n q \<Longrightarrow> w_drawn (m_world q) \<le> w_drawn (m_world (retrip ts q))"
proof (induction ts arbitrary: q)
  case (Cons t ts)
  obtain k why where t: "t = (k, why)" by (cases t)
  have "grown n q q" using Cons.prems by (simp add: grown_def)
  then have "grown n q (fst (mutating (trip_breaker k why) q))"
    using growth.keeps_mutating [OF growth.keeps_trip_breaker] by (simp add: growth.keeps_def growth.valid_def)
  then show ?case using Cons.IH t by (fastforce simp: grown_def)
qed simp

lemma roll_back_world: "m_world (fst (roll_back k m)) = m_world m"
  by (simp add: roll_back_def split: sum.split)

lemma transaction_cases:
  assumes i: "gov_inv n m" and idle: "m_depth m = 0" "m_transaction m = None"
    and t: "transaction (block qs) m = (m', Inl e)"
  obtains m3 ts where "w_drawn (m_world m') \<le> n \<Longrightarrow> same_chain m m3 \<and> m' = retrip ts m3" "gov_inv n m3"
    "w_drawn (m_world m) \<le> w_drawn (m_world m3)" "w_drawn (m_world m3) \<le> w_drawn (m_world m')"
proof -
  obtain m1 r where m1: "mutating (block qs) (m\<lparr> m_transaction := Some [] \<rparr>) = (m1, r)" by fastforce
  have "gov_inv n (m\<lparr> m_transaction := Some [] \<rparr>)" using i by (rule gov.I_core [rotated]) (simp add: core_def)
  then have "grown_unit n m (m\<lparr> m_transaction := Some [] \<rparr>)" by (simp add: grown_unit_def grown_def)
  moreover have "growing.keeps n m (block qs)" by (rule growing.keeps_block) simp_all
  ultimately have "grown_unit n m (fst (mutating (block qs) (m\<lparr> m_transaction := Some [] \<rparr>)))"
    using growing.keeps_mutating by (metis growing.keeps_def growing.valid_def)
  then have g1: "grown_unit n m m1" by (simp add: m1)
  define m2 where "m2 = m1\<lparr> m_transaction := None \<rparr>"
  have g2: "grown_unit n m m2" using g1 by (rule growing.I_core [rotated]) (simp add: m2_def core_def)
  then have i2: "gov_inv n m2" by (simp add: grown_unit_def grown_def)
  obtain m3 r3 where m3: "roll_back (s_length (m_state m)) m2 = (m3, r3)" by fastforce
  have i3: "gov_inv n m3" and w3: "m_world m3 = m_world m2"
    using roll_back_inv [OF i2, of "s_length (m_state m)"] roll_back_world [of "s_length (m_state m)" m2] m3 by simp_all
  define ts where "ts = (case m_transaction m1 of None \<Rightarrow> [] | Some ts \<Rightarrow> ts)"
  have "\<exists>e1. r = Inl e1" using t idle m1 by (cases r) (auto simp: transaction_def Let_def)
  then have m': "m' = (case r3 of Inl _ \<Rightarrow> m3 | Inr _ \<Rightarrow> retrip ts m3)"
    using t idle m1 m3 by (auto simp: transaction_def Let_def m2_def ts_def split: sum.splits)
  then have later: "w_drawn (m_world m3) \<le> w_drawn (m_world m')" using trips_grow [OF i3, of ts] by (auto split: sum.splits)
  have first: "w_drawn (m_world m) \<le> w_drawn (m_world m3)" using g2 w3 by (simp add: grown_unit_def grown_def)
  obtain new where new: "g_entries (m_ledger m2) = g_entries (m_ledger m) @ new" using g2 by (auto simp: grown_unit_def grown_def)
  have "same_chain m m3 \<and> m' = retrip ts m3" if "w_drawn (m_world m') \<le> n"
  proof -
    have "gov_ok n m" "gov_ok n m2" "m_unit m2 = m_unit m"
      using i i2 g2 first later that w3 by (simp_all add: gov_inv_def grown_unit_def)
    from roll_back_restores [OF this(1,2) new this(3)] m3 show ?thesis using m' by auto
  qed
  then show thesis using that [OF _ i3 first later] by blast
qed

section \<open>Invariants of the chain state, whatever is called\<close>

locale governed_state = governed n I T for n I T +
  assumes I_state: "I m \<Longrightarrow> gov_inv n m' \<Longrightarrow> w_drawn (m_world m) \<le> w_drawn (m_world m') \<Longrightarrow> same_chain m m' \<Longrightarrow> I m'"
begin

lemma keeps_retrip: "T CIRCUIT_TRIPPED \<Longrightarrow> I m \<Longrightarrow> I (retrip ts m)"
proof (induction ts arbitrary: m)
  case (Cons t ts)
  have "I (fst (mutating (trip_breaker k reason) m))" for k reason
    using keeps_mutating [OF keeps_trip_breaker] Cons.prems by (simp add: keeps_def valid_def)
  with Cons show ?case by (cases t) simp
qed simp

lemma keeps_transaction_block:
  assumes T: "\<And>t. t \<noteq> CIRCUIT_RESET \<Longrightarrow> T t" "\<And>k why b. (Reset k why, b) \<in> set qs \<Longrightarrow> T CIRCUIT_RESET"
    and m: "I m" "gov_inv n m" and n: "w_drawn (m_world (fst (transaction (block qs) m))) \<le> n"
  shows "I (fst (transaction (block qs) m))"
proof (cases "m_depth m = 0 \<and> m_transaction m = None")
  case False
  then show ?thesis using m(1) by (auto simp: transaction_def)
next
  case True
  obtain m' r where t: "transaction (block qs) m = (m', r)" by fastforce
  show ?thesis
  proof (cases r)
    case (Inr x)
    obtain m1 r1 where m1: "mutating (block qs) (m\<lparr> m_transaction := Some [] \<rparr>) = (m1, r1)" by fastforce
    have "I (m\<lparr> m_transaction := Some [] \<rparr>)" using m(1) by (rule I_core [rotated]) (simp add: core_def)
    moreover have "keeps (mutating (block qs))" using T by (intro keeps_mutating keeps_block)
    ultimately have "I (fst (mutating (block qs) (m\<lparr> m_transaction := Some [] \<rparr>)))" by (simp add: keeps_def valid_def)
    then have "I m1" by (simp add: m1)
    then have "I (m1\<lparr> m_transaction := None \<rparr>)" by (rule I_core [rotated]) (simp add: core_def)
    moreover have "m' = m1\<lparr> m_transaction := None \<rparr>"
      using t Inr True m1 by (auto simp: transaction_def Let_def split: sum.splits prod.splits)
    ultimately show ?thesis by (simp add: t)
  next
    case (Inl e)
    have idle: "m_depth m = 0" "m_transaction m = None" "w_drawn (m_world m') \<le> n" using True n t by simp_all
    from transaction_cases [OF m(2) idle(1,2) t [unfolded Inl]] idle(3) obtain m3 ts where
      "same_chain m m3" "gov_inv n m3" "w_drawn (m_world m) \<le> w_drawn (m_world m3)" "m' = retrip ts m3" by metis
    with I_state [OF m(1)] keeps_retrip T(1) show ?thesis by (simp add: t)
  qed
qed

lemma keeps_session:
  assumes "\<And>t. t \<noteq> CIRCUIT_RESET \<Longrightarrow> T t" "\<not> no_reset s \<Longrightarrow> T CIRCUIT_RESET"
    and m: "I m" "gov_inv n m" and n: "w_drawn (m_world (fst (serve s m))) \<le> n"
  shows "I (fst (serve s m))"
proof (cases s)
  case (Call q)
  have "keeps (perform q)" using assms(1,2) Call by (intro keeps_perform) auto
  then show ?thesis using m(1) Call by (simp add: keeps_def valid_def)
next
  case (Block qs)
  show ?thesis
    using keeps_transaction_block [OF assms(1) _ m] assms(2) n Block by (fastforce simp: list_all_iff)
qed

end

lemma serve_later: "gov_inv n m \<Longrightarrow> w_drawn (m_world m) \<le> w_drawn (m_world (fst (serve s m)))"
proof (cases s)
  case (Call q)
  assume "gov_inv n m"
  then have "grown n m m" by (simp add: grown_def)
  moreover have "growth.keeps n m (perform q)" by (rule growth.keeps_perform) simp_all
  ultimately have "grown n m (fst (perform q m))" by (simp add: growth.keeps_def growth.valid_def)
  then show ?thesis using Call by (simp add: grown_def)
next
  case (Block qs)
  assume i: "gov_inv n m"
  obtain m' r where t: "transaction (block qs) m = (m', r)" by fastforce
  show ?thesis
  proof (cases "m_depth m = 0 \<and> m_transaction m = None")
    case False
    then show ?thesis using Block by (auto simp: transaction_def)
  next
    case True
    show ?thesis
    proof (cases r)
      case (Inl e)
      with True t transaction_cases [OF i, of qs m' e] Block show ?thesis by (metis fst_conv le_trans serve.simps(2))
    next
      case (Inr x)
      have "gov_inv n (m\<lparr> m_transaction := Some [] \<rparr>)" using i by (rule gov.I_core [rotated]) (simp add: core_def)
      then have "grown n m (m\<lparr> m_transaction := Some [] \<rparr>)" by (simp add: grown_def)
      moreover have "growth.keeps n m (mutating (block qs))" by (intro growth.keeps_mutating growth.keeps_block) simp_all
      ultimately have "grown n m (fst (mutating (block qs) (m\<lparr> m_transaction := Some [] \<rparr>)))"
        by (simp add: growth.keeps_def growth.valid_def)
      moreover have "m_world m' = m_world (fst (mutating (block qs) (m\<lparr> m_transaction := Some [] \<rparr>)))"
        using t Inr True by (auto simp: transaction_def Let_def split: sum.splits prod.splits)
      ultimately show ?thesis using t Block by (simp add: grown_def)
    qed
  qed
qed

lemma serves_later: "gov_inv n m \<Longrightarrow> w_drawn (m_world m) \<le> w_drawn (m_world (serves m ss))"
proof (induction ss arbitrary: m)
  case (Cons s ss)
  have "gov_inv n (fst (serve s m))" using keeps_serve [of n s] Cons.prems by (simp add: gov.keeps_def gov.valid_def)
  with Cons.IH serve_later [OF Cons.prems, of s] show ?case by (fastforce simp: serves_def)
qed (simp add: serves_def)

context governed_state
begin

lemma keeps_sessions:
  assumes "\<And>t. t \<noteq> CIRCUIT_RESET \<Longrightarrow> T t" "\<not> list_all no_reset ss \<Longrightarrow> T CIRCUIT_RESET"
    and "I m" "gov_inv n m" "w_drawn (m_world (serves m ss)) \<le> n"
  shows "I (serves m ss)"
  using assms(2-)
proof (induction ss arbitrary: m)
  case (Cons s ss)
  have i: "gov_inv n (fst (serve s m))" using keeps_serve [of n s] Cons.prems(3) by (simp add: gov.keeps_def gov.valid_def)
  have "w_drawn (m_world (fst (serve s m))) \<le> n" using serves_later [OF i, of ss] Cons.prems(4) by (simp add: serves_def)
  then have "I (fst (serve s m))" using Cons.prems assms(1) by (intro keeps_session) auto
  with Cons.IH [OF _ this i] Cons.prems show ?case by (simp add: serves_def)
qed (simp add: serves_def)

end


interpretation latch: governed_state n "\<lambda>m. gov_inv n m \<and> (w_drawn (m_world m) \<le> n \<longrightarrow> s_tripped (m_state m) k \<noteq> None)"
  "\<lambda>t. t \<noteq> CIRCUIT_RESET" for n k
proof
  fix m :: manager and g new
  assume I: "gov_inv n m \<and> (w_drawn (m_world m) \<le> n \<longrightarrow> s_tripped (m_state m) k \<noteq> None)"
    and ok: "w_drawn (m_world m) \<le> n \<Longrightarrow> gov_ok n m"
      "w_drawn (m_world m) \<le> n \<Longrightarrow> gov_ok n (m\<lparr> m_ledger := g \<rparr>) \<and> s_unit (g_state g) = m_unit m"
    and new: "g_entries g = g_entries (m_ledger m) @ new" "\<forall>e \<in> set new. entry_type e \<noteq> CIRCUIT_RESET"
  have "s_tripped (g_state g) k \<noteq> None" if "w_drawn (m_world m) \<le> n"
    using ledger_tripped [OF _ _ new(1) _ _ new(2)] I ok that by (simp add: gov_ok_def)
  then show "gov_inv n (m\<lparr> m_ledger := g \<rparr>) \<and> (w_drawn (m_world (m\<lparr> m_ledger := g \<rparr>)) \<le> n \<longrightarrow> s_tripped (m_state (m\<lparr> m_ledger := g \<rparr>)) k \<noteq> None)"
    using ok(2) by (simp add: gov_inv_def)
next
  fix m m' :: manager
  assume c: "core m' = core m" and I: "gov_inv n m \<and> (w_drawn (m_world m) \<le> n \<longrightarrow> s_tripped (m_state m) k \<noteq> None)"
  then show "gov_inv n m' \<and> (w_drawn (m_world m') \<le> n \<longrightarrow> s_tripped (m_state m') k \<noteq> None)"
    using gov.I_core [OF c] by (simp add: core_def)
next
  fix m :: manager and d t
  assume "gov_inv n m \<and> (w_drawn (m_world m) \<le> n \<longrightarrow> s_tripped (m_state m) k \<noteq> None)" "w_drawn (m_world m) \<le> d"
  then show "gov_inv n (m\<lparr> m_world := (m_world m)\<lparr> w_drawn := d, w_ticks := t \<rparr> \<rparr>)
      \<and> (w_drawn (m_world (m\<lparr> m_world := (m_world m)\<lparr> w_drawn := d, w_ticks := t \<rparr> \<rparr>)) \<le> n \<longrightarrow>
        s_tripped (m_state (m\<lparr> m_world := (m_world m)\<lparr> w_drawn := d, w_ticks := t \<rparr> \<rparr>)) k \<noteq> None)"
    using gov.I_draw [of n m d t] by simp
qed (auto simp: gov_inv_def same_chain_def)

interpretation settled: governed_state n "\<lambda>m. gov_inv n m \<and> (w_drawn (m_world m) \<le> n \<longrightarrow>
    i \<in> entry_id ` set (g_entries (m_ledger m)) \<and> i \<notin> fst ` set (s_holds (m_state m)))" "\<lambda>_. True" for n i
proof
  fix m :: manager and g new
  assume I: "gov_inv n m \<and> (w_drawn (m_world m) \<le> n \<longrightarrow> i \<in> entry_id ` set (g_entries (m_ledger m)) \<and> i \<notin> fst ` set (s_holds (m_state m)))"
    and ok: "w_drawn (m_world m) \<le> n \<Longrightarrow> gov_ok n m"
      "w_drawn (m_world m) \<le> n \<Longrightarrow> gov_ok n (m\<lparr> m_ledger := g \<rparr>) \<and> s_unit (g_state g) = m_unit m"
    and new: "g_entries g = g_entries (m_ledger m) @ new"
  have "i \<in> entry_id ` set (g_entries g) \<and> i \<notin> fst ` set (s_holds (g_state g))" if "w_drawn (m_world m) \<le> n"
    using ledger_settled [OF _ _ new, of i] I ok that new by (simp add: gov_ok_def image_Un)
  then show "gov_inv n (m\<lparr> m_ledger := g \<rparr>) \<and> (w_drawn (m_world (m\<lparr> m_ledger := g \<rparr>)) \<le> n \<longrightarrow>
      i \<in> entry_id ` set (g_entries (m_ledger (m\<lparr> m_ledger := g \<rparr>))) \<and> i \<notin> fst ` set (s_holds (m_state (m\<lparr> m_ledger := g \<rparr>))))"
    using ok(2) by (simp add: gov_inv_def)
next
  fix m m' :: manager
  assume c: "core m' = core m" and I: "gov_inv n m \<and> (w_drawn (m_world m) \<le> n \<longrightarrow>
      i \<in> entry_id ` set (g_entries (m_ledger m)) \<and> i \<notin> fst ` set (s_holds (m_state m)))"
  then show "gov_inv n m' \<and> (w_drawn (m_world m') \<le> n \<longrightarrow>
      i \<in> entry_id ` set (g_entries (m_ledger m')) \<and> i \<notin> fst ` set (s_holds (m_state m')))"
    using gov.I_core [OF c] by (simp add: core_def)
next
  fix m :: manager and d t
  assume "gov_inv n m \<and> (w_drawn (m_world m) \<le> n \<longrightarrow>
      i \<in> entry_id ` set (g_entries (m_ledger m)) \<and> i \<notin> fst ` set (s_holds (m_state m)))" "w_drawn (m_world m) \<le> d"
  then show "gov_inv n (m\<lparr> m_world := (m_world m)\<lparr> w_drawn := d, w_ticks := t \<rparr> \<rparr>)
      \<and> (w_drawn (m_world (m\<lparr> m_world := (m_world m)\<lparr> w_drawn := d, w_ticks := t \<rparr> \<rparr>)) \<le> n \<longrightarrow>
        i \<in> entry_id ` set (g_entries (m_ledger (m\<lparr> m_world := (m_world m)\<lparr> w_drawn := d, w_ticks := t \<rparr> \<rparr>)))
        \<and> i \<notin> fst ` set (s_holds (m_state (m\<lparr> m_world := (m_world m)\<lparr> w_drawn := d, w_ticks := t \<rparr> \<rparr>))))"
    using gov.I_draw [of n m d t] by simp
qed (auto simp: gov_inv_def same_chain_def)

interpretation tripping: governed n "\<lambda>m. grown_unit n m0 m \<and> (\<exists>new. g_entries (m_ledger m) = g_entries (m_ledger m0) @ new
    \<and> (\<forall>e \<in> set new. entry_type e = CIRCUIT_TRIPPED))" "\<lambda>t. t = CIRCUIT_TRIPPED" for n m0
proof
  fix m :: manager and g new
  assume I: "grown_unit n m0 m \<and> (\<exists>new. g_entries (m_ledger m) = g_entries (m_ledger m0) @ new \<and> (\<forall>e \<in> set new. entry_type e = CIRCUIT_TRIPPED))"
    and ok: "w_drawn (m_world m) \<le> n \<Longrightarrow> gov_ok n m"
      "w_drawn (m_world m) \<le> n \<Longrightarrow> gov_ok n (m\<lparr> m_ledger := g \<rparr>) \<and> s_unit (g_state g) = m_unit m"
    and new: "g_entries g = g_entries (m_ledger m) @ new" "\<forall>e \<in> set new. entry_type e = CIRCUIT_TRIPPED"
  have "grown_unit n m0 (m\<lparr> m_ledger := g \<rparr>)" using growing.I_extend [OF _ ok new(1)] I by blast
  then show "grown_unit n m0 (m\<lparr> m_ledger := g \<rparr>) \<and> (\<exists>new. g_entries (m_ledger (m\<lparr> m_ledger := g \<rparr>)) = g_entries (m_ledger m0) @ new
      \<and> (\<forall>e \<in> set new. entry_type e = CIRCUIT_TRIPPED))"
    using I new by auto
qed (use growing.I_core growing.I_draw growing.I_ok in \<open>auto simp: core_def\<close>)

section \<open>Guarantees\<close>

lemma serves_gov: "gov_inv n m \<Longrightarrow> gov_inv n (serves m ss)"
proof (induction ss arbitrary: m)
  case (Cons s ss)
  then show ?case using keeps_serve [of n s] by (simp add: serves_def gov.keeps_def gov.valid_def)
qed (simp add: serves_def)

lemma walks:
  assumes wf: "ledger_wf (m_ledger m)" and k: "map_of (s_nodes (m_state m)) k = Some n"
  shows "\<exists>ks out. ancestry m k = Inr (k # ks) \<and> path_up (s_nodes (m_state m)) (k # ks) \<and> length ks = n_depth n
    \<and> halted_by m k = Inr (List.find (\<lambda>j. s_tripped (m_state m) j \<noteq> None) (k # ks))
    \<and> descendants m k = Inr out \<and> distinct (map n_scope_id out) \<and> k \<notin> n_scope_id ` set out
    \<and> set (n_child_ids n) \<subseteq> n_scope_id ` set out
    \<and> (\<forall>d \<in> set out. map_of (s_nodes (m_state m)) (n_scope_id d) = Some d \<and> set (n_child_ids d) \<subseteq> n_scope_id ` set out
         \<and> (\<exists>p. n_parent_id d = Some p \<and> p \<in> insert k (n_scope_id ` set out)))"
proof -
  let ?ns = "s_nodes (m_state m)"
  have tree: "tree_wf ?ns (s_roots (m_state m))" using ledger_tree [OF wf] .
  have id: "n_scope_id n = k" using tree_wfD(1) [OF tree k] .
  have fuel: "n_depth n + 1 < length ?ns + 1" using depth_bound [OF tree k] by simp
  obtain ks where ks: "climb (length ?ns + 1) ?ns (Some k) = Inr (k # ks)" "path_up ?ns (k # ks)" "length ks = n_depth n"
    using climb_total [OF tree k fuel] by blast
  obtain js where js: "path_up ?ns (k # js)"
    "first_tripped (length ?ns + 1) ?ns (s_tripped (m_state m)) (Some k) = Inr (List.find (\<lambda>j. s_tripped (m_state m) j \<noteq> None) (k # js))"
    using first_tripped_total [OF tree k fuel] by blast
  have "js = ks" using path_up_unique [OF js(1) ks(2)] .
  have child: "\<exists>cn. map_of ?ns c = Some cn \<and> n_parent_id cn = Some k \<and> n_depth cn = n_depth n + 1" if "c \<in> set (n_child_ids n)" for c
    using tree_wfD(5) [OF tree k that] tree_wfD(4) [OF tree] k by fastforce
  then have inv: "frontier_inv ?ns k {} (n_child_ids n)"
    using tree_wfD(2) [OF tree k] k by (fastforce simp: frontier_inv_def)
  have "\<exists>out. breadth_first (length ?ns) ?ns (n_child_ids n) = Inr out \<and> distinct (map n_scope_id out)
      \<and> set (n_child_ids n) \<subseteq> n_scope_id ` set out \<and> n_scope_id ` set out \<inter> insert k {} = {}
      \<and> (\<forall>d \<in> set out. map_of ?ns (n_scope_id d) = Some d \<and> set (n_child_ids d) \<subseteq> n_scope_id ` set out
            \<and> (\<exists>p. n_parent_id d = Some p \<and> p \<in> insert k ({} \<union> n_scope_id ` set out)))"
    using child by (intro breadth_first_total [OF tree k inv]) fastforce+
  then obtain out where out: "breadth_first (length ?ns) ?ns (n_child_ids n) = Inr out" "distinct (map n_scope_id out)"
    "set (n_child_ids n) \<subseteq> n_scope_id ` set out" "k \<notin> n_scope_id ` set out"
    "\<forall>d \<in> set out. map_of ?ns (n_scope_id d) = Some d \<and> set (n_child_ids d) \<subseteq> n_scope_id ` set out
      \<and> (\<exists>p. n_parent_id d = Some p \<and> p \<in> insert k (n_scope_id ` set out))" by auto
  show ?thesis
    using k id ks js \<open>js = ks\<close> out
    by (intro exI [of _ ks] exI [of _ out]) (simp add: ancestry_def halted_by_def halted_at_def descendants_def require_node_def)
qed

lemma transaction_undone:
  assumes ok: "gov_ok n m" "m_depth m = 0" "m_transaction m = None" and t: "transaction (block qs) m = (m', Inl e)" "w_drawn (m_world m') \<le> n"
  shows "\<exists>new. g_entries (m_ledger m') = g_entries (m_ledger m) @ new \<and> (\<forall>e \<in> set new. entry_type e = CIRCUIT_TRIPPED)
    \<and> (\<forall>k. dval (m_balance m' k) = dval (m_balance m k)) \<and> verify_chain (m_ledger m') = Inr ()"
proof -
  have i: "gov_inv n m" using ok(1) by (simp add: gov_inv_def)
  from transaction_cases [OF i ok(2,3) t(1)] t(2) obtain m3 ts where m3: "same_chain m m3" "gov_inv n m3" "m' = retrip ts m3"
    "w_drawn (m_world m) \<le> w_drawn (m_world m3)" by metis
  have "grown_unit n m m3" using m3 by (simp add: grown_unit_def grown_def same_chain_def)
  then have "grown_unit n m m3 \<and> (\<exists>new. g_entries (m_ledger m3) = g_entries (m_ledger m) @ new \<and> (\<forall>e \<in> set new. entry_type e = CIRCUIT_TRIPPED))"
    using m3(1) by (simp add: same_chain_def)
  then have "grown_unit n m (retrip ts m3) \<and> (\<exists>new. g_entries (m_ledger (retrip ts m3)) = g_entries (m_ledger m) @ new \<and> (\<forall>e \<in> set new. entry_type e = CIRCUIT_TRIPPED))"
  proof (induction ts arbitrary: m3)
    case (Cons tr ts)
    have "tripping.keeps n m (mutating (trip_breaker k why))" for k why
      by (intro tripping.keeps_mutating tripping.keeps_trip_breaker) simp
    with Cons.prems have "grown_unit n m (fst (mutating (trip_breaker k why) m3)) \<and> (\<exists>new. g_entries (m_ledger (fst (mutating (trip_breaker k why) m3)))
        = g_entries (m_ledger m) @ new \<and> (\<forall>e \<in> set new. entry_type e = CIRCUIT_TRIPPED))" for k why
      unfolding tripping.keeps_def tripping.valid_def by blast
    with Cons.IH show ?case by (cases tr) simp
  qed simp
  then obtain new where g: "grown_unit n m m'" and new: "g_entries (m_ledger m') = g_entries (m_ledger m) @ new" "\<forall>e \<in> set new. entry_type e = CIRCUIT_TRIPPED"
    using m3(3) by blast
  have ok': "gov_ok n m'" "m_unit m' = m_unit m" using g t(2) by (simp_all add: grown_unit_def grown_def gov_inv_def)
  have wf: "ledger_wf (m_ledger m)" "ledger_wf (m_ledger m')" using ok(1) ok'(1) by (simp_all add: gov_ok_def)
  from wf new(1) ok'(2) obtain q rs q' rs' where "rfold (ref_step True False) (q, rs) new = Inr (q', rs')" by (rule extends_run)
  then have "moved k new = 0" for k using zero_moved new(2) by (simp add: zero_value_type_def)
  then have "dval (m_balance m' k) = dval (m_balance m k)" for k
    using ledger_money [OF wf new(1) ok'(2), of k] by simp
  then show ?thesis using new verify_wf [OF wf(2)] by blast
qed

end
