(* ===== verification/Admission.thy ===== *)
theory Admission
  imports Guarantees
begin

text \<open>
  What the engine accepts. The invariants say that nothing wrong is ever written; the lemmas here
  say that what a caller may ask for is written: sums of amounts on the ledger's grid fit the
  arithmetic context, text that passed \<open>_check_text\<close> can be hashed, and a well-formed line passes
  every rule of \<open>_Overlay.apply\<close>.
\<close>

section \<open>Amounts that fit\<close>

lemma num_digits_le: "\<bar>c\<bar> < 10 ^ k \<Longrightarrow> 0 < k \<Longrightarrow> num_digits c \<le> k"
  by (auto simp: num_digits_def nat_less_iff intro!: length_digits)

text \<open>A value on the grid is a whole number of quanta.\<close>

definition quanta :: "rat \<Rightarrow> int \<Rightarrow> bool" where
  "quanta x c \<longleftrightarrow> x = of_int c * 10 powi QUANTUM_EXP"

definition on_grid :: "rat \<Rightarrow> bool" where
  "on_grid x \<longleftrightarrow> (\<exists>c. quanta x c)"

lemma on_grid_simps [simp]: "on_grid 0" "on_grid x \<Longrightarrow> on_grid (- x)" "on_grid x \<Longrightarrow> on_grid y \<Longrightarrow> on_grid (x + y)"
  "on_grid x \<Longrightarrow> on_grid y \<Longrightarrow> on_grid (x - y)"
proof -
  show "on_grid 0" by (auto simp: on_grid_def quanta_def intro: exI [of _ 0])
  show m: "on_grid (- x)" if "on_grid x" for x
    using that by (auto simp: on_grid_def quanta_def) (metis minus_mult_left of_int_minus)
  show p: "on_grid (x + y)" if "on_grid x" "on_grid y" for x y
    using that by (auto simp: on_grid_def quanta_def) (metis distrib_right of_int_add)
  show "on_grid x \<Longrightarrow> on_grid y \<Longrightarrow> on_grid (x - y)" using p m [of y] by fastforce
qed

lemma fixed_grid: "fixed a = Inr t \<Longrightarrow> on_grid (dval a)"
  by (erule fixed_fixed_text) (auto simp: on_grid_def quanta_def)

lemma expo_grid: "QUANTUM_EXP \<le> expo a \<Longrightarrow> on_grid (dval a)"
  unfolding on_grid_def quanta_def by (metis dval_aligned)

lemma quanta_bound: "quanta x c \<Longrightarrow> \<bar>x\<bar> < 10 ^ 42 \<Longrightarrow> \<bar>c\<bar> < 10 ^ 50"
proof -
  assume x: "quanta x c" "\<bar>x\<bar> < 10 ^ 42"
  have "of_int c = x * 10 ^ 8" using x(1) by (simp add: quanta_def QUANTUM_EXP_def power_int_minus)
  then have "(of_int \<bar>c\<bar> :: rat) = \<bar>x\<bar> * 10 ^ 8" by (simp add: abs_mult)
  also have "\<dots> < 10 ^ 42 * 10 ^ 8" using x(2) by (intro mult_strict_right_mono) simp_all
  finally have "(of_int \<bar>c\<bar> :: rat) < of_int (10 ^ 50)" by (simp flip: power_add)
  then show ?thesis by (simp only: of_int_less_iff)
qed

lemma powi_less: "a \<le> b \<Longrightarrow> (10::rat) powi b = 10 ^ nat (b - a) * 10 powi a"
  using dval_aligned [of a "Dec 1 b"] by (simp add: aligned_def dval_def)

lemma fix_fits:
  assumes c: "quanta (dval d) c" and b: "\<bar>c\<bar> < 10 ^ 50"
  shows "\<exists>x. arithmetic_fix d = Inr x"
proof (cases "QUANTUM_EXP \<le> expo d")
  case True
  have "(of_int (coeff d * 10 ^ nat (expo d - QUANTUM_EXP)) :: rat) = of_int c"
    using c dval_aligned [OF True] by (simp add: quanta_def aligned_def)
  then have eq: "coeff d * 10 ^ nat (expo d - QUANTUM_EXP) = c" by (simp only: of_int_eq_iff)
  have "\<bar>coeff d\<bar> * 1 \<le> \<bar>coeff d\<bar> * 10 ^ nat (expo d - QUANTUM_EXP)" by (intro mult_left_mono) simp_all
  then have "\<bar>coeff d\<bar> < 10 ^ 50" using b eq by (simp add: abs_mult)
  then have "num_digits (coeff d) \<le> PREC" by (simp add: PREC_def num_digits_le)
  then show ?thesis by (simp add: arithmetic_fix_def)
next
  case False
  define k where "k = nat (QUANTUM_EXP - expo d)"
  have "(of_int (coeff d) :: rat) * 10 powi expo d = of_int c * (10 ^ k * 10 powi expo d)"
    using c powi_less [of "expo d" QUANTUM_EXP] False by (simp add: quanta_def dval_def k_def)
  then have "(of_int (coeff d) :: rat) = of_int (c * 10 ^ k)" by simp
  then have eq: "coeff d = c * 10 ^ k" by (simp only: of_int_eq_iff)
  have "\<bar>coeff d\<bar> < 10 ^ 50 * 10 ^ k" using b by (simp add: eq abs_mult)
  then have n: "num_digits (coeff d) \<le> 50 + k" using num_digits_le [of "coeff d" "50 + k"] by (simp add: power_add)
  show ?thesis
  proof (cases "num_digits (coeff d) \<le> PREC")
    case False
    have "(10::int) ^ (num_digits (coeff d) - PREC) dvd 10 ^ k" using n by (intro le_imp_power_dvd) (simp add: PREC_def)
    then have "coeff d mod 10 ^ (num_digits (coeff d) - PREC) = 0" by (simp add: eq dvd_imp_mod_0)
    then show ?thesis using False by (simp add: arithmetic_fix_def Let_def)
  qed (simp add: arithmetic_fix_def)
qed

lemma ctx_add_fits: "on_grid (dval a) \<Longrightarrow> on_grid (dval b) \<Longrightarrow> \<bar>dval a + dval b\<bar> < 10 ^ 42 \<Longrightarrow> \<exists>x. ctx_add a b = Inr x"
proof -
  assume a: "on_grid (dval a)" "on_grid (dval b)" "\<bar>dval a + dval b\<bar> < 10 ^ 42"
  then obtain c where c: "quanta (dval a + dval b) c" using on_grid_simps(3) by (auto simp: on_grid_def)
  show ?thesis unfolding ctx_add_def using c quanta_bound [OF c a(3)] by (intro fix_fits) (simp_all add: dval_dec_sum)
qed

lemma ctx_subtract_fits: "on_grid (dval a) \<Longrightarrow> on_grid (dval b) \<Longrightarrow> \<bar>dval a - dval b\<bar> < 10 ^ 42 \<Longrightarrow> \<exists>x. ctx_subtract a b = Inr x"
  using ctx_add_fits [of a "copy_negate b"] by (simp add: ctx_subtract_def ctx_add_def)

lemma fixed_fits: "on_grid (dval a) \<Longrightarrow> \<bar>dval a\<bar> < 10 ^ 42 \<Longrightarrow> \<exists>t. fixed a = Inr t"
proof -
  assume a: "on_grid (dval a)" "\<bar>dval a\<bar> < 10 ^ 42"
  then obtain c where c: "quanta (dval a) c" "\<bar>c\<bar> < 10 ^ 50" using quanta_bound by (auto simp: on_grid_def)
  have "quantize a QUANTUM_EXP ROUND_HALF_EVEN = (Dec c QUANTUM_EXP, False)"
  proof (cases "QUANTUM_EXP \<le> expo a")
    case True
    have "(of_int (aligned a QUANTUM_EXP) :: rat) = of_int c" using c(1) dval_aligned [OF True] by (simp add: quanta_def)
    then show ?thesis using True by (simp add: quantize_def)
  next
    case False
    define k where "k = nat (QUANTUM_EXP - expo a)"
    have "(of_int (coeff a) :: rat) * 10 powi expo a = of_int c * (10 ^ k * 10 powi expo a)"
      using c(1) powi_less [of "expo a" QUANTUM_EXP] False by (simp add: quanta_def dval_def k_def)
    then have "(of_int (coeff a) :: rat) = of_int (c * 10 ^ k)" by simp
    then have "coeff a = c * 10 ^ k" by (simp only: of_int_eq_iff)
    then show ?thesis using False by (simp add: quantize_def k_def [symmetric] Let_def round_div_def)
  qed
  then show ?thesis using num_digits_le [OF c(2)] by (simp add: fixed_def PREC_def Let_def)
qed

section \<open>Text that can be hashed\<close>

lemma scalar_ascii: "list_all (\<lambda>c. c < 128) t \<Longrightarrow> list_all unicode_scalar t"
  by (auto simp: list_all_iff unicode_scalar_def)

lemma scalars_list:
  "list_all unicode_scalar (digits n)" "list_all unicode_scalar (uuid_text u)" "list_all unicode_scalar (iso t)"
  "list_all unicode_scalar (fixed_text c)" "list_all unicode_scalar (direction_value d)" "list_all unicode_scalar (entry_type_value k)"
  "list_all unicode_scalar (ref_text r)"
proof -
  have hex: "c < 128" if "c \<in> set (map hex_digit (fixed_digits 16 k n))" for c k n
    using that fixed_digits_less [of 16] by (force simp: hex_digit_def split: if_splits)
  show "list_all unicode_scalar (digits n)" by (rule scalar_ascii) (force simp: list_all_iff dest: digits_chars)
  show u: "list_all unicode_scalar (uuid_text u)" for u
    by (rule scalar_ascii) (auto simp: list_all_iff uuid_text_def Let_def dest!: in_set_takeD in_set_dropD hex simp flip: set_map)
  show "list_all unicode_scalar (iso t)"
    by (rule scalar_ascii) (cases t; force simp: iso_def Let_def list_all_iff dest: digits_chars dec_field_chars)
  show "list_all unicode_scalar (fixed_text c)" by (rule scalar_ascii) (force simp: list_all_iff dest: fixed_text_chars)
  show "list_all unicode_scalar (direction_value d)" by (cases d) (simp_all add: unicode_scalar_def)
  show "list_all unicode_scalar (entry_type_value k)" by (cases k) (simp_all add: unicode_scalar_def)
  show "list_all unicode_scalar (ref_text r)" using u by (auto simp: ref_text_def unicode_scalar_def split: option.split)
qed

lemma scalars_json: "list_all unicode_scalar t \<Longrightarrow> list_all unicode_scalar (json_string t)"
proof -
  have "list_all unicode_scalar (map hex_digit (fixed_digits 16 4 c))" for c
    using fixed_digits_less [of 16] by (force simp: list_all_iff hex_digit_def unicode_scalar_def split: if_splits)
  then have u: "list_all unicode_scalar (json_u c)" for c by (simp add: json_u_def unicode_scalar_def)
  have "unicode_scalar c \<Longrightarrow> list_all unicode_scalar (json_char c)" for c
    using u [of c] by (simp add: json_char_def json_special_def) (simp add: unicode_scalar_def)
  then have "list_all unicode_scalar t \<Longrightarrow> list_all unicode_scalar (json_body t)" by (induction t) auto
  then show "list_all unicode_scalar t \<Longrightarrow> list_all unicode_scalar (json_string t)"
    by (simp add: json_string_def unicode_scalar_def)
qed

lemma hash_succeeds:
  assumes "version e = AUDIT_V3" "fixed (amount e) = Inr a" "fixed (balance_after e) = Inr b" "list_all unicode_scalar (prev_hash e)"
    "list_all unicode_scalar (scope_id e)" "list_all unicode_scalar (memo e)"
    "\<forall>c \<in> set_option (counterparty_id e). list_all unicode_scalar c"
  shows "\<exists>h. recompute_hash e = Inr h"
proof -
  have ab: "list_all unicode_scalar a" "list_all unicode_scalar b"
    using assms(2,3) by (auto elim!: fixed_fixed_text simp: scalars_list)
  have q: "list_all unicode_scalar (quote x)" if "\<forall>c \<in> set_option x. list_all unicode_scalar c" for x
    using that scalars_json by (auto simp: quote_def unicode_scalar_def split: option.split)
  have "list_all unicode_scalar (payload_v3 e a b)"
    unfolding payload_v3_def using ab q assms(4-) scalars_json by (simp add: scalars_list unicode_scalar_def)
  then show ?thesis using assms(1-3) utf8_nats_None [of "payload_v3 e a b"]
    by (auto simp: recompute_hash_def utf8_encode_def split: option.split)
qed

lemma hex64_scalars: "hex64 t \<Longrightarrow> list_all unicode_scalar t"
  by (rule scalar_ascii) (auto simp: hex64_def is_hex_lower_def list_all_iff)

section \<open>Lines the rules accept\<close>

text \<open>What an entry of a plain type has to satisfy in the state it is applied to.\<close>

definition fits_link :: "ref_state \<Rightarrow> ledger_entry \<Rightarrow> bool" where
  "fits_link r e \<longleftrightarrow> sequence e = s_length r + 1 \<and> prev_hash e = s_head r \<and> version e = AUDIT_V3
     \<and> \<not> s_saw_v1 r \<and> s_legacy r = [] \<and> (r_txn r = None \<or> r_txn r = Some (transaction_id e))"

definition fits_shape :: "ref_state \<Rightarrow> ledger_entry \<Rightarrow> bool" where
  "fits_shape r e \<longleftrightarrow> direction e \<in> set (legal_directions (entry_type e)) \<and> ref_check_v3 r e = Inr () \<and> scope_id e \<noteq> []
     \<and> (if zero_value_type (entry_type e) then dval (amount e) = 0
        else 0 < dval (amount e) \<and> counted (amount e) (s_unit r) = Inr True)"

definition fits_holds :: "ref_state \<Rightarrow> ledger_entry \<Rightarrow> bool" where
  "fits_holds r e \<longleftrightarrow> (case ref e of None \<Rightarrow> entry_type e \<noteq> HOLD_VOID
     | Some h \<Rightarrow> entry_type e = SPEND \<and> h \<in> r_settleable r \<or>
         entry_type e = HOLD_VOID \<and> (\<exists>hold. map_of (s_holds r) h = Some hold \<and> scope_id hold = scope_id e \<and> dval (amount hold) = dval (amount e)))"

definition fits_sums :: "ref_state \<Rightarrow> ledger_entry \<Rightarrow> bool" where
  "fits_sums r e \<longleftrightarrow> (\<exists>x. ctx_add (chain_balance r (scope_id e)) (signed_amount e) = Inr x \<and> dval (balance_after e) = dval x)
     \<and> (\<exists>t. apply_totals (s_totals r) e = Inr t)
     \<and> (entry_type e = SPEND \<longrightarrow> (\<exists>x. ctx_add (chain_spent_by r (scope_id e)) (amount e) = Inr x))"

abbreviation plain_type :: "entry_type \<Rightarrow> bool" where
  "plain_type t \<equiv> t \<in> {HOLD, HOLD_VOID, SPEND, CIRCUIT_TRIPPED, CIRCUIT_RESET, ANCHOR}"

lemma plain_type: "plain_type t \<Longrightarrow> \<not> balanced_type t \<and> \<not> scopeless_type t \<and> t \<noteq> SEAL \<and> t \<noteq> CHECKPOINT"
  by (auto simp: balanced_type_def scopeless_type_def)

lemma admit_holds:
  assumes "version e = AUDIT_V3" "plain_type (entry_type e)" "fits_holds r e"
  shows "\<exists>q. ref_check_holds r e None = Inr (q, None)"
  using assms
  by (auto simp: ref_check_holds_def fits_holds_def ref_release_named_def dec_eq_iff v3_referencing_type_def referencing_type_def split: option.splits)

lemma admit_governance:
  assumes "plain_type (entry_type e)" "s_legacy r = []" "map_of (s_nodes r) (scope_id e) \<noteq> None"
  shows "\<exists>q. ref_check_governance r e = Inr q"
proof -
  have "\<exists>q. ref_fold_legacy r e = Inr q \<and> s_nodes q = s_nodes r"
    using assms(1,2) by (auto simp: ref_fold_legacy_def ref_apply_legacy_def)
  then obtain q where q: "ref_fold_legacy r e = Inr q" "s_nodes q = s_nodes r" by blast
  obtain n where n: "map_of (s_nodes q) (scope_id e) = Some n" using assms(3) q(2) by (cases "map_of (s_nodes q) (scope_id e)") auto
  have "\<exists>x. ref_control q t (scope_id e) i why = Inr x" for t i why by (simp add: ref_control_def n)
  moreover have "ref_require q (scope_id e) = Inr n" by (simp add: ref_require_def n)
  ultimately show ?thesis using assms(1) q(1)
    by (elim insertE) (simp_all add: ref_check_governance_def Let_def control_type_def scopeless_type_def)
qed

lemma apply_admits:
  assumes t: "plain_type (entry_type e)" and fits: "fits_link r e" "fits_shape r e" "fits_holds r e" "fits_sums r e"
    and node: "map_of (s_nodes r) (scope_id e) \<noteq> None"
    and fr: "\<exists>f. frontier_append (s_frontier r) (s_length r) (entry_hash e) = Inr f"
  shows "\<exists>r'. ref_apply r e False None True = Inr (r', None)"
proof -
  note d = fits [unfolded fits_link_def fits_shape_def fits_sums_def]
  have 1: "ref_check_link r e False = Inr ()" using d by (simp add: ref_check_link_def known_version_def)
  let ?r1 = "r\<lparr> s_saw_v3 := True, s_saw_v2 := True \<rparr>"
  have 2: "ref_check_version r e = Inr ?r1" using d by (simp add: ref_check_version_def)
  have "ref_check_v3 ?r1 e = Inr ()" using d by (simp add: ref_check_v3_def)
  then have 3: "ref_check_shape ?r1 e = Inr ?r1"
    using d plain_type [OF t] by (auto simp: ref_check_shape_def Let_def dec_le_iff dec_eq_iff)
  let ?r2 = "?r1\<lparr> r_txn := Some (transaction_id e) \<rparr>"
  have 4: "ref_begin_transaction ?r1 e = Inr ?r2" using d by (auto simp: ref_begin_transaction_def)
  have "\<exists>q. ref_move_balance ?r2 e = Inr q"
    using d plain_type [OF t] by (auto simp: ref_move_balance_def Let_def chain_balance_def dec_eq_iff)
  then obtain r3 where 5: "ref_move_balance ?r2 e = Inr r3" by blast
  note m = move_frame [OF 5]
  have "r_settleable r3 = r_settleable r" using 5
    by (cases "zero_value_type (entry_type e)"; cases "balanced_type (entry_type e)") (auto simp: ref_move_balance_def Let_def)
  then have "fits_holds r3 e" using fits(3) m by (simp add: fits_holds_def parts_def cong: option.case_cong)
  then obtain r4 where 6: "ref_check_holds r3 e None = Inr (r4, None)" using admit_holds t d by blast
  note h = holds_frame [OF 6]
  have "\<exists>q. ref_check_flows r4 e True = Inr q"
    using t d h m by (auto simp: ref_check_flows_def Let_def chain_spent_by_def parts_def)
  then obtain r5 where 7: "ref_check_flows r4 e True = Inr r5" by blast
  note f = flows_frame [OF 7]
  have "s_legacy r5 = []" "map_of (s_nodes r5) (scope_id e) \<noteq> None" using f h m d node by (simp_all add: parts_def)
  then obtain r6 where 8: "ref_check_governance r5 e = Inr r6" using admit_governance [OF t] by blast
  note g = governance_frame [OF 8]
  have "\<exists>q. ref_advance r6 e = Inr q" using g f h m d fr by (auto simp: ref_advance_def parts_def)
  then obtain r7 where 9: "ref_advance r6 e = Inr r7" by blast
  show ?thesis unfolding ref_apply_def by (simp only: 1 2 3 4 5 6 7 8 9 rbind_Inr prod.case) blast
qed

section \<open>Chains of AGOV3 entries\<close>

lemma legacy_saw_v1: "ref_apply_legacy r = Inr r' \<Longrightarrow> s_saw_v1 r' = s_saw_v1 r"
proof -
  have "rfold ref_apply_control r cs = Inr r' \<Longrightarrow> s_saw_v1 r' = s_saw_v1 r" for r cs
    by (induction cs arbitrary: r) (auto simp: ref_apply_control_def ref_control_def split: if_splits option.splits)
  then show "ref_apply_legacy r = Inr r' \<Longrightarrow> s_saw_v1 r' = s_saw_v1 r" by (fastforce simp: ref_apply_legacy_def)
qed

lemma governance_saw_v1: "ref_check_governance r e = Inr r' \<Longrightarrow> s_saw_v1 r' = s_saw_v1 r"
proof -
  assume g: "ref_check_governance r e = Inr r'"
  then obtain q where q: "ref_fold_legacy r e = Inr q" and k: "(let kind = entry_type e in
       if kind = FUNDING then ref_fund_scope q e else if kind = ALLOCATION then ref_allocate q e
       else if kind = RELEASE then rbind (ref_release_between q e) (\<lambda>_. Inr q)
       else if control_type kind then ref_control q (entry_type_value kind) (scope_id e) (timestamp e) (memo e)
       else if \<not> scopeless_type kind then rbind (ref_require q (scope_id e)) (\<lambda>_. Inr q)
       else Inr q) = Inr r'" unfolding ref_check_governance_def by auto
  have "s_saw_v1 q = s_saw_v1 r" using q legacy_saw_v1 by (auto simp: ref_fold_legacy_def split: if_splits)
  moreover have "ref_fund_scope q e = Inr r' \<Longrightarrow> s_saw_v1 r' = s_saw_v1 q" "ref_allocate q e = Inr r' \<Longrightarrow> s_saw_v1 r' = s_saw_v1 q"
    "ref_control q t a b c = Inr r' \<Longrightarrow> s_saw_v1 r' = s_saw_v1 q" for t a b c
    by (auto simp: ref_fund_scope_def ref_allocate_def ref_control_def Let_def split: if_splits option.splits)
  ultimately show ?thesis using k unfolding Let_def by (auto split: if_splits)
qed

lemma apply_saw_v1:
  assumes "ref_apply r e h rs w = Inr (r', rs')" "version e = AUDIT_V3"
  shows "s_saw_v1 r' = s_saw_v1 r"
proof -
  from assms(1) obtain r1 r2 r3 r4 r5 r6 r7 where a: "ref_check_version r e = Inr r1"
    "ref_check_shape r1 e = Inr r2" "ref_begin_transaction r2 e = Inr r3" "ref_move_balance r3 e = Inr r4"
    "ref_check_holds r4 e rs = Inr (r5, rs')" "ref_check_flows r5 e w = Inr r6"
    "ref_check_governance r6 e = Inr r7" "ref_advance r7 e = Inr r'" by (rule apply_cases)
  have 1: "s_saw_v1 r1 = s_saw_v1 r" using a(1) assms(2) by (auto simp: ref_check_version_def split: if_splits)
  have "ref_check_checkpoint r1 e = Inr r2 \<Longrightarrow> s_saw_v1 r2 = s_saw_v1 r1"
    by (auto simp: ref_check_checkpoint_def split: option.splits if_splits)
  then have 2: "s_saw_v1 r2 = s_saw_v1 r1" using a(2) by (auto simp: ref_check_shape_def Let_def split: if_splits)
  have 3: "s_saw_v1 r3 = s_saw_v1 r2" using a(3) by (auto simp: ref_begin_transaction_def ref_end_transaction_def split: if_splits)
  have 4: "s_saw_v1 r4 = s_saw_v1 r3" using a(4)
    by (cases "zero_value_type (entry_type e)"; cases "balanced_type (entry_type e)") (auto simp: ref_move_balance_def Let_def)
  have "ref_release_named r4 e rs = Inr (r5, rs') \<Longrightarrow> s_saw_v1 r5 = s_saw_v1 r4" "ref_release_unnamed r4 e = Inr r5 \<Longrightarrow> s_saw_v1 r5 = s_saw_v1 r4"
    "ref_reverse_named r4 e k = Inr r5 \<Longrightarrow> s_saw_v1 r5 = s_saw_v1 r4" "s_saw_v1 (ref_open r4 e) = s_saw_v1 r4" for k
    by (auto simp: ref_release_named_def ref_release_unnamed_def ref_reverse_named_def ref_open_def ref_close_def split: option.splits if_splits)
  then have 5: "s_saw_v1 r5 = s_saw_v1 r4" using a(5) by (auto simp: ref_check_holds_def Let_def split: if_splits option.splits)
  have 6: "s_saw_v1 r6 = s_saw_v1 r5" using a(6) by (auto simp: ref_check_flows_def Let_def split: if_splits)
  have "s_saw_v1 r' = s_saw_v1 r7" using a(8) by (auto simp: ref_advance_def)
  then show ?thesis using 1 2 3 4 5 6 governance_saw_v1 [OF a(7)] by simp
qed

text \<open>Every figure of such a chain is on the grid.\<close>

definition grid_state :: "'a chain_state_scheme \<Rightarrow> bool" where
  "grid_state r \<longleftrightarrow> \<not> s_saw_v1 r \<and> (\<forall>k. on_grid (dval (chain_balance r k))) \<and> (\<forall>k. on_grid (dval (chain_spent_by r k)))
     \<and> on_grid (dval (t_holds_open (s_totals r))) \<and> on_grid (dval (t_spent (s_totals r)))"

lemma written_grid: "written_entry e \<Longrightarrow> version e = AUDIT_V3 \<Longrightarrow> on_grid (dval (amount e))"
  by (auto simp: written_entry_def recompute_hash_def intro: fixed_grid)

lemma signed_grid: "on_grid (dval (amount e)) \<Longrightarrow> on_grid (dval (signed_amount e))"
  by (simp add: signed_amount_def split: direction.split)

lemma grid_step:
  assumes step: "ref_apply r e h rs w = Inr (r', rs')" and r: "grid_state r" and e: "version e = AUDIT_V3" "written_entry e"
  shows "grid_state r'"
proof -
  have g: "on_grid (dval (amount e))" using written_grid e by blast
  note d = r [unfolded grid_state_def]
  have "on_grid (dval (chain_balance r' k))" for k using apply_balance [OF step, of k] d signed_grid [OF g] by simp
  moreover have "on_grid (dval (chain_spent_by r' k))" for k
  proof -
    from step obtain q q' where q: "flow_part q = flow_part r" "ref_check_flows q e w = Inr q'" "flow_part r' = flow_part q'"
      by (rule apply_flow_part)
    then show ?thesis using d g
      by (auto simp: ref_check_flows_def Let_def flow_part_def chain_spent_by_def dest!: dval_ctx_add split: if_splits)
  qed
  moreover have "on_grid (dval (t_holds_open (s_totals r'))) \<and> on_grid (dval (t_spent (s_totals r')))"
  proof -
    have "apply_totals t e = Inr t' \<Longrightarrow> on_grid (dval (t_holds_open t)) \<Longrightarrow> on_grid (dval (t_spent t)) \<Longrightarrow>
        on_grid (dval (t_holds_open t')) \<and> on_grid (dval (t_spent t'))" for t t'
      using g by (cases "entry_type e") (auto simp: apply_totals_def dest!: dval_ctx_add dval_ctx_subtract)
    with apply_position(1) [OF step] d show ?thesis by blast
  qed
  ultimately show ?thesis using apply_saw_v1 [OF step e(1)] d by (simp add: grid_state_def)
qed

interpretation on_the_grid: invariant_step "ref_step h w"
  "\<lambda>rr es. grid_state (fst rr) \<and> (\<forall>e \<in> set es. version e = AUDIT_V3 \<and> written_entry e)" for h w
  by unfold_locales (auto simp: ref_step_def split_paired_all dest: grid_step)

lemma ledger_grid:
  assumes "ledger_wf g" "\<forall>e \<in> set (g_entries g). version e = AUDIT_V3"
  shows "grid_state (g_state g)"
proof -
  from assms(1) obtain q rs where run: "rfold (ref_step True False)
      (ref_start (empty_chain (s_unit (g_state g)) []) (Some (spend_index (g_entries g))), Some {}) (g_entries g) = Inr (q, rs)"
    and s: "g_state g = ref_chain q" by (rule ledger_run)
  have start: "grid_state (ref_start (empty_chain (s_unit (g_state g)) []) (Some (spend_index (g_entries g))))"
    by (simp add: grid_state_def chain_balance_def chain_spent_by_def dict_get_def) (simp add: ref_start_def empty_chain_def chain_state.extend_def no_totals_def)
  have "grid_state q" using on_the_grid.run_keeps [OF _ run] start assms by (simp add: ledger_wf_def)
  then show ?thesis by (simp add: s grid_state_def chain_balance_def chain_spent_by_def) (simp add: ref_chain_def chain_state.truncate_def)
qed

section \<open>Posting succeeds\<close>

text \<open>A state of an AGOV3 chain that further entries can be written to, no earlier than \<open>now\<close>.\<close>

definition healthy :: "instant \<Rightarrow> ref_state \<Rightarrow> bool" where
  "healthy now r \<longleftrightarrow> grid_state r \<and> s_legacy r = [] \<and> hex64 (s_head r) \<and> (\<exists>ls. s_frontier r = peaks ls \<and> s_length r = length ls)
     \<and> (\<forall>t. s_last_timestamp r = Some t \<longrightarrow> t \<le> now)"

lemma healthy_frontier: "healthy now r \<Longrightarrow> recompute_hash e = Inr h \<Longrightarrow> \<exists>ls l. frontier_append (s_frontier r) (s_length r) h = Inr (peaks (ls @ [l])) \<and> s_length r = length ls"
  using frontier_append_peaks by (auto simp: healthy_def sha256_hex_def dest!: recompute_hash_hex) blast

lemma healthy_step:
  assumes "ref_apply r e h rs w = Inr (r', rs')" "healthy now r" "version e = AUDIT_V3" "written_entry e" "timestamp e = now"
  shows "healthy now r'"
proof -
  note p = apply_position [OF assms(1)]
  have hash: "recompute_hash e = Inr (entry_hash e)" using assms(4) by (simp add: written_entry_def)
  from healthy_frontier [OF assms(2) hash] p(2) obtain ls l where "s_frontier r' = peaks (ls @ [l])" "s_length r = length ls" by auto
  then have "\<exists>ls. s_frontier r' = peaks ls \<and> s_length r' = length ls" using p(4) by (intro exI [of _ "ls @ [l]"]) simp
  moreover have "hex64 (s_head r')" using recompute_hash_hex [OF hash] p(3) by auto
  ultimately show ?thesis
    using assms p(5,9) grid_step [OF assms(1)] by (simp add: healthy_def config_part_def)
qed

text \<open>A line the ledger can take.\<close>

definition line_fits :: "ref_state \<Rightarrow> ledger_line \<Rightarrow> decimal \<Rightarrow> bool" where
  "line_fits r l a \<longleftrightarrow> plain_type (l_entry_type l) \<and> check_line l = Inr a \<and> l_scope_id l \<noteq> [] \<and> map_of (s_nodes r) (l_scope_id l) \<noteq> None
     \<and> (\<not> zero_value_type (l_entry_type l) \<longrightarrow> counted a (s_unit r) = Inr True)
     \<and> (case l_ref l of None \<Rightarrow> l_entry_type l \<noteq> HOLD_VOID
        | Some h \<Rightarrow> l_entry_type l = SPEND \<and> h \<in> r_settleable r \<or>
            l_entry_type l = HOLD_VOID \<and> (\<exists>hold. map_of (s_holds r) h = Some hold \<and> scope_id hold = l_scope_id l \<and> dval (amount hold) = dval a))
     \<and> (\<forall>x \<in> {chain_balance r (l_scope_id l), chain_spent_by r (l_scope_id l), t_holds_open (s_totals r), t_spent (s_totals r)}.
          \<bar>dval x\<bar> + \<bar>dval a\<bar> < 10 ^ 42)"

lemma check_line_Inr:
  assumes "check_line l = Inr a"
  shows "l_direction l \<in> set (legal_directions (l_entry_type l))"
    and "if zero_value_type (l_entry_type l) then a = ZERO else 0 < dval a \<and> expo a = QUANTUM_EXP"
    and "l_ref l \<noteq> None \<Longrightarrow> v3_referencing_type (l_entry_type l)"
    and "check_text (l_scope_id l) MAX_ID_BYTES True = None" "check_text (l_memo l) MAX_MEMO_BYTES False = None"
    and "\<forall>c \<in> set_option (l_counterparty_id l). check_text c MAX_ID_BYTES True = None"
  using assms check_line_amount [OF assms]
  by (auto simp: check_line_def dec_le_iff dec_eq_iff split: if_splits)

definition matches :: "overlay \<Rightarrow> building \<Rightarrow> ref_state \<Rightarrow> bool" where
  "matches v b r \<longleftrightarrow> u_prev_hash b = s_head r \<and> u_sequence b = s_length r
     \<and> (\<forall>k. dict_get (u_running b) k (balance v k) = chain_balance r k)"

lemma signed_line_value: "dval (signed_line d a) \<in> {dval a, - dval a, 0}"
  by (simp add: signed_line_def split: direction.split)

text \<open>The entry built for a line, given the state it is to be applied to.\<close>

definition built_entry :: "ref_state \<Rightarrow> uuid \<Rightarrow> instant \<Rightarrow> ledger_line \<Rightarrow> ledger_entry \<Rightarrow> bool" where
  "built_entry r t now l e \<longleftrightarrow> sequence e = s_length r + 1 \<and> prev_hash e = s_head r \<and> transaction_id e = t \<and> timestamp e = now
     \<and> version e = AUDIT_V3 \<and> line_entry l e \<and> recompute_hash e = Inr (entry_hash e)
     \<and> ctx_add (chain_balance r (l_scope_id l)) (signed_amount e) = Inr (balance_after e)"

lemma build_succeeds:
  assumes ok: "matches v b r" "healthy now r" "line_fits r l a"
  shows "\<exists>b' e. build_line v t now b l = Inr b' \<and> u_built b' = u_built b @ [e] \<and> built_entry r t now l e
    \<and> u_prev_hash b' = entry_hash e \<and> u_sequence b' = s_length r + 1
    \<and> u_running b' = (if zero_value_type (l_entry_type l) then u_running b else AList.update (l_scope_id l) (balance_after e) (u_running b))"
proof -
  note c = ok(3) [unfolded line_fits_def]
  have cl: "check_line l = Inr a" using c by blast
  note k = check_line_Inr [OF cl]
  have grid: "grid_state r" "on_grid (dval a)" using ok(2) k(2) by (auto simp: healthy_def intro: expo_grid split: if_splits)
  then have sg: "on_grid (dval (signed_line (l_direction l) a))" by (simp add: signed_line_def split: direction.split)
  have bounds: "\<bar>dval x\<bar> + \<bar>dval a\<bar> < 10 ^ 42"
    if "x \<in> {chain_balance r (l_scope_id l), chain_spent_by r (l_scope_id l), t_holds_open (s_totals r), t_spent (s_totals r)}" for x
    using c that by blast
  have small: "\<bar>dval (chain_balance r (l_scope_id l)) + dval (signed_line (l_direction l) a)\<bar> < 10 ^ 42"
    using bounds [of "chain_balance r (l_scope_id l)"] signed_line_value [of "l_direction l" a] by auto
  then obtain x where x: "ctx_add (chain_balance r (l_scope_id l)) (signed_line (l_direction l) a) = Inr x"
    using ctx_add_fits grid(1) sg by (fastforce simp: grid_state_def)
  have dx: "dval x = dval (chain_balance r (l_scope_id l)) + dval (signed_line (l_direction l) a)" using dval_ctx_add [OF x] .
  have "on_grid (dval x)" using dx grid(1) sg by (simp add: grid_state_def)
  then obtain ta tx where t: "fixed a = Inr ta" "fixed x = Inr tx"
    using fixed_fits [OF grid(2)] fixed_fits [of x] small dx bounds [of "chain_balance r (l_scope_id l)"] by fastforce
  define e where "e = \<lparr> sequence = u_sequence b + 1, entry_id = w_uuid (u_world b) (w_drawn (u_world b)), transaction_id = t, timestamp = now,
               entry_type = l_entry_type l, direction = l_direction l, scope_id = l_scope_id l,
               counterparty_id = l_counterparty_id l, amount = a, balance_after = x,
               prev_hash = u_prev_hash b, entry_hash = [], memo = l_memo l, ref = l_ref l, version = AUDIT_V3 \<rparr>"
  have m: "u_prev_hash b = s_head r" "u_sequence b = s_length r" "dict_get (u_running b) j (balance v j) = chain_balance r j" for j
    using ok(1) by (auto simp: matches_def)
  have "\<exists>h. recompute_hash e = Inr h"
    using t k(4-6) check_text_scalars ok(2) hex64_scalars m(1)
    by (intro hash_succeeds [where a = ta and b = tx]) (auto simp: e_def healthy_def)
  then obtain h where h: "recompute_hash e = Inr h" by blast
  let ?e = "e\<lparr> entry_hash := h \<rparr>"
  define b' where "b' = \<lparr> u_world = (u_world b)\<lparr> w_drawn := w_drawn (u_world b) + 1 \<rparr>,
     u_running = (if zero_value_type (l_entry_type l) then u_running b else AList.update (l_scope_id l) x (u_running b)),
     u_prev_hash = h, u_sequence = u_sequence b + 1, u_built = u_built b @ [?e] \<rparr>"
  have build: "build_line v t now b l = Inr b'"
    using cl x h by (simp add: build_line_def uuid4_def m(3) e_def b'_def Let_def)
  have "signed_amount ?e = signed_line (l_direction l) a" by (simp add: signed_amount_def signed_line_def e_def split: direction.split)
  moreover have "recompute_hash ?e = Inr h" using h by simp
  ultimately have "built_entry r t now l ?e" using cl x m(1,2)
    by (simp add: built_entry_def line_entry_def) (simp add: e_def)
  then show ?thesis using build m by (intro exI [of _ b'] exI [of _ ?e]) (simp add: b'_def, simp add: e_def)
qed

lemma totals_fit:
  assumes "grid_state r" "on_grid (dval (amount e))" "entry_type e \<noteq> FUNDING" "entry_type e \<noteq> REVERSAL"
    "\<bar>dval (t_holds_open (s_totals r))\<bar> + \<bar>dval (amount e)\<bar> < 10 ^ 42" "\<bar>dval (t_spent (s_totals r))\<bar> + \<bar>dval (amount e)\<bar> < 10 ^ 42"
  shows "\<exists>t. apply_totals (s_totals r) e = Inr t"
proof -
  have g: "on_grid (dval (t_holds_open (s_totals r)))" "on_grid (dval (t_spent (s_totals r)))" using assms(1) by (simp_all add: grid_state_def)
  have "\<exists>x. ctx_add (t_holds_open (s_totals r)) (amount e) = Inr x" using assms(5) by (intro ctx_add_fits g assms(2)) linarith
  moreover have "\<exists>x. ctx_subtract (t_holds_open (s_totals r)) (amount e) = Inr x" using assms(5) by (intro ctx_subtract_fits g assms(2)) linarith
  moreover have "\<exists>x. ctx_add (t_spent (s_totals r)) (amount e) = Inr x" using assms(6) by (intro ctx_add_fits g assms(2)) linarith
  ultimately show ?thesis using assms(3,4) by (auto simp: apply_totals_def split: entry_type.split)
qed

lemma built_fits:
  assumes ok: "healthy now r" "line_fits r l a" "built_entry r t now l e" and txn: "r_txn r = None \<or> r_txn r = Some t"
  shows "\<exists>r'. ref_apply r e False None True = Inr (r', None)"
proof (rule apply_admits)
  note c = ok(2) [unfolded line_fits_def] and b = ok(3) [unfolded built_entry_def line_entry_def]
  have cl: "check_line l = Inr a" using c by blast
  note k = check_line_Inr [OF cl]
  have a: "amount e = a" using b cl by simp
  have grid: "grid_state r" "on_grid (dval a)" using ok(1) k(2) by (auto simp: healthy_def intro: expo_grid split: if_splits)
  have bounds: "\<bar>dval x\<bar> + \<bar>dval a\<bar> < 10 ^ 42"
    if "x \<in> {chain_balance r (l_scope_id l), chain_spent_by r (l_scope_id l), t_holds_open (s_totals r), t_spent (s_totals r)}" for x
    using c that by blast
  show "plain_type (entry_type e)" "map_of (s_nodes r) (scope_id e) \<noteq> None" using b c by simp_all
  show "fits_link r e" using b txn ok(1) by (auto simp: fits_link_def healthy_def grid_state_def)
  have "ref_check_v3 r e = Inr ()"
    using b k(4-6) ok(1) by (auto simp: ref_check_v3_def healthy_def not_less split: option.split)
  then show "fits_shape r e" using b c k(1,2) a by (auto simp: fits_shape_def split: if_splits)
  show "fits_holds r e" using b c a by (auto simp: fits_holds_def split: option.splits)
  have "\<exists>x. ctx_add (chain_spent_by r (scope_id e)) (amount e) = Inr x"
    using bounds [of "chain_spent_by r (l_scope_id l)"] b a grid by (intro ctx_add_fits) (auto simp: grid_state_def)
  moreover have "\<exists>t. apply_totals (s_totals r) e = Inr t"
  proof (rule totals_fit [OF grid(1)])
    show "on_grid (dval (amount e))" using grid(2) a by simp
    show "entry_type e \<noteq> FUNDING" "entry_type e \<noteq> REVERSAL" using \<open>plain_type (entry_type e)\<close> by auto
    show "\<bar>dval (t_holds_open (s_totals r))\<bar> + \<bar>dval (amount e)\<bar> < 10 ^ 42" "\<bar>dval (t_spent (s_totals r))\<bar> + \<bar>dval (amount e)\<bar> < 10 ^ 42"
      unfolding a by (intro bounds; simp)+
  qed
  ultimately show "fits_sums r e" using b by (auto simp: fits_sums_def)
  show "\<exists>f. frontier_append (s_frontier r) (s_length r) (entry_hash e) = Inr f"
    using healthy_frontier [OF ok(1), of e] b by blast
qed

lemma line_step:
  assumes ok: "matches v b r" "healthy now r" "line_fits r l a" and txn: "r_txn r = None \<or> r_txn r = Some t"
  shows "\<exists>b' e r'. build_line v t now b l = Inr b' \<and> u_built b' = u_built b @ [e] \<and> built_entry r t now l e
    \<and> ref_apply r e False None True = Inr (r', None) \<and> matches v b' r' \<and> healthy now r'"
proof -
  from build_succeeds [OF ok, of t] obtain b' e where b': "build_line v t now b l = Inr b'" "u_built b' = u_built b @ [e]" "built_entry r t now l e"
    "u_prev_hash b' = entry_hash e" "u_sequence b' = s_length r + 1"
    "u_running b' = (if zero_value_type (l_entry_type l) then u_running b else AList.update (l_scope_id l) (balance_after e) (u_running b))"
    by blast
  from built_fits [OF ok(2,3) b'(3) txn] obtain r' where r': "ref_apply r e False None True = Inr (r', None)" by blast
  have e: "version e = AUDIT_V3" "timestamp e = now" "line_entry l e" "ctx_add (chain_balance r (l_scope_id l)) (signed_amount e) = Inr (balance_after e)"
    using b'(3) by (simp_all add: built_entry_def)
  have "written_entry e" using b'(1,2) by (auto elim!: build_line_written)
  then have "healthy now r'" using healthy_step [OF r' ok(2)] e by simp
  moreover have "s_balances r' = (if zero_value_type (l_entry_type l) then s_balances r else AList.update (l_scope_id l) (balance_after e) (s_balances r))"
    using apply_money [OF r'] e(3,4) by (fastforce simp: line_entry_def)
  then have "matches v b' r'" using b' ok(1) apply_position(3,4) [OF r'] by (auto simp: matches_def chain_balance_def)
  ultimately show ?thesis using b' r' by blast
qed

lemma apply_txn:
  assumes "ref_apply r e h rs w = Inr (r', rs')"
  shows "r_txn r' = Some (transaction_id e)"
    and "version e = AUDIT_V3 \<Longrightarrow> entry_type e = HOLD_VOID \<Longrightarrow> ref e = Some i \<Longrightarrow> i \<in> r_settleable r'"
proof -
  from assms obtain r2 r3 r4 r5 r6 r7 where a: "ref_begin_transaction r2 e = Inr r3" "ref_move_balance r3 e = Inr r4"
    "ref_check_holds r4 e rs = Inr (r5, rs')" "ref_check_flows r5 e w = Inr r6" "ref_check_governance r6 e = Inr r7" "ref_advance r7 e = Inr r'"
    by (rule apply_cases)
  have 3: "r_txn r3 = Some (transaction_id e)" using a(1) by (auto simp: ref_begin_transaction_def split: if_splits)
  have 4: "r_txn r4 = r_txn r3" using a(2)
    by (cases "zero_value_type (entry_type e)"; cases "balanced_type (entry_type e)") (auto simp: ref_move_balance_def Let_def)
  from a(3) consider "r5 = r4" | "r5 = ref_open r4 e" | "ref_release_unnamed r4 e = Inr r5"
    | "ref_release_named r4 e rs = Inr (r5, rs')" | k where "ref_reverse_named r4 e k = Inr r5"
    by (auto simp: ref_check_holds_def Let_def split: if_splits option.splits)
  then have 5: "r_txn r5 = r_txn r4"
    by cases (auto simp: ref_open_def ref_release_unnamed_def ref_release_named_def ref_reverse_named_def ref_close_def split: option.splits if_splits)
  note books = flows_books [OF a(4)] governance_books [OF a(5)] advance_books [OF a(6)]
  show "r_txn r' = Some (transaction_id e)" using 3 4 5 books by simp
  show "i \<in> r_settleable r'" if "version e = AUDIT_V3" "entry_type e = HOLD_VOID" "ref e = Some i"
  proof -
    have "ref_release_named r4 e rs = Inr (r5, rs')" using a(3) that by (auto simp: ref_check_holds_def split: if_splits)
    then have "i \<in> r_settleable r5" using that by (auto simp: ref_release_named_def split: option.splits if_splits)
    then show ?thesis using books by simp
  qed
qed

fun takes :: "uuid \<Rightarrow> instant \<Rightarrow> ref_state \<Rightarrow> ledger_line list \<Rightarrow> bool" where
  "takes t now r [] \<longleftrightarrow> True"
| "takes t now r (l # ls) \<longleftrightarrow> (\<exists>a. line_fits r l a)
     \<and> (\<forall>e r'. built_entry r t now l e \<and> ref_apply r e False None True = Inr (r', None) \<longrightarrow> takes t now r' ls)"

lemma lines_step:
  assumes "matches v b r" "healthy now r" "takes t now r ls" "r_txn r = None \<or> r_txn r = Some t"
  shows "\<exists>b' es r'. rfold (build_line v t now) b ls = Inr b' \<and> u_built b' = u_built b @ es \<and> rfold ref_write r es = Inr r' \<and> r_net r' = r_net r"
  using assms
proof (induction ls arbitrary: b r)
  case (Cons l ls)
  then obtain a where a: "line_fits r l a" by auto
  from line_step [OF Cons.prems(1,2) a Cons.prems(4)] obtain b1 e r1 where s: "build_line v t now b l = Inr b1" "u_built b1 = u_built b @ [e]"
    "built_entry r t now l e" "ref_apply r e False None True = Inr (r1, None)" "matches v b1 r1" "healthy now r1" by blast
  have "\<not> balanced_type (entry_type e)" using a s(3) plain_type by (auto simp: built_entry_def line_entry_def line_fits_def)
  then have net: "r_net r1 = r_net r" using apply_money [OF s(4)] by metis
  have txn: "r_txn r1 = Some t" using apply_txn [OF s(4)] s(3) by (simp add: built_entry_def)
  have "takes t now r1 ls" using Cons.prems(3) s(3,4) by simp
  from Cons.IH [OF s(5,6) this] txn obtain b' es r' where "rfold (build_line v t now) b1 ls = Inr b'" "u_built b' = u_built b1 @ es"
    "rfold ref_write r1 es = Inr r'" "r_net r' = r_net r1" by blast
  moreover have "ref_write r e = Inr r1" using s(4) by (simp add: ref_write_def)
  ultimately show ?case using s net by (intro exI [of _ b'] exI [of _ "e # es"] exI [of _ r']) simp
qed auto

text \<open>A unit of work over a ledger of AGOV3 entries.\<close>

abbreviation v3_work :: "ledger \<Rightarrow> pending \<Rightarrow> bool" where
  "v3_work g p \<equiv> \<forall>e \<in> set (g_entries g @ b_entries (p_batch p)). version e = AUDIT_V3"

lemma working_ledger:
  assumes "working n w g p"
  shows "ledger_wf (g\<lparr> g_entries := g_entries g @ b_entries (p_batch p), g_state := ref_chain (view_abs (p_view p)) \<rparr>)"
proof -
  have k: "in_step (g_entries g @ b_entries (p_batch p)) (s_unit (g_state g)) (view_abs (p_view p))"
    "distinct (map entry_id (g_entries g @ b_entries (p_batch p)))" "\<forall>e \<in> set (g_entries g @ b_entries (p_batch p)). written_entry e"
    "view_rel (g_state g) (p_view p) (view_abs (p_view p))"
    using assms by (simp_all add: working_def Let_def)
  have "s_unit (ref_chain (view_abs (p_view p))) = s_unit (g_state g)"
    using k(4) by (simp add: ref_chain_abs view_unit)
  then show ?thesis using in_step_replay [OF k(1)] k(2,3) by (simp add: ledger_wf_def)
qed

lemma ledger_head:
  assumes wf: "ledger_wf g"
  shows "hex64 (s_head (g_state g))" "\<exists>ls. s_frontier (g_state g) = peaks ls \<and> s_length (g_state g) = length ls"
proof -
  have rep: "replay (g_entries g) [] False None None (s_unit (g_state g)) = Inr (g_state g)" using wf by (simp add: ledger_wf_def)
  note pos = replay_position [OF rep]
  have hex: "\<exists>bs. entry_hash e = sha256_hex bs" if "e \<in> set (g_entries g)" for e using pos(4) that recompute_hash_hex by blast
  from wf obtain q rs where run: "rfold (ref_step True False)
      (ref_start (empty_chain (s_unit (g_state g)) []) (Some (spend_index (g_entries g))), Some {}) (g_entries g) = Inr (q, rs)"
    and s: "g_state g = ref_chain q" by (rule ledger_run)
  have "s_head (g_state g) = (if g_entries g = [] then genesis (s_unit (g_state g)) else entry_hash (last (g_entries g)))"
    using run_position [OF run] by (auto simp: s)
  then show "hex64 (s_head (g_state g))" using hex [OF last_in_set] genesis_hex by (cases "g_entries g = []") auto
  have "list_all (\<lambda>h. fromhex h \<noteq> None) (map entry_hash (g_entries g))"
    using hex by (fastforce simp: list_all_iff sha256_hex_def)
  then have "frontier_of [] 0 (map entry_hash (g_entries g)) = Inr (peaks (entry_leaves (map entry_hash (g_entries g))))"
    using frontier_of_peaks [of _ "[]"] by (simp add: peaks.simps [of "[]"])
  with pos(5) have "s_frontier (g_state g) = peaks (entry_leaves (map entry_hash (g_entries g)))" by simp
  then show "\<exists>ls. s_frontier (g_state g) = peaks ls \<and> s_length (g_state g) = length ls"
    using pos(1) by (intro exI [of _ "entry_leaves (map entry_hash (g_entries g))"]) (simp add: entry_leaves_def)
qed

lemma working_healthy:
  assumes "working n w g p" "v3_work g p"
    and "\<And>t. v_last_timestamp (p_view p) = Some t \<Longrightarrow> t \<le> now"
  shows "healthy now (view_abs (p_view p))"
proof -
  let ?r = "view_abs (p_view p)"
  note wf = working_ledger [OF assms(1)]
  have c: "s_head (ref_chain r) = s_head r" "s_frontier (ref_chain r) = s_frontier r" "s_length (ref_chain r) = s_length r" "grid_state (ref_chain r) = grid_state r"
    for r by (simp_all add: ref_chain_def chain_state.truncate_def grid_state_def chain_balance_def chain_spent_by_def)
  have "grid_state ?r" using ledger_grid [OF wf] assms(2) c(4) by (simp del: ref_chain_abs)
  moreover have "s_legacy ?r = []" using ledger_facts(2) [OF wf] by (simp add: chain_legacy del: ref_chain_abs)
  ultimately show ?thesis using ledger_head [OF wf] assms(3) by (simp add: healthy_def c view_abs_simps del: ref_chain_abs)
qed

lemma post_succeeds:
  assumes wk: "working n w g p" and v3: "v3_work g p" and ls: "ls \<noteq> []" "w_drawn w + 1 + length ls \<le> n"
    and takes: "\<And>now. takes (w_uuid w (w_drawn w)) now (view_abs (p_view p)) ls"
  shows "\<exists>w' p' es. post w p ls None = Inr (w', p', es) \<and> working n w' g p' \<and> v3_work g p' \<and> w_drawn w' = w_drawn w + 1 + length ls
    \<and> b_entries (p_batch p') = b_entries (p_batch p) @ es"
proof -
  let ?t = "w_uuid w (w_drawn w)" and ?v = "p_view p"
  define now where "now = (case v_last_timestamp ?v of None \<Rightarrow> w_now w (w_ticks w) | Some t \<Rightarrow> if w_now w (w_ticks w) < t then t else w_now w (w_ticks w))"
  let ?b = "\<lparr> u_world = w\<lparr> w_drawn := w_drawn w + 1, w_ticks := w_ticks w + 1 \<rparr>, u_running = [], u_prev_hash = v_head ?v,
    u_sequence = v_length ?v, u_built = [] \<rparr>"
  have k: "view_rel (g_state g) ?v (view_abs ?v)" "in_step (g_entries g @ b_entries (p_batch p)) (s_unit (g_state g)) (view_abs ?v)"
    "ledger_wf g" "fresh_world n w (g_entries g @ b_entries (p_batch p))"
    using wk by (simp_all add: working_def Let_def)
  have h: "healthy now (view_abs ?v)" by (rule working_healthy [OF wk v3]) (auto simp: now_def)
  have "matches ?v ?b (view_abs ?v)" using k(1) lookup_balance by (simp add: matches_def view_abs_simps view_rel_def dict_get_def)
  moreover have "r_txn (view_abs ?v) = None" using k(2) by (simp add: in_step_def)
  ultimately obtain b' es r' where run: "rfold (build_line ?v ?t now) ?b ls = Inr b'" "u_built b' = es"
    "rfold ref_write (view_abs ?v) es = Inr r'" "r_net r' = r_net (view_abs ?v)"
    using lines_step [OF _ h takes] by fastforce
  note built = build_run [OF run(1)]
  have ids: "map entry_id es = map (w_uuid w) [w_drawn w + 1 ..< w_drawn w + 1 + length ls]" "\<forall>e \<in> set es. transaction_id e = ?t"
    using built run(2) by auto
  have "fresh_holds (g_state g) es"
    using fresh_drawn(2) [OF k(4) ls(2) ids] ledger_hold_ids [OF k(3)] unfolding fresh_holds_def set_append image_Un by blast
  then have "map_sum id view_abs (rfold write_step ?v es) = Inr r'" using write_sim.run_sim [of "g_state g" ?v es] k(1) run(3) by simp
  then obtain v1 where v1: "rfold write_step ?v es = Inr v1" "view_abs v1 = r'" by (cases "rfold write_step ?v es") auto
  have "dec_eq (v_net v1) ZERO"
    using run(4) k(2) v1(2) net_like_zero by (auto simp: in_step_def view_abs_simps)
  then obtain v2 where v2: "end_transaction v1 = Inr v2" by (simp add: end_transaction_def)
  let ?p = "p\<lparr> p_view := v2, p_batch := (p_batch p)\<lparr> b_entries := b_entries (p_batch p) @ es \<rparr> \<rparr>"
  have post: "post w p ls None = Inr (u_world b', ?p, es)"
    using ls(1) run(1,2) v1(1) v2 by (simp add: post_def uuid4_def utcnow_def now_def Let_def cong: option.case_cong if_cong)
  note wr = post_written [OF post]
  have "w_drawn (u_world b') \<le> n" using wr(5) ls(2) by simp
  with post_working [OF wk post] post wr(3,5) v3 show ?thesis by auto
qed

end
