(* ===== verification/Operations.thy ===== *)
theory Operations
  imports Admission
begin

text \<open>
  What the methods of the governor do. \<open>grants\<close> lemmas say when a call succeeds, the others what it
  did if it returned and what it did if it raised.
\<close>

section \<open>Running acts\<close>

lemma abind_Inr: "abind a f m = (m', Inr y) \<longleftrightarrow> (\<exists>m1 x. a m = (m1, Inr x) \<and> f x m1 = (m', Inr y))"
  by (auto simp: abind_def split: prod.splits sum.splits)

lemma abind_Inl:
  "abind a f m = (m', Inl e) \<longleftrightarrow> a m = (m', Inl e) \<or> (\<exists>m1 x. a m = (m1, Inr x) \<and> f x m1 = (m', Inl e))"
  by (auto simp: abind_def split: prod.splits sum.splits)

lemma abind_run: "a m = (m1, Inr x) \<Longrightarrow> abind a f m = f x m1"
  by (simp add: abind_def)

lemma abind_raise: "a m = (m1, Inl e) \<Longrightarrow> abind a f m = (m1, Inl e)"
  by (simp add: abind_def)

lemma run_simps:
  "ret x m = (m', Inr y) \<longleftrightarrow> m' = m \<and> y = x" "ret x m \<noteq> (m', Inl e)"
  "raise e m \<noteq> (m', Inr y)" "raise e m = (m', Inl e') \<longleftrightarrow> m' = m \<and> e' = e"
  "pure r m = (m', s) \<longleftrightarrow> m' = m \<and> r = s"
  "asks g m = (m', Inr z) \<longleftrightarrow> m' = m \<and> z = g m" "asks g m \<noteq> (m', Inl e)"
  "guard b e m = (m', Inr u) \<longleftrightarrow> \<not> b \<and> m' = m" "guard b e m = (m', Inl e') \<longleftrightarrow> b \<and> m' = m \<and> e' = e"
  "start_work m = (m', Inr p) \<longleftrightarrow> m' = m \<and> p = begin_work (m_ledger m)" "start_work m \<noteq> (m', Inl e)"
  "called None kind op args m = (m', Inr c) \<longleftrightarrow> m' = m \<and> c = None" "called None kind op args m \<noteq> (m', Inl e)"
  by (auto simp: ret_def raise_def pure_def asks_def guard_def start_work_def called_def)

text \<open>Leaving a mutation.\<close>

definition left :: "manager \<Rightarrow> manager \<Rightarrow> manager" where
  "left m m1 = (if 0 < m_depth m then m1
     else let m2 = m1\<lparr> m_depth := m_depth m1 - 1 \<rparr> in if m_depth m2 = 0 then m2\<lparr> m_unit_calls := [] \<rparr> else m2)"

definition entered :: "manager \<Rightarrow> manager" where
  "entered m = (if 0 < m_depth m then m else m\<lparr> m_depth := m_depth m + 1 \<rparr>)"

lemma mutating_run: "mutating a m = (let (m1, r) = a (entered m) in (left m m1, r))"
  by (simp add: mutating_def entered_def left_def Let_def split: prod.split)

lemma mutating_iff: "mutating a m = (m', r) \<longleftrightarrow> (\<exists>m1. a (entered m) = (m1, r) \<and> m' = left m m1)"
  by (auto simp: mutating_run split: prod.splits)

lemma left_simps [simp]:
  "m_ledger (left m m1) = m_ledger m1" "m_world (left m m1) = m_world m1" "m_policy (left m m1) = m_policy m1"
  "m_transaction (left m m1) = m_transaction m1" "core (left m m1) = core m1"
  by (simp_all add: left_def Let_def core_def)

lemma entered_simps [simp]:
  "m_ledger (entered m) = m_ledger m" "m_world (entered m) = m_world m" "m_policy (entered m) = m_policy m"
  "m_transaction (entered m) = m_transaction m" "core (entered m) = core m" "0 < m_depth (entered m)"
  by (simp_all add: entered_def core_def)

lemma gov_ok_core: "core m' = core m \<Longrightarrow> gov_ok n m' = gov_ok n m"
  by (auto simp: core_def gov_ok_def fresh_world_def)

lemma remember_simps [simp]:
  "m_ledger (remember es m) = m_ledger m" "m_world (remember es m) = m_world m" "m_policy (remember es m) = m_policy m"
  "m_transaction (remember es m) = m_transaction m" "m_depth (remember es m) = m_depth m"
  by (simp_all add: remember_def)

section \<open>What one more entry does\<close>

definition one_more :: "ledger \<Rightarrow> ledger_entry \<Rightarrow> ledger \<Rightarrow> bool" where
  "one_more g e g' \<longleftrightarrow> ledger_wf g \<and> ledger_wf g' \<and> g_entries g' = g_entries g @ [e] \<and> s_unit (g_state g') = s_unit (g_state g)"

lemma one_more_run:
  assumes "one_more g e g'"
  obtains q rs q' rs' where "ref_apply q e True rs False = Inr (q', rs')" "ref_chain q = g_state g" "ref_chain q' = g_state g'"
    "s_legacy q = []"
proof -
  from assms have wf: "ledger_wf g" "ledger_wf g'" "g_entries g' = g_entries g @ [e]" "s_unit (g_state g') = s_unit (g_state g)"
    by (simp_all add: one_more_def)
  from wf obtain q rs q' rs' where run: "rfold (ref_step True False) (q, rs) [e] = Inr (q', rs')"
    "ref_chain q = g_state g" "ref_chain q' = g_state g'" by (rule extends_run)
  moreover have "s_legacy q = []" using ledger_facts(2) [OF wf(1)] by (simp add: chain_legacy flip: run(2))
  ultimately show thesis using that by (auto simp: ref_step_app)
qed

lemma one_more_balance:
  "one_more g e g' \<Longrightarrow> dval (ledger_balance g' k) = dval (ledger_balance g k) + (if scope_id e = k then dval (signed_amount e) else 0)"
  using ledger_money [of g g' "[e]" k] by (simp add: one_more_def moved_def)

lemma one_more_holds:
  assumes "one_more g e g'" "version e = AUDIT_V3"
  shows "entry_type e = HOLD \<Longrightarrow> s_holds (g_state g') = AList.update (entry_id e) e (s_holds (g_state g))"
    and "entry_type e = HOLD_VOID \<Longrightarrow> \<exists>h hold. ref e = Some h \<and> map_of (s_holds (g_state g)) h = Some hold
      \<and> scope_id hold = scope_id e \<and> dval (amount hold) = dval (amount e) \<and> s_holds (g_state g') = AList.delete h (s_holds (g_state g))"
    and "entry_type e \<notin> {HOLD, HOLD_VOID} \<Longrightarrow> s_holds (g_state g') = s_holds (g_state g)"
proof -
  from assms(1) obtain q rs q' rs' where run: "ref_apply q e True rs False = Inr (q', rs')"
    and c: "ref_chain q = g_state g" "ref_chain q' = g_state g'" by (rule one_more_run)
  from run obtain x x' where x: "hold_part x = hold_part q" "ref_check_holds x e rs = Inr (x', rs')" "hold_part q' = hold_part x'"
    by (rule apply_hold_part)
  have h: "s_holds x = s_holds (g_state g)" "s_holds x' = s_holds (g_state g')"
    using x c by (auto simp: hold_part_def simp flip: c)
  show "s_holds (g_state g') = AList.update (entry_id e) e (s_holds (g_state g))" if "entry_type e = HOLD"
    using x(2) that h by (auto simp: ref_check_holds_def ref_open_def split: if_splits)
  show "\<exists>h hold. ref e = Some h \<and> map_of (s_holds (g_state g)) h = Some hold
      \<and> scope_id hold = scope_id e \<and> dval (amount hold) = dval (amount e) \<and> s_holds (g_state g') = AList.delete h (s_holds (g_state g))"
    if "entry_type e = HOLD_VOID"
    using x(2) that h assms(2)
    by (auto simp: ref_check_holds_def ref_release_named_def ref_close_def dec_eq_iff split: if_splits option.splits)
  show "s_holds (g_state g') = s_holds (g_state g)" if "entry_type e \<notin> {HOLD, HOLD_VOID}"
  proof -
    have "s_holds x' = s_holds x" using x(2) that
      by (auto simp: ref_check_holds_def Let_def ref_reverse_named_def split: if_splits option.splits)
    with h show ?thesis by simp
  qed
qed

lemma one_more_trips:
  assumes "one_more g e g'"
  shows "entry_type e = CIRCUIT_TRIPPED \<Longrightarrow> s_tripped (g_state g') = (s_tripped (g_state g))(scope_id e \<mapsto> (timestamp e, memo e))"
    and "entry_type e = CIRCUIT_RESET \<Longrightarrow> s_tripped (g_state g') = (s_tripped (g_state g))(scope_id e := None)"
    and "entry_type e \<notin> {CIRCUIT_TRIPPED, CIRCUIT_RESET} \<Longrightarrow> s_tripped (g_state g') = s_tripped (g_state g)"
proof -
  from assms obtain q rs q' rs' where run: "ref_apply q e True rs False = Inr (q', rs')"
    and c: "ref_chain q = g_state g" "ref_chain q' = g_state g'" "s_legacy q = []" by (rule one_more_run)
  from run obtain x x' where x: "tree_part x = tree_part q" "config_part x = config_part q" "ref_check_governance x e = Inr x'" "tree_part q' = tree_part x'"
    by (rule apply_tree_part)
  have t: "s_tripped x = s_tripped (g_state g)" "s_tripped x' = s_tripped (g_state g')" "s_legacy x = []"
    using x c by (auto simp: tree_part_def config_part_def simp flip: c(1,2))
  from x(3) obtain y where y: "ref_fold_legacy x e = Inr y" and k: "(let kind = entry_type e in
       if kind = FUNDING then ref_fund_scope y e else if kind = ALLOCATION then ref_allocate y e
       else if kind = RELEASE then rbind (ref_release_between y e) (\<lambda>_. Inr y)
       else if control_type kind then ref_control y (entry_type_value kind) (scope_id e) (timestamp e) (memo e)
       else if \<not> scopeless_type kind then rbind (ref_require y (scope_id e)) (\<lambda>_. Inr y)
       else Inr y) = Inr x'" unfolding ref_check_governance_def by auto
  have fold: "s_tripped y = s_tripped x" using y t(3) by (auto simp: ref_fold_legacy_def ref_apply_legacy_def split: if_splits)
  show "s_tripped (g_state g') = (s_tripped (g_state g))(scope_id e \<mapsto> (timestamp e, memo e))" if "entry_type e = CIRCUIT_TRIPPED"
    using k that fold t by (auto simp: control_type_def ref_control_def split: option.splits)
  show "s_tripped (g_state g') = (s_tripped (g_state g))(scope_id e := None)" if "entry_type e = CIRCUIT_RESET"
    using k that fold t by (auto simp: control_type_def ref_control_def split: option.splits)
  have "ref_fund_scope y e = Inr x' \<Longrightarrow> s_tripped x' = s_tripped y" "ref_allocate y e = Inr x' \<Longrightarrow> s_tripped x' = s_tripped y"
    by (auto simp: ref_fund_scope_def ref_allocate_def Let_def split: if_splits option.splits)
  then show "s_tripped (g_state g') = s_tripped (g_state g)" if "entry_type e \<notin> {CIRCUIT_TRIPPED, CIRCUIT_RESET}"
    using k that fold t unfolding Let_def control_type_def by (auto split: if_splits)
qed

section \<open>A unit of work of one posting\<close>

lemma posted:
  assumes ok: "gov_ok n m" and p: "posting (begin_work (m_ledger m)) ls m = (m1, Inr (p, es))"
    and c: "commit (m_ledger m) (p\<lparr> p_batch := (p_batch p)\<lparr> b_idempotency := k \<rparr> \<rparr>) = Inr g" and n: "w_drawn (m_world m1) \<le> n"
  shows "m_ledger m1 = m_ledger m" "list_all2 line_entry ls es" "\<forall>e \<in> set es. version e = AUDIT_V3"
    "gov_ok n (m1\<lparr> m_ledger := g \<rparr>)" "g_entries g = g_entries (m_ledger m) @ es" "s_unit (g_state g) = m_unit m"
    "b_entries (p_batch p) = es" "m1 = m\<lparr> m_world := m_world m1 \<rparr>" "w_drawn (m_world m) \<le> w_drawn (m_world m1)"
proof -
  obtain w where post: "post (m_world m) (begin_work (m_ledger m)) ls None = Inr (w, p, es)" and m1: "m1 = m\<lparr> m_world := w \<rparr>"
    using p by (auto simp: posting_def split: sum.splits)
  have "working n (m_world m) (m_ledger m) (begin_work (m_ledger m))" using ok by (intro begin_working) (simp_all add: gov_ok_def)
  then have wk: "working n w (m_ledger m) p" by (rule post_working [OF _ post]) (use n m1 in simp)
  then have wk': "working n w (m_ledger m) (p\<lparr> p_batch := (p_batch p)\<lparr> b_idempotency := k \<rparr> \<rparr>)" by simp
  note cw = commit_wf [OF wk' c]
  show "list_all2 line_entry ls es" by (rule post_lines [OF post])
  show "\<forall>e \<in> set es. version e = AUDIT_V3" using post_written(3) [OF post] by blast
  show es: "b_entries (p_batch p) = es" using post by (rule post_cases) (simp add: begin_work_def empty_batch_def)
  show "g_entries g = g_entries (m_ledger m) @ es" "s_unit (g_state g) = m_unit m" using cw es by simp_all
  show "gov_ok n (m1\<lparr> m_ledger := g \<rparr>)"
    using ok cw commit_auths [OF _ wk' c] m1 by (auto simp: gov_ok_def)
  show "m_ledger m1 = m_ledger m" "m1 = m\<lparr> m_world := m_world m1 \<rparr>" "w_drawn (m_world m) \<le> w_drawn (m_world m1)"
    using m1 post_written(5) [OF post] by simp_all
qed

lemma commit_any: "working n w g p \<Longrightarrow> \<exists>g'. commit g (p\<lparr> p_batch := (p_batch p)\<lparr> b_idempotency := k \<rparr> \<rparr>) = Inr g'"
  by (rule commit_total) simp

lemma commit_only_as: "commit_only p m = abind (commit_call p None e) (\<lambda>_. ret ()) m"
proof -
  have "p\<lparr> p_batch := (p_batch p)\<lparr> b_idempotency := b_idempotency (p_batch p) \<rparr> \<rparr> = p" by simp
  then show ?thesis by (simp add: commit_only_def commit_call_def abind_def ret_def Let_def split: sum.split)
qed

lemma commit_call_Inr:
  assumes "commit_call p c e m = (m', Inr rec)"
  obtains g k where "commit (m_ledger m) (p\<lparr> p_batch := (p_batch p)\<lparr> b_idempotency := k \<rparr> \<rparr>) = Inr g"
    "m' = remember (b_entries (p_batch p)) (m\<lparr> m_ledger := g \<rparr>)" "rec = None \<longleftrightarrow> c = None"
  using assms that by (auto simp: commit_call_def Let_def split: sum.splits)

text \<open>The whole of it: from a governor in order to one with the new entries.\<close>

definition wrote :: "nat \<Rightarrow> manager \<Rightarrow> ledger_entry list \<Rightarrow> manager \<Rightarrow> bool" where
  "wrote n m es m' \<longleftrightarrow> gov_ok n m \<and> gov_ok n m' \<and> m_unit m' = m_unit m \<and> g_entries (m_ledger m') = g_entries (m_ledger m) @ es
     \<and> (\<forall>e \<in> set es. version e = AUDIT_V3) \<and> w_drawn (m_world m) \<le> w_drawn (m_world m') \<and> m_policy m' = m_policy m"

lemma work_done:
  assumes ok: "gov_ok n m" and p: "posting (begin_work (m_ledger m)) ls m = (m1, Inr (p, es))"
    and c: "commit_call p call e m1 = (m', Inr rec)" and n: "w_drawn (m_world m') \<le> n"
  shows "wrote n m es m'" "list_all2 line_entry ls es" "m_transaction m' = m_transaction m" "m_depth m' = m_depth m"
proof -
  obtain w where m1: "m1 = m\<lparr> m_world := w \<rparr>" using p by (auto simp: posting_def split: sum.splits)
  from c obtain g k where g: "commit (m_ledger m) (p\<lparr> p_batch := (p_batch p)\<lparr> b_idempotency := k \<rparr> \<rparr>) = Inr g"
    "m' = remember (b_entries (p_batch p)) (m1\<lparr> m_ledger := g \<rparr>)" by (rule commit_call_Inr) (simp add: m1)
  have "w_drawn (m_world m1) \<le> n" using n g by simp
  note d = posted [OF ok p g(1) this]
  have "core m' = core (m1\<lparr> m_ledger := g \<rparr>)" using g(2) by simp
  then have "gov_ok n m'" using d(4) gov_ok_core by blast
  then show "wrote n m es m'" using d ok g(2) m1 by (simp add: wrote_def)
  show "list_all2 line_entry ls es" by (rule d(2))
  show "m_transaction m' = m_transaction m" "m_depth m' = m_depth m" using g(2) m1 by simp_all
qed

lemma wrote_one: "wrote n m [e] m' \<Longrightarrow> one_more (m_ledger m) e (m_ledger m') \<and> version e = AUDIT_V3"
  by (simp add: wrote_def one_more_def gov_ok_def)

lemma wrote_core: "core m1 = core m \<Longrightarrow> m_policy m1 = m_policy m \<Longrightarrow> core m' = core m2 \<Longrightarrow> m_policy m' = m_policy m2 \<Longrightarrow>
    wrote n m1 es m2 \<longleftrightarrow> wrote n m es m'"
  by (auto simp: wrote_def gov_ok_core [of m1 m] gov_ok_core [of m' m2]) (auto simp: core_def)

lemma wrote_balance: "wrote n m [e] m' \<Longrightarrow> dval (m_balance m' k) = dval (m_balance m k) + (if scope_id e = k then dval (signed_amount e) else 0)"
  using wrote_one one_more_balance by blast

text \<open>When it succeeds.\<close>

lemma work_succeeds:
  assumes ok: "gov_ok n m" and v3: "\<forall>e \<in> set (g_entries (m_ledger m)). version e = AUDIT_V3"
    and ls: "ls \<noteq> []" "w_drawn (m_world m) + 1 + length ls \<le> n"
    and takes: "\<And>now t F. takes t now (ref_start (m_state m) F) ls"
  shows "\<exists>m1 p es m' rec. posting (begin_work (m_ledger m)) ls m = (m1, Inr (p, es)) \<and> commit_call p call e m1 = (m', Inr rec)
    \<and> w_drawn (m_world m') = w_drawn (m_world m) + 1 + length ls"
proof -
  have wk: "working n (m_world m) (m_ledger m) (begin_work (m_ledger m))" using ok by (intro begin_working) (simp_all add: gov_ok_def)
  have v: "view_abs (p_view (begin_work (m_ledger m))) = ref_start (m_state m) (Some (ledger_resolve (g_entries (m_ledger m))))"
    by (simp add: begin_work_def view_abs_new)
  have "v3_work (m_ledger m) (begin_work (m_ledger m))" using v3 by (simp add: begin_work_def empty_batch_def)
  from post_succeeds [OF wk this ls] takes v obtain w' p es where
    post: "post (m_world m) (begin_work (m_ledger m)) ls None = Inr (w', p, es)" "working n w' (m_ledger m) p" "w_drawn w' = w_drawn (m_world m) + 1 + length ls"
    by auto
  have "\<exists>m' rec. commit_call p call e (m\<lparr> m_world := w' \<rparr>) = (m', Inr rec) \<and> w_drawn (m_world m') = w_drawn w'"
  proof -
    define k where "k = b_idempotency (p_batch p) @ (case map_option (\<lambda>c. \<lparr> k_key = q_key c, k_request = q_request c, k_outcome = q_outcome c,
         k_sequence = sequence e, k_created_at = timestamp e \<rparr>) call of None \<Rightarrow> [] | Some r \<Rightarrow> [r])"
    obtain g where "commit (m_ledger m) (p\<lparr> p_batch := (p_batch p)\<lparr> b_idempotency := k \<rparr> \<rparr>) = Inr g"
      using commit_any [OF post(2)] by blast
    then show ?thesis by (simp add: commit_call_def Let_def k_def)
  qed
  then show ?thesis using post(1,3) by (simp add: posting_def)
qed

section \<open>Authorizing\<close>

lemma velocity_Inr:
  "record_velocity k m = (m', Inr x) \<Longrightarrow> core m' = core m \<and> m_policy m' = m_policy m \<and> m_transaction m' = m_transaction m \<and> m_depth m' = m_depth m"
  unfolding record_velocity_def Let_def
  by (auto simp: abind_Inr run_simps modify_def now_minus_def utcnow_def monotonic_def core_def Let_def split: if_splits)

lemma auths_hold: "gov_ok n m \<Longrightarrow> map_of (g_open_auths (m_ledger m)) i = map_option authorization_for (map_of (s_holds (m_state m)) i)"
  by (simp add: gov_ok_def auths_match_def on_values_def map_of_map)

lemma assert_not_halted_Inr: "assert_not_halted k m = (m', Inr x) \<longleftrightarrow> m' = m \<and> halted_at m k = Inr None"
  by (cases "halted_at m k") (auto simp: assert_not_halted_def split: option.splits)

lemma require_node_Inr: "require_node k m = (m', Inr x) \<longleftrightarrow> m' = m \<and> map_of (s_nodes (m_state m)) k = Some x"
  by (auto simp: require_node_def split: option.splits)

lemma halted_core: "core m' = core m \<Longrightarrow> halted_at m' k = halted_at m k"
  by (simp add: halted_at_def core_def)

lemma line_simps [simp]:
  "l_entry_type (line t d k a c why r) = t" "l_direction (line t d k a c why r) = d" "l_scope_id (line t d k a c why r) = k"
  "l_amount (line t d k a c why r) = a" "l_counterparty_id (line t d k a c why r) = c" "l_memo (line t d k a c why r) = why"
  "l_ref (line t d k a c why r) = r"
  by (simp_all add: line_def)

lemma line_amount: "check_line l = Inr a \<Longrightarrow> dval a = dval (l_amount l)"
  by (auto simp: check_line_def dec_eq_iff split: if_splits)

lemma answered_core:
  "answered rec x m = (m', r) \<Longrightarrow> core m' = core m \<and> m_policy m' = m_policy m \<and> m_transaction m' = m_transaction m \<and> m_depth m' = m_depth m"
  by (auto simp: answered_def ret_def modify_def core_def split: option.splits)

lemma authorize_or_Inr:
  assumes ok: "gov_ok n m" and run: "authorize_or k num why None trips m = (m', Inr (Some a))" and n: "w_drawn (m_world m') \<le> n"
  shows "\<exists>held e. cost num (m_unit m) = Inr held \<and> 0 < dval held \<and> dval held \<le> dval (m_balance m k) \<and> halted_at m k = Inr None
    \<and> wrote n m [e] m' \<and> line_entry (line HOLD DEBIT k held None (or_else why (lit ''authorization hold'')) None) e
    \<and> a = authorization_for e \<and> m_transaction m' = m_transaction m"
proof -
  let ?l = "\<lambda>held. line HOLD DEBIT k held None (or_else why (lit ''authorization hold'')) None"
  from run obtain held nd m1 m2 p es m3 rec m4 where c: "cost num (m_unit m) = Inr held" "\<not> dec_le held ZERO"
    and nd: "map_of (s_nodes (m_state m)) k = Some nd" "halted_at (entered m) k = Inr None" "record_velocity k (entered m) = (m1, Inr ())"
    and enough: "\<not> dec_lt (m_balance m1 k) held"
    and w: "posting (begin_work (m_ledger m1)) [?l held] m1 = (m2, Inr (p, es))"
    "commit_call p None (hd es) m2 = (m3, Inr rec)" "map_of (g_open_auths (m_ledger m3)) (entry_id (hd es)) = Some a"
    "answered rec (Out_Auth a) m3 = (m4, Inr ())" and m': "m' = left m m4"
    unfolding authorize_or_def
    by (auto simp: abind_Inr run_simps mutating_iff replayed_call_def require_node_Inr assert_not_halted_Inr
        split: if_splits option.splits)
  have v: "core m1 = core m" "m_policy m1 = m_policy m" and tr: "m_transaction m1 = m_transaction m" using velocity_Inr [OF nd(3)] by simp_all
  have ok1: "gov_ok n m1" using ok gov_ok_core v(1) by blast
  note an = answered_core [OF w(4)]
  have d: "w_drawn (m_world m3) \<le> n" using n m' an by (simp add: core_def)
  note wd = work_done [OF ok1 w(1,2) d]
  obtain e where e: "es = [e]" "line_entry (?l held) e" using wd(2) by (auto simp: list_all2_Cons1)
  have one: "wrote n m [e] m'" using wd(1) e(1) wrote_core [OF v, of m' m3] m' an by simp
  have "map_of (s_holds (m_state m')) (entry_id e) = Some e"
    using one_more_holds(1) [of "m_ledger m" e "m_ledger m'"] wrote_one [OF one] e(2) by (simp add: line_entry_def)
  then have "a = authorization_for e" using w(3) e(1) auths_hold [of n m' "entry_id e"] one m' an by (simp add: wrote_def core_def)
  moreover have "m_balance m1 k = m_balance m k" using v by (simp add: core_def)
  moreover have "m_transaction m' = m_transaction m" using tr wd(3) an m' by simp
  ultimately show ?thesis
    using c enough nd(2) one e(2) halted_core [of "entered m" m] by (auto simp: dec_le_iff dec_lt_iff)
qed

section \<open>Amounts a caller may name\<close>

text \<open>A whole number of the unit's quanta, at most the maximum.\<close>

definition unit_amount :: "unit_of_account \<Rightarrow> decimal \<Rightarrow> bool" where
  "unit_amount u a \<longleftrightarrow> expo a = QUANTUM_EXP \<and> (\<exists>c. dval a = of_int c * 10 powi quantum_exp u) \<and> 0 < dval a \<and> dval a \<le> 10 ^ 12"

lemma quanta_le:
  assumes "of_int c * (10::rat) powi q < 10 ^ 12 + 10 powi q" "q \<le> 0"
  shows "of_int c * (10::rat) powi q \<le> 10 ^ 12"
proof -
  have t: "(10::rat) ^ 12 = of_int (10 ^ nat (12 - q)) * 10 powi q"
    using powi_less [of q 12] assms(2) by simp
  then have "(of_int c :: rat) * 10 powi q < of_int (10 ^ nat (12 - q) + 1) * 10 powi q"
    using assms(1) by (simp add: algebra_simps)
  then have "(of_int c :: rat) < of_int (10 ^ nat (12 - q) + 1)" by (simp only: mult_less_cancel_right) (simp add: less_le)
  then have "c \<le> 10 ^ nat (12 - q)" by linarith
  then have "(of_int c :: rat) \<le> of_int (10 ^ nat (12 - q))" by (simp only: of_int_le_iff)
  then show ?thesis unfolding t by (intro mult_right_mono) simp_all
qed

lemma cost_amount:
  assumes "unit_wf u" "cost v u = Inr a" "0 < dval a"
  shows "unit_amount u a"
proof -
  note q = quantum_exp_bounds [OF assms(1)]
  from coerce_Inr [OF assms(2) [unfolded cost_def]] q obtain d where d: "\<bar>dval d\<bar> \<le> 10 ^ 12" "expo a = - 8"
    "dval a = dval (fst (quantize d (quantum_exp u) ROUND_CEILING))" by auto
  define c where "c = coeff (fst (quantize d (quantum_exp u) ROUND_CEILING))"
  have a: "dval a = of_int c * 10 powi quantum_exp u" using d(3) by (simp add: dval_def c_def)
  moreover have "dval a < 10 ^ 12 + 10 powi quantum_exp u" using quantize_ceiling(2) [of d "quantum_exp u"] d(1,3) by linarith
  ultimately have "dval a \<le> 10 ^ 12" using quanta_le q by simp
  then show ?thesis using a d(2) assms(3) by (auto simp: unit_amount_def QUANTUM_EXP_def)
qed

lemma unit_amount_counted:
  assumes "unit_amount u a" "unit_wf u"
  shows "counted a u = Inr True"
proof (cases "places u = 8")
  case False
  define q where "q = quantum_exp u"
  have q: "QUANTUM_EXP < q" "q \<le> 0" using False assms(2) by (auto simp: q_def quantum_exp_def unit_wf_def QUANTUM_EXP_def)
  from assms(1) obtain c where c: "dval a = of_int c * 10 powi q" "expo a = QUANTUM_EXP" "0 < dval a" "dval a \<le> 10 ^ 12"
    by (auto simp: unit_amount_def q_def)
  have "(of_int (coeff a) :: rat) * 10 powi QUANTUM_EXP = of_int (c * 10 ^ nat (q - QUANTUM_EXP)) * 10 powi QUANTUM_EXP"
    using c(1,2) powi_less [of QUANTUM_EXP q] q(1) by (simp add: dval_def)
  then have coeff: "coeff a = c * 10 ^ nat (q - QUANTUM_EXP)" by (simp only: mult_cancel_right of_int_eq_iff) simp
  then have quant: "fst (quantize a q ROUND_HALF_EVEN) = Dec c q"
    using q(1) c(2) by (simp add: quantize_def Let_def round_div_def)
  have "quanta (dval a) (coeff a)" using c(2) by (simp add: quanta_def dval_def)
  moreover have "\<bar>dval a\<bar> < 10 ^ 42" using c(3,4) by simp
  ultimately have "\<bar>coeff a\<bar> < 10 ^ 50" by (rule quanta_bound)
  moreover have "\<bar>c\<bar> * 1 \<le> \<bar>c\<bar> * 10 ^ nat (q - QUANTUM_EXP)" by (intro mult_left_mono) simp_all
  ultimately have "\<bar>c\<bar> < 10 ^ 50" by (simp add: coeff abs_mult)
  then have "num_digits c \<le> PREC" by (simp add: PREC_def num_digits_le)
  moreover have "dec_eq a (Dec c q)" using c(1) by (simp add: dec_eq_iff dval_def)
  ultimately show ?thesis using False quant by (simp add: counted_def q_def [symmetric])
qed (simp add: counted_def)

lemma amount_line:
  assumes "unit_amount u (l_amount l)" "l_direction l \<in> set (legal_directions (l_entry_type l))" "\<not> zero_value_type (l_entry_type l)"
    and "l_ref l \<noteq> None \<Longrightarrow> v3_referencing_type (l_entry_type l)" "l_counterparty_id l = None"
    and "check_text (l_scope_id l) MAX_ID_BYTES True = None" "check_text (l_memo l) MAX_MEMO_BYTES False = None"
  shows "check_line l = Inr (l_amount l)"
proof -
  have a: "expo (l_amount l) = QUANTUM_EXP" "0 < dval (l_amount l)" "dval (l_amount l) \<le> 10 ^ 12"
    using assms(1) by (simp_all add: unit_amount_def)
  have "coerce (ArgDecimal (Finite (l_amount l))) ROUND_FLOOR QUANTUM_EXP = Inr (l_amount l)"
    using a quantize_id [OF a(1)] by (simp add: coerce_def as_decimal_def dec_lt_iff dval_MAX_AMOUNT)
  then show ?thesis using assms(2-) a(2) by (cases "l_ref l") (auto simp: check_line_def dec_eq_refl dec_le_iff)
qed

text \<open>Room left for one more amount.\<close>

definition roomy :: "manager \<Rightarrow> scope_id \<Rightarrow> rat \<Rightarrow> bool" where
  "roomy m k a \<longleftrightarrow> list_all (\<lambda>x. \<bar>dval x\<bar> + a < 10 ^ 42)
     [m_balance m k, chain_spent_by (m_state m) k, t_holds_open (s_totals (m_state m)), t_spent (s_totals (m_state m))]"

lemma start_fields:
  "s_nodes (ref_start s F) = s_nodes s" "s_unit (ref_start s F) = s_unit s" "s_holds (ref_start s F) = s_holds s"
  "s_totals (ref_start s F) = s_totals s" "chain_balance (ref_start s F) k = chain_balance s k" "chain_spent_by (ref_start s F) k = chain_spent_by s k"
  by (simp_all add: ref_start_def chain_state.extend_def chain_balance_def chain_spent_by_def)

lemma takes_one:
  assumes "plain_type (l_entry_type l)" "check_line l = Inr a" "l_scope_id l \<noteq> []" "map_of (s_nodes (m_state m)) (l_scope_id l) \<noteq> None"
    and "\<not> zero_value_type (l_entry_type l) \<Longrightarrow> counted a (m_unit m) = Inr True"
    and "case l_ref l of None \<Rightarrow> l_entry_type l \<noteq> HOLD_VOID
        | Some h \<Rightarrow> l_entry_type l = HOLD_VOID \<and> (\<exists>hold. map_of (s_holds (m_state m)) h = Some hold \<and> scope_id hold = l_scope_id l \<and> dval (amount hold) = dval a)"
    and "roomy m (l_scope_id l) \<bar>dval a\<bar>"
  shows "takes t now (ref_start (m_state m) F) [l]"
proof -
  have "line_fits (ref_start (m_state m) F) l a"
    unfolding line_fits_def start_fields using assms
    by (auto simp: roomy_def ledger_balance_def chain_balance_def split: option.splits)
  then show ?thesis by auto
qed

section \<open>Calls that succeed\<close>

text \<open>A governor over AGOV3 entries, outside any transaction, with \<open>j\<close> ids left to draw.\<close>

definition at_rest :: "nat \<Rightarrow> nat \<Rightarrow> manager \<Rightarrow> bool" where
  "at_rest n j m \<longleftrightarrow> gov_ok n m \<and> (\<forall>e \<in> set (g_entries (m_ledger m)). version e = AUDIT_V3)
     \<and> w_drawn (m_world m) + j \<le> n \<and> unit_wf (m_unit m)"

lemma at_rest_core: "core m' = core m \<Longrightarrow> at_rest n j m' = at_rest n j m"
  using gov_ok_core [of m' m n] by (auto simp: at_rest_def core_def)

lemma wrote_at_rest: "at_rest n j m \<Longrightarrow> wrote n m es m' \<Longrightarrow> w_drawn (m_world m') + i \<le> w_drawn (m_world m) + j \<Longrightarrow> at_rest n i m'"
  by (auto simp: at_rest_def wrote_def)

definition named_scope :: "manager \<Rightarrow> scope_id \<Rightarrow> bool" where
  "named_scope m k \<longleftrightarrow> k \<noteq> [] \<and> check_text k MAX_ID_BYTES True = None \<and> map_of (s_nodes (m_state m)) k \<noteq> None"

lemma commit_call_any: "commit_call p None x = commit_call p None y"
  by (simp add: commit_call_def fun_eq_iff)

lemma one_line_succeeds:
  assumes rest: "at_rest n 2 m" and l: "plain_type (l_entry_type l)" "check_line l = Inr a" "named_scope m (l_scope_id l)"
    and "\<not> zero_value_type (l_entry_type l) \<Longrightarrow> counted a (m_unit m) = Inr True"
    and "case l_ref l of None \<Rightarrow> l_entry_type l \<noteq> HOLD_VOID
        | Some h \<Rightarrow> l_entry_type l = HOLD_VOID \<and> (\<exists>hold. map_of (s_holds (m_state m)) h = Some hold \<and> scope_id hold = l_scope_id l \<and> dval (amount hold) = dval a)"
    and "roomy m (l_scope_id l) \<bar>dval a\<bar>"
  obtains m1 p e m' where "posting (begin_work (m_ledger m)) [l] m = (m1, Inr (p, [e]))" "commit_call p None e m1 = (m', Inr None)"
    "wrote n m [e] m'" "line_entry l e" "amount e = a" "w_drawn (m_world m') = w_drawn (m_world m) + 2"
    "m_transaction m' = m_transaction m" "m_depth m' = m_depth m"
proof -
  have r: "gov_ok n m" "\<forall>e \<in> set (g_entries (m_ledger m)). version e = AUDIT_V3" "w_drawn (m_world m) + 1 + length [l] \<le> n"
    using rest by (simp_all add: at_rest_def)
  have t: "takes t now (ref_start (m_state m) F) [l]" for t now F
    using l(3) by (intro takes_one [where a = a] assms) (auto simp: named_scope_def)
  from work_succeeds [OF r(1,2) _ r(3), where call = None and e = undefined] t obtain m1 p es m' rec where
    w: "posting (begin_work (m_ledger m)) [l] m = (m1, Inr (p, es))" "commit_call p None undefined m1 = (m', Inr rec)"
      "w_drawn (m_world m') = w_drawn (m_world m) + 2" by auto
  have "rec = None" using w(2) by (auto elim: commit_call_Inr)
  have "w_drawn (m_world m') \<le> n" using w(3) r(3) by simp
  note d = work_done [OF r(1) w(1,2) this]
  obtain e where e: "es = [e]" "line_entry l e" using d(2) by (auto simp: list_all2_Cons1)
  have "amount e = a" using e(2) l(2) by (simp add: line_entry_def)
  moreover have "commit_call p None e m1 = (m', Inr None)" using w(2) \<open>rec = None\<close> commit_call_any by metis
  ultimately show thesis using that w d e by simp
qed

lemma authorize_succeeds:
  assumes rest: "at_rest n 2 m" and k: "named_scope m k" "halted_at m k = Inr None"
    and x: "cost num (m_unit m) = Inr held" "0 < dval held" "dval held \<le> dval (m_balance m k)" "roomy m k (dval held)"
    and v: "snd (record_velocity k (entered m)) = Inr ()" and t: "check_text (or_else why (lit ''authorization hold'')) MAX_MEMO_BYTES False = None"
  shows "\<exists>m' a. authorize k num why None m = (m', Inr a) \<and> w_drawn (m_world m') = w_drawn (m_world m) + 2"
proof -
  let ?l = "line HOLD DEBIT k held None (or_else why (lit ''authorization hold'')) None"
  obtain m1 where v1: "record_velocity k (entered m) = (m1, Inr ())" using v by (cases "record_velocity k (entered m)") auto
  have c: "core m1 = core m" "m_policy m1 = m_policy m" using velocity_Inr [OF v1] by simp_all
  have l: "m_ledger m1 = m_ledger m" "w_drawn (m_world m1) = w_drawn (m_world m)" using c by (simp_all add: core_def)
  have u: "unit_wf (m_unit m)" using rest by (simp add: at_rest_def)
  have am: "unit_amount (m_unit m) held" using cost_amount [OF u x(1,2)] .
  have ch: "check_line ?l = Inr held"
    using amount_line [of "m_unit m" ?l] am k(1) t by (simp add: zero_value_type_def named_scope_def)
  have "at_rest n 2 m1" using rest at_rest_core c by blast
  moreover have "named_scope m1 k" "counted held (m_unit m1) = Inr True" "roomy m1 k \<bar>dval held\<bar>"
    using k(1) unit_amount_counted [OF am u] x(2,4) l(1) by (simp_all add: named_scope_def roomy_def)
  ultimately obtain m2 p e m3 where w: "posting (begin_work (m_ledger m1)) [?l] m1 = (m2, Inr (p, [e]))" "commit_call p None e m2 = (m3, Inr None)"
    "wrote n m1 [e] m3" "line_entry ?l e" "w_drawn (m_world m3) = w_drawn (m_world m1) + 2"
    using one_line_succeeds [of n m1 ?l held thesis] ch by simp
  have "map_of (s_holds (m_state m3)) (entry_id e) = Some e"
    using one_more_holds(1) [of "m_ledger m1" e "m_ledger m3"] wrote_one [OF w(3)] w(4) by (simp add: line_entry_def)
  then have found: "map_of (g_open_auths (m_ledger m3)) (entry_id e) = Some (authorization_for e)"
    using auths_hold [of n m3 "entry_id e"] w(3) by (simp add: wrote_def)
  obtain nd where nd: "map_of (s_nodes (m_state m)) k = Some nd" using k(1) by (auto simp: named_scope_def)
  have enough: "\<not> dec_lt (m_balance m1 k) held" "\<not> dec_le held ZERO" using x l by (simp_all add: dec_lt_iff dec_le_iff)
  have "halted_at (entered m) k = Inr None" using k(2) halted_core [of "entered m" m] by simp
  then have "authorize_or k num why None True m = (left m m3, Inr (Some (authorization_for e)))"
    unfolding authorize_or_def using x(1) nd v1 enough w(1,2) found
    by (simp add: abind_def asks_def pure_def guard_def called_def replayed_call_def mutating_run require_node_def assert_not_halted_def
        start_work_def answered_def ret_def)
  then show ?thesis using w(5) l by (simp add: authorize_def abind_def ret_def)
qed

section \<open>Breakers\<close>

abbreviation trip_line :: "scope_id \<Rightarrow> ustr \<Rightarrow> ledger_line" where
  "trip_line k why \<equiv> line CIRCUIT_TRIPPED NONE k ZERO None why None"

lemma trip_begin: "trip_of (p_view (begin_work g)) k = s_tripped (g_state g) k"
  by (simp add: begin_work_def lookup_trip view_abs_new chain_trip_of_def) (simp add: ref_start_def chain_state.extend_def)

lemma commit_only_call: "commit_only p m = (m', Inr ()) \<longleftrightarrow> commit_call p None e m = (m', Inr None)"
  by (auto simp: commit_only_as [where e = e] abind_Inr run_simps elim: commit_call_Inr)

lemma trip_breaker_Inr:
  assumes ok: "gov_ok n m" and run: "trip_breaker k why m = (m', Inr ())" and n: "w_drawn (m_world m') \<le> n"
  shows "s_tripped (m_state m') k \<noteq> None \<and> (m' = m \<or> (\<exists>e. wrote n m [e] m' \<and> line_entry (trip_line k why) e))"
proof (cases "s_tripped (m_state m) k = None")
  case False
  then show ?thesis using run by (auto simp: trip_breaker_def)
next
  case True
  with run obtain m1 p es m2 where w: "posting (begin_work (m_ledger m)) [trip_line k why] m = (m1, Inr (p, es))"
    "commit_only p m1 = (m2, Inr ())" "m' = m2\<lparr> m_transaction := map_option (\<lambda>ts. ts @ [(k, why)]) (m_transaction m2) \<rparr>"
    by (auto simp: trip_breaker_def abind_Inr run_simps stage_trip_def stage_control_def trip_begin modify_def)
  have c: "commit_call p None (hd es) m1 = (m2, Inr None)" using w(2) commit_only_call by blast
  have same: "core m' = core m2" "m_policy m' = m_policy m2" using w(3) by (simp_all add: core_def)
  have "w_drawn (m_world m2) \<le> n" using n same by (simp add: core_def)
  note d = work_done [OF ok w(1) c this]
  obtain e where e: "es = [e]" "line_entry (trip_line k why) e" using d(2) by (auto simp: list_all2_Cons1)
  have one: "wrote n m [e] m'" using d(1) e(1) wrote_core [of m m m' m2] same by simp
  then have "s_tripped (m_state m') k \<noteq> None"
    using one_more_trips(1) [of "m_ledger m" e "m_ledger m'"] wrote_one [OF one] e(2) by (simp add: line_entry_def)
  then show ?thesis using one e(2) by blast
qed

lemma trip_succeeds:
  assumes rest: "at_rest n 2 m" and k: "named_scope m k" "roomy m k 0" and t: "check_text why MAX_MEMO_BYTES False = None"
  shows "\<exists>m'. trip_breaker k why m = (m', Inr ()) \<and> w_drawn (m_world m') \<le> w_drawn (m_world m) + 2"
proof (cases "s_tripped (m_state m) k = None")
  case False
  then show ?thesis by (auto simp: trip_breaker_def)
next
  case True
  have "check_line (trip_line k why) = Inr ZERO" using k(1) t
    by (simp add: check_line_def zero_value_type_def dec_eq_refl named_scope_def)
  then obtain m1 p e m2 where w: "posting (begin_work (m_ledger m)) [trip_line k why] m = (m1, Inr (p, [e]))" "commit_call p None e m1 = (m2, Inr None)"
    "w_drawn (m_world m2) = w_drawn (m_world m) + 2"
    using one_line_succeeds [of n m "trip_line k why" ZERO thesis] rest k by (simp add: zero_value_type_def)
  have "commit_only p m1 = (m2, Inr ())" using w(2) commit_only_call by blast
  then show ?thesis using w(1,3) True
    by (simp add: trip_breaker_def stage_trip_def stage_control_def trip_begin abind_def start_work_def ret_def modify_def)
qed

lemma below_tripped:
  assumes wf: "ledger_wf (m_ledger m)" and k: "map_of (s_nodes (m_state m)) k = Some nd" and j: "ancestry m k = Inr ks" "j \<in> set ks"
    "s_tripped (m_state m) j \<noteq> None"
  shows "\<exists>t. halted_at m k = Inr (Some t) \<and> t \<in> set ks \<and> s_tripped (m_state m) t \<noteq> None"
proof -
  from walks [OF wf k] obtain ks' where h: "ancestry m k = Inr (k # ks')"
    "halted_by m k = Inr (List.find (\<lambda>j. s_tripped (m_state m) j \<noteq> None) (k # ks'))" by blast
  then have ks: "ks = k # ks'" and h2: "halted_at m k = Inr (List.find (\<lambda>j. s_tripped (m_state m) j \<noteq> None) ks)"
    using j(1) k by (auto simp: halted_by_def require_node_def)
  obtain t where t: "List.find (\<lambda>j. s_tripped (m_state m) j \<noteq> None) ks = Some t"
    using j(2,3) by (cases "List.find (\<lambda>j. s_tripped (m_state m) j \<noteq> None) ks") (auto simp: find_None_iff)
  then have "t \<in> set ks \<and> s_tripped (m_state m) t \<noteq> None" unfolding find_Some_iff by (metis nth_mem)
  then show ?thesis using h2 t by simp
qed

lemma halted_refuses:
  assumes "halted_at m k = Inr (Some t)" "map_of (s_nodes (m_state m)) k = Some nd" "cost num (m_unit m) = Inr held" "0 < dval held"
  shows "\<exists>m'. authorize k num why None m = (m', Inl (CircuitOpenError k t (snd (the (s_tripped (m_state m) t))))) \<and> core m' = core m"
proof -
  have h: "halted_at (entered m) k = Inr (Some t)" using assms(1) halted_core [of "entered m" m] by simp
  show ?thesis
    unfolding authorize_def authorize_or_def using assms h
    by (auto simp: abind_def asks_def pure_def guard_def called_def replayed_call_def mutating_run require_node_def assert_not_halted_def
        dec_le_iff)
qed

section \<open>Settling\<close>

abbreviation void_line :: "authorization \<Rightarrow> ustr \<Rightarrow> ledger_line" where
  "void_line a why \<equiv> line HOLD_VOID CREDIT (a_scope_id a) (a_amount a) None why (Some (entry_id (a_entry a)))"

lemma settled_refuses:
  assumes "map_of (g_open_auths (m_ledger m)) (a_authorization_id a) = None"
  shows "\<exists>m'. void a why None m = (m', Inl (DoubleSpendError (a_scope_id a) (a_authorization_id a) ''was already settled'')) \<and> core m' = core m"
    and "cost num (m_unit m) = Inr x \<Longrightarrow> 0 \<le> dval x \<Longrightarrow>
      \<exists>m'. capture a num why None m = (m', Inl (DoubleSpendError (a_scope_id a) (a_authorization_id a) ''was already settled'')) \<and> core m' = core m"
  using assms
  by (auto simp: void_def capture_def capture_locked_def abind_def asks_def pure_def guard_def called_def replayed_call_def mutating_run
      require_open_authorization_def dec_lt_iff)

lemma void_locked_Inr:
  assumes ok: "gov_ok n m" and run: "void_locked a why c m = (m', Inr e)" and n: "w_drawn (m_world m') \<le> n"
  shows "wrote n m [e] m' \<and> line_entry (void_line a why) e"
proof -
  from run obtain m1 p es m2 rec where w: "posting (begin_work (m_ledger m)) [void_line a why] m = (m1, Inr (p, es))"
    "commit_call p c (hd es) m1 = (m2, Inr rec)" "answered rec (Out_Entry (hd es)) m2 = (m', Inr ())" "e = hd es"
    by (auto simp: void_locked_def abind_Inr run_simps)
  note an = answered_core [OF w(3)]
  have "w_drawn (m_world m2) \<le> n" using n an by (simp add: core_def)
  note d = work_done [OF ok w(1,2) this]
  obtain x where x: "es = [x]" "line_entry (void_line a why) x" using d(2) by (auto simp: list_all2_Cons1)
  then show ?thesis using d(1) w(4) wrote_core [of m m m' m2] an by simp
qed

lemma void_Inr:
  assumes ok: "gov_ok n m" and run: "void a why None m = (m', Inr e)" and n: "w_drawn (m_world m') \<le> n"
  shows "wrote n m [e] m' \<and> line_entry (void_line a (or_else why (lit ''authorization voided''))) e
    \<and> map_of (g_open_auths (m_ledger m)) (a_authorization_id a) \<noteq> None"
proof -
  from run obtain m1 where w: "void_locked a (or_else why (lit ''authorization voided'')) None (entered m) = (m1, Inr e)" "m' = left m m1"
    "map_of (g_open_auths (m_ledger m)) (a_authorization_id a) \<noteq> None"
    by (auto simp: void_def abind_Inr run_simps mutating_iff replayed_call_def require_open_authorization_def split: if_splits)
  have ok1: "gov_ok n (entered m)" using ok gov_ok_core [of "entered m" m] by simp
  have "w_drawn (m_world m1) \<le> n" using n w(2) by simp
  from void_locked_Inr [OF ok1 w(1) this] w(2,3) wrote_core [of "entered m" m m' m1] show ?thesis by simp
qed

lemma void_succeeds:
  assumes rest: "at_rest n 2 m" and hold: "map_of (s_holds (m_state m)) (entry_id h) = Some h" and k: "named_scope m (scope_id h)"
    and x: "unit_amount (m_unit m) (amount h)" "roomy m (scope_id h) (dval (amount h))"
    and t: "check_text (or_else why (lit ''authorization voided'')) MAX_MEMO_BYTES False = None"
  shows "\<exists>m' e. void (authorization_for h) why None m = (m', Inr e) \<and> w_drawn (m_world m') = w_drawn (m_world m) + 2"
proof -
  let ?m = "entered m" and ?l = "void_line (authorization_for h) (or_else why (lit ''authorization voided''))"
  have u: "unit_wf (m_unit m)" and ok: "gov_ok n m" using rest by (simp_all add: at_rest_def)
  have ch: "check_line ?l = Inr (amount h)"
    using amount_line [of "m_unit m" ?l] x(1) k t
    by (simp add: zero_value_type_def named_scope_def authorization_for_def v3_referencing_type_def referencing_type_def)
  have "at_rest n 2 ?m" "named_scope ?m (scope_id h)" "roomy ?m (scope_id h) \<bar>dval (amount h)\<bar>"
    using rest at_rest_core [of ?m m] k x by (simp_all add: named_scope_def roomy_def unit_amount_def)
  then obtain m1 p e m2 where w: "posting (begin_work (m_ledger ?m)) [?l] ?m = (m1, Inr (p, [e]))" "commit_call p None e m1 = (m2, Inr None)"
    "w_drawn (m_world m2) = w_drawn (m_world ?m) + 2"
    using one_line_succeeds [of n ?m ?l "amount h" thesis] ch unit_amount_counted [OF x(1) u] hold by (simp add: authorization_for_def)
  have "map_of (g_open_auths (m_ledger m)) (entry_id h) \<noteq> None" using auths_hold [OF ok] hold by simp
  then have "void (authorization_for h) why None m = (left m m2, Inr e)"
    unfolding void_def void_locked_def using w(1,2)
    by (simp add: abind_def called_def replayed_call_def mutating_run require_open_authorization_def start_work_def answered_def ret_def
        authorization_for_def)
  then show ?thesis using w(3) by simp
qed

section \<open>Capturing\<close>

text \<open>A unit of work in progress, with what it has staged.\<close>

definition staged :: "nat \<Rightarrow> manager \<Rightarrow> pending \<Rightarrow> ledger_entry list \<Rightarrow> bool" where
  "staged n m p es \<longleftrightarrow> gov_ok n m \<and> working n (m_world m) (m_ledger m) p \<and> b_entries (p_batch p) = es \<and> (\<forall>e \<in> set es. version e = AUDIT_V3)"

lemma staged_begin: "gov_ok n m \<Longrightarrow> staged n m (begin_work (m_ledger m)) []"
  using begin_working [of "m_ledger m" n "m_world m"] by (simp add: staged_def gov_ok_def begin_work_def empty_batch_def)

lemma staged_posting:
  assumes st: "staged n m p es" and post: "posting p ls m = (m1, Inr (p1, new))" and n: "w_drawn (m_world m1) \<le> n"
  shows "staged n m1 p1 (es @ new) \<and> list_all2 line_entry ls new \<and> m_ledger m1 = m_ledger m \<and> m_policy m1 = m_policy m
    \<and> w_drawn (m_world m) \<le> w_drawn (m_world m1)"
proof -
  obtain w where p: "post (m_world m) p ls None = Inr (w, p1, new)" and m1: "m1 = m\<lparr> m_world := w \<rparr>"
    using post by (auto simp: posting_def split: sum.splits)
  note k = post_written [OF p]
  have wk: "working n w (m_ledger m) p1" using st post_working [OF _ p] n m1 by (simp add: staged_def)
  have "b_entries (p_batch p1) = es @ new" using p by (rule post_cases) (use st in \<open>simp add: staged_def\<close>)
  moreover have "gov_ok n m1" using st fresh_later [of n "m_world m" "g_entries (m_ledger m)"] k(5) m1 by (simp add: staged_def gov_ok_def)
  ultimately show ?thesis using st wk m1 k(3,5) post_lines [OF p] by (auto simp: staged_def)
qed

lemma staged_trip:
  assumes st: "staged n m p es" and trip: "stage_trip p k why m = (m1, Inr p1)" and n: "w_drawn (m_world m1) \<le> n"
  shows "\<exists>new. staged n m1 p1 (es @ new) \<and> m_ledger m1 = m_ledger m \<and> m_policy m1 = m_policy m
    \<and> w_drawn (m_world m) \<le> w_drawn (m_world m1) \<and> (\<forall>e \<in> set new. entry_type e = CIRCUIT_TRIPPED)"
proof (cases "trip_of (p_view p) k = None")
  case True
  then obtain new where "posting p [trip_line k why] m = (m1, Inr (p1, new))"
    using trip by (auto simp: stage_trip_def stage_control_def abind_Inr run_simps)
  from staged_posting [OF st this n] show ?thesis by (auto simp: list_all2_Cons1 line_entry_def)
qed (use st trip in \<open>auto simp: stage_trip_def run_simps intro!: exI [of _ "[]"]\<close>)

lemma staged_commit:
  assumes st: "staged n m p es" and c: "commit_call p call e m = (m', Inr rec)"
  shows "gov_ok n m' \<and> m_unit m' = m_unit m \<and> g_entries (m_ledger m') = g_entries (m_ledger m) @ es \<and> m_world m' = m_world m \<and> m_policy m' = m_policy m"
proof -
  from c obtain g k where g: "commit (m_ledger m) (p\<lparr> p_batch := (p_batch p)\<lparr> b_idempotency := k \<rparr> \<rparr>) = Inr g"
    "m' = remember (b_entries (p_batch p)) (m\<lparr> m_ledger := g \<rparr>)" by (rule commit_call_Inr)
  have wk: "working n (m_world m) (m_ledger m) (p\<lparr> p_batch := (p_batch p)\<lparr> b_idempotency := k \<rparr> \<rparr>)" using st by (simp add: staged_def)
  note cw = commit_wf [OF wk g(1)] and ca = commit_auths [OF _ wk g(1)]
  have "gov_ok n (m\<lparr> m_ledger := g \<rparr>)" using st cw ca by (auto simp: staged_def gov_ok_def)
  then have "gov_ok n m'" using gov_ok_core [of m' "m\<lparr> m_ledger := g \<rparr>"] g(2) by simp
  then show ?thesis using cw g(2) st by (simp add: staged_def)
qed

lemma wrote_settles:
  assumes w: "wrote n m (v # rest) m'" and v: "entry_type v = HOLD_VOID" "ref v = Some h"
  shows "map_of (s_holds (m_state m')) h = None"
    and "\<exists>hold. map_of (s_holds (m_state m)) h = Some hold \<and> scope_id hold = scope_id v \<and> dval (amount hold) = dval (amount v)"
proof -
  have wf: "ledger_wf (m_ledger m)" "ledger_wf (m_ledger m')" "g_entries (m_ledger m') = g_entries (m_ledger m) @ v # rest" "m_unit m' = m_unit m"
    "version v = AUDIT_V3" using w by (simp_all add: wrote_def gov_ok_def)
  from wf(1-4) obtain q rs q' rs' where run: "rfold (ref_step True False) (q, rs) (v # rest) = Inr (q', rs')"
    and q: "ref_chain q = m_state m" "ref_chain q' = m_state m'" by (rule extends_run)
  from run obtain q1 rs1 where one: "ref_apply q v True rs False = Inr (q1, rs1)" and more: "rfold (ref_step True False) (q1, rs1) rest = Inr (q', rs')"
    by (auto simp: ref_step_app)
  from one obtain x x' where x: "hold_part x = hold_part q" "ref_check_holds x v rs = Inr (x', rs1)" "hold_part q1 = hold_part x'"
    by (rule apply_hold_part)
  then obtain hold where hold: "map_of (s_holds q) h = Some hold" "scope_id hold = scope_id v" "dval (amount hold) = dval (amount v)"
    "s_holds q1 = AList.delete h (s_holds q)"
    using v wf(5) by (auto simp: ref_check_holds_def ref_release_named_def ref_close_def hold_part_def dec_eq_iff split: if_splits option.splits)
  then show "\<exists>hold. map_of (s_holds (m_state m)) h = Some hold \<and> scope_id hold = scope_id v \<and> dval (amount hold) = dval (amount v)"
    by (auto simp flip: q)
  have "h \<in> fst ` set (s_holds (m_state m))" using hold(1) by (auto simp flip: q dest!: map_of_SomeD intro: rev_image_eqI)
  then have "h \<in> entry_id ` set (g_entries (m_ledger m))" using ledger_hold_ids [OF wf(1)] by blast
  then have "h \<notin> entry_id ` set rest" using wf(2,3) by (auto simp: ledger_wf_def)
  moreover have "dict_wf (s_holds q1)" "h \<notin> fst ` set (s_holds q1)"
    using ledger_chain_wf [OF wf(1)] hold(4) by (simp_all add: chain_wf_def keys_delete flip: q)
  ultimately have "h \<notin> fst ` set (s_holds q')" using hold_ids.run_keeps [OF _ more, of "- {h}"] by auto
  then show "map_of (s_holds (m_state m')) h = None" by (simp add: map_of_eq_None_keys flip: q)
qed

abbreviation spend_line :: "authorization \<Rightarrow> decimal \<Rightarrow> ustr \<Rightarrow> ledger_line" where
  "spend_line a x why \<equiv> line SPEND DEBIT (a_scope_id a) x None (or_else why (lit ''settled call cost'')) (Some (entry_id (a_entry a)))"

abbreviation overdrawn :: "ledger_entry \<Rightarrow> decimal option" where
  "overdrawn e \<equiv> (if dec_lt (balance_after e) ZERO then Some (copy_negate (balance_after e)) else None)"

text \<open>What a capture stages and commits, before it answers or raises.\<close>

definition captured :: "nat \<Rightarrow> authorization \<Rightarrow> decimal \<Rightarrow> ustr \<Rightarrow> manager \<Rightarrow> ledger_entry \<Rightarrow> manager \<Rightarrow> bool" where
  "captured n a x why m e m' \<longleftrightarrow> (\<exists>v trips. wrote n m (v # e # trips) m' \<and> line_entry (void_line a (lit ''authorization captured'')) v
     \<and> line_entry (spend_line a x why) e \<and> (\<forall>t \<in> set trips. entry_type t = CIRCUIT_TRIPPED))"

lemma capture_staged:
  assumes ok: "gov_ok n m" and post: "posting (begin_work (m_ledger m)) [void_line a (lit ''authorization captured''), spend_line a x why] m = (m1, Inr (p1, es))"
    and trip: "stage_trip p1 k reason m1 = (m2, Inr p2) \<or> (m2, p2) = (m1, p1)"
    and c: "commit_call p2 call (es ! 1) m2 = (m3, Inr rec)" and n: "w_drawn (m_world m3) \<le> n"
  shows "captured n a x why m (es ! 1) m3"
proof -
  obtain w3 where w3: "m_world m3 = m_world m2" using c by (auto elim: commit_call_Inr)
  then have n2: "w_drawn (m_world m2) \<le> n" using n by simp
  have le: "w_drawn (m_world m1) \<le> w_drawn (m_world m2)" using trip
    by (auto simp: stage_trip_def stage_control_def posting_def abind_def ret_def post_written(5) split: if_splits sum.splits prod.splits dest!: post_written(5))
  have n1: "w_drawn (m_world m1) \<le> n" using le n2 by simp
  from staged_posting [OF staged_begin [OF ok] post n1] have s1: "staged n m1 p1 es" "m_ledger m1 = m_ledger m" "m_policy m1 = m_policy m"
    "w_drawn (m_world m) \<le> w_drawn (m_world m1)" and l: "list_all2 line_entry [void_line a (lit ''authorization captured''), spend_line a x why] es" by simp_all
  from l obtain v e where ve: "es = [v, e]" "line_entry (void_line a (lit ''authorization captured'')) v" "line_entry (spend_line a x why) e"
    by (auto simp: list_all2_Cons1 simp del: lit_Cons)
  obtain trips where t: "staged n m2 p2 (es @ trips)" "m_ledger m2 = m_ledger m1" "m_policy m2 = m_policy m1" "\<forall>t \<in> set trips. entry_type t = CIRCUIT_TRIPPED"
  proof (cases "stage_trip p1 k reason m1 = (m2, Inr p2)")
    case True
    then show thesis using staged_trip [OF s1(1) True n2] that by blast
  next
    case False
    then show thesis using trip s1 that [of "[]"] by simp
  qed
  note cm = staged_commit [OF t(1) c]
  have "wrote n m (es @ trips) m3" using cm t s1 le w3 ok by (auto simp: wrote_def staged_def)
  then show ?thesis using ve t(4) by (auto simp: captured_def simp del: lit_Cons)
qed

lemma captured_core: "core m1 = core m \<Longrightarrow> m_policy m1 = m_policy m \<Longrightarrow> core m' = core m2 \<Longrightarrow> m_policy m' = m_policy m2 \<Longrightarrow>
    captured n a x why m1 e m2 \<Longrightarrow> captured n a x why m e m'"
  unfolding captured_def using wrote_core by blast

lemma captured_money:
  assumes c: "captured n a x why m e m'"
  shows "dval (m_balance m' k) = dval (m_balance m k) + (if k = a_scope_id a then dval (a_amount a) - dval x else 0)"
    and "map_of (s_holds (m_state m')) (entry_id (a_entry a)) = None" "map_of (s_holds (m_state m)) (entry_id (a_entry a)) \<noteq> None"
proof -
  from c obtain v trips where w: "wrote n m (v # e # trips) m'" "line_entry (void_line a (lit ''authorization captured'')) v"
    "line_entry (spend_line a x why) e" "\<forall>t \<in> set trips. entry_type t = CIRCUIT_TRIPPED" by (auto simp: captured_def simp del: lit_Cons)
  have wf: "ledger_wf (m_ledger m)" "ledger_wf (m_ledger m')" "g_entries (m_ledger m') = g_entries (m_ledger m) @ v # e # trips" "m_unit m' = m_unit m"
    using w(1) by (simp_all add: wrote_def gov_ok_def)
  from wf obtain q rs q' rs' where "rfold (ref_step True False) (q, rs) (v # e # trips) = Inr (q', rs')" by (rule extends_run)
  then obtain q1 rs1 where "rfold (ref_step True False) (q1, rs1) trips = Inr (q', rs')" by (auto simp: ref_step_app)
  then have "moved k trips = 0" using zero_moved w(4) by (simp add: zero_value_type_def)
  moreover have "dval (signed_amount v) = dval (a_amount a)" "dval (signed_amount e) = - dval x"
    using w(2,3) line_amount by (auto simp: line_entry_def signed_amount_def simp del: lit_Cons)
  ultimately show "dval (m_balance m' k) = dval (m_balance m k) + (if k = a_scope_id a then dval (a_amount a) - dval x else 0)"
    using ledger_money [OF wf, of k] w(2,3) by (auto simp: moved_def line_entry_def simp del: lit_Cons)
  have "entry_type v = HOLD_VOID" "ref v = Some (entry_id (a_entry a))" using w(2) by (simp_all add: line_entry_def del: lit_Cons)
  with wrote_settles [OF w(1)] show "map_of (s_holds (m_state m')) (entry_id (a_entry a)) = None"
    "map_of (s_holds (m_state m)) (entry_id (a_entry a)) \<noteq> None" by auto
qed

lemma capture_tail:
  assumes "abind A (\<lambda>p. abind (commit_call p None e) (\<lambda>rec. abind (answered rec (Out_Entry e)) (\<lambda>_.
      case overdrawn e of None \<Rightarrow> ret e | Some over \<Rightarrow> abind (pure (ctx_subtract x over)) (\<lambda>l. raise (E l))))) m1 = (m4, Inr e')"
  shows "\<exists>m2 p2 m3 rec. A m1 = (m2, Inr p2) \<and> commit_call p2 None e m2 = (m3, Inr rec) \<and> answered rec (Out_Entry e) m3 = (m4, Inr ()) \<and> e' = e \<and> overdrawn e = None"
  using assms by (cases "overdrawn e") (auto simp: abind_Inr run_simps)

lemma capture_head:
  assumes "abind (require_open_authorization a) (\<lambda>_. if dec_eq x ZERO then Z else abind (asks m_policy) (\<lambda>y. abind start_work (\<lambda>p. abind (posting p ls) (\<lambda>(p, es). K y p es)))) m = (m4, Inr e)"
    and "\<not> dec_eq x ZERO"
  obtains m1 p1 es where "posting (begin_work (m_ledger m)) ls m = (m1, Inr (p1, es))" "K (m_policy m) p1 es m1 = (m4, Inr e)"
  using assms by (auto simp: abind_Inr run_simps require_open_authorization_def split: if_splits)

lemma capture_Inr:
  assumes ok: "gov_ok n m" and run: "capture a num why None m = (m', Inr e)" and n: "w_drawn (m_world m') \<le> n"
  shows "\<exists>x. cost num (m_unit m) = Inr x \<and> 0 \<le> dval x \<and> map_of (g_open_auths (m_ledger m)) (a_authorization_id a) \<noteq> None
    \<and> (if dval x = 0 then wrote n m [e] m' \<and> line_entry (void_line a (or_else why (lit ''captured at zero cost''))) e
       else captured n a x why m e m' \<and> 0 \<le> dval (balance_after e))"
proof -
  from run obtain x m4 where x: "cost num (m_unit m) = Inr x" "\<not> dec_lt x ZERO" and m4: "capture_locked a x why None (entered m) = (m4, Inr e)" "m' = left m m4"
    by (auto simp: capture_def abind_Inr run_simps mutating_iff replayed_call_def)
  have deep: "0 < m_depth (entered m)" by simp
  from m4(1) deep have body: "abind (require_open_authorization a) (\<lambda>_. if dec_eq x ZERO then void_locked a (or_else why (lit ''captured at zero cost'')) None
     else abind (asks m_policy) (\<lambda>y. abind start_work (\<lambda>p. abind (posting p [void_line a (lit ''authorization captured''), spend_line a x why]) (\<lambda>(p, es).
       abind (case overdrawn (es ! 1) of Some over \<Rightarrow> stage_trip p (a_scope_id a) (overrun_text x (a_amount a) over)
              | None \<Rightarrow> if exhausted y p (a_scope_id a) then stage_trip p (a_scope_id a) (lit ''spend envelope exhausted'') else ret p) (\<lambda>p.
       abind (commit_call p None (es ! 1)) (\<lambda>rec. abind (answered rec (Out_Entry (es ! 1))) (\<lambda>_.
         case overdrawn (es ! 1) of None \<Rightarrow> ret (es ! 1)
         | Some over \<Rightarrow> abind (pure (ctx_subtract x over)) (\<lambda>left. raise (DenialOfWalletError x left (a_scope_id a) True)))))))))
      (entered m) = (m4, Inr e)"
    unfolding capture_locked_def Let_def mutating_def by simp
  have ok1: "gov_ok n (entered m)" using ok gov_ok_core [of "entered m" m] by simp
  have auth: "map_of (g_open_auths (m_ledger m)) (a_authorization_id a) \<noteq> None"
    using body by (auto simp: abind_Inr require_open_authorization_def split: if_splits)
  have n4: "w_drawn (m_world m4) \<le> n" using n m4(2) by simp
  show ?thesis
  proof (cases "dec_eq x ZERO")
    case True
    then have v: "void_locked a (or_else why (lit ''captured at zero cost'')) None (entered m) = (m4, Inr e)"
      using body by (auto simp: abind_Inr require_open_authorization_def split: if_splits)
    then show ?thesis using void_locked_Inr [OF ok1 v n4] x True auth m4(2) wrote_core [of "entered m" m m' m4]
      by (simp add: dec_eq_iff dec_lt_iff)
  next
    case False
    with body obtain m1 p1 es where w1: "posting (begin_work (m_ledger (entered m))) [void_line a (lit ''authorization captured''), spend_line a x why] (entered m) = (m1, Inr (p1, es))"
      and rest: "abind (case overdrawn (es ! 1) of Some over \<Rightarrow> stage_trip p1 (a_scope_id a) (overrun_text x (a_amount a) over)
              | None \<Rightarrow> if exhausted (m_policy (entered m)) p1 (a_scope_id a) then stage_trip p1 (a_scope_id a) (lit ''spend envelope exhausted'') else ret p1) (\<lambda>p.
       abind (commit_call p None (es ! 1)) (\<lambda>rec. abind (answered rec (Out_Entry (es ! 1))) (\<lambda>_.
         case overdrawn (es ! 1) of None \<Rightarrow> ret (es ! 1)
         | Some over \<Rightarrow> abind (pure (ctx_subtract x over)) (\<lambda>left. raise (DenialOfWalletError x left (a_scope_id a) True))))) m1 = (m4, Inr e)"
      by (rule capture_head)
    obtain m2 p2 m3 rec where w: "posting (begin_work (m_ledger (entered m))) [void_line a (lit ''authorization captured''), spend_line a x why] (entered m) = (m1, Inr (p1, es))"
      "(case overdrawn (es ! 1) of Some over \<Rightarrow> stage_trip p1 (a_scope_id a) (overrun_text x (a_amount a) over)
              | None \<Rightarrow> if exhausted (m_policy (entered m)) p1 (a_scope_id a) then stage_trip p1 (a_scope_id a) (lit ''spend envelope exhausted'') else ret p1) m1 = (m2, Inr p2)"
      "commit_call p2 None (es ! 1) m2 = (m3, Inr rec)" "answered rec (Out_Entry (es ! 1)) m3 = (m4, Inr ())" "e = es ! 1" "overdrawn (es ! 1) = None"
      using capture_tail [OF rest] w1 by blast
    note an = answered_core [OF w(4)]
    have n3: "w_drawn (m_world m3) \<le> n" using n4 an by (simp add: core_def)
    have trip: "stage_trip p1 (a_scope_id a) (lit ''spend envelope exhausted'') m1 = (m2, Inr p2) \<or> (m2, p2) = (m1, p1)"
      using w(2,6) by (auto simp: run_simps simp del: lit_Cons split: if_splits)
    have "captured n a x why (entered m) e m3" using capture_staged [OF ok1 w(1) trip w(3) n3] w(5) by simp
    then have "captured n a x why m e m'" by (rule captured_core [rotated 4]) (use an m4(2) in simp_all)
    then show ?thesis using x False auth w(5,6) by (auto simp: dec_eq_iff dec_lt_iff split: if_splits)
  qed
qed

end
