(* ===== verification/Promises.thy ===== *)
theory Promises
  imports Operations
begin

text \<open>
  What the governor promises its callers, stated over its methods, and a small governor with one root
  scope on which each promise is tried out.
\<close>

section \<open>A first root\<close>

definition sample_manager :: manager where
  "sample_manager = new_manager USD default_policy sample_world (\<lambda>_. 0)"

definition sample_root :: "unit act" where
  "sample_root = perform (Open_Root (lit ''root'') (ArgInt 1) (lit ''a|b''))"

text \<open>The governor that opening a root with one dollar leaves.\<close>

definition sample_opened :: "manager \<Rightarrow> bool" where
  "sample_opened m \<longleftrightarrow> gov_ok 9 m \<and> sample_state (m_state m) \<and> w_drawn (m_world m) = 2 \<and> m_depth m = 0
     \<and> m_transaction m = None \<and> m_policy m = default_policy \<and> m_velocity m = [] \<and> g_entries (m_ledger m) = [sample_sealed]"

lemma sample_credit: "credit (ArgInt 1) USD = Inr (Dec 100000000 (- 8))"
  by (simp add: credit_def USD_def money_eval)

lemma sample_positive: "\<not> dec_le (Dec 100000000 (- 8)) ZERO"
  by (simp add: money_eval)

lemma sample_line_line: "sample_line = line FUNDING CREDIT (lit ''root'') (Dec 100000000 (- 8)) None (lit ''a|b'') None"
  by (simp add: sample_line_def line_def)

lemma sample_open: "\<exists>m. sample_root sample_manager = (m, Inr ()) \<and> sample_opened m"
proof -
  obtain w' g' where l: "ledger_post sample_world (new_ledger USD) [sample_line] None = Inr (w', g', [sample_sealed])"
    "w_drawn w' = 2" "sample_state (g_state g')" using sample_post by blast
  then obtain p where p: "post sample_world (begin_work (new_ledger USD)) [sample_line] None = Inr (w', p, [sample_sealed])"
    "commit (new_ledger USD) p = Inr g'" by (auto simp: ledger_post_def)
  have fresh: "gov_inv 9 sample_manager" unfolding sample_manager_def by (rule new_inv [OF sample_fresh])
  have ents: "g_entries g' = [sample_sealed]"
    using post_wf [OF wf_new _ l(1), of 9] l(2) sample_fresh by (simp add: new_ledger_def)
  have u: "m_unit sample_manager = USD" "s_nodes (m_state sample_manager) = []"
    by (simp_all add: sample_manager_def new_manager_def new_ledger_def empty_chain_def)
  have led: "m_ledger sample_manager = new_ledger USD" "m_world sample_manager = sample_world" "m_depth sample_manager = 0"
    "m_transaction sample_manager = None" "m_policy sample_manager = default_policy" "m_velocity sample_manager = []"
    by (simp_all add: sample_manager_def new_manager_def)
  have node: "map_of (s_nodes (g_state g')) (lit ''root'') = Some sample_node" using l(3) by (simp add: sample_state_def)
  let ?m = "sample_manager\<lparr> m_depth := 0, m_world := w', m_ledger := g', m_unit_calls := [] \<rparr>"
  have run: "sample_root sample_manager = (?m, Inr ())"
    unfolding sample_root_def perform.simps ignore_def open_root_def
    using p [unfolded sample_line_line] u node
    by (simp add: sample_positive abind_def asks_def pure_def guard_def ret_def sample_credit require_scope_id_def mutating_def Let_def led start_work_def
        posting_def or_else_def commit_only_def remember_def default_policy_def)
  have "gov.keeps 9 sample_root" unfolding sample_root_def by (rule gov.keeps_perform) simp_all
  with fresh run have "gov_inv 9 ?m" unfolding gov.keeps_def gov.valid_def by (metis fst_conv)
  then have "sample_opened ?m" using l ents led by (simp add: sample_opened_def gov_inv_def)
  with run show ?thesis by blast
qed

lemma unspent:
  assumes "ledger_wf g" "\<forall>e \<in> set (g_entries g). entry_type e \<noteq> SPEND"
  shows "s_spent (g_state g) = []"
proof -
  obtain q rs where run: "rfold (ref_step True False) (ref_start (empty_chain (s_unit (g_state g)) [])
      (Some (spend_index (g_entries g))), Some {}) (g_entries g) = Inr (q, rs)" "g_state g = ref_chain q" using assms(1) by (rule ledger_run)
  have "s_spent q = s_spent r" if "rfold (ref_step True False) (r, rs0) es = Inr (q, rs)" "\<forall>e \<in> set es. entry_type e \<noteq> SPEND" for r rs0 es
    using that
  proof (induction es arbitrary: r rs0)
    case (Cons e es)
    then obtain r1 rs1 where s: "ref_apply r e True rs0 False = Inr (r1, rs1)" "rfold (ref_step True False) (r1, rs1) es = Inr (q, rs)"
      by (auto simp: ref_step_app)
    from s(1) obtain x y where "flow_part x = flow_part r" "ref_check_flows x e False = Inr y" "flow_part r1 = flow_part y"
      by (rule apply_flow_part)
    then have "s_spent r1 = s_spent r" using Cons.prems(2)
      by (auto simp: ref_check_flows_def flow_part_def Let_def split: if_splits)
    with Cons s show ?case by simp
  qed simp
  from this [OF run(1) assms(2)] run(2) show ?thesis
    by (simp add: ref_start_def empty_chain_def chain_state.extend_def)
qed

lemma sample_ready:
  assumes "sample_opened m"
  shows "at_rest 9 7 m" "named_scope m (lit ''root'')" "halted_at m (lit ''root'') = Inr None"
    "m_balance m (lit ''root'') = Dec 100000000 (- 8)" "a \<le> 10 ^ 12 \<Longrightarrow> roomy m (lit ''root'') a" "m_unit m = USD"
    "snd (record_velocity (lit ''root'') (entered m)) = Inr ()" "ledger_wf (m_ledger m)"
    "map_of (s_nodes (m_state m)) (lit ''root'') = Some sample_node" "s_tripped (m_state m) = Map.empty"
proof -
  have m: "gov_ok 9 m" "sample_state (m_state m)" "w_drawn (m_world m) = 2" "m_policy m = default_policy" "m_velocity m = []"
    "g_entries (m_ledger m) = [sample_sealed]" using assms by (simp_all add: sample_opened_def)
  have s: "s_balances (m_state m) = [(lit ''root'', Dec 100000000 (- 8))]" "s_nodes (m_state m) = [(lit ''root'', sample_node)]"
    "s_tripped (m_state m) = Map.empty" "s_holds (m_state m) = []" "s_totals (m_state m) = no_totals\<lparr> t_funded := Dec 100000000 (- 8) \<rparr>"
    "s_unit (m_state m) = USD" using m(2) by (simp_all add: sample_state_def)
  show u: "m_unit m = USD" by (rule s(6))
  show "at_rest 9 7 m" using m u by (simp add: at_rest_def sample_fields) (simp add: money_eval)
  show "map_of (s_nodes (m_state m)) (lit ''root'') = Some sample_node" "s_tripped (m_state m) = Map.empty" using s by simp_all
  show "named_scope m (lit ''root'')" using s
    by (simp add: named_scope_def check_text_def MAX_ID_BYTES_def is_control_def)
  show "halted_at m (lit ''root'') = Inr None" by (simp add: halted_at_def s sample_node_def numeral_2_eq_2)
  show b: "m_balance m (lit ''root'') = Dec 100000000 (- 8)" by (simp add: ledger_balance_def chain_balance_def dict_get_def s)
  show wf: "ledger_wf (m_ledger m)" using m(1) by (simp add: gov_ok_def)
  have "s_spent (m_state m) = []" using unspent [OF wf] m(6) by (simp add: sample_fields)
  then show "a \<le> 10 ^ 12 \<Longrightarrow> roomy m (lit ''root'') a"
    unfolding roomy_def b by (simp add: chain_spent_by_def dict_get_def s) (simp add: no_totals_def dval_def ZERO_def)
  show "snd (record_velocity (lit ''root'') (entered m)) = Inr ()"
    by (simp add: record_velocity_def abind_def asks_def m default_policy_def monotonic_def modify_def Let_def ret_def dict_get_def)
       (simp add: entered_def m)
qed

section \<open>The whole service\<close>


definition sample_open_call :: request where
  "sample_open_call = Open_Root (lit ''root'') (ArgInt 1) (lit ''a|b'')"

lemma sample_serves: "sample_root sample_manager = (m, Inr ()) \<Longrightarrow> serves sample_manager [Call sample_open_call] = m"
  by (simp add: serves_def sample_root_def sample_open_call_def del: perform.simps)


text \<open>C23: On a ledger that agrees with its chain the loops over the tree end. \<open>ancestry\<close> returns the path
  to the root, \<open>halted_by\<close> the first tripped scope on it, and \<open>descendants\<close> every scope below, once.\<close>

theorem walks_end:
  assumes "ledger_wf (m_ledger m)" "map_of (s_nodes (m_state m)) k = Some n"
  shows "\<exists>ks out. ancestry m k = Inr (k # ks) \<and> path_up (s_nodes (m_state m)) (k # ks) \<and> length ks = n_depth n
    \<and> halted_by m k = Inr (List.find (\<lambda>j. s_tripped (m_state m) j \<noteq> None) (k # ks))
    \<and> descendants m k = Inr out \<and> distinct (map n_scope_id out) \<and> k \<notin> n_scope_id ` set out
    \<and> set (n_child_ids n) \<subseteq> n_scope_id ` set out
    \<and> (\<forall>d \<in> set out. map_of (s_nodes (m_state m)) (n_scope_id d) = Some d \<and> set (n_child_ids d) \<subseteq> n_scope_id ` set out
         \<and> (\<exists>p. n_parent_id d = Some p \<and> p \<in> insert k (n_scope_id ` set out)))"
  by (rule walks [OF assms])

theorem walks_end_witness:
  "\<exists>m. sample_root sample_manager = (m, Inr ()) \<and> (\<exists>ks. ancestry m (lit ''root'') = Inr (lit ''root'' # ks) \<and> length ks = 0)"
proof -
  obtain m where m: "sample_root sample_manager = (m, Inr ())" "sample_opened m" using sample_open by blast
  have "n_depth sample_node = 0" by (simp add: sample_node_def)
  with walks_end [OF sample_ready(8,9) [OF m(2)]] m(1) show ?thesis by (simp only:) blast
qed

text \<open>C14: A transaction whose block raises leaves no trace of what the block did. The only entries it
  can add are the trips of breakers, which move no money.\<close>

theorem failed_transaction_undone:
  assumes "gov_ok n m" "m_depth m = 0" "m_transaction m = None" "transaction (block qs) m = (m', Inl e)" "w_drawn (m_world m') \<le> n"
  shows "\<exists>new. g_entries (m_ledger m') = g_entries (m_ledger m) @ new \<and> (\<forall>e \<in> set new. entry_type e = CIRCUIT_TRIPPED)
    \<and> (\<forall>k. dval (m_balance m' k) = dval (m_balance m k)) \<and> verify_chain (m_ledger m') = Inr ()"
  by (rule transaction_undone [OF assms])

section \<open>Holds\<close>

lemma one_more_kept:
  assumes "one_more g e g'"
  shows "entry_type e \<notin> {FUNDING, ALLOCATION} \<Longrightarrow> s_nodes (g_state g') = s_nodes (g_state g)"
    and "entry_type e \<noteq> SPEND \<Longrightarrow> chain_spent_by (g_state g') k = chain_spent_by (g_state g) k"
    and "apply_totals (s_totals (g_state g)) e = Inr (s_totals (g_state g'))"
proof -
  from assms obtain q rs q' rs' where run: "ref_apply q e True rs False = Inr (q', rs')" "ref_chain q = g_state g"
    "ref_chain q' = g_state g'" "s_legacy q = []" by (rule one_more_run)
  have n: "s_nodes (g_state g) = s_nodes q" "s_nodes (g_state g') = s_nodes q'" "s_spent (g_state g) = s_spent q"
    "s_spent (g_state g') = s_spent q'" "s_totals (g_state g) = s_totals q" "s_totals (g_state g') = s_totals q'"
    by (simp_all add: ref_chain_def chain_state.truncate_def flip: run(2,3))
  from run(1) obtain x y where x: "flow_part x = flow_part q" "ref_check_flows x e False = Inr y" "flow_part q' = flow_part y"
    by (rule apply_flow_part)
  then show "entry_type e \<noteq> SPEND \<Longrightarrow> chain_spent_by (g_state g') k = chain_spent_by (g_state g) k"
    by (auto simp: n ref_check_flows_def flow_part_def chain_spent_by_def Let_def split: if_splits)
  show "apply_totals (s_totals (g_state g)) e = Inr (s_totals (g_state g'))" using apply_position(1) [OF run(1)] n by simp
  from run(1) obtain t u where t: "tree_part t = tree_part q" "config_part t = config_part q"
    "ref_check_governance t e = Inr u" "tree_part q' = tree_part u" by (rule apply_tree_part)
  have nodes: "s_nodes t = s_nodes q" "s_nodes q' = s_nodes u" "s_legacy t = []" using t run(4) by (auto simp: tree_part_def config_part_def)
  have fold: "ref_fold_legacy t e = Inr z \<Longrightarrow> s_nodes z = s_nodes t" for z
    using nodes(3) by (auto simp: ref_fold_legacy_def ref_apply_legacy_def split: if_splits)
  have control: "ref_control z a b c d = Inr v \<Longrightarrow> s_nodes v = s_nodes z" for z a b c d v
    by (auto simp: ref_control_def split: if_splits option.splits)
  show "entry_type e \<notin> {FUNDING, ALLOCATION} \<Longrightarrow> s_nodes (g_state g') = s_nodes (g_state g)"
    using t(3) nodes unfolding n ref_check_governance_def by (auto simp: Let_def dest!: fold control split: if_splits)
qed

lemma authorize_Inr:
  assumes "gov_ok n m" "authorize k num why None m = (m', Inr a)" "w_drawn (m_world m') \<le> n"
  shows "\<exists>held e. cost num (m_unit m) = Inr held \<and> 0 < dval held \<and> dval held \<le> dval (m_balance m k) \<and> halted_at m k = Inr None
    \<and> wrote n m [e] m' \<and> entry_type e = HOLD \<and> scope_id e = k \<and> check_line (line HOLD DEBIT k held None (or_else why (lit ''authorization hold'')) None) = Inr (amount e)
    \<and> dval (amount e) = dval held \<and> dval (signed_amount e) = - dval held \<and> a = authorization_for e
    \<and> map_of (s_holds (m_state m')) (entry_id e) = Some e \<and> m_transaction m' = m_transaction m"
proof -
  have "authorize_or k num why None True m = (m', Inr (Some a))"
    using assms(2) by (auto simp: authorize_def abind_Inr run_simps split: option.splits)
  from authorize_or_Inr [OF assms(1) this assms(3)] obtain held e where h: "cost num (m_unit m) = Inr held" "0 < dval held"
    "dval held \<le> dval (m_balance m k)" "halted_at m k = Inr None" "wrote n m [e] m'" "m_transaction m' = m_transaction m"
    "line_entry (line HOLD DEBIT k held None (or_else why (lit ''authorization hold'')) None) e" "a = authorization_for e" by blast
  have l: "entry_type e = HOLD" "scope_id e = k" "direction e = DEBIT"
    "check_line (line HOLD DEBIT k held None (or_else why (lit ''authorization hold'')) None) = Inr (amount e)"
    using h(7) by (simp_all add: line_entry_def)
  have am: "dval (amount e) = dval held" using line_amount [OF l(4)] by simp
  then have "dval (signed_amount e) = - dval held" using l(3) by (simp add: signed_amount_def)
  moreover have "map_of (s_holds (m_state m')) (entry_id e) = Some e"
    using one_more_holds(1) [of "m_ledger m" e "m_ledger m'"] wrote_one [OF h(5)] l(1) by simp
  ultimately show ?thesis using h(1-6) h(8) l(1,2,4) am by blast
qed

lemma auth_simps [simp]:
  "a_authorization_id (authorization_for e) = entry_id e" "a_scope_id (authorization_for e) = scope_id e"
  "a_amount (authorization_for e) = amount e" "a_entry (authorization_for e) = e" "authorization_for e = authorization_for h \<longleftrightarrow> e = h"
  by (auto simp: authorization_for_def)

lemma authorize_effect:
  assumes "gov_ok n m" "authorize k num why None m = (m', Inr a)" "w_drawn (m_world m') \<le> n"
  shows "\<exists>held. cost num (m_unit m) = Inr held \<and> 0 < dval held \<and> dval held \<le> dval (m_balance m k) \<and> halted_at m k = Inr None
    \<and> a_scope_id a = k \<and> dval (a_amount a) = dval held \<and> map_of (g_open_auths (m_ledger m')) (a_authorization_id a) = Some a
    \<and> (\<forall>j. dval (m_balance m' j) = dval (m_balance m j) - (if j = k then dval held else 0)) \<and> 0 \<le> dval (m_balance m' k)"
proof -
  from authorize_Inr [OF assms] obtain held e where h: "cost num (m_unit m) = Inr held" "0 < dval held" "dval held \<le> dval (m_balance m k)"
    "halted_at m k = Inr None" "wrote n m [e] m'" "scope_id e = k" "dval (amount e) = dval held" "dval (signed_amount e) = - dval held"
    "a = authorization_for e" "map_of (s_holds (m_state m')) (entry_id e) = Some e" by blast
  have "gov_ok n m'" using h(5) by (simp add: wrote_def)
  then have "map_of (g_open_auths (m_ledger m')) (entry_id e) = Some a" using auths_hold h(9,10) by simp
  moreover have b: "dval (m_balance m' j) = dval (m_balance m j) - (if j = k then dval held else 0)" for j
    using wrote_balance [OF h(5), of j] h(6,8) by simp
  moreover have "0 \<le> dval (m_balance m' k)" using b [of k] h(3) by simp
  ultimately show ?thesis using h by (intro exI [of _ held]) simp
qed

text \<open>C2: \<open>authorize\<close> grants a hold only to a running scope that can pay for it. The hold is the cost
  asked for, rounded up; exactly that leaves the scope's balance, which stays non-negative; no other
  balance moves; and the authorization returned is the open one.\<close>

theorem authorize_within_budget:
  assumes "gov_ok n m" "authorize k num why None m = (m', Inr a)" "w_drawn (m_world m') \<le> n"
  shows "\<exists>held. cost num (m_unit m) = Inr held \<and> 0 < dval held \<and> dval held \<le> dval (m_balance m k) \<and> halted_at m k = Inr None
    \<and> a_scope_id a = k \<and> dval (a_amount a) = dval held \<and> map_of (g_open_auths (m_ledger m')) (a_authorization_id a) = Some a
    \<and> (\<forall>j. dval (m_balance m' j) = dval (m_balance m j) - (if j = k then dval held else 0)) \<and> 0 \<le> dval (m_balance m' k)"
  by (rule authorize_effect [OF assms])

text \<open>And it does grant it: a running scope with the money gets its hold, when the governor is at
  rest with ids to draw, the scope's counters have room, the velocity window is not full, and the
  memo is one the ledger takes.\<close>

theorem authorize_grants:
  assumes "at_rest n 2 m" "named_scope m k" "halted_at m k = Inr None" "cost num (m_unit m) = Inr held" "0 < dval held"
    "dval held \<le> dval (m_balance m k)" "roomy m k (dval held)" "snd (record_velocity k (entered m)) = Inr ()"
    "check_text (or_else why (lit ''authorization hold'')) MAX_MEMO_BYTES False = None"
  shows "\<exists>m' a. authorize k num why None m = (m', Inr a) \<and> w_drawn (m_world m') = w_drawn (m_world m) + 2"
  by (rule authorize_succeeds [OF assms])

lemma sample_cost: "cost (ArgInt 1) USD = Inr (Dec 100000000 (- 8))" "dval (Dec 100000000 (- 8)) = 1"
  by (simp_all add: cost_def USD_def money_eval) (simp add: dval_def)

lemma sample_texts:
  "check_text (or_else [] (lit ''authorization hold'')) MAX_MEMO_BYTES False = None"
  "check_text (or_else [] (lit ''authorization voided'')) MAX_MEMO_BYTES False = None"
  by (simp_all add: or_else_def check_text_def MAX_MEMO_BYTES_def is_control_def)

lemma sample_grants:
  assumes "sample_opened m" "core m1 = core m" "m_policy m1 = m_policy m" "m_velocity m1 = m_velocity m"
  shows "at_rest 9 7 m1" "named_scope m1 (lit ''root'')" "halted_at m1 (lit ''root'') = Inr None" "m_unit m1 = USD"
    "dval (m_balance m1 (lit ''root'')) = 1" "a \<le> 10 ^ 12 \<Longrightarrow> roomy m1 (lit ''root'') a"
    "snd (record_velocity (lit ''root'') (entered m1)) = Inr ()"
proof -
  note r = sample_ready [OF assms(1)]
  have l: "m_ledger m1 = m_ledger m" using assms(2) by (simp_all add: core_def)
  show "at_rest 9 7 m1" using r(1) at_rest_core [OF assms(2)] by simp
  show "named_scope m1 (lit ''root'')" using r(2) by (simp add: named_scope_def l)
  show "halted_at m1 (lit ''root'') = Inr None" using r(3) halted_core [OF assms(2)] by simp
  show "m_unit m1 = USD" "dval (m_balance m1 (lit ''root'')) = 1" using r(4,6) sample_cost(2) by (simp_all add: l)
  show "a \<le> 10 ^ 12 \<Longrightarrow> roomy m1 (lit ''root'') a" using r(5) by (simp add: roomy_def l)
  have "m_policy m1 = default_policy" "m_velocity m1 = []" using assms by (simp_all add: sample_opened_def)
  then show "snd (record_velocity (lit ''root'') (entered m1)) = Inr ()"
    by (simp add: record_velocity_def abind_def asks_def default_policy_def monotonic_def modify_def Let_def ret_def dict_get_def)
       (simp add: entered_def)
qed

lemma sample_grant:
  assumes "sample_opened m" "core m1 = core m" "m_policy m1 = m_policy m" "m_velocity m1 = m_velocity m"
  shows "\<exists>m' a. authorize (lit ''root'') (ArgInt 1) [] None m1 = (m', Inr a) \<and> w_drawn (m_world m') = 4"
proof -
  note r = sample_grants [OF assms]
  have d: "w_drawn (m_world m1) = 2" using assms(1,2) by (simp add: core_def sample_opened_def)
  have "at_rest 9 2 m1" using r(1) by (auto simp: at_rest_def)
  then show ?thesis
    using authorize_succeeds [of 9 m1 "lit ''root''" "ArgInt 1" "Dec 100000000 (- 8)" "[]"] r sample_cost sample_texts(1) d
    by (simp del: lit_Cons)
qed

theorem authorize_grants_witness:
  "\<exists>m m' a. sample_root sample_manager = (m, Inr ()) \<and> authorize (lit ''root'') (ArgInt 1) [] None m = (m', Inr a)
     \<and> w_drawn (m_world m') = w_drawn (m_world m) + 2"
proof -
  obtain m where m: "sample_root sample_manager = (m, Inr ())" "sample_opened m" using sample_open by blast
  note r = sample_grants [OF m(2) refl refl refl]
  have "at_rest 9 2 m" using r(1) by (auto simp: at_rest_def)
  from authorize_grants [OF this, of "lit ''root''" "ArgInt 1" "Dec 100000000 (- 8)" "[]"] r sample_cost sample_texts(1) m(1)
  show ?thesis by (simp del: lit_Cons)
qed

theorem authorize_within_budget_witness:
  "\<exists>m m' a. sample_root sample_manager = (m, Inr ()) \<and> authorize (lit ''root'') (ArgInt 1) [] None m = (m', Inr a)
     \<and> dval (a_amount a) = 1 \<and> dval (m_balance m' (lit ''root'')) = 0"
proof -
  obtain m where m: "sample_root sample_manager = (m, Inr ())" "sample_opened m" using sample_open by blast
  obtain m' a where a: "authorize (lit ''root'') (ArgInt 1) [] None m = (m', Inr a)" "w_drawn (m_world m') = 4"
    using sample_grant [OF m(2) refl refl refl] by blast
  have "gov_ok 9 m" using m(2) by (simp add: sample_opened_def)
  from authorize_within_budget [OF this a(1)] a(2) have "dval (a_amount a) = 1 \<and> dval (m_balance m' (lit ''root'')) = dval (m_balance m (lit ''root'')) - 1"
    using sample_ready(6) [OF m(2)] sample_cost by (auto simp del: lit_Cons)
  then show ?thesis using m(1) a(1) sample_ready(4) [OF m(2)] sample_cost(2) by (simp del: lit_Cons)
qed

text \<open>A call that raises, after one that wrote: both are undone.\<close>

theorem failed_transaction_undone_witness:
  "\<exists>m m' e. sample_root sample_manager = (m, Inr ())
     \<and> transaction (block [(Authorize (lit ''root'') (ArgInt 1) [] None, False), (Trip (lit ''x'') [], False)]) m = (m', Inl e)
     \<and> dval (m_balance m' (lit ''root'')) = dval (m_balance m (lit ''root'')) \<and> verify_chain (m_ledger m') = Inr ()"
proof -
  obtain m where m: "sample_root sample_manager = (m, Inr ())" "sample_opened m" using sample_open by blast
  have idle: "gov_ok 9 m" "m_depth m = 0" "m_transaction m = None" using m(2) by (simp_all add: sample_opened_def)
  let ?m = "entered (m\<lparr> m_transaction := Some [] \<rparr>)"
  have same: "core ?m = core m" "m_policy ?m = m_policy m" "m_velocity ?m = m_velocity m" by (simp_all add: core_def) (simp add: entered_def)
  obtain m1 a where a: "authorize (lit ''root'') (ArgInt 1) [] None ?m = (m1, Inr a)" "w_drawn (m_world m1) = 4"
    using sample_grant [OF m(2) same] by blast
  have ok: "gov_ok 9 ?m" using idle(1) gov_ok_core [OF same(1)] by simp
  from authorize_Inr [OF ok a(1)] a(2) obtain e where e: "wrote 9 ?m [e] m1" "entry_type e = HOLD" "m_transaction m1 = Some []"
    by auto
  have "s_nodes (m_state m1) = s_nodes (m_state ?m)" using one_more_kept(1) wrote_one [OF e(1)] e(2) by auto
  then have none: "map_of (s_nodes (m_state m1)) (lit ''x'') = None" using m(2) by (simp add: sample_opened_def sample_state_def)
  let ?qs = "[(Authorize (lit ''root'') (ArgInt 1) [] None, False), (Trip (lit ''x'') [], False)]"
  have trip: "perform (Trip (lit ''x'') []) m1 = (left m1 (entered m1), Inl (UnknownScopeError (lit ''x'')))"
    using none by (simp add: trip_def mutating_run abind_def require_node_def del: lit_Cons)
  have blk: "block ?qs ?m = (left m1 (entered m1), Inl (UnknownScopeError (lit ''x'')))"
    using a(1) trip by (simp add: ignore_def abind_def ret_def del: lit_Cons)
  define m2 where "m2 = (left (m\<lparr> m_transaction := Some [] \<rparr>) (left m1 (entered m1)))\<lparr> m_transaction := None \<rparr>"
  have m2: "m_world m2 = m_world m1" by (simp add: m2_def)
  obtain m3 r where r: "roll_back (s_length (m_state m)) m2 = (m3, r)" by fastforce
  then have w3: "m_world m3 = m_world m1" using roll_back_world [of "s_length (m_state m)" m2] m2 by simp
  obtain x where t: "transaction (block ?qs) m = (m3, Inl x)"
    using idle blk r e(3) by (cases r) (simp_all add: transaction_def Let_def mutating_run m2_def del: block.simps lit_Cons)
  from failed_transaction_undone [OF idle t] w3 a(2)
  have "dval (m_balance m3 (lit ''root'')) = dval (m_balance m (lit ''root''))" "verify_chain (m_ledger m3) = Inr ()" by auto
  with m(1) t show ?thesis by blast
qed

section \<open>Refusals\<close>

lemma at_rest_less: "at_rest n j m \<Longrightarrow> i \<le> j \<Longrightarrow> at_rest n i m"
  by (auto simp: at_rest_def)

lemma trip_moves_nothing:
  assumes "gov_ok n m" "trip_breaker k why m = (m', Inr ())" "w_drawn (m_world m') \<le> n"
  shows "s_tripped (m_state m') k \<noteq> None" "dval (m_balance m' j) = dval (m_balance m j)" "gov_ok n m'"
    "s_nodes (m_state m') = s_nodes (m_state m)"
    "\<exists>new. g_entries (m_ledger m') = g_entries (m_ledger m) @ new \<and> (\<forall>e \<in> set new. entry_type e = CIRCUIT_TRIPPED \<and> scope_id e = k)"
proof -
  note t = trip_breaker_Inr [OF assms]
  show "s_tripped (m_state m') k \<noteq> None" using t by blast
  consider "m' = m" | e where "wrote n m [e] m'" "line_entry (trip_line k why) e" using t by blast
  then have "dval (m_balance m' j) = dval (m_balance m j) \<and> gov_ok n m' \<and> s_nodes (m_state m') = s_nodes (m_state m)
    \<and> (\<exists>new. g_entries (m_ledger m') = g_entries (m_ledger m) @ new \<and> (\<forall>e \<in> set new. entry_type e = CIRCUIT_TRIPPED \<and> scope_id e = k))"
  proof cases
    case 2
    have e: "entry_type e = CIRCUIT_TRIPPED" "direction e = NONE" "scope_id e = k" using 2(2) by (simp_all add: line_entry_def)
    have "dval (signed_amount e) = 0" using e(2) by (simp add: signed_amount_def)
    moreover have "s_nodes (m_state m') = s_nodes (m_state m)"
      using one_more_kept(1) [of "m_ledger m" e "m_ledger m'"] wrote_one [OF 2(1)] e(1) by simp
    ultimately show ?thesis using wrote_balance [OF 2(1), of j] 2(1) e by (simp add: wrote_def)
  qed (use assms(1) in simp)
  then show "dval (m_balance m' j) = dval (m_balance m j)" "gov_ok n m'" "s_nodes (m_state m') = s_nodes (m_state m)"
    "\<exists>new. g_entries (m_ledger m') = g_entries (m_ledger m) @ new \<and> (\<forall>e \<in> set new. entry_type e = CIRCUIT_TRIPPED \<and> scope_id e = k)"
    by blast+
qed

text \<open>C22: A scope that asks for more than it has is denied, with what it asked for and what it had, and its
  breaker is tripped. No money moves, and the chain gains nothing but the trip.\<close>

theorem overdraft_denied:
  assumes "at_rest n 2 m" "named_scope m k" "halted_at m k = Inr None" "cost num (m_unit m) = Inr held"
    "dval (m_balance m k) < dval held" "0 < dval held" "record_velocity k (entered m) = (m1, Inr ())" "y_trip_on_overdraft (m_policy m)" "roomy m k 0"
    "check_text (overdraft_text held (m_balance m k)) MAX_MEMO_BYTES False = None"
  shows "\<exists>m'. authorize k num why None m = (m', Inl (DenialOfWalletError held (m_balance m k) k False))
    \<and> s_tripped (m_state m') k \<noteq> None \<and> (\<forall>j. dval (m_balance m' j) = dval (m_balance m j))
    \<and> (\<exists>new. g_entries (m_ledger m') = g_entries (m_ledger m) @ new \<and> (\<forall>e \<in> set new. entry_type e = CIRCUIT_TRIPPED \<and> scope_id e = k))"
proof -
  note v = velocity_Inr [OF assms(7)]
  have c: "core m1 = core m" "m_ledger m1 = m_ledger m" "m_policy m1 = m_policy m" "w_drawn (m_world m1) = w_drawn (m_world m)"
    using v by (simp_all add: core_def)
  have rest: "at_rest n 2 m1" "named_scope m1 k" "roomy m1 k 0"
    using assms(1,2,9) at_rest_core [OF c(1)] c(2) by (simp_all add: named_scope_def roomy_def)
  from trip_succeeds [OF rest assms(10)] obtain m2 where t: "trip_breaker k (overdraft_text held (m_balance m k)) m1 = (m2, Inr ())"
    "w_drawn (m_world m2) \<le> n" using assms(1) c(4) by (fastforce simp: at_rest_def)
  have "gov_ok n m1" using rest(1) by (simp add: at_rest_def)
  note e = trip_moves_nothing [OF this t]
  obtain nd where nd: "map_of (s_nodes (m_state m)) k = Some nd" using assms(2) by (auto simp: named_scope_def)
  have "authorize k num why None m = (left m m2, Inl (DenialOfWalletError held (m_balance m k) k False))"
    unfolding authorize_def authorize_or_def
    using assms t nd c halted_core [of "entered m" m k]
    by (simp add: abind_def asks_def pure_def guard_def called_def replayed_call_def mutating_run require_node_def assert_not_halted_def
        dec_le_iff dec_lt_iff raise_def)
  then show ?thesis using e c(2) by simp
qed

text \<open>C3: A tripped breaker is a latch. Whatever is called afterwards, reset apart, no scope at or below it
  is granted a hold: \<open>authorize\<close> raises \<open>CircuitOpenError\<close> and leaves the ledger as it was.\<close>

theorem breaker_latches:
  assumes "gov_ok n m" "s_tripped (m_state m) j \<noteq> None" "list_all no_reset ss" "m' = serves m ss" "w_drawn (m_world m') \<le> n"
    and "ancestry m' k = Inr ks" "j \<in> set ks" "cost num (m_unit m') = Inr held" "0 < dval held"
  shows "\<exists>m'' t why'. authorize k num why None m' = (m'', Inl (CircuitOpenError k t why')) \<and> t \<in> set ks
    \<and> m_ledger m'' = m_ledger m'"
proof -
  have i: "gov_inv n m" using assms(1) by (simp add: gov_inv_def)
  have "gov_inv n m' \<and> (w_drawn (m_world m') \<le> n \<longrightarrow> s_tripped (m_state m') j \<noteq> None)"
    unfolding assms(4) by (rule latch.keeps_sessions) (use assms i in auto)
  then have m': "gov_ok n m'" "s_tripped (m_state m') j \<noteq> None" using assms(5) by (simp_all add: gov_inv_def)
  have wf: "ledger_wf (m_ledger m')" using m'(1) by (simp add: gov_ok_def)
  obtain nd where nd: "map_of (s_nodes (m_state m')) k = Some nd"
    using assms(6) by (auto simp: ancestry_def require_node_def Let_def split: option.splits)
  from below_tripped [OF wf nd assms(6,7) m'(2)] obtain t where t: "halted_at m' k = Inr (Some t)" "t \<in> set ks" by blast
  from halted_refuses [OF t(1) nd assms(8,9)] show ?thesis using t(2) by (fastforce simp: core_def)
qed

text \<open>C4: An authorization is settled at most once. Once its hold is closed, no matter what is called
  afterwards, \<open>void\<close> and \<open>capture\<close> of it raise \<open>DoubleSpendError\<close> and leave the ledger as it was.\<close>

theorem settled_stays_settled:
  assumes "gov_ok n m" "i \<in> entry_id ` set (g_entries (m_ledger m))" "i \<notin> fst ` set (s_holds (m_state m))"
    and "m' = serves m ss" "w_drawn (m_world m') \<le> n" "a_authorization_id a = i" "cost num (m_unit m') = Inr x" "0 \<le> dval x"
  shows "\<exists>m1 m2. void a why None m' = (m1, Inl (DoubleSpendError (a_scope_id a) i ''was already settled'')) \<and> m_ledger m1 = m_ledger m'
    \<and> capture a num why None m' = (m2, Inl (DoubleSpendError (a_scope_id a) i ''was already settled'')) \<and> m_ledger m2 = m_ledger m'"
proof -
  have g: "gov_inv n m" using assms(1) by (simp add: gov_inv_def)
  have "gov_inv n m' \<and> (w_drawn (m_world m') \<le> n \<longrightarrow> i \<in> entry_id ` set (g_entries (m_ledger m')) \<and> i \<notin> fst ` set (s_holds (m_state m')))"
    unfolding assms(4) by (rule settled.keeps_sessions) (use assms g in auto)
  then have "gov_ok n m'" "i \<notin> fst ` set (s_holds (m_state m'))" using assms(5) by (simp_all add: gov_inv_def)
  then have "map_of (g_open_auths (m_ledger m')) (a_authorization_id a) = None"
    using auths_hold assms(6) by (simp add: map_of_eq_None_iff)
  from settled_refuses(1) [OF this] settled_refuses(2) [OF this assms(7,8)] assms(6) show ?thesis by (fastforce simp: core_def)
qed

lemma trip_run:
  assumes "at_rest n 2 m" "named_scope m k" "roomy m k 0" "check_text why MAX_MEMO_BYTES False = None"
  shows "\<exists>m'. trip k why m = (m', Inr ()) \<and> s_tripped (m_state m') k \<noteq> None \<and> (\<forall>j. dval (m_balance m' j) = dval (m_balance m j))
    \<and> (\<forall>j ks. ancestry m' j = Inr ks \<and> k \<in> set ks \<longrightarrow> (\<exists>t. halted_at m' j = Inr (Some t)))"
proof -
  have rest: "at_rest n 2 (entered m)" "named_scope (entered m) k" "roomy (entered m) k 0"
    using assms(1-3) at_rest_core [of "entered m" m] by (simp_all add: named_scope_def roomy_def)
  from trip_succeeds [OF rest assms(4)] obtain m2 where t: "trip_breaker k why (entered m) = (m2, Inr ())" "w_drawn (m_world m2) \<le> n"
    using assms(1) by (fastforce simp: at_rest_def)
  have "gov_ok n (entered m)" using rest(1) by (simp add: at_rest_def)
  note e = trip_moves_nothing [OF this t]
  obtain nd where nd: "map_of (s_nodes (m_state m)) k = Some nd" using assms(2) by (auto simp: named_scope_def)
  have run: "trip k why m = (left m m2, Inr ())"
    using t(1) nd by (simp add: trip_def mutating_run abind_def require_node_def)
  have wf: "ledger_wf (m_ledger (left m m2))" using e(3) by (simp add: gov_ok_def)
  have "\<exists>t. halted_at (left m m2) j = Inr (Some t)" if a: "ancestry (left m m2) j = Inr ks" "k \<in> set ks" for j ks
  proof -
    obtain nd where "map_of (s_nodes (m_state (left m m2))) j = Some nd"
      using a(1) by (auto simp: ancestry_def require_node_def Let_def split: option.splits)
    from below_tripped [OF wf this a] e(1) show ?thesis by auto
  qed
  then show ?thesis using run e(1,2) by auto
qed

text \<open>A breaker that is tripped halts its scope and every scope below it, at once, and moves no money.\<close>

theorem trip_halts:
  assumes "at_rest n 2 m" "named_scope m k" "roomy m k 0" "check_text why MAX_MEMO_BYTES False = None"
  shows "\<exists>m'. trip k why m = (m', Inr ()) \<and> s_tripped (m_state m') k \<noteq> None \<and> (\<forall>j. dval (m_balance m' j) = dval (m_balance m j))
    \<and> (\<forall>j ks. ancestry m' j = Inr ks \<and> k \<in> set ks \<longrightarrow> (\<exists>t. halted_at m' j = Inr (Some t)))"
  by (rule trip_run [OF assms])

section \<open>Settling\<close>

lemma void_effect:
  assumes "gov_ok n m" "void a why None m = (m', Inr e)" "w_drawn (m_world m') \<le> n"
  shows "gov_ok n m'" "dval (m_balance m' j) = dval (m_balance m j) + (if j = a_scope_id a then dval (a_amount a) else 0)"
    "map_of (s_holds (m_state m')) (entry_id (a_entry a)) = None"
    "\<exists>hold. map_of (s_holds (m_state m)) (entry_id (a_entry a)) = Some hold \<and> dval (amount hold) = dval (a_amount a)"
proof -
  let ?l = "void_line a (or_else why (lit ''authorization voided''))"
  from void_Inr [OF assms] have w: "wrote n m [e] m'" "line_entry ?l e" by blast+
  then have l: "entry_type e = HOLD_VOID" "ref e = Some (entry_id (a_entry a))" "scope_id e = a_scope_id a" "direction e = CREDIT"
    "check_line ?l = Inr (amount e)" by (simp_all add: line_entry_def)
  have am: "dval (amount e) = dval (a_amount a)" using line_amount [OF l(5)] by simp
  show "gov_ok n m'" using w(1) by (simp add: wrote_def)
  show "dval (m_balance m' j) = dval (m_balance m j) + (if j = a_scope_id a then dval (a_amount a) else 0)"
    using wrote_balance [OF w(1), of j] l(3,4) am by (simp add: signed_amount_def)
  show "map_of (s_holds (m_state m')) (entry_id (a_entry a)) = None"
    "\<exists>hold. map_of (s_holds (m_state m)) (entry_id (a_entry a)) = Some hold \<and> dval (amount hold) = dval (a_amount a)"
    using wrote_settles [OF w(1) l(1,2)] am by auto
qed

lemma hold_roomy:
  assumes w: "wrote n m [e] m'" and e: "entry_type e = HOLD" "scope_id e = k" "dval (signed_amount e) = - dval (amount e)"
    and r: "roomy m k (2 * dval (amount e) + b)" "0 \<le> dval (amount e)"
  shows "roomy m' k b"
proof -
  have one: "one_more (m_ledger m) e (m_ledger m')" using wrote_one [OF w] by simp
  note kept = one_more_kept(2,3) [OF one]
  have spent: "chain_spent_by (m_state m') k = chain_spent_by (m_state m) k" using kept(1) e(1) by simp
  have tot: "dval (t_holds_open (s_totals (m_state m'))) = dval (t_holds_open (s_totals (m_state m))) + dval (amount e)"
    "t_spent (s_totals (m_state m')) = t_spent (s_totals (m_state m))"
    using kept(2) e(1) by (auto simp: apply_totals_def Let_def dest!: dval_ctx_add sym [where t = "s_totals (m_state m')"])
  have "dval (m_balance m' k) = dval (m_balance m k) - dval (amount e)"
    using wrote_balance [OF w, of k] e by simp
  then show ?thesis using r spent tot by (simp add: roomy_def) linarith
qed

lemma granted:
  assumes "at_rest n (j + 2) m" "named_scope m k" "halted_at m k = Inr None" "cost num (m_unit m) = Inr held" "0 < dval held"
    "dval held \<le> dval (m_balance m k)" "roomy m k (2 * dval held + b)" "0 \<le> b" "snd (record_velocity k (entered m)) = Inr ()"
    "check_text (or_else why (lit ''authorization hold'')) MAX_MEMO_BYTES False = None"
  obtains m1 e where "authorize k num why None m = (m1, Inr (authorization_for e))" "w_drawn (m_world m1) = w_drawn (m_world m) + 2"
    "at_rest n j m1" "map_of (s_holds (m_state m1)) (entry_id e) = Some e" "scope_id e = k" "named_scope m1 k" "m_unit m1 = m_unit m"
    "unit_amount (m_unit m1) (amount e)" "dval (amount e) = dval held" "roomy m1 k b"
    "\<And>i. dval (m_balance m1 i) = dval (m_balance m i) - (if i = k then dval held else 0)" "wrote n m [e] m1"
proof -
  have u: "unit_wf (m_unit m)" and ok: "gov_ok n m" and n: "w_drawn (m_world m) + 2 \<le> n" using assms(1) by (simp_all add: at_rest_def)
  have room: "roomy m k (dval held)" using assms(5,7,8) by (auto simp: roomy_def)
  have rest: "at_rest n 2 m" using assms(1) by (rule at_rest_less) simp
  from authorize_succeeds [OF rest assms(2-6) room assms(9,10)] obtain m1 a where
    a: "authorize k num why None m = (m1, Inr a)" "w_drawn (m_world m1) = w_drawn (m_world m) + 2" by auto
  have n1: "w_drawn (m_world m1) \<le> n" using a(2) n by simp
  from authorize_Inr [OF ok a(1) n1] assms(4) obtain e where e: "wrote n m [e] m1" "entry_type e = HOLD" "scope_id e = k"
    "check_line (line HOLD DEBIT k held None (or_else why (lit ''authorization hold'')) None) = Inr (amount e)"
    "dval (amount e) = dval held" "dval (signed_amount e) = - dval held" "a = authorization_for e"
    "map_of (s_holds (m_state m1)) (entry_id e) = Some e" by auto
  have rest1: "at_rest n j m1" using wrote_at_rest [OF assms(1) e(1)] a(2) by simp
  note amt0 = cost_amount [OF u assms(4,5)]
  have "check_line (line HOLD DEBIT k held None (or_else why (lit ''authorization hold'')) None) = Inr held"
    using amount_line [of "m_unit m" "line HOLD DEBIT k held None (or_else why (lit ''authorization hold'')) None"] amt0 assms(2,10)
    by (simp add: zero_value_type_def named_scope_def del: lit_Cons)
  then have amt: "unit_amount (m_unit m1) (amount e)" using e(1,4) amt0 by (simp add: wrote_def)
  have "s_nodes (m_state m1) = s_nodes (m_state m)" using one_more_kept(1) wrote_one [OF e(1)] e(2) by auto
  then have k: "named_scope m1 k" using assms(2) by (simp add: named_scope_def)
  have r: "roomy m1 k b" using hold_roomy [OF e(1,2,3), where b = b] e(5,6) assms(5,7) by simp
  have bal: "dval (m_balance m1 i) = dval (m_balance m i) - (if i = k then dval held else 0)" for i
    using wrote_balance [OF e(1), of i] e(3,6) by simp
  have "m_unit m1 = m_unit m" using e(1) by (simp add: wrote_def)
  with that [of m1 e] a e(1,3,5,7,8) rest1 k amt r bal show thesis by simp
qed

lemma hold_given_back:
  assumes "at_rest n 4 m" "named_scope m k" "halted_at m k = Inr None" "cost num (m_unit m) = Inr held" "0 < dval held"
    "dval held \<le> dval (m_balance m k)" "roomy m k (3 * dval held)" "snd (record_velocity k (entered m)) = Inr ()"
    "check_text (or_else why (lit ''authorization hold'')) MAX_MEMO_BYTES False = None"
    "check_text (or_else why' (lit ''authorization voided'')) MAX_MEMO_BYTES False = None"
  shows "\<exists>m1 a m2 e. authorize k num why None m = (m1, Inr a) \<and> void a why' None m1 = (m2, Inr e)
    \<and> dval (m_balance m1 k) < dval (m_balance m k) \<and> (\<forall>j. dval (m_balance m2 j) = dval (m_balance m j))
    \<and> map_of (s_holds (m_state m1)) (a_authorization_id a) \<noteq> None \<and> map_of (s_holds (m_state m2)) (a_authorization_id a) = None"
proof -
  have "roomy m k (2 * dval held + dval held)" using assms(7) by simp
  from granted [of n 2 m k num held "dval held" why, OF _ assms(2-6) this _ assms(8,9)] assms(1,5) obtain m1 e where
    a: "authorize k num why None m = (m1, Inr (authorization_for e))" "w_drawn (m_world m1) = w_drawn (m_world m) + 2"
    "at_rest n 2 m1" "map_of (s_holds (m_state m1)) (entry_id e) = Some e" "scope_id e = k" "named_scope m1 k"
    "unit_amount (m_unit m1) (amount e)" "dval (amount e) = dval held" "roomy m1 k (dval held)"
    "\<And>i. dval (m_balance m1 i) = dval (m_balance m i) - (if i = k then dval held else 0)"
    by (simp del: lit_Cons) metis
  from void_succeeds [OF a(3,4) _ a(7) _ assms(10)] a(5,6,8,9) obtain m2 v where
    v: "void (authorization_for e) why' None m1 = (m2, Inr v)" "w_drawn (m_world m2) = w_drawn (m_world m1) + 2" by auto
  have "gov_ok n m1" "w_drawn (m_world m2) \<le> n" using a(3) v(2) by (simp_all add: at_rest_def)
  note ve = void_effect [OF this(1) v(1) this(2)]
  show ?thesis using a(1,4,5,8,10) v(1) ve(2,3) assms(5)
    by (intro exI [of _ m1] exI [of _ "authorization_for e"] exI [of _ m2] exI [of _ v]) simp
qed

text \<open>A hold can be given back. A scope that is granted a hold and voids it has, as every other scope,
  the balance it had before, and the hold is closed. Both calls succeed.\<close>

theorem void_gives_back:
  assumes "at_rest n 4 m" "named_scope m k" "halted_at m k = Inr None" "cost num (m_unit m) = Inr held" "0 < dval held"
    "dval held \<le> dval (m_balance m k)" "roomy m k (3 * dval held)" "snd (record_velocity k (entered m)) = Inr ()"
    "check_text (or_else why (lit ''authorization hold'')) MAX_MEMO_BYTES False = None"
    "check_text (or_else why' (lit ''authorization voided'')) MAX_MEMO_BYTES False = None"
  shows "\<exists>m1 a m2 e. authorize k num why None m = (m1, Inr a) \<and> void a why' None m1 = (m2, Inr e)
    \<and> dval (m_balance m1 k) < dval (m_balance m k) \<and> (\<forall>j. dval (m_balance m2 j) = dval (m_balance m j))
    \<and> map_of (s_holds (m_state m1)) (a_authorization_id a) \<noteq> None \<and> map_of (s_holds (m_state m2)) (a_authorization_id a) = None"
  by (rule hold_given_back [OF assms])

lemma capture_effect:
  assumes "gov_ok n m" "capture a num why None m = (m', Inr e)" "w_drawn (m_world m') \<le> n"
  shows "\<exists>x. cost num (m_unit m) = Inr x \<and> 0 \<le> dval x
    \<and> map_of (s_holds (m_state m)) (entry_id (a_entry a)) \<noteq> None \<and> map_of (s_holds (m_state m')) (entry_id (a_entry a)) = None
    \<and> (\<forall>j. dval (m_balance m' j) = dval (m_balance m j) + (if j = a_scope_id a then dval (a_amount a) - dval x else 0))
    \<and> entry_type e = (if dval x = 0 then HOLD_VOID else SPEND) \<and> ref e = Some (entry_id (a_entry a))"
proof -
  from capture_Inr [OF assms] obtain x where x: "cost num (m_unit m) = Inr x" "0 \<le> dval x"
    and c: "if dval x = 0 then wrote n m [e] m' \<and> line_entry (void_line a (or_else why (lit ''captured at zero cost''))) e
       else captured n a x why m e m' \<and> 0 \<le> dval (balance_after e)" by blast
  show ?thesis
  proof (cases "dval x = 0")
    case True
    with c have w: "wrote n m [e] m'" "line_entry (void_line a (or_else why (lit ''captured at zero cost''))) e" by simp_all
    then have l: "entry_type e = HOLD_VOID" "ref e = Some (entry_id (a_entry a))" "scope_id e = a_scope_id a"
      "dval (signed_amount e) = dval (a_amount a)"
      using line_amount by (auto simp: line_entry_def signed_amount_def simp del: lit_Cons)
    show ?thesis using x True wrote_settles [OF w(1) l(1,2)] wrote_balance [OF w(1)] l by auto
  next
    case False
    with c have cap: "captured n a x why m e m'" by simp
    have "entry_type e = SPEND" "ref e = Some (entry_id (a_entry a))" using cap by (auto simp: captured_def line_entry_def simp del: lit_Cons)
    then show ?thesis using x False captured_money [OF cap] by auto
  qed
qed

text \<open>C8: \<open>capture\<close> settles a hold for what the call really cost. It closes the hold, gives its amount back and
  books the cost, rounded up, as spend; no other scope's balance moves, and none is left negative.
  A free call voids the hold.\<close>

theorem capture_settles:
  assumes "gov_ok n m" "capture a num why None m = (m', Inr e)" "w_drawn (m_world m') \<le> n"
  shows "\<exists>x. cost num (m_unit m) = Inr x \<and> 0 \<le> dval x
    \<and> map_of (s_holds (m_state m)) (entry_id (a_entry a)) \<noteq> None \<and> map_of (s_holds (m_state m')) (entry_id (a_entry a)) = None
    \<and> (\<forall>j. dval (m_balance m' j) = dval (m_balance m j) + (if j = a_scope_id a then dval (a_amount a) - dval x else 0))
    \<and> entry_type e = (if dval x = 0 then HOLD_VOID else SPEND) \<and> ref e = Some (entry_id (a_entry a))"
  by (rule capture_effect [OF assms])

section \<open>The promises tried out\<close>

lemma sample_granted:
  assumes "sample_opened m"
  obtains m1 a e where "authorize (lit ''root'') (ArgInt 1) [] None m = (m1, Inr a)" "w_drawn (m_world m1) = 4" "gov_ok 9 m1"
    "map_of (s_holds (m_state m1)) (a_authorization_id a) = Some e" "a = authorization_for e" "at_rest 9 5 m1" "m_unit m1 = USD"
    "named_scope m1 (scope_id e)" "unit_amount (m_unit m1) (amount e)" "\<And>b. b \<le> 10 ^ 11 \<Longrightarrow> roomy m1 (scope_id e) b" "dval (amount e) = 1"
    "scope_id e = lit ''root''" "dval (m_balance m1 (lit ''root'')) = 0"
proof -
  note r = sample_grants [OF assms refl refl refl]
  have rest: "at_rest 9 4 m" using r(1) by (rule at_rest_less) simp
  have u: "unit_wf USD" by (simp add: money_eval)
  have ok: "gov_ok 9 m" using assms by (simp add: sample_opened_def)
  obtain m1 a where a: "authorize (lit ''root'') (ArgInt 1) [] None m = (m1, Inr a)" "w_drawn (m_world m1) = 4"
    using sample_grant [OF assms refl refl refl] by blast
  have n: "w_drawn (m_world m1) \<le> 9" using a(2) by simp
  from authorize_Inr [OF ok a(1) n] r(4) sample_cost obtain e where e: "wrote 9 m [e] m1" "entry_type e = HOLD" "scope_id e = lit ''root''"
    "check_line (line HOLD DEBIT (lit ''root'') (Dec 100000000 (- 8)) None (or_else [] (lit ''authorization hold'')) None) = Inr (amount e)"
    "dval (amount e) = 1" "dval (signed_amount e) = - 1" "a = authorization_for e" "map_of (s_holds (m_state m1)) (entry_id e) = Some e"
    by (auto simp del: lit_Cons)
  have amt: "unit_amount USD (Dec 100000000 (- 8))" using cost_amount [OF u sample_cost(1)] sample_cost(2) by simp
  have "check_line (line HOLD DEBIT (lit ''root'') (Dec 100000000 (- 8)) None (or_else [] (lit ''authorization hold'')) None) = Inr (Dec 100000000 (- 8))"
    using amount_line [of USD "line HOLD DEBIT (lit ''root'') (Dec 100000000 (- 8)) None (or_else [] (lit ''authorization hold'')) None"]
      amt r(2) sample_texts(1) by (simp add: zero_value_type_def named_scope_def del: lit_Cons)
  with e(4) amt have "unit_amount USD (amount e)" by simp
  moreover have "named_scope m1 (scope_id e)"
    using one_more_kept(1) [of "m_ledger m" e "m_ledger m1"] wrote_one [OF e(1)] e(2,3) r(2) by (simp add: named_scope_def del: lit_Cons)
  moreover have "roomy m1 (scope_id e) b" if "b \<le> 10 ^ 11" for b
    using hold_roomy [OF e(1,2) refl, where b = b] e(3,5,6) r(6) [of "2 + b"] that by (simp del: lit_Cons)
  moreover have "at_rest 9 5 m1" using wrote_at_rest [OF r(1) e(1)] a(2) assms by (simp add: sample_opened_def)
  moreover have "m_unit m1 = USD" "gov_ok 9 m1" using e(1) r(4) by (simp_all add: wrote_def)
  ultimately show thesis
    using that [of m1 a e] a e(3,5,7,8) wrote_balance [OF e(1), of "lit ''root''"] e(6) r(5) by (simp del: lit_Cons)
qed

lemma sample_voided:
  assumes "sample_opened m"
  obtains m1 a m2 v where "authorize (lit ''root'') (ArgInt 1) [] None m = (m1, Inr a)" "void a (lit ''x'') None m1 = (m2, Inr v)"
    "w_drawn (m_world m2) = 6" "gov_ok 9 m1" "gov_ok 9 m2" "m_unit m2 = USD" "m_unit m1 = USD" "entry_id (a_entry a) = a_authorization_id a"
    "a_authorization_id a \<in> entry_id ` set (g_entries (m_ledger m2))" "a_authorization_id a \<notin> fst ` set (s_holds (m_state m2))"
proof -
  obtain m1 a e where a: "authorize (lit ''root'') (ArgInt 1) [] None m = (m1, Inr a)" "w_drawn (m_world m1) = 4" "gov_ok 9 m1"
    "map_of (s_holds (m_state m1)) (a_authorization_id a) = Some e" "a = authorization_for e" "at_rest 9 5 m1" "m_unit m1 = USD"
    "named_scope m1 (scope_id e)" "unit_amount (m_unit m1) (amount e)" "\<And>b. b \<le> 10 ^ 11 \<Longrightarrow> roomy m1 (scope_id e) b" "dval (amount e) = 1"
    "scope_id e = lit ''root''" "dval (m_balance m1 (lit ''root'')) = 0"
    using assms by (rule sample_granted) blast
  have t: "check_text (or_else (lit ''x'') (lit ''authorization voided'')) MAX_MEMO_BYTES False = None"
    by (simp add: or_else_def check_text_def MAX_MEMO_BYTES_def is_control_def)
  have "at_rest 9 2 m1" using a(6) by (rule at_rest_less) simp
  from void_succeeds [OF this _ a(8,9) a(10) t] a(4,5,11) obtain m2 v where v: "void a (lit ''x'') None m1 = (m2, Inr v)" "w_drawn (m_world m2) = 6"
    using a(2) by auto
  have n: "w_drawn (m_world m2) \<le> 9" using v(2) by simp
  note ve = void_effect [OF a(3) v(1) n]
  from void_Inr [OF a(3) v(1) n] have w: "wrote 9 m1 [v] m2" by blast
  have w1: "wrote 9 m [e] m1"
    using authorize_Inr [OF _ a(1), of 9] a(2,4,5) assms by (auto simp: sample_opened_def)
  have "e \<in> set (g_entries (m_ledger m1))" using w1 by (simp add: wrote_def)
  then have "a_authorization_id a \<in> entry_id ` set (g_entries (m_ledger m2))" using w a(5) by (auto simp: wrote_def)
  moreover have "a_authorization_id a \<notin> fst ` set (s_holds (m_state m2))" using ve(3) a(5) by (simp add: map_of_eq_None_iff)
  moreover have "m_unit m2 = USD" using w a(7) by (simp add: wrote_def)
  ultimately show thesis using that [OF a(1) v ] a(3,5,7) ve(1) by simp
qed

theorem void_gives_back_witness:
  "\<exists>m m1 a m2 e. sample_root sample_manager = (m, Inr ()) \<and> authorize (lit ''root'') (ArgInt 1) [] None m = (m1, Inr a)
     \<and> void a [] None m1 = (m2, Inr e) \<and> dval (m_balance m2 (lit ''root'')) = dval (m_balance m (lit ''root''))"
proof -
  obtain m where m: "sample_root sample_manager = (m, Inr ())" "sample_opened m" using sample_open by blast
  note r = sample_grants [OF m(2) refl refl refl]
  have "at_rest 9 4 m" using r(1) by (rule at_rest_less) simp
  from void_gives_back [OF this, of "lit ''root''" "ArgInt 1" "Dec 100000000 (- 8)" "[]" "[]"] r sample_cost sample_texts
  have "\<exists>m1 a m2 e. authorize (lit ''root'') (ArgInt 1) [] None m = (m1, Inr a)
     \<and> void a [] None m1 = (m2, Inr e) \<and> (\<forall>j. dval (m_balance m2 j) = dval (m_balance m j))" by (simp del: lit_Cons) blast
  with m(1) show ?thesis by blast
qed

theorem settled_stays_settled_witness:
  "\<exists>m1 a m2 v m3 m4. void a (lit ''x'') None m1 = (m2, Inr v) \<and> m3 = serves m2 [Call (Anchor (lit ''root'') [])]
     \<and> void a [] None m3 = (m4, Inl (DoubleSpendError (a_scope_id a) (a_authorization_id a) ''was already settled''))"
proof -
  obtain m where m: "sample_opened m" using sample_open by blast
  obtain m1 a m2 v where a: "authorize (lit ''root'') (ArgInt 1) [] None m = (m1, Inr a)" "void a (lit ''x'') None m1 = (m2, Inr v)"
    "w_drawn (m_world m2) = 6" "gov_ok 9 m1" "gov_ok 9 m2" "m_unit m2 = USD" "m_unit m1 = USD" "entry_id (a_entry a) = a_authorization_id a"
    "a_authorization_id a \<in> entry_id ` set (g_entries (m_ledger m2))" "a_authorization_id a \<notin> fst ` set (s_holds (m_state m2))"
    using m by (rule sample_voided)
  have s: "serves m2 [Call (Anchor (lit ''root'') [])] = m2"
    by (simp add: serves_def ignore_def anchor_def abind_def guard_def del: lit_Cons)
  have "w_drawn (m_world m2) \<le> 9" "cost (ArgInt 1) (m_unit m2) = Inr (Dec 100000000 (- 8))" "0 \<le> dval (Dec 100000000 (- 8))"
    using a(3,6) sample_cost by simp_all
  from settled_stays_settled [OF a(5,9,10) s [symmetric] this(1) refl this(2,3)] a(2) s show ?thesis by metis
qed

lemma sample_amounts: "dec_str (Dec 100000000 (- 8)) = lit ''1.00000000''" "dec_str (Dec 200000000 (- 8)) = lit ''2.00000000''"
  by (simp_all add: dec_str_def Let_def digits.simps)

theorem overdraft_denied_witness:
  "\<exists>m m' x y. sample_root sample_manager = (m, Inr ())
     \<and> authorize (lit ''root'') (ArgInt 2) [] None m = (m', Inl (DenialOfWalletError x y (lit ''root'') False))
     \<and> s_tripped (m_state m') (lit ''root'') \<noteq> None"
proof -
  obtain m where m: "sample_root sample_manager = (m, Inr ())" "sample_opened m" using sample_open by blast
  note r = sample_grants [OF m(2) refl refl refl]
  have rest: "at_rest 9 2 m" using r(1) by (rule at_rest_less) simp
  have c: "cost (ArgInt 2) (m_unit m) = Inr (Dec 200000000 (- 8))" unfolding r(4) by (simp add: cost_def USD_def money_eval)
  have v: "dval (Dec 200000000 (- 8)) = 2" by (simp add: dval_def)
  obtain m1 where m1: "record_velocity (lit ''root'') (entered m) = (m1, Inr ())" using r(7) by (metis prod.collapse)
  have b: "m_balance m (lit ''root'') = Dec 100000000 (- 8)" using sample_ready(4) [OF m(2)] .
  have t: "check_text (overdraft_text (Dec 200000000 (- 8)) (m_balance m (lit ''root''))) MAX_MEMO_BYTES False = None"
    unfolding b overdraft_text_def sample_amounts by (simp add: check_text_def MAX_MEMO_BYTES_def is_control_def)
  have y: "y_trip_on_overdraft (m_policy m)" using m(2) by (simp add: sample_opened_def default_policy_def)
  from overdraft_denied [OF rest r(2,3) c _ _ m1 y r(6) t] r(5) v m(1) show ?thesis by (simp del: lit_Cons) blast
qed

lemma sample_trip_text: "check_text (lit ''x'') MAX_MEMO_BYTES False = None"
  by (simp add: check_text_def MAX_MEMO_BYTES_def is_control_def)

theorem trip_halts_witness:
  "\<exists>m m'. sample_root sample_manager = (m, Inr ()) \<and> trip (lit ''root'') (lit ''x'') m = (m', Inr ())
     \<and> s_tripped (m_state m') (lit ''root'') \<noteq> None"
proof -
  obtain m where m: "sample_root sample_manager = (m, Inr ())" "sample_opened m" using sample_open by blast
  note r = sample_grants [OF m(2) refl refl refl]
  have rest: "at_rest 9 2 m" using r(1) by (rule at_rest_less) simp
  from trip_halts [OF rest r(2) r(6) sample_trip_text] m(1) show ?thesis by (simp del: lit_Cons) blast
qed

theorem breaker_latches_witness:
  "\<exists>m m' m'' t why. s_tripped (m_state m) (lit ''root'') \<noteq> None \<and> m' = serves m [Call (Anchor (lit ''root'') [])]
     \<and> authorize (lit ''root'') (ArgInt 1) [] None m' = (m'', Inl (CircuitOpenError (lit ''root'') t why))"
proof -
  obtain m0 where m0: "sample_opened m0" using sample_open by blast
  note r = sample_grants [OF m0 refl refl refl]
  have rest: "at_rest 9 2 m0" using r(1) by (rule at_rest_less) simp
  obtain m where t: "trip_breaker (lit ''root'') (lit ''x'') m0 = (m, Inr ())" "w_drawn (m_world m) \<le> 9"
    using trip_succeeds [OF rest r(2) r(6) sample_trip_text] m0 by (fastforce simp: sample_opened_def)
  have ok: "gov_ok 9 m0" using m0 by (simp add: sample_opened_def)
  note e = trip_moves_nothing [OF ok t]
  have s: "m = serves m [Call (Anchor (lit ''root'') [])]"
    by (simp add: serves_def ignore_def anchor_def abind_def guard_def del: lit_Cons)
  have wf: "ledger_wf (m_ledger m)" using e(3) by (simp add: gov_ok_def)
  have nd: "map_of (s_nodes (m_state m)) (lit ''root'') = Some sample_node" using sample_ready(9) [OF m0] e(4) by simp
  from walks [OF wf nd] obtain ks where ks: "ancestry m (lit ''root'') = Inr (lit ''root'' # ks)" by blast
  have "m_unit m = USD" using trip_breaker_Inr [OF ok t] r(4) by (auto simp: wrote_def)
  then have c: "cost (ArgInt 1) (m_unit m) = Inr (Dec 100000000 (- 8))" using sample_cost by simp
  have "list_all no_reset [Call (Anchor (lit ''root'') [])]" "0 < dval (Dec 100000000 (- 8))" by (simp_all add: sample_cost del: lit_Cons)
  from breaker_latches [OF e(3,1) this(1) s t(2) ks _ c this(2), of "[]"] e(1) s show ?thesis by (simp del: lit_Cons) metis
qed

lemma entered_twice: "entered (entered m) = entered m" "left (entered m) m1 = m1"
  by (simp_all add: entered_def left_def)

lemma capture_free:
  assumes "cost num (m_unit m) = Inr x" "dval x = 0" "why \<noteq> []"
  shows "capture a num why None m = void a why None m"
  using assms
  by (auto simp: capture_def capture_locked_def void_def abind_def asks_def pure_def guard_def called_def replayed_call_def mutating_run
      require_open_authorization_def dec_lt_iff dec_eq_iff or_else_def entered_twice split: prod.split)

theorem capture_settles_witness:
  "\<exists>m1 a m2 v. capture a (ArgInt 0) (lit ''x'') None m1 = (m2, Inr v) \<and> entry_type v = HOLD_VOID
     \<and> map_of (s_holds (m_state m1)) (entry_id (a_entry a)) \<noteq> None \<and> map_of (s_holds (m_state m2)) (entry_id (a_entry a)) = None"
proof -
  obtain m where m: "sample_opened m" using sample_open by blast
  obtain m1 a m2 v where a: "authorize (lit ''root'') (ArgInt 1) [] None m = (m1, Inr a)" "void a (lit ''x'') None m1 = (m2, Inr v)"
    "w_drawn (m_world m2) = 6" "gov_ok 9 m1" "gov_ok 9 m2" "m_unit m2 = USD" "m_unit m1 = USD" "entry_id (a_entry a) = a_authorization_id a"
    "a_authorization_id a \<in> entry_id ` set (g_entries (m_ledger m2))" "a_authorization_id a \<notin> fst ` set (s_holds (m_state m2))"
    using m by (rule sample_voided)
  have z: "cost (ArgInt 0) (m_unit m1) = Inr (Dec 0 (- 8))" "dval (Dec 0 (- 8)) = 0"
    unfolding a(7) by (simp_all add: cost_def USD_def money_eval dval_def)
  have c: "capture a (ArgInt 0) (lit ''x'') None m1 = (m2, Inr v)" using capture_free [OF z] a(2) by simp
  have "w_drawn (m_world m2) \<le> 9" using a(3) by simp
  from capture_settles [OF a(4) c this] z(1) have "entry_type v = HOLD_VOID \<and> map_of (s_holds (m_state m1)) (entry_id (a_entry a)) \<noteq> None
     \<and> map_of (s_holds (m_state m2)) (entry_id (a_entry a)) = None" using z(2) by auto
  with c show ?thesis by blast
qed

end
