(* ===== verification/Cognitive.thy ===== *)
theory Cognitive
  imports Promises
begin

text \<open>
  The cognitive breaker (\<open>cognitive.py\<close>): what an agent's calls look like, the three inline detectors, the
  semantic observer on its lane, and the breaker that keeps a history per trajectory, latches the ones
  found looping and trips the governor's breaker. A field \<open>_x\<close> of \<open>CognitiveBreaker\<close> is \<open>k_x\<close>, of a
  trajectory \<open>j_x\<close>, of a call \<open>c_x\<close>, of a policy \<open>w_x\<close>.

  Not code of the repository, and so arguments of the definitions: the salted BLAKE2b digest
  (\<open>digest\<close>), the redactor (\<open>redact\<close>), the text of a float or of a quoted name in a message, and the
  rounding of an exact quotient to a float (\<open>fl\<close>). Evidence, log lines and timestamps of calls are
  left out. A \<open>ToolCall\<close> is shared between the history and the windows waiting on the lane and gets its result
  later, so results are kept in a store by the identity of the call (\<open>k_results\<close>).
\<close>

section \<open>Calls and similarity\<close>

record tool_call =
  c_id :: nat
  c_sequence :: nat
  c_scope :: scope_id
  c_tool :: ustr
  c_arguments :: ustr
  c_fingerprint :: ustr
  c_shingles :: "ustr set"
  c_result :: "ustr set option"

record verdict =
  z_detector :: string
  z_reason :: ustr
  z_confidence :: rat
  z_observations :: nat
  z_tier :: string

text \<open>\<open>text[-k:]\<close>, which is the whole text for \<open>k = 0\<close>.\<close>

definition last_n :: "nat \<Rightarrow> 'a list \<Rightarrow> 'a list" where
  "last_n k t = (if k = 0 then t else drop (length t - k) t)"

definition UNIT_SEPARATOR :: nat where
  "UNIT_SEPARATOR = 0x1F"

definition shingles :: "nat \<Rightarrow> nat \<Rightarrow> ustr \<Rightarrow> ustr set" where
  "shingles size_n max_chars t0 =
     (let half = max_chars div 2;
          t = (if max_chars < length t0 then take half t0 @ [UNIT_SEPARATOR] @ last_n half t0 else t0)
      in if length t \<le> size_n then {t} else set (map (\<lambda>i. take size_n (drop i t)) [0 ..< length t - size_n + 1]))"

definition jaccard :: "(rat \<Rightarrow> rat) \<Rightarrow> ustr set \<Rightarrow> ustr set \<Rightarrow> rat \<Rightarrow> rat" where
  "jaccard fl l r least =
     (if l = {} \<or> r = {} then (if l = r then 1 else 0)
      else if 0 < least \<and> fl (of_nat (min (card l) (card r)) / of_nat (max (card l) (card r))) < least then 0
      else if card (l \<union> r) = 0 then 0 else fl (of_nat (card (l \<inter> r)) / of_nat (card (l \<union> r))))"

text \<open>\<open>extract_result_text\<close>: the text in a model's answer, a few levels deep.\<close>

datatype answer = A_Str ustr | A_Bytes | A_Map "(string \<times> answer) list" | A_Seq "answer list" | A_Obj "(string \<times> answer) list"

definition RESULT_TEXT_ATTRS :: "string list" where
  "RESULT_TEXT_ATTRS = [''content'', ''text'', ''thinking'', ''completion'']"

fun walk_result_text :: "nat \<Rightarrow> answer \<Rightarrow> ustr list" where
  "walk_result_text 0 v = []"
| "walk_result_text (Suc d) (A_Str t) = [t]"
| "walk_result_text (Suc d) A_Bytes = []"
| "walk_result_text (Suc d) (A_Map kvs) = concat (map (\<lambda>k. case map_of kvs k of None \<Rightarrow> [] | Some v \<Rightarrow> walk_result_text d v) RESULT_TEXT_ATTRS)"
| "walk_result_text (Suc d) (A_Seq vs) = concat (map (walk_result_text d) vs)"
| "walk_result_text (Suc d) (A_Obj attrs) = (case List.find (\<lambda>k. map_of attrs k \<noteq> None) RESULT_TEXT_ATTRS of
     None \<Rightarrow> [] | Some k \<Rightarrow> walk_result_text d (the (map_of attrs k)))"

definition extract_result_text :: "answer \<Rightarrow> ustr option" where
  "extract_result_text v = (let joined = strip (concat (walk_result_text 6 v)) in if joined = [] then None else Some joined)"

section \<open>The inline detectors\<close>

record messages =
  say_repeat :: "nat \<Rightarrow> ustr \<Rightarrow> ustr \<Rightarrow> ustr"
  say_near :: "nat \<Rightarrow> ustr \<Rightarrow> rat \<Rightarrow> rat \<Rightarrow> ustr"
  say_stagnant :: "rat \<Rightarrow> nat \<Rightarrow> rat \<Rightarrow> ustr"

text \<open>A detector that raises is skipped: \<open>None\<close>.\<close>

type_synonym detector = "tool_call \<Rightarrow> tool_call list \<Rightarrow> verdict option option"

text \<open>The newest call first.\<close>

fun repeat_run :: "int \<Rightarrow> ustr \<Rightarrow> nat \<Rightarrow> tool_call list \<Rightarrow> nat" where
  "repeat_run limit fp run [] = run"
| "repeat_run limit fp run (p # ps) =
     (if c_fingerprint p \<noteq> fp then run
      else if limit \<le> int (run + 1) then run + 1 else repeat_run limit fp (run + 1) ps)"

definition exact_repeat :: "messages \<Rightarrow> int \<Rightarrow> detector" where
  "exact_repeat s max_repeats call history =
     (if max_repeats < 1 then Some None
      else let run = repeat_run max_repeats (c_fingerprint call) 1 (rev history) in
        if int run < max_repeats then Some None
        else Some (Some \<lparr> z_detector = ''exact_repeat'', z_reason = say_repeat s run (c_tool call) (take 12 (c_fingerprint call)),
          z_confidence = 1, z_observations = length history + 1, z_tier = ''deterministic'' \<rparr>))"

definition results_agree :: "(rat \<Rightarrow> rat) \<Rightarrow> rat \<Rightarrow> tool_call \<Rightarrow> tool_call \<Rightarrow> bool" where
  "results_agree fl th newer older = (case (c_result newer, c_result older) of
     (Some a, Some b) \<Rightarrow> th \<le> jaccard fl a b th | _ \<Rightarrow> True)"

fun near_run :: "(rat \<Rightarrow> rat) \<Rightarrow> rat \<Rightarrow> rat \<Rightarrow> int \<Rightarrow> nat \<Rightarrow> rat \<Rightarrow> tool_call list \<Rightarrow> nat \<times> rat" where
  "near_run fl th rth limit streak weakest (a # b # rest) =
     (let s = jaccard fl (c_shingles a) (c_shingles b) th in
      if s < th then (streak, weakest)
      else if \<not> results_agree fl rth a b then (streak, weakest)
      else if limit \<le> int (streak + 1) then (streak + 1, min weakest s)
      else near_run fl th rth limit (streak + 1) (min weakest s) (b # rest))"
| "near_run fl th rth limit streak weakest _ = (streak, weakest)"

definition near_duplicate :: "(rat \<Rightarrow> rat) \<Rightarrow> messages \<Rightarrow> rat \<Rightarrow> int \<Rightarrow> rat \<Rightarrow> detector" where
  "near_duplicate fl s th max_streak rth call history =
     (if max_streak < 1 \<or> history = [] then Some None
      else let (streak, weakest) = near_run fl th rth max_streak 0 1 (call # rev history) in
        if int streak < max_streak then Some None
        else Some (Some \<lparr> z_detector = ''near_duplicate'', z_reason = say_near s (streak + 1) (c_tool call) weakest th,
          z_confidence = min 1 weakest, z_observations = length history + 1, z_tier = ''deterministic'' \<rparr>))"

definition periodic :: "nat \<Rightarrow> ustr list \<Rightarrow> bool" where
  "periodic p t \<longleftrightarrow> (\<forall>i \<in> set [0 ..< length t]. t ! i = t ! (i mod p))"

definition cycle_text :: "nat \<Rightarrow> nat \<Rightarrow> nat \<Rightarrow> ustr" where
  "cycle_text p n d = lit ''call-graph cycle of period '' @ digits p @ lit '' repeated '' @ digits n @ lit '' times ('' @ digits d
     @ lit '' distinct calls looping with no progress)''"

fun find_cycle :: "nat \<Rightarrow> ustr list \<Rightarrow> nat list \<Rightarrow> (nat \<times> nat) option" where
  "find_cycle n fps [] = None"
| "find_cycle n fps (p # ps) =
     (if length fps < p * n then find_cycle n fps ps
      else let tail = last_n (p * n) fps; distinct_calls = card (set tail) in
        if periodic p tail \<and> \<not> distinct_calls < 2 then Some (p, distinct_calls) else find_cycle n fps ps)"

definition call_cycle :: "int \<Rightarrow> int \<Rightarrow> detector" where
  "call_cycle max_period min_repeats call history =
     (if max_period < 2 \<or> min_repeats < 2 then Some None
      else case find_cycle (nat min_repeats) (map c_fingerprint history @ [c_fingerprint call]) [2 ..< nat max_period + 1] of
        None \<Rightarrow> Some None
      | Some (p, d) \<Rightarrow> Some (Some \<lparr> z_detector = ''call_cycle'', z_reason = cycle_text p (nat min_repeats) d,
          z_confidence = 95 / 100, z_observations = length history + 1, z_tier = ''deterministic'' \<rparr>))"

section \<open>The semantic observer\<close>

record novelty =
  e_seen :: "ustr set"
  e_ratios :: "rat list"

record entropy =
  e_window :: nat
  e_min_ratio :: rat
  e_include_results :: bool
  e_max_trajectories :: nat
  e_states :: "(ustr, novelty) dict"

text \<open>An \<open>OrderedDict\<close>: the least recently used key first. \<open>evict n\<close> pops from the front down to \<open>n\<close> keys.\<close>

definition move_to_end :: "'k \<Rightarrow> ('k, 'v) dict \<Rightarrow> ('k, 'v) dict" where
  "move_to_end k d = (case map_of d k of None \<Rightarrow> d | Some v \<Rightarrow> AList.delete k d @ [(k, v)])"

definition evict :: "nat \<Rightarrow> ('k, 'v) dict \<Rightarrow> ('k, 'v) dict" where
  "evict n d = drop (length d - n) d"

text \<open>\<open>deque(maxlen=n).append\<close>.\<close>

definition bounded_snoc :: "nat \<Rightarrow> 'a list \<Rightarrow> 'a \<Rightarrow> 'a list" where
  "bounded_snoc n xs x = drop (length xs + 1 - n) (xs @ [x])"

definition new_entropy :: "int \<Rightarrow> rat \<Rightarrow> bool \<Rightarrow> int \<Rightarrow> entropy" where
  "new_entropy window min_ratio include_results max_trajectories = \<lparr> e_window = nat (max 2 window), e_min_ratio = min_ratio,
     e_include_results = include_results, e_max_trajectories = nat (max 1 max_trajectories), e_states = [] \<rparr>"

text \<open>\<open>evaluate\<close>; \<open>mean\<close> is the sum of the floats over their number.\<close>

definition entropy_evaluate :: "(rat \<Rightarrow> rat) \<Rightarrow> (rat list \<Rightarrow> rat) \<Rightarrow> messages \<Rightarrow> entropy \<Rightarrow> ustr \<Rightarrow> tool_call list \<Rightarrow> entropy \<times> verdict option" where
  "entropy_evaluate fl mean s ob key window =
     (if window = [] then (ob, None)
      else let newest = last window;
               material = (case c_result newest of Some r \<Rightarrow> if e_include_results ob then c_shingles newest \<union> r else c_shingles newest
                           | None \<Rightarrow> c_shingles newest);
               (st, states) = (case map_of (e_states ob) key of
                   None \<Rightarrow> (\<lparr> e_seen = {}, e_ratios = [] \<rparr>, evict (e_max_trajectories ob) (e_states ob @ [(key, \<lparr> e_seen = {}, e_ratios = [] \<rparr>)]))
                 | Some st \<Rightarrow> (st, move_to_end key (e_states ob)));
               novel = card (material - e_seen st);
               total = (if card material = 0 then 1 else card material);
               st' = \<lparr> e_seen = e_seen st \<union> material, e_ratios = bounded_snoc (e_window ob) (e_ratios st) (fl (of_nat novel / of_nat total)) \<rparr>;
               ob' = ob\<lparr> e_states := AList.map_entry key (\<lambda>_. st') states \<rparr>
           in if length (e_ratios st') < e_window ob then (ob', None)
              else let m = mean (e_ratios st') in
                if e_min_ratio ob \<le> m then (ob', None)
                else (ob', Some \<lparr> z_detector = ''trajectory_entropy'', z_reason = say_stagnant s m (e_window ob) (e_min_ratio ob),
                  z_confidence = 3 / 4, z_observations = length window, z_tier = ''semantic'' \<rparr>))"

definition entropy_reset :: "entropy \<Rightarrow> ustr \<Rightarrow> entropy" where
  "entropy_reset ob key = ob\<lparr> e_states := AList.delete key (e_states ob) \<rparr>"

section \<open>The breaker\<close>

record cognitive_policy =
  w_max_identical_repeats :: int
  w_similarity_threshold :: rat
  w_max_similar_streak :: int
  w_result_similarity_threshold :: rat
  w_comparison_window :: int
  w_max_cycle_period :: int
  w_min_cycle_repeats :: int
  w_history_limit :: nat
  w_max_trajectories :: int
  w_shingle_size :: nat
  w_max_argument_chars :: nat
  w_exempt_tools :: "ustr set"
  w_retain_arguments :: bool
  w_entropy_window :: int
  w_min_novelty_ratio :: rat
  w_async_queue_size :: int

definition default_cognitive_policy :: cognitive_policy where
  "default_cognitive_policy = \<lparr> w_max_identical_repeats = 3, w_similarity_threshold = 7 / 10, w_max_similar_streak = 3,
     w_result_similarity_threshold = 3 / 10, w_comparison_window = 6, w_max_cycle_period = 4, w_min_cycle_repeats = 3,
     w_history_limit = 64, w_max_trajectories = 256, w_shingle_size = 3, w_max_argument_chars = 1024, w_exempt_tools = {},
     w_retain_arguments = False, w_entropy_window = 12, w_min_novelty_ratio = 2 / 100, w_async_queue_size = 256 \<rparr>"

record trajectory =
  j_calls :: "tool_call list"
  j_observed :: nat
  j_verdict :: "verdict option"
  j_pending :: "verdict option"

text \<open>What a breaker is built with and never changes, the functions the model takes from outside among it.\<close>

record wiring =
  u_policy :: cognitive_policy
  u_detectors :: "detector list"
  u_redact :: "(ustr \<Rightarrow> ustr \<Rightarrow> ustr option) option"
  u_digest :: "ustr \<Rightarrow> ustr"
  u_fl :: "rat \<Rightarrow> rat"
  u_mean :: "rat list \<Rightarrow> rat"
  u_say :: messages

definition default_detectors :: "(rat \<Rightarrow> rat) \<Rightarrow> messages \<Rightarrow> cognitive_policy \<Rightarrow> detector list" where
  "default_detectors fl s w = [exact_repeat s (w_max_identical_repeats w),
     near_duplicate fl s (w_similarity_threshold w) (w_max_similar_streak w) (w_result_similarity_threshold w),
     call_cycle (w_max_cycle_period w) (w_min_cycle_repeats w)]"

record breaker =
  k_setup :: wiring
  k_observer :: "entropy option"
  k_trajectories :: "(ustr, trajectory) dict"
  k_results :: "nat \<Rightarrow> ustr set option"
  k_next :: nat
  k_queue :: "(ustr \<times> tool_call list) option list"
  k_running :: bool
  k_closed :: bool
  k_observed :: nat
  k_queued :: nat
  k_dropped :: nat
  k_evaluated :: nat

definition default_observer :: "cognitive_policy \<Rightarrow> entropy" where
  "default_observer w = new_entropy (w_entropy_window w) (w_min_novelty_ratio w) True (w_max_trajectories w)"

definition new_breaker :: "wiring \<Rightarrow> entropy option \<Rightarrow> breaker" where
  "new_breaker u ob = \<lparr> k_setup = u, k_observer = ob, k_trajectories = [], k_results = (\<lambda>_. None), k_next = 0, k_queue = [],
     k_running = False, k_closed = False, k_observed = 0, k_queued = 0, k_dropped = 0, k_evaluated = 0 \<rparr>"

abbreviation k_policy :: "breaker \<Rightarrow> cognitive_policy" where
  "k_policy k \<equiv> u_policy (k_setup k)"

definition redacted :: "breaker \<Rightarrow> ustr \<Rightarrow> ustr \<Rightarrow> ustr" where
  "redacted k tool t = (case u_redact (k_setup k) of None \<Rightarrow> t | Some f \<Rightarrow> (case f tool t of None \<Rightarrow> [] | Some x \<Rightarrow> x))"

text \<open>A call with the result that has been recorded for it by now.\<close>

definition resolved :: "breaker \<Rightarrow> tool_call \<Rightarrow> tool_call" where
  "resolved k c = c\<lparr> c_result := k_results k (c_id c) \<rparr>"

text \<open>\<open>_touch\<close>: the trajectory, the dictionary with it at the end, and what was evicted for it. A dictionary
  bounded by zero loses it at once, and what is written to it then is lost.\<close>

definition touch :: "breaker \<Rightarrow> ustr \<Rightarrow> trajectory \<times> (ustr, trajectory) dict \<times> ustr list" where
  "touch k key = (case map_of (k_trajectories k) key of
       Some t \<Rightarrow> (t, move_to_end key (k_trajectories k), [])
     | None \<Rightarrow> let t = \<lparr> j_calls = [], j_observed = 0, j_verdict = None, j_pending = None \<rparr>;
           d = k_trajectories k @ [(key, t)]; n = nat (w_max_trajectories (k_policy k))
         in (t, evict n d, map fst (take (length d - n) d)))"

text \<open>\<open>history[-w:]\<close>.\<close>

definition slice_last :: "int \<Rightarrow> 'a list \<Rightarrow> 'a list" where
  "slice_last w xs = (if 0 < w then drop (length xs - nat w) xs else drop (nat (- w)) xs)"

fun first_verdict :: "detector list \<Rightarrow> tool_call \<Rightarrow> tool_call list \<Rightarrow> verdict option" where
  "first_verdict [] c h = None"
| "first_verdict (d # ds) c h = (case d c h of Some (Some v) \<Rightarrow> Some v | _ \<Rightarrow> first_verdict ds c h)"

definition judge :: "breaker \<Rightarrow> tool_call \<Rightarrow> tool_call list \<Rightarrow> verdict option" where
  "judge k c history = first_verdict (u_detectors (k_setup k)) c (map (resolved k) (slice_last (w_comparison_window (k_policy k)) history))"

text \<open>\<open>_enqueue\<close>: the lane is started on first use, and a full one drops the sample.\<close>

definition enqueue :: "breaker \<Rightarrow> ustr \<Rightarrow> tool_call list \<Rightarrow> breaker" where
  "enqueue k key snapshot = (if k_observer k = None then k
     else let k1 = (if k_closed k then k else k\<lparr> k_running := True \<rparr>); n = w_async_queue_size (k_policy k) in
       if 0 < n \<and> n \<le> int (length (k_queue k1)) then k1\<lparr> k_dropped := k_dropped k1 + 1 \<rparr>
       else k1\<lparr> k_queue := k_queue k1 @ [Some (key, snapshot)], k_queued := k_queued k1 + 1 \<rparr>)"

definition observer_reset :: "breaker \<Rightarrow> ustr \<Rightarrow> breaker" where
  "observer_reset k key = k\<lparr> k_observer := map_option (\<lambda>ob. entropy_reset ob key) (k_observer k) \<rparr>"

text \<open>\<open>observe\<close> up to the halt, and the verdict to halt with.\<close>

definition observe_call :: "breaker \<Rightarrow> scope_id \<Rightarrow> ustr \<Rightarrow> ustr \<Rightarrow> ustr \<Rightarrow> breaker \<times> verdict option" where
  "observe_call k scope tool args0 key =
     (if tool \<in> w_exempt_tools (k_policy k) then (k, None)
      else let w = k_policy k;
               args = redacted k tool args0;
               t = tool @ [UNIT_SEPARATOR] @ args;
               call0 = \<lparr> c_id = k_next k, c_sequence = 0, c_scope = scope, c_tool = tool,
                 c_arguments = (if w_retain_arguments w then take (w_max_argument_chars w) args else []),
                 c_fingerprint = u_digest (k_setup k) t, c_shingles = shingles (w_shingle_size w) (w_max_argument_chars w) t, c_result = None \<rparr>;
               (st, d, evicted) = touch k key;
               k1 = k\<lparr> k_next := k_next k + 1, k_observed := k_observed k + 1 \<rparr>
           in case j_verdict st of
             Some v \<Rightarrow> (fold (\<lambda>e k. observer_reset k e) evicted (k1\<lparr> k_trajectories := d \<rparr>), Some v)
           | None \<Rightarrow>
               let call = call0\<lparr> c_sequence := j_observed st + 1 \<rparr>;
                   verdict = (case j_pending st of Some v \<Rightarrow> Some v | None \<Rightarrow> judge k call (j_calls st));
                   calls = bounded_snoc (w_history_limit w) (j_calls st) call;
                   st' = st\<lparr> j_pending := None, j_observed := j_observed st + 1, j_calls := calls, j_verdict := verdict \<rparr>;
                   k2 = fold (\<lambda>e k. observer_reset k e) evicted (k1\<lparr> k_trajectories := AList.map_entry key (\<lambda>_. st') d \<rparr>)
               in (if verdict = None then enqueue k2 key calls else k2, verdict))"

text \<open>\<open>check\<close> up to the halt.\<close>

definition check_trajectory :: "breaker \<Rightarrow> ustr \<Rightarrow> breaker \<times> verdict option" where
  "check_trajectory k key = (case map_of (k_trajectories k) key of None \<Rightarrow> (k, None)
     | Some st \<Rightarrow> (case j_verdict st of Some v \<Rightarrow> (k, Some v)
         | None \<Rightarrow> (case j_pending st of None \<Rightarrow> (k, None)
             | Some v \<Rightarrow> (k\<lparr> k_trajectories := AList.map_entry key (\<lambda>_. st\<lparr> j_verdict := Some v, j_pending := None \<rparr>) (k_trajectories k) \<rparr>, Some v))))"

text \<open>\<open>record_result\<close>; \<open>rendered\<close> is the canonical text of an answer that carries none.\<close>

definition record_result :: "breaker \<Rightarrow> ustr \<Rightarrow> answer \<Rightarrow> ustr \<Rightarrow> breaker" where
  "record_result k key result rendered =
     (let calls = (case map_of (k_trajectories k) key of None \<Rightarrow> [] | Some st \<Rightarrow> j_calls st);
          tool = (if calls = [] then [] else c_tool (last calls));
          t = redacted k tool (case extract_result_text result of Some t \<Rightarrow> t | None \<Rightarrow> rendered);
          digest = shingles (w_shingle_size (k_policy k)) (w_max_argument_chars (k_policy k)) t
      in if calls = [] then k else k\<lparr> k_results := (k_results k)(c_id (last calls) \<mapsto> digest) \<rparr>)"

definition reset_trajectory :: "breaker \<Rightarrow> ustr \<Rightarrow> breaker" where
  "reset_trajectory k key = observer_reset (k\<lparr> k_trajectories := AList.delete key (k_trajectories k) \<rparr>) key"

text \<open>One round of the worker: it takes the oldest window, or stops at the sentinel.\<close>

definition evaluate_window :: "breaker \<Rightarrow> ustr \<Rightarrow> tool_call list \<Rightarrow> breaker" where
  "evaluate_window k key snapshot = (case k_observer k of None \<Rightarrow> k
     | Some ob \<Rightarrow> let u = k_setup k; (ob', v) = entropy_evaluate (u_fl u) (u_mean u) (u_say u) ob key (map (resolved k) snapshot);
           k1 = k\<lparr> k_observer := Some ob', k_evaluated := k_evaluated k + 1 \<rparr>
         in case v of None \<Rightarrow> k1
           | Some v \<Rightarrow> k1\<lparr> k_trajectories := map (\<lambda>(i, st). (i, if i = key \<and> j_verdict st = None \<and> j_pending st = None
               then st\<lparr> j_pending := Some v \<rparr> else st)) (k_trajectories k1) \<rparr>)"

definition lane_step :: "breaker \<Rightarrow> breaker" where
  "lane_step k = (if \<not> k_running k then k
     else case k_queue k of [] \<Rightarrow> k
       | None # rest \<Rightarrow> k\<lparr> k_queue := rest, k_running := False \<rparr>
       | Some (key, snapshot) # rest \<Rightarrow> evaluate_window (k\<lparr> k_queue := rest \<rparr>) key snapshot)"

text \<open>\<open>close\<close> and \<open>_stop_lane\<close>: no new lane, and the sentinel, for which a full queue gives up its oldest window.\<close>

definition close_breaker :: "breaker \<Rightarrow> breaker" where
  "close_breaker k = (if k_closed k then k
     else let k1 = k\<lparr> k_closed := True \<rparr>; n = w_async_queue_size (k_policy k) in
       if k_observer k = None then k1
       else k1\<lparr> k_queue := (if 0 < n \<and> n \<le> int (length (k_queue k1)) then tl (k_queue k1) else k_queue k1) @ [None] \<rparr>)"

section \<open>Halting\<close>

definition halt_reason :: "verdict \<Rightarrow> ustr" where
  "halt_reason v = lit ''cognitive breaker ['' @ lit (z_detector v) @ lit '']: '' @ z_reason v"

text \<open>\<open>_halt\<close>: the governor's breaker first, where there is a governor; a scope it does not know is let pass.\<close>

definition halt :: "manager option \<Rightarrow> scope_id \<Rightarrow> ustr \<Rightarrow> verdict \<Rightarrow> manager option \<times> exn" where
  "halt g scope key v =
     (let thrash = AgentThrashingError scope key (z_detector v) (z_reason v) (z_observations v) (z_confidence v) (z_tier v) in
      case g of None \<Rightarrow> (None, thrash)
      | Some m \<Rightarrow> (case trip scope (halt_reason v) m of
            (m', Inr _) \<Rightarrow> (Some m', thrash)
          | (m', Inl (UnknownScopeError _)) \<Rightarrow> (Some m', thrash)
          | (m', Inl e) \<Rightarrow> (Some m', e)))"

definition halting :: "manager option \<Rightarrow> scope_id \<Rightarrow> ustr \<Rightarrow> breaker \<times> verdict option \<Rightarrow> (breaker \<times> manager option) \<times> unit res" where
  "halting g scope key kv = (case kv of (k, None) \<Rightarrow> ((k, g), Inr ())
     | (k, Some v) \<Rightarrow> (case halt g scope key v of (g', e) \<Rightarrow> ((k, g'), Inl e)))"

definition or_key :: "ustr option \<Rightarrow> scope_id \<Rightarrow> ustr" where
  "or_key tr scope = (case tr of None \<Rightarrow> scope | Some t \<Rightarrow> t)"

definition observe :: "scope_id \<Rightarrow> ustr \<Rightarrow> ustr \<Rightarrow> ustr option \<Rightarrow> breaker \<times> manager option \<Rightarrow> (breaker \<times> manager option) \<times> unit res" where
  "observe scope tool args tr kg = (let key = or_key tr scope in halting (snd kg) scope key (observe_call (fst kg) scope tool args key))"

definition check :: "scope_id \<Rightarrow> ustr option \<Rightarrow> breaker \<times> manager option \<Rightarrow> (breaker \<times> manager option) \<times> unit res" where
  "check scope tr kg = (let key = or_key tr scope in halting (snd kg) scope key (check_trajectory (fst kg) key))"

section \<open>Similarity\<close>

text \<open>What the model asks of the rounding to a float: it is monotone and exact on zero.\<close>

definition rounding :: "(rat \<Rightarrow> rat) \<Rightarrow> bool" where
  "rounding fl \<longleftrightarrow> mono fl \<and> fl 0 = 0"

lemma overlap_bound:
  assumes "finite l" "finite r" "l \<noteq> {}" "r \<noteq> {}"
  shows "(of_nat (card (l \<inter> r)) :: rat) / of_nat (card (l \<union> r)) \<le> of_nat (min (card l) (card r)) / of_nat (max (card l) (card r))"
proof (rule frac_le)
  show "(of_nat (card (l \<inter> r)) :: rat) \<le> of_nat (min (card l) (card r))"
    using assms by (simp add: card_mono)
  have "0 < card l" using assms by (simp add: card_gt_0_iff)
  then show "(0 :: rat) < of_nat (max (card l) (card r))" by simp
  have "max (card l) (card r) \<le> card (l \<union> r)" using assms by (simp add: card_mono)
  then show "(of_nat (max (card l) (card r)) :: rat) \<le> of_nat (card (l \<union> r))" by (simp only: of_nat_le_iff)
qed simp

text \<open>The early exit of \<open>jaccard\<close> decides nothing: with a floor it is below the floor exactly when the
  similarity without one is.\<close>

theorem jaccard_floor:
  assumes "rounding fl" "finite l" "finite r" "0 < least" "least \<le> 1"
  shows "jaccard fl l r least < least \<longleftrightarrow> jaccard fl l r 0 < least"
proof (cases "l = {} \<or> r = {}")
  case False
  have "fl (of_nat (card (l \<inter> r)) / of_nat (card (l \<union> r))) \<le> fl (of_nat (min (card l) (card r)) / of_nat (max (card l) (card r)))"
    using overlap_bound [of l r] assms False by (auto simp: rounding_def intro: monoD)
  then show ?thesis using False assms(4) by (auto simp: jaccard_def)
qed (simp add: jaccard_def)

theorem jaccard_floor_witness:
  "jaccard id {[1], [2]} {[2], [3]} (1 / 2) < 1 / 2 \<longleftrightarrow> jaccard id {[1], [2]} {[2], [3]} 0 < 1 / 2"
  by (rule jaccard_floor) (simp_all add: rounding_def mono_def)

section \<open>What the detectors see\<close>

lemma repeat_run_fires:
  "int run < limit \<Longrightarrow> limit \<le> int (repeat_run limit fp run ps) \<longleftrightarrow>
     nat limit - run \<le> length ps \<and> (\<forall>p \<in> set (take (nat limit - run) ps). c_fingerprint p = fp)"
proof (induction limit fp run ps rule: repeat_run.induct)
  case (2 limit fp run p ps)
  have n: "nat limit - run = Suc (nat limit - (run + 1))" using 2(2) by (simp add: Suc_diff_Suc zless_nat_eq_int_zless)
  consider "c_fingerprint p \<noteq> fp" | "c_fingerprint p = fp" "limit \<le> int (run + 1)" | "c_fingerprint p = fp" "\<not> limit \<le> int (run + 1)" by blast
  then show ?case
  proof cases
    case 1
    then show ?thesis unfolding n using 2(2) by auto
  next
    case 2
    then have "nat limit - (run + 1) = 0" by simp
    then show ?thesis unfolding n using 2 by simp
  next
    case 3
    then show ?thesis unfolding n using 2(1) by auto
  qed
qed simp

text \<open>A run of identical calls, seen from its end.\<close>

lemma exact_repeat_fires:
  assumes "1 < limit"
  shows "(\<exists>v. exact_repeat s limit call history = Some (Some v)) \<longleftrightarrow>
    nat limit - 1 \<le> length history \<and> (\<forall>p \<in> set (take (nat limit - 1) (rev history)). c_fingerprint p = c_fingerprint call)"
  using repeat_run_fires [of 1 limit "c_fingerprint call" "rev history"] assms
  by (auto simp: exact_repeat_def Let_def not_less)

lemma periodicD: "periodic p t \<Longrightarrow> i < length t \<Longrightarrow> t ! i = t ! (i mod p)"
  by (simp add: periodic_def)

lemma find_cycle_Some:
  "find_cycle n fps ps = Some (p, d) \<Longrightarrow> p \<in> set ps \<and> p * n \<le> length fps \<and> periodic p (last_n (p * n) fps) \<and> 2 \<le> card (set (last_n (p * n) fps))"
  by (induction ps) (auto simp: Let_def split: if_splits)

lemma find_cycle_None:
  "find_cycle n fps ps = None \<longleftrightarrow> (\<forall>p \<in> set ps. p * n \<le> length fps \<longrightarrow> periodic p (last_n (p * n) fps) \<longrightarrow> card (set (last_n (p * n) fps)) < 2)"
  by (induction ps) (auto simp: Let_def not_less)

lemma call_cycle_fires:
  assumes "2 \<le> max_period" "2 \<le> repeats"
  shows "(\<exists>v. call_cycle max_period repeats call history = Some (Some v)) \<longleftrightarrow>
    (\<exists>p. 2 \<le> p \<and> int p \<le> max_period \<and> p * nat repeats \<le> length history + 1
       \<and> (let t = last_n (p * nat repeats) (map c_fingerprint history @ [c_fingerprint call]) in periodic p t \<and> 2 \<le> card (set t)))"
proof -
  let ?fps = "map c_fingerprint history @ [c_fingerprint call]"
  have "(\<exists>v. call_cycle max_period repeats call history = Some (Some v)) \<longleftrightarrow> find_cycle (nat repeats) ?fps [2 ..< nat max_period + 1] \<noteq> None"
    using assms by (auto simp: call_cycle_def split: option.splits)
  moreover have range: "p \<in> set [2 ..< nat max_period + 1] \<longleftrightarrow> 2 \<le> p \<and> int p \<le> max_period" for p
    using assms(1) by auto
  ultimately have "(\<exists>v. call_cycle max_period repeats call history = Some (Some v)) \<longleftrightarrow> (\<exists>p \<in> set [2 ..< nat max_period + 1]. p * nat repeats \<le> length ?fps \<and> periodic p (last_n (p * nat repeats) ?fps)
      \<and> 2 \<le> card (set (last_n (p * nat repeats) ?fps)))"
    unfolding find_cycle_None by (simp only: not_less [symmetric]) blast
  also have "\<dots> \<longleftrightarrow> (\<exists>p. 2 \<le> p \<and> int p \<le> max_period \<and> p * nat repeats \<le> length ?fps \<and> periodic p (last_n (p * nat repeats) ?fps)
      \<and> 2 \<le> card (set (last_n (p * nat repeats) ?fps)))"
    unfolding Bex_def using assms(1) by (intro ex_cong1) (simp only: range conj_assoc)
  finally show ?thesis by (simp add: Let_def)
qed

text \<open>Two consecutive calls that say nothing new.\<close>

definition alike :: "(rat \<Rightarrow> rat) \<Rightarrow> rat \<Rightarrow> rat \<Rightarrow> tool_call \<Rightarrow> tool_call \<Rightarrow> bool" where
  "alike fl th rth newer older \<longleftrightarrow> th \<le> jaccard fl (c_shingles newer) (c_shingles older) th \<and> results_agree fl rth newer older"

lemma near_run_fires:
  "int streak < limit \<Longrightarrow> limit \<le> int (fst (near_run fl th rth limit streak weakest cs)) \<longleftrightarrow>
     nat limit - streak < length cs \<and> (\<forall>i < nat limit - streak. alike fl th rth (cs ! i) (cs ! Suc i))"
proof (induction fl th rth limit streak weakest cs rule: near_run.induct)
  case (1 fl th rth limit streak weakest a b rest)
  have n: "nat limit - streak = Suc (nat limit - (streak + 1))" using 1(2) by (simp add: Suc_diff_Suc zless_nat_eq_int_zless)
  consider "\<not> alike fl th rth a b" | "alike fl th rth a b" "limit \<le> int (streak + 1)" | "alike fl th rth a b" "\<not> limit \<le> int (streak + 1)" by blast
  then show ?case
  proof cases
    case 1
    then show ?thesis unfolding n using 1(1) \<open>int streak < limit\<close> by (auto simp: alike_def Let_def)
  next
    case 2
    then have "nat limit - (streak + 1) = 0" by simp
    then show ?thesis unfolding n using 2 by (simp add: alike_def Let_def)
  next
    case 3
    then show ?thesis unfolding n using 1(1) by (auto simp: alike_def Let_def less_Suc_eq_0_disj)
  qed
qed simp_all

lemma near_duplicate_fires:
  assumes "1 \<le> limit"
  shows "(\<exists>v. near_duplicate fl s th limit rth call history = Some (Some v)) \<longleftrightarrow>
    nat limit \<le> length history \<and> (\<forall>i < nat limit. alike fl th rth ((call # rev history) ! i) ((call # rev history) ! Suc i))"
proof (cases "history = []")
  case False
  obtain r w where r: "near_run fl th rth limit 0 1 (call # rev history) = (r, w)" by fastforce
  then show ?thesis
    using near_run_fires [of 0 limit fl th rth 1 "call # rev history"] assms False
    by (auto simp: near_duplicate_def not_less less_Suc_eq_le)
qed (use assms in \<open>simp add: near_duplicate_def\<close>)

text \<open>C37: Which calls the built-in detectors call a loop: the last calls of the window are all the same one; or
  each is like the one before it, in what it asks and in what it got; or they repeat a cycle of at
  least two different calls. Nothing else is, and none of these is missed.\<close>

theorem judge_fires:
  assumes "u_detectors (k_setup k) = default_detectors fl s w" "1 < w_max_identical_repeats w" "1 \<le> w_max_similar_streak w"
    "2 \<le> w_max_cycle_period w" "2 \<le> w_min_cycle_repeats w"
    and "h = map (resolved k) (slice_last (w_comparison_window (k_policy k)) history)"
  shows "judge k call history \<noteq> None \<longleftrightarrow>
     (let m = nat (w_max_identical_repeats w) - 1 in m \<le> length h \<and> (\<forall>p \<in> set (take m (rev h)). c_fingerprint p = c_fingerprint call))
   \<or> (let m = nat (w_max_similar_streak w) in m \<le> length h \<and> (\<forall>i < m. alike fl (w_similarity_threshold w) (w_result_similarity_threshold w)
         ((call # rev h) ! i) ((call # rev h) ! Suc i)))
   \<or> (\<exists>p. 2 \<le> p \<and> int p \<le> w_max_cycle_period w \<and> p * nat (w_min_cycle_repeats w) \<le> length h + 1
         \<and> (let t = last_n (p * nat (w_min_cycle_repeats w)) (map c_fingerprint h @ [c_fingerprint call]) in periodic p t \<and> 2 \<le> card (set t)))"
proof -
  have chain: "first_verdict [a, b, d] call h \<noteq> None \<longleftrightarrow>
      (\<exists>v. a call h = Some (Some v)) \<or> (\<exists>v. b call h = Some (Some v)) \<or> (\<exists>v. d call h = Some (Some v))" for a b d
    by (auto split: option.split)
  show ?thesis
    unfolding judge_def assms(1) assms(6) [symmetric] default_detectors_def chain
      exact_repeat_fires [OF assms(2)] near_duplicate_fires [OF assms(3)] call_cycle_fires [OF assms(4,5)] by (simp only: Let_def)
qed

text \<open>C39: With the default policy only cycles of period two are ever found, though the policy looks for periods up
  to four: three rounds of a longer one do not fit the window of six calls a detector is given.\<close>

theorem long_cycles_unseen:
  assumes "k_policy k = default_cognitive_policy"
    and "call_cycle (w_max_cycle_period default_cognitive_policy) (w_min_cycle_repeats default_cognitive_policy) call
      (map (resolved k) (slice_last (w_comparison_window (k_policy k)) history)) = Some (Some v)"
  shows "z_reason v = cycle_text 2 3 2"
proof -
  let ?h = "map (resolved k) (slice_last (w_comparison_window (k_policy k)) history)"
  let ?fps = "map c_fingerprint ?h @ [c_fingerprint call]"
  have len: "length ?h \<le> 6" unfolding assms(1) by (simp add: default_cognitive_policy_def slice_last_def)
  from assms(2) obtain p q where f: "find_cycle 3 ?fps [2 ..< 5] = Some (p, q)" "z_reason v = cycle_text p 3 q"
    by (auto simp: call_cycle_def default_cognitive_policy_def split: option.splits)
  have up: "[2 ..< 5] = [2, 3, 4 :: nat]" by (simp add: upt_rec)
  note c = find_cycle_Some [OF f(1)]
  have "p = 2"
  proof (rule ccontr)
    assume "p \<noteq> 2"
    then have "3 \<le> p" using c up by auto
    then show False using c len by auto
  qed
  moreover have "q = 2"
  proof -
    have q: "q = card (set (last_n (p * 3) ?fps))" using f(1) unfolding up by (auto simp: Let_def split: if_splits)
    let ?t = "last_n 6 ?fps"
    have t: "periodic 2 ?t" "2 \<le> card (set ?t)" "length ?t \<le> 6" using c \<open>p = 2\<close> by (auto simp: last_n_def)
    have "set ?t \<subseteq> {?t ! 0, ?t ! 1}"
    proof
      fix x assume "x \<in> set ?t"
      then obtain i where i: "i < length ?t" "x = ?t ! i" by (auto simp: in_set_conv_nth)
      have "x = ?t ! (i mod 2)" unfolding i(2) by (rule periodicD [OF t(1) i(1)])
      moreover have "i mod 2 = 0 \<or> i mod 2 = 1" by auto
      ultimately show "x \<in> {?t ! 0, ?t ! 1}" by auto
    qed
    then have "card (set ?t) \<le> card {?t ! 0, ?t ! 1}" by (intro card_mono) auto
    also have "\<dots> \<le> 2" by (simp add: card_insert_if)
    finally show ?thesis using t(2) q \<open>p = 2\<close> by simp
  qed
  ultimately show ?thesis using f(2) by simp
qed

section \<open>Samples\<close>

definition sample_messages :: messages where
  "sample_messages = \<lparr> say_repeat = (\<lambda>_ _ _. lit ''x''), say_near = (\<lambda>_ _ _ _. lit ''x''), say_stagnant = (\<lambda>_ _ _. lit ''x'') \<rparr>"

definition sample_wiring :: wiring where
  "sample_wiring = \<lparr> u_policy = default_cognitive_policy, u_detectors = default_detectors id sample_messages default_cognitive_policy,
     u_redact = None, u_digest = id, u_fl = id, u_mean = (\<lambda>_. 0), u_say = sample_messages \<rparr>"

definition sample_breaker :: breaker where
  "sample_breaker = new_breaker sample_wiring (Some (default_observer default_cognitive_policy))"

definition sample_call :: "nat \<Rightarrow> tool_call" where
  "sample_call x = \<lparr> c_id = 0, c_sequence = 0, c_scope = [], c_tool = [], c_arguments = [], c_fingerprint = [x], c_shingles = {}, c_result = None \<rparr>"

lemma sample_breaker_fields:
  "k_policy sample_breaker = default_cognitive_policy"
  "u_detectors (k_setup sample_breaker) = default_detectors id sample_messages default_cognitive_policy" "u_redact (k_setup sample_breaker) = None"
  "resolved sample_breaker (sample_call x) = sample_call x"
  by (simp_all add: sample_breaker_def new_breaker_def sample_wiring_def resolved_def sample_call_def)

theorem judge_fires_witness:
  "judge sample_breaker (sample_call 1) [sample_call 1, sample_call 1] \<noteq> None"
proof -
  let ?h = "[sample_call 1, sample_call 1]"
  have w: "1 < w_max_identical_repeats default_cognitive_policy" "1 \<le> w_max_similar_streak default_cognitive_policy"
    "2 \<le> w_max_cycle_period default_cognitive_policy" "2 \<le> w_min_cycle_repeats default_cognitive_policy"
    "nat (w_max_identical_repeats default_cognitive_policy) - 1 = 2" by (simp_all add: default_cognitive_policy_def)
  have h: "?h = map (resolved sample_breaker) (slice_last (w_comparison_window (k_policy sample_breaker)) ?h)"
    by (simp add: sample_breaker_fields slice_last_def default_cognitive_policy_def)
  show ?thesis unfolding judge_fires [OF sample_breaker_fields(2) w(1-4) h] w(5) by (rule disjI1) simp
qed

theorem long_cycles_unseen_witness:
  "\<exists>v. call_cycle 4 3 (sample_call 2) [sample_call 1, sample_call 2, sample_call 1, sample_call 2, sample_call 1] = Some (Some v)
     \<and> z_reason v = cycle_text 2 3 2"
proof -
  let ?h = "[sample_call 1, sample_call 2, sample_call 1, sample_call 2, sample_call 1]"
  have w: "map (resolved sample_breaker) (slice_last (w_comparison_window (k_policy sample_breaker)) ?h) = ?h"
    "w_max_cycle_period default_cognitive_policy = 4" "w_min_cycle_repeats default_cognitive_policy = 3"
    by (simp_all add: sample_breaker_fields slice_last_def default_cognitive_policy_def)
  have up: "[2 ..< nat 4 + 1] = [2, 3, 4]" by (simp add: upt_rec)
  have "periodic 2 [[1], [2], [1], [2], [1], [2 :: nat]]" by (simp add: periodic_def upt_rec)
  then have "find_cycle 3 [[1], [2], [1], [2], [1], [2 :: nat]] [2, 3, 4] = Some (2, 2)" by (simp add: last_n_def Let_def card_insert_if)
  then obtain v where v: "call_cycle 4 3 (sample_call 2) ?h = Some (Some v)"
    unfolding call_cycle_def up by (simp add: sample_call_def)
  from long_cycles_unseen [OF sample_breaker_fields(1), of "sample_call 2" ?h v] v show ?thesis unfolding w by blast
qed

end
