(* ===== verification/Thrashing.thy ===== *)
theory Thrashing
  imports Cognitive
begin

text \<open>
  What the cognitive breaker promises over a run of it: its memory is bounded, a latched trajectory stays
  latched while it is remembered, a verdict of the lane is enforced at the next call, and a halt reaches
  the governor's breaker. The operations are interleaved in any order; one round of the lane is one step.
\<close>

section \<open>Runs\<close>

datatype event =
    Observe scope_id ustr ustr "ustr option"
  | Check scope_id "ustr option"
  | Record scope_id "ustr option" answer ustr
  | Reset ustr
  | Lane
  | Close

fun happens :: "event \<Rightarrow> breaker \<times> manager option \<Rightarrow> breaker \<times> manager option" where
  "happens (Observe scope tool args tr) kg = fst (observe scope tool args tr kg)"
| "happens (Check scope tr) kg = fst (check scope tr kg)"
| "happens (Record scope tr answer rendered) kg = (record_result (fst kg) (or_key tr scope) answer rendered, snd kg)"
| "happens (Reset key) kg = (reset_trajectory (fst kg) key, snd kg)"
| "happens Lane kg = (lane_step (fst kg), snd kg)"
| "happens Close kg = (close_breaker (fst kg), snd kg)"

text \<open>The breaker's half of an event.\<close>

fun moves :: "event \<Rightarrow> breaker \<Rightarrow> breaker" where
  "moves (Observe scope tool args tr) k = fst (observe_call k scope tool args (or_key tr scope))"
| "moves (Check scope tr) k = fst (check_trajectory k (or_key tr scope))"
| "moves (Record scope tr answer rendered) k = record_result k (or_key tr scope) answer rendered"
| "moves (Reset key) k = reset_trajectory k key"
| "moves Lane k = lane_step k"
| "moves Close k = close_breaker k"

lemma halting_fst: "fst (fst (halting g scope key kv)) = fst kv"
  by (cases kv) (auto simp: halting_def split: option.splits prod.splits)

lemma happens_moves: "fst (happens e kg) = moves e (fst kg)"
  by (cases e) (simp_all add: observe_def check_def halting_fst Let_def)

text \<open>What every event allowed by \<open>ok\<close> keeps, a run of them keeps.\<close>

locale eventful =
  fixes I :: "breaker \<Rightarrow> bool" and ok :: "event \<Rightarrow> bool"
  assumes event_keeps: "I k \<Longrightarrow> ok e \<Longrightarrow> I (moves e k)"
begin

lemma run_holds: "I k \<Longrightarrow> (\<And>e. e \<in> set es \<Longrightarrow> ok e) \<Longrightarrow> I (fst (fold happens es (k, g)))"
proof (induction es arbitrary: k g)
  case (Cons e es)
  obtain k1 g1 where s: "happens e (k, g) = (k1, g1)" by fastforce
  then have "k1 = moves e k" using happens_moves [of e "(k, g)"] by simp
  then show ?case using Cons event_keeps [of k e] s by simp
qed simp

end

section \<open>The dictionaries\<close>

lemma move_to_end_map_of [simp]: "map_of (move_to_end k d) = map_of d"
  by (auto simp: move_to_end_def map_add_def delete_conv' fun_eq_iff split: option.splits)

lemma move_to_end_keys [simp]: "fst ` set (move_to_end k d) = fst ` set d"
  by (simp add: dom_map_of_conv_image_fst [symmetric])

lemma move_to_end_distinct [simp]: "distinct (map fst d) \<Longrightarrow> distinct (map fst (move_to_end k d))"
  by (auto simp: move_to_end_def distinct_removeAll delete_keys split: option.splits)

lemma move_to_end_length [simp]: "distinct (map fst d) \<Longrightarrow> length (move_to_end k d) = length d"
  by (metis distinct_card length_map move_to_end_distinct move_to_end_keys set_map)

lemma move_to_end_set: "distinct (map fst d) \<Longrightarrow> set (move_to_end k d) = set d"
  by (rule map_of_inject_set [THEN iffD1]) simp_all

lemma evict_length [simp]: "length (evict n d) = min n (length d)"
  by (simp add: evict_def)

lemma evict_distinct [simp]: "distinct (map fst d) \<Longrightarrow> distinct (map fst (evict n d))"
  by (simp add: evict_def drop_map [symmetric])

lemma evict_subset: "set (evict n d) \<subseteq> set d"
  by (simp add: evict_def set_drop_subset)

lemma evict_id [simp]: "length d \<le> n \<Longrightarrow> evict n d = d"
  by (simp add: evict_def)

lemma bounded_snoc_length: "length xs \<le> n \<Longrightarrow> length (bounded_snoc n xs x) \<le> n"
  by (simp add: bounded_snoc_def)

lemma map_entry_keys [simp]: "map fst (AList.map_entry k f d) = map fst d"
  by (induction d) auto

lemma map_entry_length [simp]: "length (AList.map_entry k f d) = length d"
  by (induction d) auto

lemma map_entry_set: "distinct (map fst d) \<Longrightarrow> p \<in> set (AList.map_entry k f d) \<Longrightarrow> p \<in> set d \<or> (\<exists>v. p = (k, f v) \<and> (k, v) \<in> set d)"
  by (induction d) (auto split: if_splits)

lemma delete_subset: "p \<in> set (AList.delete k d) \<Longrightarrow> p \<in> set d"
  by (simp add: AList.delete_eq)

section \<open>Bounds\<close>

text \<open>What a breaker remembers is bounded by its policy, and a latched trajectory has nothing pending.\<close>

definition trajectory_ok :: "cognitive_policy \<Rightarrow> trajectory \<Rightarrow> bool" where
  "trajectory_ok w st \<longleftrightarrow> length (j_calls st) \<le> w_history_limit w \<and> (j_verdict st \<noteq> None \<longrightarrow> j_pending st = None)"

definition entropy_ok :: "entropy \<Rightarrow> bool" where
  "entropy_ok ob \<longleftrightarrow> dict_wf (e_states ob) \<and> length (e_states ob) \<le> e_max_trajectories ob
     \<and> (\<forall>p \<in> set (e_states ob). length (e_ratios (snd p)) \<le> e_window ob)"

definition memory_ok :: "breaker \<Rightarrow> bool" where
  "memory_ok k \<longleftrightarrow> dict_wf (k_trajectories k) \<and> length (k_trajectories k) \<le> nat (w_max_trajectories (k_policy k))
     \<and> (\<forall>p \<in> set (k_trajectories k). trajectory_ok (k_policy k) (snd p))"

definition breaker_ok :: "breaker \<Rightarrow> bool" where
  "breaker_ok k \<longleftrightarrow> memory_ok k
     \<and> (0 < w_async_queue_size (k_policy k) \<longrightarrow> int (length (k_queue k)) \<le> w_async_queue_size (k_policy k))
     \<and> (\<forall>ob. k_observer k = Some ob \<longrightarrow> entropy_ok ob)"

lemma entropy_reset_ok: "entropy_ok ob \<Longrightarrow> entropy_ok (entropy_reset ob key)"
  using length_delete_le [of key "e_states ob"] delete_subset [of _ key "e_states ob"]
  by (simp add: entropy_ok_def entropy_reset_def AList.distinct_delete)

lemma observer_reset_fields [simp]:
  "k_setup (observer_reset k key) = k_setup k" "k_trajectories (observer_reset k key) = k_trajectories k"
  "k_queue (observer_reset k key) = k_queue k" "k_results (observer_reset k key) = k_results k"
  by (simp_all add: observer_reset_def)

lemma observer_reset_ok: "breaker_ok k \<Longrightarrow> breaker_ok (observer_reset k key)"
  by (auto simp: breaker_ok_def memory_ok_def observer_reset_def entropy_reset_ok)

lemma resets_fields [simp]:
  "k_setup (fold (\<lambda>e k. observer_reset k e) es k) = k_setup k" "k_trajectories (fold (\<lambda>e k. observer_reset k e) es k) = k_trajectories k"
  "k_queue (fold (\<lambda>e k. observer_reset k e) es k) = k_queue k"
  by (induction es arbitrary: k) simp_all

lemma resets_ok: "breaker_ok k \<Longrightarrow> breaker_ok (fold (\<lambda>e k. observer_reset k e) es k)"
  by (induction es arbitrary: k) (simp_all add: observer_reset_ok)

lemma enqueue_ok: "breaker_ok k \<Longrightarrow> breaker_ok (enqueue k key snapshot)"
  by (auto simp: breaker_ok_def memory_ok_def enqueue_def Let_def)

lemma enqueue_fields [simp]:
  "k_setup (enqueue k key snapshot) = k_setup k" "k_trajectories (enqueue k key snapshot) = k_trajectories k"
  by (simp_all add: enqueue_def Let_def)

lemma entropy_evaluate_ok:
  assumes "entropy_ok ob"
  shows "entropy_ok (fst (entropy_evaluate fl mean s ob key window))"
proof -
  have update: "entropy_ok (ob\<lparr> e_states := AList.map_entry key (\<lambda>_. st) d \<rparr>)"
    if d: "dict_wf d" "length d \<le> e_max_trajectories ob" "\<forall>p \<in> set d. length (e_ratios (snd p)) \<le> e_window ob" "length (e_ratios st) \<le> e_window ob" for st d
    using d by (auto simp: entropy_ok_def dest!: map_entry_set [OF d(1)])
  show ?thesis
  proof (cases "map_of (e_states ob) key")
    case None
    let ?d = "evict (e_max_trajectories ob) (e_states ob @ [(key, \<lparr> e_seen = {}, e_ratios = [] \<rparr>)])"
    have "key \<notin> fst ` set (e_states ob)" using None by (simp add: map_of_eq_None_iff)
    then have d: "dict_wf ?d" "length ?d \<le> e_max_trajectories ob" "\<forall>p \<in> set ?d. length (e_ratios (snd p)) \<le> e_window ob"
      using assms evict_subset [of "e_max_trajectories ob" "e_states ob @ [(key, \<lparr> e_seen = {}, e_ratios = [] \<rparr>)]"]
      by (auto simp: entropy_ok_def)
    show ?thesis using assms None
      by (auto simp: entropy_evaluate_def Let_def split: option.splits intro!: update [OF d] bounded_snoc_length)
  next
    case (Some st)
    let ?d = "move_to_end key (e_states ob)"
    have d: "dict_wf ?d" "length ?d \<le> e_max_trajectories ob" "\<forall>p \<in> set ?d. length (e_ratios (snd p)) \<le> e_window ob" "length (e_ratios st) \<le> e_window ob"
      using assms Some by (auto simp: entropy_ok_def move_to_end_set dest!: map_of_SomeD)
    show ?thesis using assms Some
      by (auto simp: entropy_evaluate_def Let_def split: option.splits intro!: update [OF d(1-3)] bounded_snoc_length d(4))
  qed
qed

lemma touch_ok:
  assumes "memory_ok k" "touch k key = (st, d, ev)"
  shows "dict_wf d" "length d \<le> nat (w_max_trajectories (k_policy k))" "\<forall>p \<in> set d. trajectory_ok (k_policy k) (snd p)"
    "trajectory_ok (k_policy k) st" "dict_get (k_trajectories k) key \<lparr> j_calls = [], j_observed = 0, j_verdict = None, j_pending = None \<rparr> = st"
proof -
  let ?n = "nat (w_max_trajectories (k_policy k))" and ?t = "\<lparr> j_calls = [], j_observed = 0, j_verdict = None, j_pending = None \<rparr>"
  have "dict_wf d \<and> length d \<le> ?n \<and> (\<forall>p \<in> set d. trajectory_ok (k_policy k) (snd p)) \<and> trajectory_ok (k_policy k) st \<and> dict_get (k_trajectories k) key ?t = st"
  proof (cases "map_of (k_trajectories k) key")
    case None
    then have k: "key \<notin> fst ` set (k_trajectories k)" by (simp add: map_of_eq_None_iff)
    have d: "d = evict ?n (k_trajectories k @ [(key, ?t)])" "st = ?t" using assms(2) None by (auto simp: touch_def Let_def)
    have "trajectory_ok (k_policy k) ?t" by (simp add: trajectory_ok_def)
    then show ?thesis using assms(1) k None evict_subset [of ?n "k_trajectories k @ [(key, ?t)]"] unfolding d
      by (auto simp: memory_ok_def dict_get_def)
  next
    case (Some t)
    then have d: "d = move_to_end key (k_trajectories k)" "st = t" using assms(2) by (auto simp: touch_def)
    show ?thesis using assms(1) Some unfolding d by (auto simp: memory_ok_def move_to_end_set dict_get_def dest!: map_of_SomeD)
  qed
  then show "dict_wf d" "length d \<le> ?n" "\<forall>p \<in> set d. trajectory_ok (k_policy k) (snd p)" "trajectory_ok (k_policy k) st" "dict_get (k_trajectories k) key ?t = st" by blast+
qed

lemma memory_update:
  assumes "dict_wf d" "length d \<le> nat (w_max_trajectories w)" "\<forall>p \<in> set d. trajectory_ok w (snd p)" "trajectory_ok w st"
  shows "dict_wf (AList.map_entry key (\<lambda>_. st) d)" "length (AList.map_entry key (\<lambda>_. st) d) \<le> nat (w_max_trajectories w)"
    "\<forall>p \<in> set (AList.map_entry key (\<lambda>_. st) d). trajectory_ok w (snd p)"
  using assms by (auto dest!: map_entry_set [OF assms(1)])

lemma breaker_ok_update:
  "breaker_ok k \<Longrightarrow> dict_wf d \<Longrightarrow> length d \<le> nat (w_max_trajectories (k_policy k)) \<Longrightarrow> \<forall>p \<in> set d. trajectory_ok (k_policy k) (snd p) \<Longrightarrow>
   breaker_ok (k\<lparr> k_trajectories := d \<rparr>)"
  by (simp add: breaker_ok_def memory_ok_def)

lemma breaker_ok_counters [simp]:
  "breaker_ok (k\<lparr> k_next := i, k_observed := j \<rparr>) = breaker_ok k" "breaker_ok (k\<lparr> k_results := r \<rparr>) = breaker_ok k"
  "breaker_ok (k\<lparr> k_evaluated := i \<rparr>) = breaker_ok k" "breaker_ok (k\<lparr> k_running := b \<rparr>) = breaker_ok k"
  by (simp_all add: breaker_ok_def memory_ok_def)

lemma observe_call_ok:
  assumes "breaker_ok k"
  shows "breaker_ok (fst (observe_call k scope tool args key))"
proof (cases "tool \<in> w_exempt_tools (k_policy k)")
  case False
  obtain st d ev where t: "touch k key = (st, d, ev)" by (cases "touch k key")
  have m: "memory_ok k" using assms by (simp add: breaker_ok_def)
  note t' = touch_ok [OF m t]
  have st: "trajectory_ok (k_policy k) (st\<lparr> j_pending := None, j_observed := i, j_calls := bounded_snoc (w_history_limit (k_policy k)) (j_calls st) c, j_verdict := v \<rparr>)" for i c v
    using t'(4) by (simp add: trajectory_ok_def bounded_snoc_length)
  let ?k = "k\<lparr> k_next := k_next k + 1, k_observed := k_observed k + 1 \<rparr>"
  have k: "breaker_ok ?k" "k_policy ?k = k_policy k" using assms by simp_all
  have up: "breaker_ok (?k\<lparr> k_trajectories := d \<rparr>)"
    "breaker_ok (?k\<lparr> k_trajectories := AList.map_entry key (\<lambda>_. st\<lparr> j_pending := None, j_observed := i, j_calls := bounded_snoc (w_history_limit (k_policy k)) (j_calls st) c, j_verdict := v \<rparr>) d \<rparr>)" for i c v
    using breaker_ok_update [OF k(1), unfolded k(2)] t'(1-3) memory_update [OF t'(1-3) st] by blast+
  show ?thesis
  proof (cases "j_verdict st")
    case (Some v)
    then show ?thesis using False t resets_ok [OF up(1)] by (simp add: observe_call_def Let_def)
  next
    case None
    then show ?thesis using False t resets_ok [OF up(2)] enqueue_ok [OF resets_ok [OF up(2)]] by (simp add: observe_call_def Let_def)
  qed
qed (use assms in \<open>simp add: observe_call_def\<close>)

lemma check_ok: "breaker_ok k \<Longrightarrow> breaker_ok (fst (check_trajectory k key))"
proof -
  assume k: "breaker_ok k"
  have "breaker_ok (k\<lparr> k_trajectories := AList.map_entry key (\<lambda>_. st\<lparr> j_verdict := Some v, j_pending := None \<rparr>) (k_trajectories k) \<rparr>)"
    if "map_of (k_trajectories k) key = Some st" for st v
  proof -
    have m: "dict_wf (k_trajectories k)" "length (k_trajectories k) \<le> nat (w_max_trajectories (k_policy k))" "\<forall>p \<in> set (k_trajectories k). trajectory_ok (k_policy k) (snd p)"
      using k by (simp_all add: breaker_ok_def memory_ok_def)
    have "trajectory_ok (k_policy k) (st\<lparr> j_verdict := Some v, j_pending := None \<rparr>)" using m(3) map_of_SomeD [OF that] by (force simp: trajectory_ok_def)
    then show ?thesis using breaker_ok_update [OF k] memory_update [OF m] by blast
  qed
  then show "breaker_ok (fst (check_trajectory k key))" using k by (auto simp: check_trajectory_def split: option.splits)
qed

lemma reset_ok:
  assumes "breaker_ok k"
  shows "breaker_ok (reset_trajectory k key)"
proof -
  have "memory_ok k" using assms by (simp add: breaker_ok_def)
  then have "breaker_ok (k\<lparr> k_trajectories := AList.delete key (k_trajectories k) \<rparr>)"
    using length_delete_le [of key "k_trajectories k"] delete_subset [of _ key "k_trajectories k"]
    by (intro breaker_ok_update [OF assms]) (simp_all add: memory_ok_def AList.distinct_delete)
  then show ?thesis by (simp add: reset_trajectory_def observer_reset_ok)
qed

lemma trajectory_ok_pending: "trajectory_ok w st \<Longrightarrow> j_verdict st = None \<Longrightarrow> trajectory_ok w (st\<lparr> j_pending := p \<rparr>)"
  by (simp add: trajectory_ok_def)

lemma evaluate_ok:
  assumes "breaker_ok k"
  shows "breaker_ok (evaluate_window k key snapshot)"
proof (cases "k_observer k")
  case (Some ob)
  let ?f = "\<lambda>v (i, st). (i, if i = key \<and> j_verdict st = None \<and> j_pending st = None then st\<lparr> j_pending := Some v \<rparr> else st)"
  obtain ob' v where e: "entropy_evaluate (u_fl (k_setup k)) (u_mean (k_setup k)) (u_say (k_setup k)) ob key (map (resolved k) snapshot) = (ob', v)" by fastforce
  have "entropy_ok ob" using assms Some by (simp add: breaker_ok_def)
  from entropy_evaluate_ok [OF this] have "entropy_ok ob'" using e by (metis fst_conv)
  then have k1: "breaker_ok (k\<lparr> k_observer := Some ob', k_evaluated := k_evaluated k + 1 \<rparr>)" (is "breaker_ok ?k")
    using assms by (simp add: breaker_ok_def memory_ok_def)
  have "breaker_ok (?k\<lparr> k_trajectories := map (?f v) (k_trajectories ?k) \<rparr>)" for v
  proof (rule breaker_ok_update [OF k1])
    have keys: "map fst (map (?f v) (k_trajectories k)) = map fst (k_trajectories k)" by auto
    have m: "memory_ok k" using assms by (simp add: breaker_ok_def)
    show "dict_wf (map (?f v) (k_trajectories ?k))" using m keys by (simp add: memory_ok_def del: map_map)
    show "length (map (?f v) (k_trajectories ?k)) \<le> nat (w_max_trajectories (k_policy ?k))" using m by (simp add: memory_ok_def)
    show "\<forall>p \<in> set (map (?f v) (k_trajectories ?k)). trajectory_ok (k_policy ?k) (snd p)" using m by (fastforce simp: memory_ok_def trajectory_ok_pending)
  qed
  then show ?thesis using k1 e Some by (auto simp: evaluate_window_def Let_def split: option.splits)
qed (use assms in \<open>simp add: evaluate_window_def\<close>)

lemma lane_ok:
  assumes "breaker_ok k"
  shows "breaker_ok (lane_step k)"
proof (cases "k_queue k")
  case (Cons i rest)
  then have "breaker_ok (k\<lparr> k_queue := rest \<rparr>)" "breaker_ok (k\<lparr> k_queue := rest, k_running := False \<rparr>)"
    using assms by (auto simp: breaker_ok_def memory_ok_def)
  then show ?thesis using assms Cons by (auto simp: lane_step_def evaluate_ok split: option.split)
qed (use assms in \<open>simp add: lane_step_def\<close>)

lemma close_ok: "breaker_ok k \<Longrightarrow> breaker_ok (close_breaker k)"
  by (auto simp: breaker_ok_def memory_ok_def close_breaker_def Let_def)

lemma moves_ok: "breaker_ok k \<Longrightarrow> breaker_ok (moves e k)"
  by (cases e) (simp_all add: observe_call_ok check_ok reset_ok lane_ok close_ok record_result_def Let_def)

interpretation bounded: eventful breaker_ok "\<lambda>_. True"
  by unfold_locales (rule moves_ok)

lemma new_breaker_ok: "breaker_ok (new_breaker u (Some (default_observer (u_policy u))))"
  by (simp add: breaker_ok_def memory_ok_def new_breaker_def entropy_ok_def default_observer_def new_entropy_def)


section \<open>The latch\<close>

definition verdict_of :: "breaker \<Rightarrow> ustr \<Rightarrow> verdict option" where
  "verdict_of k key = (case map_of (k_trajectories k) key of None \<Rightarrow> None | Some st \<Rightarrow> j_verdict st)"

text \<open>The trajectories an event makes the breaker remember.\<close>

fun names :: "event \<Rightarrow> ustr set" where
  "names (Observe scope tool args tr) = {or_key tr scope}"
| "names _ = {}"

definition remembered :: "breaker \<Rightarrow> ustr set" where
  "remembered k = fst ` set (k_trajectories k)"

lemma touch_room:
  assumes "memory_ok k" "touch k key = (st, d, ev)" "card (insert key (remembered k)) \<le> nat (w_max_trajectories (k_policy k))"
  shows "fst ` set d = insert key (remembered k)" "i \<noteq> key \<Longrightarrow> map_of d i = map_of (k_trajectories k) i" "map_of d key = Some st"
proof -
  let ?t = "\<lparr> j_calls = [], j_observed = 0, j_verdict = None, j_pending = None \<rparr>"
  have "fst ` set d = insert key (remembered k) \<and> (i \<noteq> key \<longrightarrow> map_of d i = map_of (k_trajectories k) i) \<and> map_of d key = Some st"
  proof (cases "map_of (k_trajectories k) key")
    case None
    then have k: "key \<notin> fst ` set (k_trajectories k)" by (simp add: map_of_eq_None_iff)
    have "card (remembered k) = length (k_trajectories k)"
      using assms(1) distinct_card [of "map fst (k_trajectories k)"] by (simp add: memory_ok_def remembered_def)
    then have "length (k_trajectories k @ [(key, ?t)]) \<le> nat (w_max_trajectories (k_policy k))" using assms(3) k by (simp add: remembered_def)
    then have "d = k_trajectories k @ [(key, ?t)]" "st = ?t" using assms(2) None by (auto simp: touch_def Let_def)
    then show ?thesis using None k by (auto simp: remembered_def map_add_def split: option.split)
  next
    case (Some t)
    then have "d = move_to_end key (k_trajectories k)" "st = t" using assms(2) by (auto simp: touch_def)
    moreover have "key \<in> fst ` set (k_trajectories k)" using Some by (metis domI dom_map_of_conv_image_fst)
    ultimately show ?thesis using Some by (auto simp: remembered_def)
  qed
  then show "fst ` set d = insert key (remembered k)" "i \<noteq> key \<Longrightarrow> map_of d i = map_of (k_trajectories k) i" "map_of d key = Some st" by blast+
qed

text \<open>One event: what is remembered grows by what it names, the policy stays, and a verdict survives it.\<close>

lemma observe_call_setup: "k_setup (fst (observe_call k scope tool args key)) = k_setup k"
proof -
  obtain st d ev where t: "touch k key = (st, d, ev)" by (cases "touch k key")
  then show ?thesis by (simp add: observe_call_def Let_def split: option.split)
qed

lemma observe_call_keeps:
  assumes "breaker_ok k" "card (insert key (remembered k)) \<le> nat (w_max_trajectories (k_policy k))"
  shows "remembered (fst (observe_call k scope tool args key)) \<subseteq> insert key (remembered k)"
    "verdict_of k i = Some v \<Longrightarrow> verdict_of (fst (observe_call k scope tool args key)) i = Some v"
proof -
  obtain st d ev where t: "touch k key = (st, d, ev)" by (cases "touch k key")
  have m: "memory_ok k" using assms by (simp add: breaker_ok_def)
  note r = touch_room [OF m t assms(2)]
  show "remembered (fst (observe_call k scope tool args key)) \<subseteq> insert key (remembered k)"
    using t r(1) by (auto simp: observe_call_def Let_def remembered_def set_map [symmetric] simp del: set_map split: option.splits if_splits)
  assume v: "verdict_of k i = Some v"
  then have g: "i = key \<Longrightarrow> j_verdict st = Some v" using t by (auto simp: verdict_of_def touch_def split: option.splits)
  show "verdict_of (fst (observe_call k scope tool args key)) i = Some v"
    using t v r(2) r(3) g by (cases "i = key") (auto simp: observe_call_def Let_def verdict_of_def map_of_map_entry split: option.splits)
qed

lemma check_keeps:
  "k_setup (fst (check_trajectory k key)) = k_setup k" "remembered (fst (check_trajectory k key)) = remembered k"
  "verdict_of k i = Some v \<Longrightarrow> verdict_of (fst (check_trajectory k key)) i = Some v"
  by (auto simp: check_trajectory_def remembered_def verdict_of_def map_of_map_entry set_map [symmetric] simp del: set_map split: option.splits)

lemma record_keeps [simp]:
  "k_setup (record_result k key answer rendered) = k_setup k" "remembered (record_result k key answer rendered) = remembered k"
  "verdict_of (record_result k key answer rendered) i = verdict_of k i"
  by (simp_all add: record_result_def Let_def remembered_def verdict_of_def)

lemma reset_keeps:
  "k_setup (reset_trajectory k key) = k_setup k" "remembered (reset_trajectory k key) \<subseteq> remembered k"
  "i \<noteq> key \<Longrightarrow> verdict_of (reset_trajectory k key) i = verdict_of k i" "verdict_of (reset_trajectory k key) key = None"
  by (auto simp: reset_trajectory_def remembered_def verdict_of_def delete_conv' dest: delete_subset)

lemma close_keeps [simp]:
  "k_setup (close_breaker k) = k_setup k" "remembered (close_breaker k) = remembered k" "verdict_of (close_breaker k) i = verdict_of k i"
  by (simp_all add: close_breaker_def Let_def remembered_def verdict_of_def)

lemma evaluate_fields:
  "k_setup (evaluate_window k key snapshot) = k_setup k" "remembered (evaluate_window k key snapshot) = remembered k"
  by (force simp: evaluate_window_def Let_def remembered_def split: option.splits prod.splits)+

lemma map_of_values: "map_of (map (\<lambda>(i, x). (i, f i x)) d) i = map_option (f i) (map_of d i)"
  by (induction d) auto

lemma evaluate_verdicts: "verdict_of (evaluate_window k key snapshot) i = verdict_of k i"
  by (auto simp: evaluate_window_def Let_def verdict_of_def map_of_values split: option.splits prod.splits)

lemma lane_keeps [simp]:
  "k_setup (lane_step k) = k_setup k" "remembered (lane_step k) = remembered k" "verdict_of (lane_step k) i = verdict_of k i"
  by (simp_all add: lane_step_def evaluate_fields evaluate_verdicts split: list.split option.split)
    (simp_all add: remembered_def verdict_of_def)

lemma moves_keep:
  assumes "breaker_ok k" "card (remembered k \<union> names e) \<le> nat (w_max_trajectories (k_policy k))" "e \<noteq> Reset key"
  shows "k_setup (moves e k) = k_setup k" "remembered (moves e k) \<subseteq> remembered k \<union> names e"
    "verdict_of k key = Some v \<Longrightarrow> verdict_of (moves e k) key = Some v"
  using assms(2,3) observe_call_setup observe_call_keeps [OF assms(1)] check_keeps reset_keeps by (cases e; auto)+

text \<open>The latch on \<open>key\<close>, while the breaker \<open>k0\<close> started from has room for all the trajectories in \<open>U\<close>.\<close>

definition latched_in :: "breaker \<Rightarrow> ustr set \<Rightarrow> ustr \<Rightarrow> verdict \<Rightarrow> breaker \<Rightarrow> bool" where
  "latched_in k0 U key v k \<longleftrightarrow> breaker_ok k \<and> k_setup k = k_setup k0 \<and> remembered k \<subseteq> U \<and> verdict_of k key = Some v
     \<and> finite U \<and> card U \<le> nat (w_max_trajectories (k_policy k0))"

interpretation latching: eventful "latched_in k0 U key v" "\<lambda>e. e \<noteq> Reset key \<and> names e \<subseteq> U" for k0 U key v
proof
  fix k e
  assume k: "latched_in k0 U key v k" and e: "e \<noteq> Reset key \<and> names e \<subseteq> U"
  have "card (remembered k \<union> names e) \<le> card U" using k e by (intro card_mono) (auto simp: latched_in_def)
  then have "card (remembered k \<union> names e) \<le> nat (w_max_trajectories (k_policy k))" using k by (simp add: latched_in_def)
  with moves_keep [of k e key] moves_ok [of k e] show "latched_in k0 U key v (moves e k)" using k e by (auto simp: latched_in_def)
qed

text \<open>A call on a latched trajectory, and a \<open>check\<close> of it, halt.\<close>

lemma latched_observe:
  "verdict_of k key = Some v \<Longrightarrow> tool \<notin> w_exempt_tools (k_policy k) \<Longrightarrow> snd (observe_call k scope tool args key) = Some v"
  by (auto simp: verdict_of_def observe_call_def touch_def Let_def split: option.splits)

lemma latched_check: "verdict_of k key = Some v \<Longrightarrow> check_trajectory k key = (k, Some v)"
  by (auto simp: verdict_of_def check_trajectory_def split: option.splits)

lemma halting_halts: "snd kv = Some v \<Longrightarrow> halting g scope key kv = ((fst kv, fst (halt g scope key v)), Inl (snd (halt g scope key v)))"
  by (cases kv) (simp add: halting_def split: prod.split)

text \<open>C35: A latched trajectory stays latched. As long as no more trajectories are in use than the policy has room for
  and nobody resets this one, every later call on it (of a tool that is not exempt) and every check is
  refused with the verdict that latched it, whatever else happened in between.\<close>

theorem latch_holds:
  assumes "breaker_ok k" "verdict_of k key = Some v" "Reset key \<notin> set es"
    and "card (remembered k \<union> (\<Union>e \<in> set es. names e)) \<le> nat (w_max_trajectories (k_policy k))"
    and "or_key tr scope = key" "tool \<notin> w_exempt_tools (k_policy k)"
  shows "\<exists>kg e. fold happens es (k, g) = kg \<and> snd (observe scope tool args tr kg) = Inl e \<and> snd (check scope tr kg) = Inl e
    \<and> e = snd (halt (snd kg) scope key v) \<and> verdict_of (fst kg) key = Some v"
proof -
  let ?kg = "fold happens es (k, g)" and ?U = "remembered k \<union> (\<Union>e \<in> set es. names e)"
  have "finite (names e)" for e by (cases e) simp_all
  then have start: "latched_in k ?U key v k" using assms(1,2,4) by (simp add: latched_in_def remembered_def)
  have "latched_in k ?U key v (fst ?kg)" by (rule latching.run_holds [OF start]) (use assms(3) in auto)
  then have l: "verdict_of (fst ?kg) key = Some v" "k_policy (fst ?kg) = k_policy k" by (simp_all add: latched_in_def)
  have "snd (observe scope tool args tr ?kg) = Inl (snd (halt (snd ?kg) scope key v))"
    using latched_observe [OF l(1), of tool scope args] l(2) assms(5,6) by (simp add: observe_def halting_halts)
  moreover have "snd (check scope tr ?kg) = Inl (snd (halt (snd ?kg) scope key v))"
    using latched_check [OF l(1)] assms(5) by (simp add: check_def halting_halts)
  ultimately show ?thesis using l(1) by blast
qed

text \<open>What the latch does not survive: a breaker whose dictionary is full forgets its least recently used trajectory,
  latched or not, when a new one is observed.\<close>

theorem latch_evicted:
  assumes "breaker_ok k" "k_trajectories k = (key, st) # rest" "length (k_trajectories k) = nat (w_max_trajectories (k_policy k))"
    and "or_key tr scope \<notin> remembered k" "tool \<notin> w_exempt_tools (k_policy k)"
  shows "verdict_of (fst (fst (observe scope tool args tr (k, g)))) key = None"
proof -
  let ?t = "\<lparr> j_calls = [], j_observed = 0, j_verdict = None, j_pending = None \<rparr>" and ?new = "or_key tr scope"
  have n: "map_of (k_trajectories k) ?new = None" using assms(4) by (simp add: map_of_eq_None_iff remembered_def)
  have k: "key \<notin> fst ` set rest" "?new \<noteq> key" using assms(1,2,4) by (auto simp: breaker_ok_def memory_ok_def remembered_def)
  have "evict (nat (w_max_trajectories (k_policy k))) (k_trajectories k @ [(?new, ?t)]) = rest @ [(?new, ?t)]"
    using assms(2) unfolding assms(3) [symmetric] by (simp add: evict_def)
  then obtain ev where t: "touch k ?new = (?t, rest @ [(?new, ?t)], ev)" using n by (simp add: touch_def Let_def)
  have none: "map_of (AList.map_entry ?new f (rest @ [(?new, ?t)])) key = None" for f
    using k by (simp add: map_of_map_entry map_add_def map_of_eq_None_iff split: option.split)
  show ?thesis using t none assms(5) unfolding observe_def Let_def halting_fst
    by (simp add: observe_call_def verdict_of_def Let_def)
qed

section \<open>The lane\<close>

text \<open>A verdict of the lane on a trajectory that is not latched is enforced by the next call on it, one call
  late and no later; or by the next check of it.\<close>

theorem lane_verdict_enforced:
  assumes "k_running k" "k_queue k = Some (key, snapshot) # rest" "k_observer k = Some ob"
    and "snd (entropy_evaluate (u_fl (k_setup k)) (u_mean (k_setup k)) (u_say (k_setup k)) ob key (map (resolved k) snapshot)) = Some v"
    and "map_of (k_trajectories k) key = Some st" "j_verdict st = None" "j_pending st = None"
    and "or_key tr scope = key" "tool \<notin> w_exempt_tools (k_policy k)"
  shows "snd (observe scope tool args tr (lane_step k, g)) = Inl (snd (halt g scope key v))
    \<and> snd (check scope tr (lane_step k, g)) = Inl (snd (halt g scope key v))"
proof -
  have lane: "lane_step k = evaluate_window (k\<lparr> k_queue := rest \<rparr>) key snapshot" using assms(1,2) by (simp add: lane_step_def)
  have r: "resolved (k\<lparr> k_queue := rest \<rparr>) = resolved k" by (simp add: resolved_def fun_eq_iff)
  have p: "map_of (k_trajectories (lane_step k)) key = Some (st\<lparr> j_pending := Some v \<rparr>)" "k_setup (lane_step k) = k_setup k"
    using assms(3-7) r unfolding lane
    by (auto simp: evaluate_window_def Let_def map_of_values split: prod.splits)
  have "snd (observe_call (lane_step k) scope tool args key) = Some v" using p assms(6,9)
    by (simp add: observe_call_def touch_def Let_def)
  moreover have "snd (check_trajectory (lane_step k) key) = Some v" using p(1) assms(6) by (simp add: check_trajectory_def)
  ultimately show ?thesis using assms(8) by (simp add: observe_def check_def halting_halts)
qed

section \<open>The halt\<close>

lemma thrashing_halts:
  assumes "snd (observe_call k scope tool args (or_key tr scope)) = Some v"
    and "at_rest n 2 m" "named_scope m scope" "roomy m scope 0" "check_text (halt_reason v) MAX_MEMO_BYTES False = None"
  shows "\<exists>k' m'. observe scope tool args tr (k, Some m) = ((k', Some m'), Inl (AgentThrashingError scope (or_key tr scope) (z_detector v)
        (z_reason v) (z_observations v) (z_confidence v) (z_tier v)))
    \<and> s_tripped (m_state m') scope \<noteq> None \<and> (\<forall>j. dval (m_balance m' j) = dval (m_balance m j))
    \<and> (\<forall>j ks. ancestry m' j = Inr ks \<and> scope \<in> set ks \<longrightarrow> (\<exists>t. halted_at m' j = Inr (Some t)))"
proof -
  from trip_run [OF assms(2-5)] obtain m' where t: "trip scope (halt_reason v) m = (m', Inr ())"
    and r: "s_tripped (m_state m') scope \<noteq> None \<and> (\<forall>j. dval (m_balance m' j) = dval (m_balance m j))
      \<and> (\<forall>j ks. ancestry m' j = Inr ks \<and> scope \<in> set ks \<longrightarrow> (\<exists>t. halted_at m' j = Inr (Some t)))" by blast
  show ?thesis using halting_halts [OF assms(1), of "Some m" scope "or_key tr scope"] t r
    by (simp add: observe_def halt_def Let_def)
qed

text \<open>A halt reaches the governor: when a call is judged to be thrashing, the breaker of its scope is tripped, so
  that scope and every scope below it is halted for every agent, no money moves, and the caller gets the verdict.\<close>

theorem thrashing_trips:
  assumes "snd (observe_call k scope tool args (or_key tr scope)) = Some v"
    and "at_rest n 2 m" "named_scope m scope" "roomy m scope 0" "check_text (halt_reason v) MAX_MEMO_BYTES False = None"
  shows "\<exists>k' m'. observe scope tool args tr (k, Some m) = ((k', Some m'), Inl (AgentThrashingError scope (or_key tr scope) (z_detector v)
        (z_reason v) (z_observations v) (z_confidence v) (z_tier v)))
    \<and> s_tripped (m_state m') scope \<noteq> None \<and> (\<forall>j. dval (m_balance m' j) = dval (m_balance m j))
    \<and> (\<forall>j ks. ancestry m' j = Inr ks \<and> scope \<in> set ks \<longrightarrow> (\<exists>t. halted_at m' j = Inr (Some t)))"
  by (rule thrashing_halts [OF assms])

section \<open>A repeated call\<close>

definition repeated :: "breaker \<Rightarrow> ustr \<Rightarrow> ustr \<Rightarrow> nat \<Rightarrow> bool" where
  "repeated k key fp i \<longleftrightarrow> (\<exists>st. dict_get (k_trajectories k) key \<lparr> j_calls = [], j_observed = 0, j_verdict = None, j_pending = None \<rparr> = st
     \<and> i \<le> length (j_calls st) \<and> (\<forall>c \<in> set (take i (rev (j_calls st))). c_fingerprint c = fp))"

definition fingerprint :: "breaker \<Rightarrow> ustr \<Rightarrow> ustr \<Rightarrow> ustr" where
  "fingerprint k tool args = u_digest (k_setup k) (tool @ [UNIT_SEPARATOR] @ redacted k tool args)"

lemma rev_bounded_snoc: "rev (bounded_snoc n xs x) = take n (x # rev xs)"
  by (cases "n \<le> length xs + 1") (simp_all add: bounded_snoc_def rev_drop del: drop_append)

lemma touch_present:
  assumes "memory_ok k" "0 < w_max_trajectories (k_policy k)" "touch k key = (st, d, ev)"
  shows "map_of d key = Some st"
proof (cases "map_of (k_trajectories k) key")
  case None
  then have "d = drop (length (k_trajectories k) + 1 - nat (w_max_trajectories (k_policy k))) (k_trajectories k) @ [(key, st)]" "st = \<lparr> j_calls = [], j_observed = 0, j_verdict = None, j_pending = None \<rparr>"
    using assms(1-3) by (auto simp: touch_def Let_def evict_def memory_ok_def)
  moreover have "map_of (drop j (k_trajectories k)) key = None" for j
    using None set_drop_subset [of j "k_trajectories k"] by (auto simp: map_of_eq_None_iff image_iff)
  ultimately show ?thesis by (simp add: map_add_def)
next
  case (Some x)
  then show ?thesis using assms(3) by (auto simp: touch_def)
qed

lemma observe_latches:
  assumes "breaker_ok k" "0 < w_max_trajectories (k_policy k)" "snd (observe_call k scope tool args key) = Some v"
  shows "verdict_of (fst (observe_call k scope tool args key)) key = Some v"
proof -
  obtain st d ev where t: "touch k key = (st, d, ev)" by (cases "touch k key")
  have "memory_ok k" using assms(1) by (simp add: breaker_ok_def)
  from touch_present [OF this assms(2) t] show ?thesis
    using t assms(3) by (auto simp: observe_call_def Let_def verdict_of_def map_of_map_entry split: option.splits if_splits)
qed

lemma repeated_step:
  assumes "breaker_ok k" "repeated k key (fingerprint k tool args) i" "i < w_history_limit (k_policy k)" "0 < w_max_trajectories (k_policy k)"
    and "tool \<notin> w_exempt_tools (k_policy k)" "snd (observe_call k scope tool args key) = None"
  shows "repeated (fst (observe_call k scope tool args key)) key (fingerprint k tool args) (Suc i)"
proof -
  let ?t = "\<lparr> j_calls = [], j_observed = 0, j_verdict = None, j_pending = None \<rparr>"
  obtain st d ev where t: "touch k key = (st, d, ev)" by (cases "touch k key")
  have m: "memory_ok k" using assms by (simp add: breaker_ok_def)
  have st: "dict_get (k_trajectories k) key ?t = st" using touch_ok(5) [OF m t] .
  have d: "map_of d key = Some st" using touch_present [OF m assms(4) t] .
  obtain c where c: "map_of (k_trajectories (fst (observe_call k scope tool args key))) key
      = Some (st\<lparr> j_pending := None, j_observed := j_observed st + 1, j_calls := bounded_snoc (w_history_limit (k_policy k)) (j_calls st) c, j_verdict := None \<rparr>)"
    "c_fingerprint c = fingerprint k tool args"
    using t d assms(5,6) by (auto simp: observe_call_def Let_def map_of_map_entry fingerprint_def split: option.splits)
  have "i \<le> length (j_calls st)" "\<forall>c \<in> set (take i (rev (j_calls st))). c_fingerprint c = fingerprint k tool args"
    using assms(2) st by (auto simp: repeated_def)
  moreover have "take (Suc i) (rev (bounded_snoc (w_history_limit (k_policy k)) (j_calls st) c)) = c # take i (rev (j_calls st))"
    using assms(3) by (simp add: rev_bounded_snoc)
  moreover have "Suc i \<le> length (bounded_snoc (w_history_limit (k_policy k)) (j_calls st) c)"
    using assms(3) \<open>i \<le> length (j_calls st)\<close> by (simp add: bounded_snoc_def)
  ultimately show ?thesis using c by (simp add: repeated_def dict_get_def)
qed

lemma repeated_judged:
  assumes "repeated k key (fingerprint k tool args) (nat limit - 1)" "u_detectors (k_setup k) = exact_repeat s limit # ds" "1 < limit"
    and "limit - 1 \<le> w_comparison_window (k_policy k)" "tool \<notin> w_exempt_tools (k_policy k)"
  shows "snd (observe_call k scope tool args key) \<noteq> None"
proof -
  let ?t = "\<lparr> j_calls = [], j_observed = 0, j_verdict = None, j_pending = None \<rparr>" and ?w = "w_comparison_window (k_policy k)"
  obtain st d ev where t: "touch k key = (st, d, ev)" by (cases "touch k key")
  have st: "dict_get (k_trajectories k) key ?t = st" using t by (auto simp: touch_def dict_get_def Let_def split: option.splits)
  have h: "nat limit - 1 \<le> length (j_calls st)" "\<forall>c \<in> set (take (nat limit - 1) (rev (j_calls st))). c_fingerprint c = fingerprint k tool args"
    using assms(1) st by (auto simp: repeated_def)
  have "judge k c (j_calls st) \<noteq> None" if c: "c_fingerprint c = fingerprint k tool args" for c
  proof -
    let ?h = "map (resolved k) (slice_last ?w (j_calls st))"
    have n: "nat limit - 1 \<le> nat ?w" "0 < ?w" using assms(3,4) by auto
    have rev: "rev (slice_last ?w (j_calls st)) = take (nat ?w) (rev (j_calls st))"
      using n(2) by (cases "nat ?w \<le> length (j_calls st)") (simp_all add: slice_last_def rev_drop)
    have "take (nat limit - 1) (rev ?h) = map (resolved k) (take (nat limit - 1) (rev (j_calls st)))"
      unfolding rev_map rev using n(1) by (simp add: take_map min_def)
    moreover have "nat limit - 1 \<le> length ?h" using h(1) n by (simp add: slice_last_def) linarith
    ultimately have "\<exists>v. exact_repeat s limit c ?h = Some (Some v)"
      unfolding exact_repeat_fires [OF assms(3)] using h(2) c by (auto simp: resolved_def)
    then show ?thesis using assms(2) by (auto simp: judge_def)
  qed
  then show ?thesis using t assms(5) by (auto simp: observe_call_def Let_def fingerprint_def split: option.splits)
qed

lemma repeated_run:
  assumes "breaker_ok k" "int i \<le> limit - 1" "0 < w_max_trajectories (k_policy k)"
    and "limit - 1 \<le> int (w_history_limit (k_policy k))" "tool \<notin> w_exempt_tools (k_policy k)"
    and "k' = ((\<lambda>k. fst (observe_call k scope tool args key)) ^^ i) k"
  shows "breaker_ok k' \<and> k_setup k' = k_setup k \<and> (verdict_of k' key \<noteq> None \<or> repeated k' key (fingerprint k tool args) i)"
  using assms(2,6)
proof (induction i arbitrary: k')
  case 0
  then show ?case using assms(1) by (simp add: repeated_def)
next
  case (Suc i)
  let ?k = "((\<lambda>k. fst (observe_call k scope tool args key)) ^^ i) k"
  have i: "breaker_ok ?k" "k_setup ?k = k_setup k" "verdict_of ?k key \<noteq> None \<or> repeated ?k key (fingerprint k tool args) i"
    using Suc.IH [OF _ refl] Suc.prems(1) by simp_all
  have fp: "fingerprint ?k tool args = fingerprint k tool args" using i(2) by (simp add: fingerprint_def redacted_def)
  have step: "k' = fst (observe_call ?k scope tool args key)" using Suc.prems(2) by simp
  have kept: "k_setup k' = k_setup k" using i(2) unfolding step by (simp add: observe_call_setup)
  have "verdict_of k' key \<noteq> None \<or> repeated k' key (fingerprint k tool args) (Suc i)"
  proof (cases "snd (observe_call ?k scope tool args key)")
    case None
    then have "verdict_of ?k key = None" using latched_observe [of ?k key _ tool scope args] i(2) assms(5) by (cases "verdict_of ?k key") auto
    then show ?thesis using repeated_step [OF i(1), of key tool args i scope] i(2,3) fp None assms(3-5) Suc.prems(1) unfolding step by simp
  next
    case (Some v)
    then show ?thesis using observe_latches [OF i(1)] i(2) assms(3) unfolding step by simp
  qed
  then show ?case using kept observe_call_ok [OF i(1)] step by blast
qed

text \<open>An agent that makes the same call over and over is stopped: of \<open>max_identical_repeats\<close> identical calls in a
  row on a trajectory the last is refused at the latest, whatever the breaker has seen before; the window and
  the history have to hold the calls to compare with.\<close>

theorem repeats_halt:
  assumes "breaker_ok k" "u_detectors (k_setup k) = default_detectors fl s (k_policy k)" "n = w_max_identical_repeats (k_policy k)" "1 < n"
    and "n - 1 \<le> w_comparison_window (k_policy k)" "n - 1 \<le> int (w_history_limit (k_policy k))" "0 < w_max_trajectories (k_policy k)"
    and "tool \<notin> w_exempt_tools (k_policy k)"
  shows "\<exists>e. snd (observe scope tool args tr (((happens (Observe scope tool args tr)) ^^ (nat n - 1)) (k, g))) = Inl e"
proof -
  let ?key = "or_key tr scope" and ?f = "\<lambda>k. fst (observe_call k scope tool args (or_key tr scope))"
  have run: "fst (((happens (Observe scope tool args tr)) ^^ i) (k, g)) = (?f ^^ i) k" for i
    by (induction i) (simp_all add: happens_moves del: happens.simps)
  let ?k = "(?f ^^ (nat n - 1)) k"
  have i: "int (nat n - 1) \<le> n - 1" using assms(4) by simp
  note r = repeated_run [OF assms(1) i assms(7,6,8) refl, of scope args ?key]
  have "snd (observe_call ?k scope tool args ?key) \<noteq> None"
  proof (cases "verdict_of ?k ?key")
    case (Some v)
    then show ?thesis using latched_observe [OF Some, of tool scope args] r assms(8) by simp
  next
    case None
    then have "repeated ?k ?key (fingerprint ?k tool args) (nat n - 1)" using r by (simp add: fingerprint_def redacted_def)
    from repeated_judged [OF this] show ?thesis using r assms(2-5,8) by (simp add: default_detectors_def)
  qed
  then obtain v where "snd (observe_call ?k scope tool args ?key) = Some v" by blast
  then show ?thesis unfolding observe_def Let_def run by (simp add: halting_halts)
qed

section \<open>Samples\<close>

definition sample_verdict :: verdict where
  "sample_verdict = \<lparr> z_detector = ''exact_repeat'', z_reason = lit ''x'', z_confidence = 1, z_observations = 3, z_tier = ''deterministic'' \<rparr>"

definition sample_trajectory :: "verdict option \<Rightarrow> trajectory" where
  "sample_trajectory v = \<lparr> j_calls = [], j_observed = 0, j_verdict = v, j_pending = None \<rparr>"

definition sample_latched :: breaker where
  "sample_latched = sample_breaker\<lparr> k_trajectories := [(lit ''root'', sample_trajectory (Some sample_verdict))] \<rparr>"

lemma sample_latched_ok:
  "breaker_ok sample_latched" "verdict_of sample_latched (lit ''root'') = Some sample_verdict" "k_policy sample_latched = default_cognitive_policy"
  "remembered sample_latched = {lit ''root''}"
  using new_breaker_ok [of sample_wiring]
  by (auto simp: sample_latched_def sample_breaker_def breaker_ok_def memory_ok_def new_breaker_def sample_wiring_def default_cognitive_policy_def
      sample_trajectory_def trajectory_ok_def verdict_of_def remembered_def simp del: lit_Cons)

theorem latch_holds_witness:
  "\<exists>e. snd (observe (lit ''root'') [65] [] None (fold happens [Lane, Observe (lit ''other'') [65] [] None, Close] (sample_latched, None))) = Inl e"
proof -
  have "card {lit ''other'', lit ''root''} \<le> 2" by (simp add: card_insert_if del: lit_Cons)
  then have c: "card (remembered sample_latched \<union> (\<Union>e \<in> set [Lane, Observe (lit ''other'') [65] [] None, Close]. names e))
      \<le> nat (w_max_trajectories (k_policy sample_latched))"
    by (simp add: sample_latched_ok or_key_def default_cognitive_policy_def insert_commute del: lit_Cons)
  have t: "[65] \<notin> w_exempt_tools (k_policy sample_latched)" "or_key None (lit ''root'') = lit ''root''"
    by (simp_all add: sample_latched_ok default_cognitive_policy_def or_key_def del: lit_Cons)
  from latch_holds [OF sample_latched_ok(1,2) _ c t(2,1), of None "[]"] show ?thesis by (simp del: lit_Cons happens.simps)
qed

definition sample_full :: breaker where
  "sample_full = sample_latched\<lparr> k_setup := sample_wiring\<lparr> u_policy := default_cognitive_policy\<lparr> w_max_trajectories := 1 \<rparr> \<rparr> \<rparr>"

theorem latch_evicted_witness:
  "verdict_of sample_full (lit ''root'') \<noteq> None
   \<and> verdict_of (fst (fst (observe (lit ''other'') [65] [] None (sample_full, None)))) (lit ''root'') = None"
proof
  have d: "breaker_ok sample_full" "k_trajectories sample_full = [(lit ''root'', sample_trajectory (Some sample_verdict))]"
    "length (k_trajectories sample_full) = nat (w_max_trajectories (k_policy sample_full))" "remembered sample_full = {lit ''root''}"
    "[65] \<notin> w_exempt_tools (k_policy sample_full)"
    using sample_latched_ok(1)
    by (simp_all add: sample_full_def sample_latched_def breaker_ok_def memory_ok_def remembered_def sample_trajectory_def trajectory_ok_def
        sample_wiring_def sample_breaker_def new_breaker_def default_cognitive_policy_def del: lit_Cons)
  show "verdict_of sample_full (lit ''root'') \<noteq> None" by (simp add: verdict_of_def d(2) sample_trajectory_def del: lit_Cons)
  have "or_key None (lit ''other'') \<notin> remembered sample_full" unfolding d(4) by (simp add: or_key_def)
  from latch_evicted [OF d(1-3) this d(5)] show "verdict_of (fst (fst (observe (lit ''other'') [65] [] None (sample_full, None)))) (lit ''root'') = None" .
qed

definition sample_ratios :: entropy where
  "sample_ratios = \<lparr> e_window = 2, e_min_ratio = 1, e_include_results = True, e_max_trajectories = 1,
     e_states = [([0], \<lparr> e_seen = {}, e_ratios = [0, 0] \<rparr>)] \<rparr>"

theorem lane_verdict_enforced_witness:
  "\<exists>k e. k_running k \<and> k_queue k = [Some ([0], [sample_call 1])]
     \<and> snd (observe [0] [65] [] None (lane_step k, None)) = Inl e \<and> snd (check [0] None (lane_step k, None)) = Inl e"
proof -
  let ?k = "sample_breaker\<lparr> k_running := True, k_queue := [Some ([0], [sample_call 1])], k_observer := Some sample_ratios,
    k_trajectories := [([0], sample_trajectory None)] \<rparr>"
  have u: "u_mean (k_setup ?k) = (\<lambda>_. 0)" "w_exempt_tools (k_policy ?k) = {}"
    by (simp_all add: sample_breaker_def new_breaker_def sample_wiring_def default_cognitive_policy_def)
  obtain v where v: "snd (entropy_evaluate (u_fl (k_setup ?k)) (u_mean (k_setup ?k)) (u_say (k_setup ?k)) sample_ratios [0] (map (resolved ?k) [sample_call 1])) = Some v"
    unfolding u(1) by (simp add: entropy_evaluate_def sample_ratios_def Let_def bounded_snoc_def split: option.split)
  have st: "map_of (k_trajectories ?k) [0] = Some (sample_trajectory None)" "j_verdict (sample_trajectory None) = None" "j_pending (sample_trajectory None) = None"
    by (simp_all add: sample_trajectory_def)
  have t: "or_key None [0] = [0]" "[65] \<notin> w_exempt_tools (k_policy ?k)" using u(2) by (simp_all add: or_key_def)
  have q: "k_running ?k" "k_queue ?k = [Some ([0], [sample_call 1])]" "k_observer ?k = Some sample_ratios" by simp_all
  from lane_verdict_enforced [OF q v st t, of "[]" None] q(1,2) show ?thesis by blast
qed

theorem thrashing_trips_witness:
  "\<exists>m k' m' e. sample_root sample_manager = (m, Inr ()) \<and> observe (lit ''root'') [65] [] None (sample_latched, Some m) = ((k', Some m'), Inl e)
     \<and> s_tripped (m_state m') (lit ''root'') \<noteq> None"
proof -
  obtain m where m: "sample_root sample_manager = (m, Inr ())" "sample_opened m" using sample_open by blast
  note r = sample_grants [OF m(2) refl refl refl]
  have rest: "at_rest 9 2 m" using r(1) by (rule at_rest_less) simp
  have t: "check_text (halt_reason sample_verdict) MAX_MEMO_BYTES False = None"
    by (simp add: halt_reason_def sample_verdict_def check_text_def MAX_MEMO_BYTES_def is_control_def)
  have "[65] \<notin> w_exempt_tools (k_policy sample_latched)" by (simp add: sample_latched_ok default_cognitive_policy_def)
  from latched_observe [OF sample_latched_ok(2) this] have "snd (observe_call sample_latched (lit ''root'') [65] [] (or_key None (lit ''root''))) = Some sample_verdict"
    by (simp add: or_key_def del: lit_Cons)
  from thrashing_trips [OF this rest r(2) r(6) t] m(1) show ?thesis by (simp del: lit_Cons) blast
qed

theorem repeats_halt_witness:
  "\<exists>e. snd (observe [0] [65] [] None (((happens (Observe [0] [65] [] None)) ^^ 2) (sample_breaker, None))) = Inl e"
proof -
  have ok: "breaker_ok sample_breaker" using new_breaker_ok [of sample_wiring] by (simp add: sample_breaker_def sample_wiring_def)
  have d: "u_detectors (k_setup sample_breaker) = default_detectors id sample_messages (k_policy sample_breaker)"
    by (simp add: sample_breaker_fields)
  have w: "3 = w_max_identical_repeats (k_policy sample_breaker)" "(1 :: int) < 3" "3 - 1 \<le> w_comparison_window (k_policy sample_breaker)"
    "3 - 1 \<le> int (w_history_limit (k_policy sample_breaker))" "0 < w_max_trajectories (k_policy sample_breaker)" "[65] \<notin> w_exempt_tools (k_policy sample_breaker)"
    by (simp_all add: sample_breaker_fields default_cognitive_policy_def)
  from repeats_halt [OF ok d w, of "[0]" "[]" None None] show ?thesis by (simp del: happens.simps funpow.simps add: numeral_2_eq_2)
qed

end
