(* ===== verification/Pricing.thy ===== *)
theory Pricing
  imports Admission
begin

text \<open>
  What a model call costs (\<open>interceptor.py\<close>): token counts, published rates, the price of a usage, the
  model that served, and how usage is read off a response. A response is modelled by what the code can
  see of it: whether it is a \<open>TokenUsage\<close>, a mapping, an object with attributes, a string, an integer.
  \<open>str.lower\<close> and \<open>\\d\<close> are modelled on ASCII text. Log lines are left out.
\<close>

section \<open>The rounding context\<close>

text \<open>\<open>_ROUNDING\<close>: fifty digits, half-even, rounding not trapped.\<close>

definition rounding_fix :: "decimal \<Rightarrow> decimal" where
  "rounding_fix d = (let n = num_digits (coeff d) in
     if n \<le> PREC then d
     else let c = round_div ROUND_HALF_EVEN (coeff d) (10 ^ (n - PREC)); e = expo d + int (n - PREC) in
       if PREC < num_digits c then Dec (c div 10) (e + 1) else Dec c e)"

definition ctx_mul :: "decimal \<Rightarrow> decimal \<Rightarrow> decimal" where
  "ctx_mul a b = rounding_fix (Dec (coeff a * coeff b) (expo a + expo b))"

definition rounded_sum :: "decimal \<Rightarrow> decimal \<Rightarrow> decimal" where
  "rounded_sum a b = rounding_fix (dec_sum a b)"

text \<open>Division by \<open>10 ^ k\<close>: exact, with as few trailing zeros as the dividend's exponent allows.\<close>

fun shed :: "nat \<Rightarrow> decimal \<Rightarrow> decimal" where
  "shed 0 d = d"
| "shed (Suc k) d = (if coeff d mod 10 = 0 then shed k (Dec (coeff d div 10) (expo d + 1)) else d)"

definition divide_pow10 :: "decimal \<Rightarrow> nat \<Rightarrow> decimal" where
  "divide_pow10 d k = shed k (Dec (coeff d) (expo d - int k))"

section \<open>Token counts\<close>

record token_usage =
  input_tokens :: int
  output_tokens :: int
  cache_read_input_tokens :: int
  cache_creation_input_tokens :: int

definition no_usage :: token_usage where
  "no_usage = \<lparr> input_tokens = 0, output_tokens = 0, cache_read_input_tokens = 0, cache_creation_input_tokens = 0 \<rparr>"

definition usage_counts :: "token_usage \<Rightarrow> int list" where
  "usage_counts u = [input_tokens u, output_tokens u, cache_read_input_tokens u, cache_creation_input_tokens u]"

definition mk_usage :: "int \<Rightarrow> int \<Rightarrow> int \<Rightarrow> int \<Rightarrow> token_usage res" where
  "mk_usage i ou r w = (if list_ex (\<lambda>x. x < 0) [i, ou, r, w] then Inl (ValueError ''must not be negative'')
     else Inr \<lparr> input_tokens = i, output_tokens = ou, cache_read_input_tokens = r, cache_creation_input_tokens = w \<rparr>)"

definition merged_usage :: "token_usage \<Rightarrow> token_usage \<Rightarrow> token_usage" where
  "merged_usage u v = \<lparr> input_tokens = max (input_tokens u) (input_tokens v), output_tokens = max (output_tokens u) (output_tokens v),
     cache_read_input_tokens = max (cache_read_input_tokens u) (cache_read_input_tokens v),
     cache_creation_input_tokens = max (cache_creation_input_tokens u) (cache_creation_input_tokens v) \<rparr>"

definition total_tokens :: "token_usage \<Rightarrow> int" where
  "total_tokens u = input_tokens u + output_tokens u + cache_read_input_tokens u + cache_creation_input_tokens u"

section \<open>Rates\<close>

record model_pricing =
  model_id :: ustr
  input_usd_per_mtok :: decimal
  output_usd_per_mtok :: decimal
  cache_read_usd_per_mtok :: decimal
  cache_write_usd_per_mtok :: decimal

definition raw_cost :: "model_pricing \<Rightarrow> token_usage \<Rightarrow> decimal" where
  "raw_cost p u = divide_pow10 (rounded_sum (rounded_sum (rounded_sum
       (ctx_mul (input_usd_per_mtok p) (Dec (input_tokens u) 0))
       (ctx_mul (output_usd_per_mtok p) (Dec (output_tokens u) 0)))
       (ctx_mul (cache_read_usd_per_mtok p) (Dec (cache_read_input_tokens u) 0)))
       (ctx_mul (cache_write_usd_per_mtok p) (Dec (cache_creation_input_tokens u) 0))) 6"

definition quantize_up :: "decimal \<Rightarrow> decimal res" where
  "quantize_up d = (let q = fst (quantize d QUANTUM_EXP ROUND_CEILING) in
     if PREC < num_digits (coeff q) then Inl DecimalInvalidOperation else Inr q)"

definition cost_of :: "model_pricing \<Rightarrow> token_usage \<Rightarrow> decimal res" where
  "cost_of p u = quantize_up (raw_cost p u)"

definition estimate :: "model_pricing \<Rightarrow> int \<Rightarrow> int \<Rightarrow> decimal res" where
  "estimate p input max_output = rbind (mk_usage input max_output 0 0) (cost_of p)"

text \<open>\<open>_rates\<close>, from the published rates as they are written.\<close>

definition rates :: "string \<Rightarrow> decimal \<Rightarrow> decimal \<Rightarrow> decimal option \<Rightarrow> model_pricing" where
  "rates i input_rate output_rate cache_read = \<lparr> model_id = lit i, input_usd_per_mtok = input_rate, output_usd_per_mtok = output_rate,
     cache_read_usd_per_mtok = (case cache_read of Some r \<Rightarrow> r | None \<Rightarrow> divide_pow10 input_rate 1),
     cache_write_usd_per_mtok = ctx_mul input_rate (Dec 125 (- 2)) \<rparr>"

definition PRICING :: "(ustr, model_pricing) dict" where
  "PRICING = map (\<lambda>p. (model_id p, p))
     [rates ''claude-fable-5-1'' (Dec 1000 (- 2)) (Dec 5000 (- 2)) (Some (Dec 25 (- 2))),
      rates ''claude-fable-5'' (Dec 1000 (- 2)) (Dec 5000 (- 2)) None,
      rates ''claude-opus-5'' (Dec 500 (- 2)) (Dec 2500 (- 2)) None,
      rates ''claude-opus-4-8'' (Dec 500 (- 2)) (Dec 2500 (- 2)) None,
      rates ''claude-opus-4-7'' (Dec 500 (- 2)) (Dec 2500 (- 2)) None,
      rates ''claude-opus-4-6'' (Dec 500 (- 2)) (Dec 2500 (- 2)) None,
      rates ''claude-sonnet-5'' (Dec 200 (- 2)) (Dec 1000 (- 2)) None,
      rates ''claude-sonnet-4-6'' (Dec 300 (- 2)) (Dec 1500 (- 2)) None,
      rates ''claude-haiku-4-5'' (Dec 100 (- 2)) (Dec 500 (- 2)) None]"

text \<open>\<open>-\\d{8}$\<close> taken off the end, of a text that has been stripped and so does not end in a newline.\<close>

definition normalize_model_id :: "ustr \<Rightarrow> ustr" where
  "normalize_model_id i = (let t = lower (strip i); n = length t - 9 in
     if 9 \<le> length t \<and> t ! n = 45 \<and> list_all is_digit (drop (n + 1) t) then take n t else t)"

definition pricing_for :: "ustr \<Rightarrow> model_pricing res" where
  "pricing_for i = (case map_of PRICING i of Some p \<Rightarrow> Inr p
     | None \<Rightarrow> (case map_of PRICING (normalize_model_id i) of Some p \<Rightarrow> Inr p | None \<Rightarrow> Inl KeyError))"

section \<open>Reading usage off a response\<close>

datatype response = R_Usage token_usage | R_Map "(string \<times> response) list" | R_Obj "(string \<times> response) list"
  | R_Seq "response list" | R_Int int | R_Bool bool | R_Str ustr | R_None | R_Other

definition USAGE_FIELDS :: "string list" where
  "USAGE_FIELDS = [''input_tokens'', ''output_tokens'', ''cache_read_input_tokens'', ''cache_creation_input_tokens'']"

definition attr :: "response \<Rightarrow> string \<Rightarrow> response option" where
  "attr r name = (case r of R_Obj attrs \<Rightarrow> map_of attrs name | _ \<Rightarrow> None)"

text \<open>A \<open>TokenUsage\<close> where a count source is read is unpacked first, so only mappings and objects matter here.\<close>

definition read_count :: "response \<Rightarrow> string \<Rightarrow> int option res" where
  "read_count src name =
     (let count = (\<lambda>raw. case raw of R_Int i \<Rightarrow> Inr (Some i) | _ \<Rightarrow> Inl (TypeError ''usage field must be an int'')) in
      case src of
        R_Map kvs \<Rightarrow> (case map_of kvs name of None \<Rightarrow> Inr None | Some raw \<Rightarrow> count raw)
      | _ \<Rightarrow> (case attr src name of None \<Rightarrow> Inr None | Some R_None \<Rightarrow> Inr None | Some raw \<Rightarrow> count raw))"

fun counts_of :: "response \<Rightarrow> string list \<Rightarrow> int option list res" where
  "counts_of src [] = Inr []"
| "counts_of src (f # fs) = rbind (read_count src f) (\<lambda>c. rbind (counts_of src fs) (\<lambda>cs. Inr (c # cs)))"

definition usage_part :: "response \<Rightarrow> response" where
  "usage_part r = (case r of
       R_Map kvs \<Rightarrow> (case map_of kvs ''usage'' of Some u \<Rightarrow> u | None \<Rightarrow> r)
     | _ \<Rightarrow> (case attr r ''usage'' of Some u \<Rightarrow> u | None \<Rightarrow> r))"

definition count_or_zero :: "int option \<Rightarrow> int" where
  "count_or_zero c = (case c of None \<Rightarrow> 0 | Some i \<Rightarrow> i)"

definition default_usage_extractor :: "response \<Rightarrow> token_usage res" where
  "default_usage_extractor r = (case r of R_Usage u \<Rightarrow> Inr u
     | _ \<Rightarrow> (case usage_part r of R_Usage u \<Rightarrow> Inr u
         | src \<Rightarrow> rbind (counts_of src USAGE_FIELDS) (\<lambda>cs.
             if list_all (\<lambda>c. c = None) cs then Inl (TypeError ''cannot extract token usage'')
             else case map count_or_zero cs of
                 [i, ou, rd, w] \<Rightarrow> mk_usage i ou rd w
               | _ \<Rightarrow> Inl (TypeError ''cannot extract token usage''))))"

section \<open>Rates in range\<close>

text \<open>Rates of at most twenty digits with at most twelve decimals, and fewer than \<open>10 ^ 12\<close> tokens of
  each kind: every sum then fits the context's fifty digits. The published rates are in range.\<close>

definition rate_ok :: "decimal \<Rightarrow> bool" where
  "rate_ok r \<longleftrightarrow> 0 \<le> coeff r \<and> coeff r < 10 ^ 20 \<and> - 12 \<le> expo r \<and> expo r \<le> 0"

definition pricing_ok :: "model_pricing \<Rightarrow> bool" where
  "pricing_ok p \<longleftrightarrow> list_all rate_ok [input_usd_per_mtok p, output_usd_per_mtok p, cache_read_usd_per_mtok p, cache_write_usd_per_mtok p]"

definition usage_ok :: "token_usage \<Rightarrow> bool" where
  "usage_ok u \<longleftrightarrow> list_all (\<lambda>x. 0 \<le> x \<and> x < 10 ^ 12) (usage_counts u)"

text \<open>The price of a usage, as a number.\<close>

definition price :: "model_pricing \<Rightarrow> token_usage \<Rightarrow> rat" where
  "price p u = (dval (input_usd_per_mtok p) * of_int (input_tokens u) + dval (output_usd_per_mtok p) * of_int (output_tokens u)
     + dval (cache_read_usd_per_mtok p) * of_int (cache_read_input_tokens u)
     + dval (cache_write_usd_per_mtok p) * of_int (cache_creation_input_tokens u)) / 10 ^ 6"

lemma coeff_bound:
  assumes "- 12 \<le> expo d" "\<bar>dval d\<bar> < 10 ^ 38"
  shows "\<bar>coeff d\<bar> < 10 ^ 50"
proof -
  have c: "of_int (aligned d (- 12)) * 10 powi (- 12) = dval d" using assms(1) by (rule dval_aligned)
  then have "of_int (aligned d (- 12)) = dval d * 10 ^ 12" by (simp add: power_int_minus field_simps)
  then have "(of_int \<bar>aligned d (- 12)\<bar> :: rat) = \<bar>dval d\<bar> * 10 ^ 12" by (simp add: abs_mult)
  also have "\<dots> < 10 ^ 38 * 10 ^ 12" using assms(2) by (intro mult_strict_right_mono) simp_all
  finally have a: "(of_int \<bar>aligned d (- 12)\<bar> :: rat) < of_int (10 ^ 50)" by (simp flip: power_add)
  have "\<bar>coeff d\<bar> * 1 \<le> \<bar>coeff d\<bar> * 10 ^ nat (expo d - - 12)" by (intro mult_left_mono) simp_all
  also have "\<dots> = \<bar>aligned d (- 12)\<bar>" by (simp add: aligned_def abs_mult)
  also have "\<dots> < 10 ^ 50" using a by (simp only: of_int_less_iff)
  finally show ?thesis by simp
qed

lemma rounding_fits: "- 12 \<le> expo d \<Longrightarrow> \<bar>dval d\<bar> < 10 ^ 38 \<Longrightarrow> rounding_fix d = d"
  using coeff_bound [of d] num_digits_le [of "coeff d" 50] by (simp add: rounding_fix_def PREC_def)

lemma dval_shed [simp]: "dval (shed k d) = dval d"
proof (induction k d rule: shed.induct)
  case (2 k d)
  show ?case
  proof (cases "coeff d mod 10 = 0")
    case True
    then obtain c where c: "coeff d = 10 * c" by fastforce
    have "dval (Dec (coeff d div 10) (expo d + 1)) = dval d" by (simp add: c dval_def power_int_add)
    then show ?thesis using True 2 by simp
  qed simp
qed simp

lemma dval_divide_pow10: "dval (divide_pow10 d k) = dval d / 10 ^ k"
  by (simp add: divide_pow10_def) (simp add: dval_def power_int_diff)

lemma product_fits:
  assumes "rate_ok r" "0 \<le> t" "t < 10 ^ 12"
  shows "dval (ctx_mul r (Dec t 0)) = dval r * of_int t" "- 12 \<le> expo (ctx_mul r (Dec t 0))" "0 \<le> dval r * of_int t" "dval r * of_int t < 10 ^ 32"
proof -
  let ?d = "Dec (coeff r * t) (expo r)"
  have v: "dval ?d = dval r * of_int t" by (simp add: dval_def)
  have "(10 :: rat) powi expo r \<le> 10 powi 0" using assms(1) by (intro power_int_increasing) (simp_all add: rate_ok_def)
  then have r: "0 \<le> dval r" "dval r \<le> of_int (coeff r)"
    using assms(1) by (simp_all add: dval_def rate_ok_def mult_left_le)
  have "(of_int (coeff r) :: rat) < of_int (10 ^ 20)" using assms(1) unfolding of_int_less_iff by (simp add: rate_ok_def)
  then have "dval r < 10 ^ 20" using r(2) by simp
  moreover have "(of_int t :: rat) < of_int (10 ^ 12)" using assms(3) by (simp only: of_int_less_iff)
  ultimately have "dval r * of_int t < 10 ^ 20 * 10 ^ 12" using r(1) assms(2) by (intro mult_strict_mono') simp_all
  then show b: "dval r * of_int t < 10 ^ 32" by (simp flip: power_add)
  show p: "0 \<le> dval r * of_int t" using r(1) assms(2) by simp
  have "rounding_fix ?d = ?d" using rounding_fits [of ?d] assms(1) v b p by (simp add: rate_ok_def)
  then show "dval (ctx_mul r (Dec t 0)) = dval r * of_int t" "- 12 \<le> expo (ctx_mul r (Dec t 0))"
    using v assms(1) by (simp_all add: ctx_mul_def rate_ok_def)
qed

lemma sum_fits:
  assumes "- 12 \<le> expo a" "- 12 \<le> expo b" "0 \<le> dval a" "0 \<le> dval b" "dval a + dval b < 10 ^ 38"
  shows "dval (rounded_sum a b) = dval a + dval b" "- 12 \<le> expo (rounded_sum a b)"
proof -
  have "rounding_fix (dec_sum a b) = dec_sum a b" using assms by (intro rounding_fits) (simp_all add: expo_dec_sum dval_dec_sum)
  then show "dval (rounded_sum a b) = dval a + dval b" "- 12 \<le> expo (rounded_sum a b)"
    using assms(1,2) by (simp_all add: rounded_sum_def dval_dec_sum expo_dec_sum)
qed

lemma raw_cost_exact:
  assumes "pricing_ok p" "usage_ok u"
  shows "dval (raw_cost p u) = price p u" "0 \<le> price p u" "price p u < 10 ^ 28"
proof -
  let ?i = "ctx_mul (input_usd_per_mtok p) (Dec (input_tokens u) 0)" and ?o = "ctx_mul (output_usd_per_mtok p) (Dec (output_tokens u) 0)"
    and ?r = "ctx_mul (cache_read_usd_per_mtok p) (Dec (cache_read_input_tokens u) 0)"
    and ?w = "ctx_mul (cache_write_usd_per_mtok p) (Dec (cache_creation_input_tokens u) 0)"
  have ok: "rate_ok (input_usd_per_mtok p)" "rate_ok (output_usd_per_mtok p)" "rate_ok (cache_read_usd_per_mtok p)" "rate_ok (cache_write_usd_per_mtok p)"
    using assms(1) by (simp_all add: pricing_ok_def)
  have t: "0 \<le> input_tokens u" "input_tokens u < 10 ^ 12" "0 \<le> output_tokens u" "output_tokens u < 10 ^ 12"
    "0 \<le> cache_read_input_tokens u" "cache_read_input_tokens u < 10 ^ 12" "0 \<le> cache_creation_input_tokens u" "cache_creation_input_tokens u < 10 ^ 12"
    using assms(2) by (simp_all add: usage_ok_def usage_counts_def)
  note i = product_fits [OF ok(1) t(1,2)] and o = product_fits [OF ok(2) t(3,4)]
    and r = product_fits [OF ok(3) t(5,6)] and w = product_fits [OF ok(4) t(7,8)]
  have s1: "dval (rounded_sum ?i ?o) = dval ?i + dval ?o" "- 12 \<le> expo (rounded_sum ?i ?o)"
    using i o by (intro sum_fits; simp)+
  have s2: "dval (rounded_sum (rounded_sum ?i ?o) ?r) = dval ?i + dval ?o + dval ?r" "- 12 \<le> expo (rounded_sum (rounded_sum ?i ?o) ?r)"
    using sum_fits [of "rounded_sum ?i ?o" ?r] i o r s1 by simp_all
  have s3: "dval (rounded_sum (rounded_sum (rounded_sum ?i ?o) ?r) ?w) = dval ?i + dval ?o + dval ?r + dval ?w"
    using sum_fits [of "rounded_sum (rounded_sum ?i ?o) ?r" ?w] i o r w s2 by simp
  show "dval (raw_cost p u) = price p u" using s3 i(1) o(1) r(1) w(1) by (simp add: raw_cost_def dval_divide_pow10 price_def)
  show "0 \<le> price p u" using i(3) o(3) r(3) w(3) by (simp add: price_def)
  show "price p u < 10 ^ 28" using i(4) o(4) r(4) w(4) by (simp add: price_def)
qed

lemma quantize_up_fits:
  assumes "0 \<le> dval d" "dval d < 10 ^ 40"
  shows "\<exists>c. quantize_up d = Inr c \<and> expo c = - 8 \<and> dval d \<le> dval c \<and> dval c < dval d + 10 powi (- 8)"
proof -
  let ?c = "fst (quantize d QUANTUM_EXP ROUND_CEILING)"
  have e: "expo ?c = - 8" by (simp add: QUANTUM_EXP_def)
  have b: "dval d \<le> dval ?c" "dval ?c < dval d + 10 powi (- 8)" using quantize_ceiling [of d QUANTUM_EXP] by (simp_all add: QUANTUM_EXP_def)
  have "(10 :: rat) powi (- 8) \<le> 1" by (simp add: power_int_minus)
  then have "\<bar>dval ?c\<bar> < 10 ^ 41" using b assms by simp
  then have "\<bar>dval ?c\<bar> < 10 ^ 38 * 10 ^ 3" by simp
  then have "\<bar>coeff ?c\<bar> < 10 ^ 50"
  proof -
    have "dval ?c = of_int (coeff ?c) * 10 powi (- 8)" unfolding dval_def e ..
    then have "of_int \<bar>coeff ?c\<bar> = \<bar>dval ?c\<bar> * 10 ^ 8" by (simp add: abs_mult power_int_minus)
    also have "\<dots> < 10 ^ 41 * 10 ^ 8" using \<open>\<bar>dval ?c\<bar> < 10 ^ 41\<close> by (intro mult_strict_right_mono) simp_all
    finally have "(of_int \<bar>coeff ?c\<bar> :: rat) < of_int (10 ^ 50)" by simp
    then show ?thesis by (simp only: of_int_less_iff)
  qed
  then have "num_digits (coeff ?c) \<le> PREC" by (simp add: PREC_def num_digits_le)
  then show ?thesis using e b by (simp add: quantize_up_def Let_def)
qed

text \<open>A call is never priced below its token counts, and above them by less than a quantum: so a call that used
  anything billed is never free.\<close>

theorem tokens_priced_up:
  assumes "pricing_ok p" "usage_ok u"
  shows "\<exists>c. cost_of p u = Inr c \<and> expo c = - 8 \<and> price p u \<le> dval c \<and> dval c < price p u + 10 powi (- 8) \<and> (0 < price p u \<longrightarrow> 0 < dval c)"
proof -
  note r = raw_cost_exact [OF assms]
  have "price p u < 10 ^ 40" using r(3) by simp
  then obtain c where "cost_of p u = Inr c" "expo c = - 8" "price p u \<le> dval c" "dval c < price p u + 10 powi (- 8)"
    using quantize_up_fits [of "raw_cost p u"] r(1,2) by (auto simp: cost_of_def)
  then show ?thesis by auto
qed

text \<open>What costs less is charged no more.\<close>

lemma ceiling_least:
  assumes "expo c = - 8" "expo c' = - 8" "dval c < x + 10 powi (- 8)" "x \<le> dval c'"
  shows "dval c \<le> dval c'"
proof -
  have v: "dval c = of_int (coeff c) * 10 powi (- 8)" "dval c' = of_int (coeff c') * 10 powi (- 8)"
    unfolding dval_def assms(1,2) by (rule refl)+
  have "of_int (coeff c) * 10 powi (- 8) < (of_int (coeff c') + 1) * (10 :: rat) powi (- 8)" using assms(3,4) v by (simp add: distrib_right)
  then have "(of_int (coeff c) :: rat) < of_int (coeff c' + 1)" by simp
  then have "coeff c \<le> coeff c'" unfolding of_int_less_iff by simp
  then show ?thesis unfolding v by simp
qed

lemma cost_of_facts:
  assumes "pricing_ok p" "usage_ok u"
  obtains c where "cost_of p u = Inr c" "expo c = - 8" "price p u \<le> dval c" "dval c < price p u + 10 powi (- 8)" "0 \<le> dval c" "dval c < 10 ^ 29"
proof -
  note r = raw_cost_exact [OF assms]
  have "price p u < 10 ^ 40" using r(3) by simp
  then obtain c where c: "cost_of p u = Inr c" "expo c = - 8" "price p u \<le> dval c" "dval c < price p u + 10 powi (- 8)"
    using quantize_up_fits [of "raw_cost p u"] r(1,2) by (auto simp: cost_of_def)
  have "(10 :: rat) powi (- 8) \<le> 1" by (simp add: power_int_minus)
  then show thesis using that c r(2,3) by force
qed

lemma cost_of_mono:
  assumes "pricing_ok p" "usage_ok u" "usage_ok v" "list_all2 (\<le>) (usage_counts u) (usage_counts v)" "cost_of p u = Inr c" "cost_of p v = Inr c'"
  shows "dval c \<le> dval c'"
proof -
  have d: "0 \<le> dval r" if "rate_ok r" for r using that by (simp add: rate_ok_def dval_def)
  have "price p u \<le> price p v" unfolding price_def
    using assms(1,4) d by (intro divide_right_mono add_mono mult_left_mono) (simp_all add: pricing_ok_def usage_counts_def)
  moreover obtain x where "cost_of p u = Inr x" "expo x = - 8" "dval x < price p u + 10 powi (- 8)" using assms(1,2) by (rule cost_of_facts)
  moreover obtain y where "cost_of p v = Inr y" "expo y = - 8" "price p v \<le> dval y" using assms(1,3) by (rule cost_of_facts)
  ultimately show ?thesis using assms(5,6) ceiling_least [of c c' "price p u"] by simp
qed

lemma published_ok: "pricing_for i = Inr p \<Longrightarrow> pricing_ok p"
proof -
  have "list_all (\<lambda>kv. pricing_ok (snd kv)) PRICING"
    by (simp add: PRICING_def rates_def pricing_ok_def rate_ok_def divide_pow10_def ctx_mul_def rounding_fix_def num_digits_def PREC_def
        digits.simps del: lit_Cons)
  then have "map_of PRICING k = Some q \<Longrightarrow> pricing_ok q" for k q using map_of_SomeD [of PRICING k q] by (force simp: list_all_iff)
  then show "pricing_for i = Inr p \<Longrightarrow> pricing_ok p" by (auto simp: pricing_for_def split: option.splits)
qed

lemma merged_usage_ok: "usage_ok u \<Longrightarrow> usage_ok v \<Longrightarrow> usage_ok (merged_usage u v)"
  by (auto simp: usage_ok_def usage_counts_def merged_usage_def)

lemma mk_usage_Inr: "mk_usage i ou r w = Inr u \<longleftrightarrow> 0 \<le> i \<and> 0 \<le> ou \<and> 0 \<le> r \<and> 0 \<le> w
  \<and> u = \<lparr> input_tokens = i, output_tokens = ou, cache_read_input_tokens = r, cache_creation_input_tokens = w \<rparr>"
  by (auto simp: mk_usage_def)

theorem tokens_priced_up_witness:
  "\<exists>p c. pricing_for (lit ''claude-haiku-4-5'') = Inr p \<and> cost_of p \<lparr> input_tokens = 1, output_tokens = 0, cache_read_input_tokens = 0,
     cache_creation_input_tokens = 0 \<rparr> = Inr c \<and> 0 < dval c"
proof -
  let ?u = "\<lparr> input_tokens = 1, output_tokens = 0, cache_read_input_tokens = 0, cache_creation_input_tokens = 0 \<rparr>"
  let ?p = "rates ''claude-haiku-4-5'' (Dec 100 (- 2)) (Dec 500 (- 2)) None"
  have p: "pricing_for (lit ''claude-haiku-4-5'') = Inr ?p" by (simp add: pricing_for_def PRICING_def rates_def)
  have u: "usage_ok ?u" by (simp add: usage_ok_def usage_counts_def)
  have "0 < price ?p ?u" by (simp add: price_def rates_def dval_def)
  then show ?thesis using tokens_priced_up [OF published_ok [OF p] u] p by blast
qed

end
