(* ===== verification/Settlement.thy ===== *)
theory Settlement
  imports Promises
begin

text \<open>
  A capture always settles: on a governor at rest it books the cost and closes the hold, whether the scope
  can cover the cost or not. If it cannot, the breaker is tripped in the same unit of work and the
  caller is told afterwards.
\<close>

section \<open>Counters\<close>

definition room :: "'a chain_state_scheme \<Rightarrow> scope_id \<Rightarrow> rat \<Rightarrow> bool" where
  "room r k a \<longleftrightarrow> list_all (\<lambda>x. \<bar>dval x\<bar> + a < 10 ^ 42) [chain_balance r k, chain_spent_by r k, t_holds_open (s_totals r), t_spent (s_totals r)]"

lemma roomy_room: "roomy m k a = room (m_state m) k a"
  by (simp add: roomy_def room_def ledger_balance_def chain_balance_def)

lemma room_less: "room r k a \<Longrightarrow> b \<le> a \<Longrightarrow> room r k b"
  by (auto simp: room_def)

lemma room_start [simp]: "room (ref_start s F) k a = room s k a"
  by (simp add: room_def start_fields)

lemma chain_fields:
  "s_nodes (ref_chain q) = s_nodes q" "s_legacy (ref_chain q) = s_legacy q" "s_unit (ref_chain q) = s_unit q" "s_tripped (ref_chain q) = s_tripped q"
  "room (ref_chain q) k a = room q k a" "chain_balance (ref_chain q) k = chain_balance q k"
  by (simp_all add: ref_chain_def chain_state.truncate_def room_def chain_balance_def chain_spent_by_def)

lemma apply_kept:
  assumes "ref_apply r e h rs w = Inr (r', rs')" "s_legacy r = []" "entry_type e \<in> {HOLD_VOID, SPEND, CIRCUIT_TRIPPED}"
  shows "s_nodes r' = s_nodes r" "s_unit r' = s_unit r" "s_legacy r' = []"
    "0 \<le> dval (amount e) \<Longrightarrow> room r k (a + dval (amount e)) \<Longrightarrow> room r' k a"
proof -
  note pos = apply_position [OF assms(1)]
  show "s_unit r' = s_unit r" "s_legacy r' = []" using pos(9) assms(2) by (simp_all add: config_part_def)
  from assms(1) obtain t u where t: "tree_part t = tree_part r" "config_part t = config_part r"
    "ref_check_governance t e = Inr u" "tree_part r' = tree_part u" by (rule apply_tree_part)
  have nodes: "s_nodes t = s_nodes r" "s_nodes r' = s_nodes u" "s_legacy t = []" using t assms(2) by (auto simp: tree_part_def config_part_def)
  have fold: "ref_fold_legacy t e = Inr z \<Longrightarrow> s_nodes z = s_nodes t" for z
    using nodes(3) by (auto simp: ref_fold_legacy_def ref_apply_legacy_def split: if_splits)
  have control: "ref_control z a b c d = Inr v \<Longrightarrow> s_nodes v = s_nodes z" for z a b c d v
    by (auto simp: ref_control_def split: if_splits option.splits)
  show "s_nodes r' = s_nodes r"
    using t(3) nodes assms(3) unfolding ref_check_governance_def by (auto simp: Let_def dest!: fold control split: if_splits)
  from assms(1) obtain x y where x: "flow_part x = flow_part r" "ref_check_flows x e w = Inr y" "flow_part r' = flow_part y"
    by (rule apply_flow_part)
  assume a: "0 \<le> dval (amount e)" "room r k (a + dval (amount e))"
  have near: "\<bar>dval c'\<bar> \<le> \<bar>dval c\<bar> + dval (amount e) \<Longrightarrow> \<bar>dval c\<bar> + (a + dval (amount e)) < 10 ^ 42 \<Longrightarrow> \<bar>dval c'\<bar> + a < 10 ^ 42" for c c' by linarith
  have "dval (signed_amount e) \<in> {dval (amount e), - dval (amount e), 0}" by (simp add: signed_amount_def split: direction.split)
  then have 1: "\<bar>dval (chain_balance r' k)\<bar> \<le> \<bar>dval (chain_balance r k)\<bar> + dval (amount e)"
    using apply_balance [OF assms(1), of k] a(1) by auto
  have 2: "\<bar>dval (chain_spent_by r' k)\<bar> \<le> \<bar>dval (chain_spent_by r k)\<bar> + dval (amount e)"
    using x assms(3) a(1)
    by (auto simp: ref_check_flows_def flow_part_def chain_spent_by_def dict_get_def Let_def map_of_update dest!: dval_ctx_add split: if_splits option.splits)
  have 3: "\<bar>dval (t_holds_open (s_totals r'))\<bar> \<le> \<bar>dval (t_holds_open (s_totals r))\<bar> + dval (amount e)"
    "\<bar>dval (t_spent (s_totals r'))\<bar> \<le> \<bar>dval (t_spent (s_totals r))\<bar> + dval (amount e)"
    using pos(1) assms(3) a(1) by (auto simp: apply_totals_def Let_def dest!: dval_ctx_add dval_ctx_subtract sym [where t = "s_totals r'"])
  show "room r' k a" using a(2) near [OF 1] near [OF 2] near [OF 3(1)] near [OF 3(2)] by (simp add: room_def)
qed

section \<open>Two lines\<close>

lemma takes_capture:
  assumes ok: "gov_ok n m" and hold: "map_of (s_holds (m_state m)) (entry_id h) = Some h" and k: "named_scope m (scope_id h)"
    and v: "check_line (void_line (authorization_for h) t1) = Inr (amount h)" "counted (amount h) (m_unit m) = Inr True" "0 \<le> dval (amount h)"
    and s: "check_line (spend_line (authorization_for h) x t2) = Inr x" "counted x (m_unit m) = Inr True" "0 \<le> dval x"
    and r: "roomy m (scope_id h) (dval (amount h) + dval x)"
  shows "takes t now (ref_start (m_state m) F) [void_line (authorization_for h) t1, spend_line (authorization_for h) x t2]"
proof -
  let ?r = "ref_start (m_state m) F" and ?v = "void_line (authorization_for h) t1" and ?s = "spend_line (authorization_for h) x t2"
  have u: "s_unit (m_state m) = m_unit m" using ok by (simp add: gov_ok_def)
  have wf: "ledger_wf (m_ledger m)" using ok by (simp add: gov_ok_def)
  have k': "scope_id h \<noteq> []" "map_of (s_nodes (m_state m)) (scope_id h) \<noteq> None" using k by (simp_all add: named_scope_def)
  have v_fits: "line_fits ?r ?v (amount h)"
    unfolding line_fits_def start_fields using v hold k' u r s(3)
    by (auto simp: authorization_for_def roomy_room room_def)
  moreover have "takes t now r' [?s]" if b: "built_entry ?r t now ?v e" and a: "ref_apply ?r e False None True = Inr (r', None)" for e r'
  proof -
    have e: "entry_type e = HOLD_VOID" "ref e = Some (entry_id h)" "version e = AUDIT_V3" "amount e = amount h"
      using b v(1) by (simp_all add: built_entry_def line_entry_def authorization_for_def del: lit_Cons)
    have leg: "s_legacy ?r = []" using ledger_facts(2) [OF wf] by (simp add: ref_start_def chain_state.extend_def)
    have ty: "entry_type e \<in> {HOLD_VOID, SPEND, CIRCUIT_TRIPPED}" using e(1) by simp
    note kept = apply_kept [OF a leg ty]
    have "room ?r (scope_id h) (dval x + dval (amount e))" using r e(4) by (simp add: roomy_room add.commute)
    then have "room r' (scope_id h) (dval x)" using kept(4) v(3) e(4) by simp
    moreover have "entry_id h \<in> r_settleable r'" using apply_txn(2) [OF a e(3,1,2)] .
    ultimately have "line_fits r' ?s x"
      unfolding line_fits_def using s k' u kept(1,2) by (auto simp: authorization_for_def room_def start_fields del: notI)
    then show ?thesis by auto
  qed
  ultimately show ?thesis by auto
qed

section \<open>Balances as written\<close>

lemma digits_bound: "n < 10 ^ length (digits n)"
proof (induction n rule: digits.induct)
  case (1 n)
  show ?case
  proof (cases "n < 10")
    case False
    with 1 have "n div 10 + 1 \<le> 10 ^ length (digits (n div 10))" by simp
    then have "(n div 10 + 1) * 10 \<le> 10 ^ length (digits (n div 10)) * 10" by (rule mult_right_mono) simp
    then show ?thesis using False by (subst digits.simps) simp
  qed (simp add: digits.simps)
qed

lemma num_digits_bound: "\<bar>c\<bar> < 10 ^ num_digits c"
proof -
  have "int (nat \<bar>c\<bar>) < int (10 ^ length (digits (nat \<bar>c\<bar>)))" using digits_bound [of "nat \<bar>c\<bar>"] by (simp only: of_nat_less_iff)
  then show ?thesis by (simp add: num_digits_def)
qed

lemma fix_digits: "arithmetic_fix d = Inr r \<Longrightarrow> num_digits (coeff r) \<le> PREC"
proof (cases "num_digits (coeff d) \<le> PREC")
  case False
  assume a: "arithmetic_fix d = Inr r"
  define k where "k = num_digits (coeff d) - PREC"
  have r: "coeff r = coeff d div 10 ^ k" "10 ^ k dvd coeff d" using a False by (auto simp: arithmetic_fix_def Let_def k_def split: if_splits)
  then have "\<bar>coeff d\<bar> = \<bar>coeff r\<bar> * 10 ^ k" by (auto simp: abs_mult)
  moreover have "(10 :: int) ^ num_digits (coeff d) = 10 ^ PREC * 10 ^ k" using False by (simp add: k_def flip: power_add)
  ultimately have "\<bar>coeff r\<bar> < 10 ^ PREC" using num_digits_bound [of "coeff d"] by simp
  then show ?thesis by (intro num_digits_le) (simp_all add: PREC_def)
qed (auto simp: arithmetic_fix_def Let_def)

lemma built_digits:
  assumes "rfold (build_line v t now) b ls = Inr b'" "\<forall>e \<in> set (u_built b). num_digits (coeff (balance_after e)) \<le> PREC"
  shows "\<forall>e \<in> set (u_built b'). num_digits (coeff (balance_after e)) \<le> PREC"
  using assms
proof (induction ls arbitrary: b)
  case (Cons l ls)
  from Cons.prems(1) obtain b1 where b1: "build_line v t now b l = Inr b1" "rfold (build_line v t now) b1 ls = Inr b'" by auto
  from b1(1) obtain e x where e: "u_built b1 = u_built b @ [e]" "arithmetic_fix x = Inr (balance_after e)"
    unfolding build_line_def Let_def ctx_add_def uuid4_def prod.case rbind_eq_Inr by fastforce
  have "\<forall>e \<in> set (u_built b1). num_digits (coeff (balance_after e)) \<le> PREC"
    using e(1) fix_digits [OF e(2)] Cons.prems(2) by auto
  with Cons.IH b1(2) show ?case by blast
qed simp

lemma post_digits: "post w p ls None = Inr (w', p', es) \<Longrightarrow> e \<in> set es \<Longrightarrow> num_digits (coeff (balance_after e)) \<le> PREC"
  by (erule post_cases) (auto dest: built_digits)

section \<open>What the breaker is told\<close>

lemma expo_bounds:
  assumes "on_grid (dval d)" "coeff d \<noteq> 0" "num_digits (coeff d) \<le> PREC" "\<bar>dval d\<bar> < 10 ^ 42"
  shows "- 60 \<le> expo d" "expo d \<le> 42"
proof -
  have v: "\<bar>dval d\<bar> = of_int \<bar>coeff d\<bar> * 10 powi expo d" by (simp add: dval_def abs_mult)
  have "(1 :: rat) \<le> of_int \<bar>coeff d\<bar>" using assms(2) of_int_le_iff [of 1 "\<bar>coeff d\<bar>", where 'a = rat] by simp
  then have "1 * (10 :: rat) powi expo d \<le> \<bar>dval d\<bar>" unfolding v by (intro mult_right_mono) simp_all
  then have "(10 :: rat) powi expo d < 10 powi 42" using assms(4) by simp
  then show "expo d \<le> 42" using power_int_increasing [of 42 "expo d" "10 :: rat"] by force
  from assms(1) obtain c where c: "dval d = of_int c * 10 powi - 8" by (auto simp: on_grid_def quanta_def QUANTUM_EXP_def)
  have "c \<noteq> 0" using c assms(2) by (auto simp: dval_def)
  then have "(1 :: rat) \<le> of_int \<bar>c\<bar>" using of_int_le_iff [of 1 "\<bar>c\<bar>", where 'a = rat] by simp
  then have "1 * (10 :: rat) powi - 8 \<le> \<bar>dval d\<bar>" unfolding c abs_mult by (simp add: power_int_minus)
  also have "(10 :: int) ^ num_digits (coeff d) \<le> 10 ^ 50" using assms(3) by (intro power_increasing) (simp_all add: PREC_def)
  then have "\<bar>coeff d\<bar> < 10 ^ 50" using num_digits_bound [of "coeff d"] by linarith
  then have "(of_int \<bar>coeff d\<bar> :: rat) < of_int (10 ^ 50)" by (simp only: of_int_less_iff)
  then have "\<bar>dval d\<bar> < 10 powi 50 * 10 powi expo d" unfolding v by (intro mult_strict_right_mono) simp_all
  also have "(10 :: rat) powi 50 * 10 powi expo d = 10 powi (50 + expo d)" by (simp add: power_int_add)
  finally have "(10 :: rat) powi - 8 < 10 powi (50 + expo d)" by simp
  then show "- 60 \<le> expo d" using power_int_increasing [of "50 + expo d" "- 8" "10 :: rat"] by force
qed

definition shown :: "ustr \<Rightarrow> bool" where
  "shown t \<longleftrightarrow> list_all (\<lambda>c. 0 < c \<and> c < 128) t"

lemma shown_simps [simp]:
  "shown []" "shown (c # t) \<longleftrightarrow> 0 < c \<and> c < 128 \<and> shown t" "shown (s @ t) \<longleftrightarrow> shown s \<and> shown t" "shown (digits n)"
  "shown (replicate n 48)"
  by (auto simp: shown_def list_all_iff dest: digits_chars)

lemma shown_part: "shown t \<Longrightarrow> shown (take n t)" "shown t \<Longrightarrow> shown (drop n t)"
  by (auto simp: shown_def list_all_iff dest: in_set_takeD in_set_dropD)

lemma dec_str_shown:
  assumes "on_grid (dval d)" "coeff d \<noteq> 0" "num_digits (coeff d) \<le> PREC" "\<bar>dval d\<bar> < 10 ^ 42"
  shows "shown (dec_str d)" "length (dec_str d) \<le> 500"
proof -
  show "shown (dec_str d)" by (simp add: dec_str_def Let_def shown_part)
  note e = expo_bounds [OF assms]
  define ds where "ds = digits (nat \<bar>coeff d\<bar>)"
  define left where "left = expo d + int (length ds)"
  define dot where "dot = (if expo d \<le> 0 \<and> - 6 < left then left else 1)"
  have n: "length ds \<le> 50" using assms(2,3) by (simp add: ds_def num_digits_def PREC_def)
  then have l: "- 60 \<le> left" "left \<le> 92" using e by (simp_all add: left_def)
  then have d: "- 6 < dot" "dot \<le> 92" by (simp_all add: dot_def)
  have "length (digits (nat \<bar>left - dot\<bar>)) \<le> 3" using l d by (intro length_digits) simp_all
  then have 1: "length (if left = dot then [] else lit ''E'' @ (if left < dot then [45] else [43]) @ digits (nat \<bar>left - dot\<bar>)) \<le> 5"
    by (cases "left < dot") simp_all
  have 2: "length (if dot \<le> 0 then [48] else if int (length ds) \<le> dot then ds @ replicate (nat (dot - int (length ds))) 48 else take (nat dot) ds) \<le> 200"
    using n d by (auto split: if_split simp: nat_le_iff)
  have 3: "length (if dot \<le> 0 then [46] @ replicate (nat (- dot)) 48 @ ds else if int (length ds) \<le> dot then [] else [46] @ drop (nat dot) ds) \<le> 100"
    using n d by (auto split: if_split simp: nat_le_iff)
  have 4: "length (if coeff d < 0 then [45 :: nat] else []) \<le> 1" by simp
  show "length (dec_str d) \<le> 500"
    unfolding dec_str_def Let_def ds_def [symmetric] left_def [symmetric] dot_def [symmetric] length_append using 1 2 3 4 by linarith
qed

lemma shown_text: "shown t \<Longrightarrow> length t \<le> MAX_MEMO_BYTES \<Longrightarrow> check_text t MAX_MEMO_BYTES False = None"
  by (auto simp: check_text_def shown_def list_all_iff)

section \<open>The unit of work of a capture\<close>

lemma spend_checks:
  assumes "unit_amount u x" "named_scope m k" "check_text (or_else why (lit ''settled call cost'')) MAX_MEMO_BYTES False = None" "a_scope_id a = k"
  shows "check_line (spend_line a x why) = Inr x"
  using amount_line [of u "spend_line a x why"] assms
  by (simp add: zero_value_type_def named_scope_def v3_referencing_type_def referencing_type_def del: lit_Cons)

lemma void_checks:
  assumes "unit_amount u (amount h)" "named_scope m (scope_id h)" "check_text t MAX_MEMO_BYTES False = None"
  shows "check_line (void_line (authorization_for h) t) = Inr (amount h)"
  using amount_line [of u "void_line (authorization_for h) t"] assms
  by (simp add: zero_value_type_def named_scope_def v3_referencing_type_def referencing_type_def del: lit_Cons)

lemma staged_state:
  assumes "staged n m p es"
  shows "ledger_wf ((m_ledger m)\<lparr> g_entries := g_entries (m_ledger m) @ es, g_state := ref_chain (view_abs (p_view p)) \<rparr>)"
    "s_unit (ref_chain (view_abs (p_view p))) = m_unit m"
proof -
  have wk: "working n (m_world m) (m_ledger m) p" "b_entries (p_batch p) = es" using assms by (simp_all add: staged_def)
  show "ledger_wf ((m_ledger m)\<lparr> g_entries := g_entries (m_ledger m) @ es, g_state := ref_chain (view_abs (p_view p)) \<rparr>)"
    using working_ledger [OF wk(1)] wk(2) by simp
  have "view_rel (m_state m) (p_view p) (view_abs (p_view p))" using wk(1) by (simp add: working_def Let_def)
  then show "s_unit (ref_chain (view_abs (p_view p))) = m_unit m" by (simp add: view_unit)
qed

lemma booked:
  assumes rest: "at_rest n 3 m" and hold: "map_of (s_holds (m_state m)) (entry_id h) = Some h" and k: "named_scope m (scope_id h)"
    and am: "unit_amount (m_unit m) (amount h)" "unit_amount (m_unit m) x"
    and r: "roomy m (scope_id h) (dval (amount h) + dval x)"
    and t: "check_text (or_else why (lit ''settled call cost'')) MAX_MEMO_BYTES False = None"
  obtains m1 p e v where "posting (begin_work (m_ledger m)) [void_line (authorization_for h) (lit ''authorization captured''), spend_line (authorization_for h) x why] m
      = (m1, Inr (p, [v, e]))" "staged n m1 p [v, e]" "v3_work (m_ledger m1) p" "m_ledger m1 = m_ledger m"
    "w_drawn (m_world m1) = w_drawn (m_world m) + 3" "map_of (s_nodes (view_abs (p_view p))) (scope_id h) \<noteq> None"
    "room (view_abs (p_view p)) (scope_id h) 0"
    "dval (balance_after e) = dval (m_balance m (scope_id h)) + dval (amount h) - dval x" "num_digits (coeff (balance_after e)) \<le> PREC"
proof -
  let ?ls = "[void_line (authorization_for h) (lit ''authorization captured''), spend_line (authorization_for h) x why]"
  have u: "unit_wf (m_unit m)" and ok: "gov_ok n m" and v3: "\<forall>e \<in> set (g_entries (m_ledger m)). version e = AUDIT_V3"
    and n: "w_drawn (m_world m) + 3 \<le> n" using rest by (simp_all add: at_rest_def)
  have pos: "0 < dval (amount h)" "0 < dval x" using am by (simp_all add: unit_amount_def)
  have cap: "check_text (lit ''authorization captured'') MAX_MEMO_BYTES False = None"
    by (simp add: check_text_def MAX_MEMO_BYTES_def)
  note ch = void_checks [OF am(1) k cap] spend_checks [OF am(2) k t, of "authorization_for h", OF auth_simps(2)]
  have takes: "takes i now (ref_start (m_state m) F) ?ls" for i now F
    using takes_capture [OF ok hold k ch(1) unit_amount_counted [OF am(1) u] _ ch(2) unit_amount_counted [OF am(2) u]] pos r by (simp del: lit_Cons)
  have wk: "working n (m_world m) (m_ledger m) (begin_work (m_ledger m))" using ok by (intro begin_working) (simp_all add: gov_ok_def)
  have "view_abs (p_view (begin_work (m_ledger m))) = ref_start (m_state m) (Some (ledger_resolve (g_entries (m_ledger m))))"
    by (simp add: begin_work_def view_abs_new)
  with post_succeeds [OF wk, of ?ls] v3 n takes obtain w p es where
    post: "post (m_world m) (begin_work (m_ledger m)) ?ls None = Inr (w, p, es)" "v3_work (m_ledger m) p" "w_drawn w = w_drawn (m_world m) + 3"
    by (auto simp: begin_work_def empty_batch_def simp del: lit_Cons)
  let ?m1 = "m\<lparr> m_world := w \<rparr>"
  have run: "posting (begin_work (m_ledger m)) ?ls m = (?m1, Inr (p, es))" using post(1) by (simp add: posting_def)
  from staged_posting [OF staged_begin [OF ok] run] post(3) n have st: "staged n ?m1 p es" and le: "list_all2 line_entry ?ls es" by simp_all
  from le obtain v e where ve: "es = [v, e]" "line_entry (hd ?ls) v" "line_entry (hd (tl ?ls)) e" by (auto simp: list_all2_Cons1 simp del: lit_Cons)
  have f: "entry_type v = HOLD_VOID" "entry_type e = SPEND" "scope_id v = scope_id h" "scope_id e = scope_id h" "amount v = amount h" "amount e = x"
    "direction v = CREDIT" "direction e = DEBIT"
    using ve(2,3) ch by (simp_all add: line_entry_def del: lit_Cons)
  let ?g = "(m_ledger m)\<lparr> g_entries := g_entries (m_ledger m) @ es, g_state := ref_chain (view_abs (p_view p)) \<rparr>"
  have g: "ledger_wf (m_ledger m)" "ledger_wf ?g" "g_entries ?g = g_entries (m_ledger m) @ es" "s_unit (g_state ?g) = m_unit m"
    using ok staged_state [OF st] by (simp_all add: gov_ok_def)
  from g obtain q rs q' rs' where rr: "rfold (ref_step True False) (q, rs) es = Inr (q', rs')" "ref_chain q = m_state m" "ref_chain q' = g_state ?g"
    by (rule extends_run)
  from rr(1) ve(1) obtain q1 rs1 where a: "ref_apply q v True rs False = Inr (q1, rs1)" "ref_apply q1 e True rs1 False = Inr (q', rs')"
    by (auto simp: ref_step_app)
  have q: "s_legacy q = []" "room q (scope_id h) (dval (amount h) + dval x)" "s_nodes q = s_nodes (m_state m)" "chain_balance q = chain_balance (m_state m)"
    using ledger_facts(2) [OF g(1)] r chain_fields [of q] rr(2) by (auto simp: roomy_room chain_balance_def fun_eq_iff)
  have k1: "s_nodes q1 = s_nodes q" "s_legacy q1 = []" "room q1 (scope_id h) (dval x)"
    using apply_kept(1,3) [OF a(1) q(1)] apply_kept(4) [OF a(1) q(1), of "scope_id h" "dval x"] f(1,5) q(2) pos(1) by (simp_all add: add.commute)
  have k2: "s_nodes q' = s_nodes q1" "room q' (scope_id h) 0"
    using apply_kept(1) [OF a(2) k1(2)] apply_kept(4) [OF a(2) k1(2), of "scope_id h" 0] f(2,6) k1(3) pos(2) by simp_all
  obtain x1 where b1: "ctx_add (chain_balance q1 (scope_id e)) (signed_amount e) = Inr x1" "dec_eq (balance_after e) x1"
    using a(2) by (rule apply_money)
  have lb: "m_balance m j = chain_balance (m_state m) j" for j by (simp add: ledger_balance_def chain_balance_def)
  have bal: "dval (chain_balance q1 (scope_id h)) = dval (m_balance m (scope_id h)) + dval (amount h)"
    using apply_balance [OF a(1), of "scope_id h"] f q(4) lb by (simp add: signed_amount_def)
  have "dval (balance_after e) = dval (m_balance m (scope_id h)) + dval (amount h) - dval x"
    using dval_ctx_add [OF b1(1)] b1(2) bal f by (simp add: dec_eq_iff signed_amount_def)
  moreover have "num_digits (coeff (balance_after e)) \<le> PREC" using post_digits [OF post(1)] ve(1) by simp
  moreover have "s_nodes (view_abs (p_view p)) = s_nodes (m_state m)" "room (view_abs (p_view p)) (scope_id h) 0"
    using k1 k2 q(3) rr(3) chain_fields [of q'] chain_fields [of "view_abs (p_view p)"] by (simp_all del: ref_chain_abs)
  ultimately show thesis using that [of ?m1 p v e] run st post(2,3) ve(1) k by (simp add: named_scope_def del: lit_Cons)
qed

lemma trip_staged:
  assumes st: "staged n m p es" and v3: "v3_work (m_ledger m) p" and n: "w_drawn (m_world m) + 2 \<le> n"
    and k: "map_of (s_nodes (view_abs (p_view p))) k \<noteq> None" "room (view_abs (p_view p)) k 0" "k \<noteq> []" "check_text k MAX_ID_BYTES True = None"
    and t: "check_text why MAX_MEMO_BYTES False = None"
  obtains m2 p2 new where "stage_trip p k why m = (m2, Inr p2)" "w_drawn (m_world m2) \<le> w_drawn (m_world m) + 2" "m_ledger m2 = m_ledger m"
    "staged n m2 p2 (es @ new)" "s_tripped (ref_chain (view_abs (p_view p2))) k \<noteq> None"
proof (cases "trip_of (p_view p) k = None")
  case False
  then show thesis using that [of m p "[]"] st by (simp add: stage_trip_def ret_def lookup_trip chain_trip_of_def chain_fields del: ref_chain_abs)
next
  case True
  let ?r = "view_abs (p_view p)" and ?l = "trip_line k why"
  have wk: "working n (m_world m) (m_ledger m) p" using st by (simp add: staged_def)
  have c: "check_line ?l = Inr ZERO" using k t by (simp add: check_line_def zero_value_type_def dec_eq_refl)
  have "line_fits ?r ?l ZERO" unfolding line_fits_def using k c by (simp add: zero_value_type_def room_def)
  then have "takes i now ?r [?l]" for i now by auto
  from post_succeeds [OF wk v3 _ _ this] n obtain w p2 new where
    post: "post (m_world m) p [?l] None = Inr (w, p2, new)" "w_drawn w = w_drawn (m_world m) + 2" by auto
  have run: "posting p [?l] m = (m\<lparr> m_world := w \<rparr>, Inr (p2, new))" using post(1) by (simp add: posting_def)
  have st2: "staged n (m\<lparr> m_world := w \<rparr>) p2 (es @ new)" and l: "list_all2 line_entry [?l] new"
    using staged_posting [OF st run] post(2) n by simp_all
  then obtain e where e: "new = [e]" "line_entry ?l e" by (auto simp: list_all2_Cons1)
  have "one_more ((m_ledger m)\<lparr> g_entries := g_entries (m_ledger m) @ es, g_state := ref_chain ?r \<rparr>) e
     ((m_ledger m)\<lparr> g_entries := g_entries (m_ledger m) @ es @ new, g_state := ref_chain (view_abs (p_view p2)) \<rparr>)"
    using staged_state [OF st] staged_state [OF st2] e(1) by (simp add: one_more_def del: ref_chain_abs)
  from one_more_trips(1) [OF this] e(2) have "s_tripped (ref_chain (view_abs (p_view p2))) k \<noteq> None"
    by (simp add: line_entry_def del: ref_chain_abs)
  with that [OF _ _ _ st2] run post(2) True show thesis by (simp add: stage_trip_def stage_control_def abind_def ret_def)
qed

lemma staged_commits:
  assumes st: "staged n m p es" and es: "es \<noteq> []"
  obtains m' where "commit_call p None e m = (m', Inr None)" "m_state m' = ref_chain (view_abs (p_view p))" "w_drawn (m_world m') = w_drawn (m_world m)"
proof -
  have wk: "working n (m_world m) (m_ledger m) p" "b_entries (p_batch p) = es" using st by (simp_all add: staged_def)
  obtain g where g: "commit (m_ledger m) (p\<lparr> p_batch := (p_batch p)\<lparr> b_idempotency := b_idempotency (p_batch p) \<rparr> \<rparr>) = Inr g"
    using commit_any [OF wk(1)] by blast
  then have "g_state g = merged (p_view p)"
    using wk(2) es by (auto simp: commit_def fill_batch_def batch_true_def Let_def follow_holds_def split: if_splits prod.splits)
  then show thesis using that g by (simp add: commit_call_def Let_def)
qed

section \<open>Every capture settles\<close>

lemma overrun_shown:
  assumes "unit_amount u x" "unit_amount u y" "on_grid (dval z)" "num_digits (coeff z) \<le> PREC" "coeff z \<noteq> 0" "\<bar>dval z\<bar> < 10 ^ 42"
  shows "check_text (overrun_text x y z) MAX_MEMO_BYTES False = None"
proof -
  have a: "shown (dec_str a) \<and> length (dec_str a) \<le> 500" if "unit_amount u a" for a
  proof -
    have e: "expo a = QUANTUM_EXP" "0 < dval a" "dval a \<le> 10 ^ 12" using that by (simp_all add: unit_amount_def)
    have g: "on_grid (dval a)" using e(1) by (intro expo_grid) simp
    have c: "coeff a \<noteq> 0" using e(2) by (auto simp: dval_def)
    have small: "\<bar>dval a\<bar> < 10 ^ 42" using e(2,3) by simp
    have "quanta (dval a) (coeff a)" using e(1) by (simp add: quanta_def dval_def)
    then have "num_digits (coeff a) \<le> PREC" using quanta_bound small by (simp add: PREC_def num_digits_le)
    then show ?thesis using dec_str_shown [OF g c _ small] by simp
  qed
  have z: "shown (dec_str z)" "length (dec_str z) \<le> 500" using dec_str_shown assms(3-6) by auto
  show ?thesis using a [OF assms(1)] a [OF assms(2)] z by (intro shown_text) (simp_all add: overrun_text_def MAX_MEMO_BYTES_def)
qed

lemma negated [simp]: "coeff (copy_negate d) = - coeff d" "num_digits (- c) = num_digits c"
  by (simp_all add: copy_negate_def num_digits_def)

lemma capture_computed:
  assumes "cost num (m_unit m) = Inr x" "0 < dval x" "map_of (g_open_auths (m_ledger m)) (a_authorization_id a) \<noteq> None"
    and "posting (begin_work (m_ledger (entered m))) [void_line a (lit ''authorization captured''), spend_line a x why] (entered m) = (m1, Inr (p, [v, e]))"
    and "(case overdrawn e of Some over \<Rightarrow> stage_trip p (a_scope_id a) (overrun_text x (a_amount a) over)
          | None \<Rightarrow> if exhausted (m_policy (entered m)) p (a_scope_id a) then stage_trip p (a_scope_id a) (lit ''spend envelope exhausted'') else ret p) m1 = (m2, Inr q)"
    and "commit_call q None e m2 = (m4, Inr None)"
  shows "capture a num why None m = (left m m4, case overdrawn e of None \<Rightarrow> Inr e
     | Some over \<Rightarrow> (case ctx_subtract x over of Inl er \<Rightarrow> Inl er | Inr l \<Rightarrow> Inl (DenialOfWalletError x l (a_scope_id a) True)))"
proof -
  have x: "\<not> dec_lt x ZERO" "\<not> dec_eq x ZERO" using assms(2) by (simp_all add: dec_lt_iff dec_eq_iff)
  obtain y where y: "map_of (g_open_auths (m_ledger m)) (a_authorization_id a) = Some y" using assms(3) by blast
  note run = abind_def asks_def start_work_def require_open_authorization_def answered_def ret_def raise_def pure_def
  have "capture_locked a x why None (entered m) = (m4, case overdrawn e of None \<Rightarrow> Inr e
     | Some over \<Rightarrow> (case ctx_subtract x over of Inl er \<Rightarrow> Inl er | Inr l \<Rightarrow> Inl (DenialOfWalletError x l (a_scope_id a) True)))"
  proof (cases "dec_lt (balance_after e) ZERO")
    case True
    then have "stage_trip p (a_scope_id a) (overrun_text x (a_amount a) (copy_negate (balance_after e))) m1 = (m2, Inr q)" using assms(5) by simp
    with True y assms(4,6) x show ?thesis unfolding capture_locked_def Let_def mutating_run entered_twice
      by (cases "ctx_subtract x (copy_negate (balance_after e))") (simp_all add: run del: lit_Cons)
  next
    case False
    show ?thesis
    proof (cases "exhausted (m_policy m) p (a_scope_id a)")
      case True
      then have "stage_trip p (a_scope_id a) (lit ''spend envelope exhausted'') m1 = (m2, Inr q)" using False assms(5) by simp
      with True False y assms(4,6) x show ?thesis unfolding capture_locked_def Let_def mutating_run entered_twice
        by (simp add: run del: lit_Cons)
    next
      case no: False
      then have "m2 = m1" "q = p" using False assms(5) by (simp_all add: ret_def)
      with no False y assms(4,6) x show ?thesis unfolding capture_locked_def Let_def mutating_run entered_twice
        by (simp add: run del: lit_Cons)
    qed
  qed
  then show ?thesis
    using assms(1) x by (simp add: capture_def mutating_run abind_def asks_def pure_def guard_def called_def replayed_call_def)
qed

lemma capture_run:
  assumes rest: "at_rest n 5 m" and hold: "map_of (s_holds (m_state m)) (entry_id h) = Some h" and k: "named_scope m (scope_id h)"
    and am: "unit_amount (m_unit m) (amount h)" and x: "cost num (m_unit m) = Inr x" "0 < dval x"
    and r: "roomy m (scope_id h) (dval (amount h) + dval x)"
    and t: "check_text (or_else why (lit ''settled call cost'')) MAX_MEMO_BYTES False = None"
  shows "\<exists>m' e l. captured n (authorization_for h) x why m e m' \<and> w_drawn (m_world m') \<le> w_drawn (m_world m) + 5
    \<and> dval (balance_after e) = dval (m_balance m (scope_id h)) + dval (amount h) - dval x
    \<and> (dval (balance_after e) < 0 \<longrightarrow> s_tripped (m_state m') (scope_id h) \<noteq> None \<and> dval l = dval x + dval (balance_after e))
    \<and> capture (authorization_for h) num why None m
        = (m', if dval (balance_after e) < 0 then Inl (DenialOfWalletError x l (scope_id h) True) else Inr e)"
proof -
  let ?m = "entered m" and ?a = "authorization_for h" and ?k = "scope_id h"
  have u: "unit_wf (m_unit m)" and ok: "gov_ok n m" and n: "w_drawn (m_world m) + 5 \<le> n" using rest by (simp_all add: at_rest_def)
  have rest': "at_rest n 3 ?m" using rest at_rest_core [of ?m m] at_rest_less by fastforce
  have ok': "gov_ok n ?m" using rest' by (simp add: at_rest_def)
  have ax: "unit_amount (m_unit m) x" using cost_amount [OF u x] .
  have k': "named_scope ?m ?k" "roomy ?m ?k (dval (amount h) + dval x)" using k r by (simp_all add: named_scope_def roomy_def)
  obtain m1 p e v where b: "posting (begin_work (m_ledger ?m)) [void_line ?a (lit ''authorization captured''), spend_line ?a x why] ?m = (m1, Inr (p, [v, e]))"
    "staged n m1 p [v, e]" "v3_work (m_ledger m1) p" "m_ledger m1 = m_ledger ?m" "w_drawn (m_world m1) = w_drawn (m_world ?m) + 3"
    "map_of (s_nodes (view_abs (p_view p))) ?k \<noteq> None" "room (view_abs (p_view p)) ?k 0"
    "dval (balance_after e) = dval (m_balance ?m ?k) + dval (amount h) - dval x" "num_digits (coeff (balance_after e)) \<le> PREC"
    using booked [of n ?m h x why thesis] rest' hold k' am ax t by (simp del: lit_Cons)
  have grid: "on_grid (dval (m_balance m ?k))" "on_grid (dval (amount h))" "on_grid (dval x)"
  proof -
    have "grid_state (m_state m)" using ledger_grid ok rest by (simp add: gov_ok_def at_rest_def)
    moreover have "m_balance m ?k = chain_balance (m_state m) ?k" by (simp add: ledger_balance_def chain_balance_def)
    ultimately show "on_grid (dval (m_balance m ?k))" by (simp add: grid_state_def)
    show "on_grid (dval (amount h))" "on_grid (dval x)" using am ax by (simp_all add: unit_amount_def expo_grid)
  qed
  have bal: "on_grid (dval (balance_after e))" "\<bar>dval (balance_after e)\<bar> < 10 ^ 42" "\<bar>dval (m_balance m ?k) + dval (amount h)\<bar> < 10 ^ 42"
  proof -
    show "on_grid (dval (balance_after e))" using b(8) grid by simp
    have "\<bar>dval (m_balance m ?k)\<bar> + (dval (amount h) + dval x) < 10 ^ 42" using r by (simp add: roomy_def)
    moreover have "0 < dval (amount h)" using am by (simp add: unit_amount_def)
    ultimately show "\<bar>dval (balance_after e)\<bar> < 10 ^ 42" "\<bar>dval (m_balance m ?k) + dval (amount h)\<bar> < 10 ^ 42"
      using b(8) x(2) unfolding entered_simps by linarith+
  qed
  have kk: "?k \<noteq> []" "check_text ?k MAX_ID_BYTES True = None" using k by (simp_all add: named_scope_def)
  have n1: "w_drawn (m_world m1) + 2 \<le> n" using b(5) n by simp
  note ts = trip_staged [OF b(2,3) n1 b(6,7) kk]
  have "check_text (lit ''spend envelope exhausted'') MAX_MEMO_BYTES False = None" by (simp add: check_text_def MAX_MEMO_BYTES_def)
  from ts [OF this] obtain m3 p3 new3 where s3: "stage_trip p ?k (lit ''spend envelope exhausted'') m1 = (m3, Inr p3)"
    "w_drawn (m_world m3) \<le> w_drawn (m_world m1) + 2" "m_ledger m3 = m_ledger m1" "staged n m3 p3 ([v, e] @ new3)" by blast
  show ?thesis
  proof (cases "dval (balance_after e) < 0")
    case True
    let ?over = "copy_negate (balance_after e)"
    have ov: "overdrawn e = Some ?over" using True by (simp add: dec_lt_iff)
    have nz: "coeff (balance_after e) \<noteq> 0" using True by (auto simp: dval_def)
    have "check_text (overrun_text x (amount h) ?over) MAX_MEMO_BYTES False = None"
      using nz bal b(9) by (intro overrun_shown [OF ax am]) simp_all
    from ts [OF this] obtain m2 p2 new where s: "stage_trip p ?k (overrun_text x (amount h) ?over) m1 = (m2, Inr p2)"
      "w_drawn (m_world m2) \<le> w_drawn (m_world m1) + 2" "m_ledger m2 = m_ledger m1" "staged n m2 p2 ([v, e] @ new)"
      "s_tripped (ref_chain (view_abs (p_view p2))) ?k \<noteq> None" by blast
    obtain m4 where c: "commit_call p2 None e m2 = (m4, Inr None)" "m_state m4 = ref_chain (view_abs (p_view p2))" "w_drawn (m_world m4) = w_drawn (m_world m2)"
      using staged_commits [OF s(4)] by auto
    have "\<bar>dval x - dval ?over\<bar> < 10 ^ 42" using bal(3) b(8) by simp
    then obtain l where l: "ctx_subtract x ?over = Inr l" using ctx_subtract_fits [OF grid(3), of ?over] bal(1) by auto
    have dl: "dval l = dval x + dval (balance_after e)" using dval_ctx_subtract [OF l] by simp
    have is_open: "map_of (g_open_auths (m_ledger m)) (a_authorization_id ?a) \<noteq> None" using auths_hold [OF ok] hold by simp
    have run: "capture ?a num why None m = (left m m4, Inl (DenialOfWalletError x l ?k True))"
      using capture_computed [OF x is_open b(1) _ c(1)] s(1) ov l by simp
    have "captured n ?a x why ?m e m4"
      using capture_staged [OF ok' b(1) disjI1 [OF s(1)], of None m4 None] c n s(2) b(5) by simp
    then have "captured n ?a x why m e (left m m4)" by (rule captured_core [rotated 4]) simp_all
    then show ?thesis using run True c(2,3) s(2,5) b(5,8) dl
      by (intro exI [of _ "left m m4"] exI [of _ e] exI [of _ l]) (simp del: ref_chain_abs)
  next
    case False
    then have ov: "overdrawn e = None" by (simp add: dec_lt_iff)
    define trips where "trips = exhausted (m_policy ?m) p ?k"
    define m2 where "m2 = (if trips then m3 else m1)"
    define q where "q = (if trips then p3 else p)"
    define new where "new = (if trips then new3 else [])"
    have s: "staged n m2 q ([v, e] @ new)" "w_drawn (m_world m2) \<le> w_drawn (m_world m1) + 2"
      "(if trips then stage_trip p ?k (lit ''spend envelope exhausted'') else ret p) m1 = (m2, Inr q)"
      "stage_trip p ?k (lit ''spend envelope exhausted'') m1 = (m2, Inr q) \<or> (m2, q) = (m1, p)"
      using s3 b(2) by (simp_all add: m2_def q_def new_def ret_def)
    obtain m4 where c: "commit_call q None e m2 = (m4, Inr None)" "w_drawn (m_world m4) = w_drawn (m_world m2)"
      using staged_commits [OF s(1)] by auto
    have is_open: "map_of (g_open_auths (m_ledger m)) (a_authorization_id ?a) \<noteq> None" using auths_hold [OF ok] hold by simp
    have run: "capture ?a num why None m = (left m m4, Inr e)"
      using capture_computed [OF x is_open b(1) _ c(1)] s(3) ov by (simp add: trips_def cong: if_cong)
    have "captured n ?a x why ?m e m4"
      using capture_staged [OF ok' b(1) s(4), of None m4 None] c n s(2) b(5) by simp
    then have "captured n ?a x why m e (left m m4)" by (rule captured_core [rotated 4]) simp_all
    then show ?thesis using run False c(2) s(2) b(5,8)
      by (intro exI [of _ "left m m4"] exI [of _ e]) simp
  qed
qed

text \<open>A capture of an open hold always books the cost, whether the scope can cover it or not. If it cannot,
  the caller is told only after the cost is on the chain, the hold closed and the breaker tripped: the error
  names the cost and how much of it the scope had.\<close>

theorem capture_books_overruns:
  assumes "at_rest n 5 m" "map_of (s_holds (m_state m)) (entry_id h) = Some h" "named_scope m (scope_id h)"
    "unit_amount (m_unit m) (amount h)" "cost num (m_unit m) = Inr x" "0 < dval x" "roomy m (scope_id h) (dval (amount h) + dval x)"
    "check_text (or_else why (lit ''settled call cost'')) MAX_MEMO_BYTES False = None"
  shows "\<exists>m' r. capture (authorization_for h) num why None m = (m', r)
    \<and> map_of (s_holds (m_state m')) (entry_id h) = None
    \<and> (\<forall>j. dval (m_balance m' j) = dval (m_balance m j) + (if j = scope_id h then dval (amount h) - dval x else 0))
    \<and> (if dval (m_balance m' (scope_id h)) < 0
       then s_tripped (m_state m') (scope_id h) \<noteq> None
         \<and> (\<exists>l. dval l = dval x + dval (m_balance m' (scope_id h)) \<and> r = Inl (DenialOfWalletError x l (scope_id h) True))
       else \<exists>e. r = Inr e \<and> entry_type e = SPEND \<and> dval (balance_after e) = dval (m_balance m' (scope_id h)))"
proof -
  from capture_run [OF assms] obtain m' e l where c: "captured n (authorization_for h) x why m e m'"
    "dval (balance_after e) = dval (m_balance m (scope_id h)) + dval (amount h) - dval x"
    "dval (balance_after e) < 0 \<longrightarrow> s_tripped (m_state m') (scope_id h) \<noteq> None \<and> dval l = dval x + dval (balance_after e)"
    "capture (authorization_for h) num why None m
        = (m', if dval (balance_after e) < 0 then Inl (DenialOfWalletError x l (scope_id h) True) else Inr e)" by blast
  note money = captured_money [OF c(1)]
  have "entry_type e = SPEND" using c(1) by (auto simp: captured_def line_entry_def simp del: lit_Cons)
  moreover have "dval (balance_after e) = dval (m_balance m' (scope_id h))" using money(1) c(2) by simp
  ultimately show ?thesis using c(3,4) money by (cases "dval (balance_after e) < 0") (simp_all, blast?)
qed

theorem capture_books_overruns_witness:
  "\<exists>m a m' l. capture a (ArgInt 3) [] None m = (m', Inl (DenialOfWalletError (Dec 300000000 (- 8)) l (lit ''root'') True))
     \<and> dval l = 1 \<and> dval (m_balance m' (lit ''root'')) = - 2 \<and> s_tripped (m_state m') (lit ''root'') \<noteq> None"
proof -
  obtain m0 where m0: "sample_opened m0" using sample_open by blast
  obtain m a e where a: "authorize (lit ''root'') (ArgInt 1) [] None m0 = (m, Inr a)" "w_drawn (m_world m) = 4" "gov_ok 9 m"
    "map_of (s_holds (m_state m)) (a_authorization_id a) = Some e" "a = authorization_for e" "at_rest 9 5 m" "m_unit m = USD"
    "named_scope m (scope_id e)" "unit_amount (m_unit m) (amount e)" "\<And>b. b \<le> 10 ^ 11 \<Longrightarrow> roomy m (scope_id e) b" "dval (amount e) = 1"
    "scope_id e = lit ''root''" "dval (m_balance m (lit ''root'')) = 0"
    using m0 by (rule sample_granted) blast
  have x: "cost (ArgInt 3) (m_unit m) = Inr (Dec 300000000 (- 8))" "dval (Dec 300000000 (- 8)) = 3"
    unfolding a(7) by (simp_all add: cost_def USD_def money_eval) (simp add: dval_def)
  have t: "check_text (or_else [] (lit ''settled call cost'')) MAX_MEMO_BYTES False = None"
    by (simp add: or_else_def check_text_def MAX_MEMO_BYTES_def)
  have "map_of (s_holds (m_state m)) (entry_id e) = Some e" using a(4,5) by simp
  from capture_books_overruns [OF a(6) this a(8,9) x(1) _ a(10) t] x(2) a(11) obtain m' r where
    c: "capture (authorization_for e) (ArgInt 3) [] None m = (m', r)"
      "\<forall>j. dval (m_balance m' j) = dval (m_balance m j) + (if j = scope_id e then dval (amount e) - dval (Dec 300000000 (- 8)) else 0)"
      "if dval (m_balance m' (scope_id e)) < 0
       then s_tripped (m_state m') (scope_id e) \<noteq> None
         \<and> (\<exists>l. dval l = dval (Dec 300000000 (- 8)) + dval (m_balance m' (scope_id e))
           \<and> r = Inl (DenialOfWalletError (Dec 300000000 (- 8)) l (scope_id e) True))
       else \<exists>e'. r = Inr e' \<and> entry_type e' = SPEND \<and> dval (balance_after e') = dval (m_balance m' (scope_id e))"
    by auto
  have b: "dval (m_balance m' (lit ''root'')) = - 2" using c(2) a(11-13) x(2) by (simp del: lit_Cons)
  then show ?thesis using c(1,3) a(5,12) x(2) by (simp del: lit_Cons) blast
qed

end
