(* ===== verification/Interceptor.thy ===== *)
theory Interceptor
  imports Thrashing Pricing Settlement
begin

text \<open>
  Governed calls (\<open>interceptor.py\<close>: \<open>extract_prompt_text\<close>, \<open>SpendGuard\<close>, \<open>Interceptor\<close>): the hold a call is
  authorized for, the guard that settles it on every way out, and \<open>invoke\<close> and \<open>ainvoke\<close>, which put the
  cognitive breaker, the guard, the call and its price together. A field \<open>_x\<close> of an interceptor is
  \<open>i_x\<close>, of a guard \<open>sg_x\<close>.

  The host a call runs in is the governor and, if there is one, the cognitive breaker, which may
  trip that governor. The wrapped function is an argument: it may do anything to the host (other
  agents' calls run meanwhile) and answers or raises. The canonical rendering of arguments and
  answers is an argument too. Latency and log lines are left out; a cancelled task is a case of \<open>ainvoke\<close>.
\<close>

section \<open>The prompt\<close>

definition TEXT_KEYS :: "string list" where
  "TEXT_KEYS = [''messages'', ''system'', ''prompt'', ''input'', ''text'', ''content'', ''instructions'']"

definition MAX_WALK_DEPTH :: nat where "MAX_WALK_DEPTH = 8"

definition CHARS_PER_TOKEN :: nat where "CHARS_PER_TOKEN = 4"

fun walk_text :: "nat \<Rightarrow> answer \<Rightarrow> ustr list" where
  "walk_text 0 v = []"
| "walk_text (Suc d) (A_Str t) = [t]"
| "walk_text (Suc d) (A_Map kvs) = concat (map (\<lambda>k. case map_of kvs k of None \<Rightarrow> [] | Some v \<Rightarrow> walk_text d v)
     [''text'', ''content'', ''source'', ''input''])"
| "walk_text (Suc d) (A_Seq vs) = concat (map (walk_text d) vs)"
| "walk_text (Suc d) A_Bytes = []"
| "walk_text (Suc d) (A_Obj attrs) = []"

definition extract_prompt_text :: "answer list \<Rightarrow> (string \<times> answer) list \<Rightarrow> ustr" where
  "extract_prompt_text args kwargs = concat (concat (map (\<lambda>v. case v of A_Str t \<Rightarrow> [t] | _ \<Rightarrow> []) args)
     @ concat (map (\<lambda>k. case map_of kwargs k of None \<Rightarrow> [] | Some v \<Rightarrow> walk_text MAX_WALK_DEPTH v) TEXT_KEYS))"

definition estimate_tokens :: "ustr \<Rightarrow> int" where
  "estimate_tokens t = int (length t div CHARS_PER_TOKEN)"

section \<open>Interceptors\<close>

record interceptor =
  i_scope_id :: scope_id
  i_pricing :: model_pricing
  i_pricing_is_explicit :: bool
  i_max_output_tokens :: int
  i_estimated_input_tokens :: int
  i_extract_usage :: "response \<Rightarrow> token_usage res"
  i_hold :: "decimal option"
  i_trajectory :: "ustr option"
  i_safety_buffer :: decimal
  i_dynamic_holds :: bool

definition new_interceptor :: "scope_id \<Rightarrow> ustr \<Rightarrow> model_pricing option \<Rightarrow> int \<Rightarrow> int \<Rightarrow> (response \<Rightarrow> token_usage res) \<Rightarrow> decimal option
    \<Rightarrow> ustr option \<Rightarrow> decimal \<Rightarrow> bool \<Rightarrow> interceptor res" where
  "new_interceptor scope model pricing max_output estimated extract hold tr buffer dynamic =
     (if max_output < 0 \<or> estimated < 0 then Inl (ValueError ''token estimates must not be negative'')
      else if dec_lt buffer (Dec 1 0) then Inl (ValueError ''safety_buffer must be at least 1.0'')
      else rbind (case pricing of Some p \<Rightarrow> Inr p | None \<Rightarrow> pricing_for model) (\<lambda>p.
        Inr \<lparr> i_scope_id = scope, i_pricing = p, i_pricing_is_explicit = (pricing \<noteq> None), i_max_output_tokens = max_output,
          i_estimated_input_tokens = estimated, i_extract_usage = extract, i_hold = hold, i_trajectory = tr, i_safety_buffer = buffer,
          i_dynamic_holds = dynamic \<rparr>))"

definition hold_amount :: "interceptor \<Rightarrow> decimal res" where
  "hold_amount i = (case i_hold i of Some h \<Rightarrow> Inr h
     | None \<Rightarrow> estimate (i_pricing i) (i_estimated_input_tokens i) (i_max_output_tokens i))"

text \<open>A call: the name of the function, its arguments as text is looked for in them, \<open>max_tokens\<close> where that is an
  integer (and not a \<open>bool\<close>), and its arguments rendered for the breaker.\<close>

record model_call =
  mc_tool :: ustr
  mc_args :: "answer list"
  mc_kwargs :: "(string \<times> answer) list"
  mc_max_tokens :: "int option"
  mc_arguments :: ustr

definition size_hold :: "interceptor \<Rightarrow> model_call \<Rightarrow> decimal res" where
  "size_hold i q = (case i_hold i of Some h \<Rightarrow> Inr h | None \<Rightarrow>
     if \<not> i_dynamic_holds i then hold_amount i
     else let t = extract_prompt_text (mc_args q) (mc_kwargs q) in
       if t = [] then hold_amount i
       else let max_output = (case mc_max_tokens q of Some n \<Rightarrow> if 0 < n then n else i_max_output_tokens i | None \<Rightarrow> i_max_output_tokens i) in
         rbind (rbind (mk_usage (estimate_tokens t) max_output 0 0) (cost_of (i_pricing i))) (\<lambda>est.
         rbind (quantize_up (ctx_mul est (i_safety_buffer i))) (\<lambda>buffered.
         rbind (hold_amount i) (\<lambda>least. Inr (if dec_lt buffered least then least else buffered)))))"

text \<open>\<open>_clone\<close>: the constructor again, with the pricing in force handed over.\<close>

definition clone :: "interceptor \<Rightarrow> scope_id option \<Rightarrow> decimal option \<Rightarrow> int option \<Rightarrow> int option \<Rightarrow> interceptor res" where
  "clone i scope hold estimated max_output =
     new_interceptor (case scope of Some s \<Rightarrow> s | None \<Rightarrow> i_scope_id i) (lit ''claude-opus-5'') (Some (i_pricing i))
       (case max_output of Some n \<Rightarrow> n | None \<Rightarrow> i_max_output_tokens i) (case estimated of Some n \<Rightarrow> n | None \<Rightarrow> i_estimated_input_tokens i)
       (i_extract_usage i) (case hold of Some h \<Rightarrow> Some h | None \<Rightarrow> i_hold i) (i_trajectory i) (i_safety_buffer i) (i_dynamic_holds i)"

definition for_scope :: "interceptor \<Rightarrow> scope_id \<Rightarrow> interceptor res" where
  "for_scope i scope = clone i (Some scope) None None None"

definition with_hold :: "interceptor \<Rightarrow> num_arg \<Rightarrow> interceptor res" where
  "with_hold i hold = rbind (money hold) (\<lambda>h. clone i None (Some h) None None)"

definition with_limits :: "interceptor \<Rightarrow> int option \<Rightarrow> int option \<Rightarrow> interceptor res" where
  "with_limits i estimated max_output = clone i None None estimated max_output"

definition with_trajectory :: "interceptor \<Rightarrow> ustr option \<Rightarrow> interceptor res" where
  "with_trajectory i tr = rbind (clone i None None None None) (\<lambda>c. Inr (c\<lparr> i_trajectory := tr \<rparr>))"

definition pricing_for_response :: "interceptor \<Rightarrow> response \<Rightarrow> model_pricing" where
  "pricing_for_response i r = (if i_pricing_is_explicit i then i_pricing i
     else case attr r ''model'' of
       Some (R_Str served) \<Rightarrow> if strip served = [] then i_pricing i else (case pricing_for served of Inr p \<Rightarrow> p | Inl _ \<Rightarrow> i_pricing i)
     | _ \<Rightarrow> i_pricing i)"

definition price_response :: "interceptor \<Rightarrow> response \<Rightarrow> (token_usage \<times> decimal \<times> model_pricing) res" where
  "price_response i r = rbind (i_extract_usage i r) (\<lambda>u. let p = pricing_for_response i r in rbind (cost_of p u) (\<lambda>c. Inr (u, c, p)))"

section \<open>The guard\<close>

record spend_guard =
  sg_scope_id :: scope_id
  sg_hold :: decimal
  sg_memo :: ustr
  sg_auth :: "authorization option"
  sg_settled :: "decimal option"
  sg_entry :: "ledger_entry option"

definition new_guard :: "scope_id \<Rightarrow> decimal \<Rightarrow> ustr \<Rightarrow> spend_guard" where
  "new_guard scope hold why = \<lparr> sg_scope_id = scope, sg_hold = hold, sg_memo = why, sg_auth = None, sg_settled = None, sg_entry = None \<rparr>"

definition settle :: "spend_guard \<Rightarrow> num_arg \<Rightarrow> spend_guard res" where
  "settle g c = rbind (money c) (\<lambda>x. Inr (g\<lparr> sg_settled := Some x \<rparr>))"

abbreviation exact :: "decimal \<Rightarrow> num_arg" where
  "exact d \<equiv> ArgDecimal (Finite d)"

definition guard_enter :: "spend_guard \<Rightarrow> spend_guard act" where
  "guard_enter g = abind (authorize (sg_scope_id g) (exact (sg_hold g)) (or_else (sg_memo g) (lit ''call authorization'')) None)
     (\<lambda>a. ret (g\<lparr> sg_auth := Some a \<rparr>))"

text \<open>\<open>__exit__\<close>; \<open>failed\<close> says that the body raised.\<close>

definition guard_exit :: "bool \<Rightarrow> spend_guard \<Rightarrow> spend_guard act" where
  "guard_exit failed g = (case sg_auth g of None \<Rightarrow> ret g
     | Some a \<Rightarrow> if failed then abind (void a (lit ''call failed; hold released'') None) (\<lambda>_. ret g)
         else let settled = (case sg_settled g of None \<Rightarrow> a_amount a | Some c \<Rightarrow> c) in
           abind (capture a (exact settled) (or_else (sg_memo g) (lit ''settled call cost'')) None)
             (\<lambda>e. ret (g\<lparr> sg_settled := Some settled, sg_entry := Some e \<rparr>)))"

section \<open>Calls\<close>

text \<open>\<open>h_linked\<close>: the breaker trips this governor (its \<open>_manager\<close>), and not none.\<close>

record host =
  h_breaker :: "breaker option"
  h_linked :: bool
  h_manager :: manager

text \<open>A response as \<open>extract_result_text\<close> sees it: an attribute that is \<open>None\<close> counts as missing.\<close>

fun answer_of :: "response \<Rightarrow> answer" where
  "answer_of (R_Str t) = A_Str t"
| "answer_of (R_Map kvs) = A_Map (map (\<lambda>(k, v). (k, answer_of v)) kvs)"
| "answer_of (R_Obj attrs) = A_Obj (map (\<lambda>(k, v). (k, answer_of v)) (filter (\<lambda>(k, v). v \<noteq> R_None) attrs))"
| "answer_of (R_Seq vs) = A_Seq (map answer_of vs)"
| "answer_of (R_Usage u) = A_Bytes"
| "answer_of (R_Int x) = A_Bytes"
| "answer_of (R_Bool b) = A_Bytes"
| "answer_of R_None = A_Bytes"
| "answer_of R_Other = A_Bytes"

definition observe_cognitive :: "interceptor \<Rightarrow> model_call \<Rightarrow> host \<Rightarrow> host \<times> unit res" where
  "observe_cognitive i q h = (case h_breaker h of None \<Rightarrow> (h, Inr ())
     | Some k \<Rightarrow> (case observe (i_scope_id i) (mc_tool q) (mc_arguments q) (i_trajectory i) (k, if h_linked h then Some (h_manager h) else None) of
         ((k', g), r) \<Rightarrow> (h\<lparr> h_breaker := Some k', h_manager := (case g of Some m \<Rightarrow> m | None \<Rightarrow> h_manager h) \<rparr>, r)))"

definition record_cognitive_result :: "(response \<Rightarrow> ustr) \<Rightarrow> interceptor \<Rightarrow> response \<Rightarrow> host \<Rightarrow> host" where
  "record_cognitive_result render i r h = (case h_breaker h of None \<Rightarrow> h
     | Some k \<Rightarrow> h\<lparr> h_breaker := Some (record_result k (or_key (i_trajectory i) (i_scope_id i)) (answer_of r) (render r)) \<rparr>)"

record metered_call =
  mt_response :: response
  mt_usage :: token_usage
  mt_cost :: decimal
  mt_hold :: decimal
  mt_scope_id :: scope_id
  mt_model_id :: ustr
  mt_entry :: ledger_entry

definition metered :: "interceptor \<Rightarrow> response \<Rightarrow> token_usage \<Rightarrow> decimal \<Rightarrow> decimal \<Rightarrow> spend_guard \<Rightarrow> model_pricing \<Rightarrow> metered_call res" where
  "metered i r u c hold g p = (case sg_entry g of None \<Rightarrow> Inl (RuntimeError ''spend guard exited without settling'')
     | Some e \<Rightarrow> Inr \<lparr> mt_response = r, mt_usage = u, mt_cost = c, mt_hold = hold, mt_scope_id = i_scope_id i, mt_model_id = model_id p, mt_entry = e \<rparr>)"

definition on_manager :: "'a act \<Rightarrow> host \<Rightarrow> host \<times> 'a res" where
  "on_manager a h = (case a (h_manager h) of (m, r) \<Rightarrow> (h\<lparr> h_manager := m \<rparr>, r))"

text \<open>The body of the guard: the call itself, its price, and \<open>settle\<close>.\<close>

definition guarded_body :: "interceptor \<Rightarrow> (host \<Rightarrow> host \<times> response res) \<Rightarrow> spend_guard \<Rightarrow> host
    \<Rightarrow> host \<times> (response \<times> token_usage \<times> decimal \<times> model_pricing \<times> spend_guard) res" where
  "guarded_body i fn g h = (case fn h of (h', r) \<Rightarrow> (h', rbind r (\<lambda>resp. rbind (price_response i resp) (\<lambda>(u, c, p).
     rbind (settle g (exact c)) (\<lambda>g'. Inr (resp, u, c, p, g'))))))"

text \<open>From the guard's exit on: the exception of the body, unless the exit raises one of its own.\<close>

definition finish_call :: "(response \<Rightarrow> ustr) \<Rightarrow> interceptor \<Rightarrow> decimal \<Rightarrow> spend_guard
    \<Rightarrow> host \<times> (response \<times> token_usage \<times> decimal \<times> model_pricing \<times> spend_guard) res \<Rightarrow> host \<times> metered_call res" where
  "finish_call render i hold g hb = (case hb of
       (h, Inl e) \<Rightarrow> (case on_manager (guard_exit True g) h of (h', Inl e') \<Rightarrow> (h', Inl e') | (h', Inr _) \<Rightarrow> (h', Inl e))
     | (h, Inr (resp, u, c, p, g1)) \<Rightarrow> (case on_manager (guard_exit False g1) h of (h', Inl e') \<Rightarrow> (h', Inl e')
         | (h', Inr g2) \<Rightarrow> (record_cognitive_result render i resp h', metered i resp u c hold g2 p)))"

definition invoke :: "(response \<Rightarrow> ustr) \<Rightarrow> interceptor \<Rightarrow> (host \<Rightarrow> host \<times> response res) \<Rightarrow> model_call \<Rightarrow> host \<Rightarrow> host \<times> metered_call res" where
  "invoke render i fn q h = (case observe_cognitive i q h of (h1, Inl e) \<Rightarrow> (h1, Inl e)
     | (h1, Inr _) \<Rightarrow> (case size_hold i q of Inl e \<Rightarrow> (h1, Inl e)
       | Inr hold \<Rightarrow> (case on_manager (guard_enter (new_guard (i_scope_id i) hold [])) h1 of (h2, Inl e) \<Rightarrow> (h2, Inl e)
         | (h2, Inr g) \<Rightarrow> finish_call render i hold g (guarded_body i fn g h2))))"

text \<open>\<open>ainvoke\<close>: a task cancelled while its hold is placed or settled lets that finish; one cancelled in the call
  sees it as an exception of the call.\<close>

datatype cancelled = Never | While_Entering | While_Exiting

definition CancelledError :: exn where
  "CancelledError = RuntimeError ''CancelledError''"

definition ainvoke :: "(response \<Rightarrow> ustr) \<Rightarrow> interceptor \<Rightarrow> (host \<Rightarrow> host \<times> response res) \<Rightarrow> model_call \<Rightarrow> cancelled \<Rightarrow> host \<Rightarrow> host \<times> metered_call res" where
  "ainvoke render i fn q x h = (case observe_cognitive i q h of (h1, Inl e) \<Rightarrow> (h1, Inl e)
     | (h1, Inr _) \<Rightarrow> (case size_hold i q of Inl e \<Rightarrow> (h1, Inl e)
       | Inr hold \<Rightarrow> (case on_manager (guard_enter (new_guard (i_scope_id i) hold [])) h1 of
           (h2, Inl e) \<Rightarrow> (h2, Inl (if x = While_Entering then CancelledError else e))
         | (h2, Inr g) \<Rightarrow>
             if x = While_Entering then (fst (on_manager (guard_exit True g) h2), Inl CancelledError)
             else if x = While_Exiting then
               (case guarded_body i fn g h2 of
                  (h3, Inl e) \<Rightarrow> (fst (on_manager (guard_exit True g) h3), Inl CancelledError)
                | (h3, Inr (resp, u, c, p, g1)) \<Rightarrow> (fst (on_manager (guard_exit False g1) h3), Inl CancelledError))
             else finish_call render i hold g (guarded_body i fn g h2))))"

section \<open>The parts of a call\<close>

lemma observe_quiet: "observe scope tool args tr (k, g) = ((k', g'), Inr ()) \<Longrightarrow> g' = g"
  by (auto simp: observe_def halting_def Let_def split: prod.splits option.splits)

lemma observe_cognitive_quiet: "observe_cognitive i q h = (h1, Inr ()) \<Longrightarrow> h_manager h1 = h_manager h"
  by (auto simp: observe_cognitive_def split: option.splits prod.splits if_splits dest!: observe_quiet)

lemma or_else_simps [simp]: "or_else [] t = t"
  by (simp add: or_else_def)

lemma guard_enter_Inr:
  "guard_enter (new_guard k x []) m = (m', Inr g) \<longleftrightarrow>
     (\<exists>a. authorize k (exact x) (lit ''call authorization'') None m = (m', Inr a) \<and> g = (new_guard k x [])\<lparr> sg_auth := Some a \<rparr>)"
  by (auto simp: guard_enter_def abind_Inr run_simps new_guard_def simp del: lit_Cons)

lemma on_manager_iff: "on_manager a h = (h', r) \<longleftrightarrow> (\<exists>m. a (h_manager h) = (m, r) \<and> h' = h\<lparr> h_manager := m \<rparr>)"
  by (auto simp: on_manager_def split: prod.splits)

lemma invoke_Inr:
  assumes "invoke render i fn q h = (h', Inr mc)"
  obtains m2 a g1 g2 p s where "authorize (i_scope_id i) (exact (mt_hold mc)) (lit ''call authorization'') None (h_manager h) = (h_manager g1, Inr a)"
    "fn g1 = (g2, Inr (mt_response mc))" "size_hold i q = Inr (mt_hold mc)"
    "price_response i (mt_response mc) = Inr (mt_usage mc, mt_cost mc, p)" "mt_model_id mc = model_id p" "money (exact (mt_cost mc)) = Inr s"
    "capture a (exact s) (lit ''settled call cost'') None (h_manager g2) = (h_manager h', Inr (mt_entry mc))"
proof -
  from assms obtain h1 where 1: "observe_cognitive i q h = (h1, Inr ())" by (auto simp: invoke_def split: prod.splits sum.splits)
  from assms 1 obtain hold h2 g where 2: "size_hold i q = Inr hold" "on_manager (guard_enter (new_guard (i_scope_id i) hold [])) h1 = (h2, Inr g)"
    "finish_call render i hold g (guarded_body i fn g h2) = (h', Inr mc)" by (auto simp: invoke_def split: prod.splits sum.splits)
  from 2(2) obtain a where 3: "authorize (i_scope_id i) (exact hold) (lit ''call authorization'') None (h_manager h) = (h_manager h2, Inr a)"
    "g = (new_guard (i_scope_id i) hold [])\<lparr> sg_auth := Some a \<rparr>"
    using observe_cognitive_quiet [OF 1] by (auto simp: on_manager_iff guard_enter_Inr simp del: lit_Cons)
  from 2(3) obtain h3 resp u c p gs h4 g4 where 4: "guarded_body i fn g h2 = (h3, Inr (resp, u, c, p, gs))"
    "on_manager (guard_exit False gs) h3 = (h4, Inr g4)" "h' = record_cognitive_result render i resp h4" "metered i resp u c hold g4 p = Inr mc"
    by (auto simp: finish_call_def split: prod.splits sum.splits)
  from 4(1) obtain s where 5: "fn h2 = (h3, Inr resp)" "price_response i resp = Inr (u, c, p)" "money (exact c) = Inr s" "gs = g\<lparr> sg_settled := Some s \<rparr>"
    by (auto simp: guarded_body_def settle_def split: prod.splits)
  from 4(2) obtain e where 6: "capture a (exact s) (lit ''settled call cost'') None (h_manager h3) = (h_manager h4, Inr e)" "sg_entry g4 = Some e"
    by (auto simp: on_manager_iff guard_exit_def 3(2) 5(4) abind_Inr run_simps new_guard_def simp del: lit_Cons)
  have 7: "mt_response mc = resp" "mt_usage mc = u" "mt_cost mc = c" "mt_hold mc = hold" "mt_model_id mc = model_id p" "mt_entry mc = e"
    using 4(4) 6(2) by (auto simp: metered_def)
  have "h_manager h' = h_manager h4" using 4(3) by (simp add: record_cognitive_result_def split: option.split)
  then show thesis using that [of h2 a h3 p s] 2(1) 3(1) 5(1-3) 6(1) 7 by simp
qed

lemma invoke_computed:
  assumes "observe_cognitive i q h = (h1, Inr ())" "size_hold i q = Inr hold"
    "authorize (i_scope_id i) (exact hold) (lit ''call authorization'') None (h_manager h1) = (m1, Inr a)"
    "fn (h1\<lparr> h_manager := m1 \<rparr>) = (h2, Inr r)" "price_response i r = Inr (u, c, p)" "money (exact c) = Inr s"
    "capture a (exact s) (lit ''settled call cost'') None (h_manager h2) = (m3, x)"
  shows "invoke render i fn q h = (case x of Inl e \<Rightarrow> (h2\<lparr> h_manager := m3 \<rparr>, Inl e)
     | Inr e \<Rightarrow> (record_cognitive_result render i r (h2\<lparr> h_manager := m3 \<rparr>), Inr \<lparr> mt_response = r, mt_usage = u, mt_cost = c, mt_hold = hold,
         mt_scope_id = i_scope_id i, mt_model_id = model_id p, mt_entry = e \<rparr>))"
proof -
  let ?g = "(new_guard (i_scope_id i) hold [])\<lparr> sg_auth := Some a \<rparr>"
  have enter: "on_manager (guard_enter (new_guard (i_scope_id i) hold [])) h1 = (h1\<lparr> h_manager := m1 \<rparr>, Inr ?g)"
    using assms(3) by (auto simp: on_manager_iff guard_enter_Inr simp del: lit_Cons)
  have body: "guarded_body i fn ?g (h1\<lparr> h_manager := m1 \<rparr>) = (h2, Inr (r, u, c, p, ?g\<lparr> sg_settled := Some s \<rparr>))"
    using assms(4-6) by (simp add: guarded_body_def settle_def)
  have leave: "guard_exit False (?g\<lparr> sg_settled := Some s \<rparr>) (h_manager h2)
      = (m3, map_sum id (\<lambda>e. ?g\<lparr> sg_settled := Some s, sg_entry := Some e \<rparr>) x)"
    using assms(7) by (cases x) (simp_all add: guard_exit_def new_guard_def abind_def ret_def del: lit_Cons)
  show ?thesis
    using assms(1,2) enter body leave by (cases x) (simp_all add: invoke_def finish_call_def on_manager_def metered_def)
qed

lemma invoke_failed:
  assumes "observe_cognitive i q h = (h1, Inr ())" "size_hold i q = Inr hold"
    "authorize (i_scope_id i) (exact hold) (lit ''call authorization'') None (h_manager h1) = (m1, Inr a)"
    "fn (h1\<lparr> h_manager := m1 \<rparr>) = (h2, r)" "rbind r (price_response i) = Inl er"
    "void a (lit ''call failed; hold released'') None (h_manager h2) = (m3, Inr v)"
  shows "invoke render i fn q h = (h2\<lparr> h_manager := m3 \<rparr>, Inl er)"
proof -
  let ?g = "(new_guard (i_scope_id i) hold [])\<lparr> sg_auth := Some a \<rparr>"
  have enter: "on_manager (guard_enter (new_guard (i_scope_id i) hold [])) h1 = (h1\<lparr> h_manager := m1 \<rparr>, Inr ?g)"
    using assms(3) by (auto simp: on_manager_iff guard_enter_Inr simp del: lit_Cons)
  have body: "guarded_body i fn ?g (h1\<lparr> h_manager := m1 \<rparr>) = (h2, Inl er)"
    using assms(4,5) by (cases r) (simp_all add: guarded_body_def)
  have leave: "guard_exit True ?g (h_manager h2) = (m3, Inr ?g)"
    using assms(6) by (simp add: guard_exit_def abind_def ret_def del: lit_Cons)
  show ?thesis
    using assms(1,2) enter body leave by (simp add: invoke_def finish_call_def on_manager_def)
qed

section \<open>What a call costs\<close>

lemma priced_exactly:
  assumes "price_response i r = Inr (u, c, p)" "money (exact c) = Inr s"
  shows "s = c" "expo c = - 8" "cost (exact c) USD = Inr x \<Longrightarrow> x = c"
proof -
  have "cost_of p u = Inr c" using assms(1) by (auto simp: price_response_def Let_def)
  then show e: "expo c = - 8" by (auto simp: cost_of_def quantize_up_def Let_def QUANTUM_EXP_def split: if_splits)
  show "s = c" using assms(2) quantize_id [OF e] by (auto simp: money_def coerce_def as_decimal_def QUANTUM_EXP_def split: if_splits)
  show "cost (exact c) USD = Inr x \<Longrightarrow> x = c" using quantize_id [OF e]
    by (auto simp: cost_def USD_def quantum_exp_def coerce_def as_decimal_def QUANTUM_EXP_def split: if_splits)
qed

lemma grid_cost:
  assumes "expo c = - 8" "\<bar>dval c\<bar> \<le> 10 ^ 12"
  shows "money (exact c) = Inr c" "cost (exact c) USD = Inr c"
proof -
  have "\<not> dec_lt MAX_AMOUNT (copy_abs c)" using assms(2) by (simp add: dec_lt_iff dval_MAX_AMOUNT)
  then show "money (exact c) = Inr c" "cost (exact c) USD = Inr c" using quantize_id [OF assms(1)]
    by (simp_all add: money_def cost_def coerce_def as_decimal_def QUANTUM_EXP_def USD_def quantum_exp_def)
qed

lemma serves_one: "fst (serve (Call q) m) = serves m [Call q]"
  by (simp add: serves_def)

lemma ignore_fst: "fst (ignore a m) = fst (a m)"
  by (simp add: ignore_def abind_def ret_def split: prod.split sum.split)

lemma authorize_serves: "authorize k x why key m = (m', r) \<Longrightarrow> m' = serves m [Call (Authorize k x why key)]"
  by (simp add: serves_def ignore_fst)

lemma capture_serves: "capture a x why key m = (m', r) \<Longrightarrow> m' = serves m [Call (Capture a x why key)]"
  by (simp add: serves_def ignore_fst)

lemma void_serves: "void a why key m = (m', r) \<Longrightarrow> m' = serves m [Call (Void a why key)]"
  by (simp add: serves_def ignore_fst)

interpretation same_unit: governed_state n "\<lambda>m. gov_inv n m \<and> (w_drawn (m_world m) \<le> n \<longrightarrow> m_unit m = u)" "\<lambda>_. True" for n u
proof
  show "core m' = core m \<Longrightarrow> gov_inv n m \<and> (w_drawn (m_world m) \<le> n \<longrightarrow> m_unit m = u) \<Longrightarrow> gov_inv n m' \<and> (w_drawn (m_world m') \<le> n \<longrightarrow> m_unit m' = u)" for m m'
    using gov.I_core [of m' m n] by (auto simp: core_def)
  show "gov_inv n m \<and> (w_drawn (m_world m) \<le> n \<longrightarrow> m_unit m = u) \<Longrightarrow> w_drawn (m_world m) \<le> d \<Longrightarrow>
      gov_inv n (m\<lparr> m_world := (m_world m)\<lparr> w_drawn := d, w_ticks := t \<rparr> \<rparr>)
      \<and> (w_drawn (m_world (m\<lparr> m_world := (m_world m)\<lparr> w_drawn := d, w_ticks := t \<rparr> \<rparr>)) \<le> n \<longrightarrow>
         m_unit (m\<lparr> m_world := (m_world m)\<lparr> w_drawn := d, w_ticks := t \<rparr> \<rparr>) = u)" for m d t
    using gov.I_draw [of n m d t] by auto
qed (auto simp: gov_inv_def same_chain_def)

lemma earlier: "gov_inv n m \<Longrightarrow> m' = serves m ss \<Longrightarrow> w_drawn (m_world m') \<le> n \<Longrightarrow> gov_ok n m \<and> w_drawn (m_world m) \<le> n"
  using serves_later [of n m ss] by (simp add: gov_inv_def)

lemma serves_unit: "gov_inv n m \<Longrightarrow> m' = serves m ss \<Longrightarrow> w_drawn (m_world m') \<le> n \<Longrightarrow> m_unit m = u \<Longrightarrow> m_unit m' = u"
  using same_unit.keeps_sessions [where n = n and u = u and ss = ss and m = m] by simp

text \<open>C11: A governed call that returns is paid for. Its hold is placed before the function runs and is at least the hold
  that was sized for it; what happens to other balances while it runs is the function's doing; and in the
  end the scope is short of exactly the price of the usage the response reported, on the entry returned, and the
  hold is closed.\<close>

theorem invoke_settles:
  assumes "gov_inv n (h_manager h)" "m_unit (h_manager h) = USD" "\<And>g. \<exists>ss. h_manager (fst (fn g)) = serves (h_manager g) ss"
    and "invoke render i fn q h = (h', Inr mc)" "w_drawn (m_world (h_manager h')) \<le> n"
  shows "\<exists>g1 g2 p held. fn g1 = (g2, Inr (mt_response mc)) \<and> size_hold i q = Inr (mt_hold mc) \<and> cost (exact (mt_hold mc)) USD = Inr held
    \<and> price_response i (mt_response mc) = Inr (mt_usage mc, mt_cost mc, p) \<and> mt_model_id mc = model_id p
    \<and> (\<forall>j. dval (m_balance (h_manager g1) j) = dval (m_balance (h_manager h) j) - (if j = i_scope_id i then dval held else 0))
    \<and> 0 \<le> dval (m_balance (h_manager g1) (i_scope_id i))
    \<and> (\<forall>j. dval (m_balance (h_manager h') j) = dval (m_balance (h_manager h) j) + (dval (m_balance (h_manager g2) j) - dval (m_balance (h_manager g1) j))
         - (if j = i_scope_id i then dval (mt_cost mc) else 0))
    \<and> entry_type (mt_entry mc) = (if dval (mt_cost mc) = 0 then HOLD_VOID else SPEND)
    \<and> (\<exists>id. ref (mt_entry mc) = Some id \<and> map_of (s_holds (m_state (h_manager g2))) id \<noteq> None \<and> map_of (s_holds (m_state (h_manager h'))) id = None)"
proof -
  from assms(4) obtain m2 a g1 g2 p s where 1: "authorize (i_scope_id i) (exact (mt_hold mc)) (lit ''call authorization'') None (h_manager h) = (h_manager g1, Inr a)"
    "fn g1 = (g2, Inr (mt_response mc))" "size_hold i q = Inr (mt_hold mc)"
    "price_response i (mt_response mc) = Inr (mt_usage mc, mt_cost mc, p)" "mt_model_id mc = model_id p" "money (exact (mt_cost mc)) = Inr s"
    "capture a (exact s) (lit ''settled call cost'') None (h_manager g2) = (h_manager h', Inr (mt_entry mc))" by (rule invoke_Inr)
  obtain ss where ss: "h_manager g2 = serves (h_manager g1) ss" using assms(3) [of g1] 1(2) by auto
  note e1 = authorize_serves [OF 1(1)] and e2 = capture_serves [OF 1(7)]
  have inv1: "gov_inv n (h_manager g1)" unfolding e1 by (rule serves_gov [OF assms(1)])
  have inv2: "gov_inv n (h_manager g2)" unfolding ss by (rule serves_gov [OF inv1])
  have ok2: "gov_ok n (h_manager g2)" and d2: "w_drawn (m_world (h_manager g2)) \<le> n" using earlier [OF inv2 e2 assms(5)] by simp_all
  have d1: "w_drawn (m_world (h_manager g1)) \<le> n" using earlier [OF inv1 ss d2] by simp
  have ok1: "gov_ok n (h_manager h)" using earlier [OF assms(1) e1 d1] by simp
  have u2: "m_unit (h_manager g2) = USD" by (rule serves_unit [OF inv1 ss d2 serves_unit [OF assms(1) e1 d1 assms(2)]])
  from authorize_effect [OF ok1 1(1) d1] obtain held where h: "cost (exact (mt_hold mc)) USD = Inr held" "a_scope_id a = i_scope_id i"
    "dval (a_amount a) = dval held" "0 \<le> dval (m_balance (h_manager g1) (i_scope_id i))"
    "\<forall>j. dval (m_balance (h_manager g1) j) = dval (m_balance (h_manager h) j) - (if j = i_scope_id i then dval held else 0)"
    by (auto simp: assms(2) simp del: lit_Cons)
  note c = priced_exactly [OF 1(4,6)]
  from capture_effect [OF ok2 1(7) assms(5)] obtain x where x: "cost (exact s) USD = Inr x"
    "map_of (s_holds (m_state (h_manager g2))) (entry_id (a_entry a)) \<noteq> None" "map_of (s_holds (m_state (h_manager h'))) (entry_id (a_entry a)) = None"
    "\<forall>j. dval (m_balance (h_manager h') j) = dval (m_balance (h_manager g2) j) + (if j = a_scope_id a then dval (a_amount a) - dval x else 0)"
    "entry_type (mt_entry mc) = (if dval x = 0 then HOLD_VOID else SPEND)" "ref (mt_entry mc) = Some (entry_id (a_entry a))"
    unfolding u2 by blast
  have xc: "x = mt_cost mc" using x(1) c by simp
  have "\<forall>j. dval (m_balance (h_manager h') j) = dval (m_balance (h_manager h) j) + (dval (m_balance (h_manager g2) j) - dval (m_balance (h_manager g1) j))
         - (if j = i_scope_id i then dval (mt_cost mc) else 0)"
    using x(4) h(2,3,5) xc by simp
  then show ?thesis using 1(2-5) h(1,4,5) x(2,3,5,6) unfolding xc by blast
qed

section \<open>Calls that go wrong\<close>

text \<open>What a call needs of the governor for its hold to be placed.\<close>

definition can_hold :: "scope_id \<Rightarrow> decimal \<Rightarrow> decimal \<Rightarrow> manager \<Rightarrow> bool" where
  "can_hold k hold held m \<longleftrightarrow> named_scope m k \<and> halted_at m k = Inr None \<and> cost (exact hold) (m_unit m) = Inr held
     \<and> 0 < dval held \<and> dval held \<le> dval (m_balance m k) \<and> snd (record_velocity k (entered m)) = Inr ()"

lemma call_texts: "check_text (or_else (lit ''call authorization'') t) MAX_MEMO_BYTES False = None"
  "check_text (or_else (lit ''call failed; hold released'') t) MAX_MEMO_BYTES False = None"
  "check_text (or_else (lit ''settled call cost'') t) MAX_MEMO_BYTES False = None"
  by (simp_all add: or_else_def check_text_def MAX_MEMO_BYTES_def)

text \<open>C21: A call that fails costs nothing. If the function raises, or answers with something no usage can be read
  from, its exception is the caller's, the hold is closed, and every balance is what it was.\<close>

theorem failed_call_refunded:
  assumes "at_rest n 4 (h_manager h)" "observe_cognitive i q h = (h1, Inr ())" "size_hold i q = Inr hold" "can_hold (i_scope_id i) hold held (h_manager h)"
    and "roomy (h_manager h) (i_scope_id i) (3 * dval held)"
    and "\<And>g. \<exists>r. fn g = (f g, r) \<and> rbind r (price_response i) = Inl er" "\<And>g. h_manager (f g) = h_manager g"
  shows "\<exists>h' m1 a. invoke render i fn q h = (h', Inl er) \<and> (\<forall>j. dval (m_balance (h_manager h') j) = dval (m_balance (h_manager h) j))
    \<and> authorize (i_scope_id i) (exact hold) (lit ''call authorization'') None (h_manager h) = (m1, Inr a)
    \<and> map_of (s_holds (m_state m1)) (a_authorization_id a) \<noteq> None \<and> map_of (s_holds (m_state (h_manager h'))) (a_authorization_id a) = None"
proof -
  note c = assms(4) [unfolded can_hold_def]
  from hold_given_back [OF assms(1), of "i_scope_id i" "exact hold" held "lit ''call authorization''" "lit ''call failed; hold released''"]
    c assms(5) call_texts obtain m1 a m2 v where
    a: "authorize (i_scope_id i) (exact hold) (lit ''call authorization'') None (h_manager h) = (m1, Inr a)"
      "void a (lit ''call failed; hold released'') None m1 = (m2, Inr v)"
      "\<forall>j. dval (m_balance m2 j) = dval (m_balance (h_manager h) j)" "map_of (s_holds (m_state m1)) (a_authorization_id a) \<noteq> None"
      "map_of (s_holds (m_state m2)) (a_authorization_id a) = None" by (auto simp del: lit_Cons)
  from assms(6) [of "h1\<lparr> h_manager := m1 \<rparr>"] obtain r where r: "fn (h1\<lparr> h_manager := m1 \<rparr>) = (f (h1\<lparr> h_manager := m1 \<rparr>), r)"
    "rbind r (price_response i) = Inl er" by blast
  have "invoke render i fn q h = ((f (h1\<lparr> h_manager := m1 \<rparr>))\<lparr> h_manager := m2 \<rparr>, Inl er)"
    using a(1,2) assms(7) observe_cognitive_quiet [OF assms(2)] r
    by (intro invoke_failed [where r = r and a = a and ?m1.0 = m1 and v = v, OF assms(2,3)]) (simp_all del: lit_Cons)
  then show ?thesis using a by (intro exI [of _ "(f (h1\<lparr> h_manager := m1 \<rparr>))\<lparr> h_manager := m2 \<rparr>"] exI [of _ m1] exI [of _ a]) (simp del: lit_Cons)
qed

lemma charged_run:
  assumes "at_rest n 7 (h_manager h)" "observe_cognitive i q h = (h1, Inr ())" "size_hold i q = Inr hold" "can_hold (i_scope_id i) hold held (h_manager h)"
    and "\<And>g. fn g = (f g, Inr r)" "\<And>g. h_manager (f g) = h_manager g" "price_response i r = Inr (u, c, p)" "money (exact c) = Inr s"
    and "cost (exact s) (m_unit (h_manager h)) = Inr x" "0 < dval x"
    and "roomy (h_manager h) (i_scope_id i) (2 * dval held + (dval held + dval x))"
  shows "\<exists>h' res. invoke render i fn q h = (h', res)
    \<and> (\<forall>j. dval (m_balance (h_manager h') j) = dval (m_balance (h_manager h) j) - (if j = i_scope_id i then dval x else 0))
    \<and> (if dval (m_balance (h_manager h') (i_scope_id i)) < 0
       then s_tripped (m_state (h_manager h')) (i_scope_id i) \<noteq> None \<and> (\<exists>l. res = Inl (DenialOfWalletError x l (i_scope_id i) True))
       else \<exists>mc. res = Inr mc \<and> mt_response mc = r \<and> mt_cost mc = c \<and> mt_hold mc = hold \<and> entry_type (mt_entry mc) = SPEND)
    \<and> w_drawn (m_world (h_manager h')) \<le> w_drawn (m_world (h_manager h)) + 7"
proof -
  let ?k = "i_scope_id i" and ?m = "h_manager h"
  have ch: "named_scope ?m ?k" "halted_at ?m ?k = Inr None" "cost (exact hold) (m_unit ?m) = Inr held" "0 < dval held"
    "dval held \<le> dval (m_balance ?m ?k)" "snd (record_velocity ?k (entered ?m)) = Inr ()"
    using assms(4) by (simp_all add: can_hold_def)
  have pos: "0 \<le> dval held + dval x" and r7: "at_rest n (5 + 2) ?m" using ch assms(1,10) by simp_all
  have t: "check_text (or_else (lit ''call authorization'') (lit ''authorization hold'')) MAX_MEMO_BYTES False = None" by (rule call_texts)
  obtain m1 e where g: "authorize ?k (exact hold) (lit ''call authorization'') None ?m = (m1, Inr (authorization_for e))"
    "w_drawn (m_world m1) = w_drawn (m_world ?m) + 2" "at_rest n 5 m1" "map_of (s_holds (m_state m1)) (entry_id e) = Some e" "scope_id e = ?k"
    "named_scope m1 ?k" "m_unit m1 = m_unit ?m" "unit_amount (m_unit m1) (amount e)" "dval (amount e) = dval held" "roomy m1 ?k (dval held + dval x)"
    "\<And>j. dval (m_balance m1 j) = dval (m_balance ?m j) - (if j = ?k then dval held else 0)" "wrote n ?m [e] m1"
    by (rule granted [OF r7 ch(1-5) assms(11) pos ch(6) t]) (rule that; assumption)
  have pre: "named_scope m1 (scope_id e)" "cost (exact s) (m_unit m1) = Inr x" "roomy m1 (scope_id e) (dval (amount e) + dval x)"
    using g(5-7,9,10) assms(9) by simp_all
  from capture_run [OF g(3,4) pre(1) g(8) pre(2) assms(10) pre(3) call_texts(3)] obtain m3 e' l where
    c: "captured n (authorization_for e) x (lit ''settled call cost'') m1 e' m3" "w_drawn (m_world m3) \<le> w_drawn (m_world m1) + 5"
      "dval (balance_after e') = dval (m_balance m1 ?k) + dval held - dval x"
      "dval (balance_after e') < 0 \<longrightarrow> s_tripped (m_state m3) ?k \<noteq> None \<and> dval l = dval x + dval (balance_after e')"
      "capture (authorization_for e) (exact s) (lit ''settled call cost'') None m1
        = (m3, if dval (balance_after e') < 0 then Inl (DenialOfWalletError x l ?k True) else Inr e')"
    unfolding g(5,9) by blast
  have h2: "h_manager (f (h1\<lparr> h_manager := m1 \<rparr>)) = m1" using assms(6) by simp
  have obs: "h_manager h1 = ?m" using observe_cognitive_quiet [OF assms(2)] .
  have run: "invoke render i fn q h = (case if dval (balance_after e') < 0 then Inl (DenialOfWalletError x l ?k True) else Inr e' of
       Inl er \<Rightarrow> ((f (h1\<lparr> h_manager := m1 \<rparr>))\<lparr> h_manager := m3 \<rparr>, Inl er)
     | Inr e \<Rightarrow> (record_cognitive_result render i r ((f (h1\<lparr> h_manager := m1 \<rparr>))\<lparr> h_manager := m3 \<rparr>),
         Inr \<lparr> mt_response = r, mt_usage = u, mt_cost = c, mt_hold = hold, mt_scope_id = ?k, mt_model_id = model_id p, mt_entry = e \<rparr>))"
    using invoke_computed [OF assms(2,3), of m1 "authorization_for e" fn "f (h1\<lparr> h_manager := m1 \<rparr>)" r u c p s m3] g(1) assms(5,7,8) c(5) h2 obs by simp
  have rec: "h_manager (record_cognitive_result render i r g) = h_manager g" for g
    by (simp add: record_cognitive_result_def split: option.split)
  have bal: "dval (m_balance m3 j) = dval (m_balance ?m j) - (if j = ?k then dval x else 0)" for j
    using captured_money(1) [OF c(1), of j] g(5,9,11) by simp
  have after: "dval (m_balance m3 ?k) = dval (balance_after e')" using bal [of ?k] c(3) g(11) by simp
  have sp: "entry_type e' = SPEND" using c(1) by (auto simp: captured_def line_entry_def simp del: lit_Cons)
  show ?thesis
  proof (cases "dval (balance_after e') < 0")
    case True
    then show ?thesis using run bal after c(2,4) g(2)
      by (intro exI [of _ "(f (h1\<lparr> h_manager := m1 \<rparr>))\<lparr> h_manager := m3 \<rparr>"] exI [of _ "Inl (DenialOfWalletError x l ?k True)"]) simp
  next
    case False
    then show ?thesis using run bal after c(2) g(2) sp
      by (intro exI [of _ "record_cognitive_result render i r ((f (h1\<lparr> h_manager := m1 \<rparr>))\<lparr> h_manager := m3 \<rparr>)"]
          exI [of _ "Inr \<lparr> mt_response = r, mt_usage = u, mt_cost = c, mt_hold = hold, mt_scope_id = ?k, mt_model_id = model_id p, mt_entry = e' \<rparr>"])
        (simp add: rec)
  qed
qed

text \<open>C12: A call that ran is charged for, whatever it cost. If the scope cannot cover the price, the price is
  booked all the same and the breaker tripped, and the caller gets \<open>DenialOfWalletError\<close> in place of the answer;
  otherwise the caller gets the answer and the entry.\<close>

theorem ran_is_charged:
  assumes "at_rest n 7 (h_manager h)" "observe_cognitive i q h = (h1, Inr ())" "size_hold i q = Inr hold" "can_hold (i_scope_id i) hold held (h_manager h)"
    and "\<And>g. fn g = (f g, Inr r)" "\<And>g. h_manager (f g) = h_manager g" "price_response i r = Inr (u, c, p)" "money (exact c) = Inr s"
    and "cost (exact s) (m_unit (h_manager h)) = Inr x" "0 < dval x"
    and "roomy (h_manager h) (i_scope_id i) (2 * dval held + (dval held + dval x))"
  shows "\<exists>h' res. invoke render i fn q h = (h', res)
    \<and> (\<forall>j. dval (m_balance (h_manager h') j) = dval (m_balance (h_manager h) j) - (if j = i_scope_id i then dval x else 0))
    \<and> (if dval (m_balance (h_manager h') (i_scope_id i)) < 0
       then s_tripped (m_state (h_manager h')) (i_scope_id i) \<noteq> None \<and> (\<exists>l. res = Inl (DenialOfWalletError x l (i_scope_id i) True))
       else \<exists>mc. res = Inr mc \<and> mt_response mc = r \<and> mt_cost mc = c \<and> mt_hold mc = hold \<and> entry_type (mt_entry mc) = SPEND)"
  using charged_run [OF assms, of render] by blast

text \<open>C36: A call judged to be thrashing never runs: whatever function was passed, the outcome is the same verdict, no
  balance changes, and the scope is halted.\<close>

theorem thrashing_call_never_runs:
  assumes "h_breaker h = Some k" "h_linked h" "snd (observe_call k (i_scope_id i) (mc_tool q) (mc_arguments q) (or_key (i_trajectory i) (i_scope_id i))) = Some v"
    and "at_rest n 2 (h_manager h)" "named_scope (h_manager h) (i_scope_id i)" "roomy (h_manager h) (i_scope_id i) 0"
    and "check_text (halt_reason v) MAX_MEMO_BYTES False = None"
  shows "\<exists>h'. (\<forall>fn. invoke render i fn q h = (h', Inl (AgentThrashingError (i_scope_id i) (or_key (i_trajectory i) (i_scope_id i)) (z_detector v)
        (z_reason v) (z_observations v) (z_confidence v) (z_tier v))))
    \<and> (\<forall>j. dval (m_balance (h_manager h') j) = dval (m_balance (h_manager h) j)) \<and> s_tripped (m_state (h_manager h')) (i_scope_id i) \<noteq> None"
proof -
  from thrashing_halts [OF assms(3-7)] obtain k' m' where o: "observe (i_scope_id i) (mc_tool q) (mc_arguments q) (i_trajectory i) (k, Some (h_manager h))
      = ((k', Some m'), Inl (AgentThrashingError (i_scope_id i) (or_key (i_trajectory i) (i_scope_id i)) (z_detector v) (z_reason v) (z_observations v) (z_confidence v) (z_tier v)))"
    "s_tripped (m_state m') (i_scope_id i) \<noteq> None" "\<forall>j. dval (m_balance m' j) = dval (m_balance (h_manager h) j)" by blast
  show ?thesis using o assms(1,2) by (intro exI [of _ "h\<lparr> h_breaker := Some k', h_manager := m' \<rparr>"]) (simp add: invoke_def observe_cognitive_def)
qed

section \<open>The size of a hold\<close>

lemma buffered_fits:
  assumes "0 \<le> dval est" "dval est < 10 ^ 29" "expo est = - 8" "1 \<le> dval b" "dval b \<le> 1000" "- 4 \<le> expo b" "expo b \<le> 0"
  shows "\<exists>c. quantize_up (ctx_mul est b) = Inr c \<and> expo c = - 8 \<and> dval est \<le> dval c"
proof -
  let ?d = "Dec (coeff est * coeff b) (expo est + expo b)"
  have v: "dval ?d = dval est * dval b" by (simp add: dval_def power_int_add)
  have up: "dval est * dval b \<le> 10 ^ 29 * 1000" using assms by (intro mult_mono) simp_all
  have pos: "0 \<le> dval est * dval b" "dval est * 1 \<le> dval est * dval b" using assms by (simp, intro mult_left_mono) simp_all
  have "rounding_fix ?d = ?d" using assms(3,6) v up pos by (intro rounding_fits) simp_all
  then have m: "dval (ctx_mul est b) = dval est * dval b" using v by (simp add: ctx_mul_def)
  then obtain c where "quantize_up (ctx_mul est b) = Inr c" "expo c = - 8" "dval (ctx_mul est b) \<le> dval c"
    using quantize_up_fits [of "ctx_mul est b"] up pos by auto
  then show ?thesis using m pos(2) by auto
qed

text \<open>The hold sized for a call whose text is found covers both the static ceiling and any answer that keeps within
  the tokens estimated for it and the output asked for, with or without the buffer.\<close>

theorem size_hold_covers:
  assumes "i_hold i = None" "i_dynamic_holds i" "extract_prompt_text (mc_args q) (mc_kwargs q) = t" "t \<noteq> []"
    and "pricing_ok (i_pricing i)" "1 \<le> dval (i_safety_buffer i)" "dval (i_safety_buffer i) \<le> 1000" "- 4 \<le> expo (i_safety_buffer i)" "expo (i_safety_buffer i) \<le> 0"
    and "mx = (case mc_max_tokens q of Some k \<Rightarrow> if 0 < k then k else i_max_output_tokens i | None \<Rightarrow> i_max_output_tokens i)"
    and "0 \<le> mx" "mx < 10 ^ 12" "estimate_tokens t < 10 ^ 12" "hold_amount i = Inr least"
  shows "\<exists>x. size_hold i q = Inr x \<and> dval least \<le> dval x
    \<and> (\<forall>u c. usage_ok u \<and> input_tokens u \<le> estimate_tokens t \<and> output_tokens u \<le> mx \<and> cache_read_input_tokens u = 0 \<and> cache_creation_input_tokens u = 0
         \<and> cost_of (i_pricing i) u = Inr c \<longrightarrow> dval c \<le> dval x)"
proof -
  let ?w = "\<lparr> input_tokens = estimate_tokens t, output_tokens = mx, cache_read_input_tokens = 0, cache_creation_input_tokens = 0 \<rparr>"
  have e: "0 \<le> estimate_tokens t" by (simp add: estimate_tokens_def)
  have w: "mk_usage (estimate_tokens t) mx 0 0 = Inr ?w" using e assms(11) by (simp add: mk_usage_Inr)
  have ok: "usage_ok ?w" using e assms(11-13) by (simp add: usage_ok_def usage_counts_def)
  from cost_of_facts [OF assms(5) ok] obtain est where est: "cost_of (i_pricing i) ?w = Inr est" "expo est = - 8" "0 \<le> dval est" "dval est < 10 ^ 29" by blast
  from buffered_fits [OF est(3,4,2) assms(6-9)] obtain b where b: "quantize_up (ctx_mul est (i_safety_buffer i)) = Inr b" "dval est \<le> dval b" by blast
  have size: "size_hold i q = Inr (if dec_lt b least then least else b)"
    using assms(1-4,14) w est(1) b(1) unfolding size_hold_def assms(10) [symmetric] Let_def by simp
  have "dval c \<le> dval est" if "usage_ok u" "input_tokens u \<le> estimate_tokens t" "output_tokens u \<le> mx" "cache_read_input_tokens u = 0"
      "cache_creation_input_tokens u = 0" "cost_of (i_pricing i) u = Inr c" for u c
    using that est(1) by (intro cost_of_mono [OF assms(5) that(1) ok]) (simp_all add: usage_counts_def)
  then show ?thesis using size b(2) by (force simp: dec_lt_iff)
qed

section \<open>Copies\<close>

text \<open>C40: A copy of an interceptor forgets that its rates were looked up. The original settles a response at the rates of
  the model that served it; a copy bound to another scope, which is how a sub-agent gets its client, settles the
  same response at the rates of the model that was asked for.\<close>

theorem copy_ignores_served_model:
  assumes "\<not> i_pricing_is_explicit i" "attr r ''model'' = Some (R_Str served)" "strip served \<noteq> []" "pricing_for served = Inr p" "for_scope i k = Inr c"
  shows "pricing_for_response i r = p \<and> pricing_for_response c r = i_pricing i"
  using assms by (auto simp: pricing_for_response_def for_scope_def clone_def new_interceptor_def split: if_splits)

section \<open>Tried out\<close>

definition haiku :: model_pricing where
  "haiku = rates ''claude-haiku-4-5'' (Dec 100 (- 2)) (Dec 500 (- 2)) None"

definition sample_client :: interceptor where
  "sample_client = \<lparr> i_scope_id = lit ''root'', i_pricing = haiku, i_pricing_is_explicit = True, i_max_output_tokens = 10,
     i_estimated_input_tokens = 0, i_extract_usage = default_usage_extractor, i_hold = Some (Dec 100000000 (- 8)), i_trajectory = None,
     i_safety_buffer = Dec 15 (- 1), i_dynamic_holds = True \<rparr>"

definition sample_call_args :: model_call where
  "sample_call_args = \<lparr> mc_tool = [65], mc_args = [A_Str (lit ''hello'')], mc_kwargs = [], mc_max_tokens = None, mc_arguments = [] \<rparr>"

definition sample_usage :: "int \<Rightarrow> token_usage" where
  "sample_usage k = \<lparr> input_tokens = 0, output_tokens = k, cache_read_input_tokens = 0, cache_creation_input_tokens = 0 \<rparr>"

definition sample_host :: "breaker option \<Rightarrow> manager \<Rightarrow> host" where
  "sample_host b m = \<lparr> h_breaker = b, h_linked = True, h_manager = m \<rparr>"

lemma haiku_ok: "pricing_for (lit ''claude-haiku-4-5'') = Inr haiku" "pricing_ok haiku"
proof -
  show "pricing_for (lit ''claude-haiku-4-5'') = Inr haiku" by (simp add: pricing_for_def PRICING_def rates_def haiku_def)
  then show "pricing_ok haiku" by (rule published_ok)
qed

lemma sample_cost_of:
  assumes "0 \<le> k" "k < 10 ^ 12"
  shows "cost_of haiku (sample_usage k) = Inr (Dec (500 * k) (- 8))"
proof -
  have u: "usage_ok (sample_usage k)" using assms by (simp add: usage_ok_def usage_counts_def sample_usage_def)
  have pr: "price haiku (sample_usage k) = of_int (500 * k) * 10 powi - 8"
    by (simp add: price_def haiku_def rates_def sample_usage_def dval_def power_int_minus)
  obtain c where c: "cost_of haiku (sample_usage k) = Inr c" "expo c = - 8" "price haiku (sample_usage k) \<le> dval c"
    "dval c < price haiku (sample_usage k) + 10 powi - 8" using haiku_ok(2) u by (rule cost_of_facts)
  have v: "dval c = of_int (coeff c) * 10 powi - 8" unfolding dval_def c(2) ..
  have "of_int (500 * k) * (10 :: rat) powi - 8 \<le> of_int (coeff c) * 10 powi - 8" "of_int (coeff c) * (10 :: rat) powi - 8 < (of_int (500 * k) + 1) * 10 powi - 8"
    using c(3,4) unfolding v pr by (simp_all add: distrib_right)
  then have "(of_int (500 * k) :: rat) \<le> of_int (coeff c)" "(of_int (coeff c) :: rat) < of_int (500 * k + 1)" by simp_all
  then have "coeff c = 500 * k" unfolding of_int_le_iff of_int_less_iff by simp
  then show ?thesis using c(1,2) by (cases c) simp
qed

lemma sample_prices:
  "price_response sample_client (R_Usage (sample_usage 1000)) = Inr (sample_usage 1000, Dec 500000 (- 8), haiku)"
  "price_response sample_client (R_Usage (sample_usage 400000)) = Inr (sample_usage 400000, Dec 200000000 (- 8), haiku)"
  using sample_cost_of [of 1000] sample_cost_of [of 400000]
  by (simp_all add: price_response_def sample_client_def default_usage_extractor_def pricing_for_response_def)

lemma sample_can_hold:
  assumes "sample_opened m"
  shows "can_hold (i_scope_id sample_client) (Dec 100000000 (- 8)) (Dec 100000000 (- 8)) m"
  using sample_grants [OF assms refl refl refl] sample_cost(2) grid_cost(2) [of "Dec 100000000 (- 8)"]
  by (simp add: can_hold_def sample_client_def del: lit_Cons)

lemma sample_size: "size_hold sample_client q = Inr (Dec 100000000 (- 8))" "observe_cognitive i q (sample_host None m) = (sample_host None m, Inr ())"
  "i_scope_id sample_client = lit ''root''" "h_manager (sample_host b m) = m"
  by (simp_all add: size_hold_def sample_client_def observe_cognitive_def sample_host_def del: lit_Cons)

theorem failed_call_refunded_witness:
  "\<exists>m h'. sample_root sample_manager = (m, Inr ()) \<and> invoke (\<lambda>_. []) sample_client (\<lambda>g. (g, Inr (R_Map []))) sample_call_args (sample_host None m)
       = (h', Inl (TypeError ''cannot extract token usage''))
     \<and> dval (m_balance (h_manager h') (lit ''root'')) = dval (m_balance m (lit ''root''))"
proof -
  obtain m where m: "sample_root sample_manager = (m, Inr ())" "sample_opened m" using sample_open by blast
  note r = sample_grants [OF m(2) refl refl refl]
  have rest: "at_rest 9 4 (h_manager (sample_host None m))" using r(1) at_rest_less by (fastforce simp: sample_size)
  have bad: "price_response sample_client (R_Map []) = Inl (TypeError ''cannot extract token usage'')"
    by (simp add: price_response_def sample_client_def default_usage_extractor_def usage_part_def USAGE_FIELDS_def read_count_def rbind_def)
  have room: "roomy (h_manager (sample_host None m)) (i_scope_id sample_client) (3 * dval (Dec 100000000 (- 8)))"
    using r(6) [of 3] sample_cost(2) by (simp add: sample_size del: lit_Cons)
  have can: "can_hold (i_scope_id sample_client) (Dec 100000000 (- 8)) (Dec 100000000 (- 8)) (h_manager (sample_host None m))"
    using sample_can_hold [OF m(2)] by (simp add: sample_size)
  from failed_call_refunded [OF rest sample_size(2) sample_size(1) can room, of "\<lambda>g. (g, Inr (R_Map []))" id "TypeError ''cannot extract token usage''"
      "\<lambda>_. []"] bad m(1)
  show ?thesis by (simp add: sample_size del: lit_Cons) blast
qed

lemma sample_host_ready:
  assumes "sample_opened m"
  shows "at_rest 9 7 (h_manager (sample_host None m))" "m_unit (h_manager (sample_host None m)) = USD"
    "can_hold (i_scope_id sample_client) (Dec 100000000 (- 8)) (Dec 100000000 (- 8)) (h_manager (sample_host None m))"
    "b \<le> 10 \<Longrightarrow> roomy (h_manager (sample_host None m)) (i_scope_id sample_client) (2 * dval (Dec 100000000 (- 8)) + (dval (Dec 100000000 (- 8)) + b))"
    "dval (m_balance (h_manager (sample_host None m)) (lit ''root'')) = 1"
  using sample_grants [OF assms refl refl refl] sample_can_hold [OF assms] sample_cost(2) by (simp_all add: sample_size del: lit_Cons)

theorem ran_is_charged_witness:
  "\<exists>m h' l. invoke (\<lambda>_. []) sample_client (\<lambda>g. (g, Inr (R_Usage (sample_usage 400000)))) sample_call_args (sample_host None m)
       = (h', Inl (DenialOfWalletError (Dec 200000000 (- 8)) l (lit ''root'') True))
     \<and> dval (m_balance (h_manager h') (lit ''root'')) = - 1"
proof -
  obtain m where m: "sample_opened m" using sample_open by blast
  note r = sample_host_ready [OF m]
  have two: "dval (Dec 200000000 (- 8)) = 2" by (simp add: dval_def)
  note x = grid_cost [of "Dec 200000000 (- 8)"]
  have c: "money (exact (Dec 200000000 (- 8))) = Inr (Dec 200000000 (- 8))"
    "cost (exact (Dec 200000000 (- 8))) (m_unit (h_manager (sample_host None m))) = Inr (Dec 200000000 (- 8))" "0 < dval (Dec 200000000 (- 8))"
    unfolding r(2) using x two by simp_all
  have "dval (Dec 200000000 (- 8)) \<le> 10" using two by simp
  from ran_is_charged [OF r(1) sample_size(2) sample_size(1) r(3) _ _ sample_prices(2) c r(4) [OF this], of "\<lambda>g. (g, Inr (R_Usage (sample_usage 400000)))" id "\<lambda>_. []" sample_call_args]
  obtain h' res where run: "invoke (\<lambda>_. []) sample_client (\<lambda>g. (g, Inr (R_Usage (sample_usage 400000)))) sample_call_args (sample_host None m) = (h', res)"
    "\<forall>j. dval (m_balance (h_manager h') j) = dval (m_balance m j) - (if j = lit ''root'' then dval (Dec 200000000 (- 8)) else 0)"
    "dval (m_balance (h_manager h') (lit ''root'')) < 0 \<Longrightarrow> \<exists>l. res = Inl (DenialOfWalletError (Dec 200000000 (- 8)) l (lit ''root'') True)"
    unfolding sample_size(3,4) by (auto simp del: lit_Cons)
  have "dval (m_balance (h_manager h') (lit ''root'')) = - 1" using run(2) r(5) two by (simp add: sample_size del: lit_Cons)
  then show ?thesis using run(1,3) by (simp del: lit_Cons) blast
qed

theorem invoke_settles_witness:
  "\<exists>m h' mc. m_unit m = USD \<and> invoke (\<lambda>_. []) sample_client (\<lambda>g. (g, Inr (R_Usage (sample_usage 1000)))) sample_call_args (sample_host None m) = (h', Inr mc)
     \<and> dval (mt_cost mc) = 1 / 200 \<and> dval (m_balance (h_manager h') (lit ''root'')) = dval (m_balance m (lit ''root'')) - 1 / 200"
proof -
  obtain m where m: "sample_opened m" using sample_open by blast
  note r = sample_host_ready [OF m]
  have v: "dval (Dec 500000 (- 8)) = 1 / 200" by (simp add: dval_def power_int_minus)
  note x = grid_cost [of "Dec 500000 (- 8)"]
  have c: "money (exact (Dec 500000 (- 8))) = Inr (Dec 500000 (- 8))"
    "cost (exact (Dec 500000 (- 8))) (m_unit (h_manager (sample_host None m))) = Inr (Dec 500000 (- 8))" "0 < dval (Dec 500000 (- 8))"
    unfolding r(2) using x v by simp_all
  have "dval (Dec 500000 (- 8)) \<le> 10" using v by simp
  from charged_run [OF r(1) sample_size(2) sample_size(1) r(3) _ _ sample_prices(1) c r(4) [OF this], of "\<lambda>g. (g, Inr (R_Usage (sample_usage 1000)))" id "\<lambda>_. []" sample_call_args]
  obtain h' mc where run: "invoke (\<lambda>_. []) sample_client (\<lambda>g. (g, Inr (R_Usage (sample_usage 1000)))) sample_call_args (sample_host None m) = (h', Inr mc)"
    "mt_cost mc = Dec 500000 (- 8)" "w_drawn (m_world (h_manager h')) \<le> w_drawn (m_world m) + 7"
    using r(5) v by (auto simp: sample_size simp del: lit_Cons split: if_splits)
  have d: "w_drawn (m_world (h_manager h')) \<le> 9" using run(3) m by (simp add: sample_opened_def)
  have i: "gov_inv 9 (h_manager (sample_host None m))" using m by (simp add: gov_inv_def sample_opened_def sample_size)
  have same: "\<exists>ss. h_manager (fst (g :: host, Inr (R_Usage (sample_usage 1000)) :: response res)) = serves (h_manager g) ss" for g
    by (intro exI [of _ "[]"]) (simp add: serves_def)
  from invoke_settles [OF i r(2) same run(1) d] obtain g1 g2 :: host where "(g1, Inr (R_Usage (sample_usage 1000))) = (g2, Inr (mt_response mc) :: response res)"
    "\<forall>j. dval (m_balance (h_manager h') j) = dval (m_balance (h_manager (sample_host None m)) j) + (dval (m_balance (h_manager g2) j) - dval (m_balance (h_manager g1) j))
         - (if j = i_scope_id sample_client then dval (mt_cost mc) else 0)" by blast
  then have "dval (m_balance (h_manager h') (lit ''root'')) = dval (m_balance m (lit ''root'')) - 1 / 200" using run(2) v by (simp add: sample_size del: lit_Cons)
  moreover have "m_unit m = USD" using r(2) by (simp add: sample_size)
  ultimately show ?thesis using run(1,2) v by metis
qed

theorem thrashing_call_never_runs_witness:
  "\<exists>m h' e. sample_root sample_manager = (m, Inr ()) \<and> (\<forall>fn. invoke (\<lambda>_. []) sample_client fn sample_call_args (sample_host (Some sample_latched) m) = (h', Inl e))
     \<and> s_tripped (m_state (h_manager h')) (lit ''root'') \<noteq> None"
proof -
  obtain m where m: "sample_root sample_manager = (m, Inr ())" "sample_opened m" using sample_open by blast
  note r = sample_grants [OF m(2) refl refl refl]
  have rest: "at_rest 9 2 (h_manager (sample_host (Some sample_latched) m))" using r(1) at_rest_less by (fastforce simp: sample_size)
  have t: "check_text (halt_reason sample_verdict) MAX_MEMO_BYTES False = None"
    by (simp add: halt_reason_def sample_verdict_def check_text_def MAX_MEMO_BYTES_def is_control_def)
  have "[65] \<notin> w_exempt_tools (k_policy sample_latched)" by (simp add: sample_latched_ok default_cognitive_policy_def)
  from latched_observe [OF sample_latched_ok(2) this] have v: "snd (observe_call sample_latched (i_scope_id sample_client) (mc_tool sample_call_args)
      (mc_arguments sample_call_args) (or_key (i_trajectory sample_client) (i_scope_id sample_client))) = Some sample_verdict"
    by (simp add: or_key_def sample_size sample_call_args_def sample_client_def del: lit_Cons)
  have h: "h_breaker (sample_host (Some sample_latched) m) = Some sample_latched" "h_linked (sample_host (Some sample_latched) m)"
    by (simp_all add: sample_host_def)
  from thrashing_call_never_runs [OF h v rest _ _ t, of "\<lambda>_. []"] r(2) r(6) [of 0] m(1) show ?thesis
    by (simp add: sample_size del: lit_Cons) blast
qed

theorem size_hold_covers_witness:
  "\<exists>x. size_hold (sample_client\<lparr> i_hold := None \<rparr>) sample_call_args = Inr x
     \<and> (\<forall>c. cost_of haiku (sample_usage 10) = Inr c \<longrightarrow> dval c \<le> dval x)"
proof -
  let ?i = "sample_client\<lparr> i_hold := None \<rparr>"
  have p: "i_pricing ?i = haiku" by (simp add: sample_client_def)
  have least: "hold_amount ?i = Inr (Dec 5000 (- 8))"
    using sample_cost_of [of 10] by (simp add: hold_amount_def sample_client_def estimate_def mk_usage_def sample_usage_def)
  have t: "extract_prompt_text (mc_args sample_call_args) (mc_kwargs sample_call_args) = lit ''hello''"
    by (simp add: extract_prompt_text_def sample_call_args_def TEXT_KEYS_def)
  have q: "usage_ok (sample_usage 10)" by (simp add: usage_ok_def usage_counts_def sample_usage_def)
  have f: "i_hold ?i = None" "i_dynamic_holds ?i" "lit ''hello'' \<noteq> []" "pricing_ok (i_pricing ?i)" "1 \<le> dval (i_safety_buffer ?i)"
    "dval (i_safety_buffer ?i) \<le> 1000" "- 4 \<le> expo (i_safety_buffer ?i)" "expo (i_safety_buffer ?i) \<le> 0"
    "10 = (case mc_max_tokens sample_call_args of Some k \<Rightarrow> if 0 < k then k else i_max_output_tokens ?i | None \<Rightarrow> i_max_output_tokens ?i)"
    unfolding p using haiku_ok(2) by (simp_all add: sample_client_def sample_call_args_def dval_def power_int_minus)
  have n: "(0 :: int) \<le> 10" "(10 :: int) < 10 ^ 12" "estimate_tokens (lit ''hello'') < 10 ^ 12" by (simp_all add: estimate_tokens_def CHARS_PER_TOKEN_def)
  from size_hold_covers [OF f(1,2) t f(3-9) n least] obtain x where x: "size_hold ?i sample_call_args = Inr x"
    "\<forall>u c. usage_ok u \<and> input_tokens u \<le> estimate_tokens (lit ''hello'') \<and> output_tokens u \<le> 10 \<and> cache_read_input_tokens u = 0
       \<and> cache_creation_input_tokens u = 0 \<and> cost_of haiku u = Inr c \<longrightarrow> dval c \<le> dval x" unfolding p by blast
  have "input_tokens (sample_usage 10) \<le> estimate_tokens (lit ''hello'')" "output_tokens (sample_usage 10) \<le> 10"
    "cache_read_input_tokens (sample_usage 10) = 0" "cache_creation_input_tokens (sample_usage 10) = 0" by (simp_all add: sample_usage_def estimate_tokens_def)
  then show ?thesis using x q by blast
qed

theorem copy_ignores_served_model_witness:
  "\<exists>i c. new_interceptor (lit ''root'') (lit ''claude-opus-5'') None 4096 2000 default_usage_extractor None None (Dec 15 (- 1)) True = Inr i
     \<and> for_scope i (lit ''worker'') = Inr c
     \<and> model_id (pricing_for_response i (R_Obj [(''model'', R_Str (lit ''claude-haiku-4-5''))])) = lit ''claude-haiku-4-5''
     \<and> model_id (pricing_for_response c (R_Obj [(''model'', R_Str (lit ''claude-haiku-4-5''))])) = lit ''claude-opus-5''"
proof -
  have opus: "\<exists>p. pricing_for (lit ''claude-opus-5'') = Inr p \<and> model_id p = lit ''claude-opus-5''"
    by (simp add: pricing_for_def PRICING_def rates_def)
  then obtain p where p: "pricing_for (lit ''claude-opus-5'') = Inr p" "model_id p = lit ''claude-opus-5''" by blast
  have b: "\<not> dec_lt (Dec 15 (- 1)) (Dec 1 0)" by (simp add: dec_lt_iff dval_def power_int_minus)
  obtain i where i: "new_interceptor (lit ''root'') (lit ''claude-opus-5'') None 4096 2000 default_usage_extractor None None (Dec 15 (- 1)) True = Inr i"
    "\<not> i_pricing_is_explicit i" "i_pricing i = p" "i_safety_buffer i = Dec 15 (- 1)" "i_max_output_tokens i = 4096" "i_estimated_input_tokens i = 2000"
    using p(1) b by (simp add: new_interceptor_def del: lit_Cons)
  obtain c where c: "for_scope i (lit ''worker'') = Inr c"
    using i b by (simp add: for_scope_def clone_def new_interceptor_def del: lit_Cons)
  have s: "strip (lit ''claude-haiku-4-5'') \<noteq> []" by (simp add: strip_def is_space_def)
  have a: "attr (R_Obj [(''model'', R_Str (lit ''claude-haiku-4-5''))]) ''model'' = Some (R_Str (lit ''claude-haiku-4-5''))" by (simp add: attr_def del: lit_Cons)
  have "model_id haiku = lit ''claude-haiku-4-5''" by (simp add: haiku_def rates_def)
  with copy_ignores_served_model [OF i(2) a s haiku_ok(1) c] i(1,3) c p(2) show ?thesis by metis
qed

end
