(* ===== verification/Streaming.thy ===== *)
theory Streaming
  imports Interceptor
begin

text \<open>
  Metered streams (\<open>streaming.py\<close>: \<open>_StreamCore\<close>, \<open>MeteredStream\<close>, \<open>AsyncMeteredStream\<close>;
  \<open>Interceptor.stream\<close>). A field \<open>_x\<close> of the core is \<open>st_x\<close>; the governor and the breaker it works with are
  the host of the call. The provider is an argument: what opening its stream does, the events it has,
  its final message, what closing it does, each of which may do anything to the host. The block of a
  \<open>with\<close> statement is the list of what it does with the stream. The finalizer's warning is left out.
\<close>

section \<open>The core\<close>

definition MAX_RESULT_CHARS :: nat where "MAX_RESULT_CHARS = 65536"

text \<open>\<open>st_call\<close>: the name and the rendered arguments of a \<open>BoundCall\<close>.\<close>

record stream_core =
  st_scope_id :: scope_id
  st_hold :: decimal
  st_pricing :: model_pricing
  st_extract :: "response \<Rightarrow> token_usage res"
  st_memo :: ustr
  st_trajectory :: "ustr option"
  st_call :: "(ustr \<times> ustr) option"
  st_auth :: "authorization option"
  st_entry :: "ledger_entry option"
  st_usage :: token_usage
  st_settled :: "decimal option"
  st_resolved :: bool
  st_final :: response
  st_text :: "ustr list"
  st_text_chars :: nat
  st_chunks :: nat

definition new_stream :: "scope_id \<Rightarrow> decimal \<Rightarrow> model_pricing \<Rightarrow> (response \<Rightarrow> token_usage res) \<Rightarrow> ustr \<Rightarrow> ustr option
    \<Rightarrow> (ustr \<times> ustr) option \<Rightarrow> stream_core" where
  "new_stream scope hold p extract why tr call = \<lparr> st_scope_id = scope, st_hold = hold, st_pricing = p, st_extract = extract,
     st_memo = or_else why (lit ''settled streamed call''), st_trajectory = tr, st_call = call, st_auth = None, st_entry = None,
     st_usage = no_usage, st_settled = None, st_resolved = False, st_final = R_None, st_text = [], st_text_chars = 0, st_chunks = 0 \<rparr>"

definition stream :: "interceptor \<Rightarrow> model_call \<Rightarrow> stream_core res" where
  "stream i q = rbind (size_hold i q) (\<lambda>hold.
     Inr (new_stream (i_scope_id i) hold (i_pricing i) (i_extract_usage i) [] (i_trajectory i) (Some (mc_tool q, mc_arguments q))))"

text \<open>Of the exceptions modelled, these are what \<open>except (TypeError, AttributeError, KeyError, ValueError)\<close> names.\<close>

definition unreadable :: "exn \<Rightarrow> bool" where
  "unreadable x \<longleftrightarrow> (case x of TypeError _ \<Rightarrow> True | KeyError \<Rightarrow> True | ValueError _ \<Rightarrow> True | _ \<Rightarrow> False)"

definition try_usage :: "(response \<Rightarrow> token_usage res) \<Rightarrow> response \<Rightarrow> token_usage option res" where
  "try_usage extract r = (case extract r of Inr u \<Rightarrow> Inr (Some u) | Inl e \<Rightarrow> if unreadable e then Inr None else Inl e)"

definition field_of :: "response \<Rightarrow> string \<Rightarrow> response option" where
  "field_of r name = (case r of R_Map kvs \<Rightarrow> map_of kvs name | _ \<Rightarrow> attr r name)"

definition delta_text :: "response \<Rightarrow> ustr option" where
  "delta_text r = (case field_of r ''delta'' of None \<Rightarrow> None
     | Some d \<Rightarrow> (case field_of d ''text'' of Some (R_Str t) \<Rightarrow> Some t | _ \<Rightarrow> None))"

definition record_usage :: "token_usage \<Rightarrow> stream_core \<Rightarrow> stream_core" where
  "record_usage u s = s\<lparr> st_usage := merged_usage (st_usage s) u \<rparr>"

definition merge_found :: "token_usage option \<Rightarrow> stream_core \<Rightarrow> stream_core" where
  "merge_found found s = (case found of None \<Rightarrow> s | Some u \<Rightarrow> record_usage u s)"

text \<open>\<open>watched\<close>: a cognitive breaker is attached.\<close>

definition absorb :: "bool \<Rightarrow> response \<Rightarrow> stream_core \<Rightarrow> stream_core \<times> unit res" where
  "absorb watched chunk s =
     (let s1 = s\<lparr> st_chunks := st_chunks s + 1 \<rparr> in
      case try_usage (st_extract s) chunk of Inl e \<Rightarrow> (s1, Inl e)
      | Inr found \<Rightarrow> (let s2 = merge_found found s1 in
          (if watched \<and> st_text_chars s2 < MAX_RESULT_CHARS then
             (case delta_text chunk of None \<Rightarrow> s2
              | Some t \<Rightarrow> if t = [] then s2 else s2\<lparr> st_text := st_text s2 @ [t], st_text_chars := st_text_chars s2 + length t \<rparr>)
           else s2, Inr ())))"

text \<open>\<open>except Exception\<close> lets a cancellation through.\<close>

definition absorb_final :: "(host \<Rightarrow> host \<times> response res) option \<Rightarrow> stream_core \<Rightarrow> host \<Rightarrow> (stream_core \<times> host) \<times> unit res" where
  "absorb_final getter s h = (case getter of None \<Rightarrow> ((s, h), Inr ())
     | Some get \<Rightarrow> (case get h of
         (h', Inl e) \<Rightarrow> ((s, h'), if e = CancelledError then Inl e else Inr ())
       | (h', Inr final) \<Rightarrow> (let s1 = s\<lparr> st_final := final \<rparr> in
           case try_usage (st_extract s) final of Inl e \<Rightarrow> ((s1, h'), Inl e) | Inr found \<Rightarrow> ((merge_found found s1, h'), Inr ()))))"

definition stream_observe :: "stream_core \<Rightarrow> host \<Rightarrow> host \<times> unit res" where
  "stream_observe s h = (case h_breaker h of None \<Rightarrow> (h, Inr ())
     | Some k \<Rightarrow> (let kg = (k, if h_linked h then Some (h_manager h) else None) in
         case (case st_call s of Some (tool, args) \<Rightarrow> observe (st_scope_id s) tool args (st_trajectory s) kg
               | None \<Rightarrow> check (st_scope_id s) (st_trajectory s) kg) of
           ((k', g), r) \<Rightarrow> (h\<lparr> h_breaker := Some k', h_manager := (case g of Some m \<Rightarrow> m | None \<Rightarrow> h_manager h) \<rparr>, r)))"

definition stream_authorize :: "stream_core \<Rightarrow> host \<Rightarrow> (stream_core \<times> host) \<times> unit res" where
  "stream_authorize s h = (case stream_observe s h of (h1, Inl e) \<Rightarrow> ((s, h1), Inl e)
     | (h1, Inr _) \<Rightarrow> (case on_manager (authorize (st_scope_id s) (exact (st_hold s)) (lit ''streamed call authorization'') None) h1 of
         (h2, Inl e) \<Rightarrow> ((s, h2), Inl e) | (h2, Inr a) \<Rightarrow> ((s\<lparr> st_auth := Some a \<rparr>, h2), Inr ())))"

definition stream_result :: "stream_core \<Rightarrow> response" where
  "stream_result s = (if st_final s \<noteq> R_None then st_final s else R_Str (concat (st_text s)))"

definition stream_record_result :: "(response \<Rightarrow> ustr) \<Rightarrow> stream_core \<Rightarrow> host \<Rightarrow> host" where
  "stream_record_result render s h = (case (h_breaker h, st_call s) of
       (Some k, Some _) \<Rightarrow> let r = stream_result s in if r = R_Str [] then h
         else h\<lparr> h_breaker := Some (record_result k (or_key (st_trajectory s) (st_scope_id s)) (answer_of r) (render r)) \<rparr>
     | _ \<Rightarrow> h)"

definition resolve :: "(response \<Rightarrow> ustr) \<Rightarrow> stream_core \<Rightarrow> host \<Rightarrow> (stream_core \<times> host) \<times> unit res" where
  "resolve render s h = (case st_auth s of None \<Rightarrow> ((s, h), Inr ())
     | Some a \<Rightarrow> if st_resolved s then ((s, h), Inr ())
       else let s1 = s\<lparr> st_resolved := True \<rparr>; h1 = stream_record_result render s h in
         case cost_of (st_pricing s) (st_usage s) of Inl e \<Rightarrow> ((s1, h1), Inl e)
         | Inr c \<Rightarrow>
             if dec_le c ZERO then
               (case on_manager (void a (lit ''stream produced no billable usage'') None) h1 of
                  (h2, Inl e) \<Rightarrow> ((s1, h2), Inl e) | (h2, Inr _) \<Rightarrow> ((s1\<lparr> st_settled := Some (Dec 0 0) \<rparr>, h2), Inr ()))
             else
               (let s2 = s1\<lparr> st_settled := Some c \<rparr> in
                case on_manager (capture a (exact c) (st_memo s) None) h1 of
                  (h2, Inl e) \<Rightarrow> ((s2, h2), Inl e) | (h2, Inr e) \<Rightarrow> ((s2\<lparr> st_entry := Some e \<rparr>, h2), Inr ())))"

section \<open>The context manager\<close>

text \<open>\<open>pv_open\<close>: the call, its \<open>__enter__\<close> where it has one, and \<open>iter\<close>; \<open>pv_close\<close>: \<open>__exit__\<close>, where it has one.\<close>

record provider =
  pv_open :: "host \<Rightarrow> host \<times> unit res"
  pv_events :: "(host \<Rightarrow> host \<times> response res) list"
  pv_final :: "(host \<Rightarrow> host \<times> response res) option"
  pv_close :: "host \<Rightarrow> host \<times> unit res"

record metered_stream =
  ms_core :: stream_core
  ms_source :: "(host \<Rightarrow> host \<times> response res) list option"

definition new_metered :: "stream_core \<Rightarrow> metered_stream" where
  "new_metered s = \<lparr> ms_core = s, ms_source = None \<rparr>"

type_synonym streaming = "metered_stream \<times> host"

definition on_core :: "metered_stream \<Rightarrow> (stream_core \<times> host) \<times> unit res \<Rightarrow> streaming \<times> unit res" where
  "on_core ms x = (case x of ((s, h), r) \<Rightarrow> ((ms\<lparr> ms_core := s \<rparr>, h), r))"

text \<open>Leaving with an outcome: the hold is resolved first, and what that raises replaces the outcome.\<close>

definition leaving :: "(response \<Rightarrow> ustr) \<Rightarrow> unit res \<Rightarrow> streaming \<Rightarrow> streaming \<times> unit res" where
  "leaving render r mh = (case mh of (ms, h) \<Rightarrow>
     (case on_core ms (resolve render (ms_core ms) h) of (mh', Inl e) \<Rightarrow> (mh', Inl e) | (mh', Inr _) \<Rightarrow> (mh', r)))"

definition stream_enter :: "(response \<Rightarrow> ustr) \<Rightarrow> provider \<Rightarrow> streaming \<Rightarrow> streaming \<times> unit res" where
  "stream_enter render p mh = (case mh of (ms, h) \<Rightarrow> (case on_core ms (stream_authorize (ms_core ms) h) of
       (mh1, Inl e) \<Rightarrow> (mh1, Inl e)
     | ((ms1, h1), Inr _) \<Rightarrow> (case pv_open p h1 of
         (h2, Inl e) \<Rightarrow> leaving render (Inl e) (ms1, h2)
       | (h2, Inr _) \<Rightarrow> ((ms1\<lparr> ms_source := Some (pv_events p) \<rparr>, h2), Inr ()))))"

definition stream_next :: "provider \<Rightarrow> streaming \<Rightarrow> streaming \<times> unit res" where
  "stream_next p mh = (case mh of (ms, h) \<Rightarrow> (case ms_source ms of
       None \<Rightarrow> (mh, Inl (RuntimeError ''MeteredStream must be entered before iterating''))
     | Some [] \<Rightarrow> on_core ms (absorb_final (pv_final p) (ms_core ms) h)
     | Some (pull # rest) \<Rightarrow> (let ms1 = ms\<lparr> ms_source := Some rest \<rparr> in
         case pull h of
           (h', Inl e) \<Rightarrow> ((ms1, h'), Inl e)
         | (h', Inr chunk) \<Rightarrow> (case absorb (h_breaker h' \<noteq> None) chunk (ms_core ms1) of
             (s, r) \<Rightarrow> ((ms1\<lparr> ms_core := s \<rparr>, h'), r)))))"

definition stream_exit :: "(response \<Rightarrow> ustr) \<Rightarrow> provider \<Rightarrow> unit res \<Rightarrow> streaming \<Rightarrow> streaming \<times> unit res" where
  "stream_exit render p body mh = (case mh of (ms, h) \<Rightarrow> (case pv_close p h of
       (h', Inl e) \<Rightarrow> leaving render (Inl e) (ms, h')
     | (h', Inr _) \<Rightarrow> leaving render body (ms, h')))"

text \<open>What a block does: take the next event, report usage, close the stream, anything that is not the stream's.\<close>

datatype stream_action = Next | Report token_usage | Close | Elsewhere "host \<Rightarrow> host"

fun stream_do :: "(response \<Rightarrow> ustr) \<Rightarrow> provider \<Rightarrow> stream_action \<Rightarrow> streaming \<Rightarrow> streaming \<times> unit res" where
  "stream_do render p Next mh = stream_next p mh"
| "stream_do render p (Report u) (ms, h) = ((ms\<lparr> ms_core := record_usage u (ms_core ms) \<rparr>, h), Inr ())"
| "stream_do render p Close (ms, h) = on_core ms (resolve render (ms_core ms) h)"
| "stream_do render p (Elsewhere f) (ms, h) = ((ms, f h), Inr ())"

text \<open>The block ends with \<open>ending\<close>, unless one of its actions raises.\<close>

fun stream_body :: "(response \<Rightarrow> ustr) \<Rightarrow> provider \<Rightarrow> stream_action list \<Rightarrow> unit res \<Rightarrow> streaming \<Rightarrow> streaming \<times> unit res" where
  "stream_body render p [] ending mh = (mh, ending)"
| "stream_body render p (a # acts) ending mh = (case stream_do render p a mh of
     (mh', Inl e) \<Rightarrow> (mh', Inl e) | (mh', Inr _) \<Rightarrow> stream_body render p acts ending mh')"

definition metered_block :: "(response \<Rightarrow> ustr) \<Rightarrow> provider \<Rightarrow> stream_action list \<Rightarrow> unit res \<Rightarrow> streaming \<Rightarrow> streaming \<times> unit res" where
  "metered_block render p acts ending mh = (case stream_enter render p mh of (mh1, Inl e) \<Rightarrow> (mh1, Inl e)
     | (mh1, Inr _) \<Rightarrow> (case stream_body render p acts ending mh1 of (mh2, r) \<Rightarrow> stream_exit render p r mh2))"

text \<open>\<open>AsyncMeteredStream\<close>: a task cancelled while the hold is placed lets that finish and resolves it; one
  cancelled while the stream is resolved lets that finish; one cancelled in the block sees an exception there.\<close>

definition aleaving :: "(response \<Rightarrow> ustr) \<Rightarrow> cancelled \<Rightarrow> unit res \<Rightarrow> streaming \<Rightarrow> streaming \<times> unit res" where
  "aleaving render x r mh = (case leaving render r mh of (mh', r') \<Rightarrow> (mh', if x = While_Exiting then Inl CancelledError else r'))"

definition stream_aenter :: "(response \<Rightarrow> ustr) \<Rightarrow> provider \<Rightarrow> cancelled \<Rightarrow> streaming \<Rightarrow> streaming \<times> unit res" where
  "stream_aenter render p x mh = (case mh of (ms, h) \<Rightarrow> (case on_core ms (stream_authorize (ms_core ms) h) of
       (mh1, Inl e) \<Rightarrow> (mh1, Inl (if x = While_Entering then CancelledError else e))
     | ((ms1, h1), Inr _) \<Rightarrow>
         if x = While_Entering then (fst (leaving render (Inr ()) (ms1, h1)), Inl CancelledError)
         else (case pv_open p h1 of
           (h2, Inl e) \<Rightarrow> aleaving render x (Inl e) (ms1, h2)
         | (h2, Inr _) \<Rightarrow> ((ms1\<lparr> ms_source := Some (pv_events p) \<rparr>, h2), Inr ()))))"

definition stream_aexit :: "(response \<Rightarrow> ustr) \<Rightarrow> provider \<Rightarrow> cancelled \<Rightarrow> unit res \<Rightarrow> streaming \<Rightarrow> streaming \<times> unit res" where
  "stream_aexit render p x body mh = (case mh of (ms, h) \<Rightarrow> (case pv_close p h of
       (h', Inl e) \<Rightarrow> aleaving render x (Inl e) (ms, h')
     | (h', Inr _) \<Rightarrow> aleaving render x body (ms, h')))"

definition ametered_block :: "(response \<Rightarrow> ustr) \<Rightarrow> provider \<Rightarrow> cancelled \<Rightarrow> stream_action list \<Rightarrow> unit res \<Rightarrow> streaming \<Rightarrow> streaming \<times> unit res" where
  "ametered_block render p x acts ending mh = (case stream_aenter render p x mh of (mh1, Inl e) \<Rightarrow> (mh1, Inl e)
     | (mh1, Inr _) \<Rightarrow> (case stream_body render p acts ending mh1 of (mh2, r) \<Rightarrow> stream_aexit render p x r mh2))"

lemma aleaving_never [simp]: "aleaving render Never r mh = leaving render r mh"
  by (simp add: aleaving_def split: prod.split)

lemma stream_never: "stream_aenter render p Never = stream_enter render p" "stream_aexit render p Never = stream_exit render p"
  by (auto simp: fun_eq_iff stream_enter_def stream_aenter_def stream_exit_def stream_aexit_def split: prod.split sum.split)

lemma metered_never: "metered_block render p acts ending mh = ametered_block render p Never acts ending mh"
  unfolding metered_block_def ametered_block_def stream_never by (rule refl)

section \<open>What a stream settles\<close>

definition in_bounds :: "token_usage \<Rightarrow> token_usage \<Rightarrow> bool" where
  "in_bounds U u \<longleftrightarrow> list_all2 (\<lambda>x y. 0 \<le> x \<and> x \<le> y) (usage_counts u) (usage_counts U)"

lemma in_bounds_simps: "in_bounds U u \<Longrightarrow> in_bounds U v \<Longrightarrow> in_bounds U (merged_usage u v)" "usage_ok U \<Longrightarrow> in_bounds U no_usage"
  "usage_ok U \<Longrightarrow> in_bounds U u \<Longrightarrow> usage_ok u" "in_bounds U u \<Longrightarrow> list_all2 (\<le>) (usage_counts u) (usage_counts U)"
  by (auto simp: in_bounds_def usage_counts_def merged_usage_def no_usage_def usage_ok_def)

text \<open>\<open>paid\<close>: the hold is closed, its scope is short of the cost since before it was placed, and no one else of
  anything; a scope left below zero is halted.\<close>

definition paid :: "manager \<Rightarrow> authorization \<Rightarrow> scope_id \<Rightarrow> decimal \<Rightarrow> manager \<Rightarrow> bool" where
  "paid m a k c m' \<longleftrightarrow> 0 \<le> dval c \<and> map_of (s_holds (m_state m')) (a_authorization_id a) = None
     \<and> (\<forall>j. dval (m_balance m' j) = dval (m_balance m j) - (if j = k then dval c else 0))
     \<and> (dval (m_balance m' k) < 0 \<longrightarrow> s_tripped (m_state m') k \<noteq> None)"

definition settleable :: "manager \<Rightarrow> manager \<Rightarrow> authorization \<Rightarrow> scope_id \<Rightarrow> ustr \<Rightarrow> model_pricing \<Rightarrow> token_usage \<Rightarrow> bool" where
  "settleable m m1 a k why p U \<longleftrightarrow> (\<forall>u. in_bounds U u \<longrightarrow> (\<exists>c. cost_of p u = Inr c
     \<and> (if dec_le c ZERO then dval c = 0 \<and> (\<exists>m2 v. void a (lit ''stream produced no billable usage'') None m1 = (m2, Inr v) \<and> paid m a k (Dec 0 0) m2)
        else \<exists>m2 r. capture a (exact c) why None m1 = (m2, r) \<and> paid m a k c m2)))"

lemma stream_texts: "check_text (or_else (lit ''streamed call authorization'') t) MAX_MEMO_BYTES False = None"
  "check_text (or_else (lit ''stream produced no billable usage'') t) MAX_MEMO_BYTES False = None"
  "check_text (or_else (lit ''settled streamed call'') t) MAX_MEMO_BYTES False = None"
  by (simp_all add: or_else_def check_text_def MAX_MEMO_BYTES_def)

lemma hold_settleable:
  assumes rest: "at_rest n 5 m1" and hold: "map_of (s_holds (m_state m1)) (entry_id e) = Some e" and k: "named_scope m1 (scope_id e)"
    and unit: "m_unit m1 = USD" "unit_amount (m_unit m1) (amount e)" and r: "roomy m1 (scope_id e) (dval (amount e) + dval C)"
    and p: "pricing_ok p" "usage_ok U" "cost_of p U = Inr C" "dval C \<le> 10 ^ 12"
    and bal: "\<And>j. dval (m_balance m1 j) = dval (m_balance m j) - (if j = scope_id e then dval (amount e) else 0)"
      "0 \<le> dval (m_balance m1 (scope_id e))"
    and t: "check_text (or_else why (lit ''settled call cost'')) MAX_MEMO_BYTES False = None"
  shows "settleable m m1 (authorization_for e) (scope_id e) why p U"
  unfolding settleable_def
proof (intro allI impI)
  fix u
  assume w: "in_bounds U u"
  from cost_of_facts [OF p(1) in_bounds_simps(3) [OF p(2) w]] obtain c where c: "cost_of p u = Inr c" "expo c = - 8" "0 \<le> dval c" by blast
  have cC: "dval c \<le> dval C" by (rule cost_of_mono [OF p(1) in_bounds_simps(3) [OF p(2) w] p(2) in_bounds_simps(4) [OF w] c(1) p(3)])
  have pos: "0 < dval (amount e)" using unit(2) by (simp add: unit_amount_def)
  have ok: "gov_ok n m1" "w_drawn (m_world m1) + 5 \<le> n" using rest by (simp_all add: at_rest_def)
  show "\<exists>c. cost_of p u = Inr c \<and> (if dec_le c ZERO
      then dval c = 0 \<and> (\<exists>m2 v. void (authorization_for e) (lit ''stream produced no billable usage'') None m1 = (m2, Inr v) \<and> paid m (authorization_for e) (scope_id e) (Dec 0 0) m2)
      else \<exists>m2 r. capture (authorization_for e) (exact c) why None m1 = (m2, r) \<and> paid m (authorization_for e) (scope_id e) c m2)"
  proof (cases "dec_le c ZERO")
    case True
    then have z: "dval c = 0" using c(3) by (simp add: dec_le_iff)
    have r2: "at_rest n 2 m1" "roomy m1 (scope_id e) (dval (amount e))" using rest r c(3) cC at_rest_less by (fastforce, auto simp: roomy_def)
    obtain m2 v where v: "void (authorization_for e) (lit ''stream produced no billable usage'') None m1 = (m2, Inr v)" "w_drawn (m_world m2) = w_drawn (m_world m1) + 2"
      using void_succeeds [OF r2(1) hold k unit(2) r2(2) stream_texts(2)] by blast
    have "w_drawn (m_world m2) \<le> n" using v(2) ok(2) by simp
    note ve = void_effect [OF ok(1) v(1) this]
    have "paid m (authorization_for e) (scope_id e) (Dec 0 0) m2" using ve(2,3) bal pos by (simp add: paid_def dval_def)
    then show ?thesis using c(1) True z v(1) by auto
  next
    case False
    then have cp: "0 < dval c" by (simp add: dec_le_iff)
    have x: "cost (exact c) (m_unit m1) = Inr c" unfolding unit(1) using grid_cost(2) [OF c(2)] c(3) cC p(4) by simp
    have "roomy m1 (scope_id e) (dval (amount e) + dval c)" using r cC by (auto simp: roomy_def)
    from capture_run [OF rest hold k unit(2) x cp this t] obtain m2 e' l where
      cap: "captured n (authorization_for e) c why m1 e' m2"
        "dval (balance_after e') = dval (m_balance m1 (scope_id e)) + dval (amount e) - dval c"
        "dval (balance_after e') < 0 \<longrightarrow> s_tripped (m_state m2) (scope_id e) \<noteq> None"
        "capture (authorization_for e) (exact c) why None m1 = (m2, if dval (balance_after e') < 0 then Inl (DenialOfWalletError c l (scope_id e) True) else Inr e')"
      by blast
    note money = captured_money [OF cap(1)]
    have "paid m (authorization_for e) (scope_id e) c m2" using money cap(2,3) bal cp by (simp add: paid_def)
    then show ?thesis using c(1) False cap(4) by auto
  qed
qed

definition stream_inv :: "interceptor \<Rightarrow> token_usage \<Rightarrow> manager \<Rightarrow> manager \<Rightarrow> authorization \<Rightarrow> stream_core \<Rightarrow> host \<Rightarrow> bool" where
  "stream_inv i U m m1 a s h \<longleftrightarrow> st_pricing s = i_pricing i \<and> st_extract s = i_extract_usage i \<and> st_memo s = lit ''settled streamed call''
     \<and> st_auth s = Some a \<and> in_bounds U (st_usage s)
     \<and> (if st_resolved s then \<exists>c. st_settled s = Some c \<and> paid m a (i_scope_id i) c (h_manager h) else h_manager h = m1)"

lemma stream_record_manager [simp]: "h_manager (stream_record_result render s h) = h_manager h"
  by (simp add: stream_record_result_def Let_def split: option.split)

text \<open>Whoever resolves the stream settles the usage seen so far.\<close>

lemma resolve_inv:
  assumes "stream_inv i U m m1 a s h" "settleable m m1 a (i_scope_id i) (lit ''settled streamed call'') (i_pricing i) U"
    "resolve render s h = ((s', h'), r)"
  shows "stream_inv i U m m1 a s' h'" "st_resolved s'"
    "\<not> st_resolved s \<Longrightarrow> \<exists>c c'. st_settled s' = Some c \<and> cost_of (i_pricing i) (st_usage s') = Inr c' \<and> dval c = dval c'"
proof -
  have "stream_inv i U m m1 a s' h' \<and> st_resolved s'
    \<and> (\<not> st_resolved s \<longrightarrow> (\<exists>c c'. st_settled s' = Some c \<and> cost_of (i_pricing i) (st_usage s') = Inr c' \<and> dval c = dval c'))"
  proof (cases "st_resolved s")
    case True
    then have "s' = s" "h' = h" using assms(1,3) by (auto simp: stream_inv_def resolve_def)
    then show ?thesis using assms(1) True by simp
  next
    case False
    have s: "st_pricing s = i_pricing i" "st_auth s = Some a" "in_bounds U (st_usage s)" "h_manager h = m1" "st_memo s = lit ''settled streamed call''"
      using assms(1) False by (simp_all add: stream_inv_def del: lit_Cons)
    from assms(2) s(3) obtain c where c: "cost_of (i_pricing i) (st_usage s) = Inr c"
      "if dec_le c ZERO then dval c = 0 \<and> (\<exists>m2 v. void a (lit ''stream produced no billable usage'') None m1 = (m2, Inr v) \<and> paid m a (i_scope_id i) (Dec 0 0) m2)
       else \<exists>m2 r. capture a (exact c) (lit ''settled streamed call'') None m1 = (m2, r) \<and> paid m a (i_scope_id i) c m2"
      unfolding settleable_def by blast
    have z: "dval (Dec 0 0) = 0" by (simp add: dval_def)
    note run = resolve_def on_manager_def Let_def
    show ?thesis
    proof (cases "dec_le c ZERO")
      case True
      then obtain m2 v where v: "void a (lit ''stream produced no billable usage'') None m1 = (m2, Inr v)" "paid m a (i_scope_id i) (Dec 0 0) m2" "dval c = 0"
        using c(2) by (auto simp del: lit_Cons)
      have "s' = s\<lparr> st_resolved := True, st_settled := Some (Dec 0 0) \<rparr>" "h_manager h' = m2"
        using assms(3) s False c(1) True v(1) by (auto simp: run simp del: lit_Cons)
      then show ?thesis using assms(1) v(2,3) c(1) z by (simp add: stream_inv_def del: lit_Cons)
    next
      case no: False
      then obtain m2 r2 where v: "capture a (exact c) (lit ''settled streamed call'') None m1 = (m2, r2)" "paid m a (i_scope_id i) c m2"
        using c(2) by (auto simp del: lit_Cons)
      have "s' \<in> {s\<lparr> st_resolved := True, st_settled := Some c \<rparr>} \<union> range (\<lambda>e. s\<lparr> st_resolved := True, st_settled := Some c, st_entry := Some e \<rparr>)" "h_manager h' = m2"
        using assms(3) s False c(1) no v(1) by (auto simp: run simp del: lit_Cons split: sum.splits)
      then show ?thesis using assms(1) v(2) c(1) by (auto simp: stream_inv_def simp del: lit_Cons)
    qed
  qed
  then show "stream_inv i U m m1 a s' h'" "st_resolved s'"
    "\<not> st_resolved s \<Longrightarrow> \<exists>c c'. st_settled s' = Some c \<and> cost_of (i_pricing i) (st_usage s') = Inr c' \<and> dval c = dval c'" by blast+
qed

section \<open>Every way through a block\<close>

text \<open>What is asked of the provider and the block: they leave the governor as it is, and no usage they report is above \<open>U\<close>.\<close>

definition pull_ok :: "interceptor \<Rightarrow> token_usage \<Rightarrow> (host \<Rightarrow> host \<times> response res) \<Rightarrow> bool" where
  "pull_ok i U f \<longleftrightarrow> (\<forall>h. h_manager (fst (f h)) = h_manager h \<and> (\<forall>r u. snd (f h) = Inr r \<and> i_extract_usage i r = Inr u \<longrightarrow> in_bounds U u))"

definition provider_ok :: "interceptor \<Rightarrow> token_usage \<Rightarrow> provider \<Rightarrow> bool" where
  "provider_ok i U p \<longleftrightarrow> (\<forall>h. h_manager (fst (pv_open p h)) = h_manager h) \<and> (\<forall>h. h_manager (fst (pv_close p h)) = h_manager h)
     \<and> list_all (pull_ok i U) (pv_events p) \<and> (\<forall>f. pv_final p = Some f \<longrightarrow> pull_ok i U f)"

definition action_ok :: "token_usage \<Rightarrow> stream_action \<Rightarrow> bool" where
  "action_ok U a \<longleftrightarrow> (case a of Report u \<Rightarrow> in_bounds U u | Elsewhere f \<Rightarrow> \<forall>h. h_manager (f h) = h_manager h | _ \<Rightarrow> True)"

definition streaming_inv :: "interceptor \<Rightarrow> token_usage \<Rightarrow> manager \<Rightarrow> manager \<Rightarrow> authorization \<Rightarrow> streaming \<Rightarrow> bool" where
  "streaming_inv i U m m1 a mh \<longleftrightarrow> stream_inv i U m m1 a (ms_core (fst mh)) (snd mh)
     \<and> (\<forall>src. ms_source (fst mh) = Some src \<longrightarrow> list_all (pull_ok i U) src)"

lemma stream_inv_host: "h_manager h' = h_manager h \<Longrightarrow> stream_inv i U m m1 a s h' = stream_inv i U m m1 a s h"
  by (simp add: stream_inv_def)

lemma record_usage_inv: "in_bounds U u \<Longrightarrow> stream_inv i U m m1 a s h \<Longrightarrow> stream_inv i U m m1 a (record_usage u s) h"
  by (simp add: stream_inv_def record_usage_def in_bounds_simps del: lit_Cons)

lemma record_usage_resolved [simp]: "st_resolved (record_usage u s) = st_resolved s" "st_resolved (merge_found found s) = st_resolved s"
  by (simp_all add: record_usage_def merge_found_def split: option.split)

lemma try_usage_inv:
  assumes "try_usage (st_extract s0) r = Inr found" "stream_inv i U m m1 a s h" "st_extract s0 = i_extract_usage i"
    "\<And>u. i_extract_usage i r = Inr u \<Longrightarrow> in_bounds U u"
  shows "stream_inv i U m m1 a (merge_found found s) h"
  using assms by (auto simp: try_usage_def merge_found_def record_usage_inv split: sum.splits if_splits)

lemma absorb_inv:
  assumes "stream_inv i U m m1 a s h" "\<And>u. i_extract_usage i r = Inr u \<Longrightarrow> in_bounds U u" "absorb w r s = (s', x)"
  shows "stream_inv i U m m1 a s' h" "st_resolved s' = st_resolved s"
proof -
  let ?s = "s\<lparr> st_chunks := st_chunks s + 1 \<rparr>"
  have s: "stream_inv i U m m1 a ?s h" "st_extract s = i_extract_usage i" using assms(1) by (simp_all add: stream_inv_def)
  have kept: "stream_inv i U m m1 a (z\<lparr> st_text := t, st_text_chars := n \<rparr>) h = stream_inv i U m m1 a z h" for z t n by (simp add: stream_inv_def)
  have "stream_inv i U m m1 a (merge_found found ?s) h" if "try_usage (st_extract s) r = Inr found" for found
    using try_usage_inv [OF that s(1,2) assms(2)] .
  then show "stream_inv i U m m1 a s' h" "st_resolved s' = st_resolved s"
    using assms(3) s(1) by (auto simp: absorb_def Let_def kept split: sum.splits option.splits if_splits)
qed

lemma absorb_final_inv:
  assumes "stream_inv i U m m1 a s h" "\<And>f. g = Some f \<Longrightarrow> pull_ok i U f" "absorb_final g s h = ((s', h'), x)"
  shows "stream_inv i U m m1 a s' h'" "st_resolved s' = st_resolved s"
proof -
  have "stream_inv i U m m1 a s' h' \<and> st_resolved s' = st_resolved s"
  proof (cases g)
    case None
    then show ?thesis using assms(1,3) by (simp add: absorb_final_def)
  next
    case (Some f)
    obtain h2 y where y: "f h = (h2, y)" by fastforce
    have f: "h_manager h2 = h_manager h" "\<And>r u. y = Inr r \<Longrightarrow> i_extract_usage i r = Inr u \<Longrightarrow> in_bounds U u"
      using assms(2) [OF Some, unfolded pull_ok_def, rule_format, of h] unfolding y by auto
    have s: "stream_inv i U m m1 a s h2" "st_extract s = i_extract_usage i" using assms(1) stream_inv_host [OF f(1)] by (simp, simp add: stream_inv_def)
    have final: "stream_inv i U m m1 a (s\<lparr> st_final := r \<rparr>) h2" for r using s(1) by (simp add: stream_inv_def)
    show ?thesis
    proof (cases y)
      case (Inl e)
      then show ?thesis using assms(3) Some y s(1) by (simp add: absorb_final_def)
    next
      case (Inr r)
      have "stream_inv i U m m1 a (merge_found found (s\<lparr> st_final := r \<rparr>)) h2" if "try_usage (st_extract s) r = Inr found" for found
        using try_usage_inv [OF that final s(2) f(2) [OF Inr]] .
      then show ?thesis using assms(3) Some y Inr final by (auto simp: absorb_final_def Let_def split: sum.splits)
    qed
  qed
  then show "stream_inv i U m m1 a s' h'" "st_resolved s' = st_resolved s" by blast+
qed

lemma streaming_inv_pair: "streaming_inv i U m m1 a (ms, h) \<longleftrightarrow> stream_inv i U m m1 a (ms_core ms) h \<and> (\<forall>src. ms_source ms = Some src \<longrightarrow> list_all (pull_ok i U) src)"
  by (simp add: streaming_inv_def)

lemma next_inv:
  assumes "streaming_inv i U m m1 a (ms, h)" "provider_ok i U p" "stream_next p (ms, h) = ((ms', h'), r)"
  shows "streaming_inv i U m m1 a (ms', h')" "st_resolved (ms_core ms') = st_resolved (ms_core ms)"
proof -
  note inv = assms(1) [unfolded streaming_inv_pair]
  have "streaming_inv i U m m1 a (ms', h') \<and> st_resolved (ms_core ms') = st_resolved (ms_core ms)"
  proof (cases "ms_source ms")
    case None
    then show ?thesis using assms by (simp add: stream_next_def)
  next
    case src: (Some src)
    show ?thesis
    proof (cases src)
      case Nil
      obtain s' where s: "absorb_final (pv_final p) (ms_core ms) h = ((s', h'), r)" "ms' = ms\<lparr> ms_core := s' \<rparr>"
        using assms(3) src Nil by (auto simp: stream_next_def on_core_def split: prod.splits)
      have "\<And>f. pv_final p = Some f \<Longrightarrow> pull_ok i U f" using assms(2) by (simp add: provider_ok_def)
      from absorb_final_inv [OF _ this s(1)] inv show ?thesis using s(2) src Nil by (simp add: streaming_inv_pair)
    next
      case (Cons f rest)
      obtain h2 y where y: "f h = (h2, y)" by fastforce
      have "pull_ok i U f" using inv src Cons by simp
      then have f: "h_manager h2 = h_manager h" "\<And>r u. y = Inr r \<Longrightarrow> i_extract_usage i r = Inr u \<Longrightarrow> in_bounds U u"
        using y unfolding pull_ok_def by (metis fst_conv, metis snd_conv)
      have s: "stream_inv i U m m1 a (ms_core ms) h2" using inv stream_inv_host [OF f(1)] by simp
      show ?thesis
      proof (cases y)
        case (Inl e)
        then show ?thesis using assms(3) src Cons y s inv by (auto simp: stream_next_def streaming_inv_pair)
      next
        case (Inr chunk)
        obtain s' x where x: "absorb (h_breaker h2 \<noteq> None) chunk (ms_core ms) = (s', x)" by fastforce
        show ?thesis using absorb_inv [OF s f(2) [OF Inr] x] assms(3) src Cons y Inr x inv by (auto simp: stream_next_def streaming_inv_pair)
      qed
    qed
  qed
  then show "streaming_inv i U m m1 a (ms', h')" "st_resolved (ms_core ms') = st_resolved (ms_core ms)" by blast+
qed

lemma do_inv:
  assumes "streaming_inv i U m m1 a mh" "provider_ok i U p" "action_ok U act" "stream_do render p act mh = (mh', r)"
    "settleable m m1 a (i_scope_id i) (lit ''settled streamed call'') (i_pricing i) U"
  shows "streaming_inv i U m m1 a mh'" "act \<noteq> Close \<Longrightarrow> st_resolved (ms_core (fst mh')) = st_resolved (ms_core (fst mh))"
proof -
  obtain ms h ms' h' where p: "mh = (ms, h)" "mh' = (ms', h')" by (meson surj_pair)
  note inv = assms(1) [unfolded p streaming_inv_pair]
  have "streaming_inv i U m m1 a mh' \<and> (act \<noteq> Close \<longrightarrow> st_resolved (ms_core (fst mh')) = st_resolved (ms_core (fst mh)))"
  proof (cases act)
    case Next
    then show ?thesis using next_inv [OF assms(1) [unfolded p] assms(2)] assms(4) p by simp
  next
    case (Report u)
    then show ?thesis using assms(3,4) p inv record_usage_inv by (auto simp: streaming_inv_pair action_ok_def)
  next
    case Close
    then obtain s' where s: "resolve render (ms_core ms) h = ((s', h'), r)" "ms' = ms\<lparr> ms_core := s' \<rparr>"
      using assms(4) p by (auto simp: on_core_def split: prod.splits)
    then show ?thesis using resolve_inv(1) [OF _ assms(5) s(1)] inv Close p by (simp add: streaming_inv_pair)
  next
    case (Elsewhere f)
    then have "h_manager (f h) = h_manager h" using assms(3) by (simp add: action_ok_def)
    then have "stream_inv i U m m1 a (ms_core ms) (f h)" using inv by (simp add: stream_inv_host [of "f h" h])
    moreover have "ms' = ms" "h' = f h" using assms(4) Elsewhere p by simp_all
    ultimately show ?thesis using inv p by (simp add: streaming_inv_pair)
  qed
  then show "streaming_inv i U m m1 a mh'" "act \<noteq> Close \<Longrightarrow> st_resolved (ms_core (fst mh')) = st_resolved (ms_core (fst mh))" by blast+
qed

lemma body_inv:
  assumes "streaming_inv i U m m1 a mh" "provider_ok i U p" "list_all (action_ok U) acts" "stream_body render p acts ending mh = (mh', r)"
    "settleable m m1 a (i_scope_id i) (lit ''settled streamed call'') (i_pricing i) U"
  shows "streaming_inv i U m m1 a mh' \<and> (Close \<notin> set acts \<longrightarrow> st_resolved (ms_core (fst mh')) = st_resolved (ms_core (fst mh)))"
  using assms(1,3,4)
proof (induction acts arbitrary: mh)
  case (Cons act acts)
  obtain mh1 x where x: "stream_do render p act mh = (mh1, x)" by fastforce
  have act: "action_ok U act" using Cons.prems(2) by simp
  note one = do_inv [OF Cons.prems(1) assms(2) act x assms(5)]
  show ?case
  proof (cases x)
    case (Inl e)
    then show ?thesis using Cons.prems(3) x one by auto
  next
    case (Inr y)
    then have "stream_body render p acts ending mh1 = (mh', r)" using Cons.prems(3) x by simp
    from Cons.IH [OF one(1) _ this] Cons.prems(2) one(2) show ?thesis by auto
  qed
qed simp

lemma leaving_inv:
  assumes "streaming_inv i U m m1 a mh" "settleable m m1 a (i_scope_id i) (lit ''settled streamed call'') (i_pricing i) U"
    "leaving render r mh = (mh', r')"
  shows "streaming_inv i U m m1 a mh'" "st_resolved (ms_core (fst mh'))"
    "\<not> st_resolved (ms_core (fst mh)) \<Longrightarrow> \<exists>c c'. st_settled (ms_core (fst mh')) = Some c
      \<and> cost_of (i_pricing i) (st_usage (ms_core (fst mh'))) = Inr c' \<and> dval c = dval c'"
proof -
  obtain ms h where p: "mh = (ms, h)" by fastforce
  obtain s' h' x where x: "resolve render (ms_core ms) h = ((s', h'), x)" by (metis surj_pair)
  have m: "mh' = (ms\<lparr> ms_core := s' \<rparr>, h')" using assms(3) p x by (auto simp: leaving_def on_core_def split: sum.splits)
  have inv: "stream_inv i U m m1 a (ms_core ms) h" using assms(1) p by (simp add: streaming_inv_pair)
  note res = resolve_inv [OF inv assms(2) x]
  show "streaming_inv i U m m1 a mh'" "st_resolved (ms_core (fst mh'))"
    "\<not> st_resolved (ms_core (fst mh)) \<Longrightarrow> \<exists>c c'. st_settled (ms_core (fst mh')) = Some c
      \<and> cost_of (i_pricing i) (st_usage (ms_core (fst mh'))) = Inr c' \<and> dval c = dval c'"
    using res assms(1) by (simp_all add: m p streaming_inv_pair)
qed

lemma stream_Inr:
  assumes "stream i q = Inr s"
  shows "size_hold i q = Inr (st_hold s)" "s = new_stream (i_scope_id i) (st_hold s) (i_pricing i) (i_extract_usage i) [] (i_trajectory i) (Some (mc_tool q, mc_arguments q))"
  using assms by (auto simp: stream_def new_stream_def)

lemma stream_observe_quiet: "stream_observe s h = (h1, Inr ()) \<Longrightarrow> h_manager h1 = h_manager h"
  by (auto simp: stream_observe_def observe_def check_def halting_def Let_def split: option.splits prod.splits if_splits)

lemma fst_aleaving: "fst (aleaving render x r mh) = fst (leaving render r mh)"
  by (simp add: aleaving_def split: prod.split)

lemma leaving_raises: "\<exists>e'. snd (aleaving render x (Inl e) mh) = Inl e'"
  by (auto simp: aleaving_def leaving_def split: prod.split sum.split)

text \<open>However a block that got its hold is left, it is left by resolving it.\<close>

lemma block_shape:
  assumes "on_core ms (stream_authorize (ms_core ms) h) = ((ms1, h1), Inr ())"
  shows "x = While_Entering \<Longrightarrow> fst (ametered_block render p x acts ending (ms, h)) = fst (leaving render (Inr ()) (ms1, h1))"
    "x \<noteq> While_Entering \<Longrightarrow> pv_open p h1 = (h2, Inl er) \<Longrightarrow> fst (ametered_block render p x acts ending (ms, h)) = fst (leaving render (Inl er) (ms1, h2))"
    "x \<noteq> While_Entering \<Longrightarrow> pv_open p h1 = (h2, Inr z) \<Longrightarrow> stream_body render p acts ending (ms1\<lparr> ms_source := Some (pv_events p) \<rparr>, h2) = ((ms3, h3), b)
      \<Longrightarrow> pv_close p h3 = (h4, w) \<Longrightarrow> fst (ametered_block render p x acts ending (ms, h)) = fst (leaving render (rbind w (\<lambda>_. b)) (ms3, h4))"
proof -
  show "x = While_Entering \<Longrightarrow> fst (ametered_block render p x acts ending (ms, h)) = fst (leaving render (Inr ()) (ms1, h1))"
    using assms by (simp add: ametered_block_def stream_aenter_def split: prod.split)
next
  assume a: "x \<noteq> While_Entering" "pv_open p h1 = (h2, Inl er)"
  obtain mh' e' where "aleaving render x (Inl er) (ms1, h2) = (mh', Inl e')" using leaving_raises by (metis prod.collapse)
  moreover from this have "mh' = fst (leaving render (Inl er) (ms1, h2))" by (metis fst_aleaving fst_conv)
  ultimately show "fst (ametered_block render p x acts ending (ms, h)) = fst (leaving render (Inl er) (ms1, h2))"
    using assms a by (simp add: ametered_block_def stream_aenter_def)
next
  assume a: "x \<noteq> While_Entering" "pv_open p h1 = (h2, Inr z)" "stream_body render p acts ending (ms1\<lparr> ms_source := Some (pv_events p) \<rparr>, h2) = ((ms3, h3), b)"
    "pv_close p h3 = (h4, w)"
  have "ametered_block render p x acts ending (ms, h) = stream_aexit render p x b (ms3, h3)"
    using assms a by (simp add: ametered_block_def stream_aenter_def)
  then show "fst (ametered_block render p x acts ending (ms, h)) = fst (leaving render (rbind w (\<lambda>_. b)) (ms3, h4))"
    using a(4) by (cases w) (simp_all add: stream_aexit_def fst_aleaving)
qed

lemma block_leaves:
  assumes auth: "on_core (new_metered s) (stream_authorize s h) = ((ms1, h1), Inr ())" and inv: "streaming_inv i U m m1 a (ms1, h1)"
    and fresh: "\<not> st_resolved (ms_core ms1)" "ms_source ms1 = None" "h_manager h1 = m1"
    and p: "provider_ok i U p" "list_all (action_ok U) acts"
    and able: "settleable m m1 a (i_scope_id i) (lit ''settled streamed call'') (i_pricing i) U"
  shows "\<exists>mh0 ro. fst (ametered_block render p x acts ending (new_metered s, h)) = fst (leaving render ro mh0)
    \<and> streaming_inv i U m m1 a mh0 \<and> (Close \<notin> set acts \<longrightarrow> \<not> st_resolved (ms_core (fst mh0)))"
proof -
  have "on_core (new_metered s) (stream_authorize (ms_core (new_metered s)) h) = ((ms1, h1), Inr ())" using auth by (simp add: new_metered_def)
  note shape = block_shape [OF this]
  show ?thesis
  proof (cases "x = While_Entering")
    case True
    then show ?thesis using shape(1) inv fresh(1) by (intro exI [of _ "(ms1, h1)"] exI [of _ "Inr ()"]) simp
  next
    case no: False
    obtain h2 y where y: "pv_open p h1 = (h2, y)" by fastforce
    have "h_manager (fst (pv_open p h1)) = h_manager h1" using p(1) unfolding provider_ok_def by blast
    then have h2: "streaming_inv i U m m1 a (ms1, h2)" using y inv stream_inv_host [of h2 h1] by (simp add: streaming_inv_pair)
    show ?thesis
    proof (cases y)
      case (Inl er)
      then show ?thesis using shape(2) [OF no] y h2 fresh(1) by (intro exI [of _ "(ms1, h2)"] exI [of _ "Inl er"]) simp
    next
      case (Inr z)
      let ?ms = "ms1\<lparr> ms_source := Some (pv_events p) \<rparr>"
      have begun: "streaming_inv i U m m1 a (?ms, h2)" using h2 p(1) by (simp add: streaming_inv_pair provider_ok_def)
      obtain ms3 h3 b where b: "stream_body render p acts ending (?ms, h2) = ((ms3, h3), b)" by (metis surj_pair)
      note body = body_inv [OF begun p b able]
      obtain h4 w where w: "pv_close p h3 = (h4, w)" by fastforce
      have "h_manager (fst (pv_close p h3)) = h_manager h3" using p(1) unfolding provider_ok_def by blast
      then have "streaming_inv i U m m1 a (ms3, h4)" using w body stream_inv_host [of h4 h3] by (simp add: streaming_inv_pair)
      then show ?thesis using shape(3) [OF no _ b w] y Inr body fresh(1) by (intro exI [of _ "(ms3, h4)"] exI [of _ "rbind w (\<lambda>_. b)"]) simp
    qed
  qed
qed

lemma stream_run:
  assumes "stream i q = Inr s" "at_rest n 7 (h_manager h)" "m_unit (h_manager h) = USD" "stream_observe s h = (h1, Inr ())"
    and "can_hold (i_scope_id i) (st_hold s) held (h_manager h)" "pricing_ok (i_pricing i)" "usage_ok U" "cost_of (i_pricing i) U = Inr C" "dval C \<le> 10 ^ 12"
    and "roomy (h_manager h) (i_scope_id i) (2 * dval held + (dval held + dval C))" "provider_ok i U p" "list_all (action_ok U) acts"
  shows "\<exists>mh' r m1 a c. ametered_block render p x acts ending (new_metered s, h) = (mh', r)
    \<and> authorize (i_scope_id i) (exact (st_hold s)) (lit ''streamed call authorization'') None (h_manager h) = (m1, Inr a)
    \<and> map_of (s_holds (m_state m1)) (a_authorization_id a) \<noteq> None
    \<and> st_resolved (ms_core (fst mh')) \<and> st_settled (ms_core (fst mh')) = Some c \<and> paid (h_manager h) a (i_scope_id i) c (h_manager (snd mh'))
    \<and> (Close \<notin> set acts \<longrightarrow> (\<exists>c'. cost_of (i_pricing i) (st_usage (ms_core (fst mh'))) = Inr c' \<and> dval c = dval c'))"
proof -
  let ?k = "i_scope_id i" and ?m = "h_manager h"
  have ch: "named_scope ?m ?k" "halted_at ?m ?k = Inr None" "cost (exact (st_hold s)) (m_unit ?m) = Inr held" "0 < dval held"
    "dval held \<le> dval (m_balance ?m ?k)" "snd (record_velocity ?k (entered ?m)) = Inr ()"
    using assms(5) by (simp_all add: can_hold_def)
  obtain C' where "cost_of (i_pricing i) U = Inr C'" "0 \<le> dval C'" using assms(6,7) by (rule cost_of_facts)
  then have Cpos: "0 \<le> dval C" using assms(8) by simp
  have pos: "0 \<le> dval held + dval C" and r7: "at_rest n (5 + 2) ?m" using ch Cpos assms(2) by simp_all
  obtain m1 e where g: "authorize ?k (exact (st_hold s)) (lit ''streamed call authorization'') None ?m = (m1, Inr (authorization_for e))"
    "w_drawn (m_world m1) = w_drawn (m_world ?m) + 2" "at_rest n 5 m1" "map_of (s_holds (m_state m1)) (entry_id e) = Some e" "scope_id e = ?k"
    "named_scope m1 ?k" "m_unit m1 = m_unit ?m" "unit_amount (m_unit m1) (amount e)" "dval (amount e) = dval held" "roomy m1 ?k (dval held + dval C)"
    "\<And>j. dval (m_balance m1 j) = dval (m_balance ?m j) - (if j = ?k then dval held else 0)" "wrote n ?m [e] m1"
    by (rule granted [OF r7 ch(1-5) assms(10) pos ch(6) stream_texts(1)]) (rule that; assumption)
  let ?a = "authorization_for e"
  have set0: "settleable ?m m1 ?a (scope_id e) (lit ''settled streamed call'') (i_pricing i) U"
  proof (rule hold_settleable [OF g(3,4) _ _ g(8) _ assms(6-9)])
    show "named_scope m1 (scope_id e)" "m_unit m1 = USD" "roomy m1 (scope_id e) (dval (amount e) + dval C)" using g(5-7,9,10) assms(3) by simp_all
    show "\<And>j. dval (m_balance m1 j) = dval (m_balance ?m j) - (if j = scope_id e then dval (amount e) else 0)" using g(5,9,11) by simp
    show "0 \<le> dval (m_balance m1 (scope_id e))" using g(5,11) ch(5) by simp
    show "check_text (or_else (lit ''settled streamed call'') (lit ''settled call cost'')) MAX_MEMO_BYTES False = None" by (rule stream_texts)
  qed
  then have able: "settleable ?m m1 ?a ?k (lit ''settled streamed call'') (i_pricing i) U" unfolding g(5) .
  let ?s = "s\<lparr> st_auth := Some ?a \<rparr>" and ?h = "h1\<lparr> h_manager := m1 \<rparr>" and ?ms = "(new_metered s)\<lparr> ms_core := s\<lparr> st_auth := Some ?a \<rparr> \<rparr>"
  note s = stream_Inr(2) [OF assms(1)]
  have sc: "st_scope_id s = ?k" by (subst s) (simp add: new_stream_def)
  have auth: "on_core (new_metered s) (stream_authorize s h) = ((?ms, ?h), Inr ())"
    using assms(4) g(1) stream_observe_quiet [OF assms(4)] by (simp add: stream_authorize_def on_manager_def on_core_def sc del: lit_Cons)
  have "stream_inv i U ?m m1 ?a ?s ?h"
    using in_bounds_simps(2) [OF assms(7)] by (subst s) (simp add: stream_inv_def new_stream_def del: lit_Cons)
  then have inv: "streaming_inv i U ?m m1 ?a (?ms, ?h)" by (simp add: streaming_inv_pair new_metered_def)
  have "\<not> st_resolved ?s" by (subst s) (simp add: new_stream_def)
  then have "\<not> st_resolved (ms_core ?ms)" "ms_source ?ms = None" "h_manager ?h = m1" by (simp_all add: new_metered_def)
  from block_leaves [OF auth inv this assms(11,12) able, of render x ending] obtain mh0 ro where f: "fst (ametered_block render p x acts ending (new_metered s, h)) = fst (leaving render ro mh0)"
    "streaming_inv i U ?m m1 ?a mh0" "Close \<notin> set acts \<longrightarrow> \<not> st_resolved (ms_core (fst mh0))" by blast
  obtain mh' r where l: "leaving render ro mh0 = (mh', r)" by fastforce
  note res = leaving_inv [OF f(2) able l]
  obtain r' where run: "ametered_block render p x acts ending (new_metered s, h) = (mh', r')" using f(1) l by (metis fst_conv prod.collapse)
  obtain c where c: "st_settled (ms_core (fst mh')) = Some c" "paid ?m ?a ?k c (h_manager (snd mh'))"
    using res(1,2) by (auto simp: streaming_inv_def stream_inv_def)
  have "\<exists>c'. cost_of (i_pricing i) (st_usage (ms_core (fst mh'))) = Inr c' \<and> dval c = dval c'" if "Close \<notin> set acts"
    using res(3) f(3) that c(1) by auto
  then show ?thesis using run g(1,4) res(2) c by (intro exI [of _ mh'] exI [of _ r'] exI [of _ m1] exI [of _ ?a] exI [of _ c]) (simp del: lit_Cons)
qed

text \<open>C13: A stream is paid for exactly once, however its block is left: exhausted, broken off, raising, cancelled,
  closed early, or with a provider that fails to open. Its hold, placed before the provider is called, is
  closed; the scope is short of the price of the usage seen by then (nothing at all if none was
  seen) and no other balance moves; a scope this leaves below zero is halted.\<close>

theorem stream_always_settles:
  assumes "run = metered_block render p acts ending \<or> run = ametered_block render p x acts ending"
    and "stream i q = Inr s" "at_rest n 7 (h_manager h)" "m_unit (h_manager h) = USD" "stream_observe s h = (h1, Inr ())"
    and "can_hold (i_scope_id i) (st_hold s) held (h_manager h)" "pricing_ok (i_pricing i)" "usage_ok U" "cost_of (i_pricing i) U = Inr C" "dval C \<le> 10 ^ 12"
    and "roomy (h_manager h) (i_scope_id i) (2 * dval held + (dval held + dval C))" "provider_ok i U p" "list_all (action_ok U) acts"
  shows "\<exists>ms h' r m1 a c. run (new_metered s, h) = ((ms, h'), r)
    \<and> authorize (i_scope_id i) (exact (st_hold s)) (lit ''streamed call authorization'') None (h_manager h) = (m1, Inr a)
    \<and> map_of (s_holds (m_state m1)) (a_authorization_id a) \<noteq> None \<and> map_of (s_holds (m_state (h_manager h'))) (a_authorization_id a) = None
    \<and> st_resolved (ms_core ms) \<and> st_settled (ms_core ms) = Some c \<and> 0 \<le> dval c
    \<and> (Close \<notin> set acts \<longrightarrow> (\<exists>c'. cost_of (i_pricing i) (st_usage (ms_core ms)) = Inr c' \<and> dval c = dval c'))
    \<and> (\<forall>j. dval (m_balance (h_manager h') j) = dval (m_balance (h_manager h) j) - (if j = i_scope_id i then dval c else 0))
    \<and> (dval (m_balance (h_manager h') (i_scope_id i)) < 0 \<longrightarrow> s_tripped (m_state (h_manager h')) (i_scope_id i) \<noteq> None)"
proof -
  from assms(1) obtain y where y: "run (new_metered s, h) = ametered_block render p y acts ending (new_metered s, h)" by (auto simp: metered_never)
  from stream_run [OF assms(2-13), of render y ending] obtain ms h' r m1 a c where f:
    "ametered_block render p y acts ending (new_metered s, h) = ((ms, h'), r)"
    "authorize (i_scope_id i) (exact (st_hold s)) (lit ''streamed call authorization'') None (h_manager h) = (m1, Inr a)"
    "map_of (s_holds (m_state m1)) (a_authorization_id a) \<noteq> None" "st_resolved (ms_core ms)" "st_settled (ms_core ms) = Some c"
    "paid (h_manager h) a (i_scope_id i) c (h_manager h')"
    "Close \<notin> set acts \<longrightarrow> (\<exists>c'. cost_of (i_pricing i) (st_usage (ms_core ms)) = Inr c' \<and> dval c = dval c')"
    unfolding split_paired_Ex fst_conv snd_conv by blast
  show ?thesis using y f(1-5,7) f(6) [unfolded paid_def]
    by (intro exI [of _ ms] exI [of _ h'] exI [of _ r] exI [of _ m1] exI [of _ a] exI [of _ c]) (simp del: lit_Cons)
qed

section \<open>Tried out\<close>

definition sample_provider :: provider where
  "sample_provider = \<lparr> pv_open = (\<lambda>h. (h, Inr ())),
     pv_events = [\<lambda>h. (h, Inr (R_Usage (sample_usage 1000))), \<lambda>h. (h, Inl (RuntimeError ''connection lost''))],
     pv_final = None, pv_close = (\<lambda>h. (h, Inr ())) \<rparr>"

theorem stream_always_settles_witness:
  "\<exists>m s ms h' r c. sample_root sample_manager = (m, Inr ()) \<and> stream sample_client sample_call_args = Inr s
     \<and> metered_block (\<lambda>_. []) sample_provider [Next, Next] (Inr ()) (new_metered s, sample_host None m) = ((ms, h'), r)
     \<and> st_settled (ms_core ms) = Some c \<and> dval (m_balance (h_manager h') (lit ''root'')) = 1 - dval c"
proof -
  obtain m where m: "sample_root sample_manager = (m, Inr ())" "sample_opened m" using sample_open by blast
  note r = sample_host_ready [OF m(2)]
  obtain s where s: "stream sample_client sample_call_args = Inr s" by (simp add: stream_def sample_size del: lit_Cons)
  have hold: "st_hold s = Dec 100000000 (- 8)" using stream_Inr(1) [OF s] by (simp add: sample_size)
  have p: "i_pricing sample_client = haiku" "i_extract_usage sample_client = default_usage_extractor" by (simp_all add: sample_client_def)
  have u: "usage_ok (sample_usage 1000)" by (simp add: usage_ok_def usage_counts_def sample_usage_def)
  have c: "cost_of haiku (sample_usage 1000) = Inr (Dec 500000 (- 8))" using sample_cost_of [of 1000] by simp
  have v: "dval (Dec 500000 (- 8)) \<le> 10" by (simp add: dval_def power_int_minus)
  have prov: "provider_ok sample_client (sample_usage 1000) sample_provider"
    by (simp add: provider_ok_def pull_ok_def sample_provider_def p default_usage_extractor_def in_bounds_def usage_counts_def sample_usage_def)
  have acts: "list_all (action_ok (sample_usage 1000)) [Next, Next]" by (simp add: action_ok_def)
  have obs: "stream_observe s (sample_host None m) = (sample_host None m, Inr ())" by (simp add: stream_observe_def sample_host_def)
  have v12: "dval (Dec 500000 (- 8)) \<le> 10 ^ 12" using v by simp
  have can: "can_hold (i_scope_id sample_client) (st_hold s) (Dec 100000000 (- 8)) (h_manager (sample_host None m))" unfolding hold by (rule r(3))
  have pk: "pricing_ok (i_pricing sample_client)" "cost_of (i_pricing sample_client) (sample_usage 1000) = Inr (Dec 500000 (- 8))"
    unfolding p using haiku_ok(2) c by simp_all
  from stream_always_settles [OF disjI1 [OF refl] s r(1,2) obs can pk(1) u pk(2) v12 r(4) [OF v] prov acts, of "\<lambda>_. []" "Inr ()"]
  obtain ms h' res c where "metered_block (\<lambda>_. []) sample_provider [Next, Next] (Inr ()) (new_metered s, sample_host None m) = ((ms, h'), res)"
    "st_settled (ms_core ms) = Some c"
    "\<forall>j. dval (m_balance (h_manager h') j) = dval (m_balance (h_manager (sample_host None m)) j) - (if j = i_scope_id sample_client then dval c else 0)" by blast
  then show ?thesis using m(1) s r(5) by (intro exI [of _ m] exI [of _ s] exI [of _ ms] exI [of _ h'] exI [of _ res] exI [of _ c]) (simp add: sample_size del: lit_Cons)
qed

end
