(* ===== verification/Shapes.thy ===== *)
theory Shapes
  imports Invariants
begin

text \<open>What one entry of an accepted chain looks like on its own (the checks of \<open>_Overlay._check_version\<close>, \<open>_check_shape\<close>,
  \<open>_check_v3\<close> and \<open>_check_link\<close>, read off a replay).\<close>

definition well_typed :: "unit_of_account \<Rightarrow> ledger_entry \<Rightarrow> bool" where
  "well_typed u e \<longleftrightarrow> known_version (version e) \<and> recompute_hash e = Inr (entry_hash e)
     \<and> direction e \<in> set (legal_directions (entry_type e))
     \<and> (if zero_value_type (entry_type e) then dval (amount e) = 0 \<and> (scope_id e = [] \<longleftrightarrow> scopeless_type (entry_type e))
        else 0 < dval (amount e) \<and> counted (amount e) u = Inr True)
     \<and> (version e = AUDIT_V1 \<longrightarrow> ref e = None \<and> \<not> zero_value_type (entry_type e))
     \<and> (entry_type e = CHECKPOINT \<longrightarrow> version e = AUDIT_V3 \<and> checkpoint_match (memo e) \<noteq> None)
     \<and> (version e = AUDIT_V3 \<longrightarrow> check_text (scope_id e) MAX_ID_BYTES True = None \<and> check_text (memo e) MAX_MEMO_BYTES False = None
          \<and> (\<forall>c. counterparty_id e = Some c \<longrightarrow> check_text c MAX_ID_BYTES True = None))"

text \<open>The recorded times, from a time on: an AGOV3 entry is never older than the entry before it.\<close>

fun timed :: "instant option \<Rightarrow> ledger_entry list \<Rightarrow> bool" where
  "timed t [] = True"
| "timed t (e # es) = ((version e = AUDIT_V3 \<longrightarrow> (\<forall>s. t = Some s \<longrightarrow> s \<le> timestamp e)) \<and> timed (Some (timestamp e)) es)"

lemma apply_well_typed:
  assumes "ref_apply r e True rs w = Inr (r', rs')"
  shows "well_typed (s_unit r) e" "version e = AUDIT_V3 \<Longrightarrow> s_last_timestamp r = Some s \<Longrightarrow> s \<le> timestamp e"
proof -
  from assms obtain r1 r2 where a: "ref_check_link r e True = Inr ()" "ref_check_version r e = Inr r1" "ref_check_shape r1 e = Inr r2"
    by (rule apply_cases)
  note position = apply_position [OF assms] and shape = shape_facts [OF a(3)]
  have same: "s_unit r1 = s_unit r" "s_last_timestamp r1 = s_last_timestamp r"
    using a(2) by (auto simp: ref_check_version_def split: if_splits)
  have known: "known_version (version e)" using a(1) by (simp add: ref_check_link_def split: if_splits)
  have old: "version e = AUDIT_V1 \<Longrightarrow> ref e = None \<and> \<not> zero_value_type (entry_type e)"
    using a(2) by (auto simp: ref_check_version_def split: if_splits)
  have v3: "version e = AUDIT_V3 \<Longrightarrow> ref_check_v3 r1 e = Inr ()"
    using a(3) by (auto simp: ref_check_shape_def Let_def split: if_splits)
  have money: "\<not> zero_value_type (entry_type e) \<Longrightarrow> counted (amount e) (s_unit r) = Inr True"
    using a(3) same(1) by (auto simp: ref_check_shape_def Let_def split: if_splits)
  have scope: "zero_value_type (entry_type e) \<Longrightarrow> \<not> scopeless_type (entry_type e) \<Longrightarrow> scope_id e \<noteq> []"
    using a(3) by (auto simp: ref_check_shape_def Let_def split: if_splits)
  have point: "version e = AUDIT_V3 \<and> checkpoint_match (memo e) \<noteq> None" if "entry_type e = CHECKPOINT"
  proof -
    have "version e = AUDIT_V3" using a(3) that by (simp add: ref_check_shape_def Let_def split: if_splits)
    moreover have "ref_check_checkpoint r1 e = Inr r2"
      using a(3) that by (auto simp: ref_check_shape_def Let_def zero_value_type_def scopeless_type_def split: if_splits)
    ultimately show ?thesis by (auto simp: ref_check_checkpoint_def split: option.splits)
  qed
  show "well_typed (s_unit r) e"
    unfolding well_typed_def using known position(8) shape money scope old point v3
    by (auto simp: ref_check_v3_def scopeless_zero split: if_splits option.splits)
  show "version e = AUDIT_V3 \<Longrightarrow> s_last_timestamp r = Some s \<Longrightarrow> s \<le> timestamp e"
    using v3 same(2) by (auto simp: ref_check_v3_def split: if_splits)
qed

lemma run_well_typed:
  "rfold (ref_step True False) (r, rs) es = Inr (r', rs') \<Longrightarrow> list_all (well_typed (s_unit r)) es \<and> timed (s_last_timestamp r) es"
proof (induction es arbitrary: r rs)
  case (Cons e es)
  from Cons.prems obtain r1 rs1 where a: "ref_apply r e True rs False = Inr (r1, rs1)" "rfold (ref_step True False) (r1, rs1) es = Inr (r', rs')"
    by (cases "ref_step True False (r, rs) e") (auto simp: ref_step_def [of _ _ "(r, rs)"])
  have "s_unit r1 = s_unit r" "s_last_timestamp r1 = Some (timestamp e)"
    using apply_position(5,9) [OF a(1)] by (simp_all add: config_part_def)
  with Cons.IH [OF a(2)] apply_well_typed [OF a(1)] show ?case by auto
qed simp

text \<open>C20: Every entry of a chain a replay accepts is well typed: its direction is legal for its type, a type that moves money
  carries a positive amount the unit can count and every other type zero, a scope is named exactly where the type has
  one, ids and memo are texts the format allows, its hash is that of its fields; and the recorded
  time never runs backwards.\<close>

theorem replay_well_typed:
  assumes "replay es legacy fin resolve None u = Inr s"
  shows "list_all (well_typed u) es \<and> timed None es"
proof -
  from assms obtain f r rs where "rfold (ref_step True False) (ref_start (empty_chain u legacy) (Some f), Some {}) es = Inr (r, rs)" by (rule replay_run)
  from run_well_typed [OF this] show ?thesis by (simp add: ref_start_def empty_chain_def chain_state.extend_def)
qed

theorem replay_well_typed_witness:
  "sample_chain \<noteq> [] \<and> list_all (well_typed USD) sample_chain \<and> timed None sample_chain"
  using sample_replay replay_well_typed [of sample_chain "[]" False None USD] by (auto simp: sample_chain_def)

end
