(* ===== verification/Canonical.thy ===== *)
theory Canonical
  imports Exceptions "HOL-Library.List_Lexorder"
begin

text \<open>
  Canonical JSON (\<open>receipts/canonical.py\<close>): what every receipt, checkpoint and snapshot is hashed as.
  A Python value is a \<open>pyvalue\<close>, a document of the restricted domain a \<open>json\<close>. \<open>canonical_bytes\<close> orders
  a value with \<open>ordered\<close> and hands it to \<open>json.dumps\<close>; \<open>encode\<close> is the encoder that only runs to name
  what is outside the domain. \<open>loads_strict\<close> is \<open>json.loads\<close> of a \<open>str\<close> with the three hooks: the
  scanner of the standard library is modelled as it is, with fuel that is shown to be enough, up to
  the interpreter's recursion limit. The errors keep only a label.
\<close>

section \<open>Values\<close>

datatype key = Str_Key ustr | Other_Key

datatype pyvalue = VNone | VBool bool | VInt int | VFloat | VStr ustr | VList "pyvalue list" | VMap "(key \<times> pyvalue) list" | VOther

datatype json = JNull | JBool bool | JInt int | JStr ustr | JArr "json list" | JObj "(ustr \<times> json) list"

definition MAX_SAFE_INTEGER :: int where
  "MAX_SAFE_INTEGER = 2 ^ 53 - 1"

definition safe_int :: "int \<Rightarrow> bool" where
  "safe_int i \<longleftrightarrow> - MAX_SAFE_INTEGER \<le> i \<and> i \<le> MAX_SAFE_INTEGER"

text \<open>\<open>_utf16_order\<close>: the bytes of UTF-16BE, a lone surrogate passed through.\<close>

definition utf16_char :: "nat \<Rightarrow> nat list" where
  "utf16_char c = (let unit = (\<lambda>u. [u div 256, u mod 256]) in
     if c < 0x10000 then unit c else unit (0xD800 + (c - 0x10000) div 1024) @ unit (0xDC00 + (c - 0x10000) mod 1024))"

definition utf16_order :: "ustr \<Rightarrow> nat list" where
  "utf16_order t = concat (map utf16_char t)"

definition is_ascii :: "ustr \<Rightarrow> bool" where
  "is_ascii t \<longleftrightarrow> list_all (\<lambda>c. c < 128) t"

section \<open>Encoding\<close>

fun all_some :: "'a option list \<Rightarrow> 'a list option" where
  "all_some [] = Some []"
| "all_some (x # xs) = (case x of None \<Rightarrow> None | Some y \<Rightarrow> map_option ((#) y) (all_some xs))"

definition with_key :: "key \<Rightarrow> 'a option \<Rightarrow> (ustr \<times> 'a) option" where
  "with_key k v = (case k of Other_Key \<Rightarrow> None | Str_Key s \<Rightarrow> map_option (Pair s) v)"

text \<open>The order of an object's keys: by code point when all are ASCII, by UTF-16 code unit otherwise.\<close>

definition key_order :: "(ustr \<times> 'a) list \<Rightarrow> (ustr \<times> 'a) list" where
  "key_order kvs = (if list_all (\<lambda>kv. is_ascii (fst kv)) kvs then sort_key fst kvs else sort_key (\<lambda>kv. utf16_order (fst kv)) kvs)"

fun ordered :: "pyvalue \<Rightarrow> json option" where
  "ordered VNone = Some JNull"
| "ordered (VBool b) = Some (JBool b)"
| "ordered (VStr s) = Some (JStr s)"
| "ordered (VInt i) = (if safe_int i then Some (JInt i) else None)"
| "ordered (VMap kvs) = map_option (\<lambda>kvs. JObj (key_order kvs)) (all_some (map (\<lambda>(k, v). with_key k (ordered v)) kvs))"
| "ordered (VList vs) = map_option JArr (all_some (map ordered vs))"
| "ordered VFloat = None"
| "ordered VOther = None"

text \<open>\<open>json.dumps\<close> with \<open>ensure_ascii=False\<close> and the separators \<open>","\<close> and \<open>":"\<close>.\<close>

fun joined :: "ustr list \<Rightarrow> ustr" where
  "joined [] = []"
| "joined [t] = t"
| "joined (t # u # ts) = t @ [44] @ joined (u # ts)"

fun dumps :: "json \<Rightarrow> ustr" where
  "dumps JNull = lit ''null''"
| "dumps (JBool b) = (if b then lit ''true'' else lit ''false'')"
| "dumps (JInt i) = int_text i"
| "dumps (JStr s) = json_string s"
| "dumps (JArr vs) = [91] @ joined (map dumps vs) @ [93]"
| "dumps (JObj kvs) = [123] @ joined (map (\<lambda>(k, v). json_string k @ [58] @ dumps v) kvs) @ [125]"

definition malformed :: "string \<Rightarrow> 'a res" where
  "malformed t = Inl (MalformedReceiptError t)"

text \<open>\<open>_encode\<close>. An object's keys are looked at before its members are written, in UTF-16 order.\<close>

fun sequenced :: "'a res list \<Rightarrow> 'a list res" where
  "sequenced [] = Inr []"
| "sequenced (r # rs) = rbind r (\<lambda>x. rbind (sequenced rs) (\<lambda>xs. Inr (x # xs)))"

definition key_text :: "key \<Rightarrow> ustr" where
  "key_text k = (case k of Str_Key s \<Rightarrow> s | Other_Key \<Rightarrow> [])"

fun encode :: "pyvalue \<Rightarrow> ustr res" where
  "encode VNone = Inr (lit ''null'')"
| "encode (VBool b) = Inr (if b then lit ''true'' else lit ''false'')"
| "encode (VInt i) = (if \<not> safe_int i then malformed ''integer is outside the safe range'' else Inr (int_text i))"
| "encode (VStr s) = Inr (json_string s)"
| "encode (VMap kvs) = (if \<exists>(k, v) \<in> set kvs. k = Other_Key then malformed ''object key is not a string''
     else rbind (sequenced (map (\<lambda>(k, t). rbind t (\<lambda>t. Inr (json_string k @ [58] @ t)))
         (sort_key (\<lambda>kv. utf16_order (fst kv)) (map (\<lambda>(k, v). (key_text k, encode v)) kvs))))
       (\<lambda>ts. Inr ([123] @ joined ts @ [125])))"
| "encode (VList vs) = rbind (sequenced (map encode vs)) (\<lambda>ts. Inr ([91] @ joined ts @ [93]))"
| "encode VFloat = malformed ''is a float''"
| "encode VOther = malformed ''has no canonical JSON encoding''"

definition canonical_bytes :: "pyvalue \<Rightarrow> byte list res" where
  "canonical_bytes v = (case ordered v of
       None \<Rightarrow> rbind (encode v) (\<lambda>_. Inl (RuntimeError ''AssertionError''))
     | Some j \<Rightarrow> (case utf8_encode (dumps j) of None \<Rightarrow> malformed ''a string is not valid Unicode'' | Some bs \<Rightarrow> Inr bs))"

section \<open>Decoding\<close>

definition json_ws :: "ustr \<Rightarrow> ustr" where
  "json_ws t = dropWhile (\<lambda>c. c \<in> {32, 9, 10, 13}) t"

text \<open>Four hexadecimal digits.\<close>

definition hex4 :: "ustr \<Rightarrow> nat option" where
  "hex4 t = (if length t < 4 then None else
     case (hex_value (t ! 0), hex_value (t ! 1), hex_value (t ! 2), hex_value (t ! 3)) of
       (Some a, Some b, Some c, Some d) \<Rightarrow> Some (((a * 16 + b) * 16 + c) * 16 + d)
     | _ \<Rightarrow> None)"

definition escape_char :: "nat \<Rightarrow> nat option" where
  "escape_char e = (if e = 34 then Some 34 else if e = 92 then Some 92 else if e = 47 then Some 47 else if e = 98 then Some 8
     else if e = 102 then Some 12 else if e = 110 then Some 10 else if e = 114 then Some 13 else if e = 116 then Some 9 else None)"

definition high_surrogate :: "nat \<Rightarrow> bool" where
  "high_surrogate c \<longleftrightarrow> 0xD800 \<le> c \<and> c < 0xDC00"

definition low_surrogate :: "nat \<Rightarrow> bool" where
  "low_surrogate c \<longleftrightarrow> 0xDC00 \<le> c \<and> c < 0xE000"

text \<open>The scanner behind an opening quote: the string up to the closing quote, and what follows it.\<close>

function scan_string :: "ustr \<Rightarrow> (ustr \<times> ustr) option" where
  "scan_string t = (case t of [] \<Rightarrow> None
     | c # t \<Rightarrow>
         if c = 34 then Some ([], t)
         else if c < 32 then None
         else if c \<noteq> 92 then map_option (\<lambda>(s, r). (c # s, r)) (scan_string t)
         else case t of [] \<Rightarrow> None
           | e # u \<Rightarrow> (case escape_char e of
                 Some x \<Rightarrow> map_option (\<lambda>(s, r). (x # s, r)) (scan_string u)
               | None \<Rightarrow>
                   if e \<noteq> 117 then None
                   else case hex4 u of None \<Rightarrow> None
                     | Some x \<Rightarrow>
                         let v = drop 4 u in
                         if high_surrogate x \<and> 6 < length v \<and> take 2 v = [92, 117] then
                           (case hex4 (drop 2 v) of None \<Rightarrow> None
                              | Some y \<Rightarrow>
                                  if low_surrogate y then
                                    map_option (\<lambda>(s, r). ((0x10000 + (x - 0xD800) * 1024 + (y - 0xDC00)) # s, r)) (scan_string (drop 6 v))
                                  else map_option (\<lambda>(s, r). (x # s, r)) (scan_string v))
                         else map_option (\<lambda>(s, r). (x # s, r)) (scan_string v)))"
  by pat_completeness auto
termination
  by (relation "measure length") auto

declare scan_string.simps [simp del]

definition is_num :: "nat \<Rightarrow> bool" where
  "is_num c \<longleftrightarrow> 48 \<le> c \<and> c \<le> 57"

text \<open>The integer part of a number: no leading zeros.\<close>

definition scan_digits :: "ustr \<Rightarrow> (ustr \<times> ustr) option" where
  "scan_digits t = (case t of [] \<Rightarrow> None
     | c # r \<Rightarrow> if c = 48 then Some ([c], r) else if is_num c then Some (takeWhile is_num t, dropWhile is_num t) else None)"

definition starts_fraction :: "ustr \<Rightarrow> bool" where
  "starts_fraction t = (case t of c # d # _ \<Rightarrow> c = 46 \<and> is_num d | _ \<Rightarrow> False)"

definition starts_exponent :: "ustr \<Rightarrow> bool" where
  "starts_exponent t = (case t of c # d # r \<Rightarrow> c \<in> {101, 69} \<and> (is_num d \<or> d \<in> {43, 45} \<and> (case r of e # _ \<Rightarrow> is_num e | [] \<Rightarrow> False)) | _ \<Rightarrow> False)"

definition starts_with :: "string \<Rightarrow> ustr \<Rightarrow> bool" where
  "starts_with p t \<longleftrightarrow> take (length p) t = lit p"

definition scan_number :: "ustr \<Rightarrow> (json \<times> ustr) res" where
  "scan_number t = (let neg = (t \<noteq> [] \<and> hd t = 45) in
     case scan_digits (if neg then tl t else t) of
       None \<Rightarrow> if starts_with ''-Infinity'' t then malformed ''is not JSON'' else malformed ''not valid JSON''
     | Some (ds, r) \<Rightarrow>
         if starts_fraction r \<or> starts_exponent r then malformed ''number has a fraction or exponent''
         else if 4300 < length ds then malformed ''not valid JSON''
         else Inr (JInt (if neg then - int (digits_value ds) else int (digits_value ds)), r))"

text \<open>\<open>_unique_keys\<close>.\<close>

definition unique_keys :: "(ustr \<times> json) list \<Rightarrow> json res" where
  "unique_keys kvs = (if distinct (map fst kvs) then Inr (JObj kvs) else malformed ''duplicate object key'')"

text \<open>\<open>scan_once\<close>, then the rest of an array after a value's first character is due, then the rest of an
  object, at a key. The fuel bounds the calls.\<close>

fun scan_value :: "nat \<Rightarrow> ustr \<Rightarrow> (json \<times> ustr) res"
  and scan_items :: "nat \<Rightarrow> ustr \<Rightarrow> (json list \<times> ustr) res"
  and scan_members :: "nat \<Rightarrow> ustr \<Rightarrow> ((ustr \<times> json) list \<times> ustr) res" where
  "scan_value 0 t = malformed ''endless''"
| "scan_value (Suc f) t = (case t of [] \<Rightarrow> malformed ''not valid JSON''
     | c # r \<Rightarrow>
         if c = 34 then (case scan_string r of None \<Rightarrow> malformed ''not valid JSON'' | Some (s, r) \<Rightarrow> Inr (JStr s, r))
         else if c = 123 then
           (case json_ws r of [] \<Rightarrow> malformed ''not valid JSON''
            | d # r' \<Rightarrow> if d = 125 then rbind (unique_keys []) (\<lambda>j. Inr (j, r'))
                else rbind (scan_members f (d # r')) (\<lambda>(kvs, r). rbind (unique_keys kvs) (\<lambda>j. Inr (j, r))))
         else if c = 91 then
           (case json_ws r of [] \<Rightarrow> malformed ''not valid JSON''
            | d # r' \<Rightarrow> if d = 93 then Inr (JArr [], r')
                else rbind (scan_items f (d # r')) (\<lambda>(vs, r). Inr (JArr vs, r)))
         else if starts_with ''null'' t then Inr (JNull, drop 4 t)
         else if starts_with ''true'' t then Inr (JBool True, drop 4 t)
         else if starts_with ''false'' t then Inr (JBool False, drop 5 t)
         else if starts_with ''NaN'' t \<or> starts_with ''Infinity'' t then malformed ''is not JSON''
         else scan_number t)"
| "scan_items 0 t = malformed ''endless''"
| "scan_items (Suc f) t = rbind (scan_value f t) (\<lambda>(v, r). case json_ws r of [] \<Rightarrow> malformed ''not valid JSON''
     | c # r \<Rightarrow>
         if c = 93 then Inr ([v], r)
         else if c = 44 then rbind (scan_items f (json_ws r)) (\<lambda>(vs, r). Inr (v # vs, r))
         else malformed ''not valid JSON'')"
| "scan_members 0 t = malformed ''endless''"
| "scan_members (Suc f) t = (case t of [] \<Rightarrow> malformed ''not valid JSON''
     | q # r \<Rightarrow>
         if q \<noteq> 34 then malformed ''not valid JSON''
         else case scan_string r of None \<Rightarrow> malformed ''not valid JSON''
           | Some (k, r) \<Rightarrow> (case json_ws r of [] \<Rightarrow> malformed ''not valid JSON''
               | c # r \<Rightarrow>
                   if c \<noteq> 58 then malformed ''not valid JSON''
                   else rbind (scan_value f (json_ws r)) (\<lambda>(v, r). case json_ws r of [] \<Rightarrow> malformed ''not valid JSON''
                     | d # r \<Rightarrow>
                         if d = 125 then Inr ([(k, v)], r)
                         else if d = 44 then rbind (scan_members f (json_ws r)) (\<lambda>(kvs, r). Inr ((k, v) # kvs, r))
                         else malformed ''not valid JSON'')))"

definition loads_strict :: "ustr \<Rightarrow> json res" where
  "loads_strict t = (if t \<noteq> [] \<and> hd t = 0xFEFF then malformed ''not valid JSON''
     else rbind (scan_value (Suc (2 * length t)) (json_ws t)) (\<lambda>(j, r).
       if json_ws r \<noteq> [] then malformed ''not valid JSON'' else Inr j))"

section \<open>The encoder that runs is the encoder that explains\<close>

lemma sort_key_agree:
  assumes "\<And>x y. x \<in> set xs \<Longrightarrow> y \<in> set xs \<Longrightarrow> f x \<le> f y \<longleftrightarrow> g x \<le> g y"
  shows "sort_key f xs = sort_key g xs"
  using assms
proof (induction xs)
  case (Cons x xs)
  have ins: "set ys \<subseteq> set xs \<Longrightarrow> insort_key f x ys = insort_key g x ys" for ys
    using Cons.prems by (induction ys) auto
  have "sort_key f xs = sort_key g xs" using Cons by simp
  then show ?case using ins [of "sort_key g xs"] by simp
qed simp

lemma utf16_ascii: "c < 128 \<Longrightarrow> utf16_char c = [0, c]"
  by (simp add: utf16_char_def)

lemma utf16_order_ascii: "is_ascii s \<Longrightarrow> is_ascii t \<Longrightarrow> utf16_order s \<le> utf16_order t \<longleftrightarrow> s \<le> t"
proof (induction s arbitrary: t)
  case (Cons c s)
  then show ?case by (cases t) (auto simp: is_ascii_def utf16_order_def utf16_ascii list_le_def)
qed (simp add: utf16_order_def)

lemma key_order_utf16: "key_order kvs = sort_key (\<lambda>kv. utf16_order (fst kv)) kvs"
proof (cases "list_all (\<lambda>kv. is_ascii (fst kv)) kvs")
  case True
  then have "sort_key fst kvs = sort_key (\<lambda>kv. utf16_order (fst kv)) kvs"
    by (intro sort_key_agree) (auto simp: list_all_iff utf16_order_ascii)
  with True show ?thesis by (simp add: key_order_def)
qed (auto simp: key_order_def)

lemma sort_key_map: "sort_key f (map g xs) = map g (sort_key (f \<circ> g) xs)"
proof (induction xs)
  case (Cons x xs)
  have "insort_key f (g x) (map g ys) = map g (insort_key (f \<circ> g) x ys)" for ys by (induction ys) auto
  with Cons show ?case by (simp add: comp_def)
qed simp

lemma set_all_some: "all_some xs = Some ys \<longleftrightarrow> xs = map Some ys"
  by (induction xs arbitrary: ys) (auto split: option.splits)

lemma all_some_None: "all_some xs = None \<longleftrightarrow> None \<in> set xs"
  by (induction xs) (auto split: option.splits)

lemma sequenced_Inr: "sequenced rs = Inr xs \<longleftrightarrow> rs = map Inr xs"
proof (induction rs arbitrary: xs)
  case (Cons r rs)
  then show ?case by (cases r) (auto simp: Cons_eq_map_conv)
qed auto

lemma sequenced_Inl: "Inl e \<in> set rs \<Longrightarrow> \<exists>e'. sequenced rs = Inl e' \<and> Inl e' \<in> set rs"
proof (induction rs)
  case (Cons r rs)
  then show ?case by (cases r; cases "sequenced rs") auto
qed simp

lemma with_key_Some: "with_key k x = Some p \<longleftrightarrow> (\<exists>s y. k = Str_Key s \<and> x = Some y \<and> p = (s, y))"
  by (auto simp: with_key_def split: key.splits)

lemma with_key_None: "with_key k x = None \<longleftrightarrow> k = Other_Key \<or> x = None"
  by (auto simp: with_key_def split: key.splits)

definition explained :: "pyvalue \<Rightarrow> bool" where
  "explained v \<longleftrightarrow> (case ordered v of Some j \<Rightarrow> encode v = Inr (dumps j) | None \<Rightarrow> \<exists>t. encode v = malformed t)"

lemma explained_map:
  assumes ih: "\<And>k v. (k, v) \<in> set kvs \<Longrightarrow> explained v"
  shows "explained (VMap kvs)"
proof (cases "ordered (VMap kvs)")
  case (Some j)
  then obtain kjs where k: "map (\<lambda>(k, v). with_key k (ordered v)) kvs = map Some kjs" and j: "j = JObj (key_order kjs)"
    by (auto simp: set_all_some)
  have each: "\<exists>s y. k = Str_Key s \<and> ordered v = Some y \<and> encode v = Inr (dumps y)" if kv: "(k, v) \<in> set kvs" for k v
  proof -
    from kv have "with_key k (ordered v) \<in> set (map Some kjs)" unfolding k [symmetric] by force
    then obtain s y where "k = Str_Key s" "ordered v = Some y" by (auto simp: with_key_Some dest!: sym [of "Some _"])
    then show ?thesis using ih [OF kv] by (simp add: explained_def)
  qed
  have "map (\<lambda>(k, v). (key_text k, encode v)) kvs = map (\<lambda>(s, y). (s, Inr (dumps y))) kjs"
    using k each
  proof (induction kvs arbitrary: kjs)
    case (Cons kv kvs)
    obtain k v where kv: "kv = (k, v)" by (cases kv)
    then obtain s y where e: "k = Str_Key s" "ordered v = Some y" "encode v = Inr (dumps y)" using Cons.prems(2) by fastforce
    with Cons.prems(1) kv obtain kjs' where "kjs = (s, y) # kjs'" "map (\<lambda>(k, v). with_key k (ordered v)) kvs = map Some kjs'"
      by (auto simp: with_key_def)
    then show ?case using Cons.IH [of kjs'] Cons.prems(2) e kv by (auto simp: key_text_def)
  qed simp
  then have "sort_key (\<lambda>kv. utf16_order (fst kv)) (map (\<lambda>(k, v). (key_text k, encode v)) kvs)
      = map (\<lambda>(s, y). (s, Inr (dumps y))) (key_order kjs)"
    by (simp add: sort_key_map key_order_utf16 comp_def case_prod_beta)
  moreover have "\<not> (\<exists>(k, v) \<in> set kvs. k = Other_Key)" using each by fastforce
  moreover have "sequenced (map (\<lambda>(k, t). rbind t (\<lambda>t. Inr (json_string k @ [58] @ t))) (map (\<lambda>(s, y). (s, Inr (dumps y))) ys))
      = Inr (map (\<lambda>(k, v). json_string k @ [58] @ dumps v) ys)" for ys
    by (simp add: sequenced_Inr comp_def case_prod_beta)
  ultimately have "encode (VMap kvs) = Inr (dumps j)" using j by simp
  then show ?thesis unfolding explained_def Some by simp
next
  case None
  show ?thesis
  proof (cases "\<exists>(k, v) \<in> set kvs. k = Other_Key")
    case True
    then have "encode (VMap kvs) = malformed ''object key is not a string''" by simp
    then show ?thesis unfolding explained_def None by auto
  next
    case False
    from None have "None \<in> set (map (\<lambda>(k, v). with_key k (ordered v)) kvs)" by (simp add: all_some_None)
    with False obtain k v where kv: "(k, v) \<in> set kvs" "ordered v = None" by (auto simp: with_key_None dest!: sym [of None])
    let ?rs = "map (\<lambda>(k, t). rbind t (\<lambda>t. Inr (json_string k @ [58] @ t)))
         (sort_key (\<lambda>kv. utf16_order (fst kv)) (map (\<lambda>(k, v). (key_text k, encode v)) kvs))"
    have bad: "\<exists>t. e = MalformedReceiptError t" if "Inl e \<in> set ?rs" for e
    proof -
      from that obtain k v where "(k, v) \<in> set kvs" "encode v = Inl e" by (auto split: sum.splits simp: rbind_def)
      then show ?thesis using ih [of k v] by (auto simp: explained_def malformed_def split: option.splits)
    qed
    obtain t where "encode v = malformed t" using ih [OF kv(1)] kv(2) by (auto simp: explained_def)
    then have "Inl (MalformedReceiptError t) \<in> set ?rs" using kv(1) by (force simp: malformed_def image_iff)
    from sequenced_Inl [OF this] bad obtain t where "sequenced ?rs = Inl (MalformedReceiptError t)" by blast
    then have "encode (VMap kvs) = malformed t" using False by (simp add: malformed_def)
    then show ?thesis unfolding explained_def None by auto
  qed
qed

lemma explained_list:
  assumes ih: "\<And>v. v \<in> set vs \<Longrightarrow> explained v"
  shows "explained (VList vs)"
proof (cases "ordered (VList vs)")
  case (Some j)
  then obtain js where k: "map ordered vs = map Some js" and j: "j = JArr js" by (auto simp: set_all_some)
  have "map encode vs = map Inr (map dumps js)"
    using k ih
  proof (induction vs arbitrary: js)
    case (Cons v vs)
    then obtain y ys where "js = y # ys" "ordered v = Some y" "map ordered vs = map Some ys" by (cases js) auto
    then show ?case using Cons.IH [of ys] Cons.prems(2) [of v] Cons.prems(2) by (simp add: explained_def)
  qed simp
  then have "sequenced (map encode vs) = Inr (map dumps js)" by (simp only: sequenced_Inr)
  then show ?thesis unfolding explained_def Some using j by simp
next
  case None
  then have "None \<in> set (map ordered vs)" by (simp add: all_some_None)
  then obtain v where v: "v \<in> set vs" "ordered v = None" by force
  then obtain t where "Inl (MalformedReceiptError t) \<in> set (map encode vs)"
    using ih [OF v(1)] by (force simp: explained_def malformed_def image_iff)
  from sequenced_Inl [OF this] obtain e where e: "sequenced (map encode vs) = Inl e" "Inl e \<in> set (map encode vs)" by blast
  then obtain x where "x \<in> set vs" "encode x = Inl e" by force
  then have "\<exists>t. e = MalformedReceiptError t" using ih [of x] by (auto simp: explained_def malformed_def split: option.splits)
  then show ?thesis unfolding explained_def None using e(1) by (auto simp: malformed_def)
qed

lemma explained_all: "explained v"
proof (induction v)
  case (VMap kvs)
  then show ?case by (intro explained_map) (auto simp: Basic_BNFs.snds.simps)
next
  case (VList vs)
  then show ?case by (intro explained_list)
qed (simp_all add: explained_def malformed_def)

text \<open>The bytes are those of \<open>_encode\<close>, the encoder that explains: the fast path changes nothing, and where
  it gives up the slow one says why, so the assertion behind it cannot fail.\<close>

theorem canonical_is_encode:
  "canonical_bytes v = (case encode v of Inl e \<Rightarrow> Inl e
     | Inr t \<Rightarrow> (case utf8_encode t of None \<Rightarrow> malformed ''a string is not valid Unicode'' | Some bs \<Rightarrow> Inr bs))"
  using explained_all [of v] by (auto simp: canonical_bytes_def explained_def malformed_def split: option.splits)

section \<open>What was encoded is decoded\<close>

lemma hex4_json_u: "c < 32 \<Longrightarrow> hex4 (map hex_digit (fixed_digits 16 4 c) @ r) = Some c"
proof -
  assume c: "c < 32"
  have "fixed_digits 16 4 c = [0, 0, c div 16, c mod 16]" using c by (simp add: fixed_digits_def upt_rec)
  then show ?thesis using c by (simp add: hex4_def hex_value_hex_digit)
qed

lemma scan_char: "scan_string (json_char c @ t) = map_option (\<lambda>(s, r). (c # s, r)) (scan_string t)"
proof (cases "json_special c")
  case (Some e)
  then show ?thesis
    by (subst scan_string.simps) (auto simp: json_char_def json_special_def escape_char_def split: if_splits)
next
  case None
  show ?thesis
  proof (cases "c < 32")
    case True
    have f: "fixed_digits 16 4 c = [0, 0, c div 16, c mod 16]" using True by (simp add: fixed_digits_def upt_rec)
    have h: "hex4 ([hex_digit 0, hex_digit 0, hex_digit (c div 16), hex_digit (c mod 16)] @ t) = Some c"
      using hex4_json_u [OF True, of t] f by simp
    show ?thesis using None True h
      by (subst scan_string.simps) (simp add: json_char_def json_u_def f escape_char_def high_surrogate_def)
  next
    case False
    with None show ?thesis
      by (subst scan_string.simps) (auto simp: json_char_def json_special_def split: if_splits)
  qed
qed

lemma scan_body: "scan_string (json_body t @ 34 # r) = Some (t, r)"
  by (induction t) (simp add: scan_string.simps, simp add: scan_char)

lemma digits_head: "0 < n \<Longrightarrow> \<exists>c t. digits n = c # t \<and> 49 \<le> c \<and> c \<le> 57"
proof (induction n rule: digits.induct)
  case (1 n)
  show ?case
  proof (cases "n < 10")
    case False
    with 1 obtain c t where "digits (n div 10) = c # t" "49 \<le> c" "c \<le> 57" by fastforce
    with False show ?thesis by (subst digits.simps) simp
  qed (use 1 in \<open>subst digits.simps, simp\<close>)
qed

definition delimited :: "ustr \<Rightarrow> bool" where
  "delimited r \<longleftrightarrow> (case r of [] \<Rightarrow> True | c # _ \<Rightarrow> c \<in> {44, 93, 125, 32, 9, 10, 13})"

lemma scan_digits_digits: "delimited r \<Longrightarrow> scan_digits (digits n @ r) = Some (digits n, r)"
proof (cases "n = 0")
  case True
  then show ?thesis by (simp add: digits.simps [of 0] scan_digits_def)
next
  case False
  then obtain c t where c: "digits n = c # t" "49 \<le> c" "c \<le> 57" using digits_head [of n] by auto
  assume r: "delimited r"
  have all: "\<forall>x \<in> set (digits n). is_num x" using digits_chars [of _ n] by (auto simp: is_num_def)
  have stop: "takeWhile is_num r = []" "dropWhile is_num r = r"
    using r by (cases r; auto simp: delimited_def is_num_def)+
  have "takeWhile is_num (digits n @ r) = digits n" "dropWhile is_num (digits n @ r) = r"
    using all stop by (simp_all add: takeWhile_append2 dropWhile_append2)
  moreover have "is_num c" "c \<noteq> 48" using c by (auto simp: is_num_def)
  ultimately show ?thesis using c by (simp add: scan_digits_def)
qed

lemma delimited_number: "delimited r \<Longrightarrow> \<not> starts_fraction r \<and> \<not> starts_exponent r"
  by (auto simp: delimited_def starts_fraction_def starts_exponent_def split: list.splits)

lemma scan_number_int:
  assumes r: "delimited r" and i: "safe_int i"
  shows "scan_number (int_text i @ r) = Inr (JInt i, r)"
proof -
  have len: "\<not> 4300 < length (digits (nat \<bar>i\<bar>))"
  proof -
    have "\<bar>i\<bar> < 10 ^ 16" using i by (simp add: safe_int_def MAX_SAFE_INTEGER_def abs_if)
    then have "length (digits (nat \<bar>i\<bar>)) \<le> 16" by (intro length_digits) (simp_all add: nat_less_iff)
    then show ?thesis by simp
  qed
  have d: "digits n \<noteq> 45 # t" for n t using digits_chars [of 45 n] by auto
  have hd: "hd (digits n @ r) \<noteq> 45" for n using digits_chars [of "hd (digits n)" n] by simp
  show ?thesis
  proof (cases "i < 0")
    case True
    then show ?thesis using scan_digits_digits [OF r, of "nat (- i)"] delimited_number [OF r] len
      by (simp add: scan_number_def int_text_def)
  next
    case False
    then show ?thesis using scan_digits_digits [OF r, of "nat i"] delimited_number [OF r] len hd [of "nat i"]
      by (simp add: scan_number_def int_text_def)
  qed
qed

definition solid :: "ustr \<Rightarrow> bool" where
  "solid t \<longleftrightarrow> (case t of [] \<Rightarrow> False | c # _ \<Rightarrow> c \<notin> {32, 9, 10, 13, 93, 125})"

lemma json_ws_solid: "solid t \<Longrightarrow> json_ws (t @ r) = t @ r"
  by (auto simp: solid_def json_ws_def split: list.splits)

lemma json_ws_char [simp]: "c \<notin> {32, 9, 10, 13} \<Longrightarrow> json_ws (c # t) = c # t"
  by (simp add: json_ws_def)

lemma digits_solid: "solid (digits n)"
proof (cases "digits n")
  case (Cons c t)
  then show ?thesis using digits_chars [of c n] by (auto simp: solid_def)
qed simp

lemma dumps_solid: "solid (dumps j)"
  using digits_solid by (cases j) (simp_all add: solid_def int_text_def json_string_def)

text \<open>A document of the domain: safe integers, and no object with a key twice.\<close>

fun json_ok :: "json \<Rightarrow> bool" where
  "json_ok (JInt i) \<longleftrightarrow> safe_int i"
| "json_ok (JArr vs) \<longleftrightarrow> (\<forall>v \<in> set vs. json_ok v)"
| "json_ok (JObj kvs) \<longleftrightarrow> distinct (map fst kvs) \<and> (\<forall>(k, v) \<in> set kvs. json_ok v)"
| "json_ok _ \<longleftrightarrow> True"

definition scanned :: "json \<Rightarrow> bool" where
  "scanned j \<longleftrightarrow> (\<forall>f r. 2 * length (dumps j) < f \<and> delimited r \<longrightarrow> scan_value f (dumps j @ r) = Inr (j, r))"

lemma delimited_simps [simp]: "delimited (44 # r)" "delimited (93 # r)" "delimited (125 # r)" "delimited []"
  by (simp_all add: delimited_def)

lemma joined_Cons: "ts \<noteq> [] \<Longrightarrow> joined (t # ts) = t @ [44] @ joined ts"
  by (cases ts) simp_all

lemma joined_solid: "ts \<noteq> [] \<Longrightarrow> (\<And>t. t \<in> set ts \<Longrightarrow> solid t) \<Longrightarrow> solid (joined ts)"
proof -
  assume ts: "ts \<noteq> []" "\<And>t. t \<in> set ts \<Longrightarrow> solid t"
  have "solid t \<Longrightarrow> solid (t @ r)" for t r by (cases t) (simp_all add: solid_def)
  with ts show ?thesis by (cases ts rule: joined.cases) (simp_all del: append_Cons append.simps(2))
qed

lemma scan_items_joined:
  "vs \<noteq> [] \<Longrightarrow> (\<And>v. v \<in> set vs \<Longrightarrow> scanned v) \<Longrightarrow> 2 * length (joined (map dumps vs)) + 1 < f \<Longrightarrow>
     scan_items f (joined (map dumps vs) @ 93 # r) = Inr (vs, r)"
proof (induction vs arbitrary: f)
  case (Cons v vs)
  obtain g where f: "f = Suc g" using Cons.prems by (cases f) auto
  show ?case
  proof (cases "vs = []")
    case True
    then have "scan_value g (dumps v @ 93 # r) = Inr (v, 93 # r)" using Cons.prems f by (simp add: scanned_def)
    with True f show ?thesis by simp
  next
    case False
    have len: "2 * length (dumps v) + 2 * length (joined (map dumps vs)) + 3 < f"
      using Cons.prems(3) False by (simp add: joined_Cons)
    have "scan_value g (dumps v @ 44 # joined (map dumps vs) @ 93 # r) = Inr (v, 44 # joined (map dumps vs) @ 93 # r)"
      using Cons.prems(2) f len by (simp add: scanned_def)
    moreover have "scan_items g (joined (map dumps vs) @ 93 # r) = Inr (vs, r)"
      using Cons.IH [OF False] Cons.prems(2) len f by simp
    moreover have "json_ws (joined (map dumps vs) @ 93 # r) = joined (map dumps vs) @ 93 # r"
      using False by (intro json_ws_solid joined_solid) (auto intro: dumps_solid)
    ultimately show ?thesis using False f by (simp add: joined_Cons)
  qed
qed simp

definition member_text :: "ustr \<times> json \<Rightarrow> ustr" where
  "member_text kv = (case kv of (k, v) \<Rightarrow> json_string k @ [58] @ dumps v)"

lemma member_solid: "solid (member_text kv)"
  by (simp add: member_text_def solid_def json_string_def split: prod.split)

lemma scan_members_joined:
  "kvs \<noteq> [] \<Longrightarrow> (\<And>k v. (k, v) \<in> set kvs \<Longrightarrow> scanned v) \<Longrightarrow> 2 * length (joined (map member_text kvs)) + 1 < f \<Longrightarrow>
     scan_members f (joined (map member_text kvs) @ 125 # r) = Inr (kvs, r)"
proof (induction kvs arbitrary: f)
  case (Cons kv kvs)
  obtain g where f: "f = Suc g" using Cons.prems by (cases f) auto
  obtain k v where kv: "kv = (k, v)" by (cases kv)
  have v: "scanned v" using Cons.prems(2) kv by auto
  have ws: "json_ws (dumps v @ t) = dumps v @ t" for t using json_ws_solid dumps_solid by blast
  show ?case
  proof (cases "kvs = []")
    case True
    have "2 * length (dumps v) < g" using Cons.prems(3) True kv f by (simp add: member_text_def json_string_def)
    then have "scan_value g (dumps v @ 125 # r) = Inr (v, 125 # r)" using v by (simp add: scanned_def)
    with True f show ?thesis using scan_body [of k "58 # dumps v @ 125 # r"] ws [of "125 # r"]
      by (simp add: kv member_text_def json_string_def)
  next
    case False
    let ?rest = "joined (map member_text kvs) @ 125 # r"
    have len: "2 * length (dumps v) < g" "2 * length (joined (map member_text kvs)) + 1 < g"
    proof -
      have "length (member_text kv) = length (json_string k) + 1 + length (dumps v)" by (simp add: kv member_text_def)
      moreover have "0 < length (json_string k)" by (simp add: json_string_def)
      ultimately show "2 * length (dumps v) < g" "2 * length (joined (map member_text kvs)) + 1 < g"
        using Cons.prems(3) False f by (simp_all add: joined_Cons)
    qed
    then have "scan_value g (dumps v @ 44 # ?rest) = Inr (v, 44 # ?rest)" using v by (simp add: scanned_def)
    moreover have "scan_members g ?rest = Inr (kvs, r)" using Cons.IH [OF False] Cons.prems(2) len by (meson list.set_intros(2))
    moreover have "json_ws ?rest = ?rest"
      using False by (intro json_ws_solid joined_solid) (auto intro: member_solid)
    ultimately show ?thesis using False f scan_body [of k "58 # dumps v @ 44 # ?rest"] ws [of "44 # ?rest"]
      by (simp add: joined_Cons kv) (simp add: member_text_def json_string_def)
  qed
qed simp

lemma dumps_obj: "dumps (JObj kvs) = [123] @ joined (map member_text kvs) @ [125]"
  by (simp add: member_text_def [abs_def])

lemma solid_head: "solid t \<Longrightarrow> \<exists>c u. t = c # u \<and> c \<noteq> 93 \<and> c \<noteq> 125"
  by (auto simp: solid_def split: list.splits)

lemma json_scanned: "json_ok j \<Longrightarrow> scanned j"
proof (induction j)
  case (JInt i)
  have h: "\<exists>c u. int_text i = c # u \<and> (48 \<le> c \<and> c \<le> 57 \<or> c = 45)"
  proof (cases "i < 0")
    case False
    obtain c u where "digits (nat i) = c # u" by (cases "digits (nat i)") auto
    then show ?thesis using digits_chars [of c "nat i"] False by (simp add: int_text_def)
  qed (simp add: int_text_def)
  show ?case
    unfolding scanned_def
  proof (intro allI impI, elim conjE)
    fix f r
    assume f: "2 * length (dumps (JInt i)) < f" and r: "delimited r"
    obtain g where "f = Suc g" using f by (cases f) auto
    moreover obtain c u where c: "int_text i = c # u" "48 \<le> c \<and> c \<le> 57 \<or> c = 45" using h by blast
    moreover have "scan_number (c # u @ r) = Inr (JInt i, r)" using scan_number_int [OF r, of i] JInt c(1) by simp
    moreover have "c \<noteq> 34" "c \<noteq> 123" "c \<noteq> 91" "c \<noteq> 110" "c \<noteq> 116" "c \<noteq> 102" "c \<noteq> 78" "c \<noteq> 73" using c(2) by auto
    ultimately show "scan_value f (dumps (JInt i) @ r) = Inr (JInt i, r)"
      by (simp add: starts_with_def)
  qed
next
  case (JStr s)
  show ?case
    unfolding scanned_def
  proof (intro allI impI, elim conjE)
    fix f r
    assume f: "2 * length (dumps (JStr s)) < f" and r: "delimited r"
    obtain g where "f = Suc g" using f by (cases f) auto
    then show "scan_value f (dumps (JStr s) @ r) = Inr (JStr s, r)" using scan_body [of s r] by (simp add: json_string_def)
  qed
next
  case (JArr vs)
  show ?case
    unfolding scanned_def
  proof (intro allI impI, elim conjE)
    fix f r
    assume f: "2 * length (dumps (JArr vs)) < f" and r: "delimited r"
    obtain g where g: "f = Suc g" using f by (cases f) auto
    show "scan_value f (dumps (JArr vs) @ r) = Inr (JArr vs, r)"
    proof (cases "vs = []")
      case False
      then have s: "solid (joined (map dumps vs))" by (intro joined_solid) (auto intro: dumps_solid)
      have "scan_items g (joined (map dumps vs) @ 93 # r) = Inr (vs, r)"
        using JArr False f g by (intro scan_items_joined) auto
      then show ?thesis using json_ws_solid [OF s, of "93 # r"] solid_head [OF s] g by auto
    qed (use g in simp)
  qed
next
  case (JObj kvs)
  show ?case
    unfolding scanned_def
  proof (intro allI impI, elim conjE)
    fix f r
    assume f: "2 * length (dumps (JObj kvs)) < f" and r: "delimited r"
    obtain g where g: "f = Suc g" using f by (cases f) auto
    show "scan_value f (dumps (JObj kvs) @ r) = Inr (JObj kvs, r)"
    proof (cases "kvs = []")
      case False
      then have s: "solid (joined (map member_text kvs))" by (intro joined_solid) (auto intro: member_solid)
      have "scan_members g (joined (map member_text kvs) @ 125 # r) = Inr (kvs, r)"
        using JObj False f g by (intro scan_members_joined) (auto simp: dumps_obj simp del: dumps.simps)
      then show ?thesis using json_ws_solid [OF s, of "125 # r"] solid_head [OF s] g JObj.prems
        unfolding dumps_obj by (auto simp: unique_keys_def)
    qed (use g in \<open>simp add: unique_keys_def\<close>)
  qed
next
  case JNull
  show ?case unfolding scanned_def
  proof (intro allI impI, elim conjE)
    fix f r
    assume "2 * length (dumps JNull) < f"
    then obtain g where "f = Suc g" by (cases f) auto
    then show "scan_value f (dumps JNull @ r) = Inr (JNull, r)" by (simp add: starts_with_def)
  qed
next
  case (JBool b)
  show ?case unfolding scanned_def
  proof (intro allI impI, elim conjE)
    fix f r
    assume "2 * length (dumps (JBool b)) < f"
    then obtain g where "f = Suc g" by (cases f) auto
    then show "scan_value f (dumps (JBool b) @ r) = Inr (JBool b, r)" by (cases b) (simp_all add: starts_with_def)
  qed
qed

section \<open>The scanner ends\<close>

lemma scan_string_rest: "scan_string t = Some (s, r) \<Longrightarrow> length r < length t"
proof (induction t arbitrary: s r rule: measure_induct_rule [where f = length])
  case (less t)
  have ih: "length r < length t" if "scan_string u = Some (s', r)" "length u < length t" for u s'
    using less.IH [OF that(2,1)] that(2) by simp
  have n: "length (drop k u) \<le> length u" for k and u :: ustr by simp
  from less.prems show ?case
    by (subst (asm) scan_string.simps) (auto simp: Let_def split: list.splits if_splits option.splits dest!: ih)
qed

lemma json_ws_rest: "length (json_ws t) \<le> length t"
  by (simp add: json_ws_def length_dropWhile_le)

lemma scan_number_rest:
  "scan_number t \<noteq> malformed ''endless''" "scan_number t = Inr (j, r) \<Longrightarrow> length r < length t"
proof -
  have d: "scan_digits u = Some (ds, r) \<Longrightarrow> length r < length u" for u ds r
  proof (cases u)
    case (Cons c v)
    assume "scan_digits u = Some (ds, r)"
    moreover have "length (dropWhile is_num v) \<le> length v" by (rule length_dropWhile_le)
    ultimately show ?thesis using Cons by (auto simp: scan_digits_def split: if_splits)
  qed (simp add: scan_digits_def)
  show "scan_number t = Inr (j, r) \<Longrightarrow> length r < length t"
    by (cases t) (auto simp: scan_number_def Let_def malformed_def dest!: d split: option.splits if_splits)
  show "scan_number t \<noteq> malformed ''endless''"
    by (auto simp: scan_number_def Let_def malformed_def split: option.split prod.split)
qed

text \<open>A scan that says what is wrong, or stops before the text does.\<close>

definition stops :: "ustr \<Rightarrow> ('a \<times> ustr) res \<Rightarrow> bool" where
  "stops t x \<longleftrightarrow> (case x of Inl e \<Rightarrow> e \<noteq> MalformedReceiptError ''endless'' | Inr (j, r) \<Rightarrow> length r < length t)"

lemma stops_simps [simp]:
  "stops t (Inr (j, r)) \<longleftrightarrow> length r < length t" "w \<noteq> ''endless'' \<Longrightarrow> stops t (malformed w)"
  by (simp_all add: stops_def malformed_def)

lemma stops_bind:
  assumes "stops t x" "\<And>j r. x = Inr (j, r) \<Longrightarrow> length r < length t \<Longrightarrow> stops u (f (j, r))"
  shows "stops u (rbind x f)"
  using assms by (cases x) (auto simp: stops_def)

lemma unique_keys_stops: "length r < length u \<Longrightarrow> stops u (rbind (unique_keys kvs) (\<lambda>j. Inr (j, r)))"
  by (simp add: unique_keys_def malformed_def stops_def)

lemma scan_ends:
  "2 * length t < f \<Longrightarrow> stops t (scan_value f t)"
  "2 * length t + 1 < f \<Longrightarrow> stops t (scan_items f t)"
  "2 * length t + 1 < f \<Longrightarrow> stops t (scan_members f t)"
proof (induction f t and f t and f t rule: scan_value_scan_items_scan_members.induct)
  case (2 f t)
  show ?case
  proof (cases t)
    case (Cons c r)
    have ws: "length (json_ws r) \<le> length r" by (rule json_ws_rest)
    have num: "stops t (scan_number t)"
      using scan_number_rest [of t] by (auto simp: stops_def malformed_def split: sum.split)
    have members: "stops t (rbind (scan_members f (d # r')) (\<lambda>(kvs, r). rbind (unique_keys kvs) (\<lambda>j. Inr (j, r))))"
      if "c = 123" "json_ws r = d # r'" "d \<noteq> 125" for d r'
      using 2(1) [OF Cons _ that] that 2(3) Cons ws by (intro stops_bind [where t = "d # r'"]) (auto intro: unique_keys_stops)
    have items: "stops t (rbind (scan_items f (d # r')) (\<lambda>(vs, r). Inr (JArr vs, r)))"
      if "c = 91" "json_ws r = d # r'" "d \<noteq> 93" for d r'
      using 2(2) [OF Cons _ _ that] that 2(3) Cons ws by (intro stops_bind [where t = "d # r'"]) auto
    have str: "length u < Suc (length r)" if "scan_string r = Some (s, u)" for s u using scan_string_rest [OF that] by simp
    consider "c = 34" | "c = 123" | "c = 91" | "c \<notin> {34, 123, 91}" by blast
    then show ?thesis
    proof cases
      case 1
      then show ?thesis using Cons str by (auto split: option.split)
    next
      case 2
      then show ?thesis using Cons members ws unique_keys_stops [of _ t "[]"] by (auto split: list.split)
    next
      case 3
      then show ?thesis using Cons items ws by (auto split: list.split)
    next
      case 4
      have "scan_value (Suc f) t = (if starts_with ''null'' t then Inr (JNull, drop 4 t)
         else if starts_with ''true'' t then Inr (JBool True, drop 4 t)
         else if starts_with ''false'' t then Inr (JBool False, drop 5 t)
         else if starts_with ''NaN'' t \<or> starts_with ''Infinity'' t then malformed ''is not JSON''
         else scan_number t)" using 4 Cons by simp
      then show ?thesis using num Cons by (simp only: split: if_split) (simp add: le_imp_less_Suc)
    qed
  qed simp
next
  case (4 f t)
  have v: "stops t (scan_value f t)" using 4 by simp
  show ?case unfolding scan_items.simps
  proof (rule stops_bind [OF v], goal_cases)
    case (1 j r)
    show ?case
    proof (cases "json_ws r")
      case (Cons c u)
      have u: "length u < length r" "length (json_ws u) \<le> length u" using json_ws_rest [of r] json_ws_rest [of u] Cons by auto
      have "stops t (rbind (scan_items f (json_ws u)) (\<lambda>(vs, r). Inr (j # vs, r)))" if "c \<noteq> 93" "c = 44"
        using 4(2) [OF 1(1) refl Cons that] u 1(2) 4(3) by (intro stops_bind [where t = "json_ws u"]) auto
      then show ?thesis using Cons u 1(2) by simp
    qed simp
  qed
next
  case (6 f t)
  show ?case
  proof (cases t)
    case (Cons q w)
    show ?thesis
    proof (cases "q = 34 \<and> scan_string w \<noteq> None \<and> (case scan_string w of Some (k, r) \<Rightarrow> json_ws r \<noteq> [] \<and> hd (json_ws r) = 58)")
      case False
      then show ?thesis using Cons by (auto split: option.splits list.splits)
    next
      case True
      then obtain k r u where q: "q = 34" "scan_string w = Some (k, r)" "json_ws r = 58 # u"
        by (auto simp: neq_Nil_conv)
      have u: "length r < length w" "length u < length r" "length (json_ws u) \<le> length u"
        using scan_string_rest [OF q(2)] json_ws_rest [of r] json_ws_rest [of u] q(3) by auto
      have v: "stops (json_ws u) (scan_value f (json_ws u))" using 6(1) [OF Cons _ q(2) refl q(3)] q(1) u 6(3) Cons by simp
      have "stops t (rbind (scan_value f (json_ws u)) (\<lambda>(v, r). case json_ws r of [] \<Rightarrow> malformed ''not valid JSON''
           | d # r \<Rightarrow> if d = 125 then Inr ([(k, v)], r)
               else if d = 44 then rbind (scan_members f (json_ws r)) (\<lambda>(kvs, r). Inr ((k, v) # kvs, r))
               else malformed ''not valid JSON''))"
      proof (rule stops_bind [OF v], goal_cases)
        case (1 j s)
        show ?case
        proof (cases "json_ws s")
          case (Cons d x)
          have x: "length x < length s" "length (json_ws x) \<le> length x" using json_ws_rest [of s] json_ws_rest [of x] Cons by auto
          have "stops t (rbind (scan_members f (json_ws x)) (\<lambda>(kvs, r). Inr ((k, j) # kvs, r)))" if "d \<noteq> 125" "d = 44"
            using 6(2) [OF \<open>t = q # w\<close> _ q(2) refl q(3) _ 1(1) refl Cons that] q(1) u x 1(2) 6(3) \<open>t = q # w\<close>
            by (intro stops_bind [where t = "json_ws x"]) auto
          then show ?thesis using Cons x u 1(2) \<open>t = q # w\<close> by simp
        qed simp
      qed
      then show ?thesis using Cons q by simp
    qed
  qed simp
qed simp_all


section \<open>One value, one encoding\<close>

fun pyvalue_ok :: "pyvalue \<Rightarrow> bool" where
  "pyvalue_ok (VList vs) \<longleftrightarrow> (\<forall>v \<in> set vs. pyvalue_ok v)"
| "pyvalue_ok (VMap kvs) \<longleftrightarrow> distinct (map fst kvs) \<and> (\<forall>(k, v) \<in> set kvs. pyvalue_ok v)"
| "pyvalue_ok _ \<longleftrightarrow> True"

lemma set_key_order [simp]: "set (key_order kvs) = set kvs"
  by (simp add: key_order_def)

lemma distinct_sort_key: "distinct (map g (sort_key f kvs)) \<longleftrightarrow> distinct (map g kvs)"
  by (simp add: distinct_map)

lemma distinct_key_order [simp]: "distinct (map fst (key_order kvs)) \<longleftrightarrow> distinct (map fst kvs)"
  by (simp add: key_order_def distinct_sort_key)

lemma members_ok:
  assumes "map (\<lambda>(k, v). with_key k (ordered v)) kvs = map Some kjs"
  shows "distinct (map fst kvs) = distinct (map fst kjs)"
    "(s, j) \<in> set kjs \<Longrightarrow> \<exists>v. (Str_Key s, v) \<in> set kvs \<and> ordered v = Some j"
proof -
  have k: "map fst kvs = map (Str_Key \<circ> fst) kjs"
    using assms by (induction kvs arbitrary: kjs) (auto simp: with_key_Some Cons_eq_map_conv split: prod.splits)
  have "inj_on Str_Key A" for A by (simp add: inj_on_def)
  then show "distinct (map fst kvs) = distinct (map fst kjs)" unfolding k by (simp add: distinct_map flip: map_map)
  assume "(s, j) \<in> set kjs"
  then have "Some (s, j) \<in> set (map (\<lambda>(k, v). with_key k (ordered v)) kvs)" unfolding assms by simp
  then obtain k v where "(k, v) \<in> set kvs" "with_key k (ordered v) = Some (s, j)" by (auto dest!: sym [of "Some _"])
  then show "\<exists>v. (Str_Key s, v) \<in> set kvs \<and> ordered v = Some j" by (auto simp: with_key_Some)
qed

lemma ordered_ok: "pyvalue_ok v \<Longrightarrow> ordered v = Some j \<Longrightarrow> json_ok j"
proof (induction v arbitrary: j)
  case (VList vs)
  then obtain js where j: "j = JArr js" "map ordered vs = map Some js" by (auto simp: set_all_some)
  have "json_ok y" if "y \<in> set js" for y
  proof -
    have "Some y \<in> set (map ordered vs)" using j(2) that by simp
    then obtain v where "v \<in> set vs" "ordered v = Some y" by force
    then show ?thesis using VList by auto
  qed
  then show ?case using j by simp
next
  case (VMap kvs)
  then obtain kjs where j: "j = JObj (key_order kjs)" "map (\<lambda>(k, v). with_key k (ordered v)) kvs = map Some kjs"
    by (auto simp: set_all_some)
  have "json_ok y" if sy: "(s, y) \<in> set kjs" for s y
  proof -
    obtain v where "(Str_Key s, v) \<in> set kvs" "ordered v = Some y" using members_ok(2) [OF j(2) sy] by blast
    then show ?thesis using VMap by (fastforce simp: Basic_BNFs.snds.simps)
  qed
  then show ?case using j members_ok(1) [OF j(2)] VMap.prems(1) by auto
qed (auto split: if_splits)

text \<open>A decoded document as a value again.\<close>

fun as_value :: "json \<Rightarrow> pyvalue" where
  "as_value JNull = VNone"
| "as_value (JBool b) = VBool b"
| "as_value (JInt i) = VInt i"
| "as_value (JStr s) = VStr s"
| "as_value (JArr vs) = VList (map as_value vs)"
| "as_value (JObj kvs) = VMap (map (\<lambda>(k, v). (Str_Key k, as_value v)) kvs)"

lemma key_order_twice: "key_order (key_order kvs) = key_order kvs"
  by (simp add: key_order_utf16 sort_key_id_if_sorted)

fun in_order :: "json \<Rightarrow> bool" where
  "in_order (JInt i) \<longleftrightarrow> safe_int i"
| "in_order (JArr vs) \<longleftrightarrow> (\<forall>v \<in> set vs. in_order v)"
| "in_order (JObj kvs) \<longleftrightarrow> key_order kvs = kvs \<and> (\<forall>(k, v) \<in> set kvs. in_order v)"
| "in_order _ \<longleftrightarrow> True"

lemma ordered_in_order: "ordered v = Some j \<Longrightarrow> in_order j"
proof (induction v arbitrary: j)
  case (VList vs)
  then obtain js where j: "j = JArr js" "map ordered vs = map Some js" by (auto simp: set_all_some)
  have "in_order y" if "y \<in> set js" for y
  proof -
    have "Some y \<in> set (map ordered vs)" using j(2) that by simp
    then obtain v where "v \<in> set vs" "ordered v = Some y" by force
    then show ?thesis using VList by auto
  qed
  then show ?case using j by simp
next
  case (VMap kvs)
  then obtain kjs where j: "j = JObj (key_order kjs)" "map (\<lambda>(k, v). with_key k (ordered v)) kvs = map Some kjs"
    by (auto simp: set_all_some)
  have "in_order y" if sy: "(s, y) \<in> set kjs" for s y
  proof -
    obtain v where "(Str_Key s, v) \<in> set kvs" "ordered v = Some y" using members_ok(2) [OF j(2) sy] by blast
    then show ?thesis using VMap by (fastforce simp: Basic_BNFs.snds.simps)
  qed
  then show ?case using j key_order_twice by auto
qed (auto split: if_splits)

lemma ordered_as_value: "in_order j \<Longrightarrow> ordered (as_value j) = Some j"
proof (induction j)
  case (JArr vs)
  then have "map ordered (map as_value vs) = map Some vs" by simp
  then have "all_some (map ordered (map as_value vs)) = Some vs" by (simp only: set_all_some)
  then show ?case by simp
next
  case (JObj kvs)
  then have "map (\<lambda>(k, v). with_key k (ordered v)) (map (\<lambda>(k, v). (Str_Key k, as_value v)) kvs) = map Some kvs"
    by (fastforce simp: with_key_def Basic_BNFs.snds.simps)
  then have "all_some (map (\<lambda>(k, v). with_key k (ordered v)) (map (\<lambda>(k, v). (Str_Key k, as_value v)) kvs)) = Some kvs"
    by (simp only: set_all_some)
  then show ?case using JObj.prems by simp
qed simp_all

lemma canonical_Inr: "canonical_bytes v = Inr bs \<longleftrightarrow> (\<exists>j. ordered v = Some j \<and> utf8_encode (dumps j) = Some bs)"
  using explained_all [of v] by (auto simp: canonical_bytes_def explained_def malformed_def split: option.splits)

lemma loads_dumps: "json_ok j \<Longrightarrow> loads_strict (dumps j) = Inr j"
proof -
  assume "json_ok j"
  then have "scan_value (Suc (2 * length (dumps j))) (dumps j @ []) = Inr (j, [])"
    using json_scanned [of j] unfolding scanned_def by (metis delimited_simps(4) lessI)
  moreover have "json_ws (dumps j) = dumps j" using json_ws_solid [OF dumps_solid, of j "[]"] by simp
  moreover have "hd (dumps j) \<noteq> 0xFEFF"
  proof -
    have "hd (digits n) < 0xFEFF" for n using digits_chars [OF hd_in_set [OF digits_nonempty], of n] by simp
    then have "hd (digits n) \<noteq> 0xFEFF" for n by (metis less_irrefl)
    then show ?thesis by (cases j) (simp_all add: int_text_def json_string_def)
  qed
  ultimately show ?thesis by (simp add: loads_strict_def json_ws_def)
qed


text \<open>Two values with the same bytes are the same document: they differ in nothing but the order of object
  keys. So a hash of the bytes commits to the document, unless SHA-256 collides.\<close>

theorem canonical_injective:
  assumes "pyvalue_ok v" "pyvalue_ok w" "canonical_bytes v = Inr bs" "canonical_bytes w = Inr bs'" "sha256_hex bs = sha256_hex bs'"
  shows "ordered v = ordered w \<or> sha256_collision"
proof -
  obtain j where j: "ordered v = Some j" "utf8_encode (dumps j) = Some bs" using assms(3) canonical_Inr [of v] by auto
  obtain k where k: "ordered w = Some k" "utf8_encode (dumps k) = Some bs'" using assms(4) canonical_Inr [of w] by auto
  from sha256_hex_eq [OF assms(5)] show ?thesis
  proof
    assume "bs = bs'"
    then have "utf8_encode (dumps k) = Some bs" using k(2) by (simp only:)
    then have same: "dumps j = dumps k" by (rule utf8_encode_inj [OF j(2)])
    have "loads_strict (dumps j) = Inr j" "loads_strict (dumps k) = Inr k"
      using loads_dumps ordered_ok assms(1,2) j(1) k(1) by blast+
    then have "j = k" unfolding same by (simp only: sum.inject)
    then show ?thesis using j k by simp
  qed simp
qed

lemma sample_value:
  "pyvalue_ok (VMap [(Str_Key (lit ''b''), VInt 1), (Str_Key (lit ''a''), VNone)])"
  "canonical_bytes (VMap [(Str_Key (lit ''b''), VInt 1), (Str_Key (lit ''a''), VNone)])
     = Inr [123, 34, 97, 34, 58, 110, 117, 108, 108, 44, 34, 98, 34, 58, 49, 125]"
proof -
  have "int_text 1 = [49]" by (simp add: int_text_def digits.simps)
  then show "canonical_bytes (VMap [(Str_Key (lit ''b''), VInt 1), (Str_Key (lit ''a''), VNone)])
     = Inr [123, 34, 97, 34, 58, 110, 117, 108, 108, 44, 34, 98, 34, 58, 49, 125]"
    by (simp add: canonical_bytes_def with_key_def safe_int_def MAX_SAFE_INTEGER_def key_order_def is_ascii_def json_string_def
        json_char_def json_special_def utf8_encode_def utf8_char_def)
qed simp


theorem canonical_injective_witness:
  "ordered (VMap [(Str_Key (lit ''b''), VInt 1), (Str_Key (lit ''a''), VNone)])
     = ordered (VMap [(Str_Key (lit ''b''), VInt 1), (Str_Key (lit ''a''), VNone)]) \<or> sha256_collision"
  by (rule canonical_injective [OF sample_value(1,1) sample_value(2,2) refl])

section \<open>The order of keys is the encoder's\<close>

lemma utf16_char_prefix:
  assumes "unicode_scalar c" "unicode_scalar d" "utf16_char c @ r = utf16_char d @ r'"
  shows "c = d \<and> r = r'"
proof -
  have join: "x = 256 * (x div 256) + x mod 256" for x :: nat by simp
  have high: "0xD8 \<le> (0xD800 + (x - 0x10000) div 1024) div 256 \<and> (0xD800 + (x - 0x10000) div 1024) div 256 < 0xDC"
    if "x < 0x110000" for x :: nat
  proof -
    have "(x - 0x10000) div 1024 < 1024" using that by (simp add: less_mult_imp_div_less)
    then have "0xD800 \<le> 0xD800 + (x - 0x10000) div 1024" "0xD800 + (x - 0x10000) div 1024 < 0xDC00" by simp_all
    then show ?thesis by (simp add: less_mult_imp_div_less)
  qed
  have low: "\<not> (0xD8 \<le> x div 256 \<and> x div 256 < 0xDC)" if "unicode_scalar x" "x < 0x10000" for x :: nat
    using that by (auto simp: unicode_scalar_def)
  have s: "c < 0x110000" "d < 0x110000" using assms(1,2) by (auto simp: unicode_scalar_def)
  consider "c < 0x10000" "d < 0x10000" | "c < 0x10000" "\<not> d < 0x10000" | "\<not> c < 0x10000" "d < 0x10000" | "\<not> c < 0x10000" "\<not> d < 0x10000"
    by blast
  then show ?thesis
  proof cases
    case 1
    then show ?thesis using assms(3) join [of c] join [of d] by (simp add: utf16_char_def)
  next
    case 2
    then show ?thesis using assms(3) low [OF assms(1)] high [OF s(2)] by (simp add: utf16_char_def Let_def)
  next
    case 3
    then show ?thesis using assms(3) low [OF assms(2)] high [OF s(1)] by (simp add: utf16_char_def Let_def)
  next
    case 4
    let ?h = "\<lambda>x::nat. 0xD800 + (x - 0x10000) div 1024" and ?l = "\<lambda>x::nat. 0xDC00 + (x - 0x10000) mod 1024"
    have e: "?h c div 256 = ?h d div 256" "?h c mod 256 = ?h d mod 256" "?l c div 256 = ?l d div 256" "?l c mod 256 = ?l d mod 256" "r = r'"
      using assms(3) 4 by (simp_all add: utf16_char_def Let_def)
    then have "?h c = ?h d" "?l c = ?l d" by (metis join)+
    then have "(c - 0x10000) div 1024 = (d - 0x10000) div 1024" "(c - 0x10000) mod 1024 = (d - 0x10000) mod 1024" by simp_all
    then have "c - 0x10000 = d - 0x10000" by (metis div_mult_mod_eq)
    then show ?thesis using 4 e(5) by simp
  qed
qed

lemma utf16_order_inj: "list_all unicode_scalar s \<Longrightarrow> list_all unicode_scalar t \<Longrightarrow> utf16_order s = utf16_order t \<Longrightarrow> s = t"
proof (induction s arbitrary: t)
  case Nil
  then show ?case by (cases t) (auto simp: utf16_order_def utf16_char_def Let_def split: if_splits)
next
  case (Cons c s)
  then obtain d u where t: "t = d # u" by (cases t) (auto simp: utf16_order_def utf16_char_def Let_def split: if_splits)
  with Cons.prems utf16_char_prefix [of c d "utf16_order s" "utf16_order u"] have "c = d \<and> utf16_order s = utf16_order u"
    by (simp add: utf16_order_def)
  then show ?case using Cons t by simp
qed

lemma sort_key_set:
  assumes "set xs = set ys" "distinct xs" "distinct ys" "inj_on f (set xs)"
  shows "sort_key f xs = sort_key f ys"
proof -
  have "sorted (map f (sort_key f xs))" "sorted (map f (sort_key f ys))" by simp_all
  moreover have "distinct (map f (sort_key f xs))" "distinct (map f (sort_key f ys))"
    using assms by (simp_all add: distinct_map)
  ultimately have "map f (sort_key f xs) = map f (sort_key f ys)"
    using assms(1) by (intro sorted_distinct_set_unique) simp_all
  then show ?thesis by (rule map_inj_on) (use assms in simp)
qed

lemma joined_set: "t \<in> set ts \<Longrightarrow> set t \<subseteq> set (joined ts)"
  by (induction ts rule: joined.induct) auto

lemma key_scalars:
  assumes "utf8_encode (dumps (JObj kvs)) = Some bs" "(k, v) \<in> set kvs"
  shows "list_all unicode_scalar k"
proof -
  have all: "list_all unicode_scalar (dumps (JObj kvs))"
    using assms(1) utf8_nats_None [of "dumps (JObj kvs)"] by (auto simp: utf8_encode_def simp del: dumps.simps)
  have "set (member_text (k, v)) \<subseteq> set (joined (map member_text kvs))" using assms(2) by (intro joined_set) simp
  then have sub: "set (json_string k) \<subseteq> set (dumps (JObj kvs))" unfolding dumps_obj by (auto simp: member_text_def)
  have "unicode_scalar c" if "c \<in> set k" for c
  proof (rule ccontr)
    assume bad: "\<not> unicode_scalar c"
    then have "json_char c = [c]" by (auto simp: json_char_def json_special_def unicode_scalar_def)
    then have "c \<in> set (json_string k)" using that by (force simp: json_string_def json_body_def)
    with sub all bad show False by (auto simp: list_all_iff)
  qed
  then show ?thesis by (simp add: list_all_iff)
qed

text \<open>The order in which a dict was filled does not matter: an object with the same members in another
  order has the same canonical bytes.\<close>

theorem canonical_order_free:
  assumes "canonical_bytes (VMap kvs) = Inr bs" "set kvs = set kvs'" "distinct (map fst kvs)" "distinct (map fst kvs')"
  shows "canonical_bytes (VMap kvs') = Inr bs"
proof -
  let ?g = "\<lambda>(k, v). with_key k (ordered v)"
  obtain kjs where k: "map ?g kvs = map Some kjs" and b: "utf8_encode (dumps (JObj (key_order kjs))) = Some bs"
    using assms(1) by (auto simp: canonical_Inr set_all_some simp del: dumps.simps)
  have "None \<notin> ?g ` set kvs'" using arg_cong [OF k, of set] assms(2) by auto
  then have "all_some (map ?g kvs') \<noteq> None" by (auto simp: all_some_None)
  then obtain kjs' where k': "map ?g kvs' = map Some kjs'" by (auto simp: set_all_some)
  have "Some ` set kjs = Some ` set kjs'" using arg_cong [OF k, of set] arg_cong [OF k', of set] assms(2) by simp
  then have same: "set kjs = set kjs'" by (simp add: inj_image_eq_iff)
  have d: "distinct (map fst kjs)" "distinct (map fst kjs')" using members_ok(1) [OF k] members_ok(1) [OF k'] assms(3,4) by simp_all
  have "inj_on (\<lambda>kv. utf16_order (fst kv)) (set kjs)"
  proof (rule inj_onI)
    fix x y
    assume "x \<in> set kjs" "y \<in> set kjs" "utf16_order (fst x) = utf16_order (fst y)"
    moreover from this have "list_all unicode_scalar (fst x)" "list_all unicode_scalar (fst y)"
      using key_scalars [OF b] by (metis prod.collapse set_key_order)+
    ultimately show "x = y" using utf16_order_inj d(1) by (metis eq_key_imp_eq_value prod.collapse)
  qed
  then have "key_order kjs = key_order kjs'"
    unfolding key_order_utf16 using same d by (intro sort_key_set) (auto simp: distinct_map)
  moreover have "all_some (map ?g kvs') = Some kjs'" using k' by (simp only: set_all_some)
  ultimately show ?thesis using b by (simp add: canonical_Inr del: dumps.simps)
qed

theorem canonical_order_free_witness:
  "canonical_bytes (VMap [(Str_Key (lit ''a''), VNone), (Str_Key (lit ''b''), VInt 1)])
     = Inr [123, 34, 97, 34, 58, 110, 117, 108, 108, 44, 34, 98, 34, 58, 49, 125]"
  by (rule canonical_order_free [OF sample_value(2)]) auto

end
