(* ===== verification/Documents.thy ===== *)
theory Documents
  imports Canonical Chain
begin

text \<open>
  How an ARC1 document is read (\<open>receipts/schema.py\<close>, "Field formats" and \<open>_Fields\<close>): the formats of
  its fields, and a JSON object opened against an exact list of field names and read field by
  field. \<open>obj\<close> is a \<open>to_json\<close> dictionary; \<open>obj_read\<close> is the lemma the round trips of every document
  rest on: what canonical JSON makes of such a dictionary opens, and each field reads as what was written.
\<close>

section \<open>Field formats\<close>

definition text_ok :: "ustr \<Rightarrow> bool" where
  "text_ok t \<longleftrightarrow> 1 \<le> length t \<and> length t \<le> 512 \<and> list_all (\<lambda>c. 32 \<le> c \<and> c \<noteq> 127) t"

definition key_id_ok :: "ustr \<Rightarrow> bool" where
  "key_id_ok t \<longleftrightarrow> length t = 16 \<and> list_all is_hex_lower t"

definition uuid_ok :: "ustr \<Rightarrow> bool" where
  "uuid_ok t \<longleftrightarrow> length t = 36 \<and> list_all (\<lambda>i. if i \<in> {8, 13, 18, 23} then t ! i = 45 else is_hex_lower (t ! i)) [0..<36]"

definition unit_ok :: "ustr \<Rightarrow> bool" where
  "unit_ok t \<longleftrightarrow> (case t of [] \<Rightarrow> False | c # r \<Rightarrow> 97 \<le> c \<and> c \<le> 122 \<and> length r \<le> 31
     \<and> list_all (\<lambda>c. 97 \<le> c \<and> c \<le> 122 \<or> 48 \<le> c \<and> c \<le> 57 \<or> c \<in> {95, 46, 45}) r)"

text \<open>\<open>_MONEY\<close>: no leading zero, a point, eight places.\<close>

definition money_ok :: "ustr \<Rightarrow> bool" where
  "money_ok t \<longleftrightarrow> (let n = length t - 9; whole = take n t in
     10 \<le> length t \<and> list_all is_num whole \<and> (whole = [48] \<or> hd whole \<noteq> 48)
     \<and> t ! n = 46 \<and> list_all is_num (drop (Suc n) t))"

definition field_text :: "json \<Rightarrow> ustr res" where
  "field_text v = (case v of
       JStr t \<Rightarrow> if text_ok t then Inr t else malformed ''must be a non-empty string of at most 512 characters''
     | _ \<Rightarrow> malformed ''must be a non-empty string of at most 512 characters'')"

definition field_pattern :: "(ustr \<Rightarrow> bool) \<Rightarrow> string \<Rightarrow> json \<Rightarrow> ustr res" where
  "field_pattern p what v = (case v of JStr t \<Rightarrow> if p t then Inr t else malformed what | _ \<Rightarrow> malformed what)"

definition field_int :: "int \<Rightarrow> json \<Rightarrow> int res" where
  "field_int lo v = (case v of
       JInt i \<Rightarrow> if lo \<le> i \<and> i \<le> MAX_SAFE_INTEGER then Inr i else malformed ''must be between the minimum and 2**53 - 1''
     | _ \<Rightarrow> malformed ''must be an integer'')"

text \<open>A set of strings, in the one order of the format. (Python's own set has no order; the sort key
  tells any two strings of Unicode scalars apart, so the result does not depend on it.)\<close>

definition as_set :: "ustr list \<Rightarrow> ustr list" where
  "as_set ts = sort_key utf16_order (remdups ts)"

definition check_set :: "ustr list \<Rightarrow> unit res" where
  "check_set ts = (if ts \<noteq> as_set ts then malformed ''is a set: it must be sorted by UTF-16 code units'' else Inr ())"

section \<open>Money and instants\<close>

definition DEFAULT_PREC :: nat where
  "DEFAULT_PREC = 28"

definition money_text :: "decimal \<Rightarrow> ustr res" where
  "money_text a = (if dec_lt a (Dec 0 0) then Inl (ValueError ''ARC1 amounts are not negative'')
     else let q = fst (quantize a (- 8) ROUND_HALF_EVEN) in
       if DEFAULT_PREC < num_digits (coeff q) then Inl DecimalInvalidOperation
       else if \<not> dec_eq q a then Inl (ValueError ''is not a whole number of ledger quanta'')
       else let c = nat (coeff q) in Inr (digits (c div 10 ^ 8) @ [46] @ dec_field 8 (c mod 10 ^ 8)))"

text \<open>\<open>Decimal(amount)\<close> of a text of the money format: exact, whatever its length.\<close>

definition money_value :: "ustr \<Rightarrow> decimal" where
  "money_value t = Dec (int (digits_value (take (length t - 9) t @ drop (length t - 8) t))) (- 8)"

text \<open>\<open>\d\<close> of a \<open>str\<close> pattern, and \<open>int()\<close>, take every decimal digit of Unicode.\<close>

definition is_d :: "nat \<Rightarrow> bool" where
  "is_d c \<longleftrightarrow> unicode_digit c \<noteq> None"

definition digits_int :: "ustr \<Rightarrow> nat" where
  "digits_int t = foldl (\<lambda>n c. n * 10 + the (unicode_digit c)) 0 t"

text \<open>\<open>_INSTANT\<close>: the places of the separators, and a digit in every other place.\<close>

definition instant_ok :: "ustr \<Rightarrow> bool" where
  "instant_ok t \<longleftrightarrow> length t = 27
     \<and> list_all (\<lambda>(i, c). t ! i = c) [(4, 45), (7, 45), (10, 84), (13, 58), (16, 58), (19, 46), (26, 90)]
     \<and> list_all (\<lambda>i. is_d (t ! i)) [0, 1, 2, 3, 5, 6, 8, 9, 11, 12, 14, 15, 17, 18, 20, 21, 22, 23, 24, 25]"

text \<open>\<open>datetime.strptime\<close> of such a text: the expressions of \<open>%m\<close>, \<open>%d\<close>, \<open>%H\<close>, \<open>%M\<close>, \<open>%S\<close> (two characters each)
  and \<open>%f\<close>, and then the ranges of \<open>datetime\<close>.\<close>

definition two_digits :: "(nat \<times> nat \<times> (nat \<Rightarrow> bool)) list \<Rightarrow> ustr \<Rightarrow> bool" where
  "two_digits alts t \<longleftrightarrow> list_ex (\<lambda>(lo, hi, p). lo \<le> t ! 0 \<and> t ! 0 \<le> hi \<and> p (t ! 1)) alts"

definition ascii_in :: "nat \<Rightarrow> nat \<Rightarrow> nat \<Rightarrow> bool" where
  "ascii_in lo hi c \<longleftrightarrow> lo \<le> c \<and> c \<le> hi"

definition days_in_month :: "nat \<Rightarrow> nat \<Rightarrow> nat" where
  "days_in_month y m = (if m = 2 then (if y mod 4 = 0 \<and> (y mod 100 \<noteq> 0 \<or> y mod 400 = 0) then 29 else 28)
     else if m \<in> {4, 6, 9, 11} then 30 else 31)"

definition real_instant :: "instant \<Rightarrow> bool" where
  "real_instant t \<longleftrightarrow> 1 \<le> iyear t \<and> iyear t \<le> 9999 \<and> 1 \<le> imonth t \<and> imonth t \<le> 12 \<and> 1 \<le> iday t
     \<and> iday t \<le> days_in_month (iyear t) (imonth t) \<and> ihour t < 24 \<and> iminute t < 60 \<and> isecond t < 60 \<and> imicro t < 1000000"

definition strptime :: "ustr \<Rightarrow> instant option" where
  "strptime t = (let part = (\<lambda>i n. take n (drop i t)); val = (\<lambda>i n. digits_int (part i n));
       d = Instant (val 0 4) (val 5 2) (val 8 2) (val 11 2) (val 14 2) (val 17 2) (val 20 6) in
     if two_digits [(49, 49, ascii_in 48 50), (48, 48, ascii_in 49 57)] (part 5 2)
        \<and> two_digits [(51, 51, ascii_in 48 49), (49, 50, is_d), (48, 48, ascii_in 49 57)] (part 8 2)
        \<and> two_digits [(50, 50, ascii_in 48 51), (48, 49, is_d)] (part 11 2)
        \<and> two_digits [(48, 53, is_d)] (part 14 2)
        \<and> two_digits [(54, 54, ascii_in 48 49), (48, 53, is_d)] (part 17 2)
        \<and> list_all is_num (part 20 6) \<and> real_instant d
     then Some d else None)"

definition parse_instant :: "ustr \<Rightarrow> instant res" where
  "parse_instant t = (if \<not> instant_ok t then malformed ''is not an ARC1 instant'' else
     case strptime t of None \<Rightarrow> malformed ''is not a real instant'' | Some d \<Rightarrow> Inr d)"

section \<open>An object read field by field\<close>

type_synonym doc_fields = "(ustr, json) dict"

definition open_fields :: "json \<Rightarrow> string list \<Rightarrow> string list \<Rightarrow> doc_fields res" where
  "open_fields v names optional = (case v of
       JObj kvs \<Rightarrow>
         if list_ex (\<lambda>n. map_of kvs (lit n) = None) names then malformed ''is missing a field''
         else if list_ex (\<lambda>(k, _). k \<notin> set (map lit (names @ optional))) kvs then malformed ''has unknown field(s)''
         else Inr kvs
     | _ \<Rightarrow> malformed ''must be a JSON object'')"

definition raw :: "doc_fields \<Rightarrow> string \<Rightarrow> json res" where
  "raw f k = (case map_of f (lit k) of None \<Rightarrow> Inl KeyError | Some v \<Rightarrow> Inr v)"

definition has :: "doc_fields \<Rightarrow> string \<Rightarrow> bool" where
  "has f k \<longleftrightarrow> map_of f (lit k) \<noteq> None"

definition field_version :: "doc_fields \<Rightarrow> ustr \<Rightarrow> unit res" where
  "field_version f expected = rbind (raw f ''v'') (\<lambda>v. if v \<noteq> JStr expected then malformed ''v must be the version'' else Inr ())"

definition get_text :: "doc_fields \<Rightarrow> string \<Rightarrow> ustr res" where
  "get_text f k = rbind (raw f k) field_text"

definition get_hex64 :: "doc_fields \<Rightarrow> string \<Rightarrow> ustr res" where
  "get_hex64 f k = rbind (raw f k) (field_pattern hex64 ''must be 64 lowercase hex characters'')"

definition get_uuid :: "doc_fields \<Rightarrow> string \<Rightarrow> ustr res" where
  "get_uuid f k = rbind (raw f k) (field_pattern uuid_ok ''must be a canonical lowercase UUID'')"

definition get_int :: "doc_fields \<Rightarrow> string \<Rightarrow> int res" where
  "get_int f k = rbind (raw f k) (field_int 0)"

definition nullable :: "doc_fields \<Rightarrow> string \<Rightarrow> (doc_fields \<Rightarrow> string \<Rightarrow> 'a res) \<Rightarrow> 'a option res" where
  "nullable f k get = rbind (raw f k) (\<lambda>v. if v = JNull then Inr None else rbind (get f k) (\<lambda>x. Inr (Some x)))"

definition get_bool :: "doc_fields \<Rightarrow> string \<Rightarrow> bool res" where
  "get_bool f k = rbind (raw f k) (\<lambda>v. case v of JBool b \<Rightarrow> Inr b | _ \<Rightarrow> malformed ''must be true or false'')"

definition get_array :: "doc_fields \<Rightarrow> string \<Rightarrow> json list res" where
  "get_array f k = rbind (raw f k) (\<lambda>v. case v of JArr vs \<Rightarrow> Inr vs | _ \<Rightarrow> malformed ''must be an array'')"

definition get_texts :: "doc_fields \<Rightarrow> string \<Rightarrow> bool \<Rightarrow> ustr list res" where
  "get_texts f k is_set = rbind (get_array f k) (\<lambda>vs. rbind (sequenced (map field_text vs)) (\<lambda>ts.
     if is_set then rbind (check_set ts) (\<lambda>_. Inr ts) else Inr ts))"

definition get_hashes :: "doc_fields \<Rightarrow> string \<Rightarrow> ustr list res" where
  "get_hashes f k = rbind (get_array f k) (\<lambda>vs. sequenced (map (field_pattern hex64 ''must be a SHA-256 in hex'') vs))"

definition get_instant :: "doc_fields \<Rightarrow> string \<Rightarrow> instant res" where
  "get_instant f k = rbind (raw f k) (\<lambda>v. case v of JStr t \<Rightarrow> parse_instant t | _ \<Rightarrow> malformed ''must be a string'')"

definition get_child :: "doc_fields \<Rightarrow> string \<Rightarrow> string list \<Rightarrow> string list \<Rightarrow> doc_fields res" where
  "get_child f k names optional = rbind (raw f k) (\<lambda>v. open_fields v names optional)"

definition get_amount :: "doc_fields \<Rightarrow> string \<Rightarrow> decimal res" where
  "get_amount f k = rbind (raw f k) (\<lambda>v. rbind (field_pattern money_ok ''must be a decimal string with exactly 8 places'' v)
     (\<lambda>t. Inr (money_value t)))"

definition get_txn_ids :: "doc_fields \<Rightarrow> string \<Rightarrow> ustr list res" where
  "get_txn_ids f k = rbind (get_array f k) (\<lambda>vs.
     rbind (sequenced (map (field_pattern uuid_ok ''must be a canonical lowercase UUID'') vs)) (\<lambda>ts.
     rbind (check_set ts) (\<lambda>_. Inr ts)))"

section \<open>Writing and reading back\<close>

definition obj :: "(string \<times> pyvalue) list \<Rightarrow> pyvalue" where
  "obj kvs = VMap (map (\<lambda>(k, v). (Str_Key (lit k), v)) kvs)"

definition strs :: "ustr list \<Rightarrow> pyvalue" where
  "strs ts = VList (map VStr ts)"

definition nullable_json :: "('a \<Rightarrow> pyvalue) \<Rightarrow> 'a option \<Rightarrow> pyvalue" where
  "nullable_json g x = (case x of None \<Rightarrow> VNone | Some y \<Rightarrow> g y)"

lemma lit_inj: "lit s = lit t \<longleftrightarrow> s = t"
  by (simp add: lit_def inj_map_eq_map inj_of_char)

lemma ordered_strs [simp]: "ordered (strs ts) = Some (JArr (map JStr ts))"
proof -
  have "all_some (map ordered (map VStr ts)) = Some (map JStr ts)" by (simp add: set_all_some)
  then show ?thesis by (simp add: strs_def del: map_map)
qed

lemma ordered_obj:
  assumes "distinct (map fst kvs)" "ordered (obj kvs) = Some j"
  shows "\<exists>f. j = JObj f \<and> distinct (map fst f) \<and> fst ` set f = lit ` fst ` set kvs
    \<and> (\<forall>(k, v) \<in> set kvs. \<exists>w. ordered v = Some w \<and> map_of f (lit k) = Some w)"
proof -
  define us where "us = map (\<lambda>(k, v). (Str_Key (lit k), v)) kvs"
  obtain kjs where j: "j = JObj (key_order kjs)" and m: "map (\<lambda>(k, v). with_key k (ordered v)) us = map Some kjs"
    using assms(2) by (auto simp: obj_def us_def set_all_some)
  have "inj_on (\<lambda>k. Str_Key (lit k)) A" for A by (simp add: inj_on_def lit_inj)
  moreover have "map fst us = map (\<lambda>k. Str_Key (lit k)) (map fst kvs)" by (auto simp: us_def)
  ultimately have d: "distinct (map fst kjs)"
    using assms(1) members_ok(1) [OF m] by (simp only: distinct_map) auto
  have to: "\<exists>w. ordered v = Some w \<and> (lit k, w) \<in> set kjs" if "(k, v) \<in> set kvs" for k v
  proof -
    have "(Str_Key (lit k), v) \<in> set us" using that by (force simp: us_def)
    then have "with_key (Str_Key (lit k)) (ordered v) \<in> set (map (\<lambda>(k, v). with_key k (ordered v)) us)" by force
    then have "with_key (Str_Key (lit k)) (ordered v) \<in> set (map Some kjs)" unfolding m .
    then show ?thesis by (auto simp: with_key_Some)
  qed
  moreover have "s \<in> lit ` fst ` set kvs" if "(s, w) \<in> set kjs" for s w
    using members_ok(2) [OF m that] by (force simp: us_def)
  ultimately have "fst ` set kjs = lit ` fst ` set kvs"
  proof (intro set_eqI iffI)
    fix s assume "s \<in> fst ` set kjs"
    then obtain w where "(s, w) \<in> set kjs" by auto
    then show "s \<in> lit ` fst ` set kvs" using \<open>\<And>s w. (s, w) \<in> set kjs \<Longrightarrow> s \<in> lit ` fst ` set kvs\<close> by blast
  next
    fix s assume "s \<in> lit ` fst ` set kvs"
    then obtain k v where "s = lit k" "(k, v) \<in> set kvs" by auto
    then obtain w where "(s, w) \<in> set kjs" using to by blast
    then show "s \<in> fst ` set kjs" by force
  qed
  moreover have "\<exists>w. ordered v = Some w \<and> map_of (key_order kjs) (lit k) = Some w" if "(k, v) \<in> set kvs" for k v
    using to [OF that] d by (metis distinct_key_order map_of_is_SomeI set_key_order)
  ultimately show ?thesis using d unfolding j by (intro exI [of _ "key_order kjs"]) auto
qed

text \<open>What canonical JSON makes of a dictionary opens against its names, and every field is there.\<close>

definition holds :: "doc_fields \<Rightarrow> string \<Rightarrow> pyvalue \<Rightarrow> bool" where
  "holds f k v \<longleftrightarrow> (\<exists>w. ordered v = Some w \<and> raw f k = Inr w)"

lemma obj_read:
  assumes "ordered (obj kvs) = Some j" "distinct (map fst kvs)" "set names \<subseteq> fst ` set kvs" "fst ` set kvs \<subseteq> set (names @ opt)"
  shows "\<exists>f. open_fields j names opt = Inr f \<and> (\<forall>k. has f k \<longleftrightarrow> k \<in> fst ` set kvs)
    \<and> (\<forall>(k, v) \<in> set kvs. holds f k v)"
proof -
  obtain f where j: "j = JObj f" and d: "distinct (map fst f)" and k: "fst ` set f = lit ` fst ` set kvs"
    and v: "\<forall>(k, v) \<in> set kvs. \<exists>w. ordered v = Some w \<and> map_of f (lit k) = Some w"
    using ordered_obj [OF assms(2,1)] by blast
  have h: "map_of f (lit n) \<noteq> None \<longleftrightarrow> n \<in> fst ` set kvs" for n
    using k by (auto simp: map_of_eq_None_iff lit_inj image_iff)
  have "\<not> list_ex (\<lambda>n. map_of f (lit n) = None) names" using h assms(3) by (auto simp: list_ex_iff)
  moreover have "\<not> list_ex (\<lambda>(k, _). k \<notin> set (map lit (names @ opt))) f"
  proof -
    have "s \<in> lit ` set (names @ opt)" if "(s, w) \<in> set f" for s w
    proof -
      have "s \<in> lit ` fst ` set kvs" using that k by force
      then show ?thesis using assms(4) by blast
    qed
    then show ?thesis by (auto simp: list_ex_iff)
  qed
  ultimately have "open_fields j names opt = Inr f" by (simp add: open_fields_def j)
  moreover have "\<forall>(k, v) \<in> set kvs. holds f k v" using v by (fastforce simp: raw_def holds_def)
  ultimately show ?thesis using h by (auto simp: has_def)
qed

section \<open>Each field reads as it was written\<close>

lemma get_text_back: "holds f k (VStr t) \<Longrightarrow> text_ok t \<Longrightarrow> get_text f k = Inr t"
  by (auto simp: holds_def get_text_def field_text_def)

lemma get_hex64_back: "holds f k (VStr t) \<Longrightarrow> hex64 t \<Longrightarrow> get_hex64 f k = Inr t"
  by (auto simp: holds_def get_hex64_def field_pattern_def)

lemma get_uuid_back: "holds f k (VStr t) \<Longrightarrow> uuid_ok t \<Longrightarrow> get_uuid f k = Inr t"
  by (auto simp: holds_def get_uuid_def field_pattern_def)

lemma get_int_back: "holds f k (VInt i) \<Longrightarrow> 0 \<le> i \<Longrightarrow> get_int f k = Inr i"
  by (auto simp: holds_def get_int_def field_int_def safe_int_def split: if_splits)

lemma get_bool_back: "holds f k (VBool b) \<Longrightarrow> get_bool f k = Inr b"
  by (auto simp: holds_def get_bool_def)

lemma sequenced_back: "(\<And>x. x \<in> set xs \<Longrightarrow> g (h x) = Inr x) \<Longrightarrow> sequenced (map g (map h xs)) = Inr xs"
  by (simp add: sequenced_Inr)

lemma get_array_back:
  assumes "holds f k (VList (map g xs))"
  shows "\<exists>vs. get_array f k = Inr vs \<and> map (ordered \<circ> g) xs = map Some vs"
  using assms by (auto simp: holds_def get_array_def set_all_some)

text \<open>A list of children, each read by \<open>rd\<close>.\<close>

lemma get_list_back:
  assumes "holds f k (VList (map g xs))" and "\<And>x w. x \<in> set xs \<Longrightarrow> ordered (g x) = Some w \<Longrightarrow> rd w = Inr (h x)"
  shows "\<exists>vs. get_array f k = Inr vs \<and> length vs = length xs \<and> sequenced (map rd vs) = Inr (map h xs)"
proof -
  obtain vs where vs: "get_array f k = Inr vs" "map (ordered \<circ> g) xs = map Some vs"
    using get_array_back [OF assms(1)] by blast
  have len: "length xs = length vs" using arg_cong [OF vs(2), of length] by simp
  have "rd (vs ! i) = Inr (h (xs ! i))" if "i < length vs" for i
    using assms(2) [of "xs ! i" "vs ! i"] arg_cong [OF vs(2), of "\<lambda>l. l ! i"] that len by simp
  then have "map rd vs = map Inr (map h xs)" using len by (intro nth_equalityI) simp_all
  then show ?thesis using vs(1) len by (simp add: sequenced_Inr)
qed

lemma strs_list_back:
  assumes "holds f k (strs ts)" and "\<And>t. t \<in> set ts \<Longrightarrow> rd (JStr t) = Inr t"
  shows "\<exists>vs. get_array f k = Inr vs \<and> sequenced (map rd vs) = Inr ts"
  using get_list_back [of f k VStr ts rd "\<lambda>t. t"] assms by (auto simp: strs_def)

lemma get_texts_back:
  assumes "holds f k (strs ts)" "list_all text_ok ts" "is_set \<longrightarrow> as_set ts = ts"
  shows "get_texts f k is_set = Inr ts"
proof -
  obtain vs where "get_array f k = Inr vs" "sequenced (map field_text vs) = Inr ts"
    using strs_list_back [OF assms(1), of field_text] assms(2) by (auto simp: field_text_def list_all_iff)
  then show ?thesis using assms(3) by (simp add: get_texts_def check_set_def del: rbind_eq_Inr)
qed

lemma get_hashes_back:
  assumes "holds f k (strs ts)" "list_all hex64 ts"
  shows "get_hashes f k = Inr ts"
proof -
  obtain vs where "get_array f k = Inr vs" "sequenced (map (field_pattern hex64 ''must be a SHA-256 in hex'') vs) = Inr ts"
    using strs_list_back [OF assms(1), of "field_pattern hex64 ''must be a SHA-256 in hex''"] assms(2)
    by (auto simp: field_pattern_def list_all_iff)
  then show ?thesis by (simp add: get_hashes_def del: rbind_eq_Inr)
qed

lemma get_txn_ids_back:
  assumes "holds f k (strs ts)" "list_all uuid_ok ts" "as_set ts = ts"
  shows "get_txn_ids f k = Inr ts"
proof -
  obtain vs where "get_array f k = Inr vs"
    "sequenced (map (field_pattern uuid_ok ''must be a canonical lowercase UUID'') vs) = Inr ts"
    using strs_list_back [OF assms(1), of "field_pattern uuid_ok ''must be a canonical lowercase UUID''"] assms(2)
    by (auto simp: field_pattern_def list_all_iff)
  then show ?thesis using assms(3) by (simp add: get_txn_ids_def check_set_def del: rbind_eq_Inr)
qed

lemma nullable_back:
  assumes "holds f k (nullable_json g x)" and "\<And>y. x = Some y \<Longrightarrow> ordered (g y) \<noteq> Some JNull"
    and "\<And>y. x = Some y \<Longrightarrow> holds f k (g y) \<Longrightarrow> get f k = Inr y"
  shows "nullable f k get = Inr x"
proof (cases x)
  case None
  then show ?thesis using assms(1) by (simp add: holds_def nullable_def nullable_json_def)
next
  case (Some y)
  then obtain w where "raw f k = Inr w" "w \<noteq> JNull" "get f k = Inr y"
    using assms by (auto simp: holds_def nullable_json_def)
  then show ?thesis using Some by (simp add: nullable_def)
qed

lemma obj_not_null [simp]: "ordered (obj kvs) \<noteq> Some JNull"
  by (auto simp: obj_def)

text \<open>A child object, opened against its names and read by \<open>rd\<close>.\<close>

lemma child_back:
  assumes "holds f k (obj kvs)" "distinct (map fst kvs)" "set names \<subseteq> fst ` set kvs" "fst ` set kvs \<subseteq> set (names @ opt)"
    and "\<And>g. (\<forall>n. has g n \<longleftrightarrow> n \<in> fst ` set kvs) \<Longrightarrow> (\<forall>(n, v) \<in> set kvs. holds g n v) \<Longrightarrow> rd g = Inr x"
  shows "rbind (get_child f k names opt) rd = Inr x"
proof -
  obtain j where j: "ordered (obj kvs) = Some j" "raw f k = Inr j" using assms(1) by (auto simp: holds_def)
  show ?thesis using obj_read [OF j(1) assms(2-4)] assms(5) j(2) by (auto simp: get_child_def)
qed

lemma as_set_twice [simp]: "as_set (as_set ts) = as_set ts"
  by (simp add: as_set_def distinct_remdups_id sort_key_id_if_sorted)

lemma set_as_set [simp]: "set (as_set ts) = set ts"
  by (simp add: as_set_def)

section \<open>Amounts and instants read as they were written\<close>

lemma digits_value_append: "digits_value (s @ t) = digits_value s * 10 ^ length t + digits_value t"
proof -
  have "foldl (\<lambda>n c. n * 10 + (c - 48)) a t = a * 10 ^ length t + foldl (\<lambda>n c. n * 10 + (c - 48)) 0 t" for a :: nat and t
  proof (induction t arbitrary: a)
    case (Cons c t)
    from Cons [of "a * 10 + (c - 48)"] Cons [of "c - 48"] show ?case by (simp add: algebra_simps)
  qed simp
  from this [of "digits_value s" t] show ?thesis by (simp add: digits_value_def)
qed

lemma dec_field_Suc: "dec_field (Suc k) n = (48 + n div 10 ^ k mod 10) # dec_field k n"
  by (simp add: dec_field_def fixed_digits_def)

lemma digits_value_dec_field: "digits_value (dec_field k n) = n mod 10 ^ k"
proof (induction k)
  case 0
  then show ?case by (simp add: dec_field_def fixed_digits_def digits_value_def)
next
  case (Suc k)
  have "digits_value (dec_field (Suc k) n) = n div 10 ^ k mod 10 * 10 ^ k + n mod 10 ^ k"
    using digits_value_append [of "[48 + n div 10 ^ k mod 10]" "dec_field k n"] Suc
    by (simp add: dec_field_Suc digits_value_def)
  also have "\<dots> = n mod 10 ^ Suc k" using mod_mult2_eq [of n "10 ^ k" 10] by (simp add: mult.commute)
  finally show ?case .
qed

lemma dec_field_num: "list_all is_num (dec_field k n)"
  by (auto simp: list_all_iff is_num_def dest: dec_field_chars)

lemma digits_num: "list_all is_num (digits n)"
  by (auto simp: list_all_iff is_num_def dest: digits_chars)

lemma money_ok_text: "r < 10 ^ 8 \<Longrightarrow> money_ok (digits w @ [46] @ dec_field 8 r) \<and>
    money_value (digits w @ [46] @ dec_field 8 r) = Dec (int (w * 10 ^ 8 + r)) (- 8)"
proof -
  assume r: "r < 10 ^ 8"
  have "digits w \<noteq> []" by simp
  then have "1 \<le> length (digits w)" by (cases "digits w") simp_all
  moreover have "digits w = [48] \<or> hd (digits w) \<noteq> 48"
    using digits_head [of w] by (cases "w = 0") (auto simp: digits.simps [of 0])
  ultimately have "money_ok (digits w @ [46] @ dec_field 8 r)"
    by (simp add: money_ok_def digits_num dec_field_num nth_append)
  then show ?thesis
    using r by (simp add: money_value_def digits_value_append digits_value_dec_field)
qed

text \<open>The amount a document names, as a multiple of the ledger's quantum.\<close>

definition quantum :: "decimal \<Rightarrow> decimal" where
  "quantum a = fst (quantize a (- 8) ROUND_HALF_EVEN)"

lemma money_back:
  assumes "money_text a = Inr t"
  shows "money_ok t" "money_value t = quantum a" "dval (quantum a) = dval a"
proof -
  define q where "q = quantum a"
  define c where "c = nat (coeff q)"
  have neg: "\<not> dec_lt a (Dec 0 0)" and eq: "dec_eq q a"
    and t: "t = digits (c div 10 ^ 8) @ [46] @ dec_field 8 (c mod 10 ^ 8)"
    using assms by (auto simp: money_text_def q_def c_def quantum_def Let_def split: if_splits)
  have "dval q = dval a" using eq by (simp add: dec_eq_iff)
  moreover have "0 \<le> dval a" using neg by (simp add: dec_lt_iff dval_def)
  ultimately have "0 \<le> dval q" by simp
  then have "0 \<le> coeff q" using powi_pos [of "expo q"] by (simp add: dval_def zero_le_mult_iff del: powi_pos)
  then have q: "q = Dec (int c) (- 8)" by (simp add: c_def decimal.expand q_def quantum_def)
  have "money_ok t \<and> money_value t = Dec (int (c div 10 ^ 8 * 10 ^ 8 + c mod 10 ^ 8)) (- 8)"
    unfolding t by (rule money_ok_text) simp
  then show "money_ok t" "money_value t = quantum a" using q by (simp_all only: div_mult_mod_eq q_def)
  show "dval (quantum a) = dval a" using \<open>dval q = dval a\<close> by (simp add: q_def)
qed

lemma get_amount_back: "money_text a = Inr t \<Longrightarrow> holds f k (VStr t) \<Longrightarrow> get_amount f k = Inr (quantum a)"
  by (auto simp: holds_def get_amount_def field_pattern_def money_back)

lemma unicode_digit_num: "is_num c \<Longrightarrow> unicode_digit c = Some (c - 48)"
  by (simp add: unicode_digit_def unicode_zeros_def is_num_def)

lemma digits_int_num: "list_all is_num t \<Longrightarrow> digits_int t = digits_value t"
proof -
  have "list_all is_num t \<Longrightarrow> foldl (\<lambda>n c. n * 10 + the (unicode_digit c)) a t = foldl (\<lambda>n c. n * 10 + (c - 48)) a t" for a
    by (induction t arbitrary: a) (simp_all add: unicode_digit_num)
  then show "list_all is_num t \<Longrightarrow> ?thesis" by (simp add: digits_int_def digits_value_def)
qed

lemma digits_int_field: "n < 10 ^ k \<Longrightarrow> digits_int (dec_field k n) = n"
  by (simp add: digits_int_num dec_field_num digits_value_dec_field)

lemma dec_field_2: "dec_field 2 n = [48 + n div 10 mod 10, 48 + n mod 10]"
  by (simp add: dec_field_def fixed_digits_def upt_rec)

lemma dec_field_4: "dec_field 4 n = [48 + n div 1000 mod 10, 48 + n div 100 mod 10, 48 + n div 10 mod 10, 48 + n mod 10]"
  by (simp add: dec_field_def fixed_digits_def upt_rec)

lemma dec_field_6: "dec_field 6 n = [48 + n div 100000 mod 10, 48 + n div 10000 mod 10, 48 + n div 1000 mod 10,
    48 + n div 100 mod 10, 48 + n div 10 mod 10, 48 + n mod 10]"
  by (simp add: dec_field_def fixed_digits_def upt_rec)

lemma is_d_num: "is_num c \<Longrightarrow> is_d c"
  by (simp add: is_d_def unicode_digit_num)

lemma is_d_digit [simp]: "n < 10 \<Longrightarrow> is_d (48 + n)"
  by (rule is_d_num) (simp add: is_num_def)

lemma two_chars:
  assumes "n < 100"
  shows "\<exists>a b. n = 10 * a + b \<and> a < 10 \<and> b < 10 \<and> dec_field 2 n = [48 + a, 48 + b]"
  using assms by (intro exI [of _ "n div 10"] exI [of _ "n mod 10"]) (simp add: dec_field_2)

lemma two_month: "1 \<le> n \<Longrightarrow> n \<le> 12 \<Longrightarrow> two_digits [(49, 49, ascii_in 48 50), (48, 48, ascii_in 49 57)] (dec_field 2 n)"
  using two_chars [of n] by (auto simp: two_digits_def ascii_in_def)

lemma two_day: "1 \<le> n \<Longrightarrow> n \<le> 31 \<Longrightarrow> two_digits [(51, 51, ascii_in 48 49), (49, 50, is_d), (48, 48, ascii_in 49 57)] (dec_field 2 n)"
  using two_chars [of n] by (auto simp: two_digits_def ascii_in_def)

lemma two_hour: "n < 24 \<Longrightarrow> two_digits [(50, 50, ascii_in 48 51), (48, 49, is_d)] (dec_field 2 n)"
  using two_chars [of n] by (auto simp: two_digits_def ascii_in_def)

lemma two_minute: "n < 60 \<Longrightarrow> two_digits [(48, 53, is_d)] (dec_field 2 n)"
  using two_chars [of n] by (auto simp: two_digits_def ascii_in_def)

lemma two_second: "n < 60 \<Longrightarrow> two_digits [(54, 54, ascii_in 48 49), (48, 53, is_d)] (dec_field 2 n)"
  using two_chars [of n] by (auto simp: two_digits_def ascii_in_def)

lemma days_bound: "days_in_month y m \<le> 31"
  by (simp add: days_in_month_def)

text \<open>An instant of the year 1000 or later reads as it was written.\<close>

lemma parse_instant_iso:
  assumes "real_instant t" "1000 \<le> iyear t"
  shows "parse_instant (iso t) = Inr t"
proof -
  define y mo d h mi s u where "y = dec_field 4 (iyear t)" and "mo = dec_field 2 (imonth t)" and "d = dec_field 2 (iday t)"
    and "h = dec_field 2 (ihour t)" and "mi = dec_field 2 (iminute t)" and "s = dec_field 2 (isecond t)"
    and "u = dec_field 6 (imicro t)"
  note defs = y_def mo_def d_def h_def mi_def s_def u_def
  have iso: "iso t = y @ [45] @ mo @ [45] @ d @ [84] @ h @ [58] @ mi @ [58] @ s @ [46] @ u @ [90]"
    using assms(2) by (simp add: iso_def defs)
  have len: "length y = 4" "length mo = 2" "length d = 2" "length h = 2" "length mi = 2" "length s = 2" "length u = 6"
    by (simp_all add: defs)
  have parts: "take 4 (drop 0 (iso t)) = y" "take 2 (drop 5 (iso t)) = mo" "take 2 (drop 8 (iso t)) = d"
    "take 2 (drop 11 (iso t)) = h" "take 2 (drop 14 (iso t)) = mi" "take 2 (drop 17 (iso t)) = s" "take 6 (drop 20 (iso t)) = u"
    by (simp_all add: iso len)
  have day: "iday t \<le> 31" using assms(1) days_bound [of "iyear t" "imonth t"] by (simp add: real_instant_def)
  have vals: "digits_int y = iyear t" "digits_int mo = imonth t" "digits_int d = iday t" "digits_int h = ihour t"
    "digits_int mi = iminute t" "digits_int s = isecond t" "digits_int u = imicro t"
    using assms(1) day by (simp_all add: defs digits_int_field real_instant_def)
  have "strptime (iso t) = Some t"
    using assms(1) day
    unfolding strptime_def Let_def parts vals
    by (simp add: mo_def d_def h_def mi_def s_def u_def two_month two_day two_hour two_minute two_second dec_field_num real_instant_def)
  moreover have "instant_ok (iso t)"
    by (simp add: instant_ok_def iso defs dec_field_2 dec_field_4 dec_field_6 nth_Cons')
  ultimately show ?thesis by (simp add: parse_instant_def)
qed

lemma get_instant_back: "holds f k (VStr (iso t)) \<Longrightarrow> real_instant t \<Longrightarrow> 1000 \<le> iyear t \<Longrightarrow> get_instant f k = Inr t"
  by (auto simp: holds_def get_instant_def parse_instant_iso)

lemma version_back: "holds f ''v'' (VStr t) \<Longrightarrow> field_version f t = Inr ()"
  by (auto simp: holds_def field_version_def)

end
