(* ===== verification/Sha512.thy ===== *)
theory Sha512
  imports Sha256
begin

text \<open>
  SHA-512 (FIPS 180-4), the \<open>hashlib.sha512\<close> of Python's standard library, executable, which a
  version 2 signature signs the digest of. As with SHA-256, nothing is relied on but the length of the
  digest: two inputs with one digest are equal, or they are a \<open>sha512_collision\<close>.
\<close>

unbundle bit_operations_syntax

type_synonym u64 = "64 word"

definition sha512_K :: "u64 list" where
  "sha512_K = [
    4794697086780616226, 8158064640168781261, 13096744586834688815, 16840607885511220156,
    4131703408338449720, 6480981068601479193, 10538285296894168987, 12329834152419229976,
    15566598209576043074, 1334009975649890238, 2608012711638119052, 6128411473006802146,
    8268148722764581231, 9286055187155687089, 11230858885718282805, 13951009754708518548,
    16472876342353939154, 17275323862435702243, 1135362057144423861, 2597628984639134821,
    3308224258029322869, 5365058923640841347, 6679025012923562964, 8573033837759648693,
    10970295158949994411, 12119686244451234320, 12683024718118986047, 13788192230050041572,
    14330467153632333762, 15395433587784984357, 489312712824947311, 1452737877330783856,
    2861767655752347644, 3322285676063803686, 5560940570517711597, 5996557281743188959,
    7280758554555802590, 8532644243296465576, 9350256976987008742, 10552545826968843579,
    11727347734174303076, 12113106623233404929, 14000437183269869457, 14369950271660146224,
    15101387698204529176, 15463397548674623760, 17586052441742319658, 1182934255886127544,
    1847814050463011016, 2177327727835720531, 2830643537854262169, 3796741975233480872,
    4115178125766777443, 5681478168544905931, 6601373596472566643, 7507060721942968483,
    8399075790359081724, 8693463985226723168, 9568029438360202098, 10144078919501101548,
    10430055236837252648, 11840083180663258601, 13761210420658862357, 14299343276471374635,
    14566680578165727644, 15097957966210449927, 16922976911328602910, 17689382322260857208,
    500013540394364858, 748580250866718886, 1242879168328830382, 1977374033974150939,
    2944078676154940804, 3659926193048069267, 4368137639120453308, 4836135668995329356,
    5532061633213252278, 6448918945643986474, 6902733635092675308, 7801388544844847127]"

type_synonym sha512_state = "u64 \<times> u64 \<times> u64 \<times> u64 \<times> u64 \<times> u64 \<times> u64 \<times> u64"

definition sha512_init :: sha512_state where
  "sha512_init = (7640891576956012808, 13503953896175478587, 4354685564936845355, 11912009170470909681,
               5840696475078001361, 11170449401992604703, 2270897969802886507, 6620516959819538809)"

definition sha512_rotr :: "nat \<Rightarrow> u64 \<Rightarrow> u64" where
  "sha512_rotr n x = drop_bit n x OR push_bit (64 - n) x"

definition sha512_round :: "u64 \<times> u64 \<Rightarrow> sha512_state \<Rightarrow> sha512_state" where
  "sha512_round kw st = (case kw of (k, w) \<Rightarrow> case st of (a, b, c, d, e, f, g, h) \<Rightarrow>
     let s1 = sha512_rotr 14 e XOR sha512_rotr 18 e XOR sha512_rotr 41 e;
         ch = (e AND f) XOR (NOT e AND g);
         t1 = h + s1 + ch + k + w;
         s0 = sha512_rotr 28 a XOR sha512_rotr 34 a XOR sha512_rotr 39 a;
         maj = (a AND b) XOR (a AND c) XOR (b AND c)
     in (t1 + (s0 + maj), a, b, c, d + t1, e, f, g))"

text \<open>The message schedule, newest word first.\<close>

fun sha512_extend :: "nat \<Rightarrow> u64 list \<Rightarrow> u64 list" where
  "sha512_extend 0 ws = ws"
| "sha512_extend (Suc n) ws =
     (let s0 = sha512_rotr 1 (ws ! 14) XOR sha512_rotr 8 (ws ! 14) XOR drop_bit 7 (ws ! 14);
          s1 = sha512_rotr 19 (ws ! 1) XOR sha512_rotr 61 (ws ! 1) XOR drop_bit 6 (ws ! 1)
      in sha512_extend n ((ws ! 15 + s0 + ws ! 6 + s1) # ws))"

definition sha512_add :: "sha512_state \<Rightarrow> sha512_state \<Rightarrow> sha512_state" where
  "sha512_add s t = (case s of (a, b, c, d, e, f, g, h) \<Rightarrow> case t of (a', b', c', d', e', f', g', h') \<Rightarrow>
     (a + a', b + b', c + c', d + d', e + e', f + f', g + g', h + h'))"

fun group_words64 :: "byte list \<Rightarrow> u64 list" where
  "group_words64 (a # b # c # d # e # f # g # h # bs) =
     foldl (\<lambda>w x. push_bit 8 w OR ucast x) 0 [a, b, c, d, e, f, g, h] # group_words64 bs"
| "group_words64 _ = []"

definition sha512_block :: "sha512_state \<Rightarrow> byte list \<Rightarrow> sha512_state" where
  "sha512_block st block = (let ws = rev (sha512_extend 64 (rev (group_words64 block)))
     in sha512_add st (fold sha512_round (zip sha512_K ws) st))"

definition sha512_pad :: "byte list \<Rightarrow> byte list" where
  "sha512_pad m = m @ [0x80] @ replicate ((239 - length m mod 128) mod 128) 0
     @ map (\<lambda>i. of_nat ((8 * length m) div 256 ^ i)) (rev [0..<16])"

fun sha512_blocks :: "sha512_state \<Rightarrow> byte list \<Rightarrow> sha512_state" where
  "sha512_blocks st bs = (if length bs < 128 then st else sha512_blocks (sha512_block st (take 128 bs)) (drop 128 bs))"

declare sha512_blocks.simps [simp del]

definition sha512 :: "byte list \<Rightarrow> byte list" where
  "sha512 m = (case sha512_blocks sha512_init (sha512_pad m) of (a, b, c, d, e, f, g, h) \<Rightarrow>
     concat (map (\<lambda>w. map (\<lambda>i. ucast (drop_bit (8 * i) w)) (rev [0..<8])) [a, b, c, d, e, f, g, h]))"

lemma length_sha512 [simp]: "length (sha512 m) = 64"
  by (simp add: sha512_def split: prod.splits)

definition sha512_collision :: bool where
  "sha512_collision \<longleftrightarrow> (\<exists>x y. x \<noteq> y \<and> sha512 x = sha512 y)"

lemma sha512_eq: "sha512 x = sha512 y \<Longrightarrow> x = y \<or> sha512_collision"
  by (auto simp: sha512_collision_def)

section \<open>HMAC\<close>

text \<open>HMAC-SHA256 (RFC 2104), the \<open>hmac.new(key, msg, hashlib.sha256)\<close> of the standard library.\<close>

definition hmac_sha256 :: "byte list \<Rightarrow> byte list \<Rightarrow> byte list" where
  "hmac_sha256 secret msg = (let k = (if 64 < length secret then sha256 secret else secret);
       k = k @ replicate (64 - length k) 0 in
     sha256 (map (\<lambda>b. b XOR 0x5C) k @ sha256 (map (\<lambda>b. b XOR 0x36) k @ msg)))"

lemma length_hmac [simp]: "length (hmac_sha256 secret msg) = 32"
  by (simp add: hmac_sha256_def Let_def)

lemma hmac_eq: "hmac_sha256 secret x = hmac_sha256 secret y \<Longrightarrow> x = y \<or> sha256_collision"
  by (auto simp: hmac_sha256_def Let_def dest!: sha256_eq)

end
