(* ===== verification/Receipt.thy ===== *)
theory Receipt
  imports Documents Merkle Sha512
begin

text \<open>
  The action receipt (\<open>receipts/schema.py\<close>, "The receipt"): the records of its six parts, what
  each writes (\<open>to_json\<close>) and how each is read (\<open>from_json\<close>), with the checks of the constructors.
  A constructor that normalises its fields is a function \<open>new_*\<close>. The \<open>*_ok\<close> predicates say which
  receipts the reader accepts; an accepted receipt that is written reads back as itself, up to the
  exponent of its amounts, which Python's \<open>Decimal\<close> equality does not see.
\<close>

section \<open>Authority and intent\<close>

record capability =
  cap_grant :: ustr
  cap_tables :: "ustr list"
  cap_tenants :: "ustr list"
  cap_row_limit :: "int option"

definition new_capability :: "ustr \<Rightarrow> ustr list \<Rightarrow> ustr list \<Rightarrow> int option \<Rightarrow> capability" where
  "new_capability g tables tenants limit =
     \<lparr>cap_grant = g, cap_tables = as_set tables, cap_tenants = as_set tenants, cap_row_limit = limit\<rparr>"

definition capability_json :: "capability \<Rightarrow> pyvalue" where
  "capability_json c = obj [(''grant'', VStr (cap_grant c)), (''tables'', strs (cap_tables c)),
     (''tenants'', strs (cap_tenants c)), (''row_limit'', nullable_json VInt (cap_row_limit c))]"

definition capability_of :: "doc_fields \<Rightarrow> capability res" where
  "capability_of f = rbind (get_text f ''grant'') (\<lambda>g. rbind (get_texts f ''tables'' True) (\<lambda>tables.
     rbind (get_texts f ''tenants'' True) (\<lambda>tenants. rbind (nullable f ''row_limit'' get_int) (\<lambda>limit.
     Inr (new_capability g tables tenants limit)))))"

record authority =
  auth_scope_path :: "ustr list"
  auth_trajectory_id :: ustr
  auth_capability :: capability

definition authority_json :: "authority \<Rightarrow> pyvalue" where
  "authority_json a = obj [(''scope_path'', strs (auth_scope_path a)), (''trajectory_id'', VStr (auth_trajectory_id a)),
     (''capability'', capability_json (auth_capability a))]"

definition authority_of :: "doc_fields \<Rightarrow> authority res" where
  "authority_of f = rbind (get_texts f ''scope_path'' False) (\<lambda>path.
     if path = [] then malformed ''scope_path must name at least one scope''
     else if length (remdups path) \<noteq> length path then malformed ''scope_path repeats a scope''
     else rbind (get_text f ''trajectory_id'') (\<lambda>tr.
       rbind (rbind (get_child f ''capability'' [''grant'', ''tables'', ''tenants'', ''row_limit''] []) capability_of) (\<lambda>c.
       Inr \<lparr>auth_scope_path = path, auth_trajectory_id = tr, auth_capability = c\<rparr>)))"

record stated_footprint =
  sf_rows :: "int option"
  sf_tables :: "ustr list"

definition new_stated :: "int option \<Rightarrow> ustr list \<Rightarrow> stated_footprint" where
  "new_stated rows tables = \<lparr>sf_rows = rows, sf_tables = as_set tables\<rparr>"

definition stated_json :: "stated_footprint \<Rightarrow> pyvalue" where
  "stated_json s = obj [(''rows'', nullable_json VInt (sf_rows s)), (''tables'', strs (sf_tables s))]"

record intent =
  int_plan_hash :: ustr
  int_stated :: stated_footprint

definition intent_json :: "intent \<Rightarrow> pyvalue" where
  "intent_json i = obj [(''plan_hash'', VStr (int_plan_hash i)), (''stated'', stated_json (int_stated i))]"

definition intent_of :: "doc_fields \<Rightarrow> intent res" where
  "intent_of f = rbind (get_child f ''stated'' [''rows'', ''tables''] []) (\<lambda>g. rbind (get_hex64 f ''plan_hash'') (\<lambda>h.
     rbind (nullable g ''rows'' get_int) (\<lambda>rows. rbind (get_texts g ''tables'' True) (\<lambda>tables.
     Inr \<lparr>int_plan_hash = h, int_stated = new_stated rows tables\<rparr>))))"

section \<open>Effect and coverage\<close>

record effect_summary =
  sum_inserted :: int
  sum_updated :: int
  sum_deleted :: int
  sum_tables :: "ustr list"
  sum_tenants :: "ustr list"
  sum_other_tenants :: int

definition new_summary :: "int \<Rightarrow> int \<Rightarrow> int \<Rightarrow> ustr list \<Rightarrow> ustr list \<Rightarrow> int \<Rightarrow> effect_summary res" where
  "new_summary i u d tables tenants other = (if other < 0 then malformed ''summary.other_tenants is a count, zero or more''
     else Inr \<lparr>sum_inserted = i, sum_updated = u, sum_deleted = d, sum_tables = as_set tables,
       sum_tenants = as_set tenants, sum_other_tenants = other\<rparr>)"

definition summary_total :: "effect_summary \<Rightarrow> int" where
  "summary_total s = sum_inserted s + sum_updated s + sum_deleted s"

definition summary_json :: "effect_summary \<Rightarrow> pyvalue" where
  "summary_json s = obj ([(''ins'', VInt (sum_inserted s)), (''upd'', VInt (sum_updated s)), (''del'', VInt (sum_deleted s)),
     (''tables'', strs (sum_tables s)), (''tenants'', strs (sum_tenants s))]
     @ (if sum_other_tenants s \<noteq> 0 then [(''other_tenants'', VInt (sum_other_tenants s))] else []))"

definition summary_of :: "doc_fields \<Rightarrow> effect_summary res" where
  "summary_of f = rbind (if \<not> has f ''other_tenants'' then Inr 0 else rbind (get_int f ''other_tenants'') (\<lambda>n.
       if n < 1 then malformed ''other_tenants is written only when the diff touched a tenant the receipt does not name'' else Inr n)) (\<lambda>other.
     rbind (get_int f ''ins'') (\<lambda>i. rbind (get_int f ''upd'') (\<lambda>u. rbind (get_int f ''del'') (\<lambda>d.
     rbind (get_texts f ''tables'' True) (\<lambda>tables. rbind (get_texts f ''tenants'' True) (\<lambda>tenants.
     new_summary i u d tables tenants other))))))"

record effect =
  eff_substrate_id :: ustr
  eff_schema_hash :: ustr
  eff_diff_hash :: ustr
  eff_row_root :: ustr
  eff_row_count :: int
  eff_summary :: effect_summary
  eff_truncated :: bool

definition effect_json :: "effect \<Rightarrow> pyvalue" where
  "effect_json e = obj [(''substrate_id'', VStr (eff_substrate_id e)), (''schema_hash'', VStr (eff_schema_hash e)),
     (''diff_hash'', VStr (eff_diff_hash e)), (''row_root'', VStr (eff_row_root e)), (''row_count'', VInt (eff_row_count e)),
     (''summary'', summary_json (eff_summary e)), (''truncated'', VBool (eff_truncated e))]"

definition effect_of :: "doc_fields \<Rightarrow> effect res" where
  "effect_of f = rbind (get_text f ''substrate_id'') (\<lambda>sub. rbind (get_hex64 f ''schema_hash'') (\<lambda>sh.
     rbind (get_hex64 f ''diff_hash'') (\<lambda>dh. rbind (get_hex64 f ''row_root'') (\<lambda>root. rbind (get_int f ''row_count'') (\<lambda>n.
     rbind (rbind (get_child f ''summary'' [''ins'', ''upd'', ''del'', ''tables'', ''tenants''] [''other_tenants'']) summary_of) (\<lambda>s.
     rbind (get_bool f ''truncated'') (\<lambda>tr.
     Inr \<lparr>eff_substrate_id = sub, eff_schema_hash = sh, eff_diff_hash = dh, eff_row_root = root, eff_row_count = n,
       eff_summary = s, eff_truncated = tr\<rparr>)))))))"

definition TRANSACTIONAL :: ustr where
  "TRANSACTIONAL = lit ''transactional''"

definition MEASUREMENTS :: "ustr list" where
  "MEASUREMENTS = [TRANSACTIONAL, lit ''plan-bound'', lit ''predicted'', lit ''request-only'']"

record coverage =
  cov_observed_tables :: "ustr list"
  cov_cascade_closed :: bool
  cov_authorizer_on :: bool
  cov_known_gaps :: "ustr list"
  cov_measurement :: ustr

definition new_coverage :: "ustr list \<Rightarrow> bool \<Rightarrow> bool \<Rightarrow> ustr list \<Rightarrow> ustr \<Rightarrow> coverage res" where
  "new_coverage tables shut authorizer gaps m = (if m \<notin> set MEASUREMENTS then malformed ''coverage.measurement must be one of''
     else Inr \<lparr>cov_observed_tables = as_set tables, cov_cascade_closed = shut, cov_authorizer_on = authorizer,
       cov_known_gaps = as_set gaps, cov_measurement = m\<rparr>)"

definition coverage_json :: "coverage \<Rightarrow> pyvalue" where
  "coverage_json c = obj ([(''observed_tables'', strs (cov_observed_tables c)), (''cascade_closed'', VBool (cov_cascade_closed c)),
     (''authorizer_on'', VBool (cov_authorizer_on c)), (''known_gaps'', strs (cov_known_gaps c))]
     @ (if cov_measurement c \<noteq> TRANSACTIONAL then [(''measurement'', VStr (cov_measurement c))] else []))"

definition coverage_of :: "doc_fields \<Rightarrow> coverage res" where
  "coverage_of f = rbind (if \<not> has f ''measurement'' then Inr TRANSACTIONAL else rbind (get_text f ''measurement'') (\<lambda>m.
       if m = TRANSACTIONAL then malformed ''measurement is written only when it is not transactional'' else Inr m)) (\<lambda>m.
     rbind (get_texts f ''observed_tables'' True) (\<lambda>tables. rbind (get_bool f ''cascade_closed'') (\<lambda>shut.
     rbind (get_bool f ''authorizer_on'') (\<lambda>authorizer. rbind (get_texts f ''known_gaps'' True) (\<lambda>gaps.
     new_coverage tables shut authorizer gaps m)))))"

section \<open>Decision\<close>

record checker_record =
  chk_name :: ustr
  chk_config_hash :: ustr

definition checker_json :: "checker_record \<Rightarrow> pyvalue" where
  "checker_json c = obj [(''name'', VStr (chk_name c)), (''config_hash'', VStr (chk_config_hash c))]"

definition checker_of :: "json \<Rightarrow> checker_record res" where
  "checker_of v = rbind (open_fields v [''name'', ''config_hash''] []) (\<lambda>c. rbind (get_text c ''name'') (\<lambda>n.
     rbind (get_hex64 c ''config_hash'') (\<lambda>h. Inr \<lparr>chk_name = n, chk_config_hash = h\<rparr>)))"

record decision =
  dec_verdict_hash :: ustr
  dec_admitted :: bool
  dec_checkers :: "checker_record list"
  dec_policy_epoch :: int
  dec_repair_of :: "ustr option"

definition decision_json :: "decision \<Rightarrow> pyvalue" where
  "decision_json d = obj [(''verdict_hash'', VStr (dec_verdict_hash d)), (''admitted'', VBool (dec_admitted d)),
     (''checkers'', VList (map checker_json (dec_checkers d))), (''policy_epoch'', VInt (dec_policy_epoch d)),
     (''repair_of'', nullable_json VStr (dec_repair_of d))]"

definition decision_of :: "doc_fields \<Rightarrow> decision res" where
  "decision_of f = rbind (get_array f ''checkers'') (\<lambda>vs. rbind (sequenced (map checker_of vs)) (\<lambda>cs.
     if length (remdups (map chk_name cs)) \<noteq> length cs then malformed ''checkers names a checker twice''
     else rbind (get_hex64 f ''verdict_hash'') (\<lambda>h. rbind (get_bool f ''admitted'') (\<lambda>adm.
       rbind (get_int f ''policy_epoch'') (\<lambda>ep. rbind (nullable f ''repair_of'' get_uuid) (\<lambda>rep.
       Inr \<lparr>dec_verdict_hash = h, dec_admitted = adm, dec_checkers = cs, dec_policy_epoch = ep, dec_repair_of = rep\<rparr>))))))"

section \<open>Cost\<close>

record cost_quantity =
  q_unit :: ustr
  q_amount :: decimal
  q_txn_ids :: "ustr list"

definition new_quantity :: "ustr \<Rightarrow> decimal \<Rightarrow> ustr list \<Rightarrow> cost_quantity res" where
  "new_quantity u a ids = (if \<not> unit_ok u then malformed ''is not a unit code''
     else Inr \<lparr>q_unit = u, q_amount = a, q_txn_ids = as_set ids\<rparr>)"

definition quantity_json :: "cost_quantity \<Rightarrow> pyvalue res" where
  "quantity_json q = rbind (money_text (q_amount q)) (\<lambda>t.
     Inr (obj [(''unit'', VStr (q_unit q)), (''amount'', VStr t), (''ledger_txn_ids'', strs (q_txn_ids q))]))"

definition quantity_of :: "json \<Rightarrow> cost_quantity res" where
  "quantity_of v = rbind (open_fields v [''unit'', ''amount'', ''ledger_txn_ids''] []) (\<lambda>f.
     rbind (rbind (raw f ''unit'') (field_pattern unit_ok ''must be a unit code'')) (\<lambda>u.
     rbind (get_amount f ''amount'') (\<lambda>a. rbind (get_txn_ids f ''ledger_txn_ids'') (\<lambda>ids. new_quantity u a ids))))"

record receipt_cost =
  cost_txn_ids :: "ustr list"
  cost_settled_usd :: decimal
  cost_served_models :: "ustr list"
  cost_quantities :: "cost_quantity list"
  cost_served_by :: "ustr list"

definition new_cost :: "ustr list \<Rightarrow> decimal \<Rightarrow> ustr list \<Rightarrow> cost_quantity list \<Rightarrow> ustr list \<Rightarrow> receipt_cost res" where
  "new_cost ids usd models qs by = (let qs = sort_key (utf16_order \<circ> q_unit) qs in
     if length (remdups (map q_unit qs)) \<noteq> length qs then malformed ''cost.quantities names a unit twice''
     else if list_ex (\<lambda>q. dec_lt (q_amount q) (Dec 0 0)) qs then malformed ''cost.quantities holds a negative amount''
     else Inr \<lparr>cost_txn_ids = as_set ids, cost_settled_usd = usd, cost_served_models = as_set models,
       cost_quantities = qs, cost_served_by = as_set by\<rparr>)"

definition cost_json :: "receipt_cost \<Rightarrow> pyvalue res" where
  "cost_json c = rbind (money_text (cost_settled_usd c)) (\<lambda>t. rbind (sequenced (map quantity_json (cost_quantities c))) (\<lambda>qs.
     Inr (obj ([(''ledger_txn_ids'', strs (cost_txn_ids c)), (''settled_usd'', VStr t), (''served_models'', strs (cost_served_models c))]
       @ (if cost_quantities c \<noteq> [] then [(''quantities'', VList qs)] else [])
       @ (if cost_served_by c \<noteq> [] then [(''served_by'', strs (cost_served_by c))] else [])))))"

definition receipt_cost_of :: "doc_fields \<Rightarrow> receipt_cost res" where
  "receipt_cost_of f = rbind (if \<not> has f ''quantities'' then Inr [] else rbind (get_array f ''quantities'') (\<lambda>vs.
       if vs = [] then malformed ''quantities is written only when it holds a quantity''
       else rbind (sequenced (map quantity_of vs)) (\<lambda>qs.
         if sort_key utf16_order (map q_unit qs) \<noteq> map q_unit qs then malformed ''quantities must be sorted by unit'' else Inr qs))) (\<lambda>qs.
     rbind (if \<not> has f ''served_by'' then Inr [] else rbind (get_texts f ''served_by'' True) (\<lambda>by.
       if by = [] then malformed ''served_by is written only when it names a system'' else Inr by)) (\<lambda>by.
     rbind (get_txn_ids f ''ledger_txn_ids'') (\<lambda>ids. rbind (get_amount f ''settled_usd'') (\<lambda>usd.
     rbind (get_texts f ''served_models'' True) (\<lambda>models. new_cost ids usd models qs by)))))"

section \<open>Outcome and anchors\<close>

datatype outcome_status = COMMITTED | REFUSED | RECOVERED_COMMITTED | RECOVERED_ABORTED | COMPENSATED

fun status_value :: "outcome_status \<Rightarrow> ustr" where
  "status_value COMMITTED = lit ''committed''"
| "status_value REFUSED = lit ''refused''"
| "status_value RECOVERED_COMMITTED = lit ''recovered_committed''"
| "status_value RECOVERED_ABORTED = lit ''recovered_aborted''"
| "status_value COMPENSATED = lit ''compensated''"

definition status_of :: "json \<Rightarrow> outcome_status res" where
  "status_of v = (case v of
       JStr t \<Rightarrow> (case map_of (map (\<lambda>s. (status_value s, s)) [COMMITTED, REFUSED, RECOVERED_COMMITTED, RECOVERED_ABORTED, COMPENSATED]) t of
           Some s \<Rightarrow> Inr s | None \<Rightarrow> malformed ''status must be one of'')
     | _ \<Rightarrow> malformed ''status must be one of'')"

record receipt_outcome =
  out_status :: outcome_status
  out_substrate_txid :: "ustr option"

definition outcome_json :: "receipt_outcome \<Rightarrow> pyvalue" where
  "outcome_json x = obj [(''status'', VStr (status_value (out_status x))), (''substrate_txid'', nullable_json VStr (out_substrate_txid x))]"

definition outcome_of :: "doc_fields \<Rightarrow> receipt_outcome res" where
  "outcome_of f = rbind (rbind (raw f ''status'') status_of) (\<lambda>s. rbind (nullable f ''substrate_txid'' get_text) (\<lambda>t.
     Inr \<lparr>out_status = s, out_substrate_txid = t\<rparr>))"

record chain_anchor =
  ca_seq :: int
  ca_head :: ustr

definition chain_anchor_json :: "chain_anchor \<Rightarrow> pyvalue" where
  "chain_anchor_json a = obj [(''seq'', VInt (ca_seq a)), (''head'', VStr (ca_head a))]"

definition chain_anchor_of :: "doc_fields \<Rightarrow> chain_anchor res" where
  "chain_anchor_of f = rbind (get_int f ''seq'') (\<lambda>n. rbind (get_hex64 f ''head'') (\<lambda>h. Inr \<lparr>ca_seq = n, ca_head = h\<rparr>))"

record log_anchor =
  la_log_id :: ustr
  la_leaf_index :: int

definition log_anchor_json :: "log_anchor \<Rightarrow> pyvalue" where
  "log_anchor_json a = obj [(''log_id'', VStr (la_log_id a)), (''leaf_index'', VInt (la_leaf_index a))]"

definition log_anchor_of :: "doc_fields \<Rightarrow> log_anchor res" where
  "log_anchor_of f = rbind (get_text f ''log_id'') (\<lambda>i. rbind (get_int f ''leaf_index'') (\<lambda>n. Inr \<lparr>la_log_id = i, la_leaf_index = n\<rparr>))"

record anchors =
  anc_agentgov :: "chain_anchor option"
  anc_escrow :: "chain_anchor option"
  anc_log :: "log_anchor option"

definition anchors_json :: "anchors \<Rightarrow> pyvalue" where
  "anchors_json a = obj [(''agentgov'', nullable_json chain_anchor_json (anc_agentgov a)),
     (''escrow'', nullable_json chain_anchor_json (anc_escrow a)), (''log'', nullable_json log_anchor_json (anc_log a))]"

definition optional_child :: "doc_fields \<Rightarrow> string \<Rightarrow> string list \<Rightarrow> doc_fields option res" where
  "optional_child f k names = nullable f k (\<lambda>f k. get_child f k names [])"

definition read_some :: "(doc_fields \<Rightarrow> 'a res) \<Rightarrow> doc_fields option \<Rightarrow> 'a option res" where
  "read_some rd g = (case g of None \<Rightarrow> Inr None | Some f \<Rightarrow> rbind (rd f) (\<lambda>x. Inr (Some x)))"

definition anchors_of :: "doc_fields \<Rightarrow> anchors res" where
  "anchors_of f = rbind (optional_child f ''agentgov'' [''seq'', ''head'']) (\<lambda>ag.
     rbind (optional_child f ''escrow'' [''seq'', ''head'']) (\<lambda>esc.
     rbind (optional_child f ''log'' [''log_id'', ''leaf_index'']) (\<lambda>lg.
     rbind (read_some chain_anchor_of ag) (\<lambda>a. rbind (read_some chain_anchor_of esc) (\<lambda>e. rbind (read_some log_anchor_of lg) (\<lambda>l.
     Inr \<lparr>anc_agentgov = a, anc_escrow = e, anc_log = l\<rparr>))))))"

section \<open>Signatures\<close>

definition ascii :: "string \<Rightarrow> byte list" where
  "ascii t = map of_nat (lit t)"

definition ALG_ED25519 :: ustr where
  "ALG_ED25519 = lit ''ed25519''"

definition ALG_HMAC_SHA256 :: ustr where
  "ALG_HMAC_SHA256 = lit ''hmac-sha256''"

definition SIGNATURE_BYTES :: "(ustr, nat) dict" where
  "SIGNATURE_BYTES = [(ALG_ED25519, 64), (ALG_HMAC_SHA256, 32)]"

record signature =
  sig_alg :: ustr
  sig_key_id :: ustr
  sig_value :: "byte list"
  sig_version :: int

definition signature_json :: "signature \<Rightarrow> pyvalue" where
  "signature_json s = obj ([(''alg'', VStr (sig_alg s)), (''key_id'', VStr (sig_key_id s))]
     @ (if sig_version s \<noteq> 1 then [(''sv'', VInt (sig_version s))] else []) @ [(''signature'', VStr (hex_bytes (sig_value s)))])"

text \<open>\<open>alg not in _SIGNATURE_BYTES\<close> hashes the value, and an array or an object has no hash.\<close>

definition alg_of :: "json \<Rightarrow> ustr res" where
  "alg_of v = (case v of
       JStr t \<Rightarrow> if map_of SIGNATURE_BYTES t = None then malformed ''alg must be ed25519 or hmac-sha256'' else Inr t
     | JArr _ \<Rightarrow> Inl (TypeError ''unhashable type'')
     | JObj _ \<Rightarrow> Inl (TypeError ''unhashable type'')
     | _ \<Rightarrow> malformed ''alg must be ed25519 or hmac-sha256'')"

definition hex_pairs :: "ustr \<Rightarrow> bool" where
  "hex_pairs t \<longleftrightarrow> t \<noteq> [] \<and> even (length t) \<and> list_all is_hex_lower t"

definition signature_of :: "doc_fields \<Rightarrow> signature res" where
  "signature_of f = rbind (rbind (raw f ''alg'') alg_of) (\<lambda>alg.
     rbind (rbind (raw f ''key_id'') (field_pattern key_id_ok ''must be 16 lowercase hex characters'')) (\<lambda>kid.
     rbind (rbind (raw f ''signature'') (field_pattern hex_pairs ''must be lowercase hex'')) (\<lambda>t.
     case fromhex t of None \<Rightarrow> Inl (ValueError ''non-hexadecimal number found'')
     | Some val \<Rightarrow>
       if map_of SIGNATURE_BYTES alg \<noteq> Some (length val) then malformed ''signature has the wrong length''
       else rbind (if \<not> has f ''sv'' then Inr 1 else rbind (raw f ''sv'') (\<lambda>v.
           if v \<noteq> JInt 2 then malformed ''sv must be 2: a version 1 signature has no sv'' else Inr 2)) (\<lambda>ver.
         Inr \<lparr>sig_alg = alg, sig_key_id = kid, sig_value = val, sig_version = ver\<rparr>))))"

definition sig_fields :: "json \<Rightarrow> string list" where
  "sig_fields v = (case v of JObj kvs \<Rightarrow> if map_of kvs (lit ''sv'') \<noteq> None then [''alg'', ''key_id'', ''sv'', ''signature'']
       else [''alg'', ''key_id'', ''signature''] | _ \<Rightarrow> [''alg'', ''key_id'', ''signature''])"

text \<open>\<open>_DOMAIN_V2\<close>: the version 2 domain of each of the six document types.\<close>

definition DOMAIN_V2 :: "(byte list \<times> byte list) list" where
  "DOMAIN_V2 = map (\<lambda>d. (ascii (''ARC1/'' @ d @ ''/v1'' @ [CHR 0x0A]), ascii (''ARC1/'' @ d @ ''/v2'' @ [CHR 0x0A])))
     [''receipt'', ''delivery'', ''attestation'', ''checkpoint'', ''cosignature'', ''transition'']"

definition domain_v2 :: "byte list \<Rightarrow> byte list res" where
  "domain_v2 d = (case map_of DOMAIN_V2 d of Some x \<Rightarrow> Inr x
     | None \<Rightarrow> if length d < 4 \<or> drop (length d - 4) d \<noteq> ascii (''/v1'' @ [CHR 0x0A]) then Inl (ValueError ''is not a version 1 domain'')
         else Inr (take (length d - 3) d @ ascii (''v2'' @ [CHR 0x0A])))"

definition signing_input :: "byte list \<Rightarrow> (string \<times> pyvalue) list \<Rightarrow> ustr \<Rightarrow> ustr \<Rightarrow> int \<Rightarrow> byte list res" where
  "signing_input domn body alg kid ver =
     (if ver = 1 then rbind (canonical_bytes (obj (body @ [(''sig'', obj [(''alg'', VStr alg), (''key_id'', VStr kid)])]))) (\<lambda>bs.
        Inr (domn @ bs))
      else if ver \<noteq> 2 then Inl (ValueError ''signature version is not 1 or 2'')
      else rbind (domain_v2 domn) (\<lambda>d.
        rbind (canonical_bytes (obj (body @ [(''sig'', obj [(''alg'', VStr alg), (''key_id'', VStr kid), (''sv'', VInt 2)])]))) (\<lambda>bs.
        Inr (d @ sha512 bs))))"

text \<open>A signer: its algorithm, its key id, the version it prefers (1 when it names none), and its
  \<open>sign\<close>, which may be a key service and fail. A verifier, and what a document is checked against.\<close>

record signer =
  sg_alg :: ustr
  sg_key_id :: ustr
  sg_version :: int
  sg_sign :: "byte list \<Rightarrow> byte list res"

record verifier =
  vr_alg :: ustr
  vr_key_id :: ustr
  vr_verify :: "byte list \<Rightarrow> byte list \<Rightarrow> bool"

datatype trusted = One_Key verifier | Keyring "(ustr, verifier) dict"

definition signature_version :: "signer \<Rightarrow> int option \<Rightarrow> int res" where
  "signature_version g ver = (let chosen = (case ver of Some v \<Rightarrow> v | None \<Rightarrow> sg_version g) in
     if chosen \<notin> {1, 2} then Inl (ValueError ''signature version is not 1 or 2'') else Inr chosen)"

definition check_signature :: "signature option \<Rightarrow> trusted \<Rightarrow> (ustr \<Rightarrow> ustr \<Rightarrow> int \<Rightarrow> byte list res) \<Rightarrow> unit res" where
  "check_signature sg keys payload = (case sg of None \<Rightarrow> Inl (ReceiptSignatureError ''is not signed'')
     | Some s \<Rightarrow> rbind (case keys of One_Key v \<Rightarrow> Inr v
           | Keyring d \<Rightarrow> (case map_of d (sig_key_id s) of Some v \<Rightarrow> Inr v
               | None \<Rightarrow> Inl (ReceiptSignatureError ''was signed by a key which is not among the keys given''))) (\<lambda>v.
         if sig_alg s \<noteq> vr_alg v then Inl (ReceiptSignatureError ''claims another algorithm than the key given'')
         else if sig_key_id s \<noteq> vr_key_id v then Inl (ReceiptSignatureError ''was not signed by the key given'')
         else rbind (payload (sig_alg s) (sig_key_id s) (sig_version s)) (\<lambda>m.
           if \<not> vr_verify v m (sig_value s) then Inl (ReceiptSignatureError ''does not verify'') else Inr ())))"

text \<open>\<open>HmacKey\<close> (\<open>receipts/signing.py\<close>), which signs and verifies.\<close>

definition hmac_key_id :: "byte list \<Rightarrow> ustr option \<Rightarrow> ustr" where
  "hmac_key_id secret kid = (case kid of Some k \<Rightarrow> k | None \<Rightarrow> take 16 (hex_bytes (hmac_sha256 secret (ascii ''ARC1/key-id/v1''))))"

definition hmac_sign_key :: "byte list \<Rightarrow> ustr option \<Rightarrow> signer" where
  "hmac_sign_key secret kid = \<lparr>sg_alg = ALG_HMAC_SHA256, sg_key_id = hmac_key_id secret kid, sg_version = 1,
     sg_sign = (\<lambda>m. Inr (hmac_sha256 secret m))\<rparr>"

definition hmac_check_key :: "byte list \<Rightarrow> ustr option \<Rightarrow> verifier" where
  "hmac_check_key secret kid = \<lparr>vr_alg = ALG_HMAC_SHA256, vr_key_id = hmac_key_id secret kid,
     vr_verify = (\<lambda>m s. hmac_sha256 secret m = s)\<rparr>"

definition new_hmac_key :: "byte list \<Rightarrow> ustr option \<Rightarrow> (signer \<times> verifier) res" where
  "new_hmac_key secret kid = (if length secret < 32 then Inl (ValueError ''an HMAC-SHA256 key must be at least 32 bytes'')
     else Inr (hmac_sign_key secret kid, hmac_check_key secret kid))"

section \<open>The receipt\<close>

definition RECEIPT_VERSION :: ustr where
  "RECEIPT_VERSION = lit ''ARC1''"

definition RECEIPT_DOMAIN :: "byte list" where
  "RECEIPT_DOMAIN = ascii (''ARC1/receipt/v1'' @ [CHR 0x0A])"

record action_receipt =
  ar_receipt_id :: ustr
  ar_issued_at :: instant
  ar_issuer :: ustr
  ar_authority :: authority
  ar_intent :: intent
  ar_effect :: effect
  ar_coverage :: coverage
  ar_decision :: decision
  ar_cost :: receipt_cost
  ar_outcome :: receipt_outcome
  ar_anchors :: anchors
  ar_signature :: "signature option"

definition new_receipt :: "action_receipt \<Rightarrow> action_receipt res" where
  "new_receipt r = (if eff_row_count (ar_effect r) \<noteq> summary_total (eff_summary (ar_effect r))
       then malformed ''effect.row_count is not what the summary counts''
     else if out_status (ar_outcome r) \<in> {COMMITTED, RECOVERED_COMMITTED, COMPENSATED} \<and> \<not> dec_admitted (ar_decision r)
       then malformed ''outcome is written but the decision did not admit the plan''
     else if out_status (ar_outcome r) = COMPENSATED \<and> out_substrate_txid (ar_outcome r) \<in> {None, Some []}
       then malformed ''outcome is compensated but names no substrate_txid''
     else Inr r)"

definition receipt_body :: "action_receipt \<Rightarrow> (string \<times> pyvalue) list res" where
  "receipt_body r = rbind (cost_json (ar_cost r)) (\<lambda>c.
     Inr [(''v'', VStr RECEIPT_VERSION), (''receipt_id'', VStr (ar_receipt_id r)), (''issued_at'', VStr (iso (ar_issued_at r))),
       (''issuer'', VStr (ar_issuer r)), (''authority'', authority_json (ar_authority r)), (''intent'', intent_json (ar_intent r)),
       (''effect'', effect_json (ar_effect r)), (''coverage'', coverage_json (ar_coverage r)),
       (''decision'', decision_json (ar_decision r)), (''cost'', c), (''outcome'', outcome_json (ar_outcome r)),
       (''anchors'', anchors_json (ar_anchors r))])"

definition receipt_json :: "action_receipt \<Rightarrow> pyvalue res" where
  "receipt_json r = rbind (receipt_body r) (\<lambda>b. Inr (obj (b @ [(''sig'', nullable_json signature_json (ar_signature r))])))"

definition receipt_canonical :: "action_receipt \<Rightarrow> byte list res" where
  "receipt_canonical r = rbind (receipt_json r) canonical_bytes"

definition receipt_leaf_hash :: "action_receipt \<Rightarrow> digest res" where
  "receipt_leaf_hash r = rbind (receipt_canonical r) (\<lambda>bs. Inr (leaf_hash bs))"

definition receipt_signing_input :: "action_receipt \<Rightarrow> ustr \<Rightarrow> ustr \<Rightarrow> int \<Rightarrow> byte list res" where
  "receipt_signing_input r alg kid ver = rbind (receipt_body r) (\<lambda>b. signing_input RECEIPT_DOMAIN b alg kid ver)"

text \<open>\<open>sign\<close>: \<open>dataclasses.replace\<close> runs the constructor again.\<close>

definition receipt_sign :: "action_receipt \<Rightarrow> signer \<Rightarrow> int option \<Rightarrow> action_receipt res" where
  "receipt_sign r g ver = rbind (signature_version g ver) (\<lambda>ver.
     rbind (receipt_signing_input r (sg_alg g) (sg_key_id g) ver) (\<lambda>m. rbind (sg_sign g m) (\<lambda>val.
     new_receipt (r\<lparr>ar_signature := Some \<lparr>sig_alg = sg_alg g, sig_key_id = sg_key_id g, sig_value = val, sig_version = ver\<rparr>\<rparr>))))"

definition receipt_verify :: "action_receipt \<Rightarrow> trusted \<Rightarrow> unit res" where
  "receipt_verify r keys = check_signature (ar_signature r) keys (receipt_signing_input r)"

definition with_log_anchor :: "action_receipt \<Rightarrow> ustr \<Rightarrow> int \<Rightarrow> action_receipt res" where
  "with_log_anchor r log_id index =
     new_receipt (r\<lparr>ar_anchors := (ar_anchors r)\<lparr>anc_log := Some \<lparr>la_log_id = log_id, la_leaf_index = index\<rparr>\<rparr>, ar_signature := None\<rparr>)"

text \<open>The arguments \<open>from_json\<close> passes to the constructor, but for the signature.\<close>

definition receipt_parts :: "doc_fields \<Rightarrow> action_receipt res" where
  "receipt_parts f = rbind (get_uuid f ''receipt_id'') (\<lambda>rid. rbind (get_instant f ''issued_at'') (\<lambda>t.
     rbind (get_text f ''issuer'') (\<lambda>issuer.
     rbind (rbind (get_child f ''authority'' [''scope_path'', ''trajectory_id'', ''capability''] []) authority_of) (\<lambda>au.
     rbind (rbind (get_child f ''intent'' [''plan_hash'', ''stated''] []) intent_of) (\<lambda>i.
     rbind (rbind (get_child f ''effect'' [''substrate_id'', ''schema_hash'', ''diff_hash'', ''row_root'', ''row_count'', ''summary'', ''truncated''] []) effect_of) (\<lambda>e.
     rbind (rbind (get_child f ''coverage'' [''observed_tables'', ''cascade_closed'', ''authorizer_on'', ''known_gaps''] [''measurement'']) coverage_of) (\<lambda>cv.
     rbind (rbind (get_child f ''decision'' [''verdict_hash'', ''admitted'', ''checkers'', ''policy_epoch'', ''repair_of''] []) decision_of) (\<lambda>d.
     rbind (rbind (get_child f ''cost'' [''ledger_txn_ids'', ''settled_usd'', ''served_models''] [''quantities'', ''served_by'']) receipt_cost_of) (\<lambda>c.
     rbind (rbind (get_child f ''outcome'' [''status'', ''substrate_txid''] []) outcome_of) (\<lambda>x.
     rbind (rbind (get_child f ''anchors'' [''agentgov'', ''escrow'', ''log''] []) anchors_of) (\<lambda>an.
     Inr \<lparr>ar_receipt_id = rid, ar_issued_at = t, ar_issuer = issuer, ar_authority = au, ar_intent = i, ar_effect = e,
       ar_coverage = cv, ar_decision = d, ar_cost = c, ar_outcome = x, ar_anchors = an, ar_signature = None\<rparr>)))))))))))"

definition RECEIPT_FIELDS :: "string list" where
  "RECEIPT_FIELDS = [''v'', ''receipt_id'', ''issued_at'', ''issuer'', ''authority'', ''intent'', ''effect'', ''coverage'',
     ''decision'', ''cost'', ''outcome'', ''anchors'', ''sig'']"

definition receipt_of_json :: "json \<Rightarrow> action_receipt res" where
  "receipt_of_json v = rbind (open_fields v RECEIPT_FIELDS []) (\<lambda>f. rbind (field_version f RECEIPT_VERSION) (\<lambda>_.
     rbind (raw f ''sig'') (\<lambda>sv. rbind (optional_child f ''sig'' (sig_fields sv)) (\<lambda>sg.
     rbind (receipt_parts f) (\<lambda>r. rbind (read_some signature_of sg) (\<lambda>s. new_receipt (r\<lparr>ar_signature := s\<rparr>)))))))"

definition receipt_loads :: "ustr \<Rightarrow> action_receipt res" where
  "receipt_loads t = rbind (loads_strict t) receipt_of_json"

section \<open>Which parts the reader accepts\<close>

definition set_ok :: "ustr list \<Rightarrow> bool" where
  "set_ok ts \<longleftrightarrow> list_all text_ok ts \<and> as_set ts = ts"

definition count_ok :: "int \<Rightarrow> bool" where
  "count_ok i \<longleftrightarrow> 0 \<le> i"

definition ids_ok :: "ustr list \<Rightarrow> bool" where
  "ids_ok ts \<longleftrightarrow> list_all uuid_ok ts \<and> as_set ts = ts"

definition capability_ok :: "capability \<Rightarrow> bool" where
  "capability_ok c \<longleftrightarrow> text_ok (cap_grant c) \<and> set_ok (cap_tables c) \<and> set_ok (cap_tenants c) \<and> pred_option count_ok (cap_row_limit c)"

definition authority_ok :: "authority \<Rightarrow> bool" where
  "authority_ok a \<longleftrightarrow> auth_scope_path a \<noteq> [] \<and> distinct (auth_scope_path a) \<and> list_all text_ok (auth_scope_path a)
     \<and> text_ok (auth_trajectory_id a) \<and> capability_ok (auth_capability a)"

definition intent_ok :: "intent \<Rightarrow> bool" where
  "intent_ok i \<longleftrightarrow> hex64 (int_plan_hash i) \<and> pred_option count_ok (sf_rows (int_stated i)) \<and> set_ok (sf_tables (int_stated i))"

definition summary_ok :: "effect_summary \<Rightarrow> bool" where
  "summary_ok s \<longleftrightarrow> count_ok (sum_inserted s) \<and> count_ok (sum_updated s) \<and> count_ok (sum_deleted s) \<and> set_ok (sum_tables s)
     \<and> set_ok (sum_tenants s) \<and> count_ok (sum_other_tenants s)"

definition effect_ok :: "effect \<Rightarrow> bool" where
  "effect_ok e \<longleftrightarrow> text_ok (eff_substrate_id e) \<and> hex64 (eff_schema_hash e) \<and> hex64 (eff_diff_hash e) \<and> hex64 (eff_row_root e)
     \<and> count_ok (eff_row_count e) \<and> summary_ok (eff_summary e)"

definition coverage_ok :: "coverage \<Rightarrow> bool" where
  "coverage_ok c \<longleftrightarrow> set_ok (cov_observed_tables c) \<and> set_ok (cov_known_gaps c) \<and> cov_measurement c \<in> set MEASUREMENTS"

definition decision_ok :: "decision \<Rightarrow> bool" where
  "decision_ok d \<longleftrightarrow> hex64 (dec_verdict_hash d) \<and> list_all (\<lambda>c. text_ok (chk_name c) \<and> hex64 (chk_config_hash c)) (dec_checkers d)
     \<and> distinct (map chk_name (dec_checkers d)) \<and> count_ok (dec_policy_epoch d) \<and> pred_option uuid_ok (dec_repair_of d)"

definition quantity_ok :: "cost_quantity \<Rightarrow> bool" where
  "quantity_ok q \<longleftrightarrow> unit_ok (q_unit q) \<and> ids_ok (q_txn_ids q)"

definition cost_ok :: "receipt_cost \<Rightarrow> bool" where
  "cost_ok c \<longleftrightarrow> ids_ok (cost_txn_ids c) \<and> set_ok (cost_served_models c) \<and> set_ok (cost_served_by c)
     \<and> list_all quantity_ok (cost_quantities c) \<and> distinct (map q_unit (cost_quantities c))
     \<and> sort_key (utf16_order \<circ> q_unit) (cost_quantities c) = cost_quantities c"

definition outcome_ok :: "receipt_outcome \<Rightarrow> bool" where
  "outcome_ok x \<longleftrightarrow> pred_option text_ok (out_substrate_txid x)"

definition chain_anchor_ok :: "chain_anchor \<Rightarrow> bool" where
  "chain_anchor_ok a \<longleftrightarrow> count_ok (ca_seq a) \<and> hex64 (ca_head a)"

definition log_anchor_ok :: "log_anchor \<Rightarrow> bool" where
  "log_anchor_ok a \<longleftrightarrow> text_ok (la_log_id a) \<and> count_ok (la_leaf_index a)"

definition anchors_ok :: "anchors \<Rightarrow> bool" where
  "anchors_ok a \<longleftrightarrow> pred_option chain_anchor_ok (anc_agentgov a) \<and> pred_option chain_anchor_ok (anc_escrow a)
     \<and> pred_option log_anchor_ok (anc_log a)"

definition signature_ok :: "signature \<Rightarrow> bool" where
  "signature_ok s \<longleftrightarrow> map_of SIGNATURE_BYTES (sig_alg s) = Some (length (sig_value s)) \<and> key_id_ok (sig_key_id s) \<and> sig_version s \<in> {1, 2}"

text \<open>A receipt whose fields have the formats, and that the constructor takes.\<close>

definition parts_ok :: "action_receipt \<Rightarrow> bool" where
  "parts_ok r \<longleftrightarrow> uuid_ok (ar_receipt_id r) \<and> real_instant (ar_issued_at r) \<and> 1000 \<le> iyear (ar_issued_at r) \<and> text_ok (ar_issuer r)
     \<and> authority_ok (ar_authority r) \<and> intent_ok (ar_intent r) \<and> effect_ok (ar_effect r) \<and> coverage_ok (ar_coverage r)
     \<and> decision_ok (ar_decision r) \<and> cost_ok (ar_cost r) \<and> outcome_ok (ar_outcome r) \<and> anchors_ok (ar_anchors r)"

definition receipt_ok :: "action_receipt \<Rightarrow> bool" where
  "receipt_ok r \<longleftrightarrow> parts_ok r \<and> new_receipt r = Inr r \<and> pred_option signature_ok (ar_signature r)"

text \<open>What reading back changes: the exponents of the amounts.\<close>

definition quantum_quantity :: "cost_quantity \<Rightarrow> cost_quantity" where
  "quantum_quantity q = q\<lparr>q_amount := quantum (q_amount q)\<rparr>"

definition quantum_cost :: "receipt_cost \<Rightarrow> receipt_cost" where
  "quantum_cost c = c\<lparr>cost_settled_usd := quantum (cost_settled_usd c), cost_quantities := map quantum_quantity (cost_quantities c)\<rparr>"

definition read_back :: "action_receipt \<Rightarrow> action_receipt" where
  "read_back r = r\<lparr>ar_cost := quantum_cost (ar_cost r)\<rparr>"

section \<open>Each part reads as it was written\<close>

lemma nullable_int_back:
  assumes "holds f k (nullable_json VInt x)" "pred_option count_ok x"
  shows "nullable f k get_int = Inr x"
  by (rule nullable_back [OF assms(1)]) (use assms(2) in \<open>auto simp: count_ok_def intro: get_int_back\<close>)

lemma nullable_text_back:
  assumes "holds f k (nullable_json VStr x)" "pred_option text_ok x"
  shows "nullable f k get_text = Inr x"
  by (rule nullable_back [OF assms(1)]) (use assms(2) in \<open>auto intro: get_text_back\<close>)

lemma nullable_uuid_back:
  assumes "holds f k (nullable_json VStr x)" "pred_option uuid_ok x"
  shows "nullable f k get_uuid = Inr x"
  by (rule nullable_back [OF assms(1)]) (use assms(2) in \<open>auto intro: get_uuid_back\<close>)

lemma set_back: "holds f k (strs ts) \<Longrightarrow> set_ok ts \<Longrightarrow> get_texts f k True = Inr ts"
  by (rule get_texts_back) (simp_all add: set_ok_def)

lemma ids_back: "holds f k (strs ts) \<Longrightarrow> ids_ok ts \<Longrightarrow> get_txn_ids f k = Inr ts"
  by (rule get_txn_ids_back) (simp_all add: ids_ok_def)

lemma count_back: "holds f k (VInt i) \<Longrightarrow> count_ok i \<Longrightarrow> get_int f k = Inr i"
  by (rule get_int_back) (simp_all add: count_ok_def)

lemma as_set_ok: "set_ok ts \<Longrightarrow> as_set ts = ts" "ids_ok ts \<Longrightarrow> as_set ts = ts"
  by (simp_all add: set_ok_def ids_ok_def)

lemma capability_back:
  assumes "holds f k (capability_json c)" "capability_ok c"
  shows "rbind (get_child f k [''grant'', ''tables'', ''tenants'', ''row_limit''] []) capability_of = Inr c"
proof (rule child_back [OF assms(1) [unfolded capability_json_def]])
  fix g assume "\<forall>(n, v) \<in> set [(''grant'', VStr (cap_grant c)), (''tables'', strs (cap_tables c)),
     (''tenants'', strs (cap_tenants c)), (''row_limit'', nullable_json VInt (cap_row_limit c))]. holds g n v"
  then have f: "holds g ''grant'' (VStr (cap_grant c))" "holds g ''tables'' (strs (cap_tables c))"
    "holds g ''tenants'' (strs (cap_tenants c))" "holds g ''row_limit'' (nullable_json VInt (cap_row_limit c))" by simp_all
  show "capability_of g = Inr c"
    using assms(2) get_text_back [OF f(1)] set_back [OF f(2)] set_back [OF f(3)] nullable_int_back [OF f(4)]
    by (simp add: capability_of_def new_capability_def capability_ok_def as_set_ok)
qed simp_all

lemma authority_back:
  assumes "holds f k (authority_json a)" "authority_ok a"
  shows "rbind (get_child f k [''scope_path'', ''trajectory_id'', ''capability''] []) authority_of = Inr a"
proof (rule child_back [OF assms(1) [unfolded authority_json_def]])
  fix g assume "\<forall>(n, v) \<in> set [(''scope_path'', strs (auth_scope_path a)), (''trajectory_id'', VStr (auth_trajectory_id a)),
     (''capability'', capability_json (auth_capability a))]. holds g n v"
  then have f: "holds g ''scope_path'' (strs (auth_scope_path a))" "holds g ''trajectory_id'' (VStr (auth_trajectory_id a))"
    "holds g ''capability'' (capability_json (auth_capability a))" by simp_all
  show "authority_of g = Inr a"
    using assms(2) get_texts_back [OF f(1), of False] get_text_back [OF f(2)] capability_back [OF f(3)]
    by (simp add: authority_of_def authority_ok_def distinct_remdups_id del: rbind_eq_Inr)
qed simp_all

lemma stated_back:
  assumes "holds f k (stated_json s)"
    and "\<And>g. holds g ''rows'' (nullable_json VInt (sf_rows s)) \<Longrightarrow> holds g ''tables'' (strs (sf_tables s)) \<Longrightarrow> rd g = Inr x"
  shows "rbind (get_child f k [''rows'', ''tables''] []) rd = Inr x"
  by (rule child_back [OF assms(1) [unfolded stated_json_def]]) (simp_all add: assms(2))

lemma intent_back:
  assumes "holds f k (intent_json i)" "intent_ok i"
  shows "rbind (get_child f k [''plan_hash'', ''stated''] []) intent_of = Inr i"
proof (rule child_back [OF assms(1) [unfolded intent_json_def]])
  fix g assume "\<forall>(n, v) \<in> set [(''plan_hash'', VStr (int_plan_hash i)), (''stated'', stated_json (int_stated i))]. holds g n v"
  then have f: "holds g ''plan_hash'' (VStr (int_plan_hash i))" "holds g ''stated'' (stated_json (int_stated i))" by simp_all
  show "intent_of g = Inr i"
    unfolding intent_of_def
  proof (rule stated_back [OF f(2)])
    fix h assume h: "holds h ''rows'' (nullable_json VInt (sf_rows (int_stated i)))" "holds h ''tables'' (strs (sf_tables (int_stated i)))"
    show "rbind (get_hex64 g ''plan_hash'') (\<lambda>ph. rbind (nullable h ''rows'' get_int) (\<lambda>rows. rbind (get_texts h ''tables'' True) (\<lambda>tables.
        Inr \<lparr>int_plan_hash = ph, int_stated = new_stated rows tables\<rparr>))) = Inr i"
      using assms(2) get_hex64_back [OF f(1)] nullable_int_back [OF h(1)] set_back [OF h(2)]
      by (simp add: intent_ok_def new_stated_def as_set_ok)
  qed
qed simp_all

lemma summary_back:
  assumes "holds f k (summary_json s)" "summary_ok s"
  shows "rbind (get_child f k [''ins'', ''upd'', ''del'', ''tables'', ''tenants''] [''other_tenants'']) summary_of = Inr s"
proof (rule child_back [OF assms(1) [unfolded summary_json_def]])
  fix g
  let ?kvs = "[(''ins'', VInt (sum_inserted s)), (''upd'', VInt (sum_updated s)), (''del'', VInt (sum_deleted s)),
     (''tables'', strs (sum_tables s)), (''tenants'', strs (sum_tenants s))]
     @ (if sum_other_tenants s \<noteq> 0 then [(''other_tenants'', VInt (sum_other_tenants s))] else [])"
  assume "\<forall>n. has g n \<longleftrightarrow> n \<in> fst ` set ?kvs" "\<forall>(n, v) \<in> set ?kvs. holds g n v"
  then have has: "has g ''other_tenants'' \<longleftrightarrow> sum_other_tenants s \<noteq> 0"
    and f: "holds g ''ins'' (VInt (sum_inserted s))" "holds g ''upd'' (VInt (sum_updated s))" "holds g ''del'' (VInt (sum_deleted s))"
      "holds g ''tables'' (strs (sum_tables s))" "holds g ''tenants'' (strs (sum_tenants s))"
    and o: "sum_other_tenants s \<noteq> 0 \<Longrightarrow> holds g ''other_tenants'' (VInt (sum_other_tenants s))"
    by (cases "sum_other_tenants s = 0"; simp)+
  show "summary_of g = Inr s"
    using assms(2) has count_back [OF o] count_back [OF f(1)] count_back [OF f(2)] count_back [OF f(3)] set_back [OF f(4)] set_back [OF f(5)]
    by (cases "sum_other_tenants s = 0") (simp_all add: summary_of_def summary_ok_def new_summary_def as_set_ok count_ok_def)
qed (auto split: if_splits)

lemma effect_back:
  assumes "holds f k (effect_json e)" "effect_ok e"
  shows "rbind (get_child f k [''substrate_id'', ''schema_hash'', ''diff_hash'', ''row_root'', ''row_count'', ''summary'', ''truncated''] []) effect_of = Inr e"
proof (rule child_back [OF assms(1) [unfolded effect_json_def]])
  fix g assume "\<forall>(n, v) \<in> set [(''substrate_id'', VStr (eff_substrate_id e)), (''schema_hash'', VStr (eff_schema_hash e)),
     (''diff_hash'', VStr (eff_diff_hash e)), (''row_root'', VStr (eff_row_root e)), (''row_count'', VInt (eff_row_count e)),
     (''summary'', summary_json (eff_summary e)), (''truncated'', VBool (eff_truncated e))]. holds g n v"
  then have f: "holds g ''substrate_id'' (VStr (eff_substrate_id e))" "holds g ''schema_hash'' (VStr (eff_schema_hash e))"
     "holds g ''diff_hash'' (VStr (eff_diff_hash e))" "holds g ''row_root'' (VStr (eff_row_root e))" "holds g ''row_count'' (VInt (eff_row_count e))"
     "holds g ''summary'' (summary_json (eff_summary e))" "holds g ''truncated'' (VBool (eff_truncated e))" by simp_all
  show "effect_of g = Inr e"
    using assms(2) get_text_back [OF f(1)] get_hex64_back [OF f(2)] get_hex64_back [OF f(3)] get_hex64_back [OF f(4)]
      count_back [OF f(5)] summary_back [OF f(6)] get_bool_back [OF f(7)]
    by (simp add: effect_of_def effect_ok_def del: rbind_eq_Inr)
qed simp_all

lemma measurement_text: "m \<in> set MEASUREMENTS \<Longrightarrow> text_ok m"
  by (auto simp: MEASUREMENTS_def TRANSACTIONAL_def text_ok_def)

lemma coverage_back:
  assumes "holds f k (coverage_json c)" "coverage_ok c"
  shows "rbind (get_child f k [''observed_tables'', ''cascade_closed'', ''authorizer_on'', ''known_gaps''] [''measurement'']) coverage_of = Inr c"
proof (rule child_back [OF assms(1) [unfolded coverage_json_def]])
  fix g
  let ?kvs = "[(''observed_tables'', strs (cov_observed_tables c)), (''cascade_closed'', VBool (cov_cascade_closed c)),
     (''authorizer_on'', VBool (cov_authorizer_on c)), (''known_gaps'', strs (cov_known_gaps c))]
     @ (if cov_measurement c \<noteq> TRANSACTIONAL then [(''measurement'', VStr (cov_measurement c))] else [])"
  assume "\<forall>n. has g n \<longleftrightarrow> n \<in> fst ` set ?kvs" "\<forall>(n, v) \<in> set ?kvs. holds g n v"
  then have has: "has g ''measurement'' \<longleftrightarrow> cov_measurement c \<noteq> TRANSACTIONAL"
    and f: "holds g ''observed_tables'' (strs (cov_observed_tables c))" "holds g ''cascade_closed'' (VBool (cov_cascade_closed c))"
      "holds g ''authorizer_on'' (VBool (cov_authorizer_on c))" "holds g ''known_gaps'' (strs (cov_known_gaps c))"
    and m: "cov_measurement c \<noteq> TRANSACTIONAL \<Longrightarrow> holds g ''measurement'' (VStr (cov_measurement c))"
    by (cases "cov_measurement c = TRANSACTIONAL"; simp)+
  show "coverage_of g = Inr c"
    using assms(2) has measurement_text [of "cov_measurement c"] get_text_back [OF m] set_back [OF f(1)] get_bool_back [OF f(2)]
      get_bool_back [OF f(3)] set_back [OF f(4)]
    by (cases "cov_measurement c = TRANSACTIONAL") (simp_all add: coverage_of_def coverage_ok_def new_coverage_def as_set_ok)
qed (auto split: if_splits)

lemma checker_back:
  assumes "ordered (checker_json c) = Some j" "text_ok (chk_name c)" "hex64 (chk_config_hash c)"
  shows "checker_of j = Inr c"
proof -
  obtain g where g: "open_fields j [''name'', ''config_hash''] [] = Inr g" "holds g ''name'' (VStr (chk_name c))"
    "holds g ''config_hash'' (VStr (chk_config_hash c))"
    using obj_read [OF assms(1) [unfolded checker_json_def], of "[''name'', ''config_hash'']" "[]"] by auto
  show ?thesis using assms(2,3) g(1) get_text_back [OF g(2)] get_hex64_back [OF g(3)] by (simp add: checker_of_def)
qed

lemma decision_back:
  assumes "holds f k (decision_json d)" "decision_ok d"
  shows "rbind (get_child f k [''verdict_hash'', ''admitted'', ''checkers'', ''policy_epoch'', ''repair_of''] []) decision_of = Inr d"
proof (rule child_back [OF assms(1) [unfolded decision_json_def]])
  fix g assume "\<forall>(n, v) \<in> set [(''verdict_hash'', VStr (dec_verdict_hash d)), (''admitted'', VBool (dec_admitted d)),
     (''checkers'', VList (map checker_json (dec_checkers d))), (''policy_epoch'', VInt (dec_policy_epoch d)),
     (''repair_of'', nullable_json VStr (dec_repair_of d))]. holds g n v"
  then have f: "holds g ''verdict_hash'' (VStr (dec_verdict_hash d))" "holds g ''admitted'' (VBool (dec_admitted d))"
     "holds g ''checkers'' (VList (map checker_json (dec_checkers d)))" "holds g ''policy_epoch'' (VInt (dec_policy_epoch d))"
     "holds g ''repair_of'' (nullable_json VStr (dec_repair_of d))" by simp_all
  have "\<exists>vs. get_array g ''checkers'' = Inr vs \<and> length vs = length (dec_checkers d) \<and> sequenced (map checker_of vs) = Inr (map (\<lambda>c. c) (dec_checkers d))"
    by (rule get_list_back [OF f(3)]) (use assms(2) in \<open>auto simp: decision_ok_def list_all_iff intro: checker_back\<close>)
  then obtain vs where vs: "get_array g ''checkers'' = Inr vs" "sequenced (map checker_of vs) = Inr (dec_checkers d)" by auto
  show "decision_of g = Inr d"
    using assms(2) vs get_hex64_back [OF f(1)] get_bool_back [OF f(2)] count_back [OF f(4)] nullable_uuid_back [OF f(5)]
    by (simp add: decision_of_def decision_ok_def distinct_remdups_id del: rbind_eq_Inr)
qed simp_all

lemma quantity_back:
  assumes "quantity_json q = Inr v" "ordered v = Some j" "quantity_ok q"
  shows "quantity_of j = Inr (quantum_quantity q)"
proof -
  obtain t where t: "money_text (q_amount q) = Inr t"
    and v: "v = obj [(''unit'', VStr (q_unit q)), (''amount'', VStr t), (''ledger_txn_ids'', strs (q_txn_ids q))]"
    using assms(1) by (auto simp: quantity_json_def)
  obtain g where g: "open_fields j [''unit'', ''amount'', ''ledger_txn_ids''] [] = Inr g" "holds g ''unit'' (VStr (q_unit q))"
    "holds g ''amount'' (VStr t)" "holds g ''ledger_txn_ids'' (strs (q_txn_ids q))"
    using obj_read [OF assms(2) [unfolded v], of "[''unit'', ''amount'', ''ledger_txn_ids'']" "[]"] by auto
  have "raw g ''unit'' = Inr (JStr (q_unit q))" using g(2) by (simp add: holds_def)
  then show ?thesis
    using assms(3) g(1) get_amount_back [OF t g(3)] ids_back [OF g(4)]
    by (simp add: quantity_of_def field_pattern_def new_quantity_def quantity_ok_def quantum_quantity_def as_set_ok)
qed

lemma sort_key_fst: "map f (sort_key (g \<circ> f) xs) = sort_key g (map f xs)"
  by (rule sort_key_map [symmetric])

lemma dec_lt_quantum: "money_text a = Inr t \<Longrightarrow> \<not> dec_lt (quantum a) (Dec 0 0)"
  using money_back(3) [of a t] by (auto simp: dec_lt_iff money_text_def split: if_splits)

lemma cost_back:
  assumes "cost_json c = Inr v" "holds f k v" "cost_ok c"
  shows "rbind (get_child f k [''ledger_txn_ids'', ''settled_usd'', ''served_models''] [''quantities'', ''served_by'']) receipt_cost_of = Inr (quantum_cost c)"
proof -
  obtain t qvs where t: "money_text (cost_settled_usd c) = Inr t" and qvs: "map quantity_json (cost_quantities c) = map Inr qvs"
    and v: "v = obj ([(''ledger_txn_ids'', strs (cost_txn_ids c)), (''settled_usd'', VStr t), (''served_models'', strs (cost_served_models c))]
       @ (if cost_quantities c \<noteq> [] then [(''quantities'', VList qvs)] else [])
       @ (if cost_served_by c \<noteq> [] then [(''served_by'', strs (cost_served_by c))] else []))"
    using assms(1) by (auto simp: cost_json_def sequenced_Inr)
  have qjson: "quantity_json q \<in> range Inr" if "q \<in> set (cost_quantities c)" for q
  proof -
    have "quantity_json q \<in> set (map quantity_json (cost_quantities c))" using that by simp
    then show ?thesis unfolding qvs by auto
  qed
  have qvs': "qvs = map (projr \<circ> quantity_json) (cost_quantities c)"
    using arg_cong [OF qvs, of "map projr"] by (simp add: comp_def)
  show ?thesis
  proof (rule child_back [OF assms(2) [unfolded v]])
    fix g
    let ?kvs = "[(''ledger_txn_ids'', strs (cost_txn_ids c)), (''settled_usd'', VStr t), (''served_models'', strs (cost_served_models c))]
       @ (if cost_quantities c \<noteq> [] then [(''quantities'', VList qvs)] else [])
       @ (if cost_served_by c \<noteq> [] then [(''served_by'', strs (cost_served_by c))] else [])"
    assume a: "\<forall>n. has g n \<longleftrightarrow> n \<in> fst ` set ?kvs" "\<forall>(n, v) \<in> set ?kvs. holds g n v"
    have f: "holds g ''ledger_txn_ids'' (strs (cost_txn_ids c))" "holds g ''settled_usd'' (VStr t)"
        "holds g ''served_models'' (strs (cost_served_models c))" using a(2) by simp_all
    have has: "has g ''quantities'' \<longleftrightarrow> cost_quantities c \<noteq> []" "has g ''served_by'' \<longleftrightarrow> cost_served_by c \<noteq> []"
      and q: "cost_quantities c \<noteq> [] \<Longrightarrow> holds g ''quantities'' (VList qvs)"
      and b: "cost_served_by c \<noteq> [] \<Longrightarrow> holds g ''served_by'' (strs (cost_served_by c))"
      using a by (cases "cost_quantities c = []"; cases "cost_served_by c = []"; simp)+
    have units: "map q_unit (map quantum_quantity qs) = map q_unit qs" for qs by (simp add: quantum_quantity_def)
    have sorted_units: "sort_key utf16_order (map q_unit (cost_quantities c)) = map q_unit (cost_quantities c)"
      using assms(3) sort_key_fst [of q_unit utf16_order "cost_quantities c"] by (simp add: cost_ok_def)
    have qs: "rbind (get_array g ''quantities'') (\<lambda>vs. if vs = [] then malformed ''quantities is written only when it holds a quantity''
        else rbind (sequenced (map quantity_of vs)) (\<lambda>qs. if sort_key utf16_order (map q_unit qs) \<noteq> map q_unit qs
          then malformed ''quantities must be sorted by unit'' else Inr qs)) = Inr (map quantum_quantity (cost_quantities c))"
      if ne: "cost_quantities c \<noteq> []"
    proof -
      have "quantity_of w = Inr (quantum_quantity q)"
        if "q \<in> set (cost_quantities c)" "ordered ((projr \<circ> quantity_json) q) = Some w" for q w
        using qjson [OF that(1)] quantity_back [of q "projr (quantity_json q)" w] that assms(3) by (auto simp: cost_ok_def list_all_iff)
      then obtain vs where vs: "get_array g ''quantities'' = Inr vs" "length vs = length (cost_quantities c)"
        "sequenced (map quantity_of vs) = Inr (map quantum_quantity (cost_quantities c))"
        using get_list_back [of g "''quantities''" "projr \<circ> quantity_json" "cost_quantities c" quantity_of quantum_quantity] q [OF ne]
        unfolding qvs' by blast
      have "vs \<noteq> []" using vs(2) ne by auto
      then show ?thesis using vs(1,3) sorted_units by (simp add: units del: rbind_eq_Inr map_map)
    qed
    have srv: "rbind (get_texts g ''served_by'' True) (\<lambda>by. if by = [] then malformed ''served_by is written only when it names a system'' else Inr by)
        = Inr (cost_served_by c)" if "cost_served_by c \<noteq> []"
      using set_back [OF b [OF that]] assms(3) that by (simp add: cost_ok_def)
    have lt: "\<not> list_ex (\<lambda>q. dec_lt (q_amount q) (Dec 0 0)) (map quantum_quantity (cost_quantities c))"
    proof -
      have "\<not> dec_lt (quantum (q_amount q)) (Dec 0 0)" if "q \<in> set (cost_quantities c)" for q
        using qjson [OF that] dec_lt_quantum [of "q_amount q"] by (auto simp: quantity_json_def)
      then show ?thesis by (auto simp: list_ex_iff quantum_quantity_def)
    qed
    have sorted_qs: "sort_key (utf16_order \<circ> q_unit) (map quantum_quantity (cost_quantities c)) = map quantum_quantity (cost_quantities c)"
    proof -
      have "utf16_order \<circ> q_unit \<circ> quantum_quantity = utf16_order \<circ> q_unit" by (auto simp: quantum_quantity_def)
      then show ?thesis using assms(3) by (simp add: sort_key_map cost_ok_def)
    qed
    have dist: "distinct (map q_unit (map quantum_quantity (cost_quantities c)))" unfolding units using assms(3) by (simp add: cost_ok_def)
    have new: "new_cost (cost_txn_ids c) (quantum (cost_settled_usd c)) (cost_served_models c) (map quantum_quantity (cost_quantities c)) (cost_served_by c)
      = Inr (quantum_cost c)"
      using lt sorted_qs dist assms(3)
      by (simp add: new_cost_def Let_def distinct_remdups_id cost_ok_def as_set_ok quantum_cost_def del: map_map)
    show "receipt_cost_of g = Inr (quantum_cost c)"
      using assms(3) has qs srv new ids_back [OF f(1)] get_amount_back [OF t f(2)] set_back [OF f(3)]
      unfolding receipt_cost_of_def
      by (cases "cost_quantities c = []"; cases "cost_served_by c = []") (simp_all add: cost_ok_def del: rbind_eq_Inr map_map)
  qed (auto split: if_splits)
qed

lemma status_back: "status_of (JStr (status_value s)) = Inr s"
  by (cases s) (simp_all add: status_of_def)

lemma outcome_back:
  assumes "holds f k (outcome_json x)" "outcome_ok x"
  shows "rbind (get_child f k [''status'', ''substrate_txid''] []) outcome_of = Inr x"
proof (rule child_back [OF assms(1) [unfolded outcome_json_def]])
  fix g assume "\<forall>(n, v) \<in> set [(''status'', VStr (status_value (out_status x))), (''substrate_txid'', nullable_json VStr (out_substrate_txid x))]. holds g n v"
  then have f: "holds g ''status'' (VStr (status_value (out_status x)))" "holds g ''substrate_txid'' (nullable_json VStr (out_substrate_txid x))" by simp_all
  have "raw g ''status'' = Inr (JStr (status_value (out_status x)))" using f(1) by (simp add: holds_def)
  then show "outcome_of g = Inr x"
    using assms(2) nullable_text_back [OF f(2)] by (simp add: outcome_of_def outcome_ok_def status_back)
qed simp_all

lemma optional_child_back:
  assumes "holds f k (nullable_json J x)" "\<And>y. x = Some y \<Longrightarrow> ordered (J y) \<noteq> Some JNull"
    and "\<And>y. x = Some y \<Longrightarrow> holds f k (J y) \<Longrightarrow> rbind (get_child f k names []) rd = Inr y"
  shows "\<exists>g. optional_child f k names = Inr g \<and> read_some rd g = Inr x"
proof (cases x)
  case None
  then have "raw f k = Inr JNull" using assms(1) by (simp add: holds_def nullable_json_def)
  then show ?thesis using None by (simp add: optional_child_def nullable_def read_some_def)
next
  case (Some y)
  then have h: "holds f k (J y)" using assms(1) by (simp add: nullable_json_def)
  then obtain w where w: "raw f k = Inr w" "w \<noteq> JNull" using assms(2) [OF Some] by (auto simp: holds_def)
  obtain g where g: "get_child f k names [] = Inr g" "rd g = Inr y" using assms(3) [OF Some h] by auto
  have "optional_child f k names = Inr (Some g)"
    using w g(1) by (simp add: optional_child_def nullable_def del: rbind_eq_Inr)
  then show ?thesis using g(2) Some by (simp add: read_some_def)
qed

lemma chain_anchor_back:
  assumes "holds f k (chain_anchor_json a)" "chain_anchor_ok a"
  shows "rbind (get_child f k [''seq'', ''head''] []) chain_anchor_of = Inr a"
proof (rule child_back [OF assms(1) [unfolded chain_anchor_json_def]])
  fix g assume "\<forall>(n, v) \<in> set [(''seq'', VInt (ca_seq a)), (''head'', VStr (ca_head a))]. holds g n v"
  then have f: "holds g ''seq'' (VInt (ca_seq a))" "holds g ''head'' (VStr (ca_head a))" by simp_all
  show "chain_anchor_of g = Inr a"
    using assms(2) count_back [OF f(1)] get_hex64_back [OF f(2)] by (simp add: chain_anchor_of_def chain_anchor_ok_def)
qed simp_all

lemma log_anchor_back:
  assumes "holds f k (log_anchor_json a)" "log_anchor_ok a"
  shows "rbind (get_child f k [''log_id'', ''leaf_index''] []) log_anchor_of = Inr a"
proof (rule child_back [OF assms(1) [unfolded log_anchor_json_def]])
  fix g assume "\<forall>(n, v) \<in> set [(''log_id'', VStr (la_log_id a)), (''leaf_index'', VInt (la_leaf_index a))]. holds g n v"
  then have f: "holds g ''log_id'' (VStr (la_log_id a))" "holds g ''leaf_index'' (VInt (la_leaf_index a))" by simp_all
  show "log_anchor_of g = Inr a"
    using assms(2) get_text_back [OF f(1)] count_back [OF f(2)] by (simp add: log_anchor_of_def log_anchor_ok_def)
qed simp_all

lemma anchor_not_null [simp]: "ordered (chain_anchor_json a) \<noteq> Some JNull" "ordered (log_anchor_json l) \<noteq> Some JNull"
  by (simp_all add: chain_anchor_json_def log_anchor_json_def)

lemma anchors_back:
  assumes "holds f k (anchors_json a)" "anchors_ok a"
  shows "rbind (get_child f k [''agentgov'', ''escrow'', ''log''] []) anchors_of = Inr a"
proof (rule child_back [OF assms(1) [unfolded anchors_json_def]])
  fix g assume "\<forall>(n, v) \<in> set [(''agentgov'', nullable_json chain_anchor_json (anc_agentgov a)),
     (''escrow'', nullable_json chain_anchor_json (anc_escrow a)), (''log'', nullable_json log_anchor_json (anc_log a))]. holds g n v"
  then have f: "holds g ''agentgov'' (nullable_json chain_anchor_json (anc_agentgov a))"
    "holds g ''escrow'' (nullable_json chain_anchor_json (anc_escrow a))" "holds g ''log'' (nullable_json log_anchor_json (anc_log a))" by simp_all
  have "\<exists>x. optional_child g ''agentgov'' [''seq'', ''head''] = Inr x \<and> read_some chain_anchor_of x = Inr (anc_agentgov a)"
    by (rule optional_child_back [OF f(1)]) (use assms(2) in \<open>auto simp: anchors_ok_def chain_anchor_back simp del: rbind_eq_Inr\<close>)
  moreover have "\<exists>x. optional_child g ''escrow'' [''seq'', ''head''] = Inr x \<and> read_some chain_anchor_of x = Inr (anc_escrow a)"
    by (rule optional_child_back [OF f(2)]) (use assms(2) in \<open>auto simp: anchors_ok_def chain_anchor_back simp del: rbind_eq_Inr\<close>)
  moreover have "\<exists>x. optional_child g ''log'' [''log_id'', ''leaf_index''] = Inr x \<and> read_some log_anchor_of x = Inr (anc_log a)"
    by (rule optional_child_back [OF f(3)]) (use assms(2) in \<open>auto simp: anchors_ok_def log_anchor_back simp del: rbind_eq_Inr\<close>)
  ultimately show "anchors_of g = Inr a" by (force simp: anchors_of_def)
qed simp_all

lemma hex_pairs_bytes: "bs \<noteq> [] \<Longrightarrow> hex_pairs (hex_bytes bs)"
  by (auto simp: hex_pairs_def hex_bytes_chars simp flip: length_greater_0_conv)

lemma signature_bytes: "map_of SIGNATURE_BYTES a = Some n \<Longrightarrow> 0 < n \<and> a \<in> {ALG_ED25519, ALG_HMAC_SHA256}"
  by (auto simp: SIGNATURE_BYTES_def split: if_splits)

lemma sig_fields_of:
  assumes "ordered (signature_json s) = Some j"
  shows "sig_fields j = (if sig_version s \<noteq> 1 then [''alg'', ''key_id'', ''sv'', ''signature''] else [''alg'', ''key_id'', ''signature''])"
proof -
  let ?kvs = "[(''alg'', VStr (sig_alg s)), (''key_id'', VStr (sig_key_id s))]
     @ (if sig_version s \<noteq> 1 then [(''sv'', VInt (sig_version s))] else []) @ [(''signature'', VStr (hex_bytes (sig_value s)))]"
  have "distinct (map fst ?kvs)" by simp
  from ordered_obj [OF this assms [unfolded signature_json_def]]
  obtain f where f: "j = JObj f" "fst ` set f = lit ` fst ` set ?kvs" by blast
  have "map_of f (lit ''sv'') \<noteq> None \<longleftrightarrow> lit ''sv'' \<in> lit ` fst ` set ?kvs"
    using f(2) by (auto simp: map_of_eq_None_iff)
  also have "\<dots> \<longleftrightarrow> ''sv'' \<in> fst ` set ?kvs" by (simp add: inj_image_mem_iff inj_on_def lit_inj del: lit_Cons)
  also have "\<dots> \<longleftrightarrow> sig_version s \<noteq> 1" by (cases "sig_version s = 1"; simp)
  finally show ?thesis using f(1) by (simp add: sig_fields_def)
qed

lemma signature_back:
  assumes "holds f k (signature_json s)" "signature_ok s" "raw f k = Inr j"
  shows "rbind (get_child f k (sig_fields j) []) signature_of = Inr s"
proof -
  have j: "ordered (signature_json s) = Some j" using assms(1,3) by (auto simp: holds_def)
  show ?thesis
    unfolding sig_fields_of [OF j]
  proof (rule child_back [OF assms(1) [unfolded signature_json_def]])
    fix g
    let ?kvs = "[(''alg'', VStr (sig_alg s)), (''key_id'', VStr (sig_key_id s))]
       @ (if sig_version s \<noteq> 1 then [(''sv'', VInt (sig_version s))] else []) @ [(''signature'', VStr (hex_bytes (sig_value s)))]"
    assume a: "\<forall>n. has g n \<longleftrightarrow> n \<in> fst ` set ?kvs" "\<forall>(n, v) \<in> set ?kvs. holds g n v"
    have r: "raw g ''alg'' = Inr (JStr (sig_alg s))" "raw g ''key_id'' = Inr (JStr (sig_key_id s))"
      "raw g ''signature'' = Inr (JStr (hex_bytes (sig_value s)))" using a(2) by (simp_all add: holds_def)
    have sv: "has g ''sv'' \<longleftrightarrow> sig_version s \<noteq> 1" "sig_version s \<noteq> 1 \<Longrightarrow> holds g ''sv'' (VInt (sig_version s))"
      using a by (cases "sig_version s = 1"; simp)+
    have len: "map_of SIGNATURE_BYTES (sig_alg s) = Some (length (sig_value s))" and ver: "sig_version s = 1 \<or> sig_version s = 2"
      using assms(2) by (simp_all add: signature_ok_def)
    have ne: "sig_value s \<noteq> []" using signature_bytes [OF len] by auto
    have "sig_version s = 2 \<Longrightarrow> raw g ''sv'' = Inr (JInt 2)" using sv(2) by (auto simp: holds_def split: if_splits)
    then show "signature_of g = Inr s"
      using r len sv(1) ver assms(2) hex_pairs_bytes [OF ne]
      by (auto simp: signature_of_def alg_of_def field_pattern_def signature_ok_def)
  qed auto
qed

section \<open>The receipt reads as it was written\<close>

lemma parts_back:
  assumes "receipt_body r = Inr b" "\<forall>(k, v) \<in> set b. holds f k v" "parts_ok r"
  shows "field_version f RECEIPT_VERSION = Inr ()" "receipt_parts f = Inr (read_back r\<lparr>ar_signature := None\<rparr>)"
proof -
  obtain c where c: "cost_json (ar_cost r) = Inr c" using assms(1) by (auto simp: receipt_body_def)
  have f: "holds f ''v'' (VStr RECEIPT_VERSION)" "holds f ''receipt_id'' (VStr (ar_receipt_id r))"
    "holds f ''issued_at'' (VStr (iso (ar_issued_at r)))" "holds f ''issuer'' (VStr (ar_issuer r))"
    "holds f ''authority'' (authority_json (ar_authority r))" "holds f ''intent'' (intent_json (ar_intent r))"
    "holds f ''effect'' (effect_json (ar_effect r))" "holds f ''coverage'' (coverage_json (ar_coverage r))"
    "holds f ''decision'' (decision_json (ar_decision r))" "holds f ''cost'' c" "holds f ''outcome'' (outcome_json (ar_outcome r))"
    "holds f ''anchors'' (anchors_json (ar_anchors r))"
    using assms(1,2) c by (auto simp: receipt_body_def)
  show "field_version f RECEIPT_VERSION = Inr ()" by (rule version_back [OF f(1)])
  show "receipt_parts f = Inr (read_back r\<lparr>ar_signature := None\<rparr>)"
    using assms(3) get_uuid_back [OF f(2)] get_instant_back [OF f(3)] get_text_back [OF f(4)] authority_back [OF f(5)]
      intent_back [OF f(6)] effect_back [OF f(7)] coverage_back [OF f(8)] decision_back [OF f(9)] cost_back [OF c f(10)]
      outcome_back [OF f(11)] anchors_back [OF f(12)]
    by (simp add: receipt_parts_def parts_ok_def read_back_def del: rbind_eq_Inr)
qed

lemma body_names: "receipt_body r = Inr b \<Longrightarrow> map fst b = butlast RECEIPT_FIELDS"
  by (auto simp: receipt_body_def RECEIPT_FIELDS_def)

lemma new_receipt_read_back: "new_receipt r = Inr r \<Longrightarrow> new_receipt (read_back r) = Inr (read_back r)"
  by (auto simp: new_receipt_def read_back_def malformed_def split: if_splits)

lemma receipt_of_ordered:
  assumes "receipt_ok r" "receipt_json r = Inr v" "ordered v = Some j"
  shows "receipt_of_json j = Inr (read_back r)"
proof -
  obtain b where b: "receipt_body r = Inr b" and v: "v = obj (b @ [(''sig'', nullable_json signature_json (ar_signature r))])"
    using assms(2) by (auto simp: receipt_json_def)
  have names: "map fst (b @ [(''sig'', nullable_json signature_json (ar_signature r))]) = RECEIPT_FIELDS"
    using body_names [OF b] by (simp add: RECEIPT_FIELDS_def)
  have set_names: "fst ` set (b @ [(''sig'', nullable_json signature_json (ar_signature r))]) = set RECEIPT_FIELDS"
    using arg_cong [OF names, of set] by (simp only: set_map)
  have dist: "distinct RECEIPT_FIELDS" by (simp add: RECEIPT_FIELDS_def)
  obtain f where f: "open_fields j RECEIPT_FIELDS [] = Inr f"
    and h: "\<forall>(k, v) \<in> set (b @ [(''sig'', nullable_json signature_json (ar_signature r))]). holds f k v"
    using obj_read [OF assms(3) [unfolded v], of RECEIPT_FIELDS "[]"] unfolding names set_names using dist by auto
  have "\<forall>(k, v) \<in> set b. holds f k v" using h by simp
  note p = parts_back [OF b this]
  have hs: "holds f ''sig'' (nullable_json signature_json (ar_signature r))" using h by simp
  then obtain js where js: "raw f ''sig'' = Inr js" by (auto simp: holds_def)
  have "\<exists>g. optional_child f ''sig'' (sig_fields js) = Inr g \<and> read_some signature_of g = Inr (ar_signature r)"
  proof (rule optional_child_back [OF hs])
    fix y assume y: "ar_signature r = Some y"
    show "ordered (signature_json y) \<noteq> Some JNull" by (simp add: signature_json_def)
    assume "holds f ''sig'' (signature_json y)"
    then show "rbind (get_child f ''sig'' (sig_fields js) []) signature_of = Inr y"
      by (rule signature_back) (use assms(1) y js in \<open>simp_all add: receipt_ok_def\<close>)
  qed
  then obtain g where g: "optional_child f ''sig'' (sig_fields js) = Inr g" "read_some signature_of g = Inr (ar_signature r)" by blast
  have "(read_back r\<lparr>ar_signature := None\<rparr>)\<lparr>ar_signature := ar_signature r\<rparr> = read_back r" by (simp add: read_back_def)
  then show ?thesis
    using f p g js assms(1) new_receipt_read_back [of r] by (simp add: receipt_of_json_def receipt_ok_def del: rbind_eq_Inr)
qed

lemma pyvalue_ok_obj [simp]: "pyvalue_ok (obj kvs) \<longleftrightarrow> distinct (map fst kvs) \<and> list_all (\<lambda>(k, v). pyvalue_ok v) kvs"
proof -
  have "distinct (map fst (map (\<lambda>(k, v). (Str_Key (lit k), v)) kvs)) \<longleftrightarrow> distinct (map fst kvs)"
    by (induction kvs) (auto simp: lit_inj image_iff)
  then show ?thesis by (auto simp: obj_def list_all_iff)
qed

lemma pyvalue_ok_strs [simp]: "pyvalue_ok (strs ts)" "pyvalue_ok (nullable_json VStr x)" "pyvalue_ok (nullable_json VInt i)"
  by (auto simp: strs_def nullable_json_def split: option.splits)

lemma pyvalue_ok_parts [simp]:
  "pyvalue_ok (authority_json a)" "pyvalue_ok (intent_json i)" "pyvalue_ok (effect_json e)" "pyvalue_ok (coverage_json cv)"
  "pyvalue_ok (decision_json d)" "pyvalue_ok (outcome_json x)" "pyvalue_ok (anchors_json an)" "pyvalue_ok (signature_json s)"
  by (auto simp: authority_json_def capability_json_def intent_json_def stated_json_def effect_json_def summary_json_def coverage_json_def
      decision_json_def checker_json_def outcome_json_def anchors_json_def chain_anchor_json_def log_anchor_json_def signature_json_def
      nullable_json_def split: option.splits if_splits)

lemma pyvalue_ok_quantity: "quantity_json q = Inr v \<Longrightarrow> pyvalue_ok v"
  by (auto simp: quantity_json_def)

lemma pyvalue_ok_cost: "cost_json c = Inr v \<Longrightarrow> pyvalue_ok v"
proof -
  assume a: "cost_json c = Inr v"
  then obtain qvs where qvs: "map quantity_json (cost_quantities c) = map Inr qvs" by (auto simp: cost_json_def sequenced_Inr)
  have "pyvalue_ok x" if "x \<in> set qvs" for x
  proof -
    have "Inr x \<in> set (map quantity_json (cost_quantities c))" using that unfolding qvs by simp
    then obtain q where "quantity_json q = Inr x" by auto
    then show ?thesis by (rule pyvalue_ok_quantity)
  qed
  moreover have "sequenced (map quantity_json (cost_quantities c)) = Inr qvs" using qvs by (simp add: sequenced_Inr)
  ultimately show ?thesis using a by (auto simp: cost_json_def split: if_splits)
qed

lemma pyvalue_ok_body: "receipt_body r = Inr b \<Longrightarrow> distinct (map fst b) \<and> ''sig'' \<notin> fst ` set b \<and> list_all (\<lambda>(k, v). pyvalue_ok v) b"
  by (auto simp: receipt_body_def pyvalue_ok_cost)

lemma pyvalue_ok_receipt: "receipt_json r = Inr v \<Longrightarrow> pyvalue_ok v"
  using pyvalue_ok_body [of r] by (auto simp: receipt_json_def nullable_json_def split: option.splits)

theorem receipt_roundtrip:
  assumes "receipt_ok r" "receipt_canonical r = Inr bs"
  shows "\<exists>t. utf8_encode t = Some bs \<and> receipt_loads t = Inr (read_back r)"
proof -
  obtain v where v: "receipt_json r = Inr v" "canonical_bytes v = Inr bs" using assms(2) by (auto simp: receipt_canonical_def)
  obtain j where j: "ordered v = Some j" "utf8_encode (dumps j) = Some bs" using canonical_Inr [of v bs] v(2) by blast
  have "loads_strict (dumps j) = Inr j" using ordered_ok [OF pyvalue_ok_receipt [OF v(1)] j(1)] by (rule loads_dumps)
  moreover have "receipt_of_json j = Inr (read_back r)" by (rule receipt_of_ordered [OF assms(1) v(1) j(1)])
  ultimately show ?thesis using j(2) by (intro exI [of _ "dumps j"]) (simp add: receipt_loads_def)
qed

end
