(* ===== verification/Reconciliation.thy ===== *)
theory Reconciliation
  imports Interceptor Shapes Receipt "HOL-Library.Multiset" "HOL-Library.Product_Lexorder" "HOL-Library.List_Lexorder"
begin

text \<open>
  Matching a provider's bill against the ledger, and a system's log against receipts (\<open>reconciliation.py\<close>: the journal,
  \<open>metered_records\<close>, \<open>reconcile\<close>, the report, \<open>receipt_refs\<close>, \<open>reconcile_actions\<close>). A float is a rational; \<open>fl\<close> is the rounding to
  one, of which only monotony and \<open>fl 0 = 0\<close> are used. Of a receipt only what the matching reads is
  modelled. Reading exports, files and the printed reports are left out; the texts of reasons and notes are reduced to
  which one it is.
\<close>

section \<open>Records\<close>

record provider_usage =
  pu_record_id :: ustr
  pu_timestamp :: instant
  pu_model :: ustr
  pu_input_tokens :: int
  pu_output_tokens :: int
  pu_total_cost :: decimal
  pu_source :: ustr
  pu_cost_was_derived :: bool

record metered_record =
  mr_transaction_id :: uuid
  mr_sequence :: nat
  mr_timestamp :: instant
  mr_scope_id :: scope_id
  mr_model :: ustr
  mr_input_tokens :: "int option"
  mr_output_tokens :: "int option"
  mr_settled_cost :: decimal
  mr_entry_hash :: ustr

definition pu_total_tokens :: "provider_usage \<Rightarrow> int" where
  "pu_total_tokens p = pu_input_tokens p + pu_output_tokens p"

definition mr_total_tokens :: "metered_record \<Rightarrow> int option" where
  "mr_total_tokens m = (case (mr_input_tokens m, mr_output_tokens m) of (Some i, Some k) \<Rightarrow> Some (i + k) | _ \<Rightarrow> None)"

section \<open>The journal\<close>

record journal_entry =
  je_transaction_id :: uuid
  je_model :: ustr
  je_usage :: token_usage
  je_scope_id :: scope_id
  je_settled_at :: instant

type_synonym journal = "(uuid, journal_entry) dict"

definition new_journal :: "journal_entry list \<Rightarrow> journal" where
  "new_journal es = fold (\<lambda>e d. AList.update (je_transaction_id e) e d) es []"

definition journal_get :: "journal \<Rightarrow> uuid \<Rightarrow> journal_entry option" where
  "journal_get j t = map_of j t"

definition journal_record_usage :: "uuid \<Rightarrow> ustr \<Rightarrow> token_usage \<Rightarrow> scope_id \<Rightarrow> instant \<Rightarrow> journal \<Rightarrow> journal \<times> journal_entry" where
  "journal_record_usage t mdl u scope settled j =
     (let e = \<lparr> je_transaction_id = t, je_model = mdl, je_usage = u, je_scope_id = scope, je_settled_at = settled \<rparr> in (AList.update t e j, e))"

definition journal_record :: "metered_call \<Rightarrow> journal \<Rightarrow> journal \<times> journal_entry" where
  "journal_record c = journal_record_usage (transaction_id (mt_entry c)) (mt_model_id c) (mt_usage c) (mt_scope_id c) (timestamp (mt_entry c))"

definition metered_of :: "journal option \<Rightarrow> ledger_entry \<Rightarrow> metered_record" where
  "metered_of j e = (let found = (case j of None \<Rightarrow> None | Some d \<Rightarrow> journal_get d (transaction_id e)) in
     \<lparr> mr_transaction_id = transaction_id e, mr_sequence = sequence e, mr_timestamp = timestamp e, mr_scope_id = scope_id e,
       mr_model = (case found of None \<Rightarrow> [] | Some x \<Rightarrow> je_model x),
       mr_input_tokens = map_option (\<lambda>x. input_tokens (je_usage x)) found, mr_output_tokens = map_option (\<lambda>x. output_tokens (je_usage x)) found,
       mr_settled_cost = amount e, mr_entry_hash = entry_hash e \<rparr>)"

definition metered_records :: "ledger_entry list \<Rightarrow> journal option \<Rightarrow> metered_record list" where
  "metered_records audit_trail j = map (metered_of j) (filter (\<lambda>e. entry_type e = SPEND) audit_trail)"

section \<open>Drifts\<close>

text \<open>\<open>Decimal.__truediv__\<close> in the rounding context, for a divisor that is not zero.\<close>

definition ctx_div :: "decimal \<Rightarrow> decimal \<Rightarrow> decimal" where
  "ctx_div a b = (if coeff a = 0 then Dec 0 (expo a - expo b)
     else let shift = int (num_digits (coeff b)) - int (num_digits (coeff a)) + int PREC + 1;
              n = \<bar>coeff a\<bar> * 10 ^ nat shift; d = \<bar>coeff b\<bar> * 10 ^ nat (- shift);
              q = n div d; sign = sgn (coeff a) * sgn (coeff b); e = expo a - expo b - shift in
       rounding_fix (if n mod d = 0 then shed (nat shift) (Dec (sign * q) e)
                     else Dec (sign * (if q mod 5 = 0 then q + 1 else q)) e))"

definition rounded_diff :: "decimal \<Rightarrow> decimal \<Rightarrow> decimal" where
  "rounded_diff a b = rounding_fix (dec_sum a (copy_negate b))"

record reconciliation_policy =
  time_tolerance_seconds :: rat
  token_tolerance_percent :: rat
  cost_tolerance_percent :: rat
  require_model_match :: bool

definition default_reconciliation_policy :: reconciliation_policy where
  "default_reconciliation_policy = \<lparr> time_tolerance_seconds = 5, token_tolerance_percent = 2, cost_tolerance_percent = 1, require_model_match = True \<rparr>"

definition models_agree :: "ustr \<Rightarrow> ustr \<Rightarrow> bool \<Rightarrow> bool" where
  "models_agree l r required = (let a = normalize_model_id l; b = normalize_model_id r in
     if a = [] \<or> b = [] then True else if a = b then True else if \<not> required then True else b = take (length b) a \<or> a = take (length a) b)"

definition time_gap :: "(rat \<Rightarrow> rat) \<Rightarrow> provider_usage \<Rightarrow> metered_record \<Rightarrow> rat" where
  "time_gap fl p m = \<bar>fl (of_int (instant_micros (pu_timestamp p) - instant_micros (mr_timestamp m)) / 10 ^ 6)\<bar>"

definition token_delta_percent :: "(rat \<Rightarrow> rat) \<Rightarrow> provider_usage \<Rightarrow> metered_record \<Rightarrow> rat option" where
  "token_delta_percent fl p m = (case mr_total_tokens m of None \<Rightarrow> None
     | Some t \<Rightarrow> Some (if t = 0 then if pu_total_tokens p = 0 then 0 else 100
         else fl (fl (of_int \<bar>pu_total_tokens p - t\<bar> / of_int t) * 100)))"

definition cost_delta_percent :: "(rat \<Rightarrow> rat) \<Rightarrow> provider_usage \<Rightarrow> metered_record \<Rightarrow> rat" where
  "cost_delta_percent fl p m = (if dec_eq (mr_settled_cost m) ZERO then if dec_eq (pu_total_cost p) ZERO then 0 else 100
     else fl (dval (ctx_mul (ctx_div (copy_abs (rounded_diff (pu_total_cost p) (mr_settled_cost m))) (mr_settled_cost m)) (Dec 100 0))))"

text \<open>\<open>_derive_cost\<close>: a line the export did not cost.\<close>

definition derive_cost :: "ustr \<Rightarrow> int \<Rightarrow> int \<Rightarrow> (decimal \<times> bool) res" where
  "derive_cost mdl i k = (case map_of PRICING (normalize_model_id mdl) of None \<Rightarrow> Inr (Dec 0 0, True)
     | Some p \<Rightarrow> rbind (mk_usage i k 0 0) (\<lambda>u. rbind (cost_of p u) (\<lambda>c. Inr (c, True))))"

section \<open>Matching\<close>

definition or_zero :: "rat option \<Rightarrow> rat" where
  "or_zero x = (case x of None \<Rightarrow> 0 | Some r \<Rightarrow> r)"

text \<open>A pair the loop over all pairs does not skip, and its score.\<close>

definition plausible :: "(rat \<Rightarrow> rat) \<Rightarrow> reconciliation_policy \<Rightarrow> provider_usage \<Rightarrow> metered_record \<Rightarrow> bool" where
  "plausible fl rules p m \<longleftrightarrow> \<not> time_tolerance_seconds rules < time_gap fl p m
     \<and> models_agree (pu_model p) (mr_model m) (require_model_match rules)
     \<and> \<not> (case token_delta_percent fl p m of None \<Rightarrow> False | Some d \<Rightarrow> token_tolerance_percent rules < d)"

definition score :: "(rat \<Rightarrow> rat) \<Rightarrow> provider_usage \<Rightarrow> metered_record \<Rightarrow> rat" where
  "score fl p m = fl (fl (or_zero (token_delta_percent fl p m) + cost_delta_percent fl p m) + time_gap fl p m)"

type_synonym candidate = "rat \<times> nat \<times> nat"

definition candidates :: "(rat \<Rightarrow> rat) \<Rightarrow> reconciliation_policy \<Rightarrow> provider_usage list \<Rightarrow> metered_record list \<Rightarrow> candidate list" where
  "candidates fl rules ps ms = concat (map (\<lambda>i. concat (map (\<lambda>j.
     if plausible fl rules (ps ! i) (ms ! j) then [(score fl (ps ! i) (ms ! j), i, j)] else []) [0..<length ms])) [0..<length ps])"

record matched_call =
  mc_provider :: provider_usage
  mc_metered :: metered_record
  mc_cost_delta :: decimal
  mc_time_delta_seconds :: rat
  mc_token_delta_percent :: "rat option"
  mc_exact :: bool

record discrepancy =
  dc_provider :: provider_usage
  dc_metered :: metered_record
  dc_cost_delta :: decimal
  dc_cost_delta_percent :: rat
  dc_reason_derived :: bool

definition match_of :: "(rat \<Rightarrow> rat) \<Rightarrow> provider_usage \<Rightarrow> metered_record \<Rightarrow> matched_call" where
  "match_of fl p m = (let delta = rounded_diff (pu_total_cost p) (mr_settled_cost m); drift = token_delta_percent fl p m in
     \<lparr> mc_provider = p, mc_metered = m, mc_cost_delta = delta, mc_time_delta_seconds = time_gap fl p m, mc_token_delta_percent = drift,
       mc_exact = (dec_eq delta ZERO \<and> (case drift of None \<Rightarrow> True | Some d \<Rightarrow> d = 0)) \<rparr>)"

definition discrepancy_of :: "(rat \<Rightarrow> rat) \<Rightarrow> provider_usage \<Rightarrow> metered_record \<Rightarrow> discrepancy" where
  "discrepancy_of fl p m = \<lparr> dc_provider = p, dc_metered = m, dc_cost_delta = rounded_diff (pu_total_cost p) (mr_settled_cost m),
     dc_cost_delta_percent = cost_delta_percent fl p m, dc_reason_derived = pu_cost_was_derived p \<rparr>"

record claims =
  claimed_provider :: "nat set"
  claimed_metered :: "nat set"
  cl_matched :: "matched_call list"
  cl_discrepant :: "discrepancy list"

definition claim :: "(rat \<Rightarrow> rat) \<Rightarrow> reconciliation_policy \<Rightarrow> provider_usage list \<Rightarrow> metered_record list \<Rightarrow> candidate \<Rightarrow> claims \<Rightarrow> claims" where
  "claim fl rules ps ms c st = (case c of (_, i, j) \<Rightarrow>
     if i \<in> claimed_provider st \<or> j \<in> claimed_metered st then st
     else let st1 = st\<lparr> claimed_provider := insert i (claimed_provider st), claimed_metered := insert j (claimed_metered st) \<rparr> in
       if cost_tolerance_percent rules < cost_delta_percent fl (ps ! i) (ms ! j)
       then st1\<lparr> cl_discrepant := cl_discrepant st1 @ [discrepancy_of fl (ps ! i) (ms ! j)] \<rparr>
       else st1\<lparr> cl_matched := cl_matched st1 @ [match_of fl (ps ! i) (ms ! j)] \<rparr>)"

datatype report_note = No_Journal | Derived_Costs

record reconciliation_report =
  rr_policy :: reconciliation_policy
  rr_matched :: "matched_call list"
  rr_discrepant :: "discrepancy list"
  rr_phantom :: "provider_usage list"
  rr_unsettled :: "metered_record list"
  rr_token_matching :: bool
  rr_notes :: "report_note list"

definition reconcile :: "(rat \<Rightarrow> rat) \<Rightarrow> metered_record list \<Rightarrow> provider_usage list \<Rightarrow> reconciliation_policy option \<Rightarrow> reconciliation_report" where
  "reconcile fl ms ps policy =
     (let rules = (case policy of Some p \<Rightarrow> p | None \<Rightarrow> default_reconciliation_policy);
          has_tokens = list_ex (\<lambda>m. mr_total_tokens m \<noteq> None) ms;
          st = fold (claim fl rules ps ms) (sort (candidates fl rules ps ms))
            \<lparr> claimed_provider = {}, claimed_metered = {}, cl_matched = [], cl_discrepant = [] \<rparr>
      in \<lparr> rr_policy = rules, rr_matched = cl_matched st, rr_discrepant = cl_discrepant st,
           rr_phantom = map ((!) ps) (filter (\<lambda>i. i \<notin> claimed_provider st) [0..<length ps]),
           rr_unsettled = map ((!) ms) (filter (\<lambda>j. j \<notin> claimed_metered st) [0..<length ms]),
           rr_token_matching = has_tokens,
           rr_notes = (if has_tokens then [] else [No_Journal]) @ (if list_ex pu_cost_was_derived ps then [Derived_Costs] else []) \<rparr>)"

definition sum_costs :: "decimal list \<Rightarrow> decimal" where
  "sum_costs ds = fold (\<lambda>d s. rounded_sum s d) ds (Dec 0 0)"

definition invoiced_total :: "reconciliation_report \<Rightarrow> decimal" where
  "invoiced_total r = sum_costs (map pu_total_cost (map mc_provider (rr_matched r) @ map dc_provider (rr_discrepant r) @ rr_phantom r))"

definition metered_total :: "reconciliation_report \<Rightarrow> decimal" where
  "metered_total r = sum_costs (map mr_settled_cost (map mc_metered (rr_matched r) @ map dc_metered (rr_discrepant r) @ rr_unsettled r))"

definition phantom_total :: "reconciliation_report \<Rightarrow> decimal" where
  "phantom_total r = sum_costs (map pu_total_cost (rr_phantom r))"

definition variance :: "reconciliation_report \<Rightarrow> decimal" where
  "variance r = rounded_diff (invoiced_total r) (metered_total r)"

definition variance_percent :: "(rat \<Rightarrow> rat) \<Rightarrow> reconciliation_report \<Rightarrow> rat" where
  "variance_percent fl r = (if dec_eq (metered_total r) ZERO then if dec_eq (invoiced_total r) ZERO then 0 else 100
     else fl (dval (ctx_mul (ctx_div (variance r) (metered_total r)) (Dec 100 0))))"

definition report_passed :: "reconciliation_report \<Rightarrow> bool" where
  "report_passed r \<longleftrightarrow> rr_phantom r = [] \<and> rr_discrepant r = []"

definition total_provider_records :: "reconciliation_report \<Rightarrow> nat" where
  "total_provider_records r = length (rr_matched r) + length (rr_discrepant r) + length (rr_phantom r)"

section \<open>Actions against receipts\<close>

record action_record =
  ar_record_id :: ustr
  ar_timestamp :: instant
  ar_actor :: ustr
  ar_action :: ustr
  ar_resource :: ustr
  ar_refs :: "ustr list"
  ar_source :: ustr

definition REQUEST_ONLY :: ustr where "REQUEST_ONLY = lit ''request-only''"

datatype receipt =
    Action_Receipt (receipt_id: ustr) (rc_plan_hash: ustr) (rc_status: outcome_status) (rc_substrate_txid: "ustr option") (rc_measurement: ustr) (rc_substrate_id: ustr)
  | Delivery_Receipt (receipt_id: ustr) (rc_message_id: ustr) (rc_idempotency_key: ustr) (rc_remote_ref: "ustr option") (rc_sink: ustr)

text \<open>\<open>txid.rsplit(":", 1)[-1]\<close>.\<close>

definition after_colon :: "ustr \<Rightarrow> ustr" where
  "after_colon t = rev (takeWhile (\<lambda>c. c \<noteq> 58) (rev t))"

definition if_some :: "ustr option \<Rightarrow> (ustr \<Rightarrow> ustr list) \<Rightarrow> ustr list" where
  "if_some t f = (case t of None \<Rightarrow> [] | Some x \<Rightarrow> if x = [] then [] else f x)"

text \<open>The set of identifiers, as a list: the order of a \<open>frozenset\<close> is not looked at.\<close>

fun receipt_refs :: "receipt \<Rightarrow> ustr list" where
  "receipt_refs (Action_Receipt i plan st tx me sub) = [i, plan] @ if_some tx (\<lambda>t. [t, after_colon t])"
| "receipt_refs (Delivery_Receipt i msg key rem sink) = [i, msg, key] @ if_some rem (\<lambda>t. [t])"

fun receipt_written :: "receipt \<Rightarrow> bool" where
  "receipt_written (Action_Receipt i plan st tx me sub) = (st \<in> {COMMITTED, RECOVERED_COMMITTED, COMPENSATED})"
| "receipt_written (Delivery_Receipt i msg key rem sink) = True"

definition in_scope :: "ustr set \<Rightarrow> ustr set \<Rightarrow> receipt \<Rightarrow> bool" where
  "in_scope systems classes r = (let (system, measured) = (case r of
       Delivery_Receipt i msg key rem sink \<Rightarrow> (sink, REQUEST_ONLY)
     | Action_Receipt i plan st tx me sub \<Rightarrow> (if me = REQUEST_ONLY then [] else sub, me)) in
     (systems = {} \<or> system \<in> systems) \<and> (classes = {} \<or> measured \<in> classes))"

record action_match =
  am_record :: action_record
  am_receipt_id :: ustr
  am_ref :: ustr

record action_report =
  ap_matched :: "action_match list"
  ap_phantom :: "action_record list"
  ap_unobserved :: "ustr list"
  ap_ignored :: nat
  ap_out_of_scope :: nat

definition set_default :: "'k \<Rightarrow> 'v \<Rightarrow> ('k, 'v) dict \<Rightarrow> ('k, 'v) dict" where
  "set_default k v d = (if map_of d k = None then d @ [(k, v)] else d)"

record expectation =
  ex_owner :: "(ustr, ustr) dict"
  ex_expected :: "ustr list"
  ex_elsewhere :: nat

definition expect :: "ustr set \<Rightarrow> ustr set \<Rightarrow> receipt \<Rightarrow> expectation \<Rightarrow> expectation" where
  "expect systems classes r x = (if \<not> receipt_written r then x
     else let x1 = x\<lparr> ex_owner := fold (\<lambda>t. set_default t (receipt_id r)) (receipt_refs r) (ex_owner x) \<rparr> in
       if in_scope systems classes r then x1\<lparr> ex_expected := ex_expected x1 @ [receipt_id r] \<rparr>
       else x1\<lparr> ex_elsewhere := ex_elsewhere x1 + 1 \<rparr>)"

record sorting =
  so_matched :: "action_match list"
  so_phantom :: "action_record list"
  so_ignored :: nat

definition sort_record :: "ustr set \<Rightarrow> (ustr, ustr) dict \<Rightarrow> action_record \<Rightarrow> sorting \<Rightarrow> sorting" where
  "sort_record agents owner r s = (if agents \<noteq> {} \<and> ar_actor r \<notin> agents then s\<lparr> so_ignored := so_ignored s + 1 \<rparr>
     else case find (\<lambda>t. map_of owner t \<noteq> None) (ar_refs r) of
       None \<Rightarrow> s\<lparr> so_phantom := so_phantom s @ [r] \<rparr>
     | Some t \<Rightarrow> s\<lparr> so_matched := so_matched s @ [\<lparr> am_record = r, am_receipt_id = the (map_of owner t), am_ref = t \<rparr>] \<rparr>)"

definition reconcile_actions :: "receipt list \<Rightarrow> action_record list \<Rightarrow> ustr set \<Rightarrow> ustr set \<Rightarrow> ustr set \<Rightarrow> action_report" where
  "reconcile_actions receipts records actors substrates measurements =
     (let x = fold (expect substrates measurements) receipts \<lparr> ex_owner = [], ex_expected = [], ex_elsewhere = 0 \<rparr>;
          s = fold (sort_record actors (ex_owner x)) (sort_key (\<lambda>r. (ar_timestamp r, ar_record_id r)) records)
                \<lparr> so_matched = [], so_phantom = [], so_ignored = 0 \<rparr>;
          seen = am_receipt_id ` set (so_matched s)
      in \<lparr> ap_matched = so_matched s, ap_phantom = so_phantom s, ap_unobserved = filter (\<lambda>i. i \<notin> seen) (ex_expected x),
           ap_ignored = so_ignored s, ap_out_of_scope = ex_elsewhere x \<rparr>)"

definition actions_passed :: "action_report \<Rightarrow> bool" where
  "actions_passed r \<longleftrightarrow> ap_phantom r = []"

section \<open>The matching is stable\<close>

abbreviation cand_provider :: "candidate \<Rightarrow> nat" where "cand_provider c \<equiv> fst (snd c)"
abbreviation cand_metered :: "candidate \<Rightarrow> nat" where "cand_metered c \<equiv> snd (snd c)"

text \<open>The candidates the greedy loop takes.\<close>

fun greedy :: "candidate list \<Rightarrow> nat set \<Rightarrow> nat set \<Rightarrow> candidate list" where
  "greedy [] P M = []"
| "greedy (c # cs) P M = (if cand_provider c \<in> P \<or> cand_metered c \<in> M then greedy cs P M
     else c # greedy cs (insert (cand_provider c) P) (insert (cand_metered c) M))"

lemma greedy_sub: "set (greedy cs P M) \<subseteq> set cs"
  by (induction cs P M rule: greedy.induct) auto

lemma greedy_distinct:
  "distinct (map cand_provider (greedy cs P M)) \<and> cand_provider ` set (greedy cs P M) \<inter> P = {}"
  "distinct (map cand_metered (greedy cs P M)) \<and> cand_metered ` set (greedy cs P M) \<inter> M = {}"
  by (induction cs P M rule: greedy.induct) auto

lemma greedy_stable:
  "sorted cs \<Longrightarrow> c \<in> set cs \<Longrightarrow> cand_provider c \<in> P \<or> cand_metered c \<in> M
     \<or> (\<exists>d \<in> set (greedy cs P M). d \<le> c \<and> (cand_provider d = cand_provider c \<or> cand_metered d = cand_metered c))"
proof (induction cs P M rule: greedy.induct)
  case (2 x cs P M)
  show ?case
  proof (cases "cand_provider x \<in> P \<or> cand_metered x \<in> M")
    case True
    then show ?thesis using 2 by auto
  next
    case False
    have "x \<le> c" using "2.prems" by auto
    then show ?thesis using 2 False by (cases "c = x") auto
  qed
qed simp

definition close_cost :: "(rat \<Rightarrow> rat) \<Rightarrow> reconciliation_policy \<Rightarrow> provider_usage list \<Rightarrow> metered_record list \<Rightarrow> candidate \<Rightarrow> bool" where
  "close_cost fl rules ps ms c \<longleftrightarrow> cost_delta_percent fl (ps ! cand_provider c) (ms ! cand_metered c) \<le> cost_tolerance_percent rules"

lemma claims_greedy:
  "fold (claim fl rules ps ms) cs st = st\<lparr> claimed_provider := claimed_provider st \<union> cand_provider ` set (greedy cs (claimed_provider st) (claimed_metered st)),
     claimed_metered := claimed_metered st \<union> cand_metered ` set (greedy cs (claimed_provider st) (claimed_metered st)),
     cl_matched := cl_matched st @ map (\<lambda>c. match_of fl (ps ! cand_provider c) (ms ! cand_metered c))
       (filter (close_cost fl rules ps ms) (greedy cs (claimed_provider st) (claimed_metered st))),
     cl_discrepant := cl_discrepant st @ map (\<lambda>c. discrepancy_of fl (ps ! cand_provider c) (ms ! cand_metered c))
       (filter (\<lambda>c. \<not> close_cost fl rules ps ms c) (greedy cs (claimed_provider st) (claimed_metered st))) \<rparr>"
proof (induction cs arbitrary: st)
  case (Cons c cs)
  then show ?case by (cases c) (simp add: claim_def Let_def close_cost_def not_le)
qed simp

definition chosen :: "(rat \<Rightarrow> rat) \<Rightarrow> metered_record list \<Rightarrow> provider_usage list \<Rightarrow> reconciliation_policy option \<Rightarrow> candidate list" where
  "chosen fl ms ps policy = greedy (sort (candidates fl (case policy of Some p \<Rightarrow> p | None \<Rightarrow> default_reconciliation_policy) ps ms)) {} {}"

abbreviation rules_of :: "reconciliation_policy option \<Rightarrow> reconciliation_policy" where
  "rules_of policy \<equiv> case policy of Some p \<Rightarrow> p | None \<Rightarrow> default_reconciliation_policy"

lemma reconcile_chosen:
  "rr_matched (reconcile fl ms ps policy) = map (\<lambda>c. match_of fl (ps ! cand_provider c) (ms ! cand_metered c))
     (filter (close_cost fl (rules_of policy) ps ms) (chosen fl ms ps policy))"
  "rr_discrepant (reconcile fl ms ps policy) = map (\<lambda>c. discrepancy_of fl (ps ! cand_provider c) (ms ! cand_metered c))
     (filter (\<lambda>c. \<not> close_cost fl (rules_of policy) ps ms c) (chosen fl ms ps policy))"
  "rr_phantom (reconcile fl ms ps policy) = map ((!) ps) (filter (\<lambda>i. i \<notin> cand_provider ` set (chosen fl ms ps policy)) [0..<length ps])"
  "rr_unsettled (reconcile fl ms ps policy) = map ((!) ms) (filter (\<lambda>j. j \<notin> cand_metered ` set (chosen fl ms ps policy)) [0..<length ms])"
  by (simp_all add: reconcile_def Let_def claims_greedy chosen_def)

lemma in_candidates: "c \<in> set (candidates fl rules ps ms) \<longleftrightarrow> cand_provider c < length ps \<and> cand_metered c < length ms
    \<and> plausible fl rules (ps ! cand_provider c) (ms ! cand_metered c) \<and> fst c = score fl (ps ! cand_provider c) (ms ! cand_metered c)"
  by (cases c) (auto simp: candidates_def)

lemma chosen_candidate:
  "c \<in> set (chosen fl ms ps policy) \<Longrightarrow> cand_provider c < length ps \<and> cand_metered c < length ms
     \<and> plausible fl (rules_of policy) (ps ! cand_provider c) (ms ! cand_metered c)"
  using greedy_sub [of "sort (candidates fl (rules_of policy) ps ms)" "{}" "{}"] by (auto simp: chosen_def in_candidates)

lemma split_closeness: "mset (map f (filter P cs)) + mset (map f (filter (\<lambda>c. \<not> P c) cs)) = mset (map f cs)"
  by (induction cs) simp_all

lemma split_indices:
  assumes "distinct js" "set js \<subseteq> {..<length xs}"
  shows "mset (map ((!) xs) js) + mset (map ((!) xs) (filter (\<lambda>i. i \<notin> set js) [0..<length xs])) = mset xs"
proof -
  have "mset js = mset (filter (\<lambda>i. i \<in> set js) [0..<length xs])"
    using assms by (subst set_eq_iff_mset_eq_distinct [symmetric]) auto
  then have "mset (map ((!) xs) js) = mset (map ((!) xs) (filter (\<lambda>i. i \<in> set js) [0..<length xs]))" unfolding mset_map by simp
  then show ?thesis using split_closeness [of "(!) xs" "\<lambda>i. i \<in> set js" "[0..<length xs]"] by (simp only: map_nth)
qed

text \<open>C25: No line is lost or counted twice: every billed line is matched, discrepant or phantom, every settled call matched,
  discrepant or unsettled, each exactly once.\<close>

theorem reconcile_partitions:
  "mset (map mc_provider (rr_matched (reconcile fl ms ps policy))) + mset (map dc_provider (rr_discrepant (reconcile fl ms ps policy)))
     + mset (rr_phantom (reconcile fl ms ps policy)) = mset ps
   \<and> mset (map mc_metered (rr_matched (reconcile fl ms ps policy))) + mset (map dc_metered (rr_discrepant (reconcile fl ms ps policy)))
     + mset (rr_unsettled (reconcile fl ms ps policy)) = mset ms"
proof -
  let ?g = "chosen fl ms ps policy"
  have d: "distinct (map cand_provider ?g)" "distinct (map cand_metered ?g)" unfolding chosen_def using greedy_distinct by blast+
  have b: "set (map cand_provider ?g) \<subseteq> {..<length ps}" "set (map cand_metered ?g) \<subseteq> {..<length ms}" using chosen_candidate by fastforce+
  note p = split_indices [OF d(1) b(1)] and m = split_indices [OF d(2) b(2)]
  have f: "mc_provider (match_of fl x y) = x" "mc_metered (match_of fl x y) = y" "dc_provider (discrepancy_of fl x y) = x" "dc_metered (discrepancy_of fl x y) = y" for x y
    by (simp_all add: match_of_def discrepancy_of_def Let_def)
  show ?thesis
    using p m split_closeness [of "\<lambda>c. ps ! cand_provider c"] split_closeness [of "\<lambda>c. ms ! cand_metered c"]
    by (simp add: reconcile_chosen comp_def f set_map)
qed

text \<open>The pairing is stable. A billed line and a settled call that could be the same and were not paired are not both free, and
  the pair one of them is in comes no later in the order of drift (then position): so a line is a
  phantom only if every call it could be was taken by a line that fits it at least as well.\<close>

theorem reconcile_stable:
  assumes "i < length ps" "j < length ms" "plausible fl (rules_of policy) (ps ! i) (ms ! j)"
  shows "\<exists>i' j'. (i' = i \<or> j' = j) \<and> i' < length ps \<and> j' < length ms \<and> plausible fl (rules_of policy) (ps ! i') (ms ! j')
    \<and> (score fl (ps ! i') (ms ! j'), i', j') \<le> (score fl (ps ! i) (ms ! j), i, j)
    \<and> (match_of fl (ps ! i') (ms ! j') \<in> set (rr_matched (reconcile fl ms ps policy))
       \<or> discrepancy_of fl (ps ! i') (ms ! j') \<in> set (rr_discrepant (reconcile fl ms ps policy)))"
proof -
  let ?cs = "candidates fl (rules_of policy) ps ms" and ?c = "(score fl (ps ! i) (ms ! j), i, j)"
  have "?c \<in> set (sort ?cs)" using assms by (simp add: in_candidates)
  from greedy_stable [OF sorted_sort this, of "{}" "{}"] obtain d where d: "d \<in> set (chosen fl ms ps policy)" "d \<le> ?c"
    "cand_provider d = i \<or> cand_metered d = j" by (auto simp: chosen_def)
  have s: "fst d = score fl (ps ! cand_provider d) (ms ! cand_metered d)"
    using d(1) greedy_sub [of "sort ?cs" "{}" "{}"] by (auto simp: chosen_def in_candidates)
  let ?i = "cand_provider d" and ?j = "cand_metered d"
  have e: "d = (score fl (ps ! ?i) (ms ! ?j), ?i, ?j)" using s by (metis prod.collapse)
  have "match_of fl (ps ! ?i) (ms ! ?j) \<in> set (rr_matched (reconcile fl ms ps policy))
       \<or> discrepancy_of fl (ps ! ?i) (ms ! ?j) \<in> set (rr_discrepant (reconcile fl ms ps policy))"
    using d(1) by (cases "close_cost fl (rules_of policy) ps ms d") (auto simp: reconcile_chosen)
  then show ?thesis using d(2,3) chosen_candidate [OF d(1)] e by (intro exI [of _ ?i] exI [of _ ?j]) metis
qed

section \<open>What a passing audit says\<close>


section \<open>An exact bill passes\<close>

lemma rounding_fix_zero: "coeff d = 0 \<Longrightarrow> rounding_fix d = d"
  by (simp add: rounding_fix_def num_digits_def PREC_def digits.simps)

lemma half_even_nonneg: "0 \<le> c \<Longrightarrow> 0 < m \<Longrightarrow> 0 \<le> round_div ROUND_HALF_EVEN c m"
  by (simp add: round_div_def Let_def pos_imp_zdiv_nonneg_iff)

lemma rounding_fix_nonneg: "0 \<le> coeff d \<Longrightarrow> 0 \<le> coeff (rounding_fix d)"
  using half_even_nonneg [of "coeff d" "10 ^ (num_digits (coeff d) - PREC)"] by (simp add: rounding_fix_def Let_def pos_imp_zdiv_nonneg_iff)

lemma shed_nonneg: "0 \<le> coeff d \<Longrightarrow> 0 \<le> coeff (shed k d)"
  by (induction k d rule: shed.induct) (simp_all add: pos_imp_zdiv_nonneg_iff)

lemma dval_coeff: "0 \<le> dval d \<longleftrightarrow> 0 \<le> coeff d" "dval d = 0 \<longleftrightarrow> coeff d = 0" "0 < dval d \<longleftrightarrow> 0 < coeff d"
proof -
  have p: "\<not> (10 :: rat) powi expo d \<le> 0" "\<not> (10 :: rat) powi expo d < 0" by (simp_all add: not_le not_less)
  show "0 \<le> dval d \<longleftrightarrow> 0 \<le> coeff d" "dval d = 0 \<longleftrightarrow> coeff d = 0" "0 < dval d \<longleftrightarrow> 0 < coeff d"
    using p by (auto simp: dval_def zero_le_mult_iff zero_less_mult_iff)
qed

lemma ctx_div_nonneg: "0 \<le> coeff a \<Longrightarrow> 0 < coeff b \<Longrightarrow> 0 \<le> coeff (ctx_div a b)"
  by (auto simp: ctx_div_def Let_def sgn_if pos_imp_zdiv_nonneg_iff intro!: rounding_fix_nonneg shed_nonneg)

lemma fl_nonneg: "rounding fl \<Longrightarrow> 0 \<le> x \<Longrightarrow> 0 \<le> fl x"
  unfolding rounding_def by (metis monoD)

lemma cost_drift_nonneg:
  assumes "rounding fl" "0 \<le> dval (mr_settled_cost m)"
  shows "0 \<le> cost_delta_percent fl p m"
proof (cases "dec_eq (mr_settled_cost m) ZERO")
  case False
  then have "0 < dval (mr_settled_cost m)" using assms(2) by (simp add: dec_eq_iff order_le_less)
  then have "0 < coeff (mr_settled_cost m)" unfolding dval_coeff(3) .
  then have "0 \<le> coeff (ctx_div (copy_abs (rounded_diff (pu_total_cost p) (mr_settled_cost m))) (mr_settled_cost m))"
    by (intro ctx_div_nonneg) (simp_all add: copy_abs_def)
  then have "0 \<le> dval (ctx_mul (ctx_div (copy_abs (rounded_diff (pu_total_cost p) (mr_settled_cost m))) (mr_settled_cost m)) (Dec 100 0))"
    unfolding dval_coeff(1) ctx_mul_def by (intro rounding_fix_nonneg) simp
  then show ?thesis using fl_nonneg [OF assms(1)] False by (simp add: cost_delta_percent_def)
qed (simp add: cost_delta_percent_def)

text \<open>A settled call costs nothing negative and counts no negative tokens; a line that bills exactly that call.\<close>

definition sane :: "metered_record \<Rightarrow> bool" where
  "sane m \<longleftrightarrow> 0 \<le> dval (mr_settled_cost m) \<and> (\<forall>t. mr_total_tokens m = Some t \<longrightarrow> 0 \<le> t)"

definition bills :: "bool \<Rightarrow> provider_usage \<Rightarrow> metered_record \<Rightarrow> bool" where
  "bills required p m \<longleftrightarrow> pu_timestamp p = mr_timestamp m \<and> models_agree (pu_model p) (mr_model m) required
     \<and> dval (pu_total_cost p) = dval (mr_settled_cost m) \<and> (\<forall>t. mr_total_tokens m = Some t \<longrightarrow> pu_total_tokens p = t)"

lemma token_drift_nonneg: "rounding fl \<Longrightarrow> sane m \<Longrightarrow> 0 \<le> or_zero (token_delta_percent fl p m)"
proof -
  assume r: "rounding fl" "sane m"
  have "0 \<le> fl (fl (of_int \<bar>pu_total_tokens p - t\<bar> / of_int t) * 100)" if "0 \<le> t" for t
    using that by (intro fl_nonneg [OF r(1)] mult_nonneg_nonneg divide_nonneg_nonneg) simp_all
  then show ?thesis using r(2) by (cases "mr_total_tokens m") (simp_all add: or_zero_def token_delta_percent_def sane_def del: of_int_abs of_int_diff)
qed

lemma score_nonneg: "rounding fl \<Longrightarrow> sane m \<Longrightarrow> 0 \<le> score fl p m"
  unfolding score_def
proof -
  assume r: "rounding fl" "sane m"
  have "0 \<le> fl (or_zero (token_delta_percent fl p m) + cost_delta_percent fl p m)"
    using token_drift_nonneg [OF r, of p] cost_drift_nonneg [OF r(1), of m p] r(2) by (intro fl_nonneg [OF r(1)]) (simp add: sane_def)
  then show "0 \<le> fl (fl (or_zero (token_delta_percent fl p m) + cost_delta_percent fl p m) + time_gap fl p m)"
    by (intro fl_nonneg [OF r(1)]) (simp add: time_gap_def)
qed

lemma exact_line:
  assumes "rounding fl" "bills required p m"
  shows "time_gap fl p m = 0" "or_zero (token_delta_percent fl p m) = 0" "cost_delta_percent fl p m = 0" "score fl p m = 0"
proof -
  have z: "fl 0 = 0" using assms(1) by (simp add: rounding_def)
  show g: "time_gap fl p m = 0" using assms(2) z by (simp add: time_gap_def bills_def)
  show t: "or_zero (token_delta_percent fl p m) = 0" using assms(2) z by (auto simp: or_zero_def token_delta_percent_def bills_def split: option.split)
  have "coeff (dec_sum (pu_total_cost p) (copy_negate (mr_settled_cost m))) = 0"
    using assms(2) unfolding dval_coeff(2) [symmetric] by (simp add: dval_dec_sum bills_def)
  then have "coeff (copy_abs (rounded_diff (pu_total_cost p) (mr_settled_cost m))) = 0" by (simp add: rounded_diff_def rounding_fix_zero copy_abs_def)
  then have "dval (ctx_mul (ctx_div (copy_abs (rounded_diff (pu_total_cost p) (mr_settled_cost m))) (mr_settled_cost m)) (Dec 100 0)) = 0"
    unfolding dval_coeff(2) by (simp add: ctx_div_def ctx_mul_def rounding_fix_zero)
  then show c: "cost_delta_percent fl p m = 0" using assms(2) z by (simp add: cost_delta_percent_def bills_def dec_eq_iff)
  show "score fl p m = 0" using g t c z by (simp add: score_def)
qed

lemma exact_plausible:
  assumes "rounding fl" "bills (require_model_match rules) p m" "0 \<le> time_tolerance_seconds rules" "0 \<le> token_tolerance_percent rules"
  shows "plausible fl rules p m"
  using exact_line [OF assms(1,2)] assms(2-4) by (auto simp: plausible_def bills_def or_zero_def split: option.splits)

lemma exact_chosen:
  assumes "rounding fl" "length ps = length ms" "\<forall>i < length ms. bills (require_model_match (rules_of policy)) (ps ! i) (ms ! i) \<and> sane (ms ! i)"
    "0 \<le> time_tolerance_seconds (rules_of policy)" "0 \<le> token_tolerance_percent (rules_of policy)"
  shows "i < length ms \<Longrightarrow> (0, i, i) \<in> set (chosen fl ms ps policy)"
proof (induction i rule: less_induct)
  case (less i)
  let ?g = "chosen fl ms ps policy" and ?cs = "candidates fl (rules_of policy) ps ms"
  have "(0, i, i) \<in> set (sort ?cs)"
  proof -
    have b: "bills (require_model_match (rules_of policy)) (ps ! i) (ms ! i)" using assms(3) less.prems by blast
    show ?thesis using exact_plausible [OF assms(1) b assms(4,5)] exact_line(4) [OF assms(1) b] less.prems assms(2) by (simp add: in_candidates)
  qed
  from greedy_stable [OF sorted_sort this, of "{}" "{}"] obtain s p m where d: "(s, p, m) \<in> set ?g" "(s, p, m) \<le> (0, i, i)" "p = i \<or> m = i"
    by (auto simp: chosen_def)
  have "(s, p, m) \<in> set ?cs" using d(1) greedy_sub [of "sort ?cs" "{}" "{}"] by (auto simp: chosen_def)
  then have r: "p < length ps" "m < length ms" "s = score fl (ps ! p) (ms ! m)" by (simp_all add: in_candidates)
  then have "0 \<le> s" using assms(1,3) score_nonneg by blast
  then have s: "s = 0" "p < i \<or> p = i \<and> m \<le> i" using d(2) by auto
  have inj: "inj_on cand_provider (set ?g)" "inj_on cand_metered (set ?g)"
    using greedy_distinct [of _ "{}" "{}"] by (simp_all add: chosen_def distinct_map)
  have "m = i \<and> p = i"
  proof (rule ccontr)
    assume no: "\<not> (m = i \<and> p = i)"
    define k where "k = min p m"
    have k: "k < i" "k = p \<or> k = m" using s(2) d(3) no by (auto simp: k_def)
    then have "(0, k, k) \<in> set ?g" using less by simp
    then have "(s, p, m) = (0, k, k)"
      using k(2) inj_onD [OF inj(1) _ d(1), of "(0, k, k)"] inj_onD [OF inj(2) _ d(1), of "(0, k, k)"] by auto
    then show False using d(3) k(1) by simp
  qed
  then show ?case using d(1) s(1) by simp
qed

text \<open>C26: An honest provider's bill passes: if it lists exactly the settled calls, in their order, with their times, models, costs and
  (where a journal has them) tokens, every line is matched and no call is left unsettled.\<close>

theorem exact_bill_passes:
  assumes "rounding fl" "length ps = length ms" "\<forall>i < length ms. bills (require_model_match (rules_of policy)) (ps ! i) (ms ! i) \<and> sane (ms ! i)"
    and "0 \<le> time_tolerance_seconds (rules_of policy)" "0 \<le> token_tolerance_percent (rules_of policy)" "0 \<le> cost_tolerance_percent (rules_of policy)"
  shows "report_passed (reconcile fl ms ps policy) \<and> rr_unsettled (reconcile fl ms ps policy) = []"
proof -
  let ?g = "chosen fl ms ps policy"
  note all = exact_chosen [OF assms(1-5)]
  have inj: "inj_on cand_provider (set ?g)" using greedy_distinct [of _ "{}" "{}"] by (simp add: chosen_def distinct_map)
  have "close_cost fl (rules_of policy) ps ms c" if "c \<in> set ?g" for c
  proof -
    have i: "cand_provider c < length ms" using chosen_candidate [OF that] assms(2) by simp
    have "(0, cand_provider c, cand_provider c) = c" using inj_onD [OF inj _ all [OF i] that] by simp
    then have "cand_metered c = cand_provider c" by (metis snd_conv)
    moreover have b: "bills (require_model_match (rules_of policy)) (ps ! cand_provider c) (ms ! cand_provider c)" using assms(3) i by blast
    ultimately show ?thesis using assms(6) exact_line(3) [OF assms(1) b] by (simp add: close_cost_def)
  qed
  moreover have "i \<in> cand_provider ` set ?g" "i \<in> cand_metered ` set ?g" if "i < length ms" for i
    using all [OF that] by force+
  ultimately show ?thesis using assms(2) by (simp add: report_passed_def reconcile_chosen filter_empty_conv)
qed

section \<open>Settled is spent\<close>

lemma run_spent:
  "rfold (ref_step True False) (r, rs) es = Inr (r', rs')
   \<Longrightarrow> dval (t_spent (s_totals r')) = dval (t_spent (s_totals r)) + (\<Sum>e \<leftarrow> filter (\<lambda>e. entry_type e = SPEND) es. dval (amount e))"
proof (induction es arbitrary: r rs)
  case (Cons e es)
  from Cons.prems obtain r1 rs1 where a: "ref_apply r e True rs False = Inr (r1, rs1)" "rfold (ref_step True False) (r1, rs1) es = Inr (r', rs')"
    by (cases "ref_step True False (r, rs) e") (auto simp: ref_step_def [of _ _ "(r, rs)"])
  have "apply_totals (s_totals r) e = Inr (s_totals r1)" using apply_position(1) [OF a(1)] .
  then have "dval (t_spent (s_totals r1)) = dval (t_spent (s_totals r)) + (if entry_type e = SPEND then dval (amount e) else 0)"
    by (cases "entry_type e") (auto simp: apply_totals_def dest!: dval_ctx_add sym [where t = "s_totals r1"])
  with Cons.IH [OF a(2)] show ?case by simp
qed simp

text \<open>C27: The ledger's side of an audit is complete: the calls it lists cost together exactly what the chain counts as spent, with
  and without a journal.\<close>

theorem settled_calls_are_spend:
  assumes "replay es legacy fin resolve None u = Inr s"
  shows "(\<Sum>m \<leftarrow> metered_records es j. dval (mr_settled_cost m)) = dval (t_spent (s_totals s)) \<and> (\<forall>m \<in> set (metered_records es j). 0 < dval (mr_settled_cost m))"
proof -
  from assms obtain f r rs where run: "rfold (ref_step True False) (ref_start (empty_chain u legacy) (Some f), Some {}) es = Inr (r, rs)"
    and b: "same_books s r" by (rule replay_run)
  have m: "mr_settled_cost (metered_of j e) = amount e" for e by (simp add: metered_of_def Let_def)
  have "list_all (well_typed u) es" using run_well_typed [OF run] by (simp add: ref_start_def empty_chain_def chain_state.extend_def)
  then have "\<forall>m \<in> set (metered_records es j). 0 < dval (mr_settled_cost m)"
    by (auto simp: metered_records_def m well_typed_def list_all_iff zero_value_type_def)
  then show ?thesis using run_spent [OF run] b by (simp add: metered_records_def comp_def m same_books_def no_totals_def)
qed

section \<open>What an audit of actions says\<close>

definition explains :: "receipt list \<Rightarrow> ustr \<Rightarrow> bool" where
  "explains receipts t \<longleftrightarrow> (\<exists>q \<in> set receipts. receipt_written q \<and> t \<in> set (receipt_refs q))"

abbreviation first_owner :: "receipt list \<Rightarrow> ustr \<Rightarrow> ustr option" where
  "first_owner receipts t \<equiv> map_option receipt_id (find (\<lambda>q. receipt_written q \<and> t \<in> set (receipt_refs q)) receipts)"

definition audited :: "ustr set \<Rightarrow> action_record \<Rightarrow> bool" where
  "audited actors r \<longleftrightarrow> actors = {} \<or> ar_actor r \<in> actors"

lemma set_defaults: "map_of (fold (\<lambda>t. set_default t v) ts d) k = (case map_of d k of Some x \<Rightarrow> Some x | None \<Rightarrow> if k \<in> set ts then Some v else None)"
  by (induction ts arbitrary: d) (auto simp: set_default_def map_of_append split: option.splits)

lemma expect_run:
  "map_of (ex_owner (fold (expect S C) rs x)) k = (case map_of (ex_owner x) k of Some y \<Rightarrow> Some y | None \<Rightarrow> first_owner rs k)"
  "ex_expected (fold (expect S C) rs x) = ex_expected x @ map receipt_id (filter (\<lambda>q. receipt_written q \<and> in_scope S C q) rs)"
  "ex_elsewhere (fold (expect S C) rs x) = ex_elsewhere x + length (filter (\<lambda>q. receipt_written q \<and> \<not> in_scope S C q) rs)"
  by (induction rs arbitrary: x) (auto simp: expect_def Let_def set_defaults split: option.splits)

definition known :: "(ustr, ustr) dict \<Rightarrow> ustr \<Rightarrow> bool" where
  "known owner t \<longleftrightarrow> map_of owner t \<noteq> None"

definition credit_to :: "(ustr, ustr) dict \<Rightarrow> action_record \<Rightarrow> action_match" where
  "credit_to owner r = (let t = the (find (known owner) (ar_refs r)) in \<lparr> am_record = r, am_receipt_id = the (map_of owner t), am_ref = t \<rparr>)"

lemma sort_record_step:
  "sort_record actors owner r s = (if \<not> audited actors r then s\<lparr> so_ignored := so_ignored s + 1 \<rparr>
     else if \<exists>t \<in> set (ar_refs r). known owner t then s\<lparr> so_matched := so_matched s @ [credit_to owner r] \<rparr>
     else s\<lparr> so_phantom := so_phantom s @ [r] \<rparr>)"
proof -
  have k: "(\<lambda>t. map_of owner t \<noteq> None) = known owner" by (simp add: known_def fun_eq_iff)
  show ?thesis
  proof (cases "find (known owner) (ar_refs r)")
    case None
    moreover from this have "\<not> (\<exists>t \<in> set (ar_refs r). known owner t)" by (auto simp: find_None_iff)
    ultimately show ?thesis unfolding sort_record_def audited_def k by auto
  next
    case (Some t)
    moreover from this have "\<exists>t \<in> set (ar_refs r). known owner t" by (auto simp: find_Some_iff)
    ultimately show ?thesis unfolding sort_record_def audited_def k by (auto simp: credit_to_def)
  qed
qed

lemma sort_run:
  "so_matched (fold (sort_record actors owner) rs s) = so_matched s @ map (credit_to owner) (filter (\<lambda>r. audited actors r \<and> (\<exists>t \<in> set (ar_refs r). known owner t)) rs)"
  "so_phantom (fold (sort_record actors owner) rs s) = so_phantom s @ filter (\<lambda>r. audited actors r \<and> \<not> (\<exists>t \<in> set (ar_refs r). known owner t)) rs"
  "so_ignored (fold (sort_record actors owner) rs s) = so_ignored s + length (filter (\<lambda>r. \<not> audited actors r) rs)"
  by (induction rs arbitrary: s) (simp_all add: sort_record_step)


section \<open>Tried out\<close>

definition sample_settled :: metered_record where
  "sample_settled = \<lparr> mr_transaction_id = 1, mr_sequence = 4, mr_timestamp = Instant 2026 1 2 3 4 5 6, mr_scope_id = lit ''root'', mr_model = lit ''claude-haiku-4-5'',
     mr_input_tokens = Some 100, mr_output_tokens = Some 900, mr_settled_cost = Dec 460000 (- 8), mr_entry_hash = [] \<rparr>"

definition sample_billed :: provider_usage where
  "sample_billed = \<lparr> pu_record_id = lit ''r1'', pu_timestamp = Instant 2026 1 2 3 4 5 6, pu_model = lit ''claude-haiku-4-5-20251001'',
     pu_input_tokens = 100, pu_output_tokens = 900, pu_total_cost = Dec 46 (- 4), pu_source = [], pu_cost_was_derived = False \<rparr>"

lemma sample_rounding: "rounding (\<lambda>x. x)"
  by (simp add: rounding_def mono_def)

lemma sample_tolerances: "0 \<le> time_tolerance_seconds (rules_of None)" "0 \<le> token_tolerance_percent (rules_of None)" "0 \<le> cost_tolerance_percent (rules_of None)"
  "require_model_match (rules_of None)"
  by (simp_all add: default_reconciliation_policy_def)

lemma sample_bill: "bills True sample_billed sample_settled" "sane sample_settled"
proof -
  have "normalize_model_id (lit ''claude-haiku-4-5-20251001'') = lit ''claude-haiku-4-5''"
    by (simp add: normalize_model_id_def Let_def strip_def is_space_def lower_def is_digit_def)
  then have "models_agree (lit ''claude-haiku-4-5-20251001'') (lit ''claude-haiku-4-5'') True"
    by (simp add: models_agree_def Let_def normalize_model_id_def strip_def is_space_def lower_def is_digit_def)
  then show "bills True sample_billed sample_settled" "sane sample_settled"
    by (simp_all add: bills_def sane_def sample_billed_def sample_settled_def pu_total_tokens_def mr_total_tokens_def dval_def power_int_minus del: lit_Cons)
qed

theorem exact_bill_passes_witness:
  "report_passed (reconcile (\<lambda>x. x) [sample_settled] [sample_billed] None) \<and> rr_unsettled (reconcile (\<lambda>x. x) [sample_settled] [sample_billed] None) = []"
  using exact_bill_passes [OF sample_rounding, of "[sample_billed]" "[sample_settled]" None] sample_bill sample_tolerances by simp

lemma sample_passes: "report_passed (reconcile (\<lambda>x. x) [sample_settled] [sample_billed] None)" "plausible (\<lambda>x. x) (rules_of None) sample_billed sample_settled"
proof -
  have b: "bills (require_model_match (rules_of None)) sample_billed sample_settled" using sample_bill(1) sample_tolerances(4) by simp
  have "\<forall>i < length [sample_settled]. bills (require_model_match (rules_of None)) ([sample_billed] ! i) ([sample_settled] ! i) \<and> sane ([sample_settled] ! i)"
    using b sample_bill(2) by simp
  note all = exact_chosen [OF sample_rounding _ this sample_tolerances(1,2), of 0]
  show p: "plausible (\<lambda>x. x) (rules_of None) sample_billed sample_settled" by (rule exact_plausible [OF sample_rounding b sample_tolerances(1,2)])
  have "candidates (\<lambda>x. x) (rules_of None) [sample_billed] [sample_settled] = [(0, 0, 0)]"
    using p exact_line(4) [OF sample_rounding b] by (simp add: candidates_def)
  then have "chosen (\<lambda>x. x) [sample_settled] [sample_billed] None = [(0, 0, 0)]" by (simp add: chosen_def)
  then show "report_passed (reconcile (\<lambda>x. x) [sample_settled] [sample_billed] None)"
    using exact_line(3) [OF sample_rounding b] sample_tolerances(3) by (simp add: report_passed_def reconcile_chosen close_cost_def)
qed


theorem reconcile_stable_witness:
  "match_of (\<lambda>x. x) sample_billed sample_settled \<in> set (rr_matched (reconcile (\<lambda>x. x) [sample_settled] [sample_billed] None))"
proof -
  have "rr_discrepant (reconcile (\<lambda>x. x) [sample_settled] [sample_billed] None) = []" using sample_passes(1) by (simp add: report_passed_def)
  with reconcile_stable [of 0 "[sample_billed]" 0 "[sample_settled]" "\<lambda>x. x" None] sample_passes(2) show ?thesis by auto
qed

theorem settled_calls_are_spend_witness:
  "\<exists>es s. replay es [] False None None USD = Inr s \<and> metered_records es None \<noteq> [] \<and> (\<Sum>m \<leftarrow> metered_records es None. dval (mr_settled_cost m)) = dval (t_spent (s_totals s))"
proof -
  obtain m0 where m0: "sample_opened m0" using sample_open by blast
  obtain m a e where a: "a = authorization_for e" "map_of (s_holds (m_state m)) (a_authorization_id a) = Some e" "at_rest 9 5 m" "m_unit m = USD"
    "named_scope m (scope_id e)" "unit_amount (m_unit m) (amount e)" "\<And>b. b \<le> 10 ^ 11 \<Longrightarrow> roomy m (scope_id e) b" "dval (amount e) = 1"
    using m0 by (rule sample_granted) blast
  have x: "cost (ArgInt 1) (m_unit m) = Inr (Dec 100000000 (- 8))" "0 < dval (Dec 100000000 (- 8))" unfolding a(4) using sample_cost by simp_all
  have t: "check_text (or_else (lit ''x'') (lit ''settled call cost'')) MAX_MEMO_BYTES False = None"
    by (simp add: or_else_def check_text_def MAX_MEMO_BYTES_def is_control_def)
  have "map_of (s_holds (m_state m)) (entry_id e) = Some e" "roomy m (scope_id e) (dval (amount e) + dval (Dec 100000000 (- 8)))"
    using a(1,2,7,8) sample_cost(2) by simp_all
  from capture_run [OF a(3) this(1) a(5,6) x this(2) t] obtain m' e' where c: "captured 9 (authorization_for e) (Dec 100000000 (- 8)) (lit ''x'') m e' m'" by blast
  then obtain v trips where w: "wrote 9 m (v # e' # trips) m'" "line_entry (spend_line (authorization_for e) (Dec 100000000 (- 8)) (lit ''x'')) e'" by (auto simp: captured_def)
  have wf: "ledger_wf (m_ledger m')" and e': "e' \<in> set (g_entries (m_ledger m'))" and un: "m_unit m' = USD"
    using w(1) a(4) by (simp_all add: wrote_def gov_ok_def)
  have rep: "replay (g_entries (m_ledger m')) [] False None None USD = Inr (m_state m')" using wf w(1) un by (simp add: ledger_wf_def wrote_def gov_ok_def)
  have "entry_type e' = SPEND" using w(2) by (simp add: line_entry_def del: lit_Cons)
  then have "metered_records (g_entries (m_ledger m')) None \<noteq> []" using e' by (auto simp: metered_records_def filter_empty_conv)
  then show ?thesis using rep settled_calls_are_spend [OF rep, of None] by blast
qed


end
