(* ===== verification/Signing.thy ===== *)
theory Signing
  imports Receipt Admission
begin

text \<open>
  What a receipt's signature promises (\<open>receipts/schema.py\<close>, "Signatures", and \<open>HmacKey\<close> of
  \<open>receipts/signing.py\<close>): the message that is signed commits to every field of the receipt, a receipt
  that is signed, sent as its canonical text and read back verifies under the signer's key, and one
  HMAC signature is accepted for one receipt only. What encodes at all is \<open>encodable\<close>.
\<close>

section \<open>What encodes\<close>

fun encodable :: "pyvalue \<Rightarrow> bool" where
  "encodable (VInt i) \<longleftrightarrow> safe_int i"
| "encodable (VStr s) \<longleftrightarrow> list_all unicode_scalar s"
| "encodable (VList vs) \<longleftrightarrow> (\<forall>v \<in> set vs. encodable v)"
| "encodable (VMap kvs) \<longleftrightarrow> (\<forall>(k, v) \<in> set kvs. k \<noteq> Other_Key \<and> list_all unicode_scalar (key_text k) \<and> encodable v)"
| "encodable VFloat \<longleftrightarrow> False"
| "encodable VOther \<longleftrightarrow> False"
| "encodable _ \<longleftrightarrow> True"

lemma scalar_below: "c < 55296 \<Longrightarrow> unicode_scalar c"
  by (simp add: unicode_scalar_def)

lemma scalars_joined: "(\<And>t. t \<in> set ts \<Longrightarrow> list_all unicode_scalar t) \<Longrightarrow> list_all unicode_scalar (joined ts)"
  by (induction ts rule: joined.induct) (simp_all add: unicode_scalar_def)

lemma encodable_ordered: "encodable v \<Longrightarrow> \<exists>j. ordered v = Some j \<and> list_all unicode_scalar (dumps j)"
proof (induction v)
  case (VInt i)
  have "list_all unicode_scalar (digits n)" for n by (rule scalars_list)
  moreover have "unicode_scalar 45" by (simp add: unicode_scalar_def)
  ultimately show ?case using VInt by (auto simp: int_text_def)
next
  case (VStr s)
  then show ?case by (simp add: scalars_json)
next
  case (VList vs)
  then obtain g where g: "\<And>v. v \<in> set vs \<Longrightarrow> ordered v = Some (g v) \<and> list_all unicode_scalar (dumps (g v))"
    by (simp only: encodable.simps) metis
  then have "all_some (map ordered vs) = Some (map g vs)" by (simp add: set_all_some)
  moreover have "list_all unicode_scalar (joined (map dumps (map g vs)))" by (rule scalars_joined) (use g in auto)
  ultimately show ?case by (simp add: scalar_below)
next
  case (VMap kvs)
  then have "\<exists>j. ordered v = Some j \<and> list_all unicode_scalar (dumps j)" if "(k, v) \<in> set kvs" for k v
    using that by (fastforce simp: Basic_BNFs.snds.simps)
  moreover define g where "g v = the (ordered v)" for v
  ultimately have g: "ordered v = Some (g v) \<and> list_all unicode_scalar (dumps (g v))" if "(k, v) \<in> set kvs" for k v
    using that by fastforce
  have k: "\<exists>s. k = Str_Key s \<and> list_all unicode_scalar s" if "(k, v) \<in> set kvs" for k v
    using VMap.prems that by (cases k) (auto simp: key_text_def)
  define kjs where "kjs = map (\<lambda>(k, v). (key_text k, g v)) kvs"
  have "map (\<lambda>(k, v). with_key k (ordered v)) kvs = map Some kjs"
    using g k by (fastforce simp: kjs_def with_key_def key_text_def)
  then have "all_some (map (\<lambda>(k, v). with_key k (ordered v)) kvs) = Some kjs" by (simp only: set_all_some)
  then have o: "ordered (VMap kvs) = Some (JObj (key_order kjs))" by simp
  have "list_all unicode_scalar (member_text kv)" if "kv \<in> set kjs" for kv
    using that g k by (force simp: kjs_def member_text_def key_text_def scalars_json scalar_below)
  then have "list_all unicode_scalar (joined (map member_text (key_order kjs)))" by (intro scalars_joined) auto
  then have "list_all unicode_scalar (dumps (JObj (key_order kjs)))" by (simp add: dumps_obj scalar_below del: dumps.simps)
  then show ?case using o by blast
qed (simp_all add: scalar_below)

lemma encodable_canonical: "encodable v \<Longrightarrow> \<exists>bs. canonical_bytes v = Inr bs"
  using encodable_ordered [of v] canonical_Inr [of v] utf8_nats_None
  by (metis not_Some_eq option.map_disc_iff utf8_encode_def)

lemma canonical_same:
  assumes "pyvalue_ok v" "pyvalue_ok w" "canonical_bytes v = Inr bs" "canonical_bytes w = Inr bs"
  shows "ordered v = ordered w"
proof -
  obtain j where j: "ordered v = Some j" "utf8_encode (dumps j) = Some bs" using assms(3) canonical_Inr [of v] by auto
  obtain k where k: "ordered w = Some k" "utf8_encode (dumps k) = Some bs" using assms(4) canonical_Inr [of w] by auto
  have same: "dumps j = dumps k" by (rule utf8_encode_inj [OF j(2) k(2)])
  have "loads_strict (dumps j) = Inr j" "loads_strict (dumps k) = Inr k"
    using loads_dumps ordered_ok assms(1,2) j(1) k(1) by blast+
  then have "j = k" unfolding same by (simp only: sum.inject)
  then show ?thesis using j k by simp
qed

section \<open>The message that is signed\<close>

definition sig_header :: "ustr \<Rightarrow> ustr \<Rightarrow> int \<Rightarrow> pyvalue" where
  "sig_header alg kid ver = obj ([(''alg'', VStr alg), (''key_id'', VStr kid)] @ (if ver = 2 then [(''sv'', VInt 2)] else []))"

lemma signed_document:
  assumes "receipt_body r = Inr b" "receipt_body r' = Inr b'" "parts_ok r" "parts_ok r'"
    and "ordered (obj (b @ [(''sig'', sig_header alg kid ver)])) = Some j" "ordered (obj (b' @ [(''sig'', sig_header alg' kid' ver')])) = Some j"
  shows "read_back r\<lparr>ar_signature := None\<rparr> = read_back r'\<lparr>ar_signature := None\<rparr> \<and> alg = alg' \<and> kid = kid'"
proof -
  have body: "\<exists>f. open_fields j RECEIPT_FIELDS [] = Inr f \<and> receipt_parts f = Inr (read_back r\<lparr>ar_signature := None\<rparr>) \<and> holds f ''sig'' (sig_header alg kid ver)"
    if b: "receipt_body r = Inr b" "parts_ok r" "ordered (obj (b @ [(''sig'', sig_header alg kid ver)])) = Some j" for r b alg kid ver
  proof -
    have names: "map fst (b @ [(''sig'', sig_header alg kid ver)]) = RECEIPT_FIELDS"
      using body_names [OF b(1)] by (simp add: RECEIPT_FIELDS_def)
    have set_names: "fst ` set (b @ [(''sig'', sig_header alg kid ver)]) = set RECEIPT_FIELDS"
      using arg_cong [OF names, of set] by (simp only: set_map)
    have dist: "distinct RECEIPT_FIELDS" by (simp add: RECEIPT_FIELDS_def)
    obtain f where f: "open_fields j RECEIPT_FIELDS [] = Inr f" and h: "\<forall>(k, v) \<in> set (b @ [(''sig'', sig_header alg kid ver)]). holds f k v"
      using obj_read [OF b(3), of RECEIPT_FIELDS "[]"] unfolding names set_names using dist by auto
    have "\<forall>(k, v) \<in> set b. holds f k v" using h by simp
    from parts_back(2) [OF b(1) this b(2)] f h show ?thesis by auto
  qed
  obtain f where f: "open_fields j RECEIPT_FIELDS [] = Inr f" "receipt_parts f = Inr (read_back r\<lparr>ar_signature := None\<rparr>)" "holds f ''sig'' (sig_header alg kid ver)"
    using body [OF assms(1,3,5)] by blast
  obtain f' where f': "open_fields j RECEIPT_FIELDS [] = Inr f'" "receipt_parts f' = Inr (read_back r'\<lparr>ar_signature := None\<rparr>)" "holds f' ''sig'' (sig_header alg' kid' ver')"
    using body [OF assms(2,4,6)] by blast
  have same: "f' = f" using f(1) f'(1) by simp
  obtain w where w: "ordered (sig_header alg kid ver) = Some w" "ordered (sig_header alg' kid' ver') = Some w"
    using f(3) f'(3) by (auto simp: holds_def same)
  have "\<exists>g. w = JObj g \<and> map_of g (lit ''alg'') = Some (JStr alg) \<and> map_of g (lit ''key_id'') = Some (JStr kid)"
    if "ordered (sig_header alg kid ver) = Some w" for alg kid ver
    using ordered_obj [OF _ that [unfolded sig_header_def]] by (cases "ver = 2") fastforce+
  from this [OF w(1)] this [OF w(2)] show ?thesis using f(2) f'(2) same by auto
qed

lemma new_receipt_same: "new_receipt r = Inr r' \<Longrightarrow> r' = r"
  by (simp add: new_receipt_def malformed_def split: if_splits)

lemma signing_input_unsigned [simp]: "receipt_signing_input (r\<lparr>ar_signature := x\<rparr>) = receipt_signing_input r"
  by (intro ext) (simp add: receipt_signing_input_def receipt_body_def)

lemma RECEIPT_DOMAIN_v2: "domain_v2 RECEIPT_DOMAIN = Inr (ascii (''ARC1/receipt/v2'' @ [CHR 0x0A]))"
  by (simp add: domain_v2_def DOMAIN_V2_def RECEIPT_DOMAIN_def)

lemma length_ascii [simp]: "length (ascii t) = length t"
  by (simp add: ascii_def lit_def)

lemma domains_differ: "RECEIPT_DOMAIN @ x \<noteq> ascii (''ARC1/receipt/v2'' @ [CHR 0x0A]) @ y"
proof
  assume "RECEIPT_DOMAIN @ x = ascii (''ARC1/receipt/v2'' @ [CHR 0x0A]) @ y"
  then have "take 16 (RECEIPT_DOMAIN @ x) ! 14 = take 16 (ascii (''ARC1/receipt/v2'' @ [CHR 0x0A]) @ y) ! 14" by (simp only:)
  then show False by (simp add: RECEIPT_DOMAIN_def ascii_def nth_append)
qed

lemma signing_input_cases:
  assumes "receipt_body r = Inr b" "receipt_signing_input r alg kid ver = Inr m"
  shows "\<exists>bs. canonical_bytes (obj (b @ [(''sig'', sig_header alg kid ver)])) = Inr bs \<and> ver \<in> {1, 2}
    \<and> m = (if ver = 1 then RECEIPT_DOMAIN @ bs else ascii (''ARC1/receipt/v2'' @ [CHR 0x0A]) @ sha512 bs)"
  using assms by (auto simp: receipt_signing_input_def signing_input_def sig_header_def RECEIPT_DOMAIN_v2 split: if_splits)

theorem signing_input_binds:
  assumes "parts_ok r" "parts_ok r'" "receipt_signing_input r alg kid ver = Inr m" "receipt_signing_input r' alg' kid' ver' = Inr m"
  shows "(read_back r\<lparr>ar_signature := None\<rparr> = read_back r'\<lparr>ar_signature := None\<rparr> \<and> alg = alg' \<and> kid = kid' \<and> ver = ver') \<or> sha512_collision"
proof -
  obtain b b' where b: "receipt_body r = Inr b" "receipt_body r' = Inr b'"
    using assms(3,4) by (auto simp: receipt_signing_input_def)
  obtain bs where bs: "canonical_bytes (obj (b @ [(''sig'', sig_header alg kid ver)])) = Inr bs" "ver \<in> {1, 2}"
    "m = (if ver = 1 then RECEIPT_DOMAIN @ bs else ascii (''ARC1/receipt/v2'' @ [CHR 0x0A]) @ sha512 bs)"
    using signing_input_cases [OF b(1) assms(3)] by blast
  obtain bs' where bs': "canonical_bytes (obj (b' @ [(''sig'', sig_header alg' kid' ver')])) = Inr bs'" "ver' \<in> {1, 2}"
    "m = (if ver' = 1 then RECEIPT_DOMAIN @ bs' else ascii (''ARC1/receipt/v2'' @ [CHR 0x0A]) @ sha512 bs')"
    using signing_input_cases [OF b(2) assms(4)] by blast
  have ver: "ver = ver'"
    using bs(2,3) bs'(2,3) domains_differ [of bs "sha512 bs'"] domains_differ [of bs' "sha512 bs"] by (auto split: if_splits)
  have "bs = bs' \<or> sha512_collision" using bs(3) bs'(3) ver sha512_eq [of bs bs'] by (auto split: if_splits)
  then show ?thesis
  proof
    assume same: "bs = bs'"
    have ok: "pyvalue_ok (obj (b @ [(''sig'', sig_header a k v)]))" if "receipt_body r = Inr b" for r b a k v
      using pyvalue_ok_body [OF that] by (auto simp: sig_header_def)
    have "ordered (obj (b @ [(''sig'', sig_header alg kid ver)])) = ordered (obj (b' @ [(''sig'', sig_header alg' kid' ver')]))"
      using bs(1) bs'(1) same by (intro canonical_same [OF ok [OF b(1)] ok [OF b(2)]]) simp_all
    moreover obtain j where "ordered (obj (b @ [(''sig'', sig_header alg kid ver)])) = Some j"
      using bs(1) canonical_Inr [of "obj (b @ [(''sig'', sig_header alg kid ver)])"] by blast
    ultimately show ?thesis using signed_document [OF b assms(1,2)] ver by auto
  qed simp
qed

section \<open>Signing and verifying\<close>

text \<open>What a signer and a verifier promise each other.\<close>

locale signature_scheme =
  fixes g :: signer and v :: verifier
  assumes same_alg: "sg_alg g = vr_alg v" and same_key: "sg_key_id g = vr_key_id v"
    and accepts: "sg_sign g m = Inr s \<Longrightarrow> vr_verify v m s"
begin

lemma signed_verifies:
  assumes "receipt_sign r g ver = Inr r'"
  shows "receipt_verify r' (One_Key v) = Inr ()" "map_of d (vr_key_id v) = Some v \<Longrightarrow> receipt_verify r' (Keyring d) = Inr ()"
proof -
  obtain n m s where s: "receipt_signing_input r (sg_alg g) (sg_key_id g) n = Inr m" "sg_sign g m = Inr s"
    and r': "r' = r\<lparr>ar_signature := Some \<lparr>sig_alg = sg_alg g, sig_key_id = sg_key_id g, sig_value = s, sig_version = n\<rparr>\<rparr>"
    using assms by (auto simp: receipt_sign_def dest: new_receipt_same)
  have "receipt_signing_input r (vr_alg v) (vr_key_id v) n = Inr m" using s(1) same_alg same_key by simp
  then show "receipt_verify r' (One_Key v) = Inr ()" "map_of d (vr_key_id v) = Some v \<Longrightarrow> receipt_verify r' (Keyring d) = Inr ()"
    using accepts [OF s(2)] same_alg same_key
    by (simp_all add: receipt_verify_def check_signature_def r' del: rbind_eq_Inr)
qed

end

text \<open>An HMAC key is its own public key.\<close>

interpretation hmac: signature_scheme "hmac_sign_key secret kid" "hmac_check_key secret kid" for secret kid
  by unfold_locales (auto simp: hmac_sign_key_def hmac_check_key_def)

lemma money_text_quantum: "money_text a = Inr t \<Longrightarrow> money_text (quantum a) = Inr t"
proof -
  assume a: "money_text a = Inr t"
  have q: "quantize (quantum a) (- 8) ROUND_HALF_EVEN = (quantum a, False)" by (rule quantize_id) (simp add: quantum_def)
  have "\<not> dec_lt (quantum a) (Dec 0 0)" by (rule dec_lt_quantum [OF a])
  moreover have "dec_eq (quantum a) (quantum a)" by (simp add: dec_eq_iff)
  ultimately show ?thesis
    using a unfolding money_text_def q by (simp add: Let_def quantum_def split: if_splits)
qed

lemma quantity_json_quantum: "quantity_json q = Inr v \<Longrightarrow> quantity_json (quantum_quantity q) = Inr v"
  by (auto simp: quantity_json_def quantum_quantity_def money_text_quantum)

lemma cost_json_quantum: "cost_json c = Inr v \<Longrightarrow> cost_json (quantum_cost c) = Inr v"
proof -
  assume a: "cost_json c = Inr v"
  then obtain qvs where qvs: "map quantity_json (cost_quantities c) = map Inr qvs" by (auto simp: cost_json_def sequenced_Inr)
  have "map quantity_json (map quantum_quantity qs) = map Inr vs" if "map quantity_json qs = map Inr vs" for qs vs
    using that by (induction qs arbitrary: vs) (auto simp: quantity_json_quantum Cons_eq_map_conv)
  from this [OF qvs] have "sequenced (map quantity_json (map quantum_quantity (cost_quantities c))) = Inr qvs"
    "sequenced (map quantity_json (cost_quantities c)) = Inr qvs"
    using qvs by (simp_all only: sequenced_Inr)
  then show ?thesis using a by (auto simp: cost_json_def quantum_cost_def money_text_quantum simp del: map_map)
qed

lemma receipt_body_read_back: "receipt_body r = Inr b \<Longrightarrow> receipt_body (read_back r) = Inr b"
  by (auto simp: receipt_body_def read_back_def cost_json_quantum)

text \<open>Reading back leaves the verdict on the signature as it is, where the receipt encodes.\<close>

lemma verify_read_back: "receipt_body r = Inr b \<Longrightarrow> receipt_verify (read_back r) keys = receipt_verify r keys"
proof -
  assume b: "receipt_body r = Inr b"
  have "receipt_signing_input (read_back r) = receipt_signing_input r"
    by (intro ext) (simp add: receipt_signing_input_def b receipt_body_read_back [OF b])
  then show ?thesis by (simp add: receipt_verify_def) (simp add: read_back_def)
qed

text \<open>A receipt signed with an HMAC key, sent as its canonical text, is read back by the other side as
  the same receipt and verifies there under the same key, alone or in a keyring.\<close>

theorem sent_receipt_verifies:
  assumes "new_hmac_key secret kid = Inr (g, v)" "key_id_ok (vr_key_id v)" "parts_ok r"
    and "receipt_sign r g ver = Inr r'" "receipt_canonical r' = Inr bs"
  shows "\<exists>t r''. utf8_encode t = Some bs \<and> receipt_loads t = Inr r'' \<and> r'' = read_back r'
    \<and> receipt_verify r'' (One_Key v) = Inr () \<and> (map_of d (vr_key_id v) = Some v \<longrightarrow> receipt_verify r'' (Keyring d) = Inr ())"
proof -
  have g: "g = hmac_sign_key secret kid" and v: "v = hmac_check_key secret kid"
    using assms(1) by (auto simp: new_hmac_key_def split: if_splits)
  obtain n m s where n: "n \<in> {1, 2}" and s: "length s = 32" and new: "new_receipt r' = Inr r'"
    and r': "r' = r\<lparr>ar_signature := Some \<lparr>sig_alg = sg_alg g, sig_key_id = sg_key_id g, sig_value = s, sig_version = n\<rparr>\<rparr>"
  proof -
    obtain n m s where a: "signature_version g ver = Inr n" "sg_sign g m = Inr s"
      "new_receipt (r\<lparr>ar_signature := Some \<lparr>sig_alg = sg_alg g, sig_key_id = sg_key_id g, sig_value = s, sig_version = n\<rparr>\<rparr>) = Inr r'"
      using assms(4) by (auto simp: receipt_sign_def)
    show thesis
    proof (rule that)
      show "n \<in> {1, 2}" using a(1) by (auto simp: signature_version_def Let_def split: if_splits)
      show "length s = 32" using a(2) by (auto simp: g hmac_sign_key_def)
      show "r' = r\<lparr>ar_signature := Some \<lparr>sig_alg = sg_alg g, sig_key_id = sg_key_id g, sig_value = s, sig_version = n\<rparr>\<rparr>"
        by (rule new_receipt_same [OF a(3)])
      with a(3) show "new_receipt r' = Inr r'" by simp
    qed
  qed
  have ok: "receipt_ok r'"
    using assms(2,3) n s new
    by (auto simp: receipt_ok_def parts_ok_def r' g v signature_ok_def hmac_sign_key_def hmac_check_key_def SIGNATURE_BYTES_def ALG_HMAC_SHA256_def ALG_ED25519_def)
  obtain b where b: "receipt_body r' = Inr b" using assms(5) by (auto simp: receipt_canonical_def receipt_json_def)
  obtain t where t: "utf8_encode t = Some bs" "receipt_loads t = Inr (read_back r')" using receipt_roundtrip [OF ok assms(5)] by blast
  then show ?thesis
    using verify_read_back [OF b] hmac.signed_verifies [OF assms(4) [unfolded g]] v by auto
qed

text \<open>One HMAC signature is accepted for one receipt: two receipts that both verify under a key with the same
  signature bytes are the same receipt, or SHA-256 or SHA-512 collides.\<close>

theorem signature_binds_receipt:
  assumes "new_hmac_key secret kid = Inr (g, v)" "parts_ok r" "parts_ok r'"
    and "receipt_verify r (One_Key v) = Inr ()" "receipt_verify r' (One_Key v) = Inr ()"
    and "map_option sig_value (ar_signature r) = map_option sig_value (ar_signature r')"
  shows "read_back r = read_back r' \<or> sha256_collision \<or> sha512_collision"
proof -
  have v: "v = hmac_check_key secret kid" using assms(1) by (auto simp: new_hmac_key_def split: if_splits)
  have acc: "\<exists>s m. ar_signature r = Some s \<and> receipt_signing_input r (sig_alg s) (sig_key_id s) (sig_version s) = Inr m
      \<and> hmac_sha256 secret m = sig_value s" if "receipt_verify r (One_Key v) = Inr ()" for r
    using that by (auto simp: receipt_verify_def check_signature_def v hmac_check_key_def split: option.splits if_splits)
  obtain s m where s: "ar_signature r = Some s" "receipt_signing_input r (sig_alg s) (sig_key_id s) (sig_version s) = Inr m"
    "hmac_sha256 secret m = sig_value s" using acc [OF assms(4)] by blast
  obtain s' m' where s': "ar_signature r' = Some s'" "receipt_signing_input r' (sig_alg s') (sig_key_id s') (sig_version s') = Inr m'"
    "hmac_sha256 secret m' = sig_value s'" using acc [OF assms(5)] by blast
  have "sig_value s = sig_value s'" using assms(6) s(1) s'(1) by simp
  then have "m = m' \<or> sha256_collision" using s(3) s'(3) hmac_eq [of secret m m'] by simp
  then show ?thesis
  proof
    assume m: "m = m'"
    from signing_input_binds [OF assms(2,3) s(2) s'(2) [folded m]] show ?thesis
    proof
      assume e: "read_back r\<lparr>ar_signature := None\<rparr> = read_back r'\<lparr>ar_signature := None\<rparr>
        \<and> sig_alg s = sig_alg s' \<and> sig_key_id s = sig_key_id s' \<and> sig_version s = sig_version s'"
      then have "s = s'" using \<open>sig_value s = sig_value s'\<close> by (cases s; cases s') simp
      then have "ar_signature (read_back r) = ar_signature (read_back r')" using s(1) s'(1) by (simp add: read_back_def)
      then have "read_back r = read_back r'" using e by (cases "read_back r"; cases "read_back r'") simp
      then show ?thesis by simp
    qed simp
  qed simp
qed

section \<open>A receipt\<close>

definition sample_receipt :: action_receipt where
  "sample_receipt = \<lparr>ar_receipt_id = lit ''00000000-0000-4000-8000-000000000001'', ar_issued_at = Instant 2026 1 31 23 59 59 999999,
     ar_issuer = lit ''acme'',
     ar_authority = \<lparr>auth_scope_path = [lit ''root'', lit ''a''], auth_trajectory_id = lit ''t'',
       auth_capability = \<lparr>cap_grant = lit ''g'', cap_tables = [lit ''orders''], cap_tenants = [], cap_row_limit = Some 5\<rparr>\<rparr>,
     ar_intent = \<lparr>int_plan_hash = replicate 64 97, int_stated = \<lparr>sf_rows = Some 1, sf_tables = [lit ''orders'']\<rparr>\<rparr>,
     ar_effect = \<lparr>eff_substrate_id = lit ''db'', eff_schema_hash = replicate 64 97, eff_diff_hash = replicate 64 98, eff_row_root = replicate 64 99,
       eff_row_count = 2, eff_summary = \<lparr>sum_inserted = 1, sum_updated = 1, sum_deleted = 0, sum_tables = [lit ''orders''], sum_tenants = [], sum_other_tenants = 0\<rparr>,
       eff_truncated = False\<rparr>,
     ar_coverage = \<lparr>cov_observed_tables = [lit ''orders''], cov_cascade_closed = True, cov_authorizer_on = True, cov_known_gaps = [], cov_measurement = TRANSACTIONAL\<rparr>,
     ar_decision = \<lparr>dec_verdict_hash = replicate 64 97, dec_admitted = True, dec_checkers = [], dec_policy_epoch = 0, dec_repair_of = None\<rparr>,
     ar_cost = \<lparr>cost_txn_ids = [], cost_settled_usd = Dec 25 (- 1), cost_served_models = [lit ''m''], cost_quantities = [], cost_served_by = []\<rparr>,
     ar_outcome = \<lparr>out_status = COMMITTED, out_substrate_txid = None\<rparr>,
     ar_anchors = \<lparr>anc_agentgov = None, anc_escrow = None, anc_log = None\<rparr>, ar_signature = None\<rparr>"

lemma sample_new: "new_receipt (sample_receipt\<lparr>ar_signature := x\<rparr>) = Inr (sample_receipt\<lparr>ar_signature := x\<rparr>)"
  by (simp add: new_receipt_def sample_receipt_def summary_total_def)

lemma sets_of_one: "as_set [] = []" "as_set [t] = [t]"
  by (simp_all add: as_set_def)

lemma sample_uuid: "uuid_ok (lit ''00000000-0000-4000-8000-000000000001'')"
  by code_simp

lemma sample_authority: "authority_ok (ar_authority sample_receipt)" "intent_ok (ar_intent sample_receipt)"
  by (simp_all add: sample_receipt_def text_ok_def authority_ok_def capability_ok_def intent_ok_def set_ok_def sets_of_one count_ok_def
      hex64_def is_hex_lower_def list_all_iff)

lemma sample_effect: "effect_ok (ar_effect sample_receipt)" "coverage_ok (ar_coverage sample_receipt)" "decision_ok (ar_decision sample_receipt)"
  by (simp_all add: sample_receipt_def text_ok_def effect_ok_def summary_ok_def coverage_ok_def decision_ok_def set_ok_def sets_of_one count_ok_def
      hex64_def is_hex_lower_def list_all_iff MEASUREMENTS_def)

lemma sample_spent: "cost_ok (ar_cost sample_receipt)" "outcome_ok (ar_outcome sample_receipt)" "anchors_ok (ar_anchors sample_receipt)"
  by (simp_all add: sample_receipt_def text_ok_def cost_ok_def ids_ok_def set_ok_def sets_of_one outcome_ok_def anchors_ok_def)

lemma sample_rest: "real_instant (ar_issued_at sample_receipt)" "text_ok (ar_issuer sample_receipt)" "1000 \<le> iyear (ar_issued_at sample_receipt)"
  "uuid_ok (ar_receipt_id sample_receipt)"
  using sample_uuid by (simp_all add: sample_receipt_def real_instant_def days_in_month_def text_ok_def)

lemma sample_parts: "parts_ok (sample_receipt\<lparr>ar_signature := x\<rparr>)"
  using sample_authority sample_effect sample_spent sample_rest by (simp add: parts_ok_def)

lemma sample_money: "money_text (Dec 25 (- 1)) = Inr (lit ''2.50000000'')"
  by (simp add: money_text_def quantize_def aligned_def dec_lt_def dec_eq_def DEFAULT_PREC_def num_digits_def digits.simps
      dec_field_def fixed_digits_def upt_rec)

lemma encodable_obj: "encodable (obj kvs) \<longleftrightarrow> list_all (\<lambda>(k, v). list_all unicode_scalar (lit k) \<and> encodable v) kvs"
  by (auto simp: obj_def list_all_iff key_text_def)

lemma encodable_strs: "encodable (strs ts) \<longleftrightarrow> list_all (list_all unicode_scalar) ts"
  by (auto simp: strs_def list_all_iff)

lemma sample_body: "\<exists>b. receipt_body sample_receipt = Inr b \<and> list_all (\<lambda>(k, v). list_all unicode_scalar (lit k) \<and> encodable v) b"
proof -
  have iso: "list_all unicode_scalar (iso t)" for t by (rule scalars_list)
  have rep: "list_all unicode_scalar (replicate n c)" if "c < 55296" for n c using that by (simp add: list_all_iff scalar_below)
  show ?thesis
    by (simp add: rep receipt_body_def cost_json_def sample_receipt_def sample_money encodable_obj encodable_strs scalar_below iso
      authority_json_def capability_json_def intent_json_def stated_json_def effect_json_def summary_json_def coverage_json_def
      decision_json_def outcome_json_def anchors_json_def nullable_json_def safe_int_def MAX_SAFE_INTEGER_def RECEIPT_VERSION_def)
qed

lemma sample_encodes:
  assumes "pred_option (\<lambda>s. list_all unicode_scalar (sig_alg s) \<and> list_all unicode_scalar (sig_key_id s) \<and> sig_version s \<in> {1, 2}) x"
  shows "\<exists>bs. receipt_canonical (sample_receipt\<lparr>ar_signature := x\<rparr>) = Inr bs"
proof -
  obtain b where b: "receipt_body sample_receipt = Inr b" "list_all (\<lambda>(k, v). list_all unicode_scalar (lit k) \<and> encodable v) b"
    using sample_body by blast
  have same: "receipt_body (sample_receipt\<lparr>ar_signature := x\<rparr>) = Inr b" using b(1) by (simp add: receipt_body_def)
  have "list_all unicode_scalar (hex_bytes bs)" for bs
    by (rule scalar_ascii) (use hex_bytes_chars [of bs] in \<open>auto simp: is_hex_lower_def list_all_iff\<close>)
  then have "encodable (nullable_json signature_json x)"
    using assms by (cases x) (auto simp: nullable_json_def signature_json_def encodable_obj scalar_below safe_int_def MAX_SAFE_INTEGER_def)
  then have "encodable (obj (b @ [(''sig'', nullable_json signature_json x)]))"
    using b(2) by (simp add: encodable_obj scalar_below)
  from encodable_canonical [OF this] show ?thesis by (simp add: receipt_canonical_def receipt_json_def same)
qed

definition sample_secret :: "byte list" where
  "sample_secret = replicate 32 7"

definition sample_kid :: ustr where
  "sample_kid = replicate 16 97"

lemma sample_key: "new_hmac_key sample_secret (Some sample_kid) = Inr (hmac_sign_key sample_secret (Some sample_kid), hmac_check_key sample_secret (Some sample_kid))"
  "key_id_ok (vr_key_id (hmac_check_key sample_secret (Some sample_kid)))"
  by (simp_all add: new_hmac_key_def sample_secret_def sample_kid_def hmac_check_key_def hmac_key_id_def key_id_ok_def is_hex_lower_def list_all_iff)

lemma sample_signed:
  "\<exists>s bs. receipt_sign sample_receipt (hmac_sign_key sample_secret (Some sample_kid)) None = Inr (sample_receipt\<lparr>ar_signature := Some s\<rparr>)
    \<and> receipt_canonical (sample_receipt\<lparr>ar_signature := Some s\<rparr>) = Inr bs"
proof -
  obtain b where b: "receipt_body sample_receipt = Inr b" "list_all (\<lambda>(k, v). list_all unicode_scalar (lit k) \<and> encodable v) b"
    using sample_body by blast
  have kid: "list_all unicode_scalar sample_kid" by (simp add: sample_kid_def list_all_iff scalar_below)
  have alg: "list_all unicode_scalar ALG_HMAC_SHA256" by (simp add: ALG_HMAC_SHA256_def scalar_below)
  have "encodable (obj (b @ [(''sig'', obj [(''alg'', VStr ALG_HMAC_SHA256), (''key_id'', VStr sample_kid)])]))"
    using b(2) kid alg by (simp add: encodable_obj scalar_below)
  then obtain c where c: "canonical_bytes (obj (b @ [(''sig'', obj [(''alg'', VStr ALG_HMAC_SHA256), (''key_id'', VStr sample_kid)])])) = Inr c"
    using encodable_canonical by blast
  define s where "s = \<lparr>sig_alg = ALG_HMAC_SHA256, sig_key_id = sample_kid, sig_value = hmac_sha256 sample_secret (RECEIPT_DOMAIN @ c), sig_version = 1\<rparr>"
  have "receipt_sign sample_receipt (hmac_sign_key sample_secret (Some sample_kid)) None = Inr (sample_receipt\<lparr>ar_signature := Some s\<rparr>)"
    by (simp add: receipt_sign_def signature_version_def hmac_sign_key_def hmac_key_id_def receipt_signing_input_def b(1) signing_input_def c
        s_def sample_new del: rbind_eq_Inr)
  moreover obtain bs where "receipt_canonical (sample_receipt\<lparr>ar_signature := Some s\<rparr>) = Inr bs"
    using sample_encodes [of "Some s"] kid alg by (auto simp: s_def)
  ultimately show ?thesis by blast
qed

theorem sent_receipt_verifies_witness:
  "\<exists>r' t r''. receipt_sign sample_receipt (hmac_sign_key sample_secret (Some sample_kid)) None = Inr r' \<and> receipt_loads t = Inr r''
    \<and> r'' = read_back r' \<and> receipt_verify r'' (One_Key (hmac_check_key sample_secret (Some sample_kid))) = Inr ()"
proof -
  obtain s bs where s: "receipt_sign sample_receipt (hmac_sign_key sample_secret (Some sample_kid)) None = Inr (sample_receipt\<lparr>ar_signature := Some s\<rparr>)"
    "receipt_canonical (sample_receipt\<lparr>ar_signature := Some s\<rparr>) = Inr bs" using sample_signed by blast
  have "parts_ok sample_receipt" using sample_parts [of None] by (simp add: parts_ok_def)
  from sent_receipt_verifies [OF sample_key(1,2) this s, of "[]"] s(1) show ?thesis by blast
qed

lemma parts_ok_read_back: "parts_ok r \<Longrightarrow> parts_ok (read_back r)"
proof -
  have "cost_ok c \<Longrightarrow> cost_ok (quantum_cost c)" for c
  proof -
    have "utf16_order \<circ> q_unit \<circ> quantum_quantity = utf16_order \<circ> q_unit" "q_unit \<circ> quantum_quantity = q_unit"
      by (auto simp: quantum_quantity_def)
    then show "cost_ok c \<Longrightarrow> cost_ok (quantum_cost c)"
      by (auto simp: cost_ok_def quantum_cost_def sort_key_map list_all_iff quantity_ok_def quantum_quantity_def)
  qed
  then show "parts_ok r \<Longrightarrow> ?thesis" by (simp add: parts_ok_def read_back_def)
qed

theorem signature_binds_receipt_witness:
  "\<exists>r. receipt_sign sample_receipt (hmac_sign_key sample_secret (Some sample_kid)) None = Inr r \<and> r \<noteq> read_back r
    \<and> (read_back r = read_back (read_back r) \<or> sha256_collision \<or> sha512_collision)"
proof -
  obtain s bs where s: "receipt_sign sample_receipt (hmac_sign_key sample_secret (Some sample_kid)) None = Inr (sample_receipt\<lparr>ar_signature := Some s\<rparr>)"
    "receipt_canonical (sample_receipt\<lparr>ar_signature := Some s\<rparr>) = Inr bs" using sample_signed by blast
  define r where "r = sample_receipt\<lparr>ar_signature := Some s\<rparr>"
  have v: "receipt_verify r (One_Key (hmac_check_key sample_secret (Some sample_kid))) = Inr ()"
    unfolding r_def by (rule hmac.signed_verifies(1) [OF s(1)])
  obtain b where "receipt_body r = Inr b" using s(2) by (auto simp: r_def receipt_canonical_def receipt_json_def)
  then have v': "receipt_verify (read_back r) (One_Key (hmac_check_key sample_secret (Some sample_kid))) = Inr ()"
    using v verify_read_back by simp
  have p: "parts_ok r" unfolding r_def by (rule sample_parts)
  have "quantum (Dec 25 (- 1)) \<noteq> Dec 25 (- 1)" by (simp add: quantum_def quantize_def)
  then have "cost_settled_usd (ar_cost r) \<noteq> cost_settled_usd (ar_cost (read_back r))"
    by (simp add: r_def read_back_def quantum_cost_def sample_receipt_def)
  then have "r \<noteq> read_back r" by metis
  moreover have "read_back r = read_back (read_back r) \<or> sha256_collision \<or> sha512_collision"
    by (rule signature_binds_receipt [OF sample_key(1) p parts_ok_read_back [OF p] v v']) (simp add: read_back_def)
  ultimately show ?thesis using s(1) unfolding r_def by blast
qed

end
